(* ===== verification/GcrPrelude.thy ===== *)
theory GcrPrelude
  imports Main "HOL-Library.Word" "HOL-Library.Monad_Syntax"
begin

text \<open>
  Shared vocabulary of the development: the machine types of the C sources, the reading of
  undefined behaviour as the value \<open>None\<close>, memory blocks with checked access, wrap-around of
  \<open>size_t\<close>, and the generic lemmas on lists and words that the component theories use.
\<close>

unbundle bit_operations_syntax

section \<open>Machine types\<close>

type_synonym byte = "8 word"
type_synonym u16 = "16 word"
type_synonym u32 = "32 word"
type_synonym u64 = "64 word"

text \<open>
  A C object in memory is a list of bytes. A computation that reads or writes outside of its
  object, or that dereferences \<open>NULL\<close>, has no defined result: such a computation is \<open>None\<close>, so
  a theorem that says \<open>\<exists>r. f x = Some r\<close> is a memory safety theorem.
\<close>

type_synonym bytes = "byte list"

text \<open>A failed assertion aborts the program, which is the value \<open>None\<close>, too.\<close>

definition c_assert :: "bool \<Rightarrow> unit option" where
  "c_assert p = (if p then Some () else None)"

lemma c_assert_simps [simp]: "c_assert True = Some ()" "c_assert False = None"
  by (simp_all add: c_assert_def)

lemma c_assert_bind: "Option.bind (c_assert p) f = (if p then f () else None)"
  by (simp add: c_assert_def)

section \<open>Collections of rewrite rules\<close>

text \<open>
  \<open>mem_simps\<close> evaluates checked memory access; \<open>wire_simps\<close> evaluates the byte encodings of the
  wire formats.
\<close>

named_theorems mem_simps
named_theorems wire_simps

section \<open>Sizes\<close>

text \<open>A \<open>gint\<close> has 32 bits and wraps around.\<close>

definition gint :: "int \<Rightarrow> int" where
  "gint x = (x + 2147483648) mod 4294967296 - 2147483648"

lemma gint_small [simp]: "- 2147483648 \<le> x \<Longrightarrow> x < 2147483648 \<Longrightarrow> gint x = x"
  by (simp add: gint_def)

lemma gint_range: "- 2147483648 \<le> gint x" "gint x < 2147483648"
  unfolding gint_def using pos_mod_bound [of 4294967296 "x + 2147483648"] pos_mod_sign [of 4294967296 "x + 2147483648"]
  by linarith+

text \<open>
  A \<open>size_t\<close> has 64 bits and wraps around. Memory objects are smaller than half of the address
  space (the C library refuses larger requests), which is what \<open>object_limit\<close> names.
\<close>

definition size_limit :: nat where
  "size_limit = 2 ^ 64"

definition object_limit :: nat where
  "object_limit = 2 ^ 63"

definition sz_add :: "nat \<Rightarrow> nat \<Rightarrow> nat" where
  "sz_add a b = (a + b) mod size_limit"

definition sz_mul :: "nat \<Rightarrow> nat \<Rightarrow> nat" where
  "sz_mul a b = (a * b) mod size_limit"

lemma object_limit_less_size_limit [simp]: "object_limit < size_limit"
  by (simp add: object_limit_def size_limit_def)

lemma size_limit_double: "size_limit = 2 * object_limit"
  by (simp add: object_limit_def size_limit_def)

lemma sz_add_no_wrap [mem_simps]: "a + b < size_limit \<Longrightarrow> sz_add a b = a + b"
  by (simp add: sz_add_def)

lemma sz_add_small [mem_simps]: "a + b < object_limit \<Longrightarrow> sz_add a b = a + b"
  by (simp add: sz_add_def size_limit_double)

lemma sz_mul_no_wrap [mem_simps]: "a * b < size_limit \<Longrightarrow> sz_mul a b = a * b"
  by (simp add: sz_mul_def)

section \<open>Checked memory access\<close>

definition mem_read :: "bytes option \<Rightarrow> nat \<Rightarrow> nat \<Rightarrow> bytes option" where
  "mem_read m off n = (case m of
      None \<Rightarrow> (if n = 0 then Some [] else None)
    | Some bs \<Rightarrow> (if off + n \<le> length bs then Some (take n (drop off bs)) else None))"

definition mem_write :: "bytes option \<Rightarrow> nat \<Rightarrow> bytes \<Rightarrow> bytes option option" where
  "mem_write m off val = (case m of
      None \<Rightarrow> (if val = [] then Some None else None)
    | Some bs \<Rightarrow> (if off + length val \<le> length bs
        then Some (Some (take off bs @ val @ drop (off + length val) bs)) else None))"

lemma mem_read_Some [mem_simps]:
  "off + n \<le> length bs \<Longrightarrow> mem_read (Some bs) off n = Some (take n (drop off bs))"
  by (simp add: mem_read_def)

lemma mem_write_Some [mem_simps]:
  "off + length val \<le> length bs \<Longrightarrow>
    mem_write (Some bs) off val = Some (Some (take off bs @ val @ drop (off + length val) bs))"
  by (simp add: mem_write_def)

lemma mem_write_length:
  "mem_write (Some bs) off val = Some (Some bs') \<Longrightarrow> length bs' = length bs"
  by (auto simp: mem_write_def split: if_splits)

lemma mem_write_prefix:
  assumes "mem_write (Some bs) off val = Some (Some bs')"
  shows "take (off + length val) bs' = take off bs @ val"
  using assms by (auto simp: mem_write_def split: if_splits)

section \<open>Generic lemmas\<close>

lemma take_drop_prefix: "take (a + b) xs = take a xs @ take b (drop a xs)"
  by (simp add: take_add)

lemma take_eq_append_take:
  "take n xs = take n ys \<Longrightarrow> m \<le> n \<Longrightarrow> take m xs = take m ys"
  by (metis min.absorb1 take_take)

lemma list_eq_split_at:
  "n \<le> length xs \<Longrightarrow> xs = take n xs @ drop n xs"
  by simp

lemma take_drop_middle:
  "length xs = a \<Longrightarrow> length ys = b \<Longrightarrow> take b (drop a (xs @ ys @ zs)) = ys"
  by simp

section \<open>Words and bytes\<close>

lemma ff_mask: "(0xff :: 'a::len word) = mask 8"
  by (simp add: mask_eq_exp_minus_1)

lemma ffffffff_mask: "(0xffffffff :: 'a::len word) = mask 32"
  by (simp add: mask_eq_exp_minus_1)

lemma ucast_and_ff [wire_simps]: "ucast ((x :: 'a::len word) AND 0xff) = (ucast x :: byte)"
  unfolding ff_mask
  by (rule bit_word_eqI) (auto simp: bit_simps dest: bit_imp_le_length)

lemma ucast_and_ffffffff [wire_simps]:
  "ucast ((x :: 'a::len word) AND 0xffffffff) = (ucast x :: u32)"
  unfolding ffffffff_mask
  by (rule bit_word_eqI) (auto simp: bit_simps dest: bit_imp_le_length)

lemma word_eq_unat: "(x :: 'a::len word) = y \<longleftrightarrow> unat x = unat y"
  by (simp add: word_unat_eq_iff)

lemma byte_nat_bound [simp]: "unat (x :: byte) < 256"
  using unsigned_less [of x] by simp

lemma replicate_numeral: "replicate (numeral k) x = x # replicate (pred_numeral k) x"
  by (simp add: numeral_eq_Suc)

section \<open>The allocator interface\<close>

text \<open>
  \<open>EggBufferAllocator\<close> and \<open>EggAllocator\<close> are function pointers with the syntax of \<open>realloc\<close>.
  The functions they point to are not part of the callers: \<open>R al p n\<close> is what allocator \<open>al\<close>
  returns when it is asked to resize block \<open>p\<close> to \<open>n\<close> bytes. The documented behaviour of
  \<open>realloc\<close> is \<open>realloc_law\<close>: a request that succeeds gives a block of the requested size that
  keeps the old contents, and requests of half of the address space or more are refused.
  \<open>alloc_total\<close> describes the allocators that abort instead of returning \<open>NULL\<close>.
\<close>

datatype allocator = StdRealloc | CustomAllocator nat

type_synonym realloc_fn = "allocator \<Rightarrow> bytes option \<Rightarrow> nat \<Rightarrow> bytes option"

definition realloc_law :: "realloc_fn \<Rightarrow> bool" where
  "realloc_law R \<longleftrightarrow> (\<forall>al p n m. R al p n = Some m \<longrightarrow>
     length m = n \<and> n < object_limit \<and>
     (\<forall>bs. p = Some bs \<longrightarrow> take (min n (length bs)) m = take (min n (length bs)) bs))"

definition alloc_total :: "realloc_fn \<Rightarrow> bool" where
  "alloc_total R \<longleftrightarrow> (\<forall>al n. n < object_limit \<longrightarrow> R al None n \<noteq> None)"

lemma realloc_lawD:
  assumes "realloc_law R" "R al p n = Some m"
  shows "length m = n" "n < object_limit"
    "p = Some bs \<Longrightarrow> take (min n (length bs)) m = take (min n (length bs)) bs"
  using assms unfolding realloc_law_def by blast+

lemma copy_string:
  assumes "length m = length s + 1"
  shows "mem_write (Some m) 0 s = Some (Some (s @ drop (length s) m))"
    "mem_write (Some (s @ drop (length s) m)) (length s) [0] = Some (Some (s @ [0]))"
  using assms by (simp_all add: mem_write_def)

text \<open>An allocator that keeps the law: it pads with zeros.\<close>

definition padding_realloc :: realloc_fn where
  "padding_realloc al p n = (if n < object_limit
     then Some (take n ((case p of None \<Rightarrow> [] | Some bs \<Rightarrow> bs) @ replicate n 0)) else None)"

lemma padding_realloc_law: "realloc_law padding_realloc"
  by (auto simp: realloc_law_def padding_realloc_def min_def split: if_splits)

lemma padding_realloc_total: "alloc_total padding_realloc"
  by (simp add: alloc_total_def padding_realloc_def)

end
