(* ===== verification/Buffer.thy ===== *)
theory Buffer
  imports GcrPrelude
begin

text \<open>
  \<open>egg/egg-buffer.c\<close>: the growable byte buffer that carries the wire formats (the agent
  protocol, OpenSSH keys). The buffer owns one memory block; every operation is translated with
  its bounds checks, its failure counter and the possibility that the allocator refuses a request.
  A result \<open>None\<close> is an access outside of the block.
\<close>

section \<open>The state\<close>

record egg_buffer =
  buf :: "bytes option"
  len :: nat
  allocated_len :: nat
  failures :: nat
  allocator :: "allocator option"

definition empty_buffer :: egg_buffer where
  "empty_buffer = \<lparr>buf = None, len = 0, allocated_len = 0, failures = 0, allocator = None\<rparr>"

definition fail_buffer :: "egg_buffer \<Rightarrow> egg_buffer" where
  "fail_buffer b = b\<lparr>failures := Suc (failures b)\<rparr>"

text \<open>What the buffer holds, and the well-formedness that every operation keeps.\<close>

definition contents :: "egg_buffer \<Rightarrow> bytes" where
  "contents b = (case buf b of None \<Rightarrow> [] | Some m \<Rightarrow> take (len b) m)"

definition buffer_ok :: "egg_buffer \<Rightarrow> bool" where
  "buffer_ok b \<longleftrightarrow> len b \<le> allocated_len b \<and> allocated_len b < object_limit \<and>
     (case buf b of None \<Rightarrow> allocated_len b = 0 | Some m \<Rightarrow> length m = allocated_len b)"

section \<open>Construction and destruction\<close>

definition egg_buffer_init_full ::
  "realloc_fn \<Rightarrow> nat \<Rightarrow> allocator option \<Rightarrow> bool \<times> egg_buffer" where
  "egg_buffer_init_full R reserve al =
     (let b = empty_buffer;
          al' = (case al of None \<Rightarrow> StdRealloc | Some a \<Rightarrow> a);
          reserve' = (if reserve = 0 then 64 else reserve)
      in case R al' None reserve' of
           None \<Rightarrow> (False, fail_buffer b)
         | Some m \<Rightarrow> (True, b\<lparr>buf := Some m, len := 0, allocated_len := reserve',
                              failures := 0, allocator := Some al'\<rparr>))"

definition egg_buffer_init :: "realloc_fn \<Rightarrow> nat \<Rightarrow> bool \<times> egg_buffer" where
  "egg_buffer_init R reserve = egg_buffer_init_full R reserve None"

definition egg_buffer_init_static :: "bytes \<Rightarrow> egg_buffer" where
  "egg_buffer_init_static bs = empty_buffer\<lparr>buf := Some bs, len := length bs,
     allocated_len := length bs, failures := 0, allocator := None\<rparr>"

definition egg_buffer_init_allocated :: "bytes \<Rightarrow> allocator option \<Rightarrow> egg_buffer" where
  "egg_buffer_init_allocated bs al = empty_buffer\<lparr>buf := Some bs, len := length bs,
     allocated_len := length bs, failures := 0,
     allocator := Some (case al of None \<Rightarrow> StdRealloc | Some a \<Rightarrow> a)\<rparr>"

definition egg_buffer_reset :: "egg_buffer \<Rightarrow> egg_buffer option" where
  "egg_buffer_reset b = do {
     m \<leftarrow> mem_write (buf b) 0 (replicate (allocated_len b) 0);
     Some (b\<lparr>buf := m, len := 0, failures := 0\<rparr>) }"

text \<open>The first component is the block that is given back to the allocator.\<close>

definition egg_buffer_uninit :: "egg_buffer \<Rightarrow> bytes option \<times> egg_buffer" where
  "egg_buffer_uninit b =
     (if buf b \<noteq> None \<and> allocator b \<noteq> None then buf b else None, empty_buffer)"

definition egg_buffer_uninit_steal :: "egg_buffer \<Rightarrow> (bytes option \<times> nat) \<times> egg_buffer" where
  "egg_buffer_uninit_steal b = ((buf b, len b), empty_buffer)"

definition egg_buffer_set_allocator ::
  "realloc_fn \<Rightarrow> egg_buffer \<Rightarrow> allocator option \<Rightarrow> (bool \<times> egg_buffer) option" where
  "egg_buffer_set_allocator R b al =
     (let al' = (case al of None \<Rightarrow> StdRealloc | Some a \<Rightarrow> a)
      in if allocator b = Some al' then Some (True, b)
         else if allocated_len b \<noteq> 0 then
           (case R al' None (allocated_len b) of
              None \<Rightarrow> Some (False, b)
            | Some m \<Rightarrow> do {
                old \<leftarrow> mem_read (buf b) 0 (allocated_len b);
                m' \<leftarrow> mem_write (Some m) 0 old;
                Some (True, b\<lparr>buf := m', allocator := Some al'\<rparr>) })
         else Some (True, b\<lparr>buf := None, allocator := Some al'\<rparr>))"

definition egg_buffer_equal :: "egg_buffer \<Rightarrow> egg_buffer \<Rightarrow> bool option" where
  "egg_buffer_equal b1 b2 =
     (if len b1 \<noteq> len b2 then Some False
      else do {
        x \<leftarrow> mem_read (buf b1) 0 (len b1);
        y \<leftarrow> mem_read (buf b2) 0 (len b1);
        Some (x = y) })"

section \<open>Growing\<close>

definition egg_buffer_reserve :: "realloc_fn \<Rightarrow> egg_buffer \<Rightarrow> nat \<Rightarrow> bool \<times> egg_buffer" where
  "egg_buffer_reserve R b n =
     (if n < allocated_len b then (True, b)
      else
        let newlen = sz_mul (allocated_len b) 2;
            newlen = (if n > newlen then sz_add newlen n else newlen)
        in case allocator b of
             None \<Rightarrow> (False, fail_buffer b)
           | Some al \<Rightarrow> (case R al (buf b) newlen of
               None \<Rightarrow> (False, fail_buffer b)
             | Some m \<Rightarrow> (True, b\<lparr>buf := Some m, allocated_len := newlen\<rparr>)))"

definition egg_buffer_resize :: "realloc_fn \<Rightarrow> egg_buffer \<Rightarrow> nat \<Rightarrow> bool \<times> egg_buffer" where
  "egg_buffer_resize R b n =
     (let (ok, b) = egg_buffer_reserve R b n
      in if \<not> ok then (False, b) else (True, b\<lparr>len := n\<rparr>))"

text \<open>\<open>egg_buffer_add_empty\<close> returns the position of the new space, or \<open>None\<close> for \<open>NULL\<close>.\<close>

definition egg_buffer_add_empty ::
  "realloc_fn \<Rightarrow> egg_buffer \<Rightarrow> nat \<Rightarrow> nat option \<times> egg_buffer" where
  "egg_buffer_add_empty R b n =
     (let pos = len b;
          (ok, b) = egg_buffer_reserve R b (sz_add (len b) n)
      in if \<not> ok then (None, b) else (Some pos, b\<lparr>len := sz_add (len b) n\<rparr>))"

definition egg_buffer_append ::
  "realloc_fn \<Rightarrow> egg_buffer \<Rightarrow> bytes \<Rightarrow> (bool \<times> egg_buffer) option" where
  "egg_buffer_append R b val =
     (let (ok, b) = egg_buffer_reserve R b (sz_add (len b) (length val))
      in if \<not> ok then Some (False, b)
         else do {
           m \<leftarrow> mem_write (buf b) (len b) val;
           Some (True, b\<lparr>buf := m, len := sz_add (len b) (length val)\<rparr>) })"

definition egg_buffer_add_byte ::
  "realloc_fn \<Rightarrow> egg_buffer \<Rightarrow> byte \<Rightarrow> (bool \<times> egg_buffer) option" where
  "egg_buffer_add_byte R b val =
     (let (ok, b) = egg_buffer_reserve R b (sz_add (len b) 1)
      in if \<not> ok then Some (False, b)
         else do {
           m \<leftarrow> mem_write (buf b) (len b) [val];
           Some (True, b\<lparr>buf := m, len := sz_add (len b) 1\<rparr>) })"

definition egg_buffer_get_byte ::
  "egg_buffer \<Rightarrow> nat \<Rightarrow> (egg_buffer \<times> (nat \<times> byte) option) option" where
  "egg_buffer_get_byte b off =
     (if len b < 1 \<or> off > len b - 1 then Some (fail_buffer b, None)
      else do {
        bs \<leftarrow> mem_read (buf b) off 1;
        Some (b, Some (off + 1, bs ! 0)) })"

section \<open>Integers in network order\<close>

definition egg_buffer_encode_uint16 :: "u16 \<Rightarrow> bytes" where
  "egg_buffer_encode_uint16 val =
     [ucast (drop_bit 8 val AND 0xff), ucast (drop_bit 0 val AND 0xff)]"

definition egg_buffer_decode_uint16 :: "bytes \<Rightarrow> u16" where
  "egg_buffer_decode_uint16 p = push_bit 8 (ucast (p ! 0)) OR ucast (p ! 1)"

definition egg_buffer_encode_uint32 :: "u32 \<Rightarrow> bytes" where
  "egg_buffer_encode_uint32 val =
     [ucast (drop_bit 24 val AND 0xff), ucast (drop_bit 16 val AND 0xff),
      ucast (drop_bit 8 val AND 0xff), ucast (drop_bit 0 val AND 0xff)]"

definition egg_buffer_decode_uint32 :: "bytes \<Rightarrow> u32" where
  "egg_buffer_decode_uint32 p =
     push_bit 24 (ucast (p ! 0)) OR push_bit 16 (ucast (p ! 1)) OR
     push_bit 8 (ucast (p ! 2)) OR ucast (p ! 3)"

text \<open>The bounds check that the \<open>set\<close> and \<open>get\<close> functions of the fixed-width integers share.\<close>

definition field_out_of_range :: "egg_buffer \<Rightarrow> nat \<Rightarrow> nat \<Rightarrow> bool" where
  "field_out_of_range b off n \<longleftrightarrow> len b < n \<or> off > len b - n"

definition egg_buffer_set_uint16 ::
  "egg_buffer \<Rightarrow> nat \<Rightarrow> u16 \<Rightarrow> (bool \<times> egg_buffer) option" where
  "egg_buffer_set_uint16 b off val =
     (if field_out_of_range b off 2 then Some (False, fail_buffer b)
      else do {
        m \<leftarrow> mem_write (buf b) off (egg_buffer_encode_uint16 val);
        Some (True, b\<lparr>buf := m\<rparr>) })"

definition egg_buffer_add_uint16 ::
  "realloc_fn \<Rightarrow> egg_buffer \<Rightarrow> u16 \<Rightarrow> (bool \<times> egg_buffer) option" where
  "egg_buffer_add_uint16 R b val =
     (let (ok, b) = egg_buffer_reserve R b (sz_add (len b) 2)
      in if \<not> ok then Some (False, b)
         else let b = b\<lparr>len := sz_add (len b) 2\<rparr>
           in do { (_, b) \<leftarrow> egg_buffer_set_uint16 b (len b - 2) val; Some (True, b) })"

definition egg_buffer_get_uint16 ::
  "egg_buffer \<Rightarrow> nat \<Rightarrow> (egg_buffer \<times> (nat \<times> u16) option) option" where
  "egg_buffer_get_uint16 b off =
     (if field_out_of_range b off 2 then Some (fail_buffer b, None)
      else do {
        bs \<leftarrow> mem_read (buf b) off 2;
        Some (b, Some (off + 2, egg_buffer_decode_uint16 bs)) })"

definition egg_buffer_set_uint32 ::
  "egg_buffer \<Rightarrow> nat \<Rightarrow> u32 \<Rightarrow> (bool \<times> egg_buffer) option" where
  "egg_buffer_set_uint32 b off val =
     (if field_out_of_range b off 4 then Some (False, fail_buffer b)
      else do {
        m \<leftarrow> mem_write (buf b) off (egg_buffer_encode_uint32 val);
        Some (True, b\<lparr>buf := m\<rparr>) })"

definition egg_buffer_add_uint32 ::
  "realloc_fn \<Rightarrow> egg_buffer \<Rightarrow> u32 \<Rightarrow> (bool \<times> egg_buffer) option" where
  "egg_buffer_add_uint32 R b val =
     (let (ok, b) = egg_buffer_reserve R b (sz_add (len b) 4)
      in if \<not> ok then Some (False, b)
         else let b = b\<lparr>len := sz_add (len b) 4\<rparr>
           in do { (_, b) \<leftarrow> egg_buffer_set_uint32 b (len b - 4) val; Some (True, b) })"

definition egg_buffer_get_uint32 ::
  "egg_buffer \<Rightarrow> nat \<Rightarrow> (egg_buffer \<times> (nat \<times> u32) option) option" where
  "egg_buffer_get_uint32 b off =
     (if field_out_of_range b off 4 then Some (fail_buffer b, None)
      else do {
        bs \<leftarrow> mem_read (buf b) off 4;
        Some (b, Some (off + 4, egg_buffer_decode_uint32 bs)) })"

definition egg_buffer_add_uint64 ::
  "realloc_fn \<Rightarrow> egg_buffer \<Rightarrow> u64 \<Rightarrow> (bool \<times> egg_buffer) option" where
  "egg_buffer_add_uint64 R b val = do {
     (ok, b) \<leftarrow> egg_buffer_add_uint32 R b (ucast (drop_bit 32 val AND 0xffffffff));
     if \<not> ok then Some (False, b)
     else egg_buffer_add_uint32 R b (ucast (val AND 0xffffffff)) }"

definition egg_buffer_get_uint64 ::
  "egg_buffer \<Rightarrow> nat \<Rightarrow> (egg_buffer \<times> (nat \<times> u64) option) option" where
  "egg_buffer_get_uint64 b off = do {
     (b, r) \<leftarrow> egg_buffer_get_uint32 b off;
     case r of None \<Rightarrow> Some (b, None)
     | Some (off, hi) \<Rightarrow> do {
         (b, r) \<leftarrow> egg_buffer_get_uint32 b off;
         case r of None \<Rightarrow> Some (b, None)
         | Some (off, lo) \<Rightarrow> Some (b, Some (off, push_bit 32 (ucast hi) OR ucast lo)) } }"

section \<open>Byte arrays and strings\<close>

text \<open>
  A byte array is its length as an unsigned 32-bit integer and its bytes; \<open>NULL\<close> is the length
  \<open>0xffffffff\<close> alone. The value \<open>None\<close> stands for the \<open>NULL\<close> pointer.
\<close>

definition egg_buffer_add_byte_array ::
  "realloc_fn \<Rightarrow> egg_buffer \<Rightarrow> bytes option \<Rightarrow> (bool \<times> egg_buffer) option" where
  "egg_buffer_add_byte_array R b val = (case val of
      None \<Rightarrow> egg_buffer_add_uint32 R b 0xffffffff
    | Some bs \<Rightarrow>
        if length bs \<ge> 0x7fffffff then Some (False, fail_buffer b)
        else do {
          (ok, b) \<leftarrow> egg_buffer_add_uint32 R b (of_nat (length bs));
          if \<not> ok then Some (False, b) else egg_buffer_append R b bs })"

definition egg_buffer_add_byte_array_empty ::
  "realloc_fn \<Rightarrow> egg_buffer \<Rightarrow> nat \<Rightarrow> (nat option \<times> egg_buffer) option" where
  "egg_buffer_add_byte_array_empty R b vlen =
     (if vlen \<ge> 0x7fffffff then Some (None, fail_buffer b)
      else do {
        (ok, b) \<leftarrow> egg_buffer_add_uint32 R b (of_nat vlen);
        if \<not> ok then Some (None, b) else Some (egg_buffer_add_empty R b vlen) })"

definition egg_buffer_get_byte_array ::
  "egg_buffer \<Rightarrow> nat \<Rightarrow> (egg_buffer \<times> (nat \<times> bytes option) option) option" where
  "egg_buffer_get_byte_array b off = do {
     (b, r) \<leftarrow> egg_buffer_get_uint32 b off;
     case r of None \<Rightarrow> Some (b, None)
     | Some (off, n) \<Rightarrow>
         if n = 0xffffffff then Some (b, Some (off, None))
         else if unat n \<ge> 0x7fffffff then Some (fail_buffer b, None)
         else if field_out_of_range b off (unat n) then Some (fail_buffer b, None)
         else do {
           bs \<leftarrow> mem_read (buf b) off (unat n);
           Some (b, Some (off + unat n, Some bs)) } }"

text \<open>
  A C string is the memory in front of its terminator; \<open>c_string\<close> cuts a byte sequence at the
  first zero, as \<open>strlen\<close> does. The string functions do not count their own failures.
\<close>

definition c_string :: "bytes \<Rightarrow> bytes" where
  "c_string s = takeWhile (\<lambda>c. c \<noteq> 0) s"

definition egg_buffer_add_string ::
  "realloc_fn \<Rightarrow> egg_buffer \<Rightarrow> bytes option \<Rightarrow> (bool \<times> egg_buffer) option" where
  "egg_buffer_add_string R b str = (case str of
      None \<Rightarrow> egg_buffer_add_uint32 R b 0xffffffff
    | Some s \<Rightarrow>
        let n = length (c_string s)
        in if n \<ge> 0x7fffffff then Some (False, b)
           else do {
             (ok, b) \<leftarrow> egg_buffer_add_uint32 R b (of_nat n);
             if \<not> ok then Some (False, b) else egg_buffer_append R b (c_string s) })"

definition pick_allocator :: "egg_buffer \<Rightarrow> allocator option \<Rightarrow> allocator" where
  "pick_allocator b al = (case al of Some a \<Rightarrow> a
     | None \<Rightarrow> (case allocator b of Some a \<Rightarrow> a | None \<Rightarrow> StdRealloc))"

text \<open>
  \<open>egg_buffer_get_string\<close> answers \<open>None\<close> for failure, and otherwise the next offset and the new
  block, which holds the string and its terminator (\<open>None\<close> for the \<open>NULL\<close> string).
\<close>

definition egg_buffer_get_string ::
  "realloc_fn \<Rightarrow> egg_buffer \<Rightarrow> nat \<Rightarrow> allocator option
     \<Rightarrow> (egg_buffer \<times> (nat \<times> bytes option) option) option" where
  "egg_buffer_get_string R b off al = do {
     let al' = pick_allocator b al;
     (b, r) \<leftarrow> egg_buffer_get_uint32 b off;
     case r of None \<Rightarrow> Some (b, None)
     | Some (off, n) \<Rightarrow>
         if n = 0xffffffff then Some (b, Some (off, None))
         else if unat n \<ge> 0x7fffffff then Some (b, None)
         else if field_out_of_range b off (unat n) then Some (b, None)
         else do {
           bs \<leftarrow> mem_read (buf b) off (unat n);
           if 0 \<in> set bs then Some (b, None)
           else case R al' None (unat n + 1) of
             None \<Rightarrow> Some (b, None)
           | Some s \<Rightarrow> do {
               s \<leftarrow> mem_write (Some s) 0 bs;
               s \<leftarrow> mem_write s (unat n) [0];
               Some (b, Some (off + unat n, s)) } } }"

section \<open>String vectors\<close>

fun add_strings ::
  "realloc_fn \<Rightarrow> egg_buffer \<Rightarrow> bytes list \<Rightarrow> (bool \<times> egg_buffer) option" where
  "add_strings R b [] = Some (True, b)"
| "add_strings R b (s # ss) = do {
     (ok, b) \<leftarrow> egg_buffer_add_string R b (Some s);
     if \<not> ok then Some (False, b) else add_strings R b ss }"

definition egg_buffer_add_stringv ::
  "realloc_fn \<Rightarrow> egg_buffer \<Rightarrow> bytes list option \<Rightarrow> (bool \<times> egg_buffer) option" where
  "egg_buffer_add_stringv R b strv = (case strv of
      None \<Rightarrow> Some (False, b)
    | Some ss \<Rightarrow> do {
        (ok, b) \<leftarrow> egg_buffer_add_uint32 R b (of_nat (length ss));
        if \<not> ok then Some (False, b) else add_strings R b ss })"

text \<open>
  The vector is an array of \<open>n + 1\<close> pointers, where \<open>n\<close> was read from the buffer and \<open>n + 1\<close> is
  computed in 32 bits. Storing string \<open>i\<close> is a write to slot \<open>i\<close> of that array. The second
  argument of \<open>get_strings\<close> is the number of strings that the loop still has to read.
\<close>

fun get_strings ::
  "realloc_fn \<Rightarrow> nat \<Rightarrow> egg_buffer \<Rightarrow> nat \<Rightarrow> allocator \<Rightarrow> nat \<Rightarrow> bytes option list
     \<Rightarrow> (egg_buffer \<times> (nat \<times> bytes option list) option) option" where
  "get_strings R 0 b off al i arr = Some (b, Some (off, arr))"
| "get_strings R (Suc k) b off al i arr = do {
     (b, r) \<leftarrow> egg_buffer_get_string R b off (Some al);
     case r of None \<Rightarrow> Some (b, None)
     | Some (off, s) \<Rightarrow>
         if i < length arr then get_strings R k b off al (Suc i) (arr[i := s]) else None }"

definition egg_buffer_get_stringv ::
  "realloc_fn \<Rightarrow> egg_buffer \<Rightarrow> nat \<Rightarrow> allocator option
     \<Rightarrow> (egg_buffer \<times> (nat \<times> bytes option list) option) option" where
  "egg_buffer_get_stringv R b off al = do {
     let al' = pick_allocator b al;
     (b, r) \<leftarrow> egg_buffer_get_uint32 b off;
     case r of None \<Rightarrow> Some (b, None)
     | Some (off, n) \<Rightarrow>
         let slots = unat (n + 1)
         in case R al' None (slots * 8) of
              None \<Rightarrow> Some (b, None)
            | Some _ \<Rightarrow> get_strings R (unat n) b off al' 0 (replicate slots None) }"

section \<open>Encodings are inverted by the decoders\<close>

lemma decode_encode_uint16 [wire_simps]:
  "egg_buffer_decode_uint16 (egg_buffer_encode_uint16 v) = v"
  unfolding egg_buffer_decode_uint16_def egg_buffer_encode_uint16_def ucast_and_ff
  by (rule bit_word_eqI) (auto simp: bit_simps)

lemma decode_encode_uint32 [wire_simps]:
  "egg_buffer_decode_uint32 (egg_buffer_encode_uint32 v) = (v :: u32)"
  unfolding egg_buffer_decode_uint32_def egg_buffer_encode_uint32_def ucast_and_ff
proof (rule bit_word_eqI)
  fix n assume "n < LENGTH(32)"
  then have n: "n < 32" by simp
  let ?bs = "[ucast (drop_bit 24 v), ucast (drop_bit 16 v), ucast (drop_bit 8 v),
    ucast (drop_bit 0 v)] :: byte list"
  consider "n < 8" | "8 \<le> n" "n < 16" | "16 \<le> n" "n < 24" | "24 \<le> n" by linarith
  then show "bit (push_bit 24 (ucast (?bs ! 0)) OR push_bit 16 (ucast (?bs ! 1)) OR
      push_bit 8 (ucast (?bs ! 2)) OR (ucast (?bs ! 3) :: u32)) n = bit v n"
    by cases (use n in \<open>auto simp: bit_simps numeral_3_eq_3\<close>)
qed

lemma length_encode_uint16 [simp]: "length (egg_buffer_encode_uint16 v) = 2"
  by (simp add: egg_buffer_encode_uint16_def)

lemma length_encode_uint32 [simp]: "length (egg_buffer_encode_uint32 v) = 4"
  by (simp add: egg_buffer_encode_uint32_def)

lemma split_uint64:
  fixes v :: u64
  shows "push_bit 32 (ucast (ucast (drop_bit 32 v AND 0xffffffff) :: u32)) OR
         ucast (ucast (v AND 0xffffffff) :: u32) = v"
  unfolding ucast_and_ffffffff by (rule bit_word_eqI) (auto simp: bit_simps)

section \<open>What an operation appends\<close>

text \<open>
  \<open>appends b val r\<close> is the contract of the writing operations: no access outside of the block,
  a well-formed buffer, nothing that was written before is lost, and on success exactly \<open>val\<close> is
  added. An operation that fails half way has added a prefix of \<open>val\<close>.
\<close>

definition appends :: "egg_buffer \<Rightarrow> bytes \<Rightarrow> (bool \<times> egg_buffer) option \<Rightarrow> bool" where
  "appends b val r \<longleftrightarrow> (\<exists>ok b' k. r = Some (ok, b') \<and> buffer_ok b' \<and>
     contents b' = contents b @ take k val \<and> (ok \<longrightarrow> k = length val))"

lemma length_contents: "buffer_ok b \<Longrightarrow> length (contents b) = len b"
  by (auto simp: buffer_ok_def contents_def split: option.splits)

lemma contents_Some: "buf b = Some m \<Longrightarrow> contents b = take (len b) m"
  by (simp add: contents_def)

lemma fail_buffer_simps [simp]:
  "buffer_ok (fail_buffer b) = buffer_ok b" "contents (fail_buffer b) = contents b"
  "len (fail_buffer b) = len b" "allocated_len (fail_buffer b) = allocated_len b"
  "buf (fail_buffer b) = buf b" "allocator (fail_buffer b) = allocator b"
  by (simp_all add: fail_buffer_def buffer_ok_def contents_def split: option.splits)

lemma appends_fail [intro]: "buffer_ok b \<Longrightarrow> appends b val (Some (False, fail_buffer b))"
  by (auto simp: appends_def intro!: exI [of _ 0])

lemma appends_fail' [intro]: "buffer_ok b \<Longrightarrow> appends b val (Some (False, b))"
  by (auto simp: appends_def intro!: exI [of _ 0])

lemma reserve_spec:
  assumes R: "realloc_law R" and ok: "buffer_ok b" and n: "n < object_limit"
    and r: "egg_buffer_reserve R b n = (res, b')"
  shows "buffer_ok b'" "contents b' = contents b" "len b' = len b"
    "res \<Longrightarrow> n \<le> allocated_len b'" "res \<Longrightarrow> buf b' \<noteq> None"
proof -
  let ?dbl = "sz_mul (allocated_len b) 2"
  let ?new = "if n > ?dbl then sz_add ?dbl n else ?dbl"
  have dbl: "?dbl = allocated_len b * 2"
    using ok by (simp add: sz_mul_no_wrap buffer_ok_def size_limit_double)
  have new: "n \<le> ?new" "allocated_len b \<le> ?new"
    if "?new < object_limit" "\<not> n < allocated_len b"
    using n that unfolding dbl by (auto simp: sz_add_no_wrap size_limit_double)
  have grown: "take (len b) m = contents b" "length m = ?new" "?new < object_limit"
    if m: "R al (buf b) ?new = Some m" and big: "\<not> n < allocated_len b" for al m
  proof -
    show l: "length m = ?new" "?new < object_limit" using realloc_lawD [OF R m] by simp_all
    show "take (len b) m = contents b"
    proof (cases "buf b")
      case None
      then show ?thesis using ok by (simp add: contents_def buffer_ok_def)
    next
      case (Some bs)
      have "take (min ?new (length bs)) m = take (min ?new (length bs)) bs"
        using realloc_lawD(3) [OF R m Some] .
      moreover have "len b \<le> min ?new (length bs)"
        using ok Some new [OF l(2) big] by (auto simp: buffer_ok_def)
      ultimately show ?thesis using Some by (auto simp: contents_def dest: take_eq_append_take)
    qed
  qed
  have "buffer_ok b' \<and> contents b' = contents b \<and> len b' = len b \<and>
    (res \<longrightarrow> n \<le> allocated_len b' \<and> buf b' \<noteq> None)"
  proof (cases "n < allocated_len b")
    case True
    then show ?thesis using r ok
      by (auto simp: egg_buffer_reserve_def buffer_ok_def split: option.splits)
  next
    case False
    show ?thesis
    proof (cases "allocator b")
      case None
      then show ?thesis using r ok False by (auto simp: egg_buffer_reserve_def Let_def)
    next
      case (Some al)
      show ?thesis
      proof (cases "R al (buf b) ?new")
        case None
        then show ?thesis using r ok False Some
          by (auto simp: egg_buffer_reserve_def Let_def)
      next
        case (Some m)
        with \<open>allocator b = Some al\<close> False r
        have b': "res" "b' = b\<lparr>buf := Some m, allocated_len := ?new\<rparr>"
          by (auto simp: egg_buffer_reserve_def Let_def)
        show ?thesis
          unfolding b' using grown [OF Some False] new [OF grown(3) [OF Some False] False] ok
          by (auto simp: buffer_ok_def contents_def)
      qed
    qed
  qed
  then show "buffer_ok b'" "contents b' = contents b" "len b' = len b"
    "res \<Longrightarrow> n \<le> allocated_len b'" "res \<Longrightarrow> buf b' \<noteq> None" by blast+
qed

text \<open>Writing behind the contents, when the block has room.\<close>

lemma write_at_end:
  assumes ok: "buffer_ok b" and room: "len b + length val \<le> allocated_len b"
    and m: "buf b = Some m"
  obtains m' where "mem_write (buf b) (len b) val = Some (Some m')" "length m' = length m"
    "buffer_ok (b\<lparr>buf := Some m', len := len b + length val\<rparr>)"
    "contents (b\<lparr>buf := Some m', len := len b + length val\<rparr>) = contents b @ val"
proof -
  have lm: "length m = allocated_len b" using ok m by (simp add: buffer_ok_def)
  obtain m' where m': "mem_write (Some m) (len b) val = Some (Some m')"
    using room lm by (simp add: mem_write_def)
  have l: "length m' = length m" using m' by (rule mem_write_length)
  have "take (len b + length val) m' = take (len b) m @ val"
    using m' by (rule mem_write_prefix)
  then have "contents (b\<lparr>buf := Some m', len := len b + length val\<rparr>) = contents b @ val"
    using m by (simp add: contents_def)
  moreover have "buffer_ok (b\<lparr>buf := Some m', len := len b + length val\<rparr>)"
    using ok room l lm by (simp add: buffer_ok_def)
  ultimately show ?thesis using that m m' l by simp
qed

lemma appends_append:
  assumes R: "realloc_law R" and ok: "buffer_ok b"
    and room: "len b + length val < object_limit"
  shows "appends b val (egg_buffer_append R b val)"
proof -
  obtain res b1 where r: "egg_buffer_reserve R b (len b + length val) = (res, b1)"
    by fastforce
  note b1 = reserve_spec [OF R ok room r]
  show ?thesis
  proof (cases res)
    case False
    then show ?thesis using r b1 room
      by (auto simp: egg_buffer_append_def sz_add_small appends_def intro: exI [of _ 0])
  next
    case True
    then obtain m where m: "buf b1 = Some m" using b1(5) by blast
    have "len b1 + length val \<le> allocated_len b1" using b1(3,4) True by simp
    from write_at_end [OF b1(1) this m] obtain m' where
      "mem_write (buf b1) (len b1) val = Some (Some m')"
      "buffer_ok (b1\<lparr>buf := Some m', len := len b1 + length val\<rparr>)"
      "contents (b1\<lparr>buf := Some m', len := len b1 + length val\<rparr>) = contents b1 @ val" by blast
    then show ?thesis using r True b1 room
      by (auto simp: egg_buffer_append_def sz_add_small appends_def intro: exI [of _ "length val"])
  qed
qed

lemma add_byte_append: "egg_buffer_add_byte R b v = egg_buffer_append R b [v]"
  by (auto simp: egg_buffer_add_byte_def egg_buffer_append_def split: prod.splits)

text \<open>
  The fixed-width integers first move the end of the buffer and then store through \<open>set\<close>; the
  effect is the same as appending the encoding.
\<close>

lemma add_uint32_append:
  assumes "buffer_ok b" "len b + 4 < object_limit" "realloc_law R"
  shows "egg_buffer_add_uint32 R b v = egg_buffer_append R b (egg_buffer_encode_uint32 v)"
proof -
  obtain res b1 where r: "egg_buffer_reserve R b (len b + 4) = (res, b1)" by fastforce
  have "len b1 = len b" using reserve_spec [OF assms(3,1,2) r] by simp
  then show ?thesis using r assms
    by (cases "mem_write (buf b1) (len b) (egg_buffer_encode_uint32 v)")
      (simp_all add: egg_buffer_add_uint32_def egg_buffer_append_def sz_add_small
        egg_buffer_set_uint32_def field_out_of_range_def)
qed

lemma add_uint16_append:
  assumes "buffer_ok b" "len b + 2 < object_limit" "realloc_law R"
  shows "egg_buffer_add_uint16 R b v = egg_buffer_append R b (egg_buffer_encode_uint16 v)"
proof -
  obtain res b1 where r: "egg_buffer_reserve R b (len b + 2) = (res, b1)" by fastforce
  have "len b1 = len b" using reserve_spec [OF assms(3,1,2) r] by simp
  then show ?thesis using r assms
    by (cases "mem_write (buf b1) (len b) (egg_buffer_encode_uint16 v)")
      (simp_all add: egg_buffer_add_uint16_def egg_buffer_append_def sz_add_small
        egg_buffer_set_uint16_def field_out_of_range_def)
qed

lemma appends_then:
  assumes r: "appends b v1 r"
    and f: "\<And>b1. buffer_ok b1 \<Longrightarrow> len b1 = len b + length v1 \<Longrightarrow> appends b1 v2 (f b1)"
    and ok: "buffer_ok b"
  shows "appends b (v1 @ v2) (do { (ok, b) \<leftarrow> r; if \<not> ok then Some (False, b) else f b })"
proof -
  from r obtain ok1 b1 k where b1: "r = Some (ok1, b1)" "buffer_ok b1"
    "contents b1 = contents b @ take k v1" "ok1 \<longrightarrow> k = length v1"
    by (auto simp: appends_def)
  show ?thesis
  proof (cases ok1)
    case False
    have "take k v1 = take (min k (length v1)) (v1 @ v2)" by (auto simp: min_def)
    then have "contents b1 = contents b @ take (min k (length v1)) (v1 @ v2)" using b1(3) by simp
    then show ?thesis using False b1(1,2) unfolding appends_def by fastforce
  next
    case True
    then have l: "len b1 = len b + length v1"
      using b1 length_contents [OF b1(2)] length_contents [OF ok] by simp
    from f [OF b1(2) l] obtain ok2 b2 k2 where b2: "f b1 = Some (ok2, b2)" "buffer_ok b2"
      "contents b2 = contents b1 @ take k2 v2" "ok2 \<longrightarrow> k2 = length v2"
      by (auto simp: appends_def)
    have "contents b2 = contents b @ take (length v1 + k2) (v1 @ v2)"
      using b1(3,4) b2(3) True by simp
    moreover have "ok2 \<longrightarrow> length v1 + k2 = length (v1 @ v2)" using b2(4) by simp
    moreover have "(do { (ok, b) \<leftarrow> r; if \<not> ok then Some (False, b) else f b }) = Some (ok2, b2)"
      using True b1(1) b2(1) by simp
    ultimately show ?thesis using b2(2) unfolding appends_def by blast
  qed
qed

text \<open>The wire format of each kind of value.\<close>

definition wire_uint64 :: "u64 \<Rightarrow> bytes" where
  "wire_uint64 v = egg_buffer_encode_uint32 (ucast (drop_bit 32 v AND 0xffffffff)) @
     egg_buffer_encode_uint32 (ucast (v AND 0xffffffff))"

definition wire_array :: "bytes option \<Rightarrow> bytes" where
  "wire_array val = (case val of
      None \<Rightarrow> egg_buffer_encode_uint32 0xffffffff
    | Some bs \<Rightarrow> egg_buffer_encode_uint32 (of_nat (length bs)) @ bs)"

definition wire_string :: "bytes option \<Rightarrow> bytes" where
  "wire_string str = wire_array (map_option c_string str)"

definition wire_stringv :: "bytes list \<Rightarrow> bytes" where
  "wire_stringv ss = egg_buffer_encode_uint32 (of_nat (length ss)) @
     concat (map (\<lambda>s. wire_string (Some s)) ss)"

lemma length_wire_uint64 [simp]: "length (wire_uint64 v) = 8"
  by (simp add: wire_uint64_def)

lemma length_wire_array [simp]:
  "length (wire_array v) = 4 + (case v of None \<Rightarrow> 0 | Some bs \<Rightarrow> length bs)"
  by (simp add: wire_array_def split: option.splits)

lemma appends_uint32:
  assumes "buffer_ok b" "len b + 4 < object_limit" "realloc_law R"
  shows "appends b (egg_buffer_encode_uint32 v) (egg_buffer_add_uint32 R b v)"
  using assms by (simp add: add_uint32_append appends_append)

lemma appends_uint16:
  assumes "buffer_ok b" "len b + 2 < object_limit" "realloc_law R"
  shows "appends b (egg_buffer_encode_uint16 v) (egg_buffer_add_uint16 R b v)"
  using assms by (simp add: add_uint16_append appends_append)

lemma appends_byte:
  assumes "buffer_ok b" "len b + 1 < object_limit" "realloc_law R"
  shows "appends b [v] (egg_buffer_add_byte R b v)"
  using assms by (simp add: add_byte_append appends_append)

lemma appends_uint64:
  assumes "buffer_ok b" "len b + 8 < object_limit" "realloc_law R"
  shows "appends b (wire_uint64 v) (egg_buffer_add_uint64 R b v)"
  unfolding egg_buffer_add_uint64_def wire_uint64_def
  by (rule appends_then) (use assms in \<open>auto intro!: appends_uint32\<close>)

lemma appends_array:
  assumes "buffer_ok b" "len b + length (wire_array v) < object_limit" "realloc_law R"
  shows "appends b (wire_array v) (egg_buffer_add_byte_array R b v)"
proof (cases v)
  case None
  then show ?thesis using assms
    by (simp add: egg_buffer_add_byte_array_def wire_array_def appends_uint32)
next
  case (Some bs)
  have "appends b (egg_buffer_encode_uint32 (of_nat (length bs)) @ bs)
    (do { (ok, b) \<leftarrow> egg_buffer_add_uint32 R b (of_nat (length bs));
          if \<not> ok then Some (False, b) else egg_buffer_append R b bs })"
    by (rule appends_then)
      (use assms Some in \<open>auto intro!: appends_uint32 appends_append simp: wire_array_def\<close>)
  then show ?thesis using Some assms(1)
    by (auto simp: egg_buffer_add_byte_array_def wire_array_def)
qed

lemma appends_string:
  assumes "buffer_ok b" "len b + length (wire_string v) < object_limit" "realloc_law R"
  shows "appends b (wire_string v) (egg_buffer_add_string R b v)"
proof -
  show ?thesis
  proof (cases "\<exists>s. v = Some s \<and> length (c_string s) \<ge> 0x7fffffff")
    case True
    then show ?thesis using assms(1) by (auto simp: egg_buffer_add_string_def)
  next
    case False
    then have "egg_buffer_add_string R b v = egg_buffer_add_byte_array R b (map_option c_string v)"
      by (cases v) (auto simp: egg_buffer_add_string_def egg_buffer_add_byte_array_def Let_def)
    then show ?thesis using assms by (simp add: wire_string_def appends_array)
  qed
qed

lemma appends_strings:
  assumes "realloc_law R"
  shows "buffer_ok b \<Longrightarrow>
    len b + length (concat (map (\<lambda>s. wire_string (Some s)) ss)) < object_limit \<Longrightarrow>
    appends b (concat (map (\<lambda>s. wire_string (Some s)) ss)) (add_strings R b ss)"
proof (induction ss arbitrary: b)
  case Nil
  then show ?case by (auto simp: appends_def)
next
  case (Cons s ss)
  show ?case
    unfolding list.map concat.simps add_strings.simps
    by (rule appends_then) (use Cons assms in \<open>auto intro!: appends_string Cons.IH\<close>)
qed

lemma appends_stringv:
  assumes "buffer_ok b" "len b + length (wire_stringv ss) < object_limit" "realloc_law R"
  shows "appends b (wire_stringv ss) (egg_buffer_add_stringv R b (Some ss))"
  unfolding egg_buffer_add_stringv_def wire_stringv_def option.case
  by (rule appends_then)
    (use assms in \<open>auto intro!: appends_uint32 appends_strings simp: wire_stringv_def\<close>)

section \<open>Reading back\<close>

lemma mem_read_contents:
  assumes "buffer_ok b" "off + n \<le> len b"
  shows "mem_read (buf b) off n = Some (take n (drop off (contents b)))"
proof (cases "buf b")
  case None
  then show ?thesis using assms by (simp add: buffer_ok_def mem_read_def)
next
  case (Some m)
  have "take n (drop off m) = take n (drop off (take (len b) m))"
    using assms(2) by (simp add: drop_take)
  then show ?thesis using assms Some by (simp add: buffer_ok_def mem_read_def contents_def)
qed

lemma read_field:
  assumes "buffer_ok b" "contents b = pre @ w @ post"
  shows "mem_read (buf b) (length pre) (length w) = Some w"
    "\<not> field_out_of_range b (length pre) (length w)"
    "length pre + length w \<le> len b"
proof -
  show l: "length pre + length w \<le> len b"
    using length_contents [OF assms(1)] assms(2) by simp
  show "mem_read (buf b) (length pre) (length w) = Some w"
    using mem_read_contents [OF assms(1) l] assms(2) by simp
  show "\<not> field_out_of_range b (length pre) (length w)"
    using l by (auto simp: field_out_of_range_def)
qed

text \<open>
  The interface of a kind of value on the wire: \<open>put\<close> writes it behind the contents, \<open>get\<close> reads
  it at an offset. \<open>wire\<close> is its format and \<open>view\<close> what a reader is handed for it. Each kind of
  value of the code is an instance; what follows from the two laws is proved once.
\<close>

locale buffer_field =
  fixes put :: "realloc_fn \<Rightarrow> egg_buffer \<Rightarrow> 'a \<Rightarrow> (bool \<times> egg_buffer) option"
    and get :: "realloc_fn \<Rightarrow> egg_buffer \<Rightarrow> nat \<Rightarrow> (egg_buffer \<times> (nat \<times> 'b) option) option"
    and wire :: "'a \<Rightarrow> bytes"
    and view :: "'a \<Rightarrow> 'b"
    and valid :: "'a \<Rightarrow> bool"
  assumes put_appends: "buffer_ok b \<Longrightarrow> len b + length (wire v) < object_limit \<Longrightarrow>
      realloc_law R \<Longrightarrow> appends b (wire v) (put R b v)"
    and get_wire: "buffer_ok b \<Longrightarrow> realloc_law R \<Longrightarrow> alloc_total R \<Longrightarrow> valid v \<Longrightarrow>
      contents b = pre @ wire v @ post \<Longrightarrow>
      get R b (length pre) = Some (b, Some (length pre + length (wire v), view v))"
begin

lemma put_contents:
  assumes "buffer_ok b" "len b + length (wire v) < object_limit" "realloc_law R"
    and "put R b v = Some (True, b')"
  shows "buffer_ok b' \<and> contents b' = contents b @ wire v"
  using put_appends [OF assms(1-3)] assms(4) by (auto simp: appends_def)

lemma put_get:
  assumes "buffer_ok b" "len b + length (wire v) < object_limit" "realloc_law R" "alloc_total R"
    and "valid v" and "put R b v = Some (True, b')"
  shows "get R b' (len b) = Some (b', Some (len b', view v))"
proof -
  have b': "buffer_ok b'" "contents b' = contents b @ wire v @ []"
    using put_contents [OF assms(1-3,6)] by simp_all
  have "len b' = len b + length (wire v)"
    using length_contents [OF b'(1)] length_contents [OF assms(1)] b'(2) by simp
  then show ?thesis
    using get_wire [OF b'(1) assms(3-5) b'(2)] length_contents [OF assms(1)] by simp
qed

end

lemma get_uint32_wire:
  assumes "buffer_ok b" "contents b = pre @ egg_buffer_encode_uint32 v @ post"
  shows "egg_buffer_get_uint32 b (length pre) = Some (b, Some (length pre + 4, v))"
  using read_field [OF assms] by (simp add: egg_buffer_get_uint32_def wire_simps)

lemma get_uint64_wire:
  assumes ok: "buffer_ok b" and c: "contents b = pre @ wire_uint64 v @ post"
  shows "egg_buffer_get_uint64 b (length pre) = Some (b, Some (length pre + 8, v))"
proof -
  let ?hi = "ucast (drop_bit 32 v AND 0xffffffff) :: u32" and ?lo = "ucast (v AND 0xffffffff) :: u32"
  have hi: "egg_buffer_get_uint32 b (length pre) = Some (b, Some (length pre + 4, ?hi))"
    by (rule get_uint32_wire [OF ok]) (simp add: c wire_uint64_def)
  have "egg_buffer_get_uint32 b (length (pre @ egg_buffer_encode_uint32 ?hi)) =
      Some (b, Some (length (pre @ egg_buffer_encode_uint32 ?hi) + 4, ?lo))"
    by (rule get_uint32_wire [OF ok]) (simp add: c wire_uint64_def)
  then have lo: "egg_buffer_get_uint32 b (length pre + 4) = Some (b, Some (length pre + 8, ?lo))"
    by simp
  show ?thesis unfolding egg_buffer_get_uint64_def by (simp add: hi lo split_uint64)
qed

lemma array_length_word:
  assumes "n < 0x7fffffff"
  shows "unat (of_nat n :: u32) = n" "(of_nat n :: u32) \<noteq> 0xffffffff"
proof -
  show u: "unat (of_nat n :: u32) = n"
    using assms by (simp add: unat_of_nat)
  show "(of_nat n :: u32) \<noteq> 0xffffffff"
  proof
    assume "(of_nat n :: u32) = 0xffffffff"
    then have "unat (of_nat n :: u32) = unat (0xffffffff :: u32)" by simp
    then show False using u assms by simp
  qed
qed

definition array_valid :: "bytes option \<Rightarrow> bool" where
  "array_valid v \<longleftrightarrow> (\<forall>bs. v = Some bs \<longrightarrow> length bs < 0x7fffffff)"

lemma get_array_wire:
  assumes ok: "buffer_ok b" and c: "contents b = pre @ wire_array v @ post"
    and v: "array_valid v"
  shows "egg_buffer_get_byte_array b (length pre) =
    Some (b, Some (length pre + length (wire_array v), v))"
proof (cases v)
  case None
  have "egg_buffer_get_uint32 b (length pre) = Some (b, Some (length pre + 4, 0xffffffff))"
    by (rule get_uint32_wire [OF ok]) (simp add: c None wire_array_def)
  then show ?thesis using None by (simp add: egg_buffer_get_byte_array_def)
next
  case (Some bs)
  let ?n = "of_nat (length bs) :: u32"
  have n: "length bs < 0x7fffffff" using v Some by (simp add: array_valid_def)
  have len32: "egg_buffer_get_uint32 b (length pre) = Some (b, Some (length pre + 4, ?n))"
    by (rule get_uint32_wire [OF ok]) (simp add: c Some wire_array_def)
  have c': "contents b = (pre @ egg_buffer_encode_uint32 ?n) @ bs @ post"
    by (simp add: c Some wire_array_def)
  show ?thesis using Some n len32 array_length_word [OF n] read_field [OF ok c']
    by (simp add: egg_buffer_get_byte_array_def)
qed

lemma c_string_no_nul: "0 \<notin> set (c_string s)"
  by (auto simp: c_string_def dest: set_takeWhileD)

text \<open>The reader's copy of a string carries its terminator.\<close>

definition string_view :: "bytes option \<Rightarrow> bytes option" where
  "string_view v = map_option (\<lambda>s. c_string s @ [0]) v"

definition string_valid :: "bytes option \<Rightarrow> bool" where
  "string_valid v \<longleftrightarrow> array_valid (map_option c_string v)"

lemma get_string_wire:
  assumes ok: "buffer_ok b" and R: "realloc_law R" "alloc_total R"
    and c: "contents b = pre @ wire_string v @ post" and v: "string_valid v"
  shows "egg_buffer_get_string R b (length pre) al =
    Some (b, Some (length pre + length (wire_string v), string_view v))"
proof (cases v)
  case None
  have "egg_buffer_get_uint32 b (length pre) = Some (b, Some (length pre + 4, 0xffffffff))"
    by (rule get_uint32_wire [OF ok]) (simp add: c None wire_string_def wire_array_def)
  then show ?thesis using None
    by (simp add: egg_buffer_get_string_def wire_string_def string_view_def)
next
  case (Some s)
  let ?s = "c_string s" let ?n = "of_nat (length ?s) :: u32"
  have n: "length ?s < 0x7fffffff" using v Some by (simp add: string_valid_def array_valid_def)
  have len32: "egg_buffer_get_uint32 b (length pre) = Some (b, Some (length pre + 4, ?n))"
    by (rule get_uint32_wire [OF ok]) (simp add: c Some wire_string_def wire_array_def)
  have c': "contents b = (pre @ egg_buffer_encode_uint32 ?n) @ ?s @ post"
    by (simp add: c Some wire_string_def wire_array_def)
  have "length ?s + 1 < object_limit" using n by (simp add: object_limit_def)
  then obtain m where m: "R (pick_allocator b al) None (length ?s + 1) = Some m"
    using R(2) unfolding alloc_total_def by blast
  have "length m = length ?s + 1" using realloc_lawD(1) [OF R(1) m] .
  note copy = copy_string [OF this]
  show ?thesis
    using Some n len32 array_length_word [OF n] read_field [OF ok c'] m copy c_string_no_nul [of s]
    by (simp add: egg_buffer_get_string_def wire_string_def string_view_def)
qed

interpretation byte_field: buffer_field egg_buffer_add_byte "\<lambda>R. egg_buffer_get_byte"
  "\<lambda>v. [v]" "\<lambda>v. v" "\<lambda>v. True"
proof unfold_locales
  fix b :: egg_buffer and v pre post R
  assume "buffer_ok b" "contents b = pre @ [v] @ post"
  then show "egg_buffer_get_byte b (length pre) = Some (b, Some (length pre + length [v], v))"
    using read_field [of b pre "[v]" post] by (auto simp: egg_buffer_get_byte_def)
qed (simp add: appends_byte)

interpretation uint16_field: buffer_field egg_buffer_add_uint16 "\<lambda>R. egg_buffer_get_uint16"
  egg_buffer_encode_uint16 "\<lambda>v. v" "\<lambda>v. True"
proof unfold_locales
  fix b :: egg_buffer and v pre post R
  assume "buffer_ok b" "contents b = pre @ egg_buffer_encode_uint16 v @ post"
  then show "egg_buffer_get_uint16 b (length pre) =
      Some (b, Some (length pre + length (egg_buffer_encode_uint16 v), v))"
    using read_field [of b pre "egg_buffer_encode_uint16 v" post]
    by (auto simp: egg_buffer_get_uint16_def wire_simps)
qed (simp add: appends_uint16)

interpretation uint32_field: buffer_field egg_buffer_add_uint32 "\<lambda>R. egg_buffer_get_uint32"
  egg_buffer_encode_uint32 "\<lambda>v. v" "\<lambda>v. True"
  by unfold_locales (simp_all add: appends_uint32 get_uint32_wire)

interpretation uint64_field: buffer_field egg_buffer_add_uint64 "\<lambda>R. egg_buffer_get_uint64"
  wire_uint64 "\<lambda>v. v" "\<lambda>v. True"
  by unfold_locales (simp_all add: appends_uint64 get_uint64_wire)

interpretation array_field: buffer_field egg_buffer_add_byte_array "\<lambda>R. egg_buffer_get_byte_array"
  wire_array "\<lambda>v. v" array_valid
  by unfold_locales (simp_all only: appends_array get_array_wire)

interpretation string_field: buffer_field egg_buffer_add_string
  "\<lambda>R b off. egg_buffer_get_string R b off al" wire_string string_view string_valid for al
  by unfold_locales (simp_all only: appends_string get_string_wire)

section \<open>String vectors are read back\<close>

lemma get_strings_wire:
  assumes ok: "buffer_ok b" and R: "realloc_law R" "alloc_total R"
  shows "contents b = pre @ concat (map (\<lambda>s. wire_string (Some s)) ss) @ post \<Longrightarrow>
    \<forall>s \<in> set ss. string_valid (Some s) \<Longrightarrow> i + length ss \<le> length arr \<Longrightarrow>
    get_strings R (length ss) b (length pre) al i arr =
      Some (b, Some (length pre + length (concat (map (\<lambda>s. wire_string (Some s)) ss)),
        take i arr @ map (\<lambda>s. string_view (Some s)) ss @ drop (i + length ss) arr))"
proof (induction ss arbitrary: pre i arr)
  case Nil
  then show ?case by simp
next
  case (Cons s ss)
  let ?v = "string_view (Some s)" and ?w = "wire_string (Some s)"
  have c: "contents b = pre @ ?w @ concat (map (\<lambda>s. wire_string (Some s)) ss) @ post"
    using Cons.prems(1) by simp
  have "string_valid (Some s)" using Cons.prems(2) by simp
  note one = string_field.get_wire [OF ok R this c, of "Some al"]
  have rest: "get_strings R (length ss) b (length (pre @ ?w)) al (Suc i) (arr[i := ?v]) =
      Some (b, Some (length (pre @ ?w) + length (concat (map (\<lambda>s. wire_string (Some s)) ss)),
        take (Suc i) (arr[i := ?v]) @ map (\<lambda>s. string_view (Some s)) ss @
        drop (Suc i + length ss) (arr[i := ?v])))"
    by (rule Cons.IH) (use Cons.prems in simp_all)
  have i: "i < length arr" using Cons.prems(3) by simp
  have "take (Suc i) (arr[i := ?v]) = take i arr @ [?v]"
    using i by (simp add: take_Suc_conv_app_nth)
  then show ?case using one rest i by (simp add: add.assoc)
qed

definition stringv_view :: "bytes list \<Rightarrow> bytes option list" where
  "stringv_view ss = map (\<lambda>s. string_view (Some s)) ss @ [None]"

text \<open>
  C24. A vector of strings that \<open>egg_buffer_add_stringv\<close> has written is what
  \<open>egg_buffer_get_stringv\<close> reads at that offset: every string up to its first zero byte, with a
  terminator, and a final \<open>NULL\<close> slot; the next offset is the end of the buffer.
\<close>

theorem stringv_roundtrip:
  assumes ok: "buffer_ok b" and R: "realloc_law R" "alloc_total R"
    and room: "len b + length (wire_stringv ss) < object_limit"
    and n: "length ss < 0xffffffff" and valid: "\<forall>s \<in> set ss. string_valid (Some s)"
    and put: "egg_buffer_add_stringv R b (Some ss) = Some (True, b')"
  shows "egg_buffer_get_stringv R b' (len b) al = Some (b', Some (len b', stringv_view ss))"
proof -
  let ?n = "of_nat (length ss) :: u32"
  let ?w = "concat (map (\<lambda>s. wire_string (Some s)) ss)"
  have b': "buffer_ok b'" "contents b' = contents b @ wire_stringv ss"
    using appends_stringv [OF ok room R(1)] put by (auto simp: appends_def)
  have len: "length (contents b) = len b" "len b' = len b + length (wire_stringv ss)"
    using length_contents [OF b'(1)] length_contents [OF ok] b'(2) by simp_all
  have un: "unat ?n = length ss" using n by (simp add: unat_of_nat)
  have us: "unat (?n + 1) = Suc (length ss)"
    using n by (simp add: unat_word_ariths unat_of_nat)
  have hd: "egg_buffer_get_uint32 b' (length (contents b)) =
      Some (b', Some (length (contents b) + 4, ?n))"
    by (rule get_uint32_wire [OF b'(1), where post = ?w]) (simp add: b'(2) wire_stringv_def)
  have "Suc (length ss) * 8 < object_limit" using n by (simp add: object_limit_def)
  then obtain m where m: "R (pick_allocator b' al) None (Suc (length ss) * 8) = Some m"
    using R(2) unfolding alloc_total_def by blast
  have "get_strings R (length ss) b' (length (contents b @ egg_buffer_encode_uint32 ?n))
      (pick_allocator b' al) 0 (replicate (Suc (length ss)) None) =
    Some (b', Some (length (contents b @ egg_buffer_encode_uint32 ?n) + length ?w,
      take 0 (replicate (Suc (length ss)) None) @ map (\<lambda>s. string_view (Some s)) ss @
      drop (0 + length ss) (replicate (Suc (length ss)) None)))"
    by (rule get_strings_wire [OF b'(1) R, where post = "[]"])
      (simp_all add: b'(2) wire_stringv_def valid)
  moreover have "drop (length ss) (replicate (Suc (length ss)) None) = [None]"
    by (simp only: drop_replicate) simp
  ultimately show ?thesis using hd un us m len
    by (simp add: egg_buffer_get_stringv_def wire_stringv_def stringv_view_def del: replicate_Suc)
qed

definition small_buffer :: egg_buffer where
  "small_buffer = snd (egg_buffer_init padding_realloc 4)"

lemma small_buffer_eval:
  "small_buffer = \<lparr>buf = Some (replicate 4 0), len = 0, allocated_len = 4, failures = 0,
     allocator = Some StdRealloc\<rparr>"
  by (simp add: small_buffer_def egg_buffer_init_def egg_buffer_init_full_def padding_realloc_def
      object_limit_def empty_buffer_def)

lemma small_buffer_ok: "buffer_ok small_buffer" "len small_buffer = 0"
  by (simp_all add: small_buffer_eval buffer_ok_def object_limit_def)

lemma stringv_example_put:
  "egg_buffer_add_stringv padding_realloc small_buffer (Some [[97, 0, 98]]) =
    Some (True, \<lparr>buf = Some [0, 0, 0, 1, 0, 0, 0, 1, 97, 0, 0, 0, 0, 0, 0, 0], len = 9,
      allocated_len = 16, failures = 0, allocator = Some StdRealloc\<rparr>)"
  by (simp add: small_buffer_eval egg_buffer_add_stringv_def egg_buffer_add_uint32_def
      egg_buffer_reserve_def sz_add_def sz_mul_def size_limit_def padding_realloc_def
      object_limit_def egg_buffer_set_uint32_def field_out_of_range_def mem_write_def
      egg_buffer_encode_uint32_def egg_buffer_add_string_def c_string_def egg_buffer_append_def
      fail_buffer_def replicate_numeral drop_bit_eq_div)

theorem stringv_roundtrip_witness:
  "\<exists>b'. egg_buffer_add_stringv padding_realloc small_buffer (Some [[97, 0, 98]]) = Some (True, b')
    \<and> egg_buffer_get_stringv padding_realloc b' 0 None = Some (b', Some (9, [Some [97, 0], None]))"
  using stringv_roundtrip [OF small_buffer_ok(1) padding_realloc_law padding_realloc_total
      _ _ _ stringv_example_put, of None]
  by (auto simp: stringv_example_put small_buffer_ok(2) wire_stringv_def wire_string_def c_string_def
      object_limit_def string_valid_def array_valid_def stringv_view_def string_view_def)

section \<open>Any sequence of writes\<close>

datatype buffer_op = Append bytes | AddByte byte | AddUint16 u16 | AddUint32 u32 | AddUint64 u64
  | AddByteArray "bytes option" | AddString "bytes option" | AddStringv "bytes list"

fun op_wire :: "buffer_op \<Rightarrow> bytes" where
  "op_wire (Append bs) = bs"
| "op_wire (AddByte v) = [v]"
| "op_wire (AddUint16 v) = egg_buffer_encode_uint16 v"
| "op_wire (AddUint32 v) = egg_buffer_encode_uint32 v"
| "op_wire (AddUint64 v) = wire_uint64 v"
| "op_wire (AddByteArray v) = wire_array v"
| "op_wire (AddString v) = wire_string v"
| "op_wire (AddStringv ss) = wire_stringv ss"

fun op_run :: "realloc_fn \<Rightarrow> egg_buffer \<Rightarrow> buffer_op \<Rightarrow> (bool \<times> egg_buffer) option" where
  "op_run R b (Append bs) = egg_buffer_append R b bs"
| "op_run R b (AddByte v) = egg_buffer_add_byte R b v"
| "op_run R b (AddUint16 v) = egg_buffer_add_uint16 R b v"
| "op_run R b (AddUint32 v) = egg_buffer_add_uint32 R b v"
| "op_run R b (AddUint64 v) = egg_buffer_add_uint64 R b v"
| "op_run R b (AddByteArray v) = egg_buffer_add_byte_array R b v"
| "op_run R b (AddString v) = egg_buffer_add_string R b v"
| "op_run R b (AddStringv ss) = egg_buffer_add_stringv R b (Some ss)"

text \<open>The caller may ignore the results: the run goes on after a failure.\<close>

fun run_ops :: "realloc_fn \<Rightarrow> egg_buffer \<Rightarrow> buffer_op list \<Rightarrow> (bool list \<times> egg_buffer) option" where
  "run_ops R b [] = Some ([], b)"
| "run_ops R b (x # xs) = do {
     (ok, b) \<leftarrow> op_run R b x;
     (oks, b) \<leftarrow> run_ops R b xs;
     Some (ok # oks, b) }"

lemma op_run_appends:
  assumes "buffer_ok b" "len b + length (op_wire x) < object_limit" "realloc_law R"
  shows "appends b (op_wire x) (op_run R b x)"
  using assms
  by (cases x) (simp_all add: appends_append appends_byte appends_uint16 appends_uint32
    appends_uint64 appends_array appends_string appends_stringv)

text \<open>
  C20. Memory safety and append-only behaviour of the buffer: whatever the allocator refuses and
  however the results are ignored, a sequence of write operations never touches memory outside of
  the block, leaves a well-formed buffer that still starts with the old contents, and when every
  operation succeeds the contents are extended by exactly the wire formats of the values.
\<close>

theorem buffer_writes_safe:
  assumes "realloc_law R" and "buffer_ok b"
    and "len b + length (concat (map op_wire xs)) < object_limit"
  shows "\<exists>oks b'. run_ops R b xs = Some (oks, b') \<and> buffer_ok b' \<and>
    (\<exists>ext. contents b' = contents b @ ext) \<and>
    (list_all (\<lambda>ok. ok) oks \<longrightarrow> contents b' = contents b @ concat (map op_wire xs))"
  using assms(2,3)
proof (induction xs arbitrary: b)
  case Nil
  then show ?case by simp
next
  case (Cons x xs)
  have "appends b (op_wire x) (op_run R b x)"
    using op_run_appends [OF Cons.prems(1) _ assms(1)] Cons.prems(2) by simp
  then obtain ok b1 k where b1: "op_run R b x = Some (ok, b1)" "buffer_ok b1"
    "contents b1 = contents b @ take k (op_wire x)" "ok \<longrightarrow> k = length (op_wire x)"
    by (auto simp: appends_def)
  have "len b1 \<le> len b + length (op_wire x)"
    using b1(3) length_contents [OF b1(2)] length_contents [OF Cons.prems(1)] by simp
  then have "len b1 + length (concat (map op_wire xs)) < object_limit" using Cons.prems(2) by simp
  from Cons.IH [OF b1(2) this] show ?case using b1 by auto
qed

theorem buffer_writes_safe_witness:
  "\<exists>oks b'. run_ops padding_realloc small_buffer [AddUint64 7, AddString (Some [97])] = Some (oks, b')
    \<and> buffer_ok b'"
  using buffer_writes_safe [OF padding_realloc_law small_buffer_ok(1),
      of "[AddUint64 7, AddString (Some [97])]"]
  by (auto simp: small_buffer_ok(2) object_limit_def wire_string_def c_string_def)

section \<open>Reading is safe, but for one count\<close>

text \<open>
  \<open>reads b r\<close>: the read stays inside of the block, changes at most the failure counter, and a
  result comes with an offset that is still inside of the contents.
\<close>

definition reads :: "egg_buffer \<Rightarrow> (egg_buffer \<times> (nat \<times> 'a) option) option \<Rightarrow> bool" where
  "reads b r \<longleftrightarrow> (\<exists>b' res. r = Some (b', res) \<and> (b' = b \<or> b' = fail_buffer b) \<and>
     (\<forall>off v. res = Some (off, v) \<longrightarrow> b' = b \<and> off \<le> len b))"

lemma readsI_fail [simp]: "reads b (Some (b, None))" "reads b (Some (fail_buffer b, None))"
  by (auto simp: reads_def)

lemma readsI_value [simp]: "off \<le> len b \<Longrightarrow> reads b (Some (b, Some (off, v)))"
  by (auto simp: reads_def)

lemma in_range_le: "\<not> field_out_of_range b off n \<Longrightarrow> off + n \<le> len b"
  by (auto simp: field_out_of_range_def)

lemma reads_uint32: "buffer_ok b \<Longrightarrow> reads b (egg_buffer_get_uint32 b off)"
  using mem_read_contents [of b off 4] in_range_le [of b off 4]
  by (auto simp: egg_buffer_get_uint32_def)

lemma reads_then:
  assumes "reads b r"
    and "\<And>off v. r = Some (b, Some (off, v)) \<Longrightarrow> off \<le> len b \<Longrightarrow> reads b (f b off v)"
  shows "reads b (do { (b, x) \<leftarrow> r; case x of None \<Rightarrow> Some (b, None) | Some (off, v) \<Rightarrow> f b off v })"
proof -
  from assms(1) obtain b' res where r: "r = Some (b', res)" "b' = b \<or> b' = fail_buffer b"
    "\<forall>off v. res = Some (off, v) \<longrightarrow> b' = b \<and> off \<le> len b" by (auto simp: reads_def)
  show ?thesis
  proof (cases res)
    case None
    then show ?thesis using r(1,2) by auto
  next
    case (Some p)
    then obtain off v where p: "res = Some (off, v)" by (cases p) auto
    then have b: "b' = b" "off \<le> len b" using r(3) by auto
    then have "reads b (f b off v)" using assms(2) r(1) p by blast
    then show ?thesis using r(1) p b(1) by simp
  qed
qed

lemma reads_byte_array: "buffer_ok b \<Longrightarrow> reads b (egg_buffer_get_byte_array b off)"
  unfolding egg_buffer_get_byte_array_def
  by (rule reads_then [OF reads_uint32])
    (auto dest!: in_range_le simp: mem_read_contents not_le)

lemma reads_string:
  assumes R: "realloc_law R" and ok: "buffer_ok b"
  shows "reads b (egg_buffer_get_string R b off al)"
  unfolding egg_buffer_get_string_def Let_def
proof (rule reads_then [OF reads_uint32 [OF ok]])
  fix off :: nat and n :: u32
  assume off: "off \<le> len b"
  let ?al = "pick_allocator b al"
  consider "n = 0xffffffff" | "n \<noteq> 0xffffffff" "unat n \<ge> 0x7fffffff"
    | "n \<noteq> 0xffffffff" "\<not> unat n \<ge> 0x7fffffff" "field_out_of_range b off (unat n)"
    | "n \<noteq> 0xffffffff" "\<not> unat n \<ge> 0x7fffffff" "\<not> field_out_of_range b off (unat n)" by blast
  then show "reads b (if n = 0xffffffff then Some (b, Some (off, None))
      else if unat n \<ge> 0x7fffffff then Some (b, None)
      else if field_out_of_range b off (unat n) then Some (b, None)
      else do {
        bs \<leftarrow> mem_read (buf b) off (unat n);
        if 0 \<in> set bs then Some (b, None)
        else case R ?al None (unat n + 1) of
          None \<Rightarrow> Some (b, None)
        | Some s \<Rightarrow> do {
            s \<leftarrow> mem_write (Some s) 0 bs;
            s \<leftarrow> mem_write s (unat n) [0];
            Some (b, Some (off + unat n, s)) } })"
  proof cases
    case 4
    note range = in_range_le [OF 4(3)]
    define bs where "bs = take (unat n) (drop off (contents b))"
    have bs: "mem_read (buf b) off (unat n) = Some bs" "length bs = unat n"
      using mem_read_contents [OF ok range] range length_contents [OF ok]
      by (simp_all add: bs_def)
    show ?thesis
    proof (cases "R ?al None (unat n + 1)")
      case None
      then show ?thesis using 4 bs by simp
    next
      case (Some m)
      have "length m = length bs + 1" using realloc_lawD(1) [OF R Some] bs(2) by simp
      then show ?thesis using 4 bs Some range copy_string [of m bs] by simp
    qed
  qed (use off in simp_all)
qed

lemma reads_strings:
  assumes R: "realloc_law R" and ok: "buffer_ok b"
  shows "off \<le> len b \<Longrightarrow> i + k \<le> length arr \<Longrightarrow> reads b (get_strings R k b off al i arr)"
proof (induction k arbitrary: off i arr)
  case 0
  then show ?case by simp
next
  case (Suc k)
  show ?case
    unfolding get_strings.simps
    by (rule reads_then [OF reads_string [OF R ok]]) (use Suc in auto)
qed

text \<open>
  C36. No read of a string vector leaves its memory unless the stored count is \<open>0xffffffff\<close>:
  whatever bytes a peer has sent, any other count is handled by a result or a failure.
\<close>

theorem get_stringv_safe:
  assumes R: "realloc_law R" and ok: "buffer_ok b"
    and count: "\<And>next. egg_buffer_get_uint32 b off \<noteq> Some (b, Some (next, 0xffffffff))"
  shows "\<exists>b' res. egg_buffer_get_stringv R b off al = Some (b', res) \<and>
    (b' = b \<or> b' = fail_buffer b)"
proof -
  have "reads b (egg_buffer_get_stringv R b off al)"
    unfolding egg_buffer_get_stringv_def Let_def
  proof (rule reads_then [OF reads_uint32 [OF ok]])
    fix off' and n :: u32
    assume r: "egg_buffer_get_uint32 b off = Some (b, Some (off', n))" and off': "off' \<le> len b"
    have "n \<noteq> 0xffffffff" using count r by blast
    then have "unat n \<noteq> unat (0xffffffff :: u32)" by (metis word_eq_iff_unsigned)
    moreover have "unat n < 2 ^ 32" using unsigned_less [of n] by simp
    ultimately have "unat (n + 1) = Suc (unat n)" by (simp add: unat_word_ariths)
    then show "reads b (case R (pick_allocator b al) None (unat (n + 1) * 8) of
        None \<Rightarrow> Some (b, None)
      | Some _ \<Rightarrow> get_strings R (unat n) b off' (pick_allocator b al) 0
          (replicate (unat (n + 1)) None))"
      using reads_strings [OF R ok off', of 0 "unat n"] by (auto split: option.splits)
  qed
  then show ?thesis by (auto simp: reads_def)
qed

theorem get_stringv_safe_witness:
  "\<exists>b' res. egg_buffer_get_stringv padding_realloc (egg_buffer_init_static [0, 0, 0, 9]) 0 None =
    Some (b', res)"
  using get_stringv_safe [OF padding_realloc_law, of "egg_buffer_init_static [0, 0, 0, 9]" 0 None]
  by (auto simp: egg_buffer_init_static_def empty_buffer_def buffer_ok_def object_limit_def
      egg_buffer_get_uint32_def field_out_of_range_def mem_read_def egg_buffer_decode_uint32_def)

text \<open>
  The count \<open>0xffffffff\<close> is not handled: \<open>n + 1\<close> wraps to zero, the array is allocated with no
  slots, and the first string that follows is stored outside of it.
\<close>

theorem get_stringv_overflow:
  assumes R: "realloc_law R" "alloc_total R" and ok: "buffer_ok b"
    and c: "contents b = pre @ egg_buffer_encode_uint32 0xffffffff @ wire_string (Some s) @ post"
    and v: "string_valid (Some s)"
  shows "egg_buffer_get_stringv R b (length pre) al = None"
proof -
  let ?al = "pick_allocator b al"
  have n: "egg_buffer_get_uint32 b (length pre) = Some (b, Some (length pre + 4, 0xffffffff))"
    by (rule get_uint32_wire [OF ok c])
  have "contents b = (pre @ egg_buffer_encode_uint32 0xffffffff) @ wire_string (Some s) @ post"
    by (simp add: c)
  note str = string_field.get_wire [OF ok R v this, of "Some ?al"]
  have "(0::nat) < object_limit" by (simp add: object_limit_def)
  then obtain m where "R ?al None 0 = Some m" using R(2) unfolding alloc_total_def by blast
  moreover have "get_strings R (Suc k) b (length pre + 4) ?al 0 [] = None" for k
    using str by simp
  then have "get_strings R (Suc 4294967294) b (length pre + 4) ?al 0 [] = None" .
  then have "get_strings R 4294967295 b (length pre + 4) ?al 0 [] = None" by simp
  ultimately show ?thesis using n by (simp add: egg_buffer_get_stringv_def)
qed

theorem get_stringv_overflow_witness:
  "egg_buffer_get_stringv padding_realloc
     (egg_buffer_init_static [255, 255, 255, 255, 0, 0, 0, 1, 97]) 0 None = None"
proof -
  have "egg_buffer_get_stringv padding_realloc
     (egg_buffer_init_static [255, 255, 255, 255, 0, 0, 0, 1, 97]) (length ([] :: bytes)) None = None"
    by (rule get_stringv_overflow [OF padding_realloc_law padding_realloc_total,
          where s = "[97]" and post = "[]"])
      (simp_all add: egg_buffer_init_static_def empty_buffer_def buffer_ok_def object_limit_def
        contents_def egg_buffer_encode_uint32_def wire_string_def wire_array_def c_string_def
        string_valid_def array_valid_def drop_bit_eq_div)
  then show ?thesis by simp
qed

end
