(* ===== verification/Hex.thy ===== *)
theory Hex
  imports GcrPrelude
begin

text \<open>
  \<open>egg/egg-hex.c\<close>: the textual form of fingerprints and serial numbers, and of the salt in
  encrypted PEM files. The decoder is translated with its two nested loops and its state variable.
\<close>

section \<open>Digits\<close>

definition hexc_upper :: bytes where
  "hexc_upper = [48, 49, 50, 51, 52, 53, 54, 55, 56, 57, 65, 66, 67, 68, 69, 70]"

definition hexc_lower :: bytes where
  "hexc_lower = [48, 49, 50, 51, 52, 53, 54, 55, 56, 57, 97, 98, 99, 100, 101, 102]"

definition g_ascii_toupper :: "byte \<Rightarrow> byte" where
  "g_ascii_toupper c = (if 97 \<le> c \<and> c \<le> 122 then c - 32 else c)"

text \<open>
  \<open>strchr\<close> also finds the terminator of the string it searches, so the character \<open>0\<close> is found at
  index 16.
\<close>

fun index_of :: "'a \<Rightarrow> 'a list \<Rightarrow> nat option" where
  "index_of x [] = None"
| "index_of x (y # ys) = (if x = y then Some 0 else map_option Suc (index_of x ys))"

definition hex_position :: "byte \<Rightarrow> nat option" where
  "hex_position c = index_of (g_ascii_toupper c) (hexc_upper @ [0])"

section \<open>Decoding\<close>

text \<open>
  \<open>hex_group part grp rest out state cur\<close> is the inner loop: \<open>out\<close> are the finished bytes,
  \<open>cur\<close> is the byte under construction, and \<open>state\<close> is 1 between the two digits of a byte and -1
  after a parsing error.
\<close>

fun hex_group :: "nat \<Rightarrow> nat \<Rightarrow> bytes \<Rightarrow> bytes \<Rightarrow> int \<Rightarrow> byte \<Rightarrow> bytes \<times> bytes \<times> int \<times> byte" where
  "hex_group part grp [] out state cur = ([], out, state, cur)"
| "hex_group part grp (c # cs) out state cur =
     (if \<not> part < grp then (c # cs, out, state, cur)
      else case hex_position c of
        None \<Rightarrow> (c # cs, out, -1, cur)
      | Some j \<Rightarrow>
          let nibble = (of_nat j :: byte) AND 0xf
          in if state = 0
             then hex_group part grp cs out 1 (push_bit 4 nibble)
             else hex_group (part + 1) grp cs (out @ [cur OR nibble]) 0 cur)"

lemma hex_group_length:
  "hex_group part grp rest out state cur = (rest', out', state', cur') \<Longrightarrow>
    length rest' \<le> length rest \<and>
    (part < grp \<and> rest \<noteq> [] \<longrightarrow> state' = -1 \<or> length rest' < length rest)"
proof (induction part grp rest out state cur rule: hex_group.induct)
  case (1 part grp out state cur)
  then show ?case by simp
next
  case (2 part grp c cs out state cur)
  then show ?case
    by (fastforce simp: Let_def split: if_splits option.splits)
qed

text \<open>
  The outer loop reads a delimiter in front of every group but the first. The group size is
  \<open>Suc g\<close>: a group size of zero is refused before the loop.
\<close>

function hex_loop :: "nat \<Rightarrow> bytes option \<Rightarrow> bytes \<Rightarrow> bytes \<Rightarrow> int \<Rightarrow> byte \<Rightarrow> bytes \<times> int" where
  "hex_loop g delim rest out state cur =
     (if rest = [] \<or> state \<noteq> 0 then (out, state)
      else
        let d = (if out \<noteq> [] then (case delim of None \<Rightarrow> [] | Some d \<Rightarrow> d) else [])
        in if length rest < length d \<or> take (length d) rest \<noteq> d then (out, -1)
           else case hex_group 0 (Suc g) (drop (length d) rest) out state cur of
                  (rest', out', state', cur') \<Rightarrow> hex_loop g delim rest' out' state' cur')"
  by pat_completeness auto
termination
proof (relation "measure (\<lambda>(g, delim, rest, out, state, cur).
    2 * length rest + (if state = 0 then 1 else 0))")
  fix g delim and rest out :: bytes and state :: int and cur d rest' y out' z state' cur'
  assume a: "\<not> (rest = [] \<or> state \<noteq> 0)"
    and h: "(rest', y) = hex_group 0 (Suc g) (drop (length d) rest) out state cur"
    and y: "(out', z) = y" and z: "(state', cur') = z"
  have g: "hex_group 0 (Suc g) (drop (length d) rest) out state cur = (rest', out', state', cur')"
    using h y z by simp
  show "((g, delim, rest', out', state', cur'), (g, delim, rest, out, state, cur)) \<in>
    measure (\<lambda>(g, delim, rest, out, state, cur). 2 * length rest + (if state = 0 then 1 else 0))"
  proof (cases "drop (length d) rest = []")
    case True
    then have "rest' = []" using g by simp
    then show ?thesis using a by simp
  next
    case False
    then show ?thesis using hex_group_length [OF g] a by auto
  qed
qed simp

declare hex_loop.simps [simp del]

text \<open>
  A pointer argument that may be \<open>NULL\<close> is an option. The length \<open>-1\<close> asks for the length of the
  string. The result \<open>None\<close> is the \<open>NULL\<close> of the refused arguments and of a parsing error; in the
  other case \<open>*n_decoded\<close> is the length of the list.
\<close>

definition egg_hex_decode_full ::
  "bytes option \<Rightarrow> int \<Rightarrow> bytes option \<Rightarrow> nat \<Rightarrow> bytes option" where
  "egg_hex_decode_full data n_data delim grp =
     (if data = None \<and> n_data \<noteq> 0 then None
      else if \<not> grp \<ge> 1 then None
      else
        let d = (case data of None \<Rightarrow> [] | Some d \<Rightarrow> d);
            d = (if n_data = -1 then takeWhile (\<lambda>c. c \<noteq> 0) d else take (nat n_data) d);
            (out, state) = hex_loop (grp - 1) delim d [] 0 0
        in if state \<noteq> 0 then None else Some out)"

definition egg_hex_decode :: "bytes option \<Rightarrow> int \<Rightarrow> bytes option" where
  "egg_hex_decode data n_data = egg_hex_decode_full data n_data None 1"

section \<open>Encoding\<close>

fun hex_encode_loop :: "bytes \<Rightarrow> bytes option \<Rightarrow> nat \<Rightarrow> nat \<Rightarrow> bytes \<Rightarrow> bytes \<Rightarrow> bytes" where
  "hex_encode_loop hexc delim grp count [] result = result"
| "hex_encode_loop hexc delim grp count (b # bs) result =
     (let result = (case delim of
            None \<Rightarrow> result
          | Some d \<Rightarrow> if grp \<noteq> 0 \<and> count \<noteq> 0 \<and> count mod grp = 0 then result @ d else result);
          result = result @ [hexc ! unat (drop_bit 4 b AND 0xf)];
          result = result @ [hexc ! unat (b AND 0xf)]
      in hex_encode_loop hexc delim grp (count + 1) bs result)"

definition egg_hex_encode_full :: "bytes \<Rightarrow> bool \<Rightarrow> bytes option \<Rightarrow> nat \<Rightarrow> bytes" where
  "egg_hex_encode_full data upper_case delim grp =
     hex_encode_loop (if upper_case then hexc_upper else hexc_lower) delim grp 0 data []"

definition egg_hex_encode :: "bytes \<Rightarrow> bytes" where
  "egg_hex_encode data = egg_hex_encode_full data True None 0"

section \<open>Decoding inverts encoding\<close>

lemma hex_positions:
  "list_all (\<lambda>n. hex_position (hexc_upper ! n) = Some n \<and> hex_position (hexc_lower ! n) = Some n)
    [0..<16]"
  by code_simp

lemma hex_position_digit:
  assumes "n < 16"
  shows "hex_position (hexc_upper ! n) = Some n" "hex_position (hexc_lower ! n) = Some n"
  using hex_positions assms by (simp_all add: list_all_iff)

lemma nibble_mask: "(x :: byte) AND 0xf = take_bit 4 x"
  by (simp add: take_bit_eq_mask mask_eq_exp_minus_1)

lemma nibble_bound:
  "unat (drop_bit 4 (b :: byte) AND 0xf) < 16" "unat ((b :: byte) AND 0xf) < 16"
  by (simp_all add: nibble_mask unsigned_take_bit_eq take_bit_nat_less_exp [of 4, simplified])

lemma nibbles_join:
  fixes b :: byte
  shows "push_bit 4 ((of_nat (unat (drop_bit 4 b AND 0xf)) :: byte) AND 0xf) OR
    ((of_nat (unat (b AND 0xf)) :: byte) AND 0xf) = b"
  by (simp add: nibble_mask) (rule bit_word_eqI, auto simp: bit_simps)

definition encode_byte :: "bytes \<Rightarrow> byte \<Rightarrow> bytes" where
  "encode_byte hexc b = [hexc ! unat (drop_bit 4 b AND 0xf), hexc ! unat (b AND 0xf)]"

definition hex_table :: "bytes \<Rightarrow> bool" where
  "hex_table hexc \<longleftrightarrow> hexc = hexc_upper \<or> hexc = hexc_lower"

lemma hex_table_position: "hex_table hexc \<Longrightarrow> n < 16 \<Longrightarrow> hex_position (hexc ! n) = Some n"
  using hex_position_digit by (auto simp: hex_table_def)

lemma hex_group_byte:
  assumes "hex_table hexc" "part < grp"
  shows "hex_group part grp (encode_byte hexc b @ rest) out 0 cur =
    hex_group (part + 1) grp rest (out @ [b]) 0 (push_bit 4 ((of_nat (unat (drop_bit 4 b AND 0xf))) AND 0xf))"
  using assms nibble_bound [of b] nibbles_join [of b]
  by (simp add: encode_byte_def hex_table_position)

text \<open>A run of encoded bytes is read up to the end of the group.\<close>

lemma hex_group_bytes:
  assumes "hex_table hexc"
  shows "part + length bs \<le> grp \<Longrightarrow> \<exists>cur'.
    hex_group part grp (concat (map (encode_byte hexc) bs) @ rest) out 0 cur =
      hex_group (part + length bs) grp rest (out @ bs) 0 cur'"
proof (induction bs arbitrary: part out cur)
  case Nil
  then show ?case by auto
next
  case (Cons b bs)
  show ?case
    using Cons.IH [of "part + 1" "out @ [b]"] Cons.prems assms by (simp add: hex_group_byte)
qed

lemma hex_group_full: "hex_group grp grp rest out state cur = (rest, out, state, cur)"
  by (cases rest) simp_all

text \<open>The text that the encoder builds, without the accumulator.\<close>

definition delim_bytes :: "bytes option \<Rightarrow> bytes" where
  "delim_bytes delim = (case delim of None \<Rightarrow> [] | Some d \<Rightarrow> d)"

fun hex_text :: "bytes \<Rightarrow> bytes option \<Rightarrow> nat \<Rightarrow> nat \<Rightarrow> bytes \<Rightarrow> bytes" where
  "hex_text hexc delim grp count [] = []"
| "hex_text hexc delim grp count (b # bs) =
     (if grp \<noteq> 0 \<and> count \<noteq> 0 \<and> count mod grp = 0 then delim_bytes delim else []) @
     encode_byte hexc b @ hex_text hexc delim grp (count + 1) bs"

lemma hex_encode_loop_text:
  "hex_encode_loop hexc delim grp count bs result = result @ hex_text hexc delim grp count bs"
  by (induction hexc delim grp count bs result rule: hex_encode_loop.induct)
    (auto simp: encode_byte_def delim_bytes_def Let_def split: option.splits)

lemma hex_text_within_group:
  assumes "0 < grp"
  shows "0 < r \<Longrightarrow> r \<le> grp \<Longrightarrow> hex_text hexc delim grp (q * grp + r) bs =
    concat (map (encode_byte hexc) (take (grp - r) bs)) @
    hex_text hexc delim grp (q * grp + grp) (drop (grp - r) bs)"
proof (induction bs arbitrary: r)
  case Nil
  then show ?case by simp
next
  case (Cons b bs)
  show ?case
  proof (cases "r = grp")
    case True
    then show ?thesis by simp
  next
    case False
    then have r: "r < grp" using Cons.prems by simp
    then have "grp - r = Suc (grp - (r + 1))" by simp
    moreover have "(q * grp + r) mod grp = r" using r by simp
    ultimately show ?thesis using Cons.IH [of "r + 1"] Cons.prems r by simp
  qed
qed

lemma hex_text_group:
  assumes "0 < grp" "bs \<noteq> []"
  shows "hex_text hexc delim grp (q * grp) bs = (if q = 0 then [] else delim_bytes delim) @
    concat (map (encode_byte hexc) (take grp bs)) @
    hex_text hexc delim grp ((q + 1) * grp) (drop grp bs)"
proof -
  from assms(2) obtain b bs' where bs: "bs = b # bs'" by (cases bs) auto
  have g: "take grp bs = b # take (grp - 1) bs'" "drop grp bs = drop (grp - 1) bs'"
    using assms(1) bs by (simp_all add: take_Cons' drop_Cons')
  have m: "(q * grp) mod grp = 0" "(q + 1) * grp = q * grp + grp" by simp_all
  have "hex_text hexc delim grp (q * grp + 1) bs' =
      concat (map (encode_byte hexc) (take (grp - 1) bs')) @
      hex_text hexc delim grp (q * grp + grp) (drop (grp - 1) bs')"
    using hex_text_within_group [OF assms(1), of 1 hexc delim q bs'] assms(1) by simp
  then show ?thesis unfolding g m(2) using assms(1) bs m(1) by simp
qed

lemma hex_loop_text:
  assumes tab: "hex_table hexc"
  shows "length out = q * Suc g \<Longrightarrow>
    hex_loop g delim (hex_text hexc delim (Suc g) (q * Suc g) bs) out 0 cur = (out @ bs, 0)"
proof (induction "length bs" arbitrary: q out bs cur rule: less_induct)
  case less
  show ?case
  proof (cases "bs = []")
    case True
    then show ?thesis by (simp add: hex_loop.simps)
  next
    case False
    let ?grp = "Suc g" and ?d = "if q = 0 then [] else delim_bytes delim"
    let ?rest = "hex_text hexc delim ?grp ((q + 1) * ?grp) (drop ?grp bs)"
    let ?mid = "concat (map (encode_byte hexc) (take ?grp bs)) @ ?rest"
    note grouped = hex_text_group [of "Suc g" bs hexc delim q, OF zero_less_Suc False]
    have out: "(out = []) = (q = 0)" using less.prems by auto
    have ne: "?d @ ?mid \<noteq> []" using False by (cases bs) (auto simp: encode_byte_def)
    obtain cur' where grp: "hex_group 0 ?grp ?mid out 0 cur =
        hex_group (length (take ?grp bs)) ?grp ?rest (out @ take ?grp bs) 0 cur'"
      using hex_group_bytes [OF tab, of 0 "take ?grp bs" ?grp ?rest out cur] by auto
    have step: "hex_loop g delim (?d @ ?mid) out 0 cur =
        hex_loop g delim ?rest (out @ take ?grp bs) 0 cur'"
    proof (cases "?grp \<le> length bs")
      case True
      then have "hex_group 0 ?grp ?mid out 0 cur = (?rest, out @ take ?grp bs, 0, cur')"
        unfolding grp by (simp only: length_take min.absorb2 hex_group_full)
      then show ?thesis using ne out
        by (subst hex_loop.simps) (auto simp: delim_bytes_def Let_def)
    next
      case False
      then have "hex_group 0 ?grp ?mid out 0 cur = (?rest, out @ take ?grp bs, 0, cur')"
        unfolding grp by simp
      then show ?thesis using ne out
        by (subst hex_loop.simps) (auto simp: delim_bytes_def Let_def)
    qed
    have fin: "hex_loop g delim ?rest (out @ take ?grp bs) 0 cur' = (out @ bs, 0)"
    proof (cases "?grp \<le> length bs")
      case True
      have "hex_loop g delim ?rest (out @ take ?grp bs) 0 cur' =
          ((out @ take ?grp bs) @ drop ?grp bs, 0)"
        by (rule less.hyps) (use True less.prems in \<open>simp_all add: algebra_simps min_def\<close>)
      then show ?thesis by simp
    next
      case False
      then show ?thesis by (simp add: hex_loop.simps)
    qed
    show ?thesis using grouped step fin by simp
  qed
qed

text \<open>
  C34. Decoding inverts encoding: for either case of the digits, any delimiter (or none) and any
  group size of at least one, the decoder with the same delimiter and group size gives back the
  encoded bytes.
\<close>

theorem hex_roundtrip:
  assumes "1 \<le> grp"
  shows "egg_hex_decode_full (Some (egg_hex_encode_full data upper delim grp))
    (int (length (egg_hex_encode_full data upper delim grp))) delim grp = Some data"
proof -
  define hexc where "hexc = (if upper then hexc_upper else hexc_lower)"
  have tab: "hex_table hexc" by (simp add: hexc_def hex_table_def)
  have grp: "grp = Suc (grp - 1)" using assms by simp
  have enc: "egg_hex_encode_full data upper delim grp = hex_text hexc delim grp 0 data"
    by (simp add: egg_hex_encode_full_def hex_encode_loop_text hexc_def)
  have "hex_loop (grp - 1) delim (hex_text hexc delim grp 0 data) [] 0 0 = (data, 0)"
    using hex_loop_text [OF tab, of "[]" 0 "grp - 1" delim data 0] grp by simp
  then show ?thesis using assms by (simp add: egg_hex_decode_full_def enc)
qed

theorem hex_roundtrip_witness:
  "egg_hex_decode_full (Some (egg_hex_encode_full [1, 171, 255] False (Some [58]) 2)) 7 (Some [58]) 2
    = Some [1, 171, 255]"
  using hex_roundtrip [of 2 "[1, 171, 255]" False "Some [58]"]
  by (simp add: egg_hex_encode_full_def hex_encode_loop_text encode_byte_def delim_bytes_def)

section \<open>What the decoder accepts\<close>

definition is_hex_char :: "byte \<Rightarrow> bool" where
  "is_hex_char c \<longleftrightarrow> 48 \<le> c \<and> c \<le> 57 \<or> 65 \<le> c \<and> c \<le> 70 \<or> 97 \<le> c \<and> c \<le> 102"

lemma index_of_None: "index_of x ys = None \<longleftrightarrow> x \<notin> set ys"
  by (induction ys) auto

lemma digit_range: "x \<in> set hexc_upper \<longleftrightarrow>
    48 \<le> unat x \<and> unat x \<le> 57 \<or> 65 \<le> unat x \<and> unat x \<le> 70"
proof -
  have "x \<in> set hexc_upper \<longleftrightarrow> unat x \<in> {48, 49, 50, 51, 52, 53, 54, 55, 56, 57, 65, 66, 67, 68, 69, 70}"
    unfolding hexc_upper_def word_eq_unat set_simps insert_iff by simp
  also have "\<dots> \<longleftrightarrow> 48 \<le> unat x \<and> unat x \<le> 57 \<or> 65 \<le> unat x \<and> unat x \<le> 70"
    by (simp only: insert_iff empty_iff) presburger
  finally show ?thesis .
qed

lemma toupper_digit: "g_ascii_toupper c \<in> set (hexc_upper @ [0]) \<longleftrightarrow> is_hex_char c \<or> c = 0"
proof (cases "97 \<le> c \<and> c \<le> 122")
  case True
  then have r: "97 \<le> unat c" "unat c \<le> 122" by (simp_all add: word_le_nat_alt)
  then have "unat (c - 32) = unat c - 32" by (simp add: unat_sub word_le_nat_alt)
  moreover from this r have "c - 32 \<noteq> 0" "c \<noteq> 0" by auto
  ultimately show ?thesis using True r digit_range [of "c - 32"]
    by (auto simp: g_ascii_toupper_def is_hex_char_def word_le_nat_alt)
next
  case False
  then have "97 \<le> unat c \<Longrightarrow> 122 < unat c" by (auto simp: word_le_nat_alt)
  moreover have "g_ascii_toupper c = c" using False by (auto simp: g_ascii_toupper_def)
  ultimately show ?thesis using digit_range [of c]
    by (auto simp: is_hex_char_def word_le_nat_alt)
qed

lemma hex_position_None: "hex_position c = None \<longleftrightarrow> \<not> (is_hex_char c \<or> c = 0)"
  using toupper_digit [of c] by (auto simp: hex_position_def index_of_None)

text \<open>Without a delimiter and in groups of one byte, two characters are read at a time.\<close>

lemma hex_loop_pairs:
  "(snd (hex_loop 0 None rest out 0 cur) = 0) \<longleftrightarrow>
    even (length rest) \<and> (\<forall>c \<in> set rest. hex_position c \<noteq> None)"
proof (induction "length rest" arbitrary: rest out cur rule: less_induct)
  case less
  consider "rest = []" | c where "rest = [c]" | c c' cs where "rest = c # c' # cs"
    by (cases rest; cases "tl rest") auto
  then show ?case
  proof cases
    case 1
    then show ?thesis by (simp add: hex_loop.simps)
  next
    case 2
    then show ?thesis
      by (subst hex_loop.simps) (auto simp: hex_loop.simps [of 0 None] Let_def split: option.splits)
  next
    case 3
    show ?thesis
    proof (cases "hex_position c = None \<or> hex_position c' = None")
      case True
      then show ?thesis using 3
        by (subst hex_loop.simps) (auto simp: hex_loop.simps [of 0 None] Let_def split: option.splits)
    next
      case False
      then obtain j j' where j: "hex_position c = Some j" "hex_position c' = Some j'" by auto
      let ?cur = "push_bit 4 ((of_nat j :: byte) AND 0xf)"
      have "hex_loop 0 None rest out 0 cur =
          hex_loop 0 None cs (out @ [?cur OR ((of_nat j' :: byte) AND 0xf)]) 0 ?cur"
        using 3 j by (subst hex_loop.simps, cases cs) (simp_all add: Let_def)
      then show ?thesis using less.hyps [of cs] 3 j by simp
    qed
  qed
qed

text \<open>
  The plain decoder accepts a text exactly when it has an even number of characters and each
  of them is a hexadecimal digit or the character zero: a zero byte inside of the given length is
  read as the digit \<open>0\<close>, because \<open>strchr\<close> finds the terminator of the digit table.
\<close>

theorem hex_decode_accepts:
  "egg_hex_decode (Some data) (int (length data)) \<noteq> None \<longleftrightarrow>
    even (length data) \<and> (\<forall>c \<in> set data. is_hex_char c \<or> c = 0)"
proof -
  have "egg_hex_decode (Some data) (int (length data)) \<noteq> None \<longleftrightarrow>
      snd (hex_loop 0 None data [] 0 0) = 0"
    by (simp add: egg_hex_decode_def egg_hex_decode_full_def split: prod.split)
  then show ?thesis unfolding hex_loop_pairs using hex_position_None by blast
qed

theorem hex_decode_accepts_witness: "egg_hex_decode (Some [0, 97]) 2 \<noteq> None"
  using hex_decode_accepts [of "[0, 97]"] by (simp add: is_hex_char_def word_le_nat_alt)

lemma hex_decode_nul: "egg_hex_decode (Some [0, 0]) 2 = Some [0]"
  by code_simp

end
