(* ===== verification/Padding.thy ===== *)
theory Padding
  imports GcrPrelude
begin

text \<open>
  \<open>egg/egg-padding.c\<close>: zero, PKCS#1 (block types 1 and 2) and PKCS#7 padding. A result is
  \<open>None\<close> for an access outside of the input or a failed \<open>g_assert\<close>, \<open>Some None\<close> for the return
  value \<open>FALSE\<close>, and otherwise the length that is stored through the last argument and the new
  block. The output block is absent when the caller passes no place for it (\<open>want\<close> is false).
\<close>

type_synonym pad_result = "(nat \<times> bytes option) option option"

definition alloc_or_std :: "allocator option \<Rightarrow> allocator" where
  "alloc_or_std al = (case al of None \<Rightarrow> StdRealloc | Some a \<Rightarrow> a)"

definition sz_round :: "nat \<Rightarrow> nat \<Rightarrow> nat" where
  "sz_round n block = sz_mul (n div block) block"

section \<open>Random padding bytes\<close>

text \<open>
  The random generator belongs to libgcrypt: \<open>rnd k n\<close> are the bytes it returns to request number
  \<open>k\<close> for \<open>n\<close> bytes. \<open>replace_zeros\<close> is one pass over the data that puts random bytes in the place
  of the zeros and counts the zeros that are left; the passes go on until none is left, which is
  not bounded by the code, so the loop is a partial function.
\<close>

type_synonym rng = "nat \<Rightarrow> nat \<Rightarrow> bytes"

definition rng_law :: "rng \<Rightarrow> bool" where
  "rng_law rnd \<longleftrightarrow> (\<forall>k n. length (rnd k n) = n)"

fun replace_zeros :: "bytes \<Rightarrow> bytes \<Rightarrow> (bytes \<times> nat) option" where
  "replace_zeros [] rnds = Some ([], 0)"
| "replace_zeros (d # ds) rnds =
     (if d \<noteq> 0 then map_option (\<lambda>(ds', z). (d # ds', z)) (replace_zeros ds rnds)
      else case rnds of
        [] \<Rightarrow> None
      | r # rs \<Rightarrow> map_option (\<lambda>(ds', z). (r # ds', if r = 0 then Suc z else z))
          (replace_zeros ds rs))"

definition count_zeros :: "bytes \<Rightarrow> nat" where
  "count_zeros bs = length (filter (\<lambda>b. b = 0) bs)"

partial_function (option) fill_loop :: "rng \<Rightarrow> nat \<Rightarrow> bytes \<Rightarrow> nat \<Rightarrow> bytes option" where
  "fill_loop rnd k data n_zero =
     (if n_zero > 0
      then Option.bind (replace_zeros data (rnd k n_zero))
             (\<lambda>(data', n_zero'). fill_loop rnd (Suc k) data' n_zero')
      else Some data)"

definition fill_random_nonzero :: "rng \<Rightarrow> nat \<Rightarrow> bytes option" where
  "fill_random_nonzero rnd n_data =
     (let data = rnd 0 n_data in fill_loop rnd 1 data (count_zeros data))"

section \<open>Removing and adding padding\<close>

definition byte_at :: "bytes \<Rightarrow> nat \<Rightarrow> byte option" where
  "byte_at bs i = (if i < length bs then Some (bs ! i) else None)"

fun memchr0 :: "bytes \<Rightarrow> nat option" where
  "memchr0 [] = None"
| "memchr0 (b # bs) = (if b = 0 then Some 0 else map_option Suc (memchr0 bs))"

definition unpad_pkcs1 ::
  "realloc_fn \<Rightarrow> byte \<Rightarrow> allocator option \<Rightarrow> nat \<Rightarrow> bytes \<Rightarrow> bool \<Rightarrow> pad_result" where
  "unpad_pkcs1 R bt al block padded want =
     (if block \<noteq> 0 \<and> length padded mod block \<noteq> 0 then Some None
      else do {
        p0 \<leftarrow> byte_at padded 0;
        if p0 \<noteq> 0 then Some None
        else do {
          p1 \<leftarrow> byte_at padded 1;
          if p1 \<noteq> bt then Some None
          else case memchr0 (drop 2 padded) of
            None \<Rightarrow> Some None
          | Some i \<Rightarrow>
              let at = 2 + i + 1;
                  n_raw = length padded - at
              in if \<not> want then Some (Some (n_raw, None))
                 else case R (alloc_or_std al) None (n_raw + 1) of
                   None \<Rightarrow> Some None
                 | Some m \<Rightarrow> do {
                     m \<leftarrow> mem_write (Some m) 0 (drop at padded);
                     m \<leftarrow> mem_write m n_raw [0];
                     Some (Some (n_raw, m)) } } })"

definition egg_padding_zero_pad ::
  "realloc_fn \<Rightarrow> allocator option \<Rightarrow> nat \<Rightarrow> bytes \<Rightarrow> bool \<Rightarrow> pad_result" where
  "egg_padding_zero_pad R al block raw want =
     (if \<not> block \<noteq> 0 then Some None
      else let n_raw = length raw;
               n_padded = sz_round (sz_add n_raw (block - 1)) block;
               n_pad = n_padded - n_raw
        in do {
          c_assert (n_raw \<le> n_padded);
          c_assert (n_pad < block);
          if \<not> want then Some (Some (n_padded, None))
          else case R (alloc_or_std al) None (max n_padded 1) of
            None \<Rightarrow> Some None
          | Some pad \<Rightarrow> do {
              pad \<leftarrow> mem_write (Some pad) 0 (replicate n_pad 0);
              pad \<leftarrow> mem_write pad n_pad raw;
              Some (Some (n_padded, pad)) } })"

text \<open>
  The two PKCS#1 block types differ in the type byte and in the bytes between the header and the
  zero that ends the padding; \<open>fill n\<close> yields those.
\<close>

definition pkcs1_pad ::
  "(nat \<Rightarrow> bytes option) \<Rightarrow> byte \<Rightarrow> realloc_fn \<Rightarrow> allocator option \<Rightarrow> nat \<Rightarrow> bytes \<Rightarrow> bool
     \<Rightarrow> pad_result" where
  "pkcs1_pad fill bt R al block raw want =
     (if \<not> block \<noteq> 0 then Some None
      else if \<not> block > 3 then Some None
      else let n_raw = length raw;
               n_padded = sz_round (sz_add (sz_add n_raw 3) (block - 1)) block;
               n_pad = n_padded - n_raw
        in do {
          c_assert (n_raw \<le> n_padded);
          c_assert (n_pad \<le> block);
          c_assert (n_pad \<ge> 3);
          if \<not> want then Some (Some (n_padded, None))
          else case R (alloc_or_std al) None (max n_padded 1) of
            None \<Rightarrow> Some None
          | Some pad \<Rightarrow> do {
              pad \<leftarrow> mem_write (Some pad) 0 [0];
              pad \<leftarrow> mem_write pad 1 [bt];
              filler \<leftarrow> fill (n_pad - 3);
              pad \<leftarrow> mem_write pad 2 filler;
              pad \<leftarrow> mem_write pad (n_pad - 1) [0];
              pad \<leftarrow> mem_write pad n_pad raw;
              Some (Some (n_padded, pad)) } })"

definition egg_padding_pkcs1_pad_01 ::
  "realloc_fn \<Rightarrow> allocator option \<Rightarrow> nat \<Rightarrow> bytes \<Rightarrow> bool \<Rightarrow> pad_result" where
  "egg_padding_pkcs1_pad_01 = pkcs1_pad (\<lambda>n. Some (replicate n 0xff)) 1"

definition egg_padding_pkcs1_pad_02 ::
  "rng \<Rightarrow> realloc_fn \<Rightarrow> allocator option \<Rightarrow> nat \<Rightarrow> bytes \<Rightarrow> bool \<Rightarrow> pad_result" where
  "egg_padding_pkcs1_pad_02 rnd = pkcs1_pad (fill_random_nonzero rnd) 2"

definition egg_padding_pkcs1_unpad_01 ::
  "realloc_fn \<Rightarrow> allocator option \<Rightarrow> nat \<Rightarrow> bytes \<Rightarrow> bool \<Rightarrow> pad_result" where
  "egg_padding_pkcs1_unpad_01 R = unpad_pkcs1 R 1"

definition egg_padding_pkcs1_unpad_02 ::
  "realloc_fn \<Rightarrow> allocator option \<Rightarrow> nat \<Rightarrow> bytes \<Rightarrow> bool \<Rightarrow> pad_result" where
  "egg_padding_pkcs1_unpad_02 R = unpad_pkcs1 R 2"

definition egg_padding_pkcs7_pad ::
  "realloc_fn \<Rightarrow> allocator option \<Rightarrow> nat \<Rightarrow> bytes \<Rightarrow> bool \<Rightarrow> pad_result" where
  "egg_padding_pkcs7_pad R al block raw want =
     (if \<not> block \<noteq> 0 then Some None
      else if \<not> block < 256 then Some None
      else let n_raw = length raw;
               n_padded = sz_round (sz_add n_raw block) block;
               n_pad = n_padded - n_raw
        in do {
          c_assert (n_raw < n_padded);
          c_assert (n_pad > 0 \<and> n_pad \<le> block);
          if \<not> want then Some (Some (n_padded, None))
          else case R (alloc_or_std al) None (max n_padded 1) of
            None \<Rightarrow> Some None
          | Some pad \<Rightarrow> do {
              pad \<leftarrow> mem_write (Some pad) 0 raw;
              pad \<leftarrow> mem_write pad n_raw (replicate n_pad (of_nat n_pad));
              Some (Some (n_padded, pad)) } })"

definition egg_padding_pkcs7_unpad ::
  "realloc_fn \<Rightarrow> allocator option \<Rightarrow> nat \<Rightarrow> bytes \<Rightarrow> bool \<Rightarrow> pad_result" where
  "egg_padding_pkcs7_unpad R al block padded want =
     (if length padded = 0 then Some None
      else do {
        p \<leftarrow> byte_at padded (length padded - 1);
        let n_pad = unat p;
        if n_pad = 0 \<or> n_pad > 256 then Some None
        else if n_pad > length padded then Some None
        else if block \<noteq> 0 \<and> n_pad > block then Some None
        else if \<exists>b \<in> set (drop (length padded - n_pad) padded). unat b \<noteq> n_pad then Some None
        else
          let n_raw = length padded - n_pad
          in if \<not> want then Some (Some (n_raw, None))
             else case R (alloc_or_std al) None (n_raw + 1) of
               None \<Rightarrow> Some None
             | Some m \<Rightarrow> do {
                 m \<leftarrow> mem_write (Some m) 0 (take n_raw padded);
                 m \<leftarrow> mem_write m n_raw [0];
                 Some (Some (n_raw, m)) } })"

section \<open>Padded lengths\<close>

lemma round_up_bounds:
  fixes n block :: nat
  assumes "0 < block"
  shows "n \<le> (n + (block - 1)) div block * block" "(n + (block - 1)) div block * block < n + block"
proof -
  let ?m = "n + (block - 1)"
  have "?m div block * block + ?m mod block = ?m" by simp
  moreover have "?m mod block < block" using assms by simp
  ultimately show "n \<le> ?m div block * block" "?m div block * block < n + block"
    using assms by linarith+
qed

lemma round_next_bounds:
  fixes n block :: nat
  assumes "0 < block"
  shows "n < (n + block) div block * block" "(n + block) div block * block \<le> n + block"
proof -
  have "(n + block) div block * block + (n + block) mod block = n + block"
    by (rule div_mult_mod_eq)
  moreover have "(n + block) mod block < block" using assms by simp
  ultimately show "n < (n + block) div block * block" "(n + block) div block * block \<le> n + block"
    by linarith+
qed

lemma sz_round_small: "n < size_limit \<Longrightarrow> sz_round n block = n div block * block"
  by (simp add: sz_round_def sz_mul_def order.strict_trans1 [OF div_times_less_eq_dividend])

text \<open>
  The writes of the padding functions fill the block from left to right; \<open>fill_block\<close> is the
  effect of such a write on a block of which the first part is done.
\<close>

lemma fill_block:
  assumes "length done = off" "off + length val \<le> length m"
  shows "mem_write (Some (done @ drop off m)) off val = Some (Some ((done @ val) @ drop (off + length val) m))"
  using assms by (simp add: mem_write_def add.commute)

lemma pkcs1_block:
  assumes "length m = n_pad + length raw" "3 \<le> n_pad" "length f = n_pad - 3"
  shows "do {
      pad \<leftarrow> mem_write (Some m) 0 [0];
      pad \<leftarrow> mem_write pad 1 [bt];
      filler \<leftarrow> Some f;
      pad \<leftarrow> mem_write pad 2 filler;
      pad \<leftarrow> mem_write pad (n_pad - 1) [0];
      pad \<leftarrow> mem_write pad n_pad raw;
      k pad } = k (Some (0 # bt # f @ 0 # raw))"
proof -
  have n: "n_pad = Suc (Suc (Suc (length f)))" using assms(2,3) by simp
  show ?thesis
    using assms(1) fill_block [of "[]" 0 "[0]" m] fill_block [of "[0]" 1 "[bt]" m]
      fill_block [of "[0, bt]" 2 f m] fill_block [of "[0, bt] @ f" "n_pad - 1" "[0]" m]
      fill_block [of "[0, bt] @ f @ [0]" n_pad raw m]
    unfolding n by (simp add: numeral_2_eq_2)
qed

text \<open>The amount of padding that a block size asks for, and when the assertion about it holds.\<close>

definition pkcs1_n_pad :: "nat \<Rightarrow> nat \<Rightarrow> nat" where
  "pkcs1_n_pad block n_raw = (n_raw + 3 + (block - 1)) div block * block - n_raw"

lemma pkcs1_n_pad_bounds:
  assumes "3 < block"
  shows "3 \<le> pkcs1_n_pad block n" "(n + pkcs1_n_pad block n) mod block = 0"
    "(n + 3 + (block - 1)) div block * block = n + pkcs1_n_pad block n"
proof -
  have b: "n + 3 \<le> (n + 3 + (block - 1)) div block * block"
    using round_up_bounds(1) [of block "n + 3"] assms by simp
  then show "3 \<le> pkcs1_n_pad block n" by (simp add: pkcs1_n_pad_def)
  show e: "(n + 3 + (block - 1)) div block * block = n + pkcs1_n_pad block n"
    using b by (simp add: pkcs1_n_pad_def)
  show "(n + pkcs1_n_pad block n) mod block = 0" unfolding e [symmetric] by simp
qed

lemma pkcs1_n_pad_fits:
  assumes "3 < block"
  shows "pkcs1_n_pad block n \<le> block \<longleftrightarrow> n mod block + 3 \<le> block"
proof -
  define r q where "r = n mod block" and "q = n div block"
  have n: "n = q * block + r" by (simp add: r_def q_def)
  have r: "r < block" using assms by (simp add: r_def)
  have "(n + 3 + (block - 1)) div block = q + (r + 3 + (block - 1)) div block"
  proof -
    have "n + 3 + (block - 1) = (r + 3 + (block - 1)) + q * block" using n by linarith
    then show ?thesis using assms by (simp only: div_mult_self1)
  qed
  moreover have "(r + 3 + (block - 1)) div block = (if r + 3 \<le> block then 1 else 2)"
  proof (cases "r + 3 \<le> block")
    case True
    then have "(r + 3 + (block - 1)) div block = 1" using assms
      by (intro div_nat_eqI) simp_all
    then show ?thesis using True by simp
  next
    case False
    then have "(r + 3 + (block - 1)) div block = 2" using assms r
      by (intro div_nat_eqI) simp_all
    then show ?thesis using False by simp
  qed
  ultimately have "pkcs1_n_pad block n = (if r + 3 \<le> block then block - r else 2 * block - r)"
    using n r assms by (auto simp: pkcs1_n_pad_def algebra_simps)
  then show ?thesis using r assms by (auto simp: r_def [symmetric])
qed

section \<open>Random filler\<close>

lemma replace_zeros_spec:
  "replace_zeros ds rs = Some (ds', z) \<Longrightarrow> length ds' = length ds \<and> count_zeros ds' = z"
  by (induction ds rs arbitrary: ds' z rule: replace_zeros.induct)
    (auto simp: count_zeros_def split: if_splits list.splits)

lemma fill_loop_spec:
  assumes "fill_loop rnd k data n_zero = Some r" and "count_zeros data = n_zero"
  shows "length r = length data \<and> count_zeros r = 0"
proof (rule mp [OF fill_loop.raw_induct [where P = "\<lambda>rnd k data n_zero r. count_zeros data = n_zero \<longrightarrow>
    length r = length data \<and> count_zeros r = 0", OF _ assms(1)] assms(2)])
  fix f :: "rng \<Rightarrow> nat \<Rightarrow> bytes \<Rightarrow> nat \<Rightarrow> bytes option" and rnd k data n_zero r
  assume IH: "\<And>rnd k data n_zero r. f rnd k data n_zero = Some r \<Longrightarrow>
      count_zeros data = n_zero \<longrightarrow> length r = length data \<and> count_zeros r = 0"
    and eq: "(if n_zero > 0 then Option.bind (replace_zeros data (rnd k n_zero))
      (\<lambda>(data', n_zero'). f rnd (Suc k) data' n_zero') else Some data) = Some r"
  show "count_zeros data = n_zero \<longrightarrow> length r = length data \<and> count_zeros r = 0"
  proof (cases "n_zero > 0")
    case True
    then obtain data' z' where "replace_zeros data (rnd k n_zero) = Some (data', z')"
      "f rnd (Suc k) data' z' = Some r" using eq by (auto split: bind_splits)
    then show ?thesis using IH replace_zeros_spec by metis
  qed (use eq in auto)
qed

lemma fill_random_nonzero_spec:
  assumes "rng_law rnd" "fill_random_nonzero rnd n = Some r"
  shows "length r = n" "0 \<notin> set r"
proof -
  have "length r = length (rnd 0 n) \<and> count_zeros r = 0"
    using assms(2) unfolding fill_random_nonzero_def Let_def
    by (rule fill_loop_spec) simp
  then show "length r = n" "0 \<notin> set r"
    using assms(1) by (auto simp: rng_law_def count_zeros_def filter_empty_conv)
qed

text \<open>
  The loop ends as soon as the generator answers a request without a zero byte.
\<close>

lemma replace_zeros_enough:
  "count_zeros ds \<le> length rs \<Longrightarrow> 0 \<notin> set rs \<Longrightarrow> \<exists>ds'. replace_zeros ds rs = Some (ds', 0)"
proof (induction ds rs rule: replace_zeros.induct)
  case (1 rnds)
  then show ?case by simp
next
  case (2 d ds rnds)
  show ?case
  proof (cases "d = 0")
    case True
    with 2 show ?thesis by (cases rnds) (auto simp: count_zeros_def)
  next
    case False
    with 2 show ?thesis by (auto simp: count_zeros_def)
  qed
qed

lemma fill_random_nonzero_returns:
  assumes "rng_law rnd" and "\<And>n. 0 \<notin> set (rnd 1 n)"
  shows "\<exists>r. fill_random_nonzero rnd n = Some r"
proof (cases "count_zeros (rnd 0 n) > 0")
  case True
  have "\<exists>ds'. replace_zeros (rnd 0 n) (rnd 1 (count_zeros (rnd 0 n))) = Some (ds', 0)"
    by (rule replace_zeros_enough) (use assms in \<open>simp_all add: rng_law_def\<close>)
  then obtain ds' where "replace_zeros (rnd 0 n) (rnd 1 (count_zeros (rnd 0 n))) = Some (ds', 0)"
    by blast
  then have "fill_loop rnd 1 (rnd 0 n) (count_zeros (rnd 0 n)) = fill_loop rnd (Suc 1) ds' 0"
    using True by (subst fill_loop.simps) simp
  also have "\<dots> = Some ds'" by (subst fill_loop.simps) simp
  finally show ?thesis by (auto simp: fill_random_nonzero_def)
next
  case False
  then have "fill_loop rnd 1 (rnd 0 n) (count_zeros (rnd 0 n)) = Some (rnd 0 n)"
    by (subst fill_loop.simps) simp
  then show ?thesis by (simp add: fill_random_nonzero_def)
qed

section \<open>PKCS#1\<close>

lemma memchr0_after:
  "0 \<notin> set f \<Longrightarrow> memchr0 (f @ 0 # rest) = Some (length f)"
  by (induction f) auto

lemma unpad_pkcs1_block:
  assumes R: "realloc_law R" "alloc_total R"
    and f: "0 \<notin> set f" and block: "block = 0 \<or> length (0 # bt # f @ 0 # raw) mod block = 0"
    and size: "length raw + 1 < object_limit"
  shows "unpad_pkcs1 R bt al block (0 # bt # f @ 0 # raw) True =
    Some (Some (length raw, Some (raw @ [0])))"
proof -
  obtain m where m: "R (alloc_or_std al) None (length raw + 1) = Some m"
    using R(2) size unfolding alloc_total_def by blast
  have "length m = length raw + 1" using realloc_lawD(1) [OF R(1) m] .
  note copy = copy_string [OF this]
  show ?thesis using block m copy memchr0_after [OF f]
    by (auto simp: unpad_pkcs1_def byte_at_def Let_def)
qed

lemma pkcs1_pad_block:
  assumes R: "realloc_law R"
    and block: "3 < block" and size: "length raw + 3 + block < object_limit"
    and pad: "pkcs1_pad fill bt R al block raw True = Some (Some (n_padded, Some p))"
  obtains f where "fill (pkcs1_n_pad block (length raw) - 3) = Some f"
    "length f = pkcs1_n_pad block (length raw) - 3 \<Longrightarrow> p = 0 # bt # f @ 0 # raw"
    "n_padded = length raw + pkcs1_n_pad block (length raw)"
proof -
  let ?n = "length raw" and ?np = "pkcs1_n_pad block (length raw)"
  have add: "sz_add (sz_add ?n 3) (block - 1) = ?n + 3 + (block - 1)"
    using size block by (simp add: sz_add_small)
  have lim: "?n + 3 + (block - 1) < size_limit"
    using size block object_limit_less_size_limit by linarith
  have e: "sz_round (sz_add (sz_add ?n 3) (block - 1)) block = ?n + ?np"
    using pkcs1_n_pad_bounds(3) [OF block] by (simp only: add sz_round_small [OF lim])
  have np: "3 \<le> ?np" using pkcs1_n_pad_bounds(1) [OF block] .
  have unf: "pkcs1_pad fill bt R al block raw True =
    (if ?np \<le> block then case R (alloc_or_std al) None (max (?n + ?np) 1) of None \<Rightarrow> Some None
       | Some pad \<Rightarrow> do {
              pad \<leftarrow> mem_write (Some pad) 0 [0];
              pad \<leftarrow> mem_write pad 1 [bt];
              filler \<leftarrow> fill (?np - 3);
              pad \<leftarrow> mem_write pad 2 filler;
              pad \<leftarrow> mem_write pad (?np - 1) [0];
              pad \<leftarrow> mem_write pad ?np raw;
              Some (Some (?n + ?np, pad)) } else None)"
    unfolding pkcs1_pad_def Let_def e add_diff_cancel_left' using block np by simp
  from pad unf obtain m where m: "R (alloc_or_std al) None (max (?n + ?np) 1) = Some m"
    by (auto split: if_splits option.splits)
  have lm: "length m = ?np + ?n" using realloc_lawD(1) [OF R m] np by simp
  from pad unf m obtain f where f: "fill (?np - 3) = Some f"
    by (auto split: if_splits bind_splits)
  have eq: "do {
              pad \<leftarrow> mem_write (Some m) 0 [0];
              pad \<leftarrow> mem_write pad 1 [bt];
              filler \<leftarrow> Some f;
              pad \<leftarrow> mem_write pad 2 filler;
              pad \<leftarrow> mem_write pad (?np - 1) [0];
              pad \<leftarrow> mem_write pad ?np raw;
              Some (Some (?n + ?np, pad)) } = Some (Some (n_padded, Some p))"
    using pad unf m f by (auto split: if_splits)
  show ?thesis
  proof (rule that [OF f])
    show "n_padded = ?n + ?np" using eq by (auto split: bind_splits)
    assume "length f = ?np - 3"
    from pkcs1_block [OF lm np this, of bt "\<lambda>pad. Some (Some (?n + ?np, pad))"] eq
    show "p = 0 # bt # f @ 0 # raw" by simp
  qed
qed

text \<open>
  C32. What a PKCS#1 padding function produces is unpadded to the input by the unpadding function
  of the same block type: for block type 1, and for block type 2 with any random generator.
\<close>

theorem pkcs1_roundtrip:
  assumes R: "realloc_law R" "alloc_total R" and rnd: "rng_law rnd"
    and block: "3 < block" and size: "length raw + 3 + block < object_limit"
  shows "(egg_padding_pkcs1_pad_01 R al block raw True = Some (Some (n, Some p)) \<longrightarrow>
      egg_padding_pkcs1_unpad_01 R al block p True = Some (Some (length raw, Some (raw @ [0])))) \<and>
    (egg_padding_pkcs1_pad_02 rnd R al block raw True = Some (Some (n, Some p)) \<longrightarrow>
      egg_padding_pkcs1_unpad_02 R al block p True = Some (Some (length raw, Some (raw @ [0]))))"
proof -
  let ?np = "pkcs1_n_pad block (length raw)"
  have len: "length (0 # bt # f @ 0 # raw) mod block = 0" if "length f = ?np - 3" for bt :: byte and f
  proof -
    have "length (0 # bt # f @ 0 # raw) = length raw + ?np"
      using that pkcs1_n_pad_bounds(1) [OF block, of "length raw"] by simp
    then show ?thesis using pkcs1_n_pad_bounds(2) [OF block, of "length raw"] by (simp only:)
  qed
  have main: "unpad_pkcs1 R bt al block p True = Some (Some (length raw, Some (raw @ [0])))"
    if pad: "pkcs1_pad fill bt R al block raw True = Some (Some (n, Some p))"
      and fill: "\<And>k f. fill k = Some f \<Longrightarrow> length f = k \<and> 0 \<notin> set f" for fill bt
  proof -
    from pkcs1_pad_block [OF R(1) block size pad] obtain f
      where f: "fill (?np - 3) = Some f" "length f = ?np - 3 \<Longrightarrow> p = 0 # bt # f @ 0 # raw"
      by blast
    have "length f = ?np - 3" "0 \<notin> set f" using fill [OF f(1)] by simp_all
    then have p: "p = 0 # bt # f @ 0 # raw" "length (0 # bt # f @ 0 # raw) mod block = 0"
      using f(2) len by simp_all
    show ?thesis unfolding p(1)
      by (rule unpad_pkcs1_block [OF R \<open>0 \<notin> set f\<close>]) (use p(2) size in simp_all)
  qed
  show ?thesis
    unfolding egg_padding_pkcs1_pad_01_def egg_padding_pkcs1_unpad_01_def
      egg_padding_pkcs1_pad_02_def egg_padding_pkcs1_unpad_02_def
    by (intro conjI impI; erule main; use fill_random_nonzero_spec [OF rnd] in auto)
qed

lemma constant_rng: "rng_law (\<lambda>k n. replicate n 7)"
  by (simp add: rng_law_def)

theorem pkcs1_roundtrip_witness:
  "\<exists>n p. egg_padding_pkcs1_pad_01 padding_realloc None 8 [1, 2] True = Some (Some (n, Some p)) \<and>
    egg_padding_pkcs1_unpad_01 padding_realloc None 8 p True = Some (Some (2, Some [1, 2, 0]))"
proof -
  have "egg_padding_pkcs1_pad_01 padding_realloc None 8 [1, 2] True =
      Some (Some (8, Some [0, 1, 255, 255, 255, 0, 1, 2]))"
    by (simp add: egg_padding_pkcs1_pad_01_def pkcs1_pad_def sz_round_def sz_mul_def sz_add_def
        size_limit_def padding_realloc_def object_limit_def mem_write_def replicate_numeral)
  then show ?thesis
    using pkcs1_roundtrip [OF padding_realloc_law padding_realloc_total constant_rng, of 8 "[1, 2]"]
    by (fastforce simp: object_limit_def)
qed

lemma pkcs1_pad_fails:
  assumes R: "realloc_law R" and block: "3 < block" and size: "length raw + 3 + block < object_limit"
    and fill: "\<And>k. \<exists>f. fill k = Some f \<and> length f = k"
  shows "pkcs1_pad fill bt R al block raw want = None \<longleftrightarrow> block < length raw mod block + 3"
proof -
  let ?n = "length raw" and ?np = "pkcs1_n_pad block (length raw)"
  have add: "sz_add (sz_add ?n 3) (block - 1) = ?n + 3 + (block - 1)"
    using size block by (simp add: sz_add_small)
  have lim: "?n + 3 + (block - 1) < size_limit"
    using size block object_limit_less_size_limit by linarith
  have e: "sz_round (sz_add (sz_add ?n 3) (block - 1)) block = ?n + ?np"
    using pkcs1_n_pad_bounds(3) [OF block] by (simp only: add sz_round_small [OF lim])
  have np: "3 \<le> ?np" using pkcs1_n_pad_bounds(1) [OF block] .
  obtain f where f: "fill (?np - 3) = Some f" "length f = ?np - 3" using fill by blast
  have out: "(case R (alloc_or_std al) None (max (?n + ?np) 1) of None \<Rightarrow> Some None
       | Some pad \<Rightarrow> do {
              pad \<leftarrow> mem_write (Some pad) 0 [0];
              pad \<leftarrow> mem_write pad 1 [bt];
              filler \<leftarrow> fill (?np - 3);
              pad \<leftarrow> mem_write pad 2 filler;
              pad \<leftarrow> mem_write pad (?np - 1) [0];
              pad \<leftarrow> mem_write pad ?np raw;
              Some (Some (?n + ?np, pad)) }) \<noteq> None"
  proof (cases "R (alloc_or_std al) None (max (?n + ?np) 1)")
    case (Some m)
    have "length m = ?np + length raw" using realloc_lawD(1) [OF R Some] np by simp
    note written = pkcs1_block [OF this np f(2), of bt "\<lambda>pad. Some (Some (?n + ?np, pad))"]
    show ?thesis unfolding Some f(1) option.case(2) written by simp
  qed simp
  have "pkcs1_pad fill bt R al block raw want = None \<longleftrightarrow> \<not> ?np \<le> block"
    using out unfolding pkcs1_pad_def Let_def e add_diff_cancel_left'
    using block np by (simp add: c_assert_def)
  then show ?thesis unfolding pkcs1_n_pad_fits [OF block] not_le .
qed

text \<open>
  C40. The assertion on the amount of PKCS#1 padding fails for some inputs: with a block size of
  more than three, both padding functions abort exactly when fewer than three bytes are left in the last block
  that the input fills in part, although room for the header in one more block was computed. It does not matter whether the
  caller asks for the padded block or for its length alone; the random generator of block type 2 is one for which the search
  for bytes that are not zero ends.
\<close>

theorem pkcs1_pad_aborts:
  assumes R: "realloc_law R" and rnd: "rng_law rnd" "\<And>n. fill_random_nonzero rnd n \<noteq> None"
    and block: "3 < block" and size: "length raw + 3 + block < object_limit"
  shows "(egg_padding_pkcs1_pad_01 R al block raw want = None \<longleftrightarrow> block < length raw mod block + 3) \<and>
    (egg_padding_pkcs1_pad_02 rnd R al block raw want = None \<longleftrightarrow> block < length raw mod block + 3)"
proof
  show "egg_padding_pkcs1_pad_01 R al block raw want = None \<longleftrightarrow> block < length raw mod block + 3"
    unfolding egg_padding_pkcs1_pad_01_def by (rule pkcs1_pad_fails [OF R block size]) simp
  have "\<exists>f. fill_random_nonzero rnd k = Some f \<and> length f = k" for k
    using rnd(2) [of k] fill_random_nonzero_spec(1) [OF rnd(1)] by fastforce
  then show "egg_padding_pkcs1_pad_02 rnd R al block raw want = None \<longleftrightarrow> block < length raw mod block + 3"
    unfolding egg_padding_pkcs1_pad_02_def by (rule pkcs1_pad_fails [OF R block size])
qed

theorem pkcs1_pad_aborts_witness:
  "egg_padding_pkcs1_pad_01 padding_realloc None 8 [1, 2, 3, 4, 5, 6] True = None \<and>
    egg_padding_pkcs1_pad_02 (\<lambda>k n. replicate n 7) padding_realloc None 8 [1, 2, 3, 4, 5, 6] False = None \<and>
    egg_padding_pkcs1_pad_02 (\<lambda>k n. replicate n 7) padding_realloc None 8 [1, 2, 3, 4, 5] True \<noteq> None"
proof -
  have ends: "fill_random_nonzero (\<lambda>k n. replicate n 7) n \<noteq> None" for n
    using fill_random_nonzero_returns [OF constant_rng, of n] by auto
  show ?thesis
    using pkcs1_pad_aborts [OF padding_realloc_law constant_rng ends, of 8 "[1, 2, 3, 4, 5, 6]" None True]
      pkcs1_pad_aborts [OF padding_realloc_law constant_rng ends, of 8 "[1, 2, 3, 4, 5, 6]" None False]
      pkcs1_pad_aborts [OF padding_realloc_law constant_rng ends, of 8 "[1, 2, 3, 4, 5]" None True]
    by (simp add: object_limit_def)
qed

section \<open>PKCS#7\<close>

lemma pkcs7_unpad_block:
  assumes R: "realloc_law R" "alloc_total R"
    and n: "0 < n" "n < 256" "n \<le> block" and size: "length raw + 1 < object_limit"
  shows "egg_padding_pkcs7_unpad R al block (raw @ replicate n (of_nat n)) True =
    Some (Some (length raw, Some (raw @ [0])))"
proof -
  let ?p = "raw @ replicate n (of_nat n :: byte)"
  have u: "unat (of_nat n :: byte) = n" using n(2) by (simp add: unat_of_nat)
  have last: "byte_at ?p (length ?p - 1) = Some (of_nat n)"
    using n(1) by (auto simp: byte_at_def nth_append)
  obtain m where m: "R (alloc_or_std al) None (length raw + 1) = Some m"
    using R(2) size unfolding alloc_total_def by blast
  have "length m = length raw + 1" using realloc_lawD(1) [OF R(1) m] .
  note copy = copy_string [OF this]
  show ?thesis using n u last m copy by (simp add: egg_padding_pkcs7_unpad_def Let_def)
qed

lemma pkcs7_padded:
  assumes R: "realloc_law R" "alloc_total R" and block: "0 < block" "block < 256"
    and size: "length raw + block < object_limit"
  shows "\<exists>n p. egg_padding_pkcs7_pad R al block raw True = Some (Some (n, Some p)) \<and>
    length p = n \<and> n mod block = 0 \<and> length raw < n \<and> n \<le> length raw + block \<and>
    (\<forall>al. egg_padding_pkcs7_unpad R al block p True = Some (Some (length raw, Some (raw @ [0]))))"
proof -
  let ?n = "length raw"
  define N where "N = (length raw + block) div block * block"
  have add: "sz_add ?n block = ?n + block" using size by (simp add: sz_add_small)
  have "?n + block < size_limit" using size object_limit_less_size_limit by linarith
  then have e: "sz_round (sz_add ?n block) block = N" by (simp only: add sz_round_small N_def)
  have N: "?n < N" "N \<le> ?n + block" "N mod block = 0"
    unfolding N_def using round_next_bounds [OF block(1), of ?n] by simp_all
  have fits: "N - ?n \<le> block" using N(2) by simp
  obtain m where m: "R (alloc_or_std al) None (max N 1) = Some m"
  proof -
    have "N < object_limit" using N(2) size by (rule le_less_trans)
    moreover have "1 < object_limit" by (simp add: object_limit_def)
    ultimately have "max N 1 < object_limit" by (simp only: max_less_iff_conj)
    then show ?thesis using R(2) that unfolding alloc_total_def by blast
  qed
  have lm: "length m = N" using realloc_lawD(1) [OF R(1) m] N(1) by simp
  let ?pad = "replicate (N - ?n) (of_nat (N - ?n) :: byte)"
  have w: "mem_write (Some m) 0 raw = Some (Some (raw @ drop ?n m))"
    "mem_write (Some (raw @ drop ?n m)) ?n ?pad = Some (Some (raw @ ?pad))"
    using fill_block [of "[]" 0 raw m] fill_block [of raw ?n ?pad m] lm N by simp_all
  have "egg_padding_pkcs7_pad R al block raw True = Some (Some (N, Some (raw @ ?pad)))"
    unfolding egg_padding_pkcs7_pad_def Let_def e using block N m w fits by simp
  moreover have "egg_padding_pkcs7_unpad R al block (raw @ ?pad) True =
      Some (Some (?n, Some (raw @ [0])))" for al
    by (rule pkcs7_unpad_block [OF R]) (use N block size in linarith)+
  moreover have "length (raw @ ?pad) = N" using N(1) by simp
  ultimately show ?thesis using N by (intro exI [of _ N] exI [of _ "raw @ ?pad"]) simp
qed

text \<open>
  C33. PKCS#7 padding always succeeds when the allocator does, yields a multiple of the block size,
  and is removed again by the unpadding function of the same block size.
\<close>

theorem pkcs7_roundtrip:
  assumes R: "realloc_law R" "alloc_total R" and block: "0 < block" "block < 256"
    and size: "length raw + block < object_limit"
  shows "\<exists>n p. egg_padding_pkcs7_pad R al block raw True = Some (Some (n, Some p)) \<and>
    length p = n \<and> n mod block = 0 \<and> length raw < n \<and>
    egg_padding_pkcs7_unpad R al block p True = Some (Some (length raw, Some (raw @ [0])))"
  using pkcs7_padded [OF assms, of al] by fastforce

theorem pkcs7_roundtrip_witness:
  "\<exists>n p. egg_padding_pkcs7_pad padding_realloc None 8 [1, 2] True = Some (Some (n, Some p)) \<and>
    egg_padding_pkcs7_unpad padding_realloc None 8 p True = Some (Some (2, Some [1, 2, 0]))"
  using pkcs7_roundtrip [OF padding_realloc_law padding_realloc_total, of 8 "[1, 2]" None]
  by (auto simp: object_limit_def)

end
