(* ===== verification/Attributes.thy ===== *)
theory Attributes
  imports GcrPrelude "HOL-Library.Multiset"
begin

text \<open>
  \<open>gck/gck-attributes.c\<close> and the value functions of \<open>gck/gck-misc.c\<close>: attributes of PKCS#11
  objects, the builder that collects them, and the immutable sets that a builder ends in. The
  bytes of an attribute live in a block with a reference count that attributes of several builders
  and sets share; the model has those blocks in an explicit heap, so that a use after the last
  reference was dropped, or a block that nobody can free, would show. A result \<open>None\<close> is an
  access to memory that is not there (or an allocation that aborts the program).
\<close>

section \<open>The state\<close>

record block =
  rc :: int
  held_secure :: bool
  held :: bytes

text \<open>
  \<open>loans\<close> are blocks that a caller has allocated and not released, with whether they are in secure memory;
  \<open>junk\<close> are the bytes that uninitialised memory happens to hold. Reference counts are of type \<open>gint\<close>.
\<close>

record heap =
  blocks :: "nat \<Rightarrow> block option"
  loans :: "nat \<Rightarrow> (bool \<times> bytes) option"
  next_addr :: nat
  junk :: "nat \<Rightarrow> byte"

record gck_attribute =
  attr_type :: u64
  attr_value :: "nat option"
  attr_length :: nat

record gck_builder =
  attr_array :: "gck_attribute list option"
  attr_secure :: bool
  builder_refs :: int

record gck_attributes =
  attrs_data :: "gck_attribute list"
  attrs_refs :: int
  attrs_floating :: bool

text \<open>\<open>G_MAXULONG\<close>, which is also \<open>(gulong)-1\<close> and \<open>GCK_INVALID\<close>.\<close>

definition ulong_max :: nat where
  "ulong_max = 2 ^ 64 - 1"

text \<open>
  Memory that a caller passes in: \<open>None\<close> is \<open>NULL\<close>; the flag says whether it is in secure memory
  (\<open>egg_secure_check\<close>).
\<close>

type_synonym caller_data = "(bool \<times> bytes) option"

section \<open>Shared values\<close>

text \<open>A block starts with its counter, four bytes in front of the address that is handed out.\<close>

definition value_blank :: "heap \<Rightarrow> nat \<Rightarrow> bool \<Rightarrow> (nat \<times> heap) option" where
  "value_blank h n secure =
     (let len = sz_add n 4
      in if len < 4 \<or> len \<ge> object_limit then None
         else let a = next_addr h;
                  bs = map (if secure then (\<lambda>_. 0) else junk h) [0..<n]
           in Some (a, h\<lparr>blocks := (blocks h)(a \<mapsto> \<lparr>rc = 1, held_secure = secure, held = bs\<rparr>),
                         next_addr := Suc a\<rparr>))"

definition value_new :: "heap \<Rightarrow> bytes \<Rightarrow> nat \<Rightarrow> bool \<Rightarrow> (nat \<times> heap) option" where
  "value_new h data n secure = do {
     (a, h) \<leftarrow> value_blank h n secure;
     src \<leftarrow> mem_read (Some data) 0 n;
     blk \<leftarrow> blocks h a;
     Some (a, h\<lparr>blocks := (blocks h)(a \<mapsto> blk\<lparr>held := src\<rparr>)\<rparr>) }"

text \<open>
  \<open>value_take\<close> resizes the block of the caller and moves its contents behind the counter. When the
  caller's block is shorter than it says, the rest is uninitialised.
\<close>

definition value_take :: "heap \<Rightarrow> nat \<Rightarrow> nat \<Rightarrow> bool \<Rightarrow> (nat \<times> heap) option" where
  "value_take h p n secure = do {
     (_, data) \<leftarrow> loans h p;
     (a, h) \<leftarrow> value_blank (h\<lparr>loans := (loans h)(p := None)\<rparr>) n secure;
     blk \<leftarrow> blocks h a;
     Some (a, h\<lparr>blocks := (blocks h)
       (a \<mapsto> blk\<lparr>held := take n (data @ drop (length data) (held blk))\<rparr>)\<rparr>) }"

definition value_ref :: "heap \<Rightarrow> nat \<Rightarrow> (nat option \<times> heap) option" where
  "value_ref h a = do {
     blk \<leftarrow> blocks h a;
     let previous = rc blk;
     let h = h\<lparr>blocks := (blocks h)(a \<mapsto> blk\<lparr>rc := gint (previous + 1)\<rparr>)\<rparr>;
     Some (if previous \<le> 0 then None else Some a, h) }"

definition value_unref :: "heap \<Rightarrow> nat \<Rightarrow> heap option" where
  "value_unref h a = do {
     blk \<leftarrow> blocks h a;
     let count = gint (rc blk - 1);
     Some (if count = 0 then h\<lparr>blocks := (blocks h)(a := None)\<rparr>
           else h\<lparr>blocks := (blocks h)(a \<mapsto> blk\<lparr>rc := count\<rparr>)\<rparr>) }"

section \<open>The builder\<close>

definition gck_builder_init_full :: "bool \<Rightarrow> gck_builder" where
  "gck_builder_init_full secure = \<lparr>attr_array = None, attr_secure = secure, builder_refs = 0\<rparr>"

definition gck_builder_init :: gck_builder where
  "gck_builder_init = gck_builder_init_full False"

definition gck_builder_new :: "bool \<Rightarrow> gck_builder" where
  "gck_builder_new secure = (gck_builder_init_full secure)\<lparr>builder_refs := 1\<rparr>"

definition attr_cells :: "gck_builder \<Rightarrow> gck_attribute list" where
  "attr_cells b = (case attr_array b of None \<Rightarrow> [] | Some cs \<Rightarrow> cs)"

text \<open>
  The C functions return a pointer into the array; here that is the index of the element, which
  the callers fill in with \<open>put_attr\<close>.
\<close>

definition put_attr :: "gck_builder \<Rightarrow> nat \<Rightarrow> gck_attribute \<Rightarrow> gck_builder" where
  "put_attr b i c = b\<lparr>attr_array := Some ((attr_cells b)[i := c])\<rparr>"

definition builder_push :: "gck_builder \<Rightarrow> u64 \<Rightarrow> nat \<times> gck_builder" where
  "builder_push b t =
     (let attr = \<lparr>attr_type = t, attr_value = None, attr_length = 0\<rparr>
      in (length (attr_cells b), b\<lparr>attr_array := Some (attr_cells b @ [attr])\<rparr>))"

definition builder_clear :: "heap \<Rightarrow> gck_attribute \<Rightarrow> (heap \<times> gck_attribute) option" where
  "builder_clear h attr = do {
     h \<leftarrow> (case attr_value attr of None \<Rightarrow> Some h | Some a \<Rightarrow> value_unref h a);
     Some (h, attr\<lparr>attr_length := 0, attr_value := None\<rparr>) }"

fun find_attribute :: "gck_attribute list \<Rightarrow> u64 \<Rightarrow> nat option" where
  "find_attribute [] t = None"
| "find_attribute (c # cs) t =
     (if attr_type c = t then Some 0 else map_option Suc (find_attribute cs t))"

definition builder_clear_or_push ::
  "heap \<Rightarrow> gck_builder \<Rightarrow> u64 \<Rightarrow> (heap \<times> nat \<times> gck_builder) option" where
  "builder_clear_or_push h b t =
     (case find_attribute (attr_cells b) t of
        None \<Rightarrow> Some (h, builder_push b t)
      | Some i \<Rightarrow> do {
          (h, c) \<leftarrow> builder_clear h (attr_cells b ! i);
          Some (h, i, put_attr b i c) })"

definition builder_slot ::
  "heap \<Rightarrow> gck_builder \<Rightarrow> u64 \<Rightarrow> bool \<Rightarrow> (heap \<times> nat \<times> gck_builder) option" where
  "builder_slot h b t performing_set =
     (if performing_set then builder_clear_or_push h b t else Some (h, builder_push b t))"

definition share_value ::
  "heap \<Rightarrow> u64 \<Rightarrow> gck_attribute \<Rightarrow> (heap \<times> gck_attribute) option" where
  "share_value h t src =
     (if attr_length src = ulong_max
      then Some (h, \<lparr>attr_type = t, attr_value = None, attr_length = ulong_max\<rparr>)
      else case attr_value src of
        None \<Rightarrow> Some (h, \<lparr>attr_type = t, attr_value = None, attr_length = 0\<rparr>)
      | Some a \<Rightarrow> do {
          (v, h) \<leftarrow> value_ref h a;
          Some (h, \<lparr>attr_type = t, attr_value = v, attr_length = attr_length src\<rparr>) })"

definition builder_copy ::
  "heap \<Rightarrow> gck_builder \<Rightarrow> gck_attribute \<Rightarrow> bool \<Rightarrow> (heap \<times> gck_builder) option" where
  "builder_copy h b attr performing_set = do {
     (h, i, b) \<leftarrow> builder_slot h b (attr_type attr) performing_set;
     (h, c) \<leftarrow> share_value h (attr_type attr) attr;
     Some (h, put_attr b i c) }"

fun copy_all ::
  "heap \<Rightarrow> gck_builder \<Rightarrow> gck_attribute list \<Rightarrow> bool \<Rightarrow> (heap \<times> gck_builder) option" where
  "copy_all h b [] performing_set = Some (h, b)"
| "copy_all h b (c # cs) performing_set = do {
     (h, b) \<leftarrow> builder_copy h b c performing_set;
     copy_all h b cs performing_set }"

definition gck_builder_copy :: "heap \<Rightarrow> gck_builder \<Rightarrow> (heap \<times> gck_builder) option" where
  "gck_builder_copy h b = copy_all h (gck_builder_new (attr_secure b)) (attr_cells b) False"

text \<open>What the \<open>data\<close> functions store: nothing for the invalid length or a \<open>NULL\<close>, or a copy.\<close>

definition store_data ::
  "heap \<Rightarrow> u64 \<Rightarrow> caller_data \<Rightarrow> nat \<Rightarrow> bool \<Rightarrow> (heap \<times> gck_attribute) option" where
  "store_data h t val n secure =
     (if n = ulong_max
      then Some (h, \<lparr>attr_type = t, attr_value = None, attr_length = ulong_max\<rparr>)
      else case val of
        None \<Rightarrow> Some (h, \<lparr>attr_type = t, attr_value = None, attr_length = 0\<rparr>)
      | Some (sec, bs) \<Rightarrow> do {
          (a, h) \<leftarrow> value_new h bs n (secure \<or> sec);
          Some (h, \<lparr>attr_type = t, attr_value = Some a, attr_length = n\<rparr>) })"

text \<open>
  The memory of the caller is a block of its own, which is released when the length is invalid, and otherwise becomes
  the value. Releasing \<open>NULL\<close> does nothing.
\<close>

definition release_loan :: "heap \<Rightarrow> nat option \<Rightarrow> heap option" where
  "release_loan h p = (case p of
      None \<Rightarrow> Some h
    | Some a \<Rightarrow> do { _ \<leftarrow> loans h a; Some (h\<lparr>loans := (loans h)(a := None)\<rparr>) })"

definition gck_builder_take_data ::
  "heap \<Rightarrow> gck_builder \<Rightarrow> u64 \<Rightarrow> nat option \<Rightarrow> nat \<Rightarrow> (heap \<times> gck_builder) option" where
  "gck_builder_take_data h b t val n = do {
     secure \<leftarrow> (case val of None \<Rightarrow> Some False | Some p \<Rightarrow> map_option fst (loans h p));
     let (i, b) = builder_push b t;
     if n = ulong_max then do {
       h \<leftarrow> release_loan h val;
       Some (h, put_attr b i \<lparr>attr_type = t, attr_value = None, attr_length = ulong_max\<rparr>) }
     else case val of
       None \<Rightarrow> Some (h, put_attr b i \<lparr>attr_type = t, attr_value = None, attr_length = 0\<rparr>)
     | Some p \<Rightarrow> do {
         (a, h) \<leftarrow> value_take h p n secure;
         Some (h, put_attr b i \<lparr>attr_type = t, attr_value = Some a, attr_length = n\<rparr>) } }"

definition gck_builder_add_data ::
  "heap \<Rightarrow> gck_builder \<Rightarrow> u64 \<Rightarrow> caller_data \<Rightarrow> nat \<Rightarrow> (heap \<times> gck_builder) option" where
  "gck_builder_add_data h b t val n =
     (let (i, b) = builder_push b t
      in do {
        (h, c) \<leftarrow> store_data h t val n (attr_secure b);
        Some (h, put_attr b i c) })"

definition gck_builder_set_data ::
  "heap \<Rightarrow> gck_builder \<Rightarrow> u64 \<Rightarrow> caller_data \<Rightarrow> nat \<Rightarrow> (heap \<times> gck_builder) option" where
  "gck_builder_set_data h b t val n = do {
     (h, i, b) \<leftarrow> builder_clear_or_push h b t;
     (h, c) \<leftarrow> store_data h t val n (attr_secure b);
     Some (h, put_attr b i c) }"

definition gck_builder_add_empty :: "gck_builder \<Rightarrow> u64 \<Rightarrow> gck_builder" where
  "gck_builder_add_empty b t = snd (builder_push b t)"

definition gck_builder_set_empty ::
  "heap \<Rightarrow> gck_builder \<Rightarrow> u64 \<Rightarrow> (heap \<times> gck_builder) option" where
  "gck_builder_set_empty h b t = do {
     (h, _, b) \<leftarrow> builder_clear_or_push h b t;
     Some (h, b) }"

definition gck_builder_add_invalid :: "gck_builder \<Rightarrow> u64 \<Rightarrow> gck_builder" where
  "gck_builder_add_invalid b t =
     (let (i, b) = builder_push b t
      in put_attr b i ((attr_cells b ! i)\<lparr>attr_length := ulong_max\<rparr>))"

definition gck_builder_set_invalid ::
  "heap \<Rightarrow> gck_builder \<Rightarrow> u64 \<Rightarrow> (heap \<times> gck_builder) option" where
  "gck_builder_set_invalid h b t = do {
     (h, i, b) \<leftarrow> builder_clear_or_push h b t;
     Some (h, put_attr b i ((attr_cells b ! i)\<lparr>attr_length := ulong_max\<rparr>)) }"

section \<open>Typed values\<close>

text \<open>
  A \<open>CK_ULONG\<close> has eight bytes and is stored as the machine stores it, least significant byte
  first; a \<open>CK_BBOOL\<close> is one byte.
\<close>

definition ulong_bytes :: "u64 \<Rightarrow> bytes" where
  "ulong_bytes v = map (\<lambda>i. ucast (drop_bit (8 * i) v)) [0..<8]"

definition ulong_of_bytes :: "bytes \<Rightarrow> u64" where
  "ulong_of_bytes bs = foldr (\<lambda>b v. push_bit 8 v OR ucast b) bs 0"

definition bool_bytes :: "bool \<Rightarrow> bytes" where
  "bool_bytes v = [if v then 1 else 0]"

definition gck_builder_add_ulong ::
  "heap \<Rightarrow> gck_builder \<Rightarrow> u64 \<Rightarrow> u64 \<Rightarrow> (heap \<times> gck_builder) option" where
  "gck_builder_add_ulong h b t v = gck_builder_add_data h b t (Some (False, ulong_bytes v)) 8"

definition gck_builder_set_ulong ::
  "heap \<Rightarrow> gck_builder \<Rightarrow> u64 \<Rightarrow> u64 \<Rightarrow> (heap \<times> gck_builder) option" where
  "gck_builder_set_ulong h b t v = gck_builder_set_data h b t (Some (False, ulong_bytes v)) 8"

definition gck_builder_add_boolean ::
  "heap \<Rightarrow> gck_builder \<Rightarrow> u64 \<Rightarrow> bool \<Rightarrow> (heap \<times> gck_builder) option" where
  "gck_builder_add_boolean h b t v = gck_builder_add_data h b t (Some (False, bool_bytes v)) 1"

definition gck_builder_set_boolean ::
  "heap \<Rightarrow> gck_builder \<Rightarrow> u64 \<Rightarrow> bool \<Rightarrow> (heap \<times> gck_builder) option" where
  "gck_builder_set_boolean h b t v = gck_builder_set_data h b t (Some (False, bool_bytes v)) 1"

text \<open>\<open>strlen\<close> of a caller's string, which the C functions measure; the terminator is not kept.\<close>

definition str_len :: "caller_data \<Rightarrow> nat" where
  "str_len s = (case s of None \<Rightarrow> 0 | Some (_, bs) \<Rightarrow> length (takeWhile (\<lambda>c. c \<noteq> 0) bs))"

definition gck_builder_add_string ::
  "heap \<Rightarrow> gck_builder \<Rightarrow> u64 \<Rightarrow> caller_data \<Rightarrow> (heap \<times> gck_builder) option" where
  "gck_builder_add_string h b t s = gck_builder_add_data h b t s (str_len s)"

definition gck_builder_set_string ::
  "heap \<Rightarrow> gck_builder \<Rightarrow> u64 \<Rightarrow> caller_data \<Rightarrow> (heap \<times> gck_builder) option" where
  "gck_builder_set_string h b t s = gck_builder_set_data h b t s (str_len s)"

section \<open>Copying between sets and builders\<close>

definition gck_builder_add_attribute ::
  "heap \<Rightarrow> gck_builder \<Rightarrow> gck_attribute \<Rightarrow> (heap \<times> gck_builder) option" where
  "gck_builder_add_attribute h b attr = builder_copy h b attr False"

definition gck_builder_add_all ::
  "heap \<Rightarrow> gck_builder \<Rightarrow> gck_attributes \<Rightarrow> (heap \<times> gck_builder) option" where
  "gck_builder_add_all h b attrs = copy_all h b (attrs_data attrs) False"

definition gck_builder_set_all ::
  "heap \<Rightarrow> gck_builder \<Rightarrow> gck_attributes \<Rightarrow> (heap \<times> gck_builder) option" where
  "gck_builder_set_all h b attrs = copy_all h b (attrs_data attrs) True"

text \<open>An attribute is copied once for every time its type is listed.\<close>

fun only_loop ::
  "heap \<Rightarrow> gck_builder \<Rightarrow> gck_attribute \<Rightarrow> u64 list \<Rightarrow> (heap \<times> gck_builder) option" where
  "only_loop h b c [] = Some (h, b)"
| "only_loop h b c (t # ts) =
     (if attr_type c = t
      then do { (h, b) \<leftarrow> builder_copy h b c False; only_loop h b c ts }
      else only_loop h b c ts)"

fun onlyv_loop ::
  "heap \<Rightarrow> gck_builder \<Rightarrow> gck_attribute list \<Rightarrow> u64 list \<Rightarrow> (heap \<times> gck_builder) option" where
  "onlyv_loop h b [] ts = Some (h, b)"
| "onlyv_loop h b (c # cs) ts = do {
     (h, b) \<leftarrow> only_loop h b c ts;
     onlyv_loop h b cs ts }"

definition gck_builder_add_onlyv ::
  "heap \<Rightarrow> gck_builder \<Rightarrow> gck_attributes \<Rightarrow> u64 list \<Rightarrow> (heap \<times> gck_builder) option" where
  "gck_builder_add_onlyv h b attrs only_types = onlyv_loop h b (attrs_data attrs) only_types"

fun exceptv_loop ::
  "heap \<Rightarrow> gck_builder \<Rightarrow> gck_attribute list \<Rightarrow> u64 list \<Rightarrow> (heap \<times> gck_builder) option" where
  "exceptv_loop h b [] ts = Some (h, b)"
| "exceptv_loop h b (c # cs) ts = do {
     (h, b) \<leftarrow> (if attr_type c \<notin> set ts then builder_copy h b c False else Some (h, b));
     exceptv_loop h b cs ts }"

definition gck_builder_add_exceptv ::
  "heap \<Rightarrow> gck_builder \<Rightarrow> gck_attributes \<Rightarrow> u64 list \<Rightarrow> (heap \<times> gck_builder) option" where
  "gck_builder_add_exceptv h b attrs except_types = exceptv_loop h b (attrs_data attrs) except_types"

text \<open>
  The variants with a variable number of arguments read types up to \<open>GCK_INVALID\<close>.
\<close>

definition va_types :: "u64 list \<Rightarrow> u64 list" where
  "va_types ts = takeWhile (\<lambda>t. t \<noteq> - 1) ts"

definition gck_builder_add_only ::
  "heap \<Rightarrow> gck_builder \<Rightarrow> gck_attributes \<Rightarrow> u64 list \<Rightarrow> (heap \<times> gck_builder) option" where
  "gck_builder_add_only h b attrs ts = gck_builder_add_onlyv h b attrs (va_types ts)"

definition gck_builder_add_except ::
  "heap \<Rightarrow> gck_builder \<Rightarrow> gck_attributes \<Rightarrow> u64 list \<Rightarrow> (heap \<times> gck_builder) option" where
  "gck_builder_add_except h b attrs ts = gck_builder_add_exceptv h b attrs (va_types ts)"

section \<open>Ending a builder\<close>

definition gck_builder_steal :: "gck_builder \<Rightarrow> gck_attributes \<times> gck_builder" where
  "gck_builder_steal b =
     (\<lparr>attrs_data = attr_cells b, attrs_refs = 1, attrs_floating = False\<rparr>, b\<lparr>attr_array := None\<rparr>)"

definition gck_builder_end :: "gck_builder \<Rightarrow> gck_attributes \<times> gck_builder" where
  "gck_builder_end b = (let (attrs, b) = gck_builder_steal b in (attrs\<lparr>attrs_floating := True\<rparr>, b))"

fun clear_cells :: "heap \<Rightarrow> gck_attribute list \<Rightarrow> heap option" where
  "clear_cells h [] = Some h"
| "clear_cells h (c # cs) = do { (h, _) \<leftarrow> builder_clear h c; clear_cells h cs }"

definition gck_builder_clear :: "heap \<Rightarrow> gck_builder \<Rightarrow> (heap \<times> gck_builder) option" where
  "gck_builder_clear h b = do {
     h \<leftarrow> clear_cells h (attr_cells b);
     Some (h, b\<lparr>attr_array := None\<rparr>) }"

text \<open>Builders on the stack have the count zero; \<open>gck_builder_ref\<close> answers \<open>NULL\<close> for those.\<close>

definition gck_builder_ref :: "gck_builder \<Rightarrow> bool \<times> gck_builder" where
  "gck_builder_ref b = (builder_refs b \<noteq> 0, b\<lparr>builder_refs := gint (builder_refs b + 1)\<rparr>)"

definition gck_builder_unref :: "heap \<Rightarrow> gck_builder \<Rightarrow> (heap \<times> gck_builder option) option" where
  "gck_builder_unref h b =
     (let b = b\<lparr>builder_refs := gint (builder_refs b - 1)\<rparr>
      in if builder_refs b = 0 then do { (h, _) \<leftarrow> gck_builder_clear h b; Some (h, None) }
         else Some (h, Some b))"

definition gck_attributes_new_empty :: "u64 list \<Rightarrow> gck_attributes" where
  "gck_attributes_new_empty ts =
     fst (gck_builder_end (fold (\<lambda>t b. gck_builder_add_empty b t) (va_types ts) gck_builder_init))"

definition gck_attributes_new :: gck_attributes where
  "gck_attributes_new = fst (gck_builder_end gck_builder_init)"

definition gck_attributes_dup ::
  "heap \<Rightarrow> gck_attributes option \<Rightarrow> (heap \<times> gck_attributes option) option" where
  "gck_attributes_dup h attrs = (case attrs of
      None \<Rightarrow> Some (h, None)
    | Some attrs \<Rightarrow> do {
        (h, b) \<leftarrow> gck_builder_add_all h gck_builder_init attrs;
        Some (h, Some (fst (gck_builder_end b))) })"
section \<open>Reading\<close>

definition gck_attribute_is_invalid :: "gck_attribute \<Rightarrow> bool" where
  "gck_attribute_is_invalid attr \<longleftrightarrow> attr_length attr = ulong_max"

text \<open>The bytes that a value pointer points to; reading a block that is gone is undefined.\<close>

definition deref :: "heap \<Rightarrow> nat \<Rightarrow> bytes option" where
  "deref h a = map_option held (blocks h a)"

definition read_value :: "heap \<Rightarrow> gck_attribute \<Rightarrow> bytes option option" where
  "read_value h attr = (case attr_value attr of
      None \<Rightarrow> Some None
    | Some a \<Rightarrow> do {
        bs \<leftarrow> deref h a;
        bs \<leftarrow> mem_read (Some bs) 0 (attr_length attr);
        Some (Some bs) })"

text \<open>The second component of the arguments is the length that comes with the pointer.\<close>

definition gck_value_to_ulong :: "bytes option \<Rightarrow> nat \<Rightarrow> u64 option" where
  "gck_value_to_ulong val n = (case val of
      None \<Rightarrow> None
    | Some bs \<Rightarrow> if n \<noteq> 8 then None else Some (ulong_of_bytes (take 8 bs)))"

definition gck_value_to_boolean :: "bytes option \<Rightarrow> nat \<Rightarrow> bool option" where
  "gck_value_to_boolean val n = (case val of
      None \<Rightarrow> None
    | Some bs \<Rightarrow> if n \<noteq> 1 then None else Some (bs ! 0 \<noteq> 0))"

definition gck_attribute_get_boolean :: "heap \<Rightarrow> gck_attribute \<Rightarrow> bool option" where
  "gck_attribute_get_boolean h attr =
     (if gck_attribute_is_invalid attr then Some False
      else do {
        v \<leftarrow> read_value h attr;
        Some (case gck_value_to_boolean v (attr_length attr) of None \<Rightarrow> False | Some b \<Rightarrow> b) })"

definition gck_attribute_get_ulong :: "heap \<Rightarrow> gck_attribute \<Rightarrow> u64 option" where
  "gck_attribute_get_ulong h attr =
     (if gck_attribute_is_invalid attr then Some 0
      else do {
        v \<leftarrow> read_value h attr;
        Some (case gck_value_to_ulong v (attr_length attr) of None \<Rightarrow> - 1 | Some x \<Rightarrow> x) })"

text \<open>\<open>g_strndup\<close> stops at a zero byte.\<close>

definition gck_attribute_get_string :: "heap \<Rightarrow> gck_attribute \<Rightarrow> bytes option option" where
  "gck_attribute_get_string h attr =
     (if gck_attribute_is_invalid attr then Some None
      else do {
        v \<leftarrow> read_value h attr;
        Some (map_option (takeWhile (\<lambda>c. c \<noteq> 0)) v) })"

text \<open>
  A search that succeeds with \<open>Some v\<close> stores \<open>v\<close> through the last argument of the C function.
\<close>

definition find_attribute_with ::
  "(gck_attribute \<Rightarrow> 'a option option) \<Rightarrow> gck_attribute list \<Rightarrow> u64 \<Rightarrow> 'a option option" where
  "find_attribute_with get attrs t = (case find_attribute attrs t of
      None \<Rightarrow> Some None
    | Some i \<Rightarrow> if gck_attribute_is_invalid (attrs ! i) then Some None else get (attrs ! i))"

definition find_attribute_boolean ::
  "heap \<Rightarrow> gck_attribute list \<Rightarrow> u64 \<Rightarrow> bool option option" where
  "find_attribute_boolean h = find_attribute_with (\<lambda>attr. do {
     v \<leftarrow> read_value h attr; Some (gck_value_to_boolean v (attr_length attr)) })"

definition find_attribute_ulong ::
  "heap \<Rightarrow> gck_attribute list \<Rightarrow> u64 \<Rightarrow> u64 option option" where
  "find_attribute_ulong h = find_attribute_with (\<lambda>attr. do {
     v \<leftarrow> read_value h attr; Some (gck_value_to_ulong v (attr_length attr)) })"

definition find_attribute_string ::
  "heap \<Rightarrow> gck_attribute list \<Rightarrow> u64 \<Rightarrow> bytes option option" where
  "find_attribute_string h = find_attribute_with (gck_attribute_get_string h)"

definition gck_builder_find :: "gck_builder \<Rightarrow> u64 \<Rightarrow> nat option" where
  "gck_builder_find b t =
     (case attr_array b of None \<Rightarrow> None | Some cs \<Rightarrow> find_attribute cs t)"

definition gck_builder_find_boolean :: "heap \<Rightarrow> gck_builder \<Rightarrow> u64 \<Rightarrow> bool option option" where
  "gck_builder_find_boolean h b t =
     (case attr_array b of None \<Rightarrow> Some None | Some cs \<Rightarrow> find_attribute_boolean h cs t)"

definition gck_builder_find_ulong :: "heap \<Rightarrow> gck_builder \<Rightarrow> u64 \<Rightarrow> u64 option option" where
  "gck_builder_find_ulong h b t =
     (case attr_array b of None \<Rightarrow> Some None | Some cs \<Rightarrow> find_attribute_ulong h cs t)"

definition gck_builder_find_string :: "heap \<Rightarrow> gck_builder \<Rightarrow> u64 \<Rightarrow> bytes option option" where
  "gck_builder_find_string h b t =
     (case attr_array b of None \<Rightarrow> Some None | Some cs \<Rightarrow> find_attribute_string h cs t)"

section \<open>Single attributes\<close>

definition gck_attribute_init ::
  "heap \<Rightarrow> u64 \<Rightarrow> caller_data \<Rightarrow> nat \<Rightarrow> (heap \<times> gck_attribute) option" where
  "gck_attribute_init h t val n =
     (if n = ulong_max
      then Some (h, \<lparr>attr_type = t, attr_value = None, attr_length = ulong_max\<rparr>)
      else case val of
        None \<Rightarrow> Some (h, \<lparr>attr_type = t, attr_value = None, attr_length = 0\<rparr>)
      | Some (sec, bs) \<Rightarrow> do {
          (a, h) \<leftarrow> value_new h bs n sec;
          Some (h, \<lparr>attr_type = t, attr_value = Some a, attr_length = n\<rparr>) })"

definition gck_attribute_init_invalid :: "u64 \<Rightarrow> gck_attribute" where
  "gck_attribute_init_invalid t = \<lparr>attr_type = t, attr_value = None, attr_length = ulong_max\<rparr>"

definition gck_attribute_init_empty :: "u64 \<Rightarrow> gck_attribute" where
  "gck_attribute_init_empty t = \<lparr>attr_type = t, attr_value = None, attr_length = 0\<rparr>"

definition gck_attribute_init_boolean ::
  "heap \<Rightarrow> u64 \<Rightarrow> bool \<Rightarrow> (heap \<times> gck_attribute) option" where
  "gck_attribute_init_boolean h t v = gck_attribute_init h t (Some (False, bool_bytes v)) 1"

definition gck_attribute_init_ulong ::
  "heap \<Rightarrow> u64 \<Rightarrow> u64 \<Rightarrow> (heap \<times> gck_attribute) option" where
  "gck_attribute_init_ulong h t v = gck_attribute_init h t (Some (False, ulong_bytes v)) 8"

definition gck_attribute_init_string ::
  "heap \<Rightarrow> u64 \<Rightarrow> caller_data \<Rightarrow> (heap \<times> gck_attribute) option" where
  "gck_attribute_init_string h t s = gck_attribute_init h t s (str_len s)"

definition gck_attribute_init_copy :: "heap \<Rightarrow> gck_attribute \<Rightarrow> (heap \<times> gck_attribute) option" where
  "gck_attribute_init_copy h src = share_value h (attr_type src) src"

definition gck_attribute_dup ::
  "heap \<Rightarrow> gck_attribute option \<Rightarrow> (heap \<times> gck_attribute option) option" where
  "gck_attribute_dup h attr = (case attr of
      None \<Rightarrow> Some (h, None)
    | Some src \<Rightarrow> do { (h, c) \<leftarrow> gck_attribute_init_copy h src; Some (h, Some c) })"

definition gck_attribute_clear :: "heap \<Rightarrow> gck_attribute \<Rightarrow> (heap \<times> gck_attribute) option" where
  "gck_attribute_clear h attr = do {
     h \<leftarrow> (case attr_value attr of None \<Rightarrow> Some h | Some a \<Rightarrow> value_unref h a);
     Some (h, attr\<lparr>attr_value := None, attr_length := 0\<rparr>) }"

definition gck_attribute_free :: "heap \<Rightarrow> gck_attribute option \<Rightarrow> heap option" where
  "gck_attribute_free h attr = (case attr of
      None \<Rightarrow> Some h
    | Some c \<Rightarrow> do { (h, _) \<leftarrow> gck_attribute_clear h c; Some h })"

definition gck_attribute_equal ::
  "heap \<Rightarrow> gck_attribute option \<Rightarrow> gck_attribute option \<Rightarrow> bool option" where
  "gck_attribute_equal h attr1 attr2 = (case (attr1, attr2) of
      (None, None) \<Rightarrow> Some True
    | (Some aa, Some ab) \<Rightarrow>
        if attr_type aa \<noteq> attr_type ab then Some False
        else if attr_length aa \<noteq> attr_length ab then Some False
        else (case (attr_value aa, attr_value ab) of
            (None, None) \<Rightarrow> Some True
          | (Some va, Some vb) \<Rightarrow> do {
              x \<leftarrow> deref h va; y \<leftarrow> deref h vb;
              x \<leftarrow> mem_read (Some x) 0 (attr_length aa);
              y \<leftarrow> mem_read (Some y) 0 (attr_length aa);
              Some (x = y) }
          | _ \<Rightarrow> Some False)
    | _ \<Rightarrow> Some False)"

text \<open>The bytes are added as signed characters; the hash has 32 bits.\<close>

definition signed_char :: "byte \<Rightarrow> u32" where
  "signed_char b = scast b"

definition gck_ulong_hash :: "u64 \<Rightarrow> u32" where
  "gck_ulong_hash v =
     fold (\<lambda>b h. push_bit 5 h - h + signed_char b) (ulong_bytes v) (signed_char (ulong_bytes v ! 0))"

definition gck_attribute_hash :: "heap \<Rightarrow> gck_attribute \<Rightarrow> u32 option" where
  "gck_attribute_hash h attr = do {
     v \<leftarrow> read_value h attr;
     Some (fold (\<lambda>b h. push_bit 5 h + h + signed_char b) (case v of None \<Rightarrow> [] | Some bs \<Rightarrow> bs)
       (5381 XOR gck_ulong_hash (attr_type attr))) }"

section \<open>Attribute sets\<close>

definition gck_attributes_at :: "gck_attributes \<Rightarrow> nat \<Rightarrow> gck_attribute option" where
  "gck_attributes_at attrs i =
     (if i < length (attrs_data attrs) then Some (attrs_data attrs ! i) else None)"

definition gck_attributes_count :: "gck_attributes \<Rightarrow> nat" where
  "gck_attributes_count attrs = length (attrs_data attrs)"

definition gck_attributes_find :: "gck_attributes \<Rightarrow> u64 \<Rightarrow> gck_attribute option" where
  "gck_attributes_find attrs t = map_option (nth (attrs_data attrs)) (find_attribute (attrs_data attrs) t)"

definition gck_attributes_find_boolean ::
  "heap \<Rightarrow> gck_attributes \<Rightarrow> u64 \<Rightarrow> bool option option" where
  "gck_attributes_find_boolean h attrs t = find_attribute_boolean h (attrs_data attrs) t"

definition gck_attributes_find_ulong ::
  "heap \<Rightarrow> gck_attributes \<Rightarrow> u64 \<Rightarrow> u64 option option" where
  "gck_attributes_find_ulong h attrs t = find_attribute_ulong h (attrs_data attrs) t"

definition gck_attributes_find_string ::
  "heap \<Rightarrow> gck_attributes \<Rightarrow> u64 \<Rightarrow> bytes option option" where
  "gck_attributes_find_string h attrs t = find_attribute_string h (attrs_data attrs) t"

fun contains_loop :: "heap \<Rightarrow> gck_attribute list \<Rightarrow> gck_attribute \<Rightarrow> bool option" where
  "contains_loop h [] match = Some False"
| "contains_loop h (c # cs) match = do {
     eq \<leftarrow> gck_attribute_equal h (Some c) (Some match);
     if eq then Some True else contains_loop h cs match }"

definition gck_attributes_contains :: "heap \<Rightarrow> gck_attributes \<Rightarrow> gck_attribute \<Rightarrow> bool option" where
  "gck_attributes_contains h attrs match = contains_loop h (attrs_data attrs) match"

definition gck_attributes_ref :: "gck_attributes \<Rightarrow> gck_attributes" where
  "gck_attributes_ref attrs = attrs\<lparr>attrs_refs := gint (attrs_refs attrs + 1)\<rparr>"

definition gck_attributes_ref_sink :: "gck_attributes \<Rightarrow> gck_attributes" where
  "gck_attributes_ref_sink attrs =
     (if \<not> attrs_floating attrs then gck_attributes_ref attrs
      else attrs\<lparr>attrs_floating := False\<rparr>)"

fun unref_cells :: "heap \<Rightarrow> gck_attribute list \<Rightarrow> heap option" where
  "unref_cells h [] = Some h"
| "unref_cells h (c # cs) = do {
     h \<leftarrow> (case attr_value c of None \<Rightarrow> Some h | Some a \<Rightarrow> value_unref h a);
     unref_cells h cs }"

text \<open>The second component is \<open>None\<close> once the set has been freed.\<close>

definition gck_attributes_unref ::
  "heap \<Rightarrow> gck_attributes \<Rightarrow> (heap \<times> gck_attributes option) option" where
  "gck_attributes_unref h attrs =
     (let attrs = attrs\<lparr>attrs_refs := gint (attrs_refs attrs - 1)\<rparr>
      in if attrs_refs attrs = 0 then do { h \<leftarrow> unref_cells h (attrs_data attrs); Some (h, None) }
         else Some (h, Some attrs))"

section \<open>Receiving attributes from a module\<close>

text \<open>
  \<open>gck_builder_prepare_in\<close> empties the attributes, the module then stores the lengths it needs,
  and \<open>gck_builder_commit_in\<close> allocates the values that the module fills in.
\<close>

fun prepare_cells :: "heap \<Rightarrow> gck_attribute list \<Rightarrow> (heap \<times> gck_attribute list) option" where
  "prepare_cells h [] = Some (h, [])"
| "prepare_cells h (c # cs) = do {
     h \<leftarrow> (case attr_value c of None \<Rightarrow> Some h | Some a \<Rightarrow> value_unref h a);
     (h, cs) \<leftarrow> prepare_cells h cs;
     Some (h, c\<lparr>attr_value := None, attr_length := 0\<rparr> # cs) }"

definition gck_builder_prepare_in :: "heap \<Rightarrow> gck_builder \<Rightarrow> (heap \<times> gck_builder) option" where
  "gck_builder_prepare_in h b = (case attr_array b of
      None \<Rightarrow> Some (h, b)
    | Some cs \<Rightarrow> do { (h, cs) \<leftarrow> prepare_cells h cs; Some (h, b\<lparr>attr_array := Some cs\<rparr>) })"

fun commit_cells :: "heap \<Rightarrow> bool \<Rightarrow> gck_attribute list \<Rightarrow> (heap \<times> gck_attribute list) option" where
  "commit_cells h secure [] = Some (h, [])"
| "commit_cells h secure (c # cs) = do {
     (h, v) \<leftarrow> (if attr_length c \<noteq> 0 \<and> attr_length c \<noteq> ulong_max
       then do { (a, h) \<leftarrow> value_blank h (attr_length c) secure; Some (h, Some a) }
       else Some (h, None));
     (h, cs) \<leftarrow> commit_cells h secure cs;
     Some (h, c\<lparr>attr_value := v\<rparr> # cs) }"

definition gck_builder_commit_in :: "heap \<Rightarrow> gck_builder \<Rightarrow> (heap \<times> gck_builder) option" where
  "gck_builder_commit_in h b = (case attr_array b of
      None \<Rightarrow> Some (h, b)
    | Some cs \<Rightarrow> do {
        (h, cs) \<leftarrow> commit_cells h (attr_secure b) cs;
        Some (h, b\<lparr>attr_array := Some cs\<rparr>) })"

end
