(* ===== verification/AttributeHeap.thy ===== *)
theory AttributeHeap
  imports Attributes
begin

text \<open>
  Ownership of attribute values. \<open>heap_ok h M\<close> says that the attributes \<open>M\<close> of all builders, sets
  and single attributes of the program together own the heap: a block has as many references as
  attributes point to it, and every attribute points to a block of its own length. On top of it
  every builder operation implements an operation on abstract lists of typed values, and leaves the
  values of all the other attributes alone, however many blocks they share.
\<close>

section \<open>The ownership invariant\<close>

definition points :: "nat \<Rightarrow> gck_attribute \<Rightarrow> bool" where
  "points a c \<longleftrightarrow> attr_value c = Some a"

definition owners :: "nat \<Rightarrow> gck_attribute multiset \<Rightarrow> nat" where
  "owners a M = size (filter_mset (points a) M)"

definition cell_ok :: "heap \<Rightarrow> gck_attribute \<Rightarrow> bool" where
  "cell_ok h c = (case attr_value c of
      None \<Rightarrow> attr_length c = 0 \<or> attr_length c = ulong_max
    | Some a \<Rightarrow> (case blocks h a of
        None \<Rightarrow> False
      | Some blk \<Rightarrow> length (held blk) = attr_length c \<and> attr_length c < ulong_max))"

definition heap_ok :: "heap \<Rightarrow> gck_attribute multiset \<Rightarrow> bool" where
  "heap_ok h M \<longleftrightarrow>
     (\<forall>a blk. blocks h a = Some blk \<longrightarrow>
        rc blk = int (owners a M) \<and> rc blk > 0 \<and> rc blk < 2 ^ 31 \<and> a < next_addr h) \<and>
     (\<forall>c \<in># M. cell_ok h c) \<and> (\<forall>a. loans h a = None)"

text \<open>
  A counter of type \<open>gint\<close> is enough as long as there are fewer than \<open>2 ^ 31\<close> attributes; so many more of them can be
  made.
\<close>

definition room :: "nat \<Rightarrow> gck_attribute multiset \<Rightarrow> bool" where
  "room k M \<longleftrightarrow> size M + k < 2 ^ 31"

lemma owners_size: "owners a M \<le> size M"
  by (simp add: owners_def)

lemma room_mono: "room k M \<Longrightarrow> size N + j \<le> size M + k \<Longrightarrow> room j N"
  by (simp add: room_def)

text \<open>What a reader sees in an attribute.\<close>

datatype attr_view = Invalid | NoValue | Value bytes

definition view_value :: "heap \<Rightarrow> gck_attribute \<Rightarrow> attr_view" where
  "view_value h c =
     (if attr_length c = ulong_max then Invalid
      else case attr_value c of
        None \<Rightarrow> NoValue
      | Some a \<Rightarrow> (case blocks h a of None \<Rightarrow> NoValue | Some blk \<Rightarrow> Value (held blk)))"

definition view :: "heap \<Rightarrow> gck_attribute \<Rightarrow> u64 \<times> attr_view" where
  "view h c = (attr_type c, view_value h c)"

definition same_views :: "heap \<Rightarrow> heap \<Rightarrow> gck_attribute multiset \<Rightarrow> bool" where
  "same_views h h' M \<longleftrightarrow> (\<forall>c \<in># M. view h' c = view h c)"

lemma owners_simps [simp]:
  "owners a {#} = 0" "owners a (M + N) = owners a M + owners a N"
  "owners a (add_mset c M) = (if points a c then Suc (owners a M) else owners a M)"
  by (simp_all add: owners_def)

lemma same_viewsD: "same_views h h' M \<Longrightarrow> c \<in># M \<Longrightarrow> view h' c = view h c"
  by (simp add: same_views_def)

lemma same_views_refl [simp]: "same_views h h M"
  by (simp add: same_views_def)

lemma same_views_trans: "same_views h h1 M \<Longrightarrow> same_views h1 h2 M \<Longrightarrow> same_views h h2 M"
  by (simp add: same_views_def)

lemma same_views_sub: "same_views h h' M \<Longrightarrow> N \<subseteq># M \<Longrightarrow> same_views h h' N"
  by (auto simp: same_views_def dest: mset_subset_eqD)

lemma same_views_simps [simp]:
  "same_views h h' {#}"
  "same_views h h' (add_mset c M) \<longleftrightarrow> view h' c = view h c \<and> same_views h h' M"
  "same_views h h' (M + N) \<longleftrightarrow> same_views h h' M \<and> same_views h h' N"
  by (auto simp: same_views_def)

lemma points_in: "c \<in># M \<Longrightarrow> attr_value c = Some a \<Longrightarrow> 0 < owners a M"
proof -
  assume "c \<in># M" "attr_value c = Some a"
  then have "c \<in># filter_mset (points a) M" by (simp add: points_def)
  then show ?thesis unfolding owners_def by (metis empty_iff nonempty_has_size set_mset_empty)
qed

lemma cell_null [simp]:
  "attr_value c = None \<Longrightarrow> cell_ok h c \<longleftrightarrow> attr_length c = 0 \<or> attr_length c = ulong_max"
  by (simp add: cell_ok_def)

lemma cell_ok_retype [simp]: "cell_ok h (c\<lparr>attr_type := t\<rparr>) \<longleftrightarrow> cell_ok h c"
  by (auto simp: cell_ok_def split: option.splits)

text \<open>An attribute depends on the contents of its own block alone.\<close>

lemma cell_same_block:
  assumes "\<And>a. attr_value c = Some a \<Longrightarrow> map_option held (blocks h' a) = map_option held (blocks h a)"
  shows "cell_ok h' c = cell_ok h c" "view_value h' c = view_value h c" "view h' c = view h c"
proof -
  have "cell_ok h' c = cell_ok h c \<and> view_value h' c = view_value h c"
  proof (cases "attr_value c")
    case (Some a)
    then show ?thesis using assms [OF Some]
      by (cases "blocks h a"; cases "blocks h' a") (simp_all add: cell_ok_def view_value_def)
  qed (simp add: cell_ok_def view_value_def)
  then show "cell_ok h' c = cell_ok h c" "view_value h' c = view_value h c" "view h' c = view h c"
    by (simp_all add: view_def)
qed

lemma view_value_retype [simp]: "view_value h (c\<lparr>attr_type := t\<rparr>) = view_value h c"
  by (cases "attr_value c") (simp_all add: view_value_def)

lemma cell_block:
  assumes "cell_ok h c" "attr_value c = Some a"
  obtains blk where "blocks h a = Some blk" "length (held blk) = attr_length c" "attr_length c < ulong_max"
  using assms by (auto simp: cell_ok_def split: option.splits)

lemma heap_ok_cell: "heap_ok h M \<Longrightarrow> c \<in># M \<Longrightarrow> cell_ok h c"
  by (simp add: heap_ok_def)

lemma heap_ok_block:
  "heap_ok h M \<Longrightarrow> blocks h a = Some blk \<Longrightarrow> rc blk = int (owners a M) \<and> 0 < owners a M \<and> owners a M < 2 ^ 31 \<and> a < next_addr h"
  unfolding heap_ok_def by fastforce

lemma heap_ok_null:
  "attr_value c = None \<Longrightarrow>
    heap_ok h (add_mset c M) \<longleftrightarrow> heap_ok h M \<and> (attr_length c = 0 \<or> attr_length c = ulong_max)"
  by (auto simp: heap_ok_def points_def)

lemma heap_ok_loans: "heap_ok h M \<Longrightarrow> loans h a = None"
  by (simp add: heap_ok_def)

text \<open>Nothing is left when no attribute is left: there are no leaks.\<close>

lemma heap_ok_empty: "heap_ok h {#} \<longleftrightarrow> (\<forall>a. blocks h a = None) \<and> (\<forall>a. loans h a = None)"
proof
  assume ok: "heap_ok h {#}"
  have "blocks h a = None" for a using heap_ok_block [OF ok, of a] by (cases "blocks h a") auto
  then show "(\<forall>a. blocks h a = None) \<and> (\<forall>a. loans h a = None)" using heap_ok_loans [OF ok] by blast
qed (simp add: heap_ok_def)

section \<open>The shared values keep the invariant\<close>

lemma heap_ok_fresh:
  assumes ok: "heap_ok h M" and n: "length bs < ulong_max"
    and h': "h' = h\<lparr>blocks := (blocks h)(next_addr h \<mapsto> \<lparr>rc = 1, held_secure = s, held = bs\<rparr>),
      next_addr := Suc (next_addr h)\<rparr>"
    and c: "attr_value c = Some (next_addr h)" "attr_length c = length bs"
  shows "heap_ok h' (add_mset c M)" "same_views h h' M" "view h' c = (attr_type c, Value bs)"
proof -
  have none: "blocks h (next_addr h) = None"
    using heap_ok_block [OF ok] by (metis less_irrefl not_None_eq)
  have away: "attr_value d \<noteq> Some (next_addr h)" if "d \<in># M" for d
    using heap_ok_cell [OF ok that] none by (auto simp: cell_ok_def)
  have "owners (next_addr h) M = 0"
    unfolding owners_def using away by (simp add: points_def filter_mset_eq_conv)
  then show "heap_ok h' (add_mset c M)"
    unfolding heap_ok_def
  proof (intro conjI allI impI ballI)
    fix x blk' assume x: "blocks h' x = Some blk'" and 0: "owners (next_addr h) M = 0"
    show "rc blk' = int (owners x (add_mset c M))" "0 < rc blk'" "rc blk' < 2 ^ 31" "x < next_addr h'"
      using x 0 heap_ok_block [OF ok, of x] c(1) unfolding h'
      by (auto simp: points_def less_Suc_eq split: if_splits)
  next
    fix e assume "e \<in># add_mset c M"
    then consider "e = c" | "e \<in># M" by auto
    then show "cell_ok h' e"
    proof cases
      case 1
      then show ?thesis using c n by (simp add: cell_ok_def h')
    next
      case 2
      then show ?thesis using heap_ok_cell [OF ok 2] away [OF 2] by (subst cell_same_block(1)) (auto simp: h')
    qed
  qed (use heap_ok_loans [OF ok] in \<open>simp add: h'\<close>)
  show "same_views h h' M"
    using away by (auto simp: same_views_def h' intro!: cell_same_block(3))
  show "view h' c = (attr_type c, Value bs)"
    using c n by (simp add: view_def view_value_def h')
qed

lemma value_new_eq:
  assumes "n \<le> length bs" "length bs + 4 < object_limit"
  shows "value_new h bs n s = Some (next_addr h,
    h\<lparr>blocks := (blocks h)(next_addr h \<mapsto> \<lparr>rc = 1, held_secure = s, held = take n bs\<rparr>),
      next_addr := Suc (next_addr h)\<rparr>)"
  using assms by (simp add: value_new_def value_blank_def sz_add_small mem_read_def Let_def)

lemma value_take_eq:
  assumes "n + 4 < object_limit" "loans h p = Some (s', bs)"
  shows "\<exists>bs'. length bs' = n \<and> (n = length bs \<longrightarrow> bs' = bs) \<and> value_take h p n s = Some (next_addr h,
    h\<lparr>blocks := (blocks h)(next_addr h \<mapsto> \<lparr>rc = 1, held_secure = s, held = bs'\<rparr>), loans := (loans h)(p := None),
      next_addr := Suc (next_addr h)\<rparr>)"
proof -
  define bs' where "bs' = take n (bs @ drop (length bs) (map (if s then (\<lambda>_. 0) else junk h) [0..<n]))"
  have "length bs' = n" "n = length bs \<longrightarrow> bs' = bs" by (auto simp: bs'_def)
  moreover have "value_take h p n s = Some (next_addr h,
    h\<lparr>blocks := (blocks h)(next_addr h \<mapsto> \<lparr>rc = 1, held_secure = s, held = bs'\<rparr>), loans := (loans h)(p := None),
      next_addr := Suc (next_addr h)\<rparr>)"
    using assms by (simp add: value_take_def value_blank_def sz_add_small Let_def bs'_def del: map_eq_conv)
  ultimately show ?thesis by blast
qed

lemma object_limit_ulong: "n < object_limit \<Longrightarrow> n < ulong_max"
  by (simp add: object_limit_def ulong_max_def)

lemma heap_ok_ref:
  assumes ok: "heap_ok h M" and c: "c \<in># M" "attr_value c = Some a" and d: "d = c\<lparr>attr_type := t\<rparr>" and room: "room 1 M"
  shows "\<exists>h'. value_ref h a = Some (Some a, h') \<and> heap_ok h' (add_mset d M) \<and> same_views h h' M \<and>
    view h' d = (t, view_value h c)"
proof -
  obtain blk where blk: "blocks h a = Some blk" "length (held blk) = attr_length c"
    "attr_length c < ulong_max"
    using cell_block [OF heap_ok_cell [OF ok c(1)] c(2)] .
  define h' where "h' = h\<lparr>blocks := (blocks h)(a \<mapsto> blk\<lparr>rc := rc blk + 1\<rparr>)\<rparr>"
  note r = heap_ok_block [OF ok blk(1)]
  have more: "owners a M + 1 < 2 ^ 31" using owners_size [of a M] room by (simp add: room_def)
  have "value_ref h a = Some (Some a, h')"
    using blk r more by (simp add: value_ref_def h'_def Let_def)
  moreover have cells: "cell_ok h' e \<longleftrightarrow> cell_ok h e" "view h' e = view h e" for e
    using blk(1) by (auto simp: h'_def intro!: cell_same_block)
  have "heap_ok h' (add_mset d M)"
    unfolding heap_ok_def
  proof (intro conjI allI impI ballI)
    fix x blk' assume x: "blocks h' x = Some blk'"
    show "rc blk' = int (owners x (add_mset d M))" "0 < rc blk'" "rc blk' < 2 ^ 31" "x < next_addr h'"
      using x r more heap_ok_block [OF ok, of x] c(2) unfolding h'_def d
      by (auto simp: points_def split: if_splits)
  next
    fix e assume "e \<in># add_mset d M"
    then show "cell_ok h' e"
      using heap_ok_cell [OF ok] c cells(1) by (auto simp: d)
  qed (use heap_ok_loans [OF ok] in \<open>simp add: h'_def\<close>)
  moreover have "same_views h h' M" by (simp add: same_views_def cells(2))
  moreover have "view h' d = (t, view_value h c)"
    using cells(2) [of c] by (simp add: view_def d)
  ultimately show ?thesis by blast
qed

lemma heap_ok_unref:
  assumes ok: "heap_ok h (add_mset c M)" and c: "attr_value c = Some a"
  shows "\<exists>h'. value_unref h a = Some h' \<and> heap_ok h' M \<and> same_views h h' M"
proof -
  obtain blk where blk: "blocks h a = Some blk" "length (held blk) = attr_length c"
    using cell_block [OF heap_ok_cell [OF ok] c] by (metis union_single_eq_member)
  note r = heap_ok_block [OF ok blk(1)]
  have rc: "rc blk = int (Suc (owners a M))" using r c by (simp add: points_def)
  have less: "Suc (owners a M) < 2 ^ 31" using r c by (simp add: points_def)
  have old: "heap_ok h (add_mset c M)" by (rule ok)
  show ?thesis
  proof (cases "owners a M = 0")
    case True
    define h' where "h' = h\<lparr>blocks := (blocks h)(a := None)\<rparr>"
    have away: "attr_value e \<noteq> Some a" if "e \<in># M" for e
      using points_in [OF that, of a] True by auto
    have "value_unref h a = Some h'" using blk rc less True by (simp add: value_unref_def h'_def)
    moreover have "heap_ok h' M"
      unfolding heap_ok_def
    proof (intro conjI allI impI ballI)
      fix x blk' assume x: "blocks h' x = Some blk'"
      show "rc blk' = int (owners x M)" "0 < rc blk'" "rc blk' < 2 ^ 31" "x < next_addr h'"
        using x heap_ok_block [OF ok, of x] c unfolding h'_def
        by (auto simp: points_def split: if_splits)
    next
      fix e assume "e \<in># M"
      then show "cell_ok h' e"
        using heap_ok_cell [OF ok, of e] away [of e] by (subst cell_same_block(1)) (auto simp: h'_def)
    qed (use heap_ok_loans [OF ok] in \<open>simp add: h'_def\<close>)
    moreover have "same_views h h' M"
      using away by (auto simp: same_views_def h'_def intro!: cell_same_block(3))
    ultimately show ?thesis by blast
  next
    case False
    define h' where "h' = h\<lparr>blocks := (blocks h)(a \<mapsto> blk\<lparr>rc := rc blk - 1\<rparr>)\<rparr>"
    have cells: "cell_ok h' e \<longleftrightarrow> cell_ok h e" "view h' e = view h e" for e
      using blk(1) by (auto simp: h'_def intro!: cell_same_block)
    have "value_unref h a = Some h'" using blk rc less False by (simp add: value_unref_def h'_def)
    moreover have "heap_ok h' M"
      unfolding heap_ok_def
    proof (intro conjI allI impI ballI)
      fix x blk' assume x: "blocks h' x = Some blk'"
      show "rc blk' = int (owners x M)" "0 < rc blk'" "rc blk' < 2 ^ 31" "x < next_addr h'"
        using x rc less False r heap_ok_block [OF ok, of x] c unfolding h'_def
        by (auto simp: points_def split: if_splits)
    next
      fix e assume "e \<in># M"
      then show "cell_ok h' e" using heap_ok_cell [OF ok, of e] cells(1) by simp
    qed (use heap_ok_loans [OF ok] in \<open>simp add: h'_def\<close>)
    moreover have "same_views h h' M" by (simp add: same_views_def cells(2))
    ultimately show ?thesis by blast
  qed
qed

section \<open>The builder implements a list of typed values\<close>

type_synonym attr_list = "(u64 \<times> attr_view) list"

definition abs_push :: "u64 \<times> attr_view \<Rightarrow> attr_list \<Rightarrow> attr_list" where
  "abs_push x xs = xs @ [x]"

fun abs_set :: "u64 \<times> attr_view \<Rightarrow> attr_list \<Rightarrow> attr_list" where
  "abs_set x [] = [x]"
| "abs_set x (y # ys) = (if fst y = fst x then x # ys else y # abs_set x ys)"

definition abs_put :: "bool \<Rightarrow> u64 \<times> attr_view \<Rightarrow> attr_list \<Rightarrow> attr_list" where
  "abs_put performing_set = (if performing_set then abs_set else abs_push)"

definition views :: "heap \<Rightarrow> gck_builder \<Rightarrow> attr_list" where
  "views h b = map (view h) (attr_cells b)"

text \<open>
  \<open>implements h b F r g\<close>: the outcome \<open>r\<close> of an operation on builder \<open>b\<close> in heap \<open>h\<close> is defined, its
  builder holds what \<open>g\<close> makes of the old values, the attributes \<open>F\<close> of everybody else keep their
  values, and ownership is in order again.
\<close>

definition implements ::
  "heap \<Rightarrow> gck_builder \<Rightarrow> gck_attribute multiset \<Rightarrow> (heap \<times> gck_builder) option
     \<Rightarrow> (attr_list \<Rightarrow> attr_list) \<Rightarrow> bool" where
  "implements h b F r g \<longleftrightarrow> (\<exists>h' b'. r = Some (h', b') \<and> heap_ok h' (mset (attr_cells b') + F) \<and>
     views h' b' = g (views h b) \<and> same_views h h' F \<and> attr_secure b' = attr_secure b)"

lemma implementsE:
  assumes "implements h b F r g"
  obtains h' b' where "r = Some (h', b')" "heap_ok h' (mset (attr_cells b') + F)"
    "views h' b' = g (views h b)" "same_views h h' F" "attr_secure b' = attr_secure b"
  using assms unfolding implements_def by blast

lemma implements_id: "heap_ok h (mset (attr_cells b) + F) \<Longrightarrow> implements h b F (Some (h, b)) (\<lambda>xs. xs)"
  by (simp add: implements_def)

lemma implements_bind:
  assumes "implements h b F r g"
    and "\<And>h1 b1. heap_ok h1 (mset (attr_cells b1) + F) \<Longrightarrow> same_views h h1 F \<Longrightarrow>
      length (attr_cells b1) = length (g (views h b)) \<Longrightarrow> implements h1 b1 F (k h1 b1) g'"
  shows "implements h b F (do { (h, b) \<leftarrow> r; k h b }) (\<lambda>xs. g' (g xs))"
proof -
  from assms(1) obtain h1 b1 where r: "r = Some (h1, b1)" "heap_ok h1 (mset (attr_cells b1) + F)"
    "views h1 b1 = g (views h b)" "same_views h h1 F" "attr_secure b1 = attr_secure b"
    by (rule implementsE)
  have "length (views h1 b1) = length (g (views h b))" using r(3) by simp
  then have "length (attr_cells b1) = length (g (views h b))" by (simp add: views_def)
  from assms(2) [OF r(2,4) this] obtain h2 b2 where k: "k h1 b1 = Some (h2, b2)"
    "heap_ok h2 (mset (attr_cells b2) + F)" "views h2 b2 = g' (views h1 b1)" "same_views h1 h2 F"
    "attr_secure b2 = attr_secure b1"
    by (rule implementsE)
  show ?thesis
    unfolding implements_def using r k same_views_trans [OF r(4) k(4)] by auto
qed

definition blank_attr :: "u64 \<Rightarrow> gck_attribute" where
  "blank_attr t = \<lparr>attr_type = t, attr_value = None, attr_length = 0\<rparr>"

lemma attr_cells_simps [simp]:
  "attr_cells (b\<lparr>attr_array := Some cs\<rparr>) = cs" "attr_cells (b\<lparr>attr_array := None\<rparr>) = []"
  "attr_cells (put_attr b i c) = (attr_cells b)[i := c]" "attr_secure (put_attr b i c) = attr_secure b"
  by (simp_all add: attr_cells_def put_attr_def)

lemma builder_push_eq:
  "builder_push b t = (length (attr_cells b), b\<lparr>attr_array := Some (attr_cells b @ [blank_attr t])\<rparr>)"
  by (simp add: builder_push_def blank_attr_def)

lemma find_attribute_Some:
  "find_attribute cs t = Some i \<Longrightarrow> i < length cs \<and> attr_type (cs ! i) = t \<and>
    (\<forall>c \<in> set (take i cs). attr_type c \<noteq> t)"
  by (induction cs t arbitrary: i rule: find_attribute.induct) (auto split: if_splits)

lemma find_attribute_None: "find_attribute cs t = None \<longleftrightarrow> t \<notin> attr_type ` set cs"
  by (induction cs t rule: find_attribute.induct) auto

lemma find_attribute_split:
  assumes "find_attribute cs t = Some i"
  obtains pre c post where "cs = pre @ c # post" "i = length pre" "attr_type c = t"
    "t \<notin> attr_type ` set pre"
proof -
  note f = find_attribute_Some [OF assms]
  have "cs = take i cs @ cs ! i # drop (Suc i) cs" using f by (simp add: id_take_nth_drop)
  moreover have "i = length (take i cs)" using f by simp
  ultimately show thesis
    by (rule that [of "take i cs" "cs ! i" "drop (Suc i) cs"]) (use f in auto)
qed

lemma abs_set_append:
  "t \<notin> fst ` set xs \<Longrightarrow> abs_set (t, v) (xs @ ys) = xs @ abs_set (t, v) ys"
  by (induction xs) auto

lemma length_abs_put: "length (abs_put s x xs) \<le> length xs + 1"
proof -
  have "length (abs_set x xs) \<le> length xs + 1" by (induction xs) auto
  then show ?thesis by (simp add: abs_put_def abs_push_def)
qed

lemma length_views [simp]: "length (views h b) = length (attr_cells b)"
  by (simp add: views_def)

lemma fst_view [simp]: "fst (view h c) = attr_type c"
  by (simp add: view_def)

lemma fst_views: "fst ` set (map (view h) cs) = attr_type ` set cs"
  by (simp add: image_image)

text \<open>The place that a push or a set prepares: a blank attribute between the others.\<close>

lemma builder_slot_spec:
  assumes ok: "heap_ok h (mset (attr_cells b) + F)"
  shows "\<exists>h' b' pre post. builder_slot h b t s = Some (h', length pre, b') \<and>
    attr_cells b' = pre @ blank_attr t # post \<and> attr_secure b' = attr_secure b \<and>
    heap_ok h' (mset (pre @ post) + F) \<and> same_views h h' F \<and>
    (\<forall>v. map (view h') pre @ (t, v) # map (view h') post = abs_put s (t, v) (views h b))"
proof (cases "s \<and> find_attribute (attr_cells b) t \<noteq> None")
  case True
  then obtain i where i: "find_attribute (attr_cells b) t = Some i" by auto
  then obtain pre c post where cs: "attr_cells b = pre @ c # post" "i = length pre" "attr_type c = t"
    "t \<notin> attr_type ` set pre" by (rule find_attribute_split)
  let ?M = "mset (pre @ post) + F"
  have okc: "heap_ok h (add_mset c ?M)" using ok cs(1) by simp
  obtain h' where h': "builder_clear h c = Some (h', blank_attr t)" "heap_ok h' ?M" "same_views h h' ?M"
  proof (cases "attr_value c")
    case None
    then have "builder_clear h c = Some (h, blank_attr t)"
      using cs(3) by (simp add: builder_clear_def blank_attr_def)
    then show ?thesis using that okc heap_ok_null [OF None] by auto
  next
    case (Some a)
    obtain h' where "value_unref h a = Some h'" "heap_ok h' ?M" "same_views h h' ?M"
      using heap_ok_unref [OF okc Some] by blast
    then show ?thesis using that [of h'] Some cs(3)
      by (simp add: builder_clear_def blank_attr_def)
  qed
  have "views h b = map (view h') pre @ view h c # map (view h') post"
    using h'(3) cs(1) by (simp add: views_def same_views_def)
  then have "\<forall>v. map (view h') pre @ (t, v) # map (view h') post = abs_put s (t, v) (views h b)"
    using True cs(3,4) by (simp add: abs_put_def abs_set_append image_image)
  then show ?thesis
    using True i h' cs
    by (intro exI [of _ h'] exI [of _ "put_attr b i (blank_attr t)"] exI [of _ pre] exI [of _ post])
      (simp add: builder_slot_def builder_clear_or_push_def)
next
  case False
  have slot: "builder_slot h b t s = Some (h, builder_push b t)"
    using False by (auto simp: builder_slot_def builder_clear_or_push_def)
  have "abs_put s (t, v) (views h b) = views h b @ [(t, v)]" for v
  proof (cases s)
    case True
    then have "t \<notin> fst ` set (views h b)"
      using False by (simp add: find_attribute_None views_def image_image)
    then show ?thesis using True abs_set_append [of t "views h b" v "[]"] by (simp add: abs_put_def)
  qed (simp add: abs_put_def abs_push_def)
  then show ?thesis
    using slot ok
    by (intro exI [of _ h] exI [of _ "snd (builder_push b t)"] exI [of _ "attr_cells b"]
        exI [of _ "[]"]) (simp add: builder_push_eq views_def)
qed

text \<open>Filling that place with an attribute of a known value.\<close>

lemma implements_put:
  assumes ok: "heap_ok h (mset (attr_cells b) + F)"
    and fill: "\<And>h1 b1 N. heap_ok h1 (N + F) \<Longrightarrow> same_views h h1 F \<Longrightarrow> attr_secure b1 = attr_secure b \<Longrightarrow>
      size N \<le> length (attr_cells b) \<Longrightarrow> \<exists>h2 c. f h1 b1 = Some (h2, c) \<and> heap_ok h2 (add_mset c (N + F)) \<and> same_views h1 h2 (N + F) \<and>
        view h2 c = (t, v)"
  shows "implements h b F
    (do { (h, i, b) \<leftarrow> builder_slot h b t s; (h, c) \<leftarrow> f h b; Some (h, put_attr b i c) })
    (abs_put s (t, v))"
proof -
  obtain h1 b1 pre post where slot: "builder_slot h b t s = Some (h1, length pre, b1)"
    "attr_cells b1 = pre @ blank_attr t # post" "attr_secure b1 = attr_secure b"
    "heap_ok h1 (mset (pre @ post) + F)" "same_views h h1 F"
    "\<And>v. map (view h1) pre @ (t, v) # map (view h1) post = abs_put s (t, v) (views h b)"
    using builder_slot_spec [OF ok, of t s] by blast
  have "length (map (view h1) pre @ (t, v) # map (view h1) post) \<le> length (views h b) + 1"
    unfolding slot(6) by (rule length_abs_put)
  then have sz: "size (mset (pre @ post)) \<le> length (attr_cells b)" by simp
  obtain h2 c where fl: "f h1 b1 = Some (h2, c)" "heap_ok h2 (add_mset c (mset (pre @ post) + F))"
    "same_views h1 h2 (mset (pre @ post) + F)" "view h2 c = (t, v)"
    using fill [OF slot(4,5,3) sz] by blast
  have eq: "map (view h2) pre = map (view h1) pre" "map (view h2) post = map (view h1) post"
    using fl(3) by (simp_all add: same_views_def)
  have "map (view h2) (pre @ c # post) = abs_put s (t, v) (views h b)"
    by (simp only: map_append list.map eq fl(4) slot(6))
  moreover have "same_views h h2 F" using slot(5) fl(3) by (simp add: same_views_def)
  ultimately show ?thesis
    using slot fl by (simp add: implements_def views_def)
qed

section \<open>Every operation implements its abstract operation\<close>

text \<open>What the \<open>data\<close> functions are given, and when the memory they are given is really there.\<close>

definition data_view :: "caller_data \<Rightarrow> nat \<Rightarrow> attr_view" where
  "data_view val n =
     (if n = ulong_max then Invalid
      else case val of None \<Rightarrow> NoValue | Some (_, bs) \<Rightarrow> Value (take n bs))"

definition data_ok :: "caller_data \<Rightarrow> nat \<Rightarrow> bool" where
  "data_ok val n \<longleftrightarrow> n = ulong_max \<or>
     (case val of None \<Rightarrow> True | Some (_, bs) \<Rightarrow> n \<le> length bs \<and> length bs + 4 < object_limit)"

lemma view_null:
  "view h \<lparr>attr_type = t, attr_value = None, attr_length = ulong_max\<rparr> = (t, Invalid)"
  "view h \<lparr>attr_type = t, attr_value = None, attr_length = 0\<rparr> = (t, NoValue)"
  "view h (blank_attr t) = (t, NoValue)"
  by (simp_all add: view_def view_value_def ulong_max_def blank_attr_def)

lemma store_data_spec:
  assumes ok: "heap_ok h M" and val: "data_ok val n"
  shows "\<exists>h' c. store_data h t val n s = Some (h', c) \<and> heap_ok h' (add_mset c M) \<and>
    same_views h h' M \<and> view h' c = (t, data_view val n)"
proof (cases "n = ulong_max \<or> val = None")
  case True
  then show ?thesis using ok
    by (auto simp: store_data_def heap_ok_null view_null data_view_def)
next
  case False
  then obtain sec bs where bs: "val = Some (sec, bs)" "n \<noteq> ulong_max" by (cases val) auto
  then have n: "n \<le> length bs" "length bs + 4 < object_limit" using val by (auto simp: data_ok_def)
  then have len: "length (take n bs) = n" "length (take n bs) < ulong_max"
    using object_limit_ulong [of n] by simp_all
  let ?c = "\<lparr>attr_type = t, attr_value = Some (next_addr h), attr_length = n\<rparr>"
  show ?thesis
    using heap_ok_fresh [OF ok len(2) refl, of ?c "s \<or> sec"] bs n len
    by (simp add: store_data_def value_new_eq data_view_def)
qed

lemma share_value_spec:
  assumes ok: "heap_ok h M" and c: "c \<in># M" and room: "room 1 M"
  shows "\<exists>h' d. share_value h t c = Some (h', d) \<and> heap_ok h' (add_mset d M) \<and>
    same_views h h' M \<and> view h' d = (t, view_value h c)"
proof (cases "attr_length c = ulong_max \<or> attr_value c = None")
  case True
  then show ?thesis using ok
    by (auto simp: share_value_def heap_ok_null view_null view_value_def)
next
  case False
  then obtain a where a: "attr_value c = Some a" "attr_length c \<noteq> ulong_max" by auto
  then have "c\<lparr>attr_type := t\<rparr> = \<lparr>attr_type = t, attr_value = Some a, attr_length = attr_length c\<rparr>"
    by (cases c) simp
  then show ?thesis
    using a heap_ok_ref [OF ok c a(1) sym room] by (fastforce simp: share_value_def)
qed

lemma builder_copy_spec:
  assumes ok: "heap_ok h (mset (attr_cells b) + F)" and c: "c \<in># F" and room: "room 1 (mset (attr_cells b) + F)"
  shows "implements h b F (builder_copy h b c s) (abs_put s (view h c))"
  unfolding builder_copy_def view_def
proof (rule implements_put [OF ok])
  fix h1 b1 N
  assume h1: "heap_ok h1 (N + F)" "same_views h h1 F" and sz: "size N \<le> length (attr_cells b)"
  have r: "room 1 (N + F)" by (rule room_mono [OF room]) (use sz in simp)
  have "view_value h1 c = view_value h c"
    using same_viewsD [OF h1(2) c] by (simp add: view_def)
  then show "\<exists>h2 d. share_value h1 (attr_type c) c = Some (h2, d) \<and> heap_ok h2 (add_mset d (N + F)) \<and>
      same_views h1 h2 (N + F) \<and> view h2 d = (attr_type c, view_value h c)"
    using share_value_spec [OF h1(1) _ r, of c "attr_type c"] c by simp
qed

lemma implements_cong: "implements h b F r g \<Longrightarrow> (\<And>xs. g xs = g' xs) \<Longrightarrow> implements h b F r g'"
  by (simp add: implements_def)

text \<open>Loops over attributes of others, each step of which copies some of their values.\<close>

lemma copy_all_spec:
  assumes "heap_ok h (mset (attr_cells b) + F)" "set cs \<subseteq> set_mset F" "room (length cs) (mset (attr_cells b) + F)"
  shows "implements h b F (copy_all h b cs s) (fold (abs_put s) (map (view h) cs))"
  using assms
proof (induction cs arbitrary: h b)
  case Nil
  then show ?case using implements_id by (simp add: id_def)
next
  case (Cons c cs)
  have "implements h b F (do { (h, b) \<leftarrow> builder_copy h b c s; copy_all h b cs s })
    (\<lambda>xs. fold (abs_put s) (map (view h) cs) (abs_put s (view h c) xs))"
  proof (rule implements_bind [OF builder_copy_spec])
    fix h1 b1 assume h1: "heap_ok h1 (mset (attr_cells b1) + F)" "same_views h h1 F"
      "length (attr_cells b1) = length (abs_put s (view h c) (views h b))"
    have eq: "map (view h1) cs = map (view h) cs"
      using Cons.prems(2) h1(2) by (auto simp: same_views_def)
    have "room (length cs) (mset (attr_cells b1) + F)"
      by (rule room_mono [OF Cons.prems(3)]) (use length_abs_put [of s "view h c" "views h b"] h1(3) in simp)
    then show "implements h1 b1 F (copy_all h1 b1 cs s) (fold (abs_put s) (map (view h) cs))"
      using Cons.IH [OF h1(1)] Cons.prems(2) unfolding eq by simp
  qed (use Cons.prems in \<open>auto simp: room_def\<close>)
  then show ?case by simp
qed

lemma fold_push: "fold abs_push ys xs = xs @ ys"
  by (induction ys arbitrary: xs) (simp_all add: abs_push_def)

lemma only_loop_spec:
  assumes "heap_ok h (mset (attr_cells b) + F)" "c \<in># F" "room (length ts) (mset (attr_cells b) + F)"
  shows "implements h b F (only_loop h b c ts)
    (\<lambda>xs. xs @ replicate (count_list ts (attr_type c)) (view h c))"
  using assms
proof (induction ts arbitrary: h b)
  case Nil
  then show ?case using implements_id by simp
next
  case (Cons t ts)
  show ?case
  proof (cases "attr_type c = t")
    case True
    have "implements h b F (do { (h, b) \<leftarrow> builder_copy h b c False; only_loop h b c ts })
      (\<lambda>xs. abs_put False (view h c) xs @ replicate (count_list ts (attr_type c)) (view h c))"
    proof (rule implements_bind [OF builder_copy_spec [OF Cons.prems(1,2) room_mono [OF Cons.prems(3)]]])
      fix h1 b1 assume h1: "heap_ok h1 (mset (attr_cells b1) + F)" "same_views h h1 F"
        "length (attr_cells b1) = length (abs_put False (view h c) (views h b))"
      have "room (length ts) (mset (attr_cells b1) + F)"
        by (rule room_mono [OF Cons.prems(3)]) (use h1(3) in \<open>simp add: abs_put_def abs_push_def\<close>)
      then show "implements h1 b1 F (only_loop h1 b1 c ts)
          (\<lambda>xs. xs @ replicate (count_list ts (attr_type c)) (view h c))"
        using Cons.IH [OF h1(1) Cons.prems(2)] same_viewsD [OF h1(2) Cons.prems(2)] by simp
    qed simp
    then have "implements h b F (only_loop h b c (t # ts))
      (\<lambda>xs. abs_put False (view h c) xs @ replicate (count_list ts (attr_type c)) (view h c))"
      using True by simp
    then show ?thesis
      by (rule implements_cong) (use True in \<open>simp add: abs_put_def abs_push_def\<close>)
  next
    case False
    then show ?thesis using Cons.IH [OF Cons.prems(1,2) room_mono [OF Cons.prems(3)]] by simp
  qed
qed

lemma onlyv_loop_spec:
  assumes "heap_ok h (mset (attr_cells b) + F)" "set cs \<subseteq> set_mset F" "room (length cs * length ts) (mset (attr_cells b) + F)"
  shows "implements h b F (onlyv_loop h b cs ts)
    (\<lambda>xs. xs @ concat (map (\<lambda>x. replicate (count_list ts (fst x)) x) (map (view h) cs)))"
  using assms
proof (induction cs arbitrary: h b)
  case Nil
  then show ?case using implements_id by simp
next
  case (Cons c cs)
  let ?g = "\<lambda>h cs xs. xs @ concat (map (\<lambda>x. replicate (count_list ts (fst x)) x) (map (view h) cs))"
  have "implements h b F (do { (h, b) \<leftarrow> only_loop h b c ts; onlyv_loop h b cs ts })
    (\<lambda>xs. ?g h cs (xs @ replicate (count_list ts (attr_type c)) (view h c)))"
  proof (rule implements_bind [OF only_loop_spec])
    fix h1 b1 assume h1: "heap_ok h1 (mset (attr_cells b1) + F)" "same_views h h1 F"
      "length (attr_cells b1) = length (views h b @ replicate (count_list ts (attr_type c)) (view h c))"
    have "room (length cs * length ts) (mset (attr_cells b1) + F)"
      by (rule room_mono [OF Cons.prems(3)]) (use h1(3) count_le_length [of ts "attr_type c"] in simp)
    note room = this
    have eq: "map (view h1) cs = map (view h) cs"
      using Cons.prems(2) h1(2) by (auto simp: same_views_def)
    then show "implements h1 b1 F (onlyv_loop h1 b1 cs ts) (?g h cs)"
      using Cons.IH [OF h1(1)] Cons.prems(2) room unfolding eq by simp
  qed (use Cons.prems in \<open>auto simp: room_def\<close>)
  then have "implements h b F (onlyv_loop h b (c # cs) ts)
    (\<lambda>xs. ?g h cs (xs @ replicate (count_list ts (attr_type c)) (view h c)))" by simp
  then show ?case by (rule implements_cong) simp
qed

lemma exceptv_loop_spec:
  assumes "heap_ok h (mset (attr_cells b) + F)" "set cs \<subseteq> set_mset F" "room (length cs) (mset (attr_cells b) + F)"
  shows "implements h b F (exceptv_loop h b cs ts)
    (\<lambda>xs. xs @ filter (\<lambda>x. fst x \<notin> set ts) (map (view h) cs))"
  using assms
proof (induction cs arbitrary: h b)
  case Nil
  then show ?case using implements_id by simp
next
  case (Cons c cs)
  let ?g = "\<lambda>h cs xs. xs @ filter (\<lambda>x. fst x \<notin> set ts) (map (view h) cs)"
  let ?head = "if attr_type c \<notin> set ts then builder_copy h b c False else Some (h, b)"
  have "implements h b F ?head (?g h [c])"
    using builder_copy_spec [OF Cons.prems(1) _ room_mono [OF Cons.prems(3)], of c False] implements_id [OF Cons.prems(1)] Cons.prems(2)
    by (simp add: abs_put_def abs_push_def implements_def)
  then have "implements h b F (do { (h, b) \<leftarrow> ?head; exceptv_loop h b cs ts })
    (\<lambda>xs. ?g h cs (?g h [c] xs))"
  proof (rule implements_bind)
    fix h1 b1 assume h1: "heap_ok h1 (mset (attr_cells b1) + F)" "same_views h h1 F"
      "length (attr_cells b1) = length (?g h [c] (views h b))"
    have "length (?g h [c] (views h b)) \<le> length (views h b) + 1" by simp
    then have room: "room (length cs) (mset (attr_cells b1) + F)"
      using h1(3) by (intro room_mono [OF Cons.prems(3)]) simp
    have eq: "map (view h1) cs = map (view h) cs"
      using Cons.prems(2) h1(2) by (auto simp: same_views_def)
    then show "implements h1 b1 F (exceptv_loop h1 b1 cs ts) (?g h cs)"
      using Cons.IH [OF h1(1)] Cons.prems(2) room unfolding eq by simp
  qed
  then have "implements h b F (exceptv_loop h b (c # cs) ts) (\<lambda>xs. ?g h cs (?g h [c] xs))" by simp
  then show ?case by (rule implements_cong) simp
qed

section \<open>The contract of the builder operations\<close>

text \<open>
  A builder operation and what it does to the list of typed values. The facts that a caller needs
  follow from the contract alone.
\<close>

locale builder_op =
  fixes run :: "heap \<Rightarrow> gck_builder \<Rightarrow> (heap \<times> gck_builder) option"
    and spec :: "attr_list \<Rightarrow> attr_list"
  assumes contract: "\<And>h b F. heap_ok h (mset (attr_cells b) + F) \<Longrightarrow> implements h b F (run h b) spec"
begin

lemma outcome:
  assumes "heap_ok h (mset (attr_cells b) + F)"
  obtains h' b' where "run h b = Some (h', b')" "heap_ok h' (mset (attr_cells b') + F)"
    "views h' b' = spec (views h b)" "same_views h h' F"
  using contract [OF assms] by (auto elim: implementsE)

lemma lookup:
  assumes "heap_ok h (mset (attr_cells b) + F)" "run h b = Some (h', b')"
  shows "map_of (views h' b') t = map_of (spec (views h b)) t"
  using contract [OF assms(1)] assms(2) by (auto elim: implementsE)

lemma then_op:
  assumes "builder_op run' spec'"
  shows "builder_op (\<lambda>h b. do { (h, b) \<leftarrow> run h b; run' h b }) (\<lambda>xs. spec' (spec xs))"
proof
  fix h b F assume "heap_ok h (mset (attr_cells b) + F)"
  then show "implements h b F (do { (h, b) \<leftarrow> run h b; run' h b }) (\<lambda>xs. spec' (spec xs))"
    using implements_bind [OF contract] assms by (simp add: builder_op_def)
qed

end

lemma builder_push_slot: "Some (h, builder_push b t) = builder_slot h b t False"
  by (simp add: builder_slot_def)

lemma builder_set_slot: "builder_clear_or_push h b t = builder_slot h b t True"
  by (simp add: builder_slot_def)

lemma add_data_slot:
  "gck_builder_add_data h b t val n =
    do { (h, i, b) \<leftarrow> builder_slot h b t False; (h, c) \<leftarrow> store_data h t val n (attr_secure b); Some (h, put_attr b i c) }"
  by (simp add: gck_builder_add_data_def builder_slot_def split: prod.split)

lemma add_data_spec:
  assumes "heap_ok h (mset (attr_cells b) + F)" "data_ok val n"
  shows "implements h b F (gck_builder_add_data h b t val n) (abs_push (t, data_view val n))"
proof -
  have "implements h b F (gck_builder_add_data h b t val n) (abs_put False (t, data_view val n))"
    unfolding add_data_slot
    by (rule implements_put [OF assms(1)]) (rule store_data_spec [OF _ assms(2)])
  then show ?thesis by (simp add: abs_put_def)
qed

lemma set_data_spec:
  assumes "heap_ok h (mset (attr_cells b) + F)" "data_ok val n"
  shows "implements h b F (gck_builder_set_data h b t val n) (abs_set (t, data_view val n))"
proof -
  have "implements h b F (gck_builder_set_data h b t val n) (abs_put True (t, data_view val n))"
    unfolding gck_builder_set_data_def builder_set_slot
    by (rule implements_put [OF assms(1)]) (rule store_data_spec [OF _ assms(2)])
  then show ?thesis by (simp add: abs_put_def)
qed

text \<open>A place that is left blank, or that only gets the invalid length.\<close>

lemma slot_null_spec:
  assumes ok: "heap_ok h (mset (attr_cells b) + F)" and n: "n = 0 \<or> n = ulong_max"
  shows "implements h b F
    (do { (h, i, b) \<leftarrow> builder_slot h b t s; Some (h, put_attr b i ((attr_cells b ! i)\<lparr>attr_length := n\<rparr>)) })
    (abs_put s (t, if n = ulong_max then Invalid else NoValue))"
proof -
  obtain h1 b1 pre post where slot: "builder_slot h b t s = Some (h1, length pre, b1)"
    "attr_cells b1 = pre @ blank_attr t # post" "attr_secure b1 = attr_secure b"
    "heap_ok h1 (mset (pre @ post) + F)" "same_views h h1 F"
    "\<And>v. map (view h1) pre @ (t, v) # map (view h1) post = abs_put s (t, v) (views h b)"
    using builder_slot_spec [OF ok, of t s] by blast
  let ?c = "(blank_attr t)\<lparr>attr_length := n\<rparr>"
  have "view h1 ?c = (t, if n = ulong_max then Invalid else NoValue)"
    by (simp add: view_def view_value_def blank_attr_def)
  moreover have "heap_ok h1 (add_mset ?c (mset (pre @ post) + F))"
    using slot(4) n by (subst heap_ok_null) (auto simp: blank_attr_def)
  ultimately show ?thesis
    using slot by (simp add: implements_def views_def)
qed

lemma put_same [simp]: "i < length (attr_cells b) \<Longrightarrow> attr_array b \<noteq> None \<Longrightarrow> put_attr b i (attr_cells b ! i) = b"
  by (auto simp: put_attr_def attr_cells_def)

lemma slot_blank_spec:
  assumes ok: "heap_ok h (mset (attr_cells b) + F)"
  shows "implements h b F (do { (h, i, b) \<leftarrow> builder_slot h b t s; Some (h, b) }) (abs_put s (t, NoValue))"
proof -
  obtain h1 b1 pre post where slot: "builder_slot h b t s = Some (h1, length pre, b1)"
    "attr_cells b1 = pre @ blank_attr t # post" "attr_secure b1 = attr_secure b"
    "heap_ok h1 (mset (pre @ post) + F)" "same_views h h1 F"
    "\<And>v. map (view h1) pre @ (t, v) # map (view h1) post = abs_put s (t, v) (views h b)"
    using builder_slot_spec [OF ok, of t s] by blast
  have "heap_ok h1 (add_mset (blank_attr t) (mset (pre @ post) + F))"
    using slot(4) by (subst heap_ok_null) (auto simp: blank_attr_def)
  then show ?thesis
    using slot by (simp add: implements_def views_def view_null)
qed

lemma data_ok_ulong [simp]: "data_ok (Some (False, ulong_bytes v)) 8" "data_ok (Some (False, bool_bytes v')) 1"
  "data_ok (Some (False, bool_bytes v')) (Suc 0)"
  by (simp_all add: data_ok_def ulong_bytes_def bool_bytes_def object_limit_def)

lemma data_view_ulong [simp]:
  "data_view (Some (False, ulong_bytes v)) 8 = Value (ulong_bytes v)"
  "data_view (Some (False, bool_bytes v')) 1 = Value (bool_bytes v')"
  "data_view (Some (False, bool_bytes v')) (Suc 0) = Value (bool_bytes v')"
  by (simp_all add: data_view_def ulong_bytes_def bool_bytes_def ulong_max_def)

lemma add_data_op:
  "data_ok val n \<Longrightarrow> data_view val n = v \<Longrightarrow>
    builder_op (\<lambda>h b. gck_builder_add_data h b t val n) (abs_push (t, v))"
  by unfold_locales (auto dest: add_data_spec)

lemma set_data_op:
  "data_ok val n \<Longrightarrow> data_view val n = v \<Longrightarrow>
    builder_op (\<lambda>h b. gck_builder_set_data h b t val n) (abs_set (t, v))"
  by unfold_locales (auto dest: set_data_spec)

interpretation add_ulong: builder_op "\<lambda>h b. gck_builder_add_ulong h b t v"
  "abs_push (t, Value (ulong_bytes v))" for t v
  unfolding gck_builder_add_ulong_def by (rule add_data_op) simp_all

interpretation set_ulong: builder_op "\<lambda>h b. gck_builder_set_ulong h b t v"
  "abs_set (t, Value (ulong_bytes v))" for t v
  unfolding gck_builder_set_ulong_def by (rule set_data_op) simp_all

interpretation add_boolean: builder_op "\<lambda>h b. gck_builder_add_boolean h b t v"
  "abs_push (t, Value (bool_bytes v))" for t v
  unfolding gck_builder_add_boolean_def by (rule add_data_op) simp_all

interpretation set_boolean: builder_op "\<lambda>h b. gck_builder_set_boolean h b t v"
  "abs_set (t, Value (bool_bytes v))" for t v
  unfolding gck_builder_set_boolean_def by (rule set_data_op) simp_all

interpretation set_empty: builder_op "\<lambda>h b. gck_builder_set_empty h b t" "abs_set (t, NoValue)" for t
  by unfold_locales
    (use slot_blank_spec [where s = True] in \<open>simp add: gck_builder_set_empty_def builder_set_slot abs_put_def\<close>)

interpretation set_invalid: builder_op "\<lambda>h b. gck_builder_set_invalid h b t" "abs_set (t, Invalid)" for t
  by unfold_locales
    (use slot_null_spec [where s = True and n = ulong_max] in
      \<open>simp add: gck_builder_set_invalid_def builder_set_slot abs_put_def\<close>)

interpretation add_empty: builder_op "\<lambda>h b. Some (h, gck_builder_add_empty b t)" "abs_push (t, NoValue)" for t
  by unfold_locales
    (use slot_blank_spec [where s = False] in
      \<open>simp add: gck_builder_add_empty_def builder_slot_def abs_put_def builder_push_eq\<close>)

interpretation add_invalid: builder_op "\<lambda>h b. Some (h, gck_builder_add_invalid b t)" "abs_push (t, Invalid)" for t
  by unfold_locales
    (use slot_null_spec [where s = False and n = ulong_max] in
      \<open>simp add: gck_builder_add_invalid_def builder_slot_def abs_put_def builder_push_eq\<close>)

section \<open>Dropping references\<close>

lemma drop_cell:
  assumes "heap_ok h (add_mset c M)"
  shows "\<exists>h'. (case attr_value c of None \<Rightarrow> Some h | Some a \<Rightarrow> value_unref h a) = Some h' \<and>
    heap_ok h' M \<and> same_views h h' M"
proof (cases "attr_value c")
  case None
  then show ?thesis using assms heap_ok_null by auto
next
  case (Some a)
  then show ?thesis using heap_ok_unref [OF assms Some] by simp
qed

lemma unref_cells_spec:
  "heap_ok h (mset cs + F) \<Longrightarrow> \<exists>h'. unref_cells h cs = Some h' \<and> heap_ok h' F \<and> same_views h h' F"
proof (induction cs arbitrary: h)
  case (Cons c cs)
  have "heap_ok h (add_mset c (mset cs + F))" using Cons.prems by simp
  from drop_cell [OF this] obtain h1 where h1:
    "(case attr_value c of None \<Rightarrow> Some h | Some a \<Rightarrow> value_unref h a) = Some h1"
    "heap_ok h1 (mset cs + F)" "same_views h h1 (mset cs + F)" by blast
  then obtain h2 where "unref_cells h1 cs = Some h2" "heap_ok h2 F" "same_views h1 h2 F"
    using Cons.IH by blast
  then show ?case using h1 by (auto intro: same_views_trans)
qed simp

lemma clear_cells_unref: "clear_cells h cs = unref_cells h cs"
  by (induction cs arbitrary: h) (auto simp: builder_clear_def split: bind_splits option.splits)

lemma clear_spec:
  assumes "heap_ok h (mset (attr_cells b) + F)"
  shows "implements h b F (gck_builder_clear h b) (\<lambda>_. [])"
  using unref_cells_spec [OF assms]
  by (auto simp: gck_builder_clear_def clear_cells_unref implements_def views_def)

interpretation clear: builder_op gck_builder_clear "\<lambda>_. []"
  by unfold_locales (rule clear_spec)

section \<open>Receiving values\<close>

lemma prepare_cells_spec:
  "heap_ok h (mset cs + F) \<Longrightarrow> \<exists>h'. prepare_cells h cs = Some (h', map (\<lambda>c. blank_attr (attr_type c)) cs) \<and>
    heap_ok h' F \<and> same_views h h' F"
proof (induction cs arbitrary: h)
  case (Cons c cs)
  have "heap_ok h (add_mset c (mset cs + F))" using Cons.prems by simp
  from drop_cell [OF this] obtain h1 where h1:
    "(case attr_value c of None \<Rightarrow> Some h | Some a \<Rightarrow> value_unref h a) = Some h1"
    "heap_ok h1 (mset cs + F)" "same_views h h1 (mset cs + F)" by blast
  then obtain h2 where "prepare_cells h1 cs = Some (h2, map (\<lambda>c. blank_attr (attr_type c)) cs)"
    "heap_ok h2 F" "same_views h1 h2 F"
    using Cons.IH by blast
  then show ?case using h1 by (auto intro: same_views_trans simp: blank_attr_def)
qed simp

lemma value_blank_spec:
  assumes ok: "heap_ok h M" and n: "n + 4 < object_limit"
  shows "\<exists>a h'. value_blank h n s = Some (a, h') \<and> same_views h h' M \<and>
    (\<forall>c. attr_value c = Some a \<longrightarrow> attr_length c = n \<longrightarrow> heap_ok h' (add_mset c M))"
proof -
  define bs where "bs = map (if s then (\<lambda>_. 0) else junk h) [0..<n]"
  have bs: "length bs = n" "n < ulong_max" using n by (simp_all add: bs_def object_limit_ulong)
  have "value_blank h n s = Some (next_addr h,
      h\<lparr>blocks := (blocks h)(next_addr h \<mapsto> \<lparr>rc = 1, held_secure = s, held = bs\<rparr>),
        next_addr := Suc (next_addr h)\<rparr>)"
    using n by (simp add: value_blank_def sz_add_small Let_def bs_def del: map_eq_conv)
  moreover have "same_views h (h\<lparr>blocks := (blocks h)(next_addr h \<mapsto> \<lparr>rc = 1, held_secure = s, held = bs\<rparr>),
        next_addr := Suc (next_addr h)\<rparr>) M"
    using heap_ok_fresh(2) [OF ok _ refl,
        of bs "\<lparr>attr_type = 0, attr_value = Some (next_addr h), attr_length = length bs\<rparr>"] bs by simp
  ultimately show ?thesis using heap_ok_fresh(1) [OF ok _ refl] bs by blast
qed

lemma commit_cells_spec:
  assumes "heap_ok h F" "\<forall>c \<in> set cs. attr_length c = ulong_max \<or> attr_length c + 4 < object_limit"
  shows "\<exists>h' cs'. commit_cells h s cs = Some (h', cs') \<and> heap_ok h' (mset cs' + F) \<and> same_views h h' F \<and>
    map attr_length cs' = map attr_length cs \<and> map attr_type cs' = map attr_type cs"
  using assms
proof (induction cs arbitrary: h F)
  case (Cons c cs)
  obtain h1 c1 where h1: "(if attr_length c \<noteq> 0 \<and> attr_length c \<noteq> ulong_max
       then do { (a, h) \<leftarrow> value_blank h (attr_length c) s; Some (h, Some a) }
       else Some (h, None)) = Some (h1, attr_value c1)" "c1 = c\<lparr>attr_value := attr_value c1\<rparr>"
    "heap_ok h1 (add_mset c1 F)" "same_views h h1 F"
  proof (cases "attr_length c \<noteq> 0 \<and> attr_length c \<noteq> ulong_max")
    case True
    then obtain a h1 where "value_blank h (attr_length c) s = Some (a, h1)" "same_views h h1 F"
      "heap_ok h1 (add_mset (c\<lparr>attr_value := Some a\<rparr>) F)"
      using value_blank_spec [OF Cons.prems(1), of "attr_length c" s] Cons.prems(2) by auto
    then show ?thesis using that [of h1 "c\<lparr>attr_value := Some a\<rparr>"] True by simp
  next
    case False
    then show ?thesis
      using that [of h "c\<lparr>attr_value := None\<rparr>"] Cons.prems(1) by (auto simp: heap_ok_null)
  qed
  obtain h2 cs' where h2: "commit_cells h1 s cs = Some (h2, cs')" "heap_ok h2 (mset cs' + add_mset c1 F)"
    "same_views h1 h2 (add_mset c1 F)" "map attr_length cs' = map attr_length cs"
    "map attr_type cs' = map attr_type cs"
    using Cons.IH [OF h1(3)] Cons.prems(2) by auto
  have c1: "attr_length c1 = attr_length c" "attr_type c1 = attr_type c" by (subst h1(2); simp)+
  have "commit_cells h s (c # cs) = Some (h2, c1 # cs')"
    using h1(2) unfolding commit_cells.simps h1(1) by (simp add: h2(1))
  then show ?case using h1(4) h2 c1 by (auto intro: same_views_trans)
qed simp

end
