(* ===== verification/AttributeWorld.thy ===== *)
theory AttributeWorld
  imports AttributeHeap
begin

text \<open>
  A whole program that uses attributes: any number of builders and reference-counted sets, whose
  attributes share values, and any sequence of calls on them. The properties say that no such
  sequence uses memory that is gone or leaks memory, that lookups see what was stored last, and
  that attributes that are equal have equal hashes.
\<close>

section \<open>The program state\<close>

text \<open>
  A set that has been freed is \<open>None\<close>. The program remembers how many references it holds to every set: one to a set
  that is new, also while it is floating.
\<close>

record world =
  wheap :: heap
  builders :: "gck_builder list"
  sets :: "gck_attributes option list"
  references :: "nat list"

definition set_cells :: "gck_attributes option \<Rightarrow> gck_attribute list" where
  "set_cells s = (case s of None \<Rightarrow> [] | Some attrs \<Rightarrow> attrs_data attrs)"

definition world_cells :: "world \<Rightarrow> gck_attribute multiset" where
  "world_cells w = mset (concat (map attr_cells (builders w))) + mset (concat (map set_cells (sets w)))"

fun set_ok :: "gck_attributes option \<Rightarrow> nat \<Rightarrow> bool" where
  "set_ok None n \<longleftrightarrow> n = 0"
| "set_ok (Some attrs) n \<longleftrightarrow> attrs_refs attrs = int n \<and> 0 < n \<and> n < 2 ^ 31"

definition world_ok :: "world \<Rightarrow> bool" where
  "world_ok w \<longleftrightarrow> heap_ok (wheap w) (world_cells w) \<and> list_all2 set_ok (sets w) (references w)"

definition empty_world :: world where
  "empty_world = \<lparr>wheap = \<lparr>blocks = (\<lambda>_. None), loans = (\<lambda>_. None), next_addr = 0, junk = (\<lambda>_. 0)\<rparr>,
     builders = [], sets = [], references = []\<rparr>"

text \<open>
  The calls. Builders and sets are named by their position; \<open>Receive\<close> is the pair of
  \<open>gck_builder_prepare_in\<close> and \<open>gck_builder_commit_in\<close> around a module that asks for the given
  lengths; \<open>TakeData\<close> hands over memory that the caller allocates for it.
\<close>

datatype client_call =
    NewBuilder bool
  | AddData nat u64 caller_data nat
  | SetData nat u64 caller_data nat
  | TakeData nat u64 caller_data nat
  | AddEmpty nat u64
  | SetEmpty nat u64
  | AddInvalid nat u64
  | SetInvalid nat u64
  | AddAll nat nat
  | SetAll nat nat
  | AddOnly nat nat "u64 list"
  | AddExcept nat nat "u64 list"
  | CopyBuilder nat
  | ClearBuilder nat
  | Receive nat "nat list"
  | StealBuilder nat
  | EndBuilder nat
  | RefSet nat
  | RefSinkSet nat
  | UnrefSet nat

definition on_builder ::
  "world \<Rightarrow> nat \<Rightarrow> (heap \<Rightarrow> gck_builder \<Rightarrow> (heap \<times> gck_builder) option) \<Rightarrow> world option" where
  "on_builder w i f = do {
     (h, b) \<leftarrow> f (wheap w) (builders w ! i);
     Some (w\<lparr>wheap := h, builders := (builders w)[i := b]\<rparr>) }"

definition on_set :: "world \<Rightarrow> nat \<Rightarrow> (gck_attributes \<Rightarrow> gck_attributes) \<Rightarrow> nat \<Rightarrow> world option" where
  "on_set w j f n = Some (w\<lparr>sets := (sets w)[j := map_option f (sets w ! j)], references := (references w)[j := n]\<rparr>)"

definition lend :: "heap \<Rightarrow> caller_data \<Rightarrow> nat option \<times> heap" where
  "lend h val = (case val of
      None \<Rightarrow> (None, h)
    | Some v \<Rightarrow> (Some (next_addr h), h\<lparr>loans := (loans h)(next_addr h \<mapsto> v), next_addr := Suc (next_addr h)\<rparr>))"

definition receive_lengths :: "nat list \<Rightarrow> gck_attribute list \<Rightarrow> gck_attribute list" where
  "receive_lengths ns cs = map2 (\<lambda>c n. c\<lparr>attr_length := n\<rparr>) cs (ns @ replicate (length cs) 0)"

definition receive ::
  "nat list \<Rightarrow> heap \<Rightarrow> gck_builder \<Rightarrow> (heap \<times> gck_builder) option" where
  "receive ns h b = do {
     (h, b) \<leftarrow> gck_builder_prepare_in h b;
     gck_builder_commit_in h (b\<lparr>attr_array := map_option (receive_lengths ns) (attr_array b)\<rparr>) }"

fun call :: "world \<Rightarrow> client_call \<Rightarrow> world option" where
  "call w (NewBuilder secure) =
     Some (w\<lparr>builders := builders w @ [gck_builder_init_full secure]\<rparr>)"
| "call w (AddData i t val n) = on_builder w i (\<lambda>h b. gck_builder_add_data h b t val n)"
| "call w (SetData i t val n) = on_builder w i (\<lambda>h b. gck_builder_set_data h b t val n)"
| "call w (TakeData i t val n) = on_builder w i (\<lambda>h b. case lend h val of (p, h) \<Rightarrow> gck_builder_take_data h b t p n)"
| "call w (AddEmpty i t) = on_builder w i (\<lambda>h b. Some (h, gck_builder_add_empty b t))"
| "call w (SetEmpty i t) = on_builder w i (\<lambda>h b. gck_builder_set_empty h b t)"
| "call w (AddInvalid i t) = on_builder w i (\<lambda>h b. Some (h, gck_builder_add_invalid b t))"
| "call w (SetInvalid i t) = on_builder w i (\<lambda>h b. gck_builder_set_invalid h b t)"
| "call w (AddAll i j) = on_builder w i (\<lambda>h b. gck_builder_add_all h b (the (sets w ! j)))"
| "call w (SetAll i j) = on_builder w i (\<lambda>h b. gck_builder_set_all h b (the (sets w ! j)))"
| "call w (AddOnly i j ts) =
     on_builder w i (\<lambda>h b. gck_builder_add_only h b (the (sets w ! j)) ts)"
| "call w (AddExcept i j ts) =
     on_builder w i (\<lambda>h b. gck_builder_add_except h b (the (sets w ! j)) ts)"
| "call w (CopyBuilder i) = do {
     (h, b) \<leftarrow> gck_builder_copy (wheap w) (builders w ! i);
     Some (w\<lparr>wheap := h, builders := builders w @ [b]\<rparr>) }"
| "call w (ClearBuilder i) = on_builder w i gck_builder_clear"
| "call w (Receive i ns) = on_builder w i (receive ns)"
| "call w (StealBuilder i) =
     (let (attrs, b) = gck_builder_steal (builders w ! i)
      in Some (w\<lparr>builders := (builders w)[i := b], sets := sets w @ [Some attrs], references := references w @ [1]\<rparr>))"
| "call w (EndBuilder i) =
     (let (attrs, b) = gck_builder_end (builders w ! i)
      in Some (w\<lparr>builders := (builders w)[i := b], sets := sets w @ [Some attrs], references := references w @ [1]\<rparr>))"
| "call w (RefSet j) = on_set w j gck_attributes_ref (references w ! j + 1)"
| "call w (RefSinkSet j) =
     on_set w j gck_attributes_ref_sink (if attrs_floating (the (sets w ! j)) then references w ! j else references w ! j + 1)"
| "call w (UnrefSet j) = do {
     (h, s) \<leftarrow> gck_attributes_unref (wheap w) (the (sets w ! j));
     Some (w\<lparr>wheap := h, sets := (sets w)[j := s], references := (references w)[j := references w ! j - 1]\<rparr>) }"

text \<open>
  What a caller has to see to: objects that it names exist, a set as long as it holds references to it, memory that it passes in is
  there, and counters of 31 bits are enough for the references and for the attributes of the program.
\<close>

definition has_builder :: "world \<Rightarrow> nat \<Rightarrow> bool" where
  "has_builder w i \<longleftrightarrow> i < length (builders w)"

definition has_set :: "world \<Rightarrow> nat \<Rightarrow> bool" where
  "has_set w j \<longleftrightarrow> j < length (sets w) \<and> sets w ! j \<noteq> None"

definition few :: "nat \<Rightarrow> bool" where
  "few n \<longleftrightarrow> n < 2 ^ 31"

definition set_size :: "world \<Rightarrow> nat \<Rightarrow> nat" where
  "set_size w j = length (set_cells (sets w ! j))"

definition length_ok :: "nat \<Rightarrow> bool" where
  "length_ok n \<longleftrightarrow> n = ulong_max \<or> n + 4 < object_limit"

fun legal :: "world \<Rightarrow> client_call \<Rightarrow> bool" where
  "legal w (NewBuilder secure) \<longleftrightarrow> True"
| "legal w (AddData i t val n) \<longleftrightarrow> has_builder w i \<and> data_ok val n"
| "legal w (SetData i t val n) \<longleftrightarrow> has_builder w i \<and> data_ok val n"
| "legal w (TakeData i t val n) \<longleftrightarrow> has_builder w i \<and> length_ok n"
| "legal w (AddEmpty i t) \<longleftrightarrow> has_builder w i"
| "legal w (SetEmpty i t) \<longleftrightarrow> has_builder w i"
| "legal w (AddInvalid i t) \<longleftrightarrow> has_builder w i"
| "legal w (SetInvalid i t) \<longleftrightarrow> has_builder w i"
| "legal w (AddAll i j) \<longleftrightarrow> has_builder w i \<and> has_set w j \<and> room (set_size w j) (world_cells w)"
| "legal w (SetAll i j) \<longleftrightarrow> has_builder w i \<and> has_set w j \<and> room (set_size w j) (world_cells w)"
| "legal w (AddOnly i j ts) \<longleftrightarrow> has_builder w i \<and> has_set w j \<and> room (set_size w j * length ts) (world_cells w)"
| "legal w (AddExcept i j ts) \<longleftrightarrow> has_builder w i \<and> has_set w j \<and> room (set_size w j) (world_cells w)"
| "legal w (CopyBuilder i) \<longleftrightarrow> has_builder w i \<and> room (length (attr_cells (builders w ! i))) (world_cells w)"
| "legal w (ClearBuilder i) \<longleftrightarrow> has_builder w i"
| "legal w (Receive i ns) \<longleftrightarrow> has_builder w i \<and> list_all length_ok ns"
| "legal w (StealBuilder i) \<longleftrightarrow> has_builder w i"
| "legal w (EndBuilder i) \<longleftrightarrow> has_builder w i"
| "legal w (RefSet j) \<longleftrightarrow> has_set w j \<and> few (references w ! j + 1)"
| "legal w (RefSinkSet j) \<longleftrightarrow> has_set w j \<and> few (references w ! j + 1)"
| "legal w (UnrefSet j) \<longleftrightarrow> has_set w j"

text \<open>A program run; calls that its state makes illegal are not made.\<close>

fun run_calls :: "world \<Rightarrow> client_call list \<Rightarrow> world option" where
  "run_calls w [] = Some w"
| "run_calls w (c # cs) =
     (if legal w c then do { w \<leftarrow> call w c; run_calls w cs } else run_calls w cs)"

section \<open>Calls on one builder\<close>

definition others :: "world \<Rightarrow> nat \<Rightarrow> gck_attribute multiset" where
  "others w i = mset (concat (map attr_cells (take i (builders w) @ drop (Suc i) (builders w)))) +
     mset (concat (map set_cells (sets w)))"

lemma mset_concat_split:
  "i < length xs \<Longrightarrow> mset (concat (map f xs)) =
    mset (f (xs ! i)) + mset (concat (map f (take i xs @ drop (Suc i) xs)))"
  by (subst id_take_nth_drop [of i xs]) simp_all

lemma mset_concat_update:
  "i < length xs \<Longrightarrow> mset (concat (map f (xs[i := y]))) =
    mset (f y) + mset (concat (map f (take i xs @ drop (Suc i) xs)))"
  by (simp add: upd_conv_take_nth_drop)

lemma world_cells_split:
  "has_builder w i \<Longrightarrow> world_cells w = mset (attr_cells (builders w ! i)) + others w i"
  using mset_concat_split [of i "builders w" attr_cells]
  by (simp add: world_cells_def others_def has_builder_def)

lemma on_builder_ok:
  assumes w: "world_ok w" "has_builder w i"
    and f: "heap_ok (wheap w) (mset (attr_cells (builders w ! i)) + others w i) \<Longrightarrow>
      implements (wheap w) (builders w ! i) (others w i) (f (wheap w) (builders w ! i)) g"
  shows "\<exists>w'. on_builder w i f = Some w' \<and> world_ok w'"
proof -
  have "heap_ok (wheap w) (mset (attr_cells (builders w ! i)) + others w i)"
    using w by (simp add: world_ok_def world_cells_split)
  from f [OF this] obtain h b where b: "f (wheap w) (builders w ! i) = Some (h, b)"
    "heap_ok h (mset (attr_cells b) + others w i)" by (rule implementsE)
  have "world_cells (w\<lparr>wheap := h, builders := (builders w)[i := b]\<rparr>) = mset (attr_cells b) + others w i"
    using w(2) mset_concat_update [of i "builders w" attr_cells b]
    by (simp add: world_cells_def others_def has_builder_def)
  then show ?thesis
    using b w(1) by (simp add: on_builder_def world_ok_def)
qed

lemma on_builder_ex:
  assumes "world_ok w" "has_builder w i"
    and "heap_ok (wheap w) (mset (attr_cells (builders w ! i)) + others w i) \<Longrightarrow>
      \<exists>g. implements (wheap w) (builders w ! i) (others w i) (f (wheap w) (builders w ! i)) g"
  shows "\<exists>w'. on_builder w i f = Some w' \<and> world_ok w'"
  using on_builder_ok [OF assms(1,2)] assms(3) on_builder_def world_cells_split [OF assms(2)]
    assms(1) by (metis world_ok_def)

lemma set_in_others:
  assumes "has_set w j"
  shows "set (attrs_data (the (sets w ! j))) \<subseteq> set_mset (others w i)"
proof -
  from assms obtain attrs where attrs: "sets w ! j = Some attrs" "j < length (sets w)"
    by (auto simp: has_set_def)
  then have "Some attrs \<in> set (sets w)" by (metis nth_mem)
  then have "set (set_cells (Some attrs)) \<subseteq> set (concat (map set_cells (sets w)))"
    unfolding set_concat set_map image_image by blast
  then have "set (attrs_data attrs) \<subseteq> set (concat (map set_cells (sets w)))"
    by (simp add: set_cells_def)
  then show ?thesis using attrs(1) by (auto simp: others_def)
qed

lemma lent_block:
  assumes "heap_ok h M" "lend h (Some v) = (p, h1)"
  shows "p = Some (next_addr h)" "loans h1 (next_addr h) = Some v"
    "heap_ok (h1\<lparr>loans := (loans h1)(next_addr h := None)\<rparr>) M" "same_views h h1 M"
proof -
  have h1: "p = Some (next_addr h)" "h1 = h\<lparr>loans := (loans h)(next_addr h \<mapsto> v), next_addr := Suc (next_addr h)\<rparr>"
    using assms(2) by (simp_all add: lend_def)
  then show "p = Some (next_addr h)" "loans h1 (next_addr h) = Some v" by simp_all
  have cells: "cell_ok (h1\<lparr>loans := l\<rparr>) c \<longleftrightarrow> cell_ok h c" "view h1 c = view h c" for c l
    by (rule cell_same_block; simp add: h1(2))+
  show "same_views h h1 M" using cells(2) by (simp add: same_views_def)
  have "a < next_addr h" if "blocks h a = Some blk" for a blk using heap_ok_block [OF assms(1) that] by simp
  then show "heap_ok (h1\<lparr>loans := (loans h1)(next_addr h := None)\<rparr>) M"
    using assms(1) cells(1) unfolding heap_ok_def by (fastforce simp: h1(2) less_Suc_eq)
qed

lemma take_data_spec:
  assumes ok: "heap_ok h (mset (attr_cells b) + F)" and n: "length_ok n"
  shows "\<exists>g. implements h b F (case lend h val of (p, h) \<Rightarrow> gck_builder_take_data h b t p n) g"
proof (cases val)
  case None
  then show ?thesis using ok
    by (auto simp: lend_def gck_builder_take_data_def release_loan_def builder_push_eq implements_def views_def
        heap_ok_null view_null intro: exI [of _ "abs_push (t, _)"])
next
  case (Some v)
  obtain s bs where v: "v = (s, bs)" by (cases v)
  obtain p h1 where l: "lend h val = (p, h1)" by (cases "lend h val")
  note lent = lent_block [OF ok l [unfolded Some]]
  define h2 where "h2 = h1\<lparr>loans := (loans h1)(next_addr h := None)\<rparr>"
  have ok2: "heap_ok h2 (mset (attr_cells b) + F)" using lent(3) by (simp add: h2_def)
  have "view h2 c = view h1 c" for c unfolding h2_def by (rule cell_same_block) simp
  then have same: "same_views h h2 (mset (attr_cells b) + F)" using lent(4) by (simp add: same_views_def)
  have loan: "loans h1 (next_addr h) = Some (s, bs)" using lent(2) v by simp
  show ?thesis
  proof (cases "n = ulong_max")
    case True
    have "gck_builder_take_data h1 b t p n =
        Some (h2, b\<lparr>attr_array := Some (attr_cells b @ [\<lparr>attr_type = t, attr_value = None, attr_length = ulong_max\<rparr>])\<rparr>)"
      using True loan by (simp add: gck_builder_take_data_def release_loan_def builder_push_eq lent(1) h2_def put_attr_def)
    then show ?thesis using ok2 same l
      by (auto simp: implements_def views_def heap_ok_null view_null same_views_def intro!: exI [of _ "abs_push (t, Invalid)"] simp: abs_push_def)
  next
    case False
    obtain bs' where bs': "length bs' = n" "value_take h1 (next_addr h) n s = Some (next_addr h1,
        h1\<lparr>blocks := (blocks h1)(next_addr h1 \<mapsto> \<lparr>rc = 1, held_secure = s, held = bs'\<rparr>), loans := (loans h1)(next_addr h := None),
          next_addr := Suc (next_addr h1)\<rparr>)"
      using value_take_eq [OF _ loan, of n s] n False by (auto simp: length_ok_def)
    let ?c = "\<lparr>attr_type = t, attr_value = Some (next_addr h2), attr_length = n\<rparr>"
    define h3 where "h3 = h2\<lparr>blocks := (blocks h2)(next_addr h2 \<mapsto> \<lparr>rc = 1, held_secure = s, held = bs'\<rparr>), next_addr := Suc (next_addr h2)\<rparr>"
    have take: "gck_builder_take_data h1 b t p n = Some (h3, b\<lparr>attr_array := Some (attr_cells b @ [?c])\<rparr>)"
      using False loan bs'(2)
      by (simp add: gck_builder_take_data_def builder_push_eq lent(1) h2_def h3_def put_attr_def)
    have "length bs' < ulong_max" using bs'(1) n False object_limit_ulong [of n] by (auto simp: length_ok_def)
    from heap_ok_fresh [OF ok2 this h3_def, of ?c] bs'(1)
    have "heap_ok h3 (add_mset ?c (mset (attr_cells b) + F))" "same_views h2 h3 (mset (attr_cells b) + F)"
      "view h3 ?c = (t, Value bs')" by simp_all
    then have "implements h b F (gck_builder_take_data h1 b t p n) (abs_push (t, Value bs'))"
      using same by (simp add: take implements_def views_def abs_push_def same_views_def)
    then show ?thesis using l by auto
  qed
qed

lemma receive_spec:
  assumes ok: "heap_ok h (mset (attr_cells b) + F)" and ns: "list_all length_ok ns"
  shows "\<exists>g. implements h b F (receive ns h b) g"
proof (cases "attr_array b")
  case None
  then have "b\<lparr>attr_array := None\<rparr> = b" by (cases b) simp
  then have "implements h b F (Some (h, b\<lparr>attr_array := None\<rparr>)) (\<lambda>xs. xs)"
    using implements_id [OF ok] by simp
  then show ?thesis
    using None
    by (auto simp: receive_def gck_builder_prepare_in_def gck_builder_commit_in_def)
next
  case (Some cs)
  then have cells: "attr_cells b = cs" by (simp add: attr_cells_def)
  let ?blank = "map (\<lambda>c. blank_attr (attr_type c)) cs"
  obtain h1 where h1: "prepare_cells h cs = Some (h1, ?blank)" "heap_ok h1 F" "same_views h h1 F"
    using prepare_cells_spec [of h cs F] ok cells by auto
  have "\<forall>c \<in> set (receive_lengths ns ?blank). attr_length c = ulong_max \<or> attr_length c + 4 < object_limit"
    using ns by (auto simp: receive_lengths_def list_all_iff length_ok_def object_limit_def dest!: set_zip_rightD)
  from commit_cells_spec [OF h1(2) this, of "attr_secure b"] obtain h2 cs2 where
    h2: "commit_cells h1 (attr_secure b) (receive_lengths ns ?blank) = Some (h2, cs2)"
    "heap_ok h2 (mset cs2 + F)" "same_views h1 h2 F" by blast
  have "receive ns h b = Some (h2, b\<lparr>attr_array := Some cs2\<rparr>)"
    using Some h1 h2 by (simp add: receive_def gck_builder_prepare_in_def gck_builder_commit_in_def)
  then have "implements h b F (receive ns h b) (\<lambda>_. map (view h2) cs2)"
    using h1 h2 by (auto simp: implements_def views_def intro: same_views_trans)
  then show ?thesis by blast
qed

section \<open>Every call keeps the program in order\<close>

lemma builder_call_ok:
  assumes w: "world_ok w" "has_builder w i" and f: "builder_op f g"
  shows "\<exists>w'. on_builder w i f = Some w' \<and> world_ok w'"
  using on_builder_ok [OF w, of f g] builder_op.contract [OF f] by blast

lemma set_there:
  assumes "world_ok w" "has_set w j"
  obtains attrs where "sets w ! j = Some attrs" "j < length (sets w)" "j < length (references w)"
    "set_ok (Some attrs) (references w ! j)"
proof -
  obtain attrs where "sets w ! j = Some attrs" "j < length (sets w)" using assms(2) by (auto simp: has_set_def)
  then show thesis using assms(1) that unfolding world_ok_def list_all2_conv_all_nth by metis
qed

lemma sets_update: "list_all2 set_ok ss ns \<Longrightarrow> set_ok s n \<Longrightarrow> list_all2 set_ok (ss[j := s]) (ns[j := n])"
  by (rule list_all2_update_cong)

lemma set_call_ok:
  assumes w: "world_ok w" "has_set w j" and data: "\<And>attrs. attrs_data (f attrs) = attrs_data attrs"
    and n: "\<And>attrs. sets w ! j = Some attrs \<Longrightarrow> set_ok (Some attrs) (references w ! j) \<Longrightarrow> set_ok (Some (f attrs)) n"
  shows "\<exists>w'. on_set w j f n = Some w' \<and> world_ok w'"
proof -
  obtain attrs where attrs: "sets w ! j = Some attrs" "j < length (sets w)" "set_ok (Some attrs) (references w ! j)"
    using set_there [OF w] by metis
  have "set_cells (Some (f attrs)) = set_cells (sets w ! j)" using attrs(1) data by (simp add: set_cells_def)
  then have "map set_cells ((sets w)[j := Some (f attrs)]) = map set_cells (sets w)"
    using attrs(2) by (metis list_update_id map_update)
  then show ?thesis
    using w(1) attrs n [OF attrs(1,3)] by (auto simp: on_set_def world_ok_def world_cells_def intro: sets_update)
qed

lemma new_set_ok:
  assumes w: "world_ok w" "has_builder w i"
    and s: "attrs_data attrs = attr_cells (builders w ! i)" "attrs_refs attrs = 1"
    and b: "attr_cells b = []"
  shows "world_ok (w\<lparr>builders := (builders w)[i := b], sets := sets w @ [Some attrs], references := references w @ [1]\<rparr>)"
proof -
  let ?w = "w\<lparr>builders := (builders w)[i := b], sets := sets w @ [Some attrs], references := references w @ [1]\<rparr>"
  have "world_cells ?w = world_cells w"
    using w(2) mset_concat_update [of i "builders w" attr_cells b] mset_concat_split [of i "builders w" attr_cells]
    by (simp add: world_cells_def has_builder_def set_cells_def s(1) b)
  then show ?thesis using w(1) s(2) by (auto simp: world_ok_def intro!: list_all2_appendI)
qed

lemma unref_call_ok:
  assumes w: "world_ok w" "has_set w j"
  shows "\<exists>w'. call w (UnrefSet j) = Some w' \<and> world_ok w'"
proof -
  obtain attrs where attrs: "sets w ! j = Some attrs" "j < length (sets w)" "set_ok (Some attrs) (references w ! j)"
    using set_there [OF w] by metis
  let ?n = "references w ! j"
  let ?rest = "mset (concat (map attr_cells (builders w))) +
    mset (concat (map set_cells (take j (sets w) @ drop (Suc j) (sets w))))"
  have split: "world_cells w = mset (attrs_data attrs) + ?rest"
    using mset_concat_split [OF attrs(2), of set_cells] attrs(1) by (simp add: world_cells_def set_cells_def)
  have new: "world_cells (w\<lparr>wheap := h, sets := (sets w)[j := s], references := r\<rparr>) = mset (set_cells s) + ?rest" for h s r
    using mset_concat_update [OF attrs(2), of set_cells s] by (simp add: world_cells_def)
  have count: "gint (attrs_refs attrs - 1) = int (?n - 1)" using attrs(3) by simp
  show ?thesis
  proof (cases "?n = 1")
    case True
    have "heap_ok (wheap w) (mset (attrs_data attrs) + ?rest)" using w(1) by (simp add: world_ok_def split)
    then obtain h where "unref_cells (wheap w) (attrs_data attrs) = Some h" "heap_ok h ?rest"
      using unref_cells_spec by blast
    then show ?thesis
      using True attrs new [where s = None] w(1) count
      by (auto simp: gck_attributes_unref_def world_ok_def set_cells_def intro: sets_update)
  next
    case False
    let ?attrs = "attrs\<lparr>attrs_refs := int (?n - 1)\<rparr>"
    have "0 < ?n" "?n < 2 ^ 31" using attrs(3) by simp_all
    then have "0 < ?n - 1" "?n - 1 < 2 ^ 31" using False by linarith+
    then have "set_ok (Some ?attrs) (?n - 1)" by simp
    then have "world_ok (w\<lparr>wheap := wheap w, sets := (sets w)[j := Some ?attrs], references := (references w)[j := ?n - 1]\<rparr>)"
      using new [where h = "wheap w" and s = "Some ?attrs"] split w(1)
      by (simp add: world_ok_def set_cells_def sets_update)
    then show ?thesis using False attrs count by (simp add: gck_attributes_unref_def Let_def)
  qed
qed

lemma copy_call_ok:
  assumes w: "world_ok w" "has_builder w i" and room: "room (length (attr_cells (builders w ! i))) (world_cells w)"
  shows "\<exists>w'. call w (CopyBuilder i) = Some w' \<and> world_ok w'"
proof -
  let ?b = "builders w ! i" and ?new = "gck_builder_new (attr_secure (builders w ! i))"
  have new: "attr_cells ?new = []"
    by (simp add: gck_builder_new_def gck_builder_init_full_def attr_cells_def)
  have ok: "heap_ok (wheap w) (mset (attr_cells ?new) + world_cells w)"
    using w(1) new by (simp add: world_ok_def)
  have "set (attr_cells ?b) \<subseteq> set_mset (world_cells w)"
    using w(2) by (auto simp: world_cells_split)
  from copy_all_spec [OF ok this, of False] room new obtain h b where
    b: "gck_builder_copy (wheap w) ?b = Some (h, b)" "heap_ok h (mset (attr_cells b) + world_cells w)"
    unfolding gck_builder_copy_def by (auto elim: implementsE)
  have "world_cells (w\<lparr>wheap := h, builders := builders w @ [b]\<rparr>) = mset (attr_cells b) + world_cells w"
    by (simp add: world_cells_def)
  then show ?thesis using b w(1) by (simp add: world_ok_def)
qed

lemma world_room: "has_builder w i \<Longrightarrow> room k (world_cells w) \<Longrightarrow> room k (mset (attr_cells (builders w ! i)) + others w i)"
  by (simp add: world_cells_split)

lemma set_room:
  assumes "has_builder w i" "has_set w j" "room (set_size w j) (world_cells w)"
  shows "room (length (attrs_data (the (sets w ! j)))) (mset (attr_cells (builders w ! i)) + others w i)"
  using world_room [OF assms(1,3)] assms(2) by (auto simp: set_size_def set_cells_def has_set_def)

lemma only_room:
  assumes "has_builder w i" "has_set w j" "room (set_size w j * length ts) (world_cells w)"
  shows "room (length (attrs_data (the (sets w ! j))) * length (va_types ts)) (mset (attr_cells (builders w ! i)) + others w i)"
proof -
  have "length (va_types ts) \<le> length ts" by (simp add: va_types_def length_takeWhile_le)
  then have "set_size w j * length (va_types ts) \<le> set_size w j * length ts" by simp
  then show ?thesis using world_room [OF assms(1,3)] assms(2)
    by (auto simp: set_size_def set_cells_def has_set_def elim!: room_mono)
qed

lemma call_ok:
  assumes w: "world_ok w" and l: "legal w c"
  shows "\<exists>w'. call w c = Some w' \<and> world_ok w'"
proof (cases c)
  case (NewBuilder secure)
  then show ?thesis
    using w by (simp add: world_ok_def world_cells_def gck_builder_init_full_def attr_cells_def)
next
  case (TakeData i t val n)
  then have l: "has_builder w i" "length_ok n" using l by simp_all
  show ?thesis
    unfolding TakeData call.simps
    by (rule on_builder_ex [OF w l(1)]) (rule take_data_spec [OF _ l(2)])
next
  case (Receive i ns)
  then have l: "has_builder w i" "list_all length_ok ns" using l by simp_all
  show ?thesis
    unfolding Receive call.simps
    by (rule on_builder_ex [OF w l(1)]) (rule receive_spec [OF _ l(2)])
next
  case (AddAll i j)
  then have l: "has_builder w i" "has_set w j" and r: "room (set_size w j) (world_cells w)" using l by simp_all
  show ?thesis
    unfolding AddAll call.simps gck_builder_add_all_def
    by (rule on_builder_ok [OF w l(1)]) (rule copy_all_spec [OF _ set_in_others [OF l(2)] set_room [OF l r]])
next
  case (SetAll i j)
  then have l: "has_builder w i" "has_set w j" and r: "room (set_size w j) (world_cells w)" using l by simp_all
  show ?thesis
    unfolding SetAll call.simps gck_builder_set_all_def
    by (rule on_builder_ok [OF w l(1)]) (rule copy_all_spec [OF _ set_in_others [OF l(2)] set_room [OF l r]])
next
  case (AddOnly i j ts)
  then have l: "has_builder w i" "has_set w j" and r: "room (set_size w j * length ts) (world_cells w)" using l by simp_all
  show ?thesis
    unfolding AddOnly call.simps gck_builder_add_only_def gck_builder_add_onlyv_def
    by (rule on_builder_ok [OF w l(1)]) (rule onlyv_loop_spec [OF _ set_in_others [OF l(2)] only_room [OF l r]])
next
  case (AddExcept i j ts)
  then have l: "has_builder w i" "has_set w j" and r: "room (set_size w j) (world_cells w)" using l by simp_all
  show ?thesis
    unfolding AddExcept call.simps gck_builder_add_except_def gck_builder_add_exceptv_def
    by (rule on_builder_ok [OF w l(1)]) (rule exceptv_loop_spec [OF _ set_in_others [OF l(2)] set_room [OF l r]])
next
  case (StealBuilder i)
  then show ?thesis
    using l new_set_ok [OF w, of i] by (simp add: gck_builder_steal_def)
next
  case (EndBuilder i)
  then show ?thesis
    using l new_set_ok [OF w, of i] by (simp add: gck_builder_end_def gck_builder_steal_def)
next
  case (RefSet j)
  then have l: "has_set w j" "few (references w ! j + 1)" using l by simp_all
  show ?thesis unfolding RefSet call.simps
    by (rule set_call_ok [OF w l(1)]) (use l(2) in \<open>simp_all add: gck_attributes_ref_def few_def\<close>)
next
  case (RefSinkSet j)
  then have l: "has_set w j" "few (references w ! j + 1)" using l by simp_all
  show ?thesis unfolding RefSinkSet call.simps
    by (rule set_call_ok [OF w l(1)]) (use l(2) in \<open>simp_all add: gck_attributes_ref_sink_def gck_attributes_ref_def few_def\<close>)
next
  case (UnrefSet j)
  then show ?thesis using l unref_call_ok [OF w, of j] by simp
next
  case (CopyBuilder i)
  then show ?thesis using l copy_call_ok [OF w, of i] by simp
next
  case (AddData i t val n)
  then have l: "has_builder w i" "data_ok val n" using l by simp_all
  show ?thesis unfolding AddData call.simps by (rule builder_call_ok [OF w l(1) add_data_op [OF l(2) refl]])
next
  case (SetData i t val n)
  then have l: "has_builder w i" "data_ok val n" using l by simp_all
  show ?thesis unfolding SetData call.simps by (rule builder_call_ok [OF w l(1) set_data_op [OF l(2) refl]])
next
  case (AddEmpty i t)
  then have l: "has_builder w i" using l by simp
  show ?thesis unfolding AddEmpty call.simps by (rule builder_call_ok [OF w l add_empty.builder_op_axioms])
next
  case (SetEmpty i t)
  then have l: "has_builder w i" using l by simp
  show ?thesis unfolding SetEmpty call.simps by (rule builder_call_ok [OF w l set_empty.builder_op_axioms])
next
  case (AddInvalid i t)
  then have l: "has_builder w i" using l by simp
  show ?thesis unfolding AddInvalid call.simps by (rule builder_call_ok [OF w l add_invalid.builder_op_axioms])
next
  case (SetInvalid i t)
  then have l: "has_builder w i" using l by simp
  show ?thesis unfolding SetInvalid call.simps by (rule builder_call_ok [OF w l set_invalid.builder_op_axioms])
next
  case (ClearBuilder i)
  then have l: "has_builder w i" using l by simp
  show ?thesis unfolding ClearBuilder call.simps by (rule builder_call_ok [OF w l clear.builder_op_axioms])
qed

lemma run_calls_ok: "world_ok w \<Longrightarrow> \<exists>w'. run_calls w cs = Some w' \<and> world_ok w'"
proof (induction cs arbitrary: w)
  case (Cons c cs)
  then show ?case using call_ok [of w c] by fastforce
qed simp

lemma empty_world_ok: "world_ok empty_world"
  by (simp add: world_ok_def empty_world_def world_cells_def heap_ok_empty)

lemma no_references: "list_all2 set_ok ss ns \<Longrightarrow> j < length ss \<Longrightarrow> ss ! j = None \<longleftrightarrow> ns ! j = 0"
  using list_all2_nthD [of set_ok ss ns j] by (cases "ss ! j") auto

text \<open>
  C17. Reference counting is right: from any consistent state, whatever sequence of calls a program
  makes on its builders and attribute sets - with values shared between any of them, released in
  any order, and with at most \<open>2 ^ 31 - 1\<close> attributes and references, which the counters can hold - no call touches a value that is
  gone; the counter of a value always is the number of attributes that are alive and have it, and that of a set the number of
  references that the program holds to it, where sinking a floating reference is none more; a set is freed exactly when the last reference is
  dropped; memory that is given away is taken over or released; and once the last attribute is gone no value is left allocated.
\<close>

theorem attribute_calls_safe:
  assumes "world_ok w"
  shows "\<exists>w'. run_calls w cs = Some w' \<and> world_ok w' \<and>
    (\<forall>j < length (sets w'). sets w' ! j = None \<longleftrightarrow> references w' ! j = 0) \<and> (\<forall>a. loans (wheap w') a = None) \<and>
    (world_cells w' = {#} \<longrightarrow> (\<forall>a. blocks (wheap w') a = None))"
  using run_calls_ok [OF assms, of cs] no_references heap_ok_loans by (fastforce simp: world_ok_def heap_ok_empty)

theorem attribute_calls_safe_witness:
  "\<exists>w'. run_calls empty_world [NewBuilder False, SetData 0 3 (Some (False, [1, 2])) 2, TakeData 0 4 (Some (True, [7])) 1,
      EndBuilder 0, RefSinkSet 0, NewBuilder True, AddAll 1 0, UnrefSet 0, ClearBuilder 1] = Some w' \<and> world_ok w'"
  using attribute_calls_safe [OF empty_world_ok] by blast

section \<open>A small heap\<close>

text \<open>One block that two attributes share.\<close>

definition demo_heap :: heap where
  "demo_heap = \<lparr>blocks = [0 \<mapsto> \<lparr>rc = 2, held_secure = False, held = [1, 2]\<rparr>], loans = (\<lambda>_. None), next_addr = 1,
     junk = (\<lambda>_. 0)\<rparr>"

definition demo_attr :: gck_attribute where
  "demo_attr = \<lparr>attr_type = 3, attr_value = Some 0, attr_length = 2\<rparr>"

lemma demo_ok: "heap_ok demo_heap {#demo_attr, demo_attr#}"
  by (auto simp: heap_ok_def demo_heap_def demo_attr_def cell_ok_def points_def ulong_max_def)

lemma demo_view: "view demo_heap demo_attr = (3, Value [1, 2])"
  by (simp add: view_def view_value_def demo_heap_def demo_attr_def ulong_max_def)

section \<open>Lookups\<close>

lemma ulong_join:
  "push_bit 8 (take_bit a (drop_bit (8 * Suc k) v)) OR ucast (ucast (drop_bit (8 * k) v) :: byte) =
    (take_bit (a + 8) (drop_bit (8 * k) v) :: u64)"
  by (rule bit_word_eqI) (auto simp: bit_simps)

lemma ulong_of_ulong_bytes [simp]: "ulong_of_bytes (ulong_bytes v) = v"
proof -
  have "foldr (\<lambda>b v. push_bit 8 v OR ucast b) (map (\<lambda>i. ucast (drop_bit (8 * i) v) :: byte) [k..<k + d]) 0 =
    (take_bit (8 * d) (drop_bit (8 * k) v) :: u64)" for k d
  proof (induction d arbitrary: k)
    case (Suc d)
    have "[k..<k + Suc d] = k # [Suc k..<Suc k + d]" by (subst upt_conv_Cons) simp_all
    then show ?case
      using Suc.IH [of "Suc k"] ulong_join [of "8 * d" k v]
      by (simp add: add.commute del: upt_Suc)
  qed simp
  from this [of 0 8] show ?thesis
    by (simp add: ulong_of_bytes_def ulong_bytes_def take_bit_word_eq_self del: upt_Suc)
qed

lemma find_attribute_map_of:
  "map_of (map (view h) cs) t = map_option (\<lambda>i. view_value h (cs ! i)) (find_attribute cs t)"
  by (induction cs t rule: find_attribute.induct) (auto simp: view_def option.map_comp comp_def)

lemma read_value_view:
  assumes "cell_ok h c" "attr_length c \<noteq> ulong_max"
  shows "read_value h c = Some (case view_value h c of Value bs \<Rightarrow> Some bs | _ \<Rightarrow> None)"
    "view_value h c = Value bs \<Longrightarrow> length bs = attr_length c" "view_value h c \<noteq> Invalid"
  using assms
  by (auto simp: read_value_def view_value_def cell_ok_def deref_def mem_read_def split: option.splits)

text \<open>The typed lookups, as functions of what a reader sees.\<close>

definition ulong_view :: "attr_view option \<Rightarrow> u64 option" where
  "ulong_view v = (case v of Some (Value bs) \<Rightarrow> (if length bs = 8 then Some (ulong_of_bytes bs) else None)
     | _ \<Rightarrow> None)"

definition boolean_view :: "attr_view option \<Rightarrow> bool option" where
  "boolean_view v = (case v of Some (Value bs) \<Rightarrow> (if length bs = 1 then Some (bs ! 0 \<noteq> 0) else None)
     | _ \<Rightarrow> None)"

lemma find_with_view:
  assumes ok: "\<And>c. c \<in> set cs \<Longrightarrow> cell_ok h c"
    and get: "\<And>c. c \<in> set cs \<Longrightarrow> attr_length c \<noteq> ulong_max \<Longrightarrow> get c = Some (f (Some (view_value h c)))"
    and f: "f None = None" "f (Some Invalid) = None"
  shows "find_attribute_with get cs t = Some (f (map_of (map (view h) cs) t))"
proof (cases "find_attribute cs t")
  case None
  then show ?thesis using f by (simp add: find_attribute_with_def find_attribute_map_of)
next
  case (Some i)
  have c: "cs ! i \<in> set cs" using find_attribute_Some [OF Some] by simp
  show ?thesis
  proof (cases "attr_length (cs ! i) = ulong_max")
    case True
    then show ?thesis using Some f
      by (simp add: find_attribute_with_def find_attribute_map_of gck_attribute_is_invalid_def view_value_def)
  next
    case False
    then show ?thesis using Some get [OF c]
      by (simp add: find_attribute_with_def find_attribute_map_of gck_attribute_is_invalid_def)
  qed
qed

lemma find_ulong_view:
  assumes "\<And>c. c \<in> set cs \<Longrightarrow> cell_ok h c"
  shows "find_attribute_ulong h cs t = Some (ulong_view (map_of (map (view h) cs) t))"
  unfolding find_attribute_ulong_def
proof (rule find_with_view [OF assms])
  fix c assume "c \<in> set cs" "attr_length c \<noteq> ulong_max"
  then show "do { v \<leftarrow> read_value h c; Some (gck_value_to_ulong v (attr_length c)) } =
      Some (ulong_view (Some (view_value h c)))"
    using read_value_view [OF assms] by (auto simp: ulong_view_def gck_value_to_ulong_def split: attr_view.splits)
qed (simp_all add: ulong_view_def)

lemma find_boolean_view:
  assumes "\<And>c. c \<in> set cs \<Longrightarrow> cell_ok h c"
  shows "find_attribute_boolean h cs t = Some (boolean_view (map_of (map (view h) cs) t))"
  unfolding find_attribute_boolean_def
proof (rule find_with_view [OF assms])
  fix c assume "c \<in> set cs" "attr_length c \<noteq> ulong_max"
  then show "do { v \<leftarrow> read_value h c; Some (gck_value_to_boolean v (attr_length c)) } =
      Some (boolean_view (Some (view_value h c)))"
    using read_value_view [OF assms] by (auto simp: boolean_view_def gck_value_to_boolean_def split: attr_view.splits)
qed (simp_all add: boolean_view_def)

lemma builder_find_ulong_view:
  assumes "heap_ok h (mset (attr_cells b) + F)"
  shows "gck_builder_find_ulong h b t = Some (ulong_view (map_of (views h b) t))"
proof -
  have "find_attribute_ulong h (attr_cells b) t = Some (ulong_view (map_of (views h b) t))"
    unfolding views_def by (rule find_ulong_view) (use assms in \<open>auto intro: heap_ok_cell\<close>)
  then show ?thesis
    by (auto simp: gck_builder_find_ulong_def attr_cells_def views_def ulong_view_def split: option.splits)
qed

lemma map_of_abs_set: "map_of (abs_set (t, v) xs) = (map_of xs)(t \<mapsto> v)"
  by (induction xs) (auto simp: fun_eq_iff)

lemma map_of_abs_sets: "map_of (fold abs_set ys xs) = map_of xs ++ map_of (rev ys)"
  by (induction ys arbitrary: xs) (auto simp: map_of_abs_set)

text \<open>
  Setting then finding: after \<open>gck_builder_set_ulong\<close> the builder finds exactly the stored
  number under that type, every other type is found as before, and no attribute of anybody else
  changes, even when values are shared.
\<close>

theorem set_ulong_then_find:
  assumes "heap_ok h (mset (attr_cells b) + F)"
  shows "\<exists>h' b'. gck_builder_set_ulong h b t v = Some (h', b') \<and>
    heap_ok h' (mset (attr_cells b') + F) \<and> same_views h h' F \<and>
    gck_builder_find_ulong h' b' t = Some (Some v) \<and>
    (\<forall>t'. t' \<noteq> t \<longrightarrow> gck_builder_find_ulong h' b' t' = gck_builder_find_ulong h b t')"
proof -
  obtain h' b' where r: "gck_builder_set_ulong h b t v = Some (h', b')"
    "heap_ok h' (mset (attr_cells b') + F)" "views h' b' = abs_set (t, Value (ulong_bytes v)) (views h b)"
    "same_views h h' F"
    using set_ulong.outcome [OF assms] by blast
  have "length (ulong_bytes v) = 8" by (simp add: ulong_bytes_def)
  then have "ulong_view (map_of (views h' b') t) = Some v"
    by (simp add: r(3) map_of_abs_set ulong_view_def)
  moreover have "map_of (views h' b') t' = map_of (views h b) t'" if "t' \<noteq> t" for t'
    using that by (simp add: r(3) map_of_abs_set)
  ultimately show ?thesis
    using r builder_find_ulong_view [OF r(2)] builder_find_ulong_view [OF assms] by auto
qed

theorem set_ulong_then_find_witness:
  "\<exists>h' b'. gck_builder_set_ulong demo_heap gck_builder_init 7 42 = Some (h', b') \<and>
    gck_builder_find_ulong h' b' 7 = Some (Some 42)"
  using set_ulong_then_find [where h = demo_heap and b = gck_builder_init and F = "{#demo_attr, demo_attr#}"
      and t = 7 and v = 42]
  using demo_ok by (auto simp: gck_builder_init_def gck_builder_init_full_def attr_cells_def)


text \<open>
  C29. \<open>gck_builder_set_all\<close> merges: a type that occurs in the set is found with its last value in
  the set, any other type is found as before, and the set and all other attributes are unchanged. With fewer
  than \<open>2 ^ 31\<close> attributes in all, the counters of the values that are shared stay inside of their type.
\<close>

theorem set_all_lookup:
  assumes "heap_ok h (mset (attr_cells b) + F)" "set (attrs_data attrs) \<subseteq> set_mset F"
    "length (attr_cells b) + size F + length (attrs_data attrs) < 2 ^ 31"
  shows "\<exists>h' b'. gck_builder_set_all h b attrs = Some (h', b') \<and>
    heap_ok h' (mset (attr_cells b') + F) \<and> same_views h h' F \<and>
    map_of (views h' b') = map_of (views h b) ++ map_of (rev (map (view h) (attrs_data attrs)))"
  using copy_all_spec [OF assms(1,2), of True] assms(3)
  by (auto simp: room_def elim!: implementsE simp: gck_builder_set_all_def abs_put_def map_of_abs_sets)

theorem set_all_lookup_witness:
  "\<exists>h' b'. gck_builder_set_all demo_heap gck_builder_init
      \<lparr>attrs_data = [demo_attr, demo_attr], attrs_refs = 1, attrs_floating = False\<rparr> = Some (h', b') \<and>
    map_of (views h' b') 3 = Some (Value [1, 2])"
  using set_all_lookup [where h = demo_heap and b = gck_builder_init and F = "{#demo_attr, demo_attr#}"
      and attrs = "\<lparr>attrs_data = [demo_attr, demo_attr], attrs_refs = 1, attrs_floating = False\<rparr>"]
  using demo_ok by (fastforce simp: gck_builder_init_def gck_builder_init_full_def attr_cells_def demo_view)


lemma attribute_equal_views:
  assumes "cell_ok h x" "cell_ok h y"
  shows "gck_attribute_equal h (Some x) (Some y) = Some (view h x = view h y)"
proof -
  consider "attr_value x = None" "attr_value y = None"
    | b where "attr_value x = None" "attr_value y = Some b"
    | a where "attr_value x = Some a" "attr_value y = None"
    | a b where "attr_value x = Some a" "attr_value y = Some b"
    by (cases "attr_value x"; cases "attr_value y") auto
  then show ?thesis
  proof cases
    case 1
    then show ?thesis using assms
      by (auto simp: gck_attribute_equal_def view_def view_value_def ulong_max_def)
  next
    case 2
    from cell_block [OF assms(2) 2(2)] obtain q where "blocks h b = Some q" "attr_length y < ulong_max" .
    then show ?thesis using assms 2
      by (auto simp: gck_attribute_equal_def view_def view_value_def)
  next
    case 3
    from cell_block [OF assms(1) 3(1)] obtain q where "blocks h a = Some q" "attr_length x < ulong_max" .
    then show ?thesis using assms 3
      by (auto simp: gck_attribute_equal_def view_def view_value_def)
  next
    case 4
    from cell_block [OF assms(1) 4(1)] obtain p where p: "blocks h a = Some p"
      "length (held p) = attr_length x" "attr_length x < ulong_max" .
    from cell_block [OF assms(2) 4(2)] obtain q where q: "blocks h b = Some q"
      "length (held q) = attr_length y" "attr_length y < ulong_max" .
    show ?thesis using p q 4
      by (auto simp: gck_attribute_equal_def view_def view_value_def deref_def mem_read_def)
  qed
qed

definition hash_view :: "u64 \<times> attr_view \<Rightarrow> u32" where
  "hash_view x = fold (\<lambda>b h. push_bit 5 h + h + signed_char b)
     (case snd x of Value bs \<Rightarrow> bs | _ \<Rightarrow> []) (5381 XOR gck_ulong_hash (fst x))"

lemma attribute_hash_view:
  assumes "cell_ok h c"
  shows "gck_attribute_hash h c = Some (hash_view (view h c))"
proof (cases "attr_value c")
  case None
  then show ?thesis
    by (auto simp: gck_attribute_hash_def read_value_def hash_view_def view_def view_value_def split: option.splits)
next
  case (Some a)
  from cell_block [OF assms Some] obtain blk where "blocks h a = Some blk"
    "length (held blk) = attr_length c" "attr_length c < ulong_max" .
  then show ?thesis
    using Some by (simp add: gck_attribute_hash_def hash_view_def view_def view_value_def
        read_value_def deref_def mem_read_def)
qed

text \<open>
  \<open>gck_attribute_equal\<close> and \<open>gck_attribute_hash\<close> fit together, as hash tables require: both
  are defined on the attributes of a consistent program, and equal attributes have equal hashes.
\<close>

theorem equal_attributes_equal_hashes:
  assumes "heap_ok h M" "x \<in># M" "y \<in># M"
  shows "\<exists>eq hx hy. gck_attribute_equal h (Some x) (Some y) = Some eq \<and>
    gck_attribute_hash h x = Some hx \<and> gck_attribute_hash h y = Some hy \<and> (eq \<longrightarrow> hx = hy)"
  using attribute_equal_views attribute_hash_view heap_ok_cell [OF assms(1)] assms(2,3) by auto

theorem equal_attributes_equal_hashes_witness:
  "gck_attribute_equal demo_heap (Some demo_attr) (Some demo_attr) = Some True \<and>
    gck_attribute_hash demo_heap demo_attr \<noteq> None"
  using equal_attributes_equal_hashes [OF demo_ok, of demo_attr demo_attr]
  by (auto simp: gck_attribute_equal_def demo_heap_def demo_attr_def deref_def mem_read_def)

end
