(* ===== verification/Enumerator.thy ===== *)
theory Enumerator
  imports GcrPrelude
begin

text \<open>
  \<open>gck/gck-enumerator.c\<close>: the search for objects over modules, slots and sessions. The enumerator
  is a state machine whose handlers are translated one by one, each with its way forward and its
  way back; \<open>None\<close> as the outcome of a handler is a failed \<open>g_assert\<close>. What the PKCS#11 modules
  answer is the parameter \<open>pkcs11\<close> of the model.
\<close>

section \<open>Tokens\<close>

record token_info =
  token_label :: "string option"
  token_manufacturer :: "string option"
  token_model :: "string option"
  token_serial :: "string option"

definition match_info_string :: "string option \<Rightarrow> string option \<Rightarrow> bool" where
  "match_info_string match str = (case match of
      None \<Rightarrow> True
    | Some m \<Rightarrow> (case str of None \<Rightarrow> False | Some s \<Rightarrow> m = s))"

definition gck_token_info_match :: "token_info \<Rightarrow> token_info \<Rightarrow> bool" where
  "gck_token_info_match match info \<longleftrightarrow>
     match_info_string (token_label match) (token_label info) \<and>
     match_info_string (token_manufacturer match) (token_manufacturer info) \<and>
     match_info_string (token_model match) (token_model info) \<and>
     match_info_string (token_serial match) (token_serial info)"

section \<open>The modules\<close>

text \<open>
  Modules, slots, sessions and objects are numbers, as PKCS#11 handles are. \<open>search_answers\<close> are
  the answers of \<open>C_FindObjects\<close> in a row (the return value is \<open>CKR_OK\<close>, and the objects);
  \<open>object_values\<close> is the outcome of the two calls of \<open>C_GetAttributeValue\<close>: the attributes, or
  \<open>None\<close> when one of them fails.
\<close>

record 'a pkcs11 =
  module_slots :: "nat \<Rightarrow> nat list"
  slot_token :: "nat \<Rightarrow> token_info option"
  open_session :: "nat \<Rightarrow> bool \<Rightarrow> nat option"
  search_init :: "nat \<Rightarrow> 'a option \<Rightarrow> bool"
  search_answers :: "nat \<Rightarrow> 'a option \<Rightarrow> (bool \<times> nat list) list"
  object_values :: "nat \<Rightarrow> nat \<Rightarrow> u64 list \<Rightarrow> 'a option"

text \<open>A result is an object handle, its session, and its attributes when those were asked for.\<close>

record 'a gck_result =
  obj_handle :: nat
  obj_session :: nat
  obj_attrs :: "'a option"

section \<open>The state\<close>

datatype enum_handler = StateModules | StateSlots | StateSlot | StateSession | StateFind | StateResults

record 'a uri_match =
  any_unrecognized :: bool
  match_token :: "token_info option"
  match_attributes :: "'a option"

text \<open>
  The object class is set whenever the state is checked out of the enumerator, so the assertions
  about it hold; of the class the handlers use the default attribute types.
\<close>

record 'a enum_state =
  want_objects :: nat
  handler :: enum_handler
  modules :: "nat list"
  match :: "'a uri_match"
  read_write :: bool
  default_types :: "u64 list"
  slots :: "nat list"
  cur_slot :: "nat option"
  cur_token :: "token_info option"
  funcs :: bool
  session :: "nat option"
  found :: "'a gck_result list option"
  results :: "'a gck_result list option"

definition queue :: "'b list option \<Rightarrow> 'b list" where
  "queue q = (case q of None \<Rightarrow> [] | Some xs \<Rightarrow> xs)"

lemma queue_simps [simp]: "queue None = []" "queue (Some xs) = xs"
  by (simp_all add: queue_def)

section \<open>Going back\<close>

text \<open>The handlers when they are called with \<open>forward\<close> false: the state to go on with.\<close>

definition state_slots_back :: "'a enum_state \<Rightarrow> (enum_handler \<times> 'a enum_state) option" where
  "state_slots_back st = do {
     c_assert (cur_slot st = None);
     Some (StateModules, st\<lparr>slots := []\<rparr>) }"

definition state_slot_back :: "'a enum_state \<Rightarrow> (enum_handler \<times> 'a enum_state) option" where
  "state_slot_back st = do {
     c_assert (cur_slot st \<noteq> None);
     c_assert (funcs st);
     c_assert (session st = None);
     Some (StateSlots, st\<lparr>cur_slot := None, funcs := False, cur_token := None\<rparr>) }"

definition state_session_back :: "'a enum_state \<Rightarrow> (enum_handler \<times> 'a enum_state) option" where
  "state_session_back st = do {
     c_assert (funcs st);
     c_assert (session st \<noteq> None);
     c_assert (cur_token st \<noteq> None);
     Some (StateSlot, st\<lparr>session := None\<rparr>) }"

definition state_find_back :: "'a enum_state \<Rightarrow> (enum_handler \<times> 'a enum_state) option" where
  "state_find_back st = Some (StateSession, st)"

definition state_results_back :: "'a enum_state \<Rightarrow> (enum_handler \<times> 'a enum_state) option" where
  "state_results_back st = do {
     c_assert (funcs st);
     c_assert (found st \<noteq> None);
     Some (StateFind, st) }"

text \<open>Going back from the start is an assertion failure.\<close>

definition handler_back :: "'a enum_state \<Rightarrow> (enum_handler \<times> 'a enum_state) option" where
  "handler_back st = (case handler st of
      StateModules \<Rightarrow> None
    | StateSlots \<Rightarrow> state_slots_back st
    | StateSlot \<Rightarrow> state_slot_back st
    | StateSession \<Rightarrow> state_session_back st
    | StateFind \<Rightarrow> state_find_back st
    | StateResults \<Rightarrow> state_results_back st)"

text \<open>\<open>rank\<close> falls with every step that takes no module and no slot off its list.\<close>

fun rank :: "enum_handler \<Rightarrow> nat" where
  "rank StateModules = 0"
| "rank StateSlots = 1"
| "rank StateSlot = 5"
| "rank StateSession = 4"
| "rank StateFind = 3"
| "rank StateResults = 2"

fun depth :: "enum_handler \<Rightarrow> nat" where
  "depth StateModules = 0"
| "depth StateSlots = 1"
| "depth StateSlot = 2"
| "depth StateSession = 3"
| "depth StateFind = 4"
| "depth StateResults = 5"

lemma handler_back_depth: "handler_back st = Some (h, st') \<Longrightarrow> depth h < depth (handler st)"
  by (auto simp: handler_back_def state_slots_back_def state_slot_back_def state_session_back_def
      state_find_back_def state_results_back_def split: enum_handler.splits bind_splits)

function rewind_state :: "'a enum_state \<Rightarrow> enum_handler \<Rightarrow> (enum_handler \<times> 'a enum_state) option" where
  "rewind_state st h =
     (if h = handler st then Some (h, st)
      else case handler_back st of
        None \<Rightarrow> None
      | Some (h', st') \<Rightarrow> rewind_state (st'\<lparr>handler := h'\<rparr>) h)"
  by pat_completeness auto
termination
  by (relation "measure (\<lambda>(st, h). depth (handler st))") (auto dest: handler_back_depth)

declare rewind_state.simps [simp del]

section \<open>Going forward\<close>

text \<open>The outcome \<open>None\<close> of the inner option is the handler \<open>NULL\<close>, which ends the run.\<close>

type_synonym 'a handled = "(enum_handler option \<times> 'a enum_state) option"

definition next_handler :: "(enum_handler \<times> 'a enum_state) option \<Rightarrow> 'a handled" where
  "next_handler r = map_option (\<lambda>(h, st). (Some h, st)) r"

definition state_modules :: "'a pkcs11 \<Rightarrow> 'a enum_state \<Rightarrow> 'a handled" where
  "state_modules env st = do {
     c_assert (slots st = []);
     case modules st of
       [] \<Rightarrow> Some (None, st)
     | m # ms \<Rightarrow> Some (Some StateSlots, st\<lparr>modules := ms, slots := module_slots env m\<rparr>) }"

definition token_matched :: "'a uri_match \<Rightarrow> token_info \<Rightarrow> bool" where
  "token_matched mt info =
     (if any_unrecognized mt then False
      else case match_token mt of
        Some t \<Rightarrow> gck_token_info_match t info
      | None \<Rightarrow> True)"

definition state_slots :: "'a pkcs11 \<Rightarrow> 'a enum_state \<Rightarrow> 'a handled" where
  "state_slots env st = do {
     c_assert (cur_slot st = None);
     case slots st of
       [] \<Rightarrow> next_handler (rewind_state st StateModules)
     | s # ss \<Rightarrow>
         let st = st\<lparr>slots := ss\<rparr>
         in case slot_token env s of
              None \<Rightarrow> Some (Some StateSlots, st)
            | Some info \<Rightarrow>
                if \<not> token_matched (match st) info then Some (Some StateSlots, st)
                else Some (Some StateSlot,
                  st\<lparr>funcs := True, cur_slot := Some s, cur_token := Some info\<rparr>) }"

definition state_slot :: "'a pkcs11 \<Rightarrow> 'a enum_state \<Rightarrow> 'a handled" where
  "state_slot env st = do {
     s \<leftarrow> cur_slot st;
     c_assert (funcs st);
     c_assert (session st = None);
     case open_session env s (read_write st) of
       None \<Rightarrow> next_handler (rewind_state st StateSlots)
     | Some handle \<Rightarrow> Some (Some StateSession, st\<lparr>session := Some handle\<rparr>) }"

text \<open>
  Logging in changes nothing in the enumerator, which goes on whether it succeeds or not.
\<close>

definition state_session :: "'a pkcs11 \<Rightarrow> 'a enum_state \<Rightarrow> 'a handled" where
  "state_session env st = do {
     c_assert (funcs st);
     c_assert (session st \<noteq> None);
     c_assert (cur_token st \<noteq> None);
     Some (Some StateFind, st) }"

fun find_loop :: "(bool \<times> nat list) list \<Rightarrow> nat list" where
  "find_loop [] = []"
| "find_loop ((ok, objects) # answers) =
     (if \<not> ok \<or> objects = [] then [] else objects @ find_loop answers)"

definition find_objects :: "'a pkcs11 \<Rightarrow> nat \<Rightarrow> 'a option \<Rightarrow> nat list" where
  "find_objects env handle attrs =
     (if search_init env handle attrs then find_loop (search_answers env handle attrs) else [])"

text \<open>A session handle of zero makes \<open>g_return_val_if_fail\<close> return \<open>NULL\<close>.\<close>

definition state_find :: "'a pkcs11 \<Rightarrow> 'a enum_state \<Rightarrow> 'a handled" where
  "state_find env st = do {
     handle \<leftarrow> session st;
     c_assert (want_objects st > 0);
     c_assert (funcs st);
     let st = st\<lparr>found := Some (queue (found st))\<rparr>;
     if handle = 0 then Some (None, st)
     else
       let objects = find_objects env handle (match_attributes (match st));
           new = map (\<lambda>obj. \<lparr>obj_handle = obj, obj_session = handle, obj_attrs = None\<rparr>) objects
       in Some (Some StateResults, st\<lparr>found := Some (queue (found st) @ new)\<rparr>) }"

definition fetch :: "'a pkcs11 \<Rightarrow> u64 list \<Rightarrow> nat \<Rightarrow> 'a gck_result \<Rightarrow> 'a gck_result option" where
  "fetch env types handle r =
     (if types = [] then Some r
      else case object_values env handle (obj_handle r) types of
        None \<Rightarrow> None
      | Some attrs \<Rightarrow> Some (r\<lparr>obj_attrs := Some attrs\<rparr>))"

text \<open>
  The loop of \<open>state_results\<close>; the first component says that objects have run out. An object whose
  attributes cannot be read is dropped, and counts as one of those that are wanted.
\<close>

fun results_loop :: "'a pkcs11 \<Rightarrow> nat \<Rightarrow> nat \<Rightarrow> 'a enum_state \<Rightarrow> bool \<times> 'a enum_state" where
  "results_loop env handle 0 st = (False, st)"
| "results_loop env handle (Suc k) st = (case queue (found st) of
      [] \<Rightarrow> (True, st)
    | r # rs \<Rightarrow>
        let st = st\<lparr>found := Some rs\<rparr>
        in case fetch env (default_types st) handle r of
             None \<Rightarrow> results_loop env handle k st
           | Some r' \<Rightarrow> results_loop env handle k (st\<lparr>results := Some (queue (results st) @ [r'])\<rparr>))"

definition state_results :: "'a pkcs11 \<Rightarrow> 'a enum_state \<Rightarrow> 'a handled" where
  "state_results env st = do {
     c_assert (funcs st);
     c_assert (found st \<noteq> None);
     let st = st\<lparr>results := Some (queue (results st))\<rparr>;
     case session st of
       None \<Rightarrow> Some (None, st)
     | Some handle \<Rightarrow>
         if handle = 0 then Some (None, st)
         else
           let (need, st) = results_loop env handle (want_objects st) st
           in if need then next_handler (rewind_state st StateSlots) else Some (None, st) }"

definition handler_forward :: "'a pkcs11 \<Rightarrow> 'a enum_state \<Rightarrow> 'a handled" where
  "handler_forward env st = (case handler st of
      StateModules \<Rightarrow> state_modules env st
    | StateSlots \<Rightarrow> state_slots env st
    | StateSlot \<Rightarrow> state_slot env st
    | StateSession \<Rightarrow> state_session env st
    | StateFind \<Rightarrow> state_find env st
    | StateResults \<Rightarrow> state_results env st)"

section \<open>The handlers end\<close>

lemma rewind_modules_slots:
  "rewind_state st h = Some (h', st') \<Longrightarrow> h' = h \<and> handler st' = h \<and> modules st' = modules st \<and>
    (slots st' = slots st \<or> slots st' = [])"
proof (induction st h rule: rewind_state.induct)
  case (1 st h)
  show ?case
  proof (cases "h = handler st")
    case True
    then show ?thesis using 1(2) by (auto simp: rewind_state.simps [of st])
  next
    case False
    then obtain h1 st1 where b: "handler_back st = Some (h1, st1)"
      "rewind_state (st1\<lparr>handler := h1\<rparr>) h = Some (h', st')"
      using 1(2) by (auto simp: rewind_state.simps [of st] split: option.splits)
    have "modules st1 = modules st" "slots st1 = slots st \<or> slots st1 = []"
      using b(1) by (auto simp: handler_back_def state_slots_back_def state_slot_back_def
          state_session_back_def state_find_back_def state_results_back_def
          split: enum_handler.splits bind_splits)
    then show ?thesis using 1(1) [OF False b(1) refl b(2)] by auto
  qed
qed

lemma results_loop_keeps:
  "results_loop env handle k st = (need, st') \<Longrightarrow> handler st' = handler st \<and> modules st' = modules st \<and>
    slots st' = slots st"
proof (induction k arbitrary: st)
  case (Suc k)
  then show ?case by (auto simp: Let_def split: list.splits option.splits dest!: Suc.IH)
qed simp

lemma forward_decreases:
  assumes "handler_forward env st = Some (Some h, st')"
  shows "(st'\<lparr>handler := h\<rparr>, st) \<in>
    measures [\<lambda>st. length (modules st), \<lambda>st. length (slots st), \<lambda>st. rank (handler st)]"
proof (cases "handler st")
  case StateModules
  then show ?thesis using assms
    by (auto simp: handler_forward_def state_modules_def split: bind_splits list.splits)
next
  case StateSlots
  then show ?thesis using assms
    by (auto simp: handler_forward_def state_slots_def next_handler_def Let_def
        split: bind_splits list.splits option.splits if_splits dest: rewind_modules_slots)
next
  case StateSlot
  then show ?thesis using assms
    by (auto simp: handler_forward_def state_slot_def next_handler_def
        split: bind_splits option.splits dest: rewind_modules_slots)
next
  case StateSession
  then show ?thesis using assms
    by (auto simp: handler_forward_def state_session_def split: bind_splits)
next
  case StateFind
  then show ?thesis using assms
    by (auto simp: handler_forward_def state_find_def Let_def split: bind_splits if_splits)
next
  case StateResults
  then show ?thesis using assms
    by (auto simp: handler_forward_def state_results_def next_handler_def Let_def
        split: bind_splits option.splits if_splits prod.splits
        dest!: rewind_modules_slots results_loop_keeps)
qed

section \<open>Giving up\<close>

text \<open>\<open>cleanup_state\<close> frees an enumerator in any state; its assertions say that nothing is left over.\<close>

definition cleanup_state :: "'a enum_state \<Rightarrow> 'a enum_state option" where
  "cleanup_state st = do {
     (_, st) \<leftarrow> rewind_state st StateModules;
     c_assert (slots st = []);
     c_assert (cur_slot st = None);
     c_assert (cur_token st = None);
     c_assert (\<not> funcs st);
     c_assert (session st = None);
     Some (st\<lparr>found := None, results := None, modules := []\<rparr>) }"

section \<open>Running the enumerator\<close>

text \<open>The inner loop of \<open>perform_enumerate_next\<close>; the handler that returned \<open>NULL\<close> stays current.\<close>

function run_state :: "'a pkcs11 \<Rightarrow> 'a enum_state \<Rightarrow> 'a enum_state option" where
  "run_state env st = (case handler_forward env st of
      None \<Rightarrow> None
    | Some (None, st') \<Rightarrow> Some st'
    | Some (Some h, st') \<Rightarrow> run_state env (st'\<lparr>handler := h\<rparr>))"
  by pat_completeness auto
termination
proof (relation "inv_image (measures [\<lambda>st. length (modules st), \<lambda>st. length (slots st),
    \<lambda>st. rank (handler st)]) snd")
  show "wf (inv_image (measures [\<lambda>st. length (modules st), \<lambda>st. length (slots st),
    \<lambda>st. rank (handler st)]) snd)" by simp
qed (auto dest: forward_decreases)

declare run_state.simps [simp del]

text \<open>
  An enumerator and those that are chained to it are a list of states, the enumerator itself first.
\<close>

fun perform_loop :: "'a pkcs11 \<Rightarrow> nat \<Rightarrow> nat \<Rightarrow> 'a enum_state list \<Rightarrow> 'a enum_state list option" where
  "perform_loop env want count [] = Some []"
| "perform_loop env want count (st # sts) = do {
     st \<leftarrow> run_state env (st\<lparr>want_objects := want - count\<rparr>);
     let count = count + length (queue (results st));
     if count \<ge> want then Some (st # sts)
     else do {
       sts \<leftarrow> perform_loop env want count sts;
       Some (st # sts) } }"

text \<open>
  Calls of \<open>gck/gck-call.c\<close>: a function is performed unless the operation was cancelled before, in the same thread or in
  another one; when it is cancelled while an asynchronous call waits for its turn to complete, the result is an error as well.
  The functions of enumerators belong to no object, and have no function that completes them.
\<close>

definition CKR_OK :: u64 where "CKR_OK = 0"

definition CKR_FUNCTION_CANCELED :: u64 where "CKR_FUNCTION_CANCELED = 0x50"

definition perform_call :: "bool \<Rightarrow> ('s \<Rightarrow> (u64 \<times> 's) option) \<Rightarrow> 's \<Rightarrow> (u64 \<times> 's) option" where
  "perform_call cancelled func args = (if cancelled then Some (CKR_FUNCTION_CANCELED, args) else func args)"

definition gck_call_sync :: "bool \<Rightarrow> ('s \<Rightarrow> (u64 \<times> 's) option) \<Rightarrow> 's \<Rightarrow> (bool \<times> 's) option" where
  "gck_call_sync cancelled perform args = do {
     (rv, args) \<leftarrow> perform_call cancelled perform args;
     Some (rv = CKR_OK, args) }"

definition process_async_call :: "bool \<Rightarrow> ('s \<Rightarrow> (u64 \<times> 's) option) \<Rightarrow> 's \<Rightarrow> (u64 \<times> 's) option" where
  "process_async_call cancelled perform args = perform_call cancelled perform args"

definition process_result :: "bool \<Rightarrow> u64 \<Rightarrow> u64" where
  "process_result cancelled rv = (if cancelled then CKR_FUNCTION_CANCELED else rv)"

definition gck_call_basic_finish :: "u64 \<Rightarrow> bool" where
  "gck_call_basic_finish rv \<longleftrightarrow> rv = CKR_OK"

definition perform_enumerate_next ::
  "'a pkcs11 \<Rightarrow> nat \<Rightarrow> 'a enum_state list \<Rightarrow> (u64 \<times> 'a enum_state list) option" where
  "perform_enumerate_next env want sts = do { sts \<leftarrow> perform_loop env want 0 sts; Some (CKR_OK, sts) }"

fun extract_result :: "'a enum_state list \<Rightarrow> 'a gck_result option \<times> 'a enum_state list" where
  "extract_result [] = (None, [])"
| "extract_result (st # sts) = (case queue (results st) of
      r # rs \<Rightarrow> (Some r, st\<lparr>results := Some rs\<rparr> # sts)
    | [] \<Rightarrow> let (r, sts) = extract_result sts in (r, st # sts))"

text \<open>The second component is what is still wanted.\<close>

fun extract_results ::
  "'a enum_state list \<Rightarrow> nat \<Rightarrow> 'a gck_result list \<times> nat \<times> 'a enum_state list" where
  "extract_results sts 0 = ([], 0, sts)"
| "extract_results sts (Suc want) = (case extract_result sts of
      (None, sts) \<Rightarrow> ([], Suc want, sts)
    | (Some r, sts) \<Rightarrow>
        let (rs, want, sts) = extract_results sts want in (r # rs, want, sts))"

definition gck_enumerator_next ::
  "'a pkcs11 \<Rightarrow> bool \<Rightarrow> 'a enum_state list \<Rightarrow> ('a gck_result option \<times> 'a enum_state list) option" where
  "gck_enumerator_next env cancelled sts = (case extract_result sts of
      (Some r, sts) \<Rightarrow> Some (Some r, sts)
    | (None, sts) \<Rightarrow> do {
        (ok, sts) \<leftarrow> gck_call_sync cancelled (perform_enumerate_next env 1) sts;
        Some (if ok then extract_result sts else (None, sts)) })"

text \<open>\<open>G_MAXINT\<close> objects are wanted when the caller asks for \<open>-1\<close>.\<close>

definition int_max :: nat where
  "int_max = 2 ^ 31 - 1"

definition wanted :: "int \<Rightarrow> nat" where
  "wanted max_objects = (if max_objects \<le> 0 then int_max else nat max_objects)"

definition gck_enumerator_next_n ::
  "'a pkcs11 \<Rightarrow> bool \<Rightarrow> int \<Rightarrow> 'a enum_state list \<Rightarrow> ('a gck_result list \<times> 'a enum_state list) option" where
  "gck_enumerator_next_n env cancelled max_objects sts =
     (let (rs, want, sts) = extract_results sts (wanted max_objects)
      in if want > 0
         then do {
           (ok, sts) \<leftarrow> gck_call_sync cancelled (perform_enumerate_next env want) sts;
           if ok then (let (rs', _, sts) = extract_results sts want in Some (rs @ rs', sts))
           else Some (rs, sts) }
         else Some (rs, sts))"

text \<open>
  The asynchronous call does not look for results of a previous run before it starts. What it leaves are the return value
  and the state, which wait for \<open>gck_enumerator_next_finish\<close>.
\<close>

definition gck_enumerator_next_async ::
  "'a pkcs11 \<Rightarrow> bool \<Rightarrow> int \<Rightarrow> 'a enum_state list \<Rightarrow> (u64 \<times> 'a enum_state list) option" where
  "gck_enumerator_next_async env cancelled max_objects sts =
     process_async_call cancelled (perform_enumerate_next env (wanted max_objects)) sts"

definition gck_enumerator_next_finish ::
  "int \<Rightarrow> u64 \<times> 'a enum_state list \<Rightarrow> 'a gck_result list \<times> 'a enum_state list" where
  "gck_enumerator_next_finish max_objects result =
     (case result of (rv, sts) \<Rightarrow>
        if gck_call_basic_finish rv then (let (rs, _, sts) = extract_results sts (wanted max_objects) in (rs, sts))
        else ([], sts))"

section \<open>New enumerators\<close>

definition new_state :: "'a uri_match \<Rightarrow> bool \<Rightarrow> u64 list \<Rightarrow> enum_handler \<Rightarrow> 'a enum_state" where
  "new_state mt rw types h = \<lparr>want_objects = 0, handler = h, modules = [], match = mt, read_write = rw,
     default_types = types, slots = [], cur_slot = None, cur_token = None, funcs = False,
     session = None, found = None, results = None\<rparr>"

definition gck_enumerator_new_for_modules ::
  "nat list \<Rightarrow> bool \<Rightarrow> u64 list \<Rightarrow> 'a uri_match \<Rightarrow> 'a enum_state" where
  "gck_enumerator_new_for_modules ms rw types mt =
     (new_state mt rw types StateModules)\<lparr>modules := ms\<rparr>"

definition gck_enumerator_new_for_slots ::
  "nat list \<Rightarrow> bool \<Rightarrow> u64 list \<Rightarrow> 'a uri_match \<Rightarrow> 'a enum_state" where
  "gck_enumerator_new_for_slots ss rw types mt = (new_state mt rw types StateSlots)\<lparr>slots := ss\<rparr>"

definition gck_enumerator_new_for_session ::
  "'a pkcs11 \<Rightarrow> nat \<Rightarrow> nat \<Rightarrow> u64 list \<Rightarrow> 'a uri_match \<Rightarrow> 'a enum_state" where
  "gck_enumerator_new_for_session env slot handle types mt =
     (new_state mt False types StateSession)\<lparr>session := Some handle, cur_slot := Some slot,
        cur_token := slot_token env slot, funcs := True\<rparr>"

section \<open>What an enumerator still has to deliver\<close>

text \<open>
  The objects that a search comes upon, in their order; \<open>None\<close> is one whose attributes cannot be read.
\<close>

type_synonym 'a entries = "'a gck_result option list"

definition session_objects :: "'a pkcs11 \<Rightarrow> 'a enum_state \<Rightarrow> nat \<Rightarrow> 'a entries" where
  "session_objects env st handle =
     map (fetch env (default_types st) handle)
       (map (\<lambda>obj. \<lparr>obj_handle = obj, obj_session = handle, obj_attrs = None\<rparr>)
         (find_objects env handle (match_attributes (match st))))"

definition slot_objects :: "'a pkcs11 \<Rightarrow> 'a enum_state \<Rightarrow> nat \<Rightarrow> 'a entries" where
  "slot_objects env st s = (case open_session env s (read_write st) of
      None \<Rightarrow> []
    | Some handle \<Rightarrow> session_objects env st handle)"

definition matched_objects :: "'a pkcs11 \<Rightarrow> 'a enum_state \<Rightarrow> nat \<Rightarrow> 'a entries" where
  "matched_objects env st s = (case slot_token env s of
      None \<Rightarrow> []
    | Some info \<Rightarrow> if token_matched (match st) info then slot_objects env st s else [])"

definition slots_objects :: "'a pkcs11 \<Rightarrow> 'a enum_state \<Rightarrow> nat list \<Rightarrow> 'a entries" where
  "slots_objects env st ss = concat (map (matched_objects env st) ss)"

definition current_objects :: "'a pkcs11 \<Rightarrow> 'a enum_state \<Rightarrow> 'a entries" where
  "current_objects env st = (case handler st of
      StateSlot \<Rightarrow> (case cur_slot st of None \<Rightarrow> [] | Some s \<Rightarrow> slot_objects env st s)
    | StateSession \<Rightarrow> (case session st of None \<Rightarrow> [] | Some h \<Rightarrow> session_objects env st h)
    | StateFind \<Rightarrow> (case session st of None \<Rightarrow> [] | Some h \<Rightarrow> session_objects env st h)
    | StateResults \<Rightarrow> (case session st of None \<Rightarrow> []
        | Some h \<Rightarrow> map (fetch env (default_types st) h) (queue (found st)))
    | _ \<Rightarrow> [])"

definition unread :: "'a pkcs11 \<Rightarrow> 'a enum_state \<Rightarrow> 'a entries" where
  "unread env st = current_objects env st @ slots_objects env st (slots st) @
     slots_objects env st (concat (map (module_slots env) (modules st)))"

definition readable :: "'a entries \<Rightarrow> 'a gck_result list" where
  "readable es = List.map_filter (\<lambda>e. e) es"

definition remaining :: "'a pkcs11 \<Rightarrow> 'a enum_state \<Rightarrow> 'a gck_result list" where
  "remaining env st = queue (results st) @ readable (unread env st)"

lemma readable_simps [simp]:
  "readable [] = []" "readable (Some r # es) = r # readable es" "readable (None # es) = readable es"
  "readable (es @ es') = readable es @ readable es'" "readable (map f xs) = List.map_filter f xs"
  by (simp_all add: readable_def List.map_filter_def comp_def filter_map)

lemma readable_length: "length (readable es) \<le> length es"
  by (simp add: readable_def List.map_filter_def)

text \<open>The states that are reached: what each handler relies on.\<close>

definition enum_ok :: "'a enum_state \<Rightarrow> bool" where
  "enum_ok st \<longleftrightarrow>
     (handler st = StateModules \<longrightarrow> slots st = []) \<and>
     (handler st \<in> {StateModules, StateSlots} \<longrightarrow>
        cur_slot st = None \<and> session st = None \<and> cur_token st = None \<and> \<not> funcs st) \<and>
     (handler st = StateSlot \<longrightarrow> cur_slot st \<noteq> None \<and> funcs st \<and> session st = None \<and> cur_token st \<noteq> None) \<and>
     (handler st \<in> {StateSession, StateFind, StateResults} \<longrightarrow>
        cur_slot st \<noteq> None \<and> funcs st \<and> cur_token st \<noteq> None \<and>
        (\<exists>h. session st = Some h \<and> h \<noteq> 0)) \<and>
     (handler st = StateResults \<longrightarrow> found st \<noteq> None) \<and>
     (handler st \<noteq> StateResults \<longrightarrow> queue (found st) = [])"

text \<open>PKCS#11 session handles are not zero.\<close>

definition sessions_valid :: "'a pkcs11 \<Rightarrow> bool" where
  "sessions_valid env \<longleftrightarrow> (\<forall>s rw. open_session env s rw \<noteq> Some 0)"

section \<open>Every step keeps what remains\<close>

lemma map_filter_append [simp]: "List.map_filter f (xs @ ys) = List.map_filter f xs @ List.map_filter f ys"
  by (simp add: List.map_filter_def)

lemma results_loop_eq:
  "found st = Some fs \<Longrightarrow> results st = Some rs \<Longrightarrow>
    results_loop env handle k st = (length fs < k,
      st\<lparr>found := Some (drop k fs),
         results := Some (rs @ List.map_filter (fetch env (default_types st) handle) (take k fs))\<rparr>)"
proof (induction k arbitrary: st fs rs)
  case 0
  then show ?case by simp
next
  case (Suc k)
  show ?case
  proof (cases fs)
    case Nil
    then show ?thesis using Suc.prems by simp
  next
    case (Cons r fs')
    show ?thesis
    proof (cases "fetch env (default_types st) handle r")
      case None
      then show ?thesis
        using Suc.prems Cons Suc.IH [of "st\<lparr>found := Some fs'\<rparr>" fs' rs] by simp
    next
      case (Some r')
      then show ?thesis
        using Suc.prems Cons
          Suc.IH [of "st\<lparr>found := Some fs', results := Some (rs @ [r'])\<rparr>" fs' "rs @ [r']"] by simp
    qed
  qed
qed

definition slots_state :: "'a enum_state \<Rightarrow> 'a enum_state" where
  "slots_state st = st\<lparr>handler := StateSlots, session := None, cur_slot := None, funcs := False,
     cur_token := None\<rparr>"

lemma rewind_to_slots:
  assumes "handler st \<in> {StateSlot, StateSession, StateFind, StateResults}" "cur_slot st \<noteq> None"
    "funcs st" "handler st \<noteq> StateSlot \<Longrightarrow> session st \<noteq> None" "handler st = StateSlot \<Longrightarrow> session st = None"
    "cur_token st \<noteq> None" "handler st = StateResults \<Longrightarrow> found st \<noteq> None"
  shows "rewind_state st StateSlots = Some (StateSlots, slots_state st)"
proof -
  note unwind = rewind_state.simps handler_back_def state_slot_back_def state_session_back_def
    state_find_back_def state_results_back_def slots_state_def
  have slot: "rewind_state st StateSlots = Some (StateSlots, slots_state st)"
    if "handler st = StateSlot" "cur_slot st \<noteq> None" "funcs st" "session st = None" for st :: "'a enum_state"
    using that by (simp add: unwind)
  have ses: "rewind_state st StateSlots = Some (StateSlots, slots_state st)"
    if "handler st = StateSession" "cur_slot st \<noteq> None" "funcs st" "session st \<noteq> None" "cur_token st \<noteq> None"
    for st :: "'a enum_state"
    using that slot [of "st\<lparr>session := None, handler := StateSlot\<rparr>"]
    by (subst rewind_state.simps) (simp add: handler_back_def state_session_back_def slots_state_def)
  have find: "rewind_state st StateSlots = Some (StateSlots, slots_state st)"
    if "handler st = StateFind" "cur_slot st \<noteq> None" "funcs st" "session st \<noteq> None" "cur_token st \<noteq> None"
    for st :: "'a enum_state"
    using that ses [of "st\<lparr>handler := StateSession\<rparr>"]
    by (subst rewind_state.simps) (simp add: handler_back_def state_find_back_def slots_state_def)
  have res: "rewind_state st StateSlots = Some (StateSlots, slots_state st)"
    if "handler st = StateResults" "cur_slot st \<noteq> None" "funcs st" "session st \<noteq> None" "cur_token st \<noteq> None"
      "found st \<noteq> None"
    for st :: "'a enum_state"
    using that find [of "st\<lparr>handler := StateFind\<rparr>"]
    by (subst rewind_state.simps) (simp add: handler_back_def state_results_back_def slots_state_def)
  show ?thesis
    using assms slot ses find res by (cases "handler st") auto
qed

lemma rewind_to_modules:
  assumes "handler st = StateSlots" "cur_slot st = None"
  shows "rewind_state st StateModules = Some (StateModules, st\<lparr>slots := [], handler := StateModules\<rparr>)"
  using assms by (simp add: rewind_state.simps handler_back_def state_slots_back_def)

text \<open>The parts of the state that no handler changes.\<close>

definition same_config :: "'a enum_state \<Rightarrow> 'a enum_state \<Rightarrow> bool" where
  "same_config st st' \<longleftrightarrow> match st' = match st \<and> read_write st' = read_write st \<and>
     default_types st' = default_types st \<and> want_objects st' = want_objects st"

lemma objects_match:
  assumes "match st' = match st" "read_write st' = read_write st" "default_types st' = default_types st"
  shows "session_objects env st' = session_objects env st" "slot_objects env st' = slot_objects env st"
    "slots_objects env st' = slots_objects env st"
  using assms
  by (auto simp: session_objects_def slot_objects_def slots_objects_def matched_objects_def
      fun_eq_iff split: option.splits intro!: arg_cong [where f = concat])

lemma objects_config:
  assumes "same_config st st'"
  shows "session_objects env st' = session_objects env st" "slot_objects env st' = slot_objects env st"
    "slots_objects env st' = slots_objects env st"
  using objects_match [of st' st env] assms by (simp_all add: same_config_def)

text \<open>
  \<open>moves env t st st'\<close>: a step from \<open>st\<close> to \<open>st'\<close> that is right for the specification. It keeps the
  invariant, and takes the entries \<open>t\<close> off those that are unread; of these it puts the ones that could be read into the queue.
\<close>

definition moves :: "'a pkcs11 \<Rightarrow> 'a entries \<Rightarrow> 'a enum_state \<Rightarrow> 'a enum_state \<Rightarrow> bool" where
  "moves env t st st' \<longleftrightarrow> enum_ok st' \<and> same_config st st' \<and> unread env st = t @ unread env st' \<and>
     queue (results st') = queue (results st) @ readable t"

lemma moves_refl: "enum_ok st \<Longrightarrow> moves env [] st st"
  by (simp add: moves_def same_config_def)

lemma moves_trans: "moves env t st st1 \<Longrightarrow> moves env t' st1 st2 \<Longrightarrow> moves env (t @ t') st st2"
  unfolding moves_def same_config_def by simp

lemma moves_remaining: "moves env t st st' \<Longrightarrow> remaining env st' = remaining env st"
  by (simp add: moves_def remaining_def)

definition fetches :: "'a pkcs11 \<Rightarrow> u64 list \<Rightarrow> bool" where
  "fetches env types \<longleftrightarrow> (\<forall>handle r. fetch env types handle r \<noteq> None)"

text \<open>A run stops when nothing is unread or as many entries were taken as were wanted; no step before takes as many.\<close>

definition good_step :: "'a pkcs11 \<Rightarrow> 'a enum_state \<Rightarrow> 'a handled \<Rightarrow> bool" where
  "good_step env st r \<longleftrightarrow>
     (\<exists>t st'. r = Some (None, st') \<and> moves env t st st' \<and> (length t = want_objects st \<or> t = [] \<and> unread env st' = [])) \<or>
     (\<exists>t h st'. r = Some (Some h, st') \<and> moves env t st (st'\<lparr>handler := h\<rparr>) \<and> (t = [] \<or> length t < want_objects st))"

lemmas config_simps = same_config_def objects_config

lemma step_modules:
  assumes "enum_ok st" "handler st = StateModules"
  shows "good_step env st (state_modules env st)"
proof (cases "modules st")
  case Nil
  then have "unread env st = []" using assms by (simp add: enum_ok_def unread_def current_objects_def slots_objects_def)
  then show ?thesis using Nil assms moves_refl [OF assms(1), of env]
    by (auto simp: good_step_def state_modules_def enum_ok_def)
next
  case (Cons m ms)
  let ?st = "st\<lparr>modules := ms, slots := module_slots env m, handler := StateSlots\<rparr>"
  have "same_config st ?st" by (simp add: same_config_def)
  note config = objects_config [OF this]
  have "unread env ?st = unread env st"
    using assms Cons unfolding unread_def config
    by (simp add: current_objects_def enum_ok_def slots_objects_def)
  moreover have "enum_ok ?st" using assms by (simp add: enum_ok_def)
  ultimately have "moves env [] st ?st" by (simp add: moves_def same_config_def)
  then show ?thesis using assms Cons by (auto simp: good_step_def state_modules_def enum_ok_def)
qed

lemma slots_objects_simps [simp]:
  "slots_objects env st [] = []"
  "slots_objects env st (s # ss) = matched_objects env st s @ slots_objects env st ss"
  "slots_objects env st (ss @ ss') = slots_objects env st ss @ slots_objects env st ss'"
  by (simp_all add: slots_objects_def)

lemma good_next:
  assumes "r = Some (Some h, st')" "same_config st (st'\<lparr>handler := h\<rparr>)" "enum_ok (st'\<lparr>handler := h\<rparr>)"
    "queue (results st') = queue (results st)"
    "current_objects env (st'\<lparr>handler := h\<rparr>) @ slots_objects env st (slots st') @
       slots_objects env st (concat (map (module_slots env) (modules st'))) =
     current_objects env st @ slots_objects env st (slots st) @
       slots_objects env st (concat (map (module_slots env) (modules st)))"
  shows "good_step env st r"
proof -
  have "moves env [] st (st'\<lparr>handler := h\<rparr>)"
    using assms(2-5) by (simp add: moves_def unread_def objects_config [OF assms(2)])
  then show ?thesis using assms(1) by (auto simp: good_step_def)
qed

lemma step_slots:
  assumes ok: "enum_ok st" "handler st = StateSlots"
  shows "good_step env st (state_slots env st)"
proof (cases "slots st")
  case Nil
  show ?thesis
    by (rule good_next [where h = StateModules and st' = "st\<lparr>slots := [], handler := StateModules\<rparr>"])
      (use ok Nil rewind_to_modules [of st] in
        \<open>simp_all add: state_slots_def next_handler_def enum_ok_def same_config_def current_objects_def\<close>)
next
  case (Cons s ss)
  have free: "cur_slot st = None" "session st = None" "queue (found st) = []"
    using ok by (simp_all add: enum_ok_def)
  consider "slot_token env s = None"
    | info where "slot_token env s = Some info" "\<not> token_matched (match st) info"
    | info where "slot_token env s = Some info" "token_matched (match st) info"
    by (cases "slot_token env s") auto
  then show ?thesis
  proof cases
    case 1
    show ?thesis
      by (rule good_next [where h = StateSlots and st' = "st\<lparr>slots := ss\<rparr>"])
        (use ok Cons free 1 in \<open>simp_all add: state_slots_def enum_ok_def same_config_def current_objects_def
          matched_objects_def\<close>)
  next
    case 2
    show ?thesis
      by (rule good_next [where h = StateSlots and st' = "st\<lparr>slots := ss\<rparr>"])
        (use ok Cons free 2 in \<open>simp_all add: state_slots_def enum_ok_def same_config_def current_objects_def
          matched_objects_def\<close>)
  next
    case 3
    let ?st = "st\<lparr>slots := ss, funcs := True, cur_slot := Some s, cur_token := Some info\<rparr>"
    have "same_config st (?st\<lparr>handler := StateSlot\<rparr>)" by (simp add: same_config_def)
    note config = objects_config [OF this]
    show ?thesis
      by (rule good_next [where h = StateSlot and st' = ?st])
        (use ok Cons free 3 config in \<open>simp_all add: state_slots_def enum_ok_def same_config_def current_objects_def
          matched_objects_def\<close>)
  qed
qed

lemma step_slot:
  assumes ok: "enum_ok st" "handler st = StateSlot" and env: "sessions_valid env"
  shows "good_step env st (state_slot env st)"
proof -
  obtain s where s: "cur_slot st = Some s" "funcs st" "session st = None" "cur_token st \<noteq> None"
    "queue (found st) = []"
    using ok by (auto simp: enum_ok_def)
  show ?thesis
  proof (cases "open_session env s (read_write st)")
    case None
    show ?thesis
      by (rule good_next [where h = StateSlots and st' = "slots_state st"])
        (use ok s None rewind_to_slots [of st] in \<open>simp_all add: state_slot_def next_handler_def enum_ok_def
          same_config_def current_objects_def slots_state_def slot_objects_def\<close>)
  next
    case (Some handle)
    then have "handle \<noteq> 0" using env unfolding sessions_valid_def by metis
    moreover have "same_config st (st\<lparr>session := Some handle, handler := StateSession\<rparr>)"
      by (simp add: same_config_def)
    note config = objects_config [OF this]
    ultimately show ?thesis
      by (intro good_next [where h = StateSession and st' = "st\<lparr>session := Some handle\<rparr>"])
        (use ok s Some config in \<open>simp_all add: state_slot_def enum_ok_def same_config_def current_objects_def
          slot_objects_def\<close>)
  qed
qed

lemma step_session:
  assumes ok: "enum_ok st" "handler st = StateSession"
  shows "good_step env st (state_session env st)"
proof -
  have "same_config st (st\<lparr>handler := StateFind\<rparr>)" by (simp add: same_config_def)
  note config = objects_config [OF this]
  show ?thesis
    by (rule good_next [where h = StateFind and st' = st])
      (use ok config in \<open>auto simp: state_session_def enum_ok_def same_config_def current_objects_def\<close>)
qed

lemma step_find:
  fixes env :: "'a pkcs11"
  assumes ok: "enum_ok st" "handler st = StateFind" and want: "0 < want_objects st"
  shows "good_step env st (state_find env st)"
proof -
  obtain handle where h: "session st = Some handle" "handle \<noteq> 0" "funcs st" "queue (found st) = []"
    using ok by (auto simp: enum_ok_def)
  define new :: "'a gck_result list" where "new = map (\<lambda>obj. \<lparr>obj_handle = obj, obj_session = handle, obj_attrs = None\<rparr>)
    (find_objects env handle (match_attributes (match st)))"
  show ?thesis
    by (rule good_next [where h = StateResults and st' = "st\<lparr>found := Some new\<rparr>"])
      (use ok h want in \<open>simp_all add: state_find_def enum_ok_def same_config_def current_objects_def
        session_objects_def new_def\<close>)
qed

lemma fetches_all:
  assumes "fetches env types"
  shows "length (List.map_filter (fetch env types handle) xs) = length xs"
proof (induction xs)
  case (Cons r xs)
  moreover obtain r' where "fetch env types handle r = Some r'"
    using assms unfolding fetches_def by blast
  ultimately show ?case by simp
qed (simp add: List.map_filter_def)

lemma step_results:
  assumes ok: "enum_ok st" "handler st = StateResults"
  shows "good_step env st (state_results env st)"
proof -
  obtain handle fs where h: "session st = Some handle" "handle \<noteq> 0" "funcs st" "found st = Some fs"
    "cur_slot st \<noteq> None" "cur_token st \<noteq> None"
    using ok by (auto simp: enum_ok_def)
  define n where "n = want_objects st"
  let ?f = "fetch env (default_types st) handle"
  let ?t = "map ?f (take n fs)"
  let ?rs = "queue (results st) @ List.map_filter ?f (take n fs)"
  let ?st = "st\<lparr>found := Some (drop n fs), results := Some ?rs\<rparr>"
  have loop: "results_loop env handle n (st\<lparr>results := Some (queue (results st))\<rparr>) = (length fs < n, ?st)"
    using results_loop_eq [of "st\<lparr>results := Some (queue (results st))\<rparr>" fs] h(4) by simp
  have same: "same_config st ?st" "same_config st (slots_state ?st)"
    by (simp_all add: same_config_def slots_state_def)
  have rem: "unread env st = ?t @ unread env ?st"
    using ok h unfolding unread_def objects_config [OF same(1)]
    by (simp add: current_objects_def flip: map_append)
  have out: "state_results env st =
    (if length fs < n then next_handler (rewind_state ?st StateSlots) else Some (None, ?st))"
    using h loop by (simp add: state_results_def n_def)
  show ?thesis
  proof (cases "length fs < n")
    case True
    have unwound: "rewind_state ?st StateSlots = Some (StateSlots, slots_state ?st)"
      by (rule rewind_to_slots) (use ok h in simp_all)
    have "unread env ?st = unread env (slots_state ?st)"
      using True ok h
      unfolding unread_def objects_config [OF same(1)] objects_config [OF same(2)]
      by (simp add: current_objects_def slots_state_def)
    moreover have "enum_ok (slots_state ?st)" using True by (simp add: enum_ok_def slots_state_def)
    moreover have "(slots_state ?st)\<lparr>handler := StateSlots\<rparr> = slots_state ?st"
      by (simp add: slots_state_def)
    moreover have "queue (results (slots_state ?st)) = ?rs" by (simp add: slots_state_def)
    ultimately have "moves env ?t st ((slots_state ?st)\<lparr>handler := StateSlots\<rparr>)"
      using same(2) rem unfolding moves_def by auto
    moreover have "length ?t < want_objects st" using True by (simp add: n_def)
    ultimately show ?thesis unfolding good_step_def out using True unwound by (auto simp: next_handler_def)
  next
    case False
    have "enum_ok ?st" using ok by (simp add: enum_ok_def)
    then have "moves env ?t st ?st" using rem same(1) by (simp add: moves_def)
    moreover have "length ?t = want_objects st" using False by (simp add: n_def)
    ultimately show ?thesis unfolding good_step_def out using False by auto
  qed
qed

lemma step_good:
  assumes "enum_ok st" "sessions_valid env" "0 < want_objects st"
  shows "good_step env st (handler_forward env st)"
  using assms step_modules step_slots step_slot step_session step_find step_results
  by (cases "handler st") (simp_all add: handler_forward_def)

text \<open>
  Running an enumerator: it stops, and has taken as many entries as were wanted or all. When one is wanted, it takes one.
\<close>

lemma run_state_good:
  assumes "enum_ok st" "sessions_valid env" "0 < want_objects st"
  shows "\<exists>t st'. run_state env st = Some st' \<and> moves env t st st' \<and>
    (want_objects st \<le> length t \<or> unread env st' = []) \<and> (want_objects st = 1 \<longrightarrow> length t \<le> 1)"
  using assms
proof (induction env st rule: run_state.induct)
  case (1 env st)
  consider (stop) t st' where "handler_forward env st = Some (None, st')" "moves env t st st'"
      "length t = want_objects st \<or> t = [] \<and> unread env st' = []"
    | (on) t h st' where "handler_forward env st = Some (Some h, st')" "moves env t st (st'\<lparr>handler := h\<rparr>)"
      "t = [] \<or> length t < want_objects st"
    using step_good [OF 1(2-4)] unfolding good_step_def by blast
  then show ?case
  proof cases
    case stop
    have "run_state env st = Some st'" using stop(1) by (subst run_state.simps) simp
    then show ?thesis using stop(2,3) by fastforce
  next
    case (on t h st')
    note r = on(1) and m = on(2) and few = on(3)
    let ?st = "st'\<lparr>handler := h\<rparr>"
    have c: "enum_ok ?st" "same_config st ?st" using m by (auto simp: moves_def)
    then have want: "want_objects ?st = want_objects st" by (simp add: same_config_def)
    have "0 < want_objects ?st" using want 1(4) by simp
    from 1(1) [OF r refl refl c(1) 1(3) this] obtain t2 st2 where
      st2: "run_state env ?st = Some st2" "moves env t2 ?st st2" "want_objects st \<le> length t2 \<or> unread env st2 = []"
        "want_objects st = 1 \<longrightarrow> length t2 \<le> 1" unfolding want by blast
    have "want_objects st \<le> length (t @ t2) \<or> unread env st2 = []" using st2(3) by auto
    moreover have "want_objects st = 1 \<longrightarrow> length (t @ t2) \<le> 1" using st2(4) few by auto
    moreover have "run_state env st = Some st2" using r st2(1) by (subst run_state.simps) simp
    ultimately show ?thesis using moves_trans [OF m st2(2)] by blast
  qed
qed

section \<open>Chains of enumerators\<close>

definition all_results :: "'a enum_state list \<Rightarrow> 'a gck_result list" where
  "all_results sts = concat (map (\<lambda>st. queue (results st)) sts)"

definition chain_remaining :: "'a pkcs11 \<Rightarrow> 'a enum_state list \<Rightarrow> 'a gck_result list" where
  "chain_remaining env sts = concat (map (remaining env) sts)"

definition exhausted :: "'a pkcs11 \<Rightarrow> 'a enum_state \<Rightarrow> bool" where
  "exhausted env st \<longleftrightarrow> unread env st = []"

lemma unread_fetched:
  assumes "fetches env (default_types st)"
  shows "None \<notin> set (unread env st)"
proof -
  have f: "None \<noteq> fetch env (default_types st) h r" for h r using assms unfolding fetches_def by metis
  have o: "None \<notin> set (session_objects env st h)" for h using f by (auto simp: session_objects_def)
  then have l: "None \<notin> set (slot_objects env st s)" for s by (simp add: slot_objects_def split: option.split)
  then have "None \<notin> set (matched_objects env st s)" for s by (simp add: matched_objects_def split: option.split)
  then have "None \<notin> set (slots_objects env st ss)" for ss by (simp add: slots_objects_def)
  moreover have "None \<notin> set (current_objects env st)"
    using f o l by (auto simp: current_objects_def split: enum_handler.splits option.splits)
  ultimately show ?thesis by (simp add: unread_def)
qed

lemma readable_all: "None \<notin> set es \<Longrightarrow> length (readable es) = length es"
proof (induction es)
  case (Cons e es)
  then show ?case by (cases e) auto
qed simp

text \<open>An enumerator only has results waiting when those in front of it are done.\<close>

fun chain_ok :: "'a pkcs11 \<Rightarrow> 'a enum_state list \<Rightarrow> bool" where
  "chain_ok env [] = True"
| "chain_ok env (st # sts) = (enum_ok st \<and> fetches env (default_types st) \<and> chain_ok env sts \<and>
     (all_results sts = [] \<or> exhausted env st))"

lemma all_results_simps [simp]:
  "all_results [] = []" "all_results (st # sts) = queue (results st) @ all_results sts"
  by (simp_all add: all_results_def)

lemma chain_remaining_simps [simp]:
  "chain_remaining env [] = []" "chain_remaining env (st # sts) = remaining env st @ chain_remaining env sts"
  by (simp_all add: chain_remaining_def)

lemma unread_results [simp]: "unread env (st\<lparr>results := q\<rparr>) = unread env st"
  using objects_match [of "st\<lparr>results := q\<rparr>" st env]
  by (simp add: unread_def current_objects_def cong: enum_handler.case_cong option.case_cong)

lemma unread_want [simp]: "unread env (st\<lparr>want_objects := n\<rparr>) = unread env st"
  using objects_match [of "st\<lparr>want_objects := n\<rparr>" st env]
  by (simp add: unread_def current_objects_def cong: enum_handler.case_cong option.case_cong)

lemma enum_ok_results [simp]: "enum_ok (st\<lparr>results := q\<rparr>) = enum_ok st" "enum_ok (st\<lparr>want_objects := n\<rparr>) = enum_ok st"
  by (simp_all add: enum_ok_def)

lemma pop_state:
  assumes "queue (results st) = r # rs"
  shows "remaining env st = r # remaining env (st\<lparr>results := Some rs\<rparr>)"
    "enum_ok (st\<lparr>results := Some rs\<rparr>) \<longleftrightarrow> enum_ok st"
    "exhausted env (st\<lparr>results := Some rs\<rparr>) \<longleftrightarrow> exhausted env st"
  using assms by (simp_all add: remaining_def exhausted_def)

lemma extract_none: "all_results sts = [] \<Longrightarrow> extract_result sts = (None, sts)"
  by (induction sts) simp_all

lemma extract_some:
  "chain_ok env sts \<Longrightarrow> all_results sts = r # rs \<Longrightarrow> \<exists>sts'. extract_result sts = (Some r, sts') \<and>
    chain_ok env sts' \<and> all_results sts' = rs \<and> chain_remaining env sts = r # chain_remaining env sts'"
proof (induction sts)
  case (Cons st sts)
  show ?case
  proof (cases "queue (results st)")
    case Nil
    then have "all_results sts = r # rs" "exhausted env st" using Cons.prems by auto
    then show ?thesis using Cons Nil by (fastforce simp: exhausted_def remaining_def)
  next
    case (Cons x xs)
    then show ?thesis using Cons.prems pop_state(1,3) [OF Cons, of env] pop_state(2) [OF Cons] by auto
  qed
qed simp

lemma all_results_prefix: "chain_ok env sts \<Longrightarrow> \<exists>rest. chain_remaining env sts = all_results sts @ rest"
proof (induction sts)
  case (Cons st sts)
  have "\<exists>rest. remaining env st = queue (results st) @ rest" by (simp add: remaining_def)
  then show ?case using Cons by (auto simp: exhausted_def remaining_def)
qed simp

lemma extract_results_eq:
  "chain_ok env sts \<Longrightarrow> \<exists>sts'. extract_results sts n = (take n (all_results sts), n - length (all_results sts), sts') \<and>
    chain_ok env sts' \<and> all_results sts' = drop n (all_results sts) \<and>
    chain_remaining env sts = take n (all_results sts) @ chain_remaining env sts'"
proof (induction n arbitrary: sts)
  case (Suc n)
  show ?case
  proof (cases "all_results sts")
    case Nil
    then show ?thesis using Suc.prems by (simp add: extract_none)
  next
    case (Cons r rs)
    then obtain sts1 where s1: "extract_result sts = (Some r, sts1)" "chain_ok env sts1"
      "all_results sts1 = rs" "chain_remaining env sts = r # chain_remaining env sts1"
      using extract_some Suc.prems by blast
    then show ?thesis using Suc.IH [OF s1(2)] Cons by auto
  qed
qed simp

lemma moves_exhausted: "moves env t st st' \<Longrightarrow> exhausted env st \<Longrightarrow> exhausted env st'"
  by (auto simp: moves_def exhausted_def)

lemma perform_loop_good:
  "chain_ok env sts \<Longrightarrow> sessions_valid env \<Longrightarrow> count < want \<Longrightarrow>
    \<exists>sts'. perform_loop env want count sts = Some sts' \<and> chain_ok env sts' \<and>
      chain_remaining env sts' = chain_remaining env sts \<and>
      (want \<le> count + length (all_results sts') \<or> all_results sts' = chain_remaining env sts')"
proof (induction sts arbitrary: count)
  case (Cons st sts)
  let ?st = "st\<lparr>want_objects := want - count\<rparr>"
  have rem: "remaining env ?st = remaining env st" by (simp add: remaining_def)
  have ok: "enum_ok ?st" "0 < want_objects ?st" "fetches env (default_types ?st)"
    using Cons.prems by simp_all
  from run_state_good [OF ok(1) Cons.prems(2) ok(2)] obtain t st1 where
    st1: "run_state env ?st = Some st1" "moves env t ?st st1" "want - count \<le> length t \<or> unread env st1 = []" by auto
  have m: "enum_ok st1" "remaining env st1 = remaining env st" "fetches env (default_types st1)"
    using st1(2) moves_remaining [OF st1(2)] rem ok(3) by (auto simp: moves_def same_config_def)
  have keep: "exhausted env st1" if "exhausted env st"
    using moves_exhausted [OF st1(2)] that by (simp add: exhausted_def)
  have "None \<notin> set t" using unread_fetched [OF ok(3)] st1(2) by (auto simp: moves_def)
  then have t: "length (queue (results st1)) = length (queue (results st)) + length t"
    using readable_all [of t] st1(2) by (simp add: moves_def)
  let ?count = "count + length (queue (results st1))"
  show ?case
  proof (cases "want \<le> ?count")
    case True
    then show ?thesis using st1 m keep Cons.prems by auto
  next
    case False
    then have ex: "exhausted env st1"
      using st1(3) t by (auto simp: exhausted_def)
    obtain sts' where sts': "perform_loop env want ?count sts = Some sts'" "chain_ok env sts'"
      "chain_remaining env sts' = chain_remaining env sts"
      "want \<le> ?count + length (all_results sts') \<or> all_results sts' = chain_remaining env sts'"
      using Cons.IH [of ?count] Cons.prems False by auto
    then show ?thesis using st1 m ex False by (auto simp: exhausted_def remaining_def)
  qed
qed simp

lemma performed:
  "gck_call_sync False (perform_enumerate_next env want) sts = map_option (Pair True) (perform_loop env want 0 sts)"
  "gck_call_sync True (perform_enumerate_next env want) sts = Some (False, sts)"
  by (cases "perform_loop env want 0 sts"; simp add: gck_call_sync_def perform_call_def perform_enumerate_next_def CKR_OK_def
      CKR_FUNCTION_CANCELED_def)+

section \<open>A stream of objects\<close>

text \<open>
  What callers rely on: asking for the next object delivers the contents one by one and then ends.
\<close>

locale object_stream =
  fixes next_object :: "'s \<Rightarrow> ('o option \<times> 's) option"
    and content :: "'s \<Rightarrow> 'o list"
    and ok :: "'s \<Rightarrow> bool"
  assumes next_cons: "\<And>s x xs. ok s \<Longrightarrow> content s = x # xs \<Longrightarrow>
      \<exists>s'. next_object s = Some (Some x, s') \<and> ok s' \<and> content s' = xs"
    and next_nil: "\<And>s. ok s \<Longrightarrow> content s = [] \<Longrightarrow>
      \<exists>s'. next_object s = Some (None, s') \<and> ok s' \<and> content s' = []"

text \<open>A caller's loop: take objects until there are no more, or until the fuel is used up.\<close>

fun take_objects :: "('s \<Rightarrow> ('o option \<times> 's) option) \<Rightarrow> nat \<Rightarrow> 's \<Rightarrow> ('o list \<times> 's) option" where
  "take_objects nxt 0 s = Some ([], s)"
| "take_objects nxt (Suc k) s = do {
     (r, s) \<leftarrow> nxt s;
     case r of None \<Rightarrow> Some ([], s)
     | Some x \<Rightarrow> do { (xs, s) \<leftarrow> take_objects nxt k s; Some (x # xs, s) } }"

context object_stream
begin

lemma taken: "ok s \<Longrightarrow> \<exists>s'. take_objects next_object n s = Some (take n (content s), s') \<and> ok s' \<and>
    content s' = drop n (content s)"
proof (induction n arbitrary: s)
  case (Suc n)
  show ?case
  proof (cases "content s")
    case Nil
    then show ?thesis using next_nil [OF Suc.prems] by auto
  next
    case (Cons x xs)
    then obtain s1 where "next_object s = Some (Some x, s1)" "ok s1" "content s1 = xs"
      using next_cons [OF Suc.prems] by blast
    then show ?thesis using Suc.IH [of s1] Cons by auto
  qed
qed simp

lemma all_taken:
  assumes "ok s" "length (content s) \<le> n"
  shows "\<exists>s'. take_objects next_object n s = Some (content s, s') \<and> ok s' \<and> content s' = []"
  using taken [OF assms(1), of n] assms(2) by simp

end

definition stream_ok :: "'a pkcs11 \<Rightarrow> 'a enum_state list \<Rightarrow> bool" where
  "stream_ok env sts \<longleftrightarrow> chain_ok env sts \<and> sessions_valid env"

lemma next_eq:
  assumes "stream_ok env sts"
  shows "\<exists>sts'. gck_enumerator_next env False sts =
      Some (case chain_remaining env sts of [] \<Rightarrow> None | x # _ \<Rightarrow> Some x, sts') \<and> stream_ok env sts' \<and>
    chain_remaining env sts' = tl (chain_remaining env sts)"
proof (cases "all_results sts")
  case (Cons r rs)
  then show ?thesis
    using assms extract_some [of env sts r rs] by (auto simp: stream_ok_def gck_enumerator_next_def)
next
  case Nil
  obtain sts1 where s1: "perform_loop env 1 0 sts = Some sts1" "chain_ok env sts1"
    "chain_remaining env sts1 = chain_remaining env sts"
    "1 \<le> length (all_results sts1) \<or> all_results sts1 = chain_remaining env sts1"
    using perform_loop_good [of env sts 0 1] assms by (auto simp: stream_ok_def)
  have first: "gck_enumerator_next env False sts = Some (extract_result sts1)"
    using Nil s1(1) by (simp add: gck_enumerator_next_def extract_none performed)
  show ?thesis
  proof (cases "all_results sts1")
    case Nil
    then show ?thesis using first s1 assms by (simp add: extract_none stream_ok_def)
  next
    case (Cons r rs)
    then show ?thesis
      using extract_some [OF s1(2) Cons] first s1 assms by (auto simp: stream_ok_def)
  qed
qed

interpretation enumeration: object_stream "gck_enumerator_next env False" "chain_remaining env" "stream_ok env"
  for env
proof
  fix sts x xs assume "stream_ok env sts" "chain_remaining env sts = x # xs"
  then show "\<exists>sts'. gck_enumerator_next env False sts = Some (Some x, sts') \<and> stream_ok env sts' \<and>
      chain_remaining env sts' = xs"
    using next_eq [of env sts] by auto
next
  fix sts assume "stream_ok env sts" "chain_remaining env sts = []"
  then show "\<exists>sts'. gck_enumerator_next env False sts = Some (None, sts') \<and> stream_ok env sts' \<and>
      chain_remaining env sts' = []"
    using next_eq [of env sts] by auto
qed

section \<open>One call for an object\<close>

text \<open>
  What a call of \<open>gck_enumerator_next\<close> does, without handlers: of every enumerator, the objects that are ready and the entries
  that are unread. An object that is ready is delivered, the first one of the chain. Otherwise one entry after the
  other is read, one of every enumerator at most, until one can be read, and that is delivered.
\<close>

type_synonym 'a entry_state = "'a gck_result list \<times> 'a entries"

fun pop_ready :: "'a entry_state list \<Rightarrow> 'a gck_result option \<times> 'a entry_state list" where
  "pop_ready [] = (None, [])"
| "pop_ready ((r # rs, es) # ps) = (Some r, (rs, es) # ps)"
| "pop_ready (([], es) # ps) = (let (r, ps) = pop_ready ps in (r, ([], es) # ps))"

fun read_entries :: "'a entry_state list \<Rightarrow> 'a entry_state list" where
  "read_entries [] = []"
| "read_entries ((rs, []) # ps) = (rs, []) # read_entries ps"
| "read_entries ((rs, None # es) # ps) = (rs, es) # read_entries ps"
| "read_entries ((rs, Some r # es) # ps) = (rs @ [r], es) # ps"

definition next_entry :: "bool \<Rightarrow> 'a entry_state list \<Rightarrow> 'a gck_result option \<times> 'a entry_state list" where
  "next_entry cancelled ps = (case pop_ready ps of
      (Some r, ps) \<Rightarrow> (Some r, ps)
    | (None, ps) \<Rightarrow> if cancelled then (None, ps) else pop_ready (read_entries ps))"

definition entry_state :: "'a pkcs11 \<Rightarrow> 'a enum_state \<Rightarrow> 'a entry_state" where
  "entry_state env st = (queue (results st), unread env st)"

lemma extract_pops:
  "list_all enum_ok sts \<Longrightarrow> \<exists>r sts'. extract_result sts = (r, sts') \<and> list_all enum_ok sts' \<and>
    pop_ready (map (entry_state env) sts) = (r, map (entry_state env) sts')"
proof (induction sts)
  case (Cons st sts)
  then show ?case by (cases "queue (results st)") (auto simp: entry_state_def)
qed simp

lemma pop_ready_None: "pop_ready ps = (None, ps') \<Longrightarrow> ps' = ps \<and> (\<forall>p \<in> set ps. fst p = [])"
  by (induction ps arbitrary: ps' rule: pop_ready.induct) (auto split: prod.splits)

lemma perform_reads:
  assumes "sessions_valid env"
  shows "list_all enum_ok sts \<Longrightarrow> \<forall>st \<in> set sts. queue (results st) = [] \<Longrightarrow> \<exists>sts'. perform_loop env 1 0 sts = Some sts' \<and>
    list_all enum_ok sts' \<and> map (entry_state env) sts' = read_entries (map (entry_state env) sts)"
proof (induction sts)
  case (Cons st sts)
  let ?st = "st\<lparr>want_objects := 1\<rparr>"
  have "enum_ok ?st" "0 < want_objects ?st" using Cons.prems by simp_all
  from run_state_good [OF this(1) assms this(2)] obtain t st1 where
    st1: "run_state env ?st = Some st1" "moves env t ?st st1" "1 \<le> length t \<or> unread env st1 = []" "length t \<le> 1" by auto
  have u: "unread env st = t @ unread env st1" "queue (results st1) = readable t" "enum_ok st1"
    using st1(2) Cons.prems(2) by (simp_all add: moves_def)
  obtain sts' where sts': "perform_loop env 1 0 sts = Some sts'" "list_all enum_ok sts'"
      "map (entry_state env) sts' = read_entries (map (entry_state env) sts)" using Cons by auto
  have entry: "entry_state env st = ([], unread env st)" "entry_state env st1 = (readable t, unread env st1)"
    using u Cons.prems(2) by (simp_all add: entry_state_def)
  consider "t = []" | "t = [None]" | r where "t = [Some r]"
    using st1(4) by (cases t; cases "hd t") auto
  then show ?case
  proof cases
    case 1
    then show ?thesis using st1 u sts' Cons.prems entry by simp
  next
    case 2
    then show ?thesis using st1 u sts' Cons.prems entry by simp
  next
    case (3 r)
    then show ?thesis using st1 u Cons.prems entry by simp
  qed
qed simp

section \<open>Properties of the enumerator\<close>

text \<open>
  C18. The enumerator is a stream: whatever state a chain of enumerators is in, \<open>gck_enumerator_next\<close> fails no assertion,
  ends, and delivers what \<open>next_entry\<close> says: an object that is ready, or else the next one that the search comes upon. An object whose
  attributes cannot be read is passed over, and then the call goes on with the next enumerator of the chain, or
  returns \<open>NULL\<close> although more objects follow. A call that was cancelled reads nothing and loses nothing. When
  the attributes of all objects can be read, calls that are not cancelled deliver the objects that remain one by one, in
  their order, and return \<open>NULL\<close> only when there are none.
\<close>

theorem enumerator_next_delivers:
  assumes "list_all enum_ok sts" "sessions_valid env"
  shows "\<exists>r sts'. gck_enumerator_next env cancelled sts = Some (r, sts') \<and> list_all enum_ok sts' \<and>
      (r, map (entry_state env) sts') = next_entry cancelled (map (entry_state env) sts) \<and>
      (chain_ok env sts \<and> \<not> cancelled \<longrightarrow> chain_ok env sts' \<and>
        chain_remaining env sts = (case r of None \<Rightarrow> [] | Some x \<Rightarrow> [x]) @ chain_remaining env sts' \<and>
        (r = None \<longrightarrow> chain_remaining env sts' = []))"
proof -
  have stream: "chain_ok env sts' \<and> chain_remaining env sts = (case r of None \<Rightarrow> [] | Some x \<Rightarrow> [x]) @ chain_remaining env sts' \<and>
      (r = None \<longrightarrow> chain_remaining env sts' = [])"
    if "gck_enumerator_next env cancelled sts = Some (r, sts')" "chain_ok env sts \<and> \<not> cancelled" for r sts'
    using next_eq [of env sts] that assms(2) by (cases "chain_remaining env sts") (auto simp: stream_ok_def)
  obtain r sts1 where r: "extract_result sts = (r, sts1)" "list_all enum_ok sts1"
      "pop_ready (map (entry_state env) sts) = (r, map (entry_state env) sts1)"
    using extract_pops [OF assms(1), of env] by blast
  have "\<exists>r sts'. gck_enumerator_next env cancelled sts = Some (r, sts') \<and> list_all enum_ok sts' \<and>
      (r, map (entry_state env) sts') = next_entry cancelled (map (entry_state env) sts)"
  proof (cases r)
    case (Some x)
    then show ?thesis using r by (simp add: gck_enumerator_next_def next_entry_def)
  next
    case None
    note none = pop_ready_None [OF r(3) [unfolded None]]
    show ?thesis
    proof (cases cancelled)
      case True
      then show ?thesis using r None by (simp add: gck_enumerator_next_def next_entry_def performed)
    next
      case False
      have "\<forall>p \<in> set (map (entry_state env) sts1). fst p = []" using none by simp
      then have "\<forall>st \<in> set sts1. queue (results st) = []" by (simp add: entry_state_def)
      from perform_reads [OF assms(2) r(2) this] obtain sts2 where sts2: "perform_loop env 1 0 sts1 = Some sts2"
          "list_all enum_ok sts2" "map (entry_state env) sts2 = read_entries (map (entry_state env) sts1)" by blast
      obtain r' sts3 where "extract_result sts2 = (r', sts3)" "list_all enum_ok sts3"
          "pop_ready (map (entry_state env) sts2) = (r', map (entry_state env) sts3)"
        using extract_pops [OF sts2(2), of env] by blast
      then show ?thesis using r None False sts2 by (simp add: gck_enumerator_next_def next_entry_def performed)
    qed
  qed
  then show ?thesis using stream by fast
qed

text \<open>
  Which tokens a search is about: every field that the URI names has that value in the token, and
  nothing in the URI is unknown.
\<close>

definition token_wanted :: "'a uri_match \<Rightarrow> token_info \<Rightarrow> bool" where
  "token_wanted mt info \<longleftrightarrow> \<not> any_unrecognized mt \<and>
     (\<forall>t x. match_token mt = Some t \<longrightarrow>
       (token_label t = Some x \<longrightarrow> token_label info = Some x) \<and>
       (token_manufacturer t = Some x \<longrightarrow> token_manufacturer info = Some x) \<and>
       (token_model t = Some x \<longrightarrow> token_model info = Some x) \<and>
       (token_serial t = Some x \<longrightarrow> token_serial info = Some x))"

lemma match_info_string_iff: "match_info_string m str \<longleftrightarrow> (\<forall>x. m = Some x \<longrightarrow> str = Some x)"
  by (auto simp: match_info_string_def split: option.splits)

lemma token_matched_iff: "token_matched mt info \<longleftrightarrow> token_wanted mt info"
  by (auto simp: token_matched_def token_wanted_def gck_token_info_match_def match_info_string_iff
      split: option.splits)

text \<open>What a search over modules comes upon, written out, and the objects of it that can be read.\<close>

definition expected_entries ::
  "'a pkcs11 \<Rightarrow> nat list \<Rightarrow> bool \<Rightarrow> u64 list \<Rightarrow> 'a uri_match \<Rightarrow> 'a entries" where
  "expected_entries env ms rw types mt = concat (map (\<lambda>s.
     case slot_token env s of None \<Rightarrow> []
     | Some info \<Rightarrow> if \<not> token_wanted mt info then []
         else (case open_session env s rw of None \<Rightarrow> []
           | Some h \<Rightarrow> map (fetch env types h)
               (map (\<lambda>obj. \<lparr>obj_handle = obj, obj_session = h, obj_attrs = None\<rparr>)
                 (find_objects env h (match_attributes mt)))))
     (concat (map (module_slots env) ms)))"

definition expected_objects ::
  "'a pkcs11 \<Rightarrow> nat list \<Rightarrow> bool \<Rightarrow> u64 list \<Rightarrow> 'a uri_match \<Rightarrow> 'a gck_result list" where
  "expected_objects env ms rw types mt = readable (expected_entries env ms rw types mt)"

lemma modules_unread:
  "unread env (gck_enumerator_new_for_modules ms rw types mt) = expected_entries env ms rw types mt"
  by (auto simp: unread_def current_objects_def gck_enumerator_new_for_modules_def new_state_def
      expected_entries_def slots_objects_def matched_objects_def slot_objects_def session_objects_def
      token_matched_iff split: option.splits intro!: arg_cong [where f = concat])

lemma new_modules:
  "enum_ok (gck_enumerator_new_for_modules ms rw types mt)" "queue (results (gck_enumerator_new_for_modules ms rw types mt)) = []"
  "default_types (gck_enumerator_new_for_modules ms rw types mt) = types"
  by (simp_all add: enum_ok_def gck_enumerator_new_for_modules_def new_state_def)

lemma modules_remaining:
  "remaining env (gck_enumerator_new_for_modules ms rw types mt) = expected_objects env ms rw types mt"
  by (simp add: remaining_def modules_unread expected_objects_def new_modules)

lemma modules_stream:
  "sessions_valid env \<Longrightarrow> fetches env types \<Longrightarrow> stream_ok env [gck_enumerator_new_for_modules ms rw types mt]"
  by (simp add: stream_ok_def new_modules)

text \<open>Asking for more than there is.\<close>

lemma perform_all:
  assumes "enum_ok st" "sessions_valid env" "0 < want" "length (unread env st) \<le> want"
  shows "\<exists>st'. perform_loop env want 0 [st] = Some [st'] \<and> enum_ok st' \<and> unread env st' = [] \<and>
    queue (results st') = queue (results st) @ readable (unread env st)"
proof -
  let ?st = "st\<lparr>want_objects := want\<rparr>"
  obtain t st' where r: "run_state env ?st = Some st'" "moves env t ?st st'" "want \<le> length t \<or> unread env st' = []"
    using run_state_good [of ?st env] assms by auto
  have u: "unread env st = t @ unread env st'" using r(2) by (simp add: moves_def)
  then have "unread env st' = []" using r(3) assms(4) by (cases "unread env st'") auto
  then show ?thesis using r u by (auto simp: moves_def Let_def)
qed

lemma extract_all:
  "length (queue (results st)) \<le> n \<Longrightarrow> \<exists>q. extract_results [st] n =
    (queue (results st), n - length (queue (results st)), [st\<lparr>results := q\<rparr>]) \<and> queue q = []"
proof (induction n arbitrary: st)
  case (Suc n)
  show ?case
  proof (cases "queue (results st)")
    case Nil
    then show ?thesis by (intro exI [of _ "results st"]) simp
  next
    case (Cons r rs)
    then show ?thesis using Suc.IH [of "st\<lparr>results := Some rs\<rparr>"] Suc.prems by auto
  qed
next
  case 0
  have "st = st\<lparr>results := results st\<rparr>" by simp
  then show ?case using 0 by (intro exI [of _ "results st"]) simp
qed

lemma next_n_all:
  assumes "enum_ok st" "sessions_valid env" "length (queue (results st)) + length (unread env st) \<le> int_max"
  shows "\<exists>sts'. gck_enumerator_next_n env False (-1) [st] = Some (queue (results st) @ readable (unread env st), sts')"
proof -
  let ?n = "length (queue (results st))"
  obtain q where q: "extract_results [st] int_max = (queue (results st), int_max - ?n, [st\<lparr>results := q\<rparr>])" "queue q = []"
    using extract_all [of st int_max] assms(3) by auto
  have w: "wanted (-1) = int_max" by (simp add: wanted_def)
  show ?thesis
  proof (cases "int_max - ?n = 0")
    case True
    then have "unread env st = []" using assms(3) by (cases "unread env st") auto
    then show ?thesis using q True by (simp add: gck_enumerator_next_n_def w)
  next
    case False
    let ?st = "st\<lparr>results := q\<rparr>"
    have "enum_ok ?st" "0 < int_max - ?n" "length (unread env ?st) \<le> int_max - ?n" using assms False by simp_all
    from perform_all [OF this(1) assms(2) this(2,3)]
    obtain st1 where st1: "perform_loop env (int_max - ?n) 0 [?st] = Some [st1]" "queue (results st1) = readable (unread env st)"
      unfolding unread_results using q(2) by auto
    have "length (queue (results st1)) \<le> int_max - ?n" using st1(2) readable_length [of "unread env st"] assms(3) by simp
    from extract_all [OF this] show ?thesis
      using q(1) False st1 by (auto simp: gck_enumerator_next_n_def w performed)
  qed
qed

text \<open>
  C19. The search is complete: over a list of modules, asking for everything at once delivers precisely those of the matching
  objects of the matching tokens whose attributes can be read, each once, in the order of the modules and their slots; so does the
  asynchronous call. Asking for the objects one by one until \<open>NULL\<close> delivers the same when the attributes of all objects can be read.
  A search that is cancelled before it starts has no effect, and when an asynchronous one is cancelled before it is finished, the next call
  delivers all objects.
\<close>

theorem enumerate_modules_complete:
  assumes "sessions_valid env" "length (expected_entries env ms rw types mt) \<le> int_max"
  shows "(\<exists>sts'. gck_enumerator_next_n env False (-1) [gck_enumerator_new_for_modules ms rw types mt] =
      Some (expected_objects env ms rw types mt, sts')) \<and>
    gck_enumerator_next_n env True (-1) [gck_enumerator_new_for_modules ms rw types mt] =
      Some ([], [gck_enumerator_new_for_modules ms rw types mt]) \<and>
    (\<exists>rv sts1. gck_enumerator_next_async env False (-1) [gck_enumerator_new_for_modules ms rw types mt] = Some (rv, sts1) \<and>
      (\<exists>sts'. gck_enumerator_next_finish (-1) (process_result False rv, sts1) = (expected_objects env ms rw types mt, sts')) \<and>
      gck_enumerator_next_finish (-1) (process_result True rv, sts1) = ([], sts1) \<and>
      (\<exists>sts'. gck_enumerator_next_n env False (-1) sts1 = Some (expected_objects env ms rw types mt, sts'))) \<and>
    (fetches env types \<longrightarrow> (\<exists>sts'. take_objects (gck_enumerator_next env False) int_max [gck_enumerator_new_for_modules ms rw types mt] =
      Some (expected_objects env ms rw types mt, sts')))"
proof -
  define st where "st = gck_enumerator_new_for_modules ms rw types mt"
  let ?all = "expected_objects env ms rw types mt"
  have ok: "enum_ok st" "queue (results st) = []" by (simp_all add: st_def new_modules)
  have un: "unread env st = expected_entries env ms rw types mt" by (simp add: st_def modules_unread)
  have all: "readable (unread env st) = ?all" by (simp add: un expected_objects_def)
  have w: "wanted (-1) = int_max" "0 < int_max" by (simp_all add: wanted_def int_max_def)
  have len: "length ?all \<le> int_max" using readable_length [of "unread env st"] assms(2) unfolding all by (simp add: un)
  have "\<exists>sts'. gck_enumerator_next_n env False (-1) [st] = Some (?all, sts')"
    using next_n_all [OF ok(1) assms(1)] assms(2) by (simp add: ok(2) un flip: all)
  moreover have "gck_enumerator_next_n env True (-1) [st] = Some ([], [st])"
  proof -
    obtain k where k: "int_max = Suc k" using w(2) gr0_conv_Suc by blast
    have "extract_results [st] int_max = ([], int_max, [st])" using ok(2) unfolding k by simp
    then show ?thesis using w by (simp add: gck_enumerator_next_n_def performed)
  qed
  moreover have "\<exists>rv sts1. gck_enumerator_next_async env False (-1) [st] = Some (rv, sts1) \<and>
      (\<exists>sts'. gck_enumerator_next_finish (-1) (process_result False rv, sts1) = (?all, sts')) \<and>
      gck_enumerator_next_finish (-1) (process_result True rv, sts1) = ([], sts1) \<and>
      (\<exists>sts'. gck_enumerator_next_n env False (-1) sts1 = Some (?all, sts'))"
  proof -
    obtain st1 where st1: "perform_loop env int_max 0 [st] = Some [st1]" "enum_ok st1" "unread env st1 = []"
        "queue (results st1) = ?all"
      using perform_all [OF ok(1) assms(1) w(2)] assms(2) by (auto simp: ok(2) un expected_objects_def)
    have "gck_enumerator_next_async env False (-1) [st] = Some (CKR_OK, [st1])"
      using st1(1) by (simp add: gck_enumerator_next_async_def process_async_call_def perform_call_def perform_enumerate_next_def w)
    moreover have "\<exists>sts'. gck_enumerator_next_finish (-1) (CKR_OK, [st1]) = (?all, sts')"
      using extract_all [of st1 int_max] st1(4) len by (auto simp: gck_enumerator_next_finish_def gck_call_basic_finish_def w)
    moreover have "gck_enumerator_next_finish (-1) (CKR_FUNCTION_CANCELED, [st1]) = ([], [st1])"
      by (simp add: gck_enumerator_next_finish_def gck_call_basic_finish_def CKR_OK_def CKR_FUNCTION_CANCELED_def)
    moreover have "\<exists>sts'. gck_enumerator_next_n env False (-1) [st1] = Some (?all, sts')"
      using next_n_all [OF st1(2) assms(1)] st1(3,4) len by simp
    ultimately show ?thesis by (auto simp: process_result_def)
  qed
  moreover have "fetches env types \<Longrightarrow> \<exists>sts'. take_objects (gck_enumerator_next env False) int_max [st] = Some (?all, sts')"
    using enumeration.all_taken [OF modules_stream [OF assms(1), of types ms rw mt], of int_max] len
    by (auto simp: modules_remaining st_def)
  ultimately show ?thesis unfolding st_def by blast
qed

definition demo_modules :: "nat pkcs11" where
  "demo_modules = \<lparr>module_slots = (\<lambda>m. if m = 1 then [10, 11] else [20]),
     slot_token = (\<lambda>s. if s = 11 then None else Some \<lparr>token_label = Some ''t'', token_manufacturer = None,
       token_model = None, token_serial = None\<rparr>),
     open_session = (\<lambda>s rw. Some (s + 100)), search_init = (\<lambda>h a. True),
     search_answers = (\<lambda>h a. [(True, [h * 10, h * 10 + 1]), (True, [])]),
     object_values = (\<lambda>h obj types. Some obj)\<rparr>"

definition match_all :: "'a uri_match" where
  "match_all = \<lparr>any_unrecognized = False, match_token = None, match_attributes = None\<rparr>"

lemma demo_modules_ok: "sessions_valid demo_modules" "fetches demo_modules types"
  by (auto simp: sessions_valid_def fetches_def fetch_def demo_modules_def)

theorem enumerator_next_delivers_witness:
  "\<exists>r sts'. gck_enumerator_next demo_modules False [gck_enumerator_new_for_modules [1] False [] match_all] =
    Some (Some r, sts') \<and> obj_handle r = 1100"
proof -
  have all: "unread demo_modules (gck_enumerator_new_for_modules [1] False [] match_all) =
    [Some \<lparr>obj_handle = 1100, obj_session = 110, obj_attrs = None\<rparr>,
     Some \<lparr>obj_handle = 1101, obj_session = 110, obj_attrs = None\<rparr>]"
    unfolding modules_unread
    by (simp add: expected_entries_def token_wanted_def demo_modules_def match_all_def token_matched_def find_objects_def
        fetch_def)
  have "list_all enum_ok [gck_enumerator_new_for_modules [1] False [] match_all]" by (simp add: new_modules)
  from enumerator_next_delivers [OF this demo_modules_ok(1), of False]
  obtain r sts' where "gck_enumerator_next demo_modules False [gck_enumerator_new_for_modules [1] False [] match_all] = Some (r, sts')"
    "(r, map (entry_state demo_modules) sts') = next_entry False (map (entry_state demo_modules) [gck_enumerator_new_for_modules [1] False [] match_all])"
    by blast
  then show ?thesis unfolding list.map entry_state_def all new_modules by (auto simp: next_entry_def)
qed

theorem enumerate_modules_complete_witness:
  "map obj_handle (expected_objects demo_modules [1, 2] False [3] match_all) = [1100, 1101, 1200, 1201] \<and>
    (\<exists>sts'. gck_enumerator_next_n demo_modules False (-1)
        [gck_enumerator_new_for_modules [1, 2] False [3] match_all] =
      Some (expected_objects demo_modules [1, 2] False [3] match_all, sts'))"
proof -
  have "expected_entries demo_modules [1, 2] False [3] match_all =
    [Some \<lparr>obj_handle = 1100, obj_session = 110, obj_attrs = Some 1100\<rparr>,
     Some \<lparr>obj_handle = 1101, obj_session = 110, obj_attrs = Some 1101\<rparr>,
     Some \<lparr>obj_handle = 1200, obj_session = 120, obj_attrs = Some 1200\<rparr>,
     Some \<lparr>obj_handle = 1201, obj_session = 120, obj_attrs = Some 1201\<rparr>]"
    by (simp add: expected_entries_def token_wanted_def demo_modules_def match_all_def token_matched_def find_objects_def
        fetch_def)
  then show ?thesis
    using enumerate_modules_complete [OF demo_modules_ok(1), of "[1, 2]" False "[3]" match_all]
    by (simp add: int_max_def expected_objects_def)
qed

text \<open>
  An object whose attributes cannot be read ends the listing early: \<open>state_results\<close> counts it as
  one of the objects that are wanted, so \<open>gck_enumerator_next\<close> returns \<open>NULL\<close> although the objects
  behind it are still to be delivered.
\<close>

theorem enumerator_next_misses:
  assumes "handler st = StateResults" "funcs st" "session st = Some h" "h \<noteq> 0"
    and "found st = Some (r # rs)" "queue (results st) = []"
    and "default_types st \<noteq> []" "object_values env h (obj_handle r) (default_types st) = None"
  shows "\<exists>st'. gck_enumerator_next env False [st] = Some (None, [st']) \<and>
    found st' = Some rs \<and> chain_remaining env [st'] = chain_remaining env [st]"
proof -
  let ?st = "st\<lparr>want_objects := 1, found := Some rs, results := Some []\<rparr>"
  have f: "fetch env (default_types st) h r = None" using assms(7,8) by (simp add: fetch_def)
  have "run_state env (st\<lparr>want_objects := 1\<rparr>) = Some ?st"
    using assms f
    by (subst run_state.simps) (simp add: handler_forward_def state_results_def One_nat_def numeral_eq_Suc)
  then have "gck_enumerator_next env False [st] = Some (None, [?st])"
    using assms(6) by (simp add: gck_enumerator_next_def performed)
  moreover have "remaining env ?st = remaining env st"
    using assms f objects_match [of ?st st env] by (simp add: remaining_def unread_def current_objects_def)
  ultimately show ?thesis by (intro exI [of _ ?st]) simp
qed

theorem enumerator_next_misses_witness:
  "\<exists>st'. gck_enumerator_next (demo_modules\<lparr>object_values := (\<lambda>h obj types. if obj = 5 then None else Some obj)\<rparr>) False
      [(gck_enumerator_new_for_session demo_modules 10 7 [3] match_all)\<lparr>handler := StateResults,
        found := Some [\<lparr>obj_handle = 5, obj_session = 7, obj_attrs = None\<rparr>,
          \<lparr>obj_handle = 6, obj_session = 7, obj_attrs = None\<rparr>]\<rparr>] = Some (None, [st']) \<and>
    found st' = Some [\<lparr>obj_handle = 6, obj_session = 7, obj_attrs = None\<rparr>]"
  using enumerator_next_misses [where
      env = "demo_modules\<lparr>object_values := (\<lambda>h obj types. if obj = 5 then None else Some obj)\<rparr>"
      and h = 7 and r = "\<lparr>obj_handle = 5, obj_session = 7, obj_attrs = None\<rparr>"
      and rs = "[\<lparr>obj_handle = 6, obj_session = 7, obj_attrs = None\<rparr>]"
      and st = "(gck_enumerator_new_for_session demo_modules 10 7 [3] match_all)\<lparr>handler := StateResults,
        found := Some [\<lparr>obj_handle = 5, obj_session = 7, obj_attrs = None\<rparr>,
          \<lparr>obj_handle = 6, obj_session = 7, obj_attrs = None\<rparr>]\<rparr>"]
  by (auto simp: gck_enumerator_new_for_session_def new_state_def)

section \<open>Dropping an enumerator\<close>

lemma rewind_via_slots:
  "rewind_state st h = Some (h', st') \<Longrightarrow> h = StateSlots \<Longrightarrow> handler st \<noteq> StateModules \<Longrightarrow>
    rewind_state st StateModules = rewind_state st' StateModules"
proof (induction st h rule: rewind_state.induct)
  case (1 st h)
  show ?case
  proof (cases "handler st = StateSlots")
    case True
    then show ?thesis using 1(2,3) by (simp add: rewind_state.simps [of st StateSlots])
  next
    case False
    then obtain h1 st1 where b: "handler_back st = Some (h1, st1)"
      "rewind_state (st1\<lparr>handler := h1\<rparr>) h = Some (h', st')"
      using 1(2,3) by (auto simp: rewind_state.simps [of st] split: option.splits)
    have "h1 \<noteq> StateModules"
      using b(1) False by (auto simp: handler_back_def state_slot_back_def state_session_back_def
          state_find_back_def state_results_back_def split: enum_handler.splits bind_splits)
    then show ?thesis
      using 1(1) [OF _ b(1) refl b(2) 1(3)] b(1) False 1(3,4)
      by (simp add: rewind_state.simps [of st StateModules])
  qed
qed

text \<open>
  An enumerator can be dropped at any time: in every state that it reaches, \<open>cleanup_state\<close>
  unwinds through the handlers without failing one of its assertions, and nothing is left over.
\<close>

theorem cleanup_succeeds:
  assumes "enum_ok st"
  shows "\<exists>st'. cleanup_state st = Some st' \<and> modules st' = [] \<and> slots st' = [] \<and> session st' = None \<and>
    cur_slot st' = None \<and> found st' = None \<and> results st' = None"
proof -
  have mods: "rewind_state st StateModules = Some (StateModules, st\<lparr>slots := [], handler := StateModules\<rparr>)"
    if "handler st = StateSlots" "cur_slot st = None" for st :: "'a enum_state"
    by (rule rewind_to_modules [OF that])
  consider "handler st = StateModules" | "handler st = StateSlots"
    | "handler st \<in> {StateSlot, StateSession, StateFind, StateResults}" by (cases "handler st") auto
  then show ?thesis
  proof cases
    case 1
    then have "rewind_state st StateModules = Some (StateModules, st)" by (simp add: rewind_state.simps)
    then show ?thesis using assms 1 by (simp add: cleanup_state_def enum_ok_def)
  next
    case 2
    then have "cur_slot st = None" using assms by (simp add: enum_ok_def)
    then show ?thesis using assms 2 mods [of st] by (simp add: cleanup_state_def enum_ok_def)
  next
    case 3
    have s: "rewind_state st StateSlots = Some (StateSlots, slots_state st)"
      by (rule rewind_to_slots) (use 3 assms in \<open>auto simp: enum_ok_def\<close>)
    have "handler st \<noteq> StateModules" using 3 by auto
    from rewind_via_slots [OF s refl this]
    have "rewind_state st StateModules = Some (StateModules, (slots_state st)\<lparr>slots := [], handler := StateModules\<rparr>)"
      using mods [of "slots_state st"] by (simp add: slots_state_def)
    then show ?thesis by (simp add: cleanup_state_def slots_state_def)
  qed
qed

theorem cleanup_succeeds_witness:
  "\<exists>st'. cleanup_state (gck_enumerator_new_for_session demo_modules 10 7 [] match_all) = Some st' \<and>
    session st' = None"
  using cleanup_succeeds [of "gck_enumerator_new_for_session demo_modules 10 7 [] match_all"]
  by (auto simp: enum_ok_def gck_enumerator_new_for_session_def new_state_def demo_modules_def)

end
