(* ===== verification/Chain.thy ===== *)
theory Chain
  imports GcrPrelude "HOL-Library.Multiset"
begin

text \<open>
  \<open>gcr/gcr-certificate-chain.c\<close>: building the chain from an endpoint certificate to an issuer that
  is trusted, self-signed, or cannot be found. Trust assertions and the lookup of issuers in
  PKCS#11 tokens are the interface \<open>chain_env\<close>; every certificate has its DER data (\<open>gcr_certificate_get_der_data\<close> is not \<open>NULL\<close>), and the subject and issuer names are what the
  certificate parser finds in the DER data. A build is a value of type \<open>option\<close>: \<open>None\<close> is a build
  that does not return.
\<close>

section \<open>Certificates\<close>

text \<open>
  A certificate object is one of the two kinds that may be used in another thread, or of another
  class. A simple certificate that stands in for another one remembers that (the
  \<open>Q_ORIGINAL_CERT\<close> data of the object).
\<close>

datatype certificate =
    SimpleCertificate nat bytes "certificate option"
  | Pkcs11Certificate nat bytes
  | OtherCertificate nat bytes

fun der_data :: "certificate \<Rightarrow> bytes" where
  "der_data (SimpleCertificate _ der _) = der"
| "der_data (Pkcs11Certificate _ der) = der"
| "der_data (OtherCertificate _ der) = der"

fun original_cert :: "certificate \<Rightarrow> certificate option" where
  "original_cert (SimpleCertificate _ _ orig) = orig"
| "original_cert _ = None"

section \<open>The interface to tokens and to the certificate parser\<close>

type_synonym lookup_error = nat

record chain_env =
  subject_name :: "bytes \<Rightarrow> bytes option"
  issuer_name :: "bytes \<Rightarrow> bytes option"
  trust_pinned :: "bytes \<Rightarrow> string \<Rightarrow> string \<Rightarrow> lookup_error + bool"
  trust_anchored :: "bytes \<Rightarrow> string \<Rightarrow> lookup_error + bool"
  lookup_issuer :: "bytes \<Rightarrow> lookup_error + certificate option"

text \<open>\<open>gcr_certificate_is_issuer\<close> of \<open>gcr/gcr-certificate.c\<close> compares names only.\<close>

definition gcr_certificate_is_issuer :: "chain_env \<Rightarrow> certificate \<Rightarrow> certificate \<Rightarrow> bool" where
  "gcr_certificate_is_issuer env self issuer =
     (case subject_name env (der_data issuer) of
        None \<Rightarrow> False
      | Some subject \<Rightarrow> (case issuer_name env (der_data self) of
          None \<Rightarrow> False
        | Some name \<Rightarrow> subject = name))"

section \<open>The state of a chain\<close>

datatype chain_status = Unknown | Incomplete | Distrusted | Selfsigned | Pinned | Anchored

record chain =
  certificates :: "certificate list"
  status :: chain_status
  purpose :: string
  peer :: "string option"
  no_lookups :: bool

definition new_chain_private :: chain where
  "new_chain_private = \<lparr>certificates = [], status = Unknown, purpose = '''', peer = None,
     no_lookups = False\<rparr>"

definition gcr_certificate_chain_add :: "chain \<Rightarrow> certificate \<Rightarrow> chain" where
  "gcr_certificate_chain_add self certificate =
     self\<lparr>certificates := certificates self @ [certificate], status := Unknown\<rparr>"

definition gcr_certificate_chain_get_status :: "chain \<Rightarrow> chain_status" where
  "gcr_certificate_chain_get_status self = status self"

text \<open>The assertion that an anchored chain is not empty is the outer \<open>option\<close>.\<close>

definition gcr_certificate_chain_get_anchor :: "chain \<Rightarrow> certificate option option" where
  "gcr_certificate_chain_get_anchor self =
     (if status self \<noteq> Anchored then Some None
      else if \<not> length (certificates self) > 0 then None
      else Some (Some (certificates self ! (length (certificates self) - 1))))"

definition gcr_certificate_chain_get_endpoint :: "chain \<Rightarrow> certificate option" where
  "gcr_certificate_chain_get_endpoint self =
     (if length (certificates self) = 0 then None else Some (certificates self ! 0))"

definition gcr_certificate_chain_get_length :: "chain \<Rightarrow> nat" where
  "gcr_certificate_chain_get_length self = length (certificates self)"

definition gcr_certificate_chain_get_certificate :: "chain \<Rightarrow> nat \<Rightarrow> certificate option" where
  "gcr_certificate_chain_get_certificate self i =
     (if i < length (certificates self) then Some (certificates self ! i) else None)"

section \<open>Copies to build on\<close>

definition prep_chain_private :: "chain \<Rightarrow> string \<Rightarrow> string option \<Rightarrow> bool \<Rightarrow> chain" where
  "prep_chain_private orig purp pr flags =
     new_chain_private\<lparr>certificates := certificates orig, status := status orig, purpose := purp,
       peer := pr, no_lookups := flags\<rparr>"

definition thread_safe_certificate :: "certificate \<Rightarrow> certificate" where
  "thread_safe_certificate certificate = (case certificate of
      SimpleCertificate _ _ _ \<Rightarrow> certificate
    | Pkcs11Certificate _ _ \<Rightarrow> certificate
    | OtherCertificate n der \<Rightarrow> SimpleCertificate n der (Some certificate))"

definition prep_chain_private_thread_safe :: "chain \<Rightarrow> string \<Rightarrow> string option \<Rightarrow> bool \<Rightarrow> chain" where
  "prep_chain_private_thread_safe orig purp pr flags =
     (let pv = prep_chain_private orig purp pr flags
      in pv\<lparr>certificates := map thread_safe_certificate (certificates pv)\<rparr>)"

definition restore_certificate :: "certificate \<Rightarrow> certificate" where
  "restore_certificate certificate = (case original_cert certificate of
      Some orig \<Rightarrow> orig
    | None \<Rightarrow> certificate)"

definition cleanup_chain_private :: "chain \<Rightarrow> chain" where
  "cleanup_chain_private pv = pv\<lparr>certificates := map restore_certificate (certificates pv)\<rparr>"

section \<open>Building\<close>

text \<open>\<open>g_ptr_array_remove_index_fast\<close> moves the last element to the place of the removed one.\<close>

definition remove_index_fast :: "'a list \<Rightarrow> nat \<Rightarrow> 'a list" where
  "remove_index_fast xs i = butlast (xs[i := last xs])"

fun find_index :: "('a \<Rightarrow> bool) \<Rightarrow> 'a list \<Rightarrow> nat option" where
  "find_index P [] = None"
| "find_index P (x # xs) = (if P x then Some 0 else map_option Suc (find_index P xs))"

definition pop_certificate ::
  "chain_env \<Rightarrow> certificate list \<Rightarrow> certificate option \<Rightarrow> (certificate \<times> certificate list) option" where
  "pop_certificate env certs issued =
     (case find_index (\<lambda>c. case issued of None \<Rightarrow> True | Some i \<Rightarrow> gcr_certificate_is_issuer env i c) certs of
        None \<Rightarrow> None
      | Some i \<Rightarrow> Some (certs ! i, remove_index_fast certs i))"

text \<open>The certificate after \<open>issued\<close> and the input that is left.\<close>

definition next_certificate ::
  "chain_env \<Rightarrow> bool \<Rightarrow> certificate list \<Rightarrow> certificate
     \<Rightarrow> lookup_error + (certificate \<times> certificate list) option" where
  "next_certificate env lookups input issued =
     (case pop_certificate env input (Some issued) of
        Some (certificate, input) \<Rightarrow> Inr (Some (certificate, input))
      | None \<Rightarrow>
          if lookups then (case lookup_issuer env (der_data issued) of
              Inl e \<Rightarrow> Inl e
            | Inr None \<Rightarrow> Inr None
            | Inr (Some certificate) \<Rightarrow> Inr (Some (certificate, input)))
          else Inr None)"

definition is_anchor ::
  "chain_env \<Rightarrow> bool \<Rightarrow> string \<Rightarrow> certificate \<Rightarrow> lookup_error + bool" where
  "is_anchor env lookups purp certificate =
     (if lookups then trust_anchored env (der_data certificate) purp else Inr False)"

partial_function (option) build_loop ::
  "chain_env \<Rightarrow> bool \<Rightarrow> string \<Rightarrow> certificate \<Rightarrow> certificate list \<Rightarrow> certificate list
     \<Rightarrow> (lookup_error + certificate list \<times> chain_status) option" where
  "build_loop env lookups purp certificate input certs =
     (if gcr_certificate_is_issuer env certificate certificate
      then Some (Inr (certs, Selfsigned))
      else case next_certificate env lookups input certificate of
        Inl e \<Rightarrow> Some (Inl e)
      | Inr None \<Rightarrow> Some (Inr (certs, Incomplete))
      | Inr (Some p) \<Rightarrow>
          (case is_anchor env lookups purp (fst p) of
             Inl e \<Rightarrow> Some (Inl e)
           | Inr anchored \<Rightarrow>
               if anchored then Some (Inr (certs @ [fst p], Anchored))
               else build_loop env lookups purp (fst p) (snd p) (certs @ [fst p])))"

definition perform_build_chain :: "chain_env \<Rightarrow> chain \<Rightarrow> (lookup_error + chain) option" where
  "perform_build_chain env pv =
     (let pv = pv\<lparr>status := Unknown\<rparr>;
          lookups = (\<not> no_lookups pv)
      in case pop_certificate env (certificates pv) None of
           None \<Rightarrow> Some (Inr pv)
         | Some (certificate, input) \<Rightarrow>
             let continue = (case build_loop env lookups (purpose pv) certificate input [certificate] of
                     None \<Rightarrow> None
                   | Some (Inl e) \<Rightarrow> Some (Inl e)
                   | Some (Inr (certs, st)) \<Rightarrow> Some (Inr (pv\<lparr>certificates := certs, status := st\<rparr>)))
             in case peer pv of
                  Some pr \<Rightarrow>
                    if lookups then (case trust_pinned env (der_data certificate) (purpose pv) pr of
                        Inl e \<Rightarrow> Some (Inl e)
                      | Inr pinned \<Rightarrow>
                          if pinned then Some (Inr (pv\<lparr>certificates := [certificate], status := Pinned\<rparr>))
                          else continue)
                    else continue
                | None \<Rightarrow> continue)"

text \<open>A failed build returns the error and leaves the chain alone.\<close>

definition gcr_certificate_chain_build ::
  "chain_env \<Rightarrow> chain \<Rightarrow> string \<Rightarrow> string option \<Rightarrow> bool \<Rightarrow> (lookup_error option \<times> chain) option" where
  "gcr_certificate_chain_build env self purp pr flags =
     (case perform_build_chain env (prep_chain_private self purp pr flags) of
        None \<Rightarrow> None
      | Some (Inl e) \<Rightarrow> Some (Some e, self)
      | Some (Inr pv) \<Rightarrow> Some (None, cleanup_chain_private pv))"

definition gcr_certificate_chain_build_async ::
  "chain_env \<Rightarrow> chain \<Rightarrow> string \<Rightarrow> string option \<Rightarrow> bool \<Rightarrow> (lookup_error + chain) option" where
  "gcr_certificate_chain_build_async env self purp pr flags =
     perform_build_chain env (prep_chain_private_thread_safe self purp pr flags)"

definition gcr_certificate_chain_build_finish ::
  "chain \<Rightarrow> lookup_error + chain \<Rightarrow> lookup_error option \<times> chain" where
  "gcr_certificate_chain_build_finish self result = (case result of
      Inl e \<Rightarrow> (Some e, self)
    | Inr pv \<Rightarrow> (None, cleanup_chain_private pv))"

section \<open>The build as a relation\<close>

text \<open>
  \<open>builds env lookups purp c input certs r\<close>: from the last certificate \<open>c\<close> of the chain \<open>certs\<close>
  and the unused certificates \<open>input\<close>, the loop ends with \<open>r\<close>.
\<close>

inductive builds ::
  "chain_env \<Rightarrow> bool \<Rightarrow> string \<Rightarrow> certificate \<Rightarrow> certificate list \<Rightarrow> certificate list
     \<Rightarrow> lookup_error + certificate list \<times> chain_status \<Rightarrow> bool"
  for env lookups purp
  where
  selfsigned: "gcr_certificate_is_issuer env c c \<Longrightarrow>
    builds env lookups purp c input certs (Inr (certs, Selfsigned))"
| next_fails: "\<not> gcr_certificate_is_issuer env c c \<Longrightarrow>
    next_certificate env lookups input c = Inl e \<Longrightarrow> builds env lookups purp c input certs (Inl e)"
| incomplete: "\<not> gcr_certificate_is_issuer env c c \<Longrightarrow>
    next_certificate env lookups input c = Inr None \<Longrightarrow>
    builds env lookups purp c input certs (Inr (certs, Incomplete))"
| anchor_fails: "\<not> gcr_certificate_is_issuer env c c \<Longrightarrow>
    next_certificate env lookups input c = Inr (Some (c', input')) \<Longrightarrow>
    is_anchor env lookups purp c' = Inl e \<Longrightarrow> builds env lookups purp c input certs (Inl e)"
| anchored: "\<not> gcr_certificate_is_issuer env c c \<Longrightarrow>
    next_certificate env lookups input c = Inr (Some (c', input')) \<Longrightarrow>
    is_anchor env lookups purp c' = Inr True \<Longrightarrow>
    builds env lookups purp c input certs (Inr (certs @ [c'], Anchored))"
| further: "\<not> gcr_certificate_is_issuer env c c \<Longrightarrow>
    next_certificate env lookups input c = Inr (Some (c', input')) \<Longrightarrow>
    is_anchor env lookups purp c' = Inr False \<Longrightarrow>
    builds env lookups purp c' input' (certs @ [c']) r \<Longrightarrow> builds env lookups purp c input certs r"

lemma build_loop_builds:
  assumes "build_loop env lookups purp c input certs = Some r"
  shows "builds env lookups purp c input certs r"
proof (rule build_loop.raw_induct [OF _ assms])
  fix f env lookups purp c input certs r
  assume IH: "\<And>env lookups purp c input certs r. f env lookups purp c input certs = Some r \<Longrightarrow>
      builds env lookups purp c input certs r"
    and eq: "(if gcr_certificate_is_issuer env c c then Some (Inr (certs, Selfsigned))
      else case next_certificate env lookups input c of
        Inl e \<Rightarrow> Some (Inl e)
      | Inr None \<Rightarrow> Some (Inr (certs, Incomplete))
      | Inr (Some p) \<Rightarrow>
          (case is_anchor env lookups purp (fst p) of
             Inl e \<Rightarrow> Some (Inl e)
           | Inr anchored \<Rightarrow>
               if anchored then Some (Inr (certs @ [fst p], Anchored))
               else f env lookups purp (fst p) (snd p) (certs @ [fst p]))) = Some r"
  show "builds env lookups purp c input certs r"
  proof (cases "gcr_certificate_is_issuer env c c")
    case True
    then show ?thesis using eq by (auto intro: builds.selfsigned)
  next
    case self: False
    show ?thesis
    proof (cases "next_certificate env lookups input c")
      case (Inl e)
      then show ?thesis using eq self by (auto intro: builds.next_fails)
    next
      case (Inr q)
      show ?thesis
      proof (cases q)
        case None
        then show ?thesis using eq self Inr by (auto intro: builds.incomplete)
      next
        case (Some p)
        then have n: "next_certificate env lookups input c = Inr (Some (fst p, snd p))" using Inr by simp
        show ?thesis
        proof (cases "is_anchor env lookups purp (fst p)")
          case (Inl e)
          then show ?thesis using eq self n builds.anchor_fails [OF self n Inl] by simp
        next
          case (Inr a)
          show ?thesis
          proof (cases a)
            case True
            then have "r = Inr (certs @ [fst p], Anchored)" "is_anchor env lookups purp (fst p) = Inr True"
              using eq self n Inr by simp_all
            then show ?thesis using builds.anchored [OF self n] by simp
          next
            case False
            then have "f env lookups purp (fst p) (snd p) (certs @ [fst p]) = Some r"
              using eq self n Inr by simp
            moreover have "is_anchor env lookups purp (fst p) = Inr False" using Inr False by simp
            ultimately show ?thesis using builds.further [OF self n] IH by blast
          qed
        qed
      qed
    qed
  qed
qed

lemma builds_build_loop:
  "builds env lookups purp c input certs r \<Longrightarrow> build_loop env lookups purp c input certs = Some r"
  by (induction rule: builds.induct) (subst build_loop.simps; simp)+

lemma build_loop_iff: "build_loop env lookups purp c input certs = Some r \<longleftrightarrow> builds env lookups purp c input certs r"
  using build_loop_builds builds_build_loop by blast

section \<open>Taking certificates out of the input\<close>

lemma find_index_Some: "find_index P xs = Some i \<Longrightarrow> i < length xs \<and> P (xs ! i)"
  by (induction xs arbitrary: i) (auto split: if_splits)

lemma find_index_None: "find_index P xs = None \<longleftrightarrow> (\<forall>x \<in> set xs. \<not> P x)"
  by (induction xs) auto

lemma remove_index_fast_mset:
  assumes "i < length xs"
  shows "add_mset (xs ! i) (mset (remove_index_fast xs i)) = mset xs"
proof -
  have ne: "xs \<noteq> []" using assms by auto
  have "last (xs[i := last xs]) = last xs"
    using assms ne by (cases "i = length xs - 1") (simp_all add: last_conv_nth nth_list_update)
  then have "mset (xs[i := last xs]) = add_mset (last xs) (mset (remove_index_fast xs i))"
    using ne by (metis append_butlast_last_id length_greater_0_conv length_list_update
        list_update_nonempty mset.simps(2) mset_append remove_index_fast_def union_mset_add_mset_right
        add.right_neutral mset.simps(1))
  moreover have "mset (xs[i := last xs]) = add_mset (last xs) (mset xs - {#xs ! i#})"
    using assms by (rule mset_update)
  moreover have "xs ! i \<in># mset xs" using assms by simp
  ultimately show ?thesis by (metis add_mset_remove_trivial insert_DiffM)
qed

lemma pop_certificate_Some:
  assumes "pop_certificate env certs issued = Some (c, rest)"
  shows "mset certs = add_mset c (mset rest)" "length certs = Suc (length rest)"
    "issued = Some i \<Longrightarrow> gcr_certificate_is_issuer env i c"
proof -
  obtain k where k: "find_index (\<lambda>c. case issued of None \<Rightarrow> True | Some i \<Rightarrow> gcr_certificate_is_issuer env i c) certs = Some k"
    "c = certs ! k" "rest = remove_index_fast certs k"
    using assms by (auto simp: pop_certificate_def split: option.splits)
  note f = find_index_Some [OF k(1)]
  show m: "mset certs = add_mset c (mset rest)" using remove_index_fast_mset [of k certs] f k by simp
  show "length certs = Suc (length rest)" using arg_cong [OF m, of size] by simp
  show "issued = Some i \<Longrightarrow> gcr_certificate_is_issuer env i c" using f k by simp
qed

lemma pop_first: "pop_certificate env (c # cs) None = Some (c, remove_index_fast (c # cs) 0)"
  by (simp add: pop_certificate_def)

section \<open>What a built chain is\<close>

text \<open>
  A token that finds an issuer finds one with the right subject: the search template of
  \<open>gcr_pkcs11_certificate_lookup_issuer\<close> is the issuer name of the certificate.
\<close>

definition lookups_match :: "chain_env \<Rightarrow> bool" where
  "lookups_match env \<longleftrightarrow> (\<forall>der c issued. lookup_issuer env der = Inr (Some c) \<longrightarrow>
     der_data issued = der \<longrightarrow> gcr_certificate_is_issuer env issued c)"

definition anchor_of :: "chain_env \<Rightarrow> bool \<Rightarrow> string \<Rightarrow> certificate \<Rightarrow> bool" where
  "anchor_of env lookups purp c \<longleftrightarrow> is_anchor env lookups purp c = Inr True"

definition self_issued :: "chain_env \<Rightarrow> certificate \<Rightarrow> bool" where
  "self_issued env c \<longleftrightarrow> gcr_certificate_is_issuer env c c"

text \<open>A chain under construction: each certificate is issued by the next one, and none is an end.\<close>

definition partial_chain :: "chain_env \<Rightarrow> bool \<Rightarrow> string \<Rightarrow> certificate \<Rightarrow> certificate list \<Rightarrow> bool" where
  "partial_chain env lookups purp c certs \<longleftrightarrow> certs \<noteq> [] \<and> last certs = c \<and>
     successively (gcr_certificate_is_issuer env) certs \<and>
     (\<forall>d \<in> set (butlast certs). \<not> self_issued env d) \<and>
     (\<forall>d \<in> set (tl certs). \<not> anchor_of env lookups purp d)"

text \<open>The end of the chain, for each status the loop can end with.\<close>

definition chain_end ::
  "chain_env \<Rightarrow> bool \<Rightarrow> string \<Rightarrow> certificate list \<Rightarrow> certificate list \<Rightarrow> chain_status \<Rightarrow> bool" where
  "chain_end env lookups purp supplied certs st \<longleftrightarrow> (case st of
      Selfsigned \<Rightarrow> self_issued env (last certs) \<and> (\<forall>d \<in> set (tl certs). \<not> anchor_of env lookups purp d)
    | Incomplete \<Rightarrow> \<not> self_issued env (last certs) \<and> (\<forall>d \<in> set (tl certs). \<not> anchor_of env lookups purp d) \<and>
        (\<forall>d \<in> set supplied. gcr_certificate_is_issuer env (last certs) d \<longrightarrow> d \<in> set certs) \<and>
        (lookups \<longrightarrow> lookup_issuer env (der_data (last certs)) = Inr None)
    | Anchored \<Rightarrow> lookups \<and> tl certs \<noteq> [] \<and> anchor_of env lookups purp (last certs) \<and>
        (\<forall>d \<in> set (tl (butlast certs)). \<not> anchor_of env lookups purp d)
    | _ \<Rightarrow> False)"

lemma next_certificate_issuer:
  assumes "next_certificate env lookups input c = Inr (Some (c', input'))" "lookups_match env"
  shows "gcr_certificate_is_issuer env c c'" "mset input = add_mset c' (mset input') \<or> input' = input"
    "set input' \<subseteq> set input" "set input \<subseteq> insert c' (set input')"
proof -
  from assms(1) consider "pop_certificate env input (Some c) = Some (c', input')"
    | "lookup_issuer env (der_data c) = Inr (Some c')" "input' = input"
    by (auto simp: next_certificate_def split: option.splits sum.splits if_splits)
  note cs = this
  show "gcr_certificate_is_issuer env c c'"
    using cs assms(2) pop_certificate_Some(3) by cases (auto simp: lookups_match_def)
  show m: "mset input = add_mset c' (mset input') \<or> input' = input"
    using cs pop_certificate_Some(1) by cases auto
  show "set input' \<subseteq> set input" "set input \<subseteq> insert c' (set input')"
    using m by (metis mset_eq_setD set_mset_add_mset_insert set_mset_mset subset_insertI order_refl subset_refl)+
qed

lemma next_certificate_none:
  assumes "next_certificate env lookups input c = Inr None"
  shows "\<forall>d \<in> set input. \<not> gcr_certificate_is_issuer env c d" "lookups \<longrightarrow> lookup_issuer env (der_data c) = Inr None"
  using assms
  by (auto simp: next_certificate_def pop_certificate_def find_index_None split: option.splits sum.splits if_splits)

lemma partial_step:
  assumes "partial_chain env lookups purp c certs" "\<not> self_issued env c" "gcr_certificate_is_issuer env c c'"
  shows "successively (gcr_certificate_is_issuer env) (certs @ [c'])"
    "\<forall>d \<in> set (butlast (certs @ [c'])). \<not> self_issued env d"
    "\<not> anchor_of env lookups purp c' \<Longrightarrow> partial_chain env lookups purp c' (certs @ [c'])"
proof -
  note p = assms(1)[unfolded partial_chain_def]
  show s: "successively (gcr_certificate_is_issuer env) (certs @ [c'])"
    using p assms(3) by (simp add: successively_append_iff)
  have "certs = butlast certs @ [c]" using p by (metis append_butlast_last_id)
  then show b: "\<forall>d \<in> set (butlast (certs @ [c'])). \<not> self_issued env d"
    using p assms(2) by (metis Un_iff butlast_snoc empty_iff empty_set insert_iff set_append list.simps(15))
  show "partial_chain env lookups purp c' (certs @ [c'])" if "\<not> anchor_of env lookups purp c'"
    using that s b p by (cases certs) (auto simp: partial_chain_def)
qed

lemma builds_correct:
  assumes "builds env lookups purp c input certs (Inr (certs', st))"
    and "lookups_match env" "partial_chain env lookups purp c certs" "set supplied \<subseteq> set certs \<union> set input"
  shows "hd certs' = hd certs \<and> certs' \<noteq> [] \<and> successively (gcr_certificate_is_issuer env) certs' \<and>
    (\<forall>d \<in> set (butlast certs'). \<not> self_issued env d) \<and> chain_end env lookups purp supplied certs' st"
  using assms
proof (induction c input certs "Inr (certs', st) :: lookup_error + certificate list \<times> chain_status"
    rule: builds.induct)
  case (selfsigned c input)
  then show ?case by (auto simp: partial_chain_def chain_end_def self_issued_def)
next
  case (incomplete c input)
  then show ?case
    using next_certificate_none [OF incomplete.hyps(2)]
    by (auto simp: partial_chain_def chain_end_def self_issued_def)
next
  case (anchored c input c' input' certs)
  note n = next_certificate_issuer(1) [OF anchored.hyps(2) anchored.prems(1)]
  have "\<not> self_issued env c" using anchored.hyps(1) by (simp add: self_issued_def)
  note s = partial_step [OF anchored.prems(2) this n]
  have ne: "certs \<noteq> []" using anchored.prems(2) by (simp add: partial_chain_def)
  have "lookups" using anchored.hyps(3) by (auto simp: is_anchor_def split: if_splits)
  then show ?case
    using s ne anchored.hyps anchored.prems(2)
    by (auto simp: chain_end_def anchor_of_def partial_chain_def)
next
  case (further c input c' input' certs)
  note n = next_certificate_issuer [OF further.hyps(2) further.prems(1)]
  have "\<not> self_issued env c" using further.hyps(1) by (simp add: self_issued_def)
  from partial_step(3) [OF further.prems(2) this n(1)]
  have "partial_chain env lookups purp c' (certs @ [c'])"
    using further.hyps(3) by (simp add: anchor_of_def)
  moreover have "certs \<noteq> []" using further.prems(2) by (simp add: partial_chain_def)
  ultimately show ?case
    using further.hyps(5) [OF further.prems(1)] further.prems(3) n(4) by auto
qed

section \<open>Properties of built chains\<close>

lemma perform_pop:
  assumes "certificates pv = first # others"
  shows "perform_build_chain env pv =
    (let lookups = (\<not> no_lookups pv);
         continue = (case build_loop env lookups (purpose pv) first (remove_index_fast (first # others) 0) [first] of
             None \<Rightarrow> None
           | Some (Inl e) \<Rightarrow> Some (Inl e)
           | Some (Inr (certs, st)) \<Rightarrow> Some (Inr (pv\<lparr>certificates := certs, status := st\<rparr>)))
     in case peer pv of
          Some pr \<Rightarrow>
            if lookups then (case trust_pinned env (der_data first) (purpose pv) pr of
                Inl e \<Rightarrow> Some (Inl e)
              | Inr pinned \<Rightarrow> if pinned then Some (Inr (pv\<lparr>certificates := [first], status := Pinned\<rparr>)) else continue)
            else continue
        | None \<Rightarrow> continue)"
  using assms
  by (simp add: perform_build_chain_def pop_first Let_def
      cong: option.case_cong sum.case_cong prod.case_cong if_cong)

lemma perform_cases:
  assumes "perform_build_chain env pv = Some (Inr pv')" "certificates pv = first # others"
  shows "(pv' = pv\<lparr>certificates := [first], status := Pinned\<rparr> \<and> \<not> no_lookups pv \<and>
      (\<exists>pr. peer pv = Some pr \<and> trust_pinned env (der_data first) (purpose pv) pr = Inr True)) \<or>
    (\<exists>certs st. pv' = pv\<lparr>certificates := certs, status := st\<rparr> \<and>
      builds env (\<not> no_lookups pv) (purpose pv) first (remove_index_fast (first # others) 0) [first] (Inr (certs, st)) \<and>
      (\<forall>pr. peer pv = Some pr \<longrightarrow> \<not> no_lookups pv \<longrightarrow>
         trust_pinned env (der_data first) (purpose pv) pr = Inr False))"
  using assms(1) unfolding perform_pop [OF assms(2)] Let_def
  by (auto simp: build_loop_iff split: option.splits sum.splits if_splits prod.splits)

lemma remove_first_set: "set (first # others) = insert first (set (remove_index_fast (first # others) 0))"
  using remove_index_fast_mset [of 0 "first # others"]
  by (metis length_greater_0_conv list.distinct(1) nth_Cons_0 set_mset_add_mset_insert set_mset_mset)

text \<open>What a finished build promises, in terms of the chain before it is handed back.\<close>

definition chain_result :: "chain_env \<Rightarrow> chain \<Rightarrow> certificate list \<Rightarrow> chain_status \<Rightarrow> bool" where
  "chain_result env pv certs st \<longleftrightarrow>
     (case certificates pv of
        [] \<Rightarrow> certs = [] \<and> st = Unknown
      | first # _ \<Rightarrow> certs \<noteq> [] \<and> hd certs = first \<and>
          successively (gcr_certificate_is_issuer env) certs \<and>
          (if st = Pinned then certs = [first] \<and> \<not> no_lookups pv \<and>
             (\<exists>pr. peer pv = Some pr \<and> trust_pinned env (der_data first) (purpose pv) pr = Inr True)
           else (\<forall>pr. peer pv = Some pr \<longrightarrow> \<not> no_lookups pv \<longrightarrow>
               trust_pinned env (der_data first) (purpose pv) pr = Inr False) \<and>
             (\<forall>d \<in> set (butlast certs). \<not> self_issued env d) \<and>
             chain_end env (\<not> no_lookups pv) (purpose pv) (certificates pv) certs st))"

lemma perform_correct:
  assumes "perform_build_chain env pv = Some (Inr pv')" "lookups_match env"
  shows "chain_result env pv (certificates pv') (status pv')"
proof (cases "certificates pv")
  case Nil
  then show ?thesis
    using assms(1) by (auto simp: perform_build_chain_def pop_certificate_def chain_result_def)
next
  case (Cons first others)
  let ?rest = "remove_index_fast (first # others) 0"
  have part: "partial_chain env (\<not> no_lookups pv) (purpose pv) first [first]"
    by (simp add: partial_chain_def)
  have sup: "set (certificates pv) \<subseteq> set [first] \<union> set ?rest"
    using remove_first_set [of first others] Cons by auto
  from perform_cases [OF assms(1) Cons] show ?thesis
  proof (elim disjE exE conjE)
    fix certs st
    assume pv': "pv' = pv\<lparr>certificates := certs, status := st\<rparr>"
      and b: "builds env (\<not> no_lookups pv) (purpose pv) first ?rest [first] (Inr (certs, st))"
      and np: "\<forall>pr. peer pv = Some pr \<longrightarrow> \<not> no_lookups pv \<longrightarrow>
         trust_pinned env (der_data first) (purpose pv) pr = Inr False"
    from builds_correct [OF b assms(2) part sup] np pv' show ?thesis
      by (auto simp: chain_result_def Cons chain_end_def split: chain_status.splits)
  qed (auto simp: chain_result_def Cons)
qed

text \<open>
  C1. A chain that was built is what its status says. The endpoint stays first, every certificate
  is issued by the one after it, and no certificate before the last is self-signed. \<open>Pinned\<close>: the
  chain is the endpoint alone and a pinned assertion for the peer was found. \<open>Anchored\<close>: the last
  certificate, and no earlier issuer, is an anchor. \<open>Selfsigned\<close> and \<open>Incomplete\<close>: no issuer is an
  anchor, and the last one issues itself, or has no issuer among the supplied certificates or in
  the tokens. The copy that was built on has the names of the arguments of the call.
\<close>

theorem chain_build_correct:
  assumes "gcr_certificate_chain_build env self purp pr flags = Some (None, self')" "lookups_match env"
  shows "\<exists>certs. certificates self' = map restore_certificate certs \<and>
    chain_result env (prep_chain_private self purp pr flags) certs (status self')"
proof -
  obtain pv where pv: "perform_build_chain env (prep_chain_private self purp pr flags) = Some (Inr pv)"
    "self' = cleanup_chain_private pv"
    using assms(1) by (auto simp: gcr_certificate_chain_build_def split: option.splits sum.splits)
  show ?thesis
    using perform_correct [OF pv(1) assms(2)] pv(2) by (auto simp: cleanup_chain_private_def)
qed

lemma no_lookups_env:
  assumes "subject_name env' = subject_name env" "issuer_name env' = issuer_name env"
  shows "build_loop env' False purp c input certs = build_loop env False purp c input certs"
proof -
  have iss: "gcr_certificate_is_issuer env' = gcr_certificate_is_issuer env"
    unfolding gcr_certificate_is_issuer_def assms by simp
  have nxt: "next_certificate env' False = next_certificate env False"
    by (simp add: next_certificate_def pop_certificate_def iss fun_eq_iff)
  have anc: "is_anchor env' False = is_anchor env False"
    by (simp add: is_anchor_def fun_eq_iff)
  have "builds env' False purp c input certs r \<longleftrightarrow> builds env False purp c input certs r" for r
  proof
    show "builds env' False purp c input certs r \<Longrightarrow> builds env False purp c input certs r"
      by (induction rule: builds.induct) (unfold iss nxt anc, auto intro: builds.intros)
    show "builds env False purp c input certs r \<Longrightarrow> builds env' False purp c input certs r"
      by (induction rule: builds.induct) (fold iss nxt anc, auto intro: builds.intros)
  qed
  then show ?thesis
    by (metis build_loop_iff not_None_eq)
qed

lemma no_lookups_status:
  "builds env False purp c input certs r \<Longrightarrow> \<forall>certs' st. r = Inr (certs', st) \<longrightarrow> st \<in> {Selfsigned, Incomplete}"
  by (induction rule: builds.induct) (auto simp: is_anchor_def)

text \<open>
  Only trust assertions make a chain trusted: with \<open>NO_LOOKUPS\<close> the outcome does not depend on
  the tokens at all, and it is never \<open>Anchored\<close> or \<open>Pinned\<close>.
\<close>

theorem no_lookups_isolated:
  assumes "subject_name env' = subject_name env" "issuer_name env' = issuer_name env"
  shows "gcr_certificate_chain_build env' self purp pr True = gcr_certificate_chain_build env self purp pr True \<and>
    (\<forall>self'. gcr_certificate_chain_build env self purp pr True = Some (None, self') \<longrightarrow>
       status self' \<in> {Unknown, Selfsigned, Incomplete})"
proof -
  have pop: "pop_certificate env' cs None = pop_certificate env cs None" for cs
    by (simp add: pop_certificate_def)
  have perform: "perform_build_chain env' (prep_chain_private self purp pr True) =
      perform_build_chain env (prep_chain_private self purp pr True)"
    by (simp add: perform_build_chain_def pop prep_chain_private_def no_lookups_env [OF assms] Let_def
        cong: option.case_cong)
  moreover have "status pv \<in> {Unknown, Selfsigned, Incomplete}"
    if "perform_build_chain env (prep_chain_private self purp pr True) = Some (Inr pv)" for pv
  proof (cases "certificates self")
    case Nil
    then show ?thesis using that
      by (auto simp: perform_build_chain_def pop_certificate_def prep_chain_private_def)
  next
    case (Cons first others)
    have "certificates (prep_chain_private self purp pr True) = first # others"
      by (simp add: prep_chain_private_def Cons)
    from perform_cases [OF that this] show ?thesis
      by (auto simp: prep_chain_private_def dest: no_lookups_status)
  qed
  ultimately show ?thesis
    by (auto simp: gcr_certificate_chain_build_def cleanup_chain_private_def split: option.splits sum.splits)
qed

section \<open>Builds that return\<close>

lemma builds_exists:
  assumes next_less: "\<And>input c c' input'. \<not> self_issued env c \<Longrightarrow>
      next_certificate env lookups input c = Inr (Some (c', input')) \<Longrightarrow> is_anchor env lookups purp c' = Inr False \<Longrightarrow>
      ((input', c'), (input, c)) \<in> R" and "wf R"
  shows "\<exists>r. builds env lookups purp c input certs r"
proof -
  have "\<forall>certs. \<exists>r. builds env lookups purp (snd p) (fst p) certs r" for p
    using \<open>wf R\<close>
  proof (induction p rule: wf_induct_rule)
    case (less p)
    obtain input c where p: "p = (input, c)" by (cases p)
    show ?case
    proof
      fix certs
      show "\<exists>r. builds env lookups purp (snd p) (fst p) certs r"
      proof (cases "gcr_certificate_is_issuer env c c")
        case True
        then show ?thesis unfolding p by (auto intro: builds.selfsigned)
      next
        case self: False
        consider e where "next_certificate env lookups input c = Inl e"
          | "next_certificate env lookups input c = Inr None"
          | c' input' where "next_certificate env lookups input c = Inr (Some (c', input'))"
          by (metis old.sum.exhaust option.exhaust surj_pair)
        then show ?thesis
        proof cases
          case 1
          then show ?thesis unfolding p using builds.next_fails [OF self 1] by auto
        next
          case 2
          then show ?thesis unfolding p using builds.incomplete [OF self 2] by auto
        next
          case 3
          consider e where "is_anchor env lookups purp c' = Inl e" | "is_anchor env lookups purp c' = Inr True"
            | "is_anchor env lookups purp c' = Inr False" by (cases "is_anchor env lookups purp c'") auto
          then show ?thesis
          proof cases
            case fails: 1
            then show ?thesis unfolding p using builds.anchor_fails [OF self 3 fails] by auto
          next
            case true: 2
            then show ?thesis unfolding p using builds.anchored [OF self 3 true] by auto
          next
            case false: 3
            obtain r where "builds env lookups purp c' input' (certs @ [c']) r"
              using less [of "(input', c')"] next_less [OF _ 3 false] self p by (auto simp: self_issued_def)
            then show ?thesis unfolding p using builds.further [OF self 3 false] by auto
          qed
        qed
      qed
    qed
  qed
  from this [of "(input, c)"] show ?thesis by simp
qed

text \<open>
  \<open>lookups_ascend env purp level\<close>: of the certificates that the tokens deliver as an issuer, each that is neither self-signed
  nor an anchor is on a lower level than the certificate it was looked up for, unless that one is self-signed. So authorities
  that are not self-signed and not trusted do not certify each other in a circle. Of a self-signed authority nothing is asked: a
  lookup of its issuer finds itself.
\<close>

definition lookups_ascend :: "chain_env \<Rightarrow> string \<Rightarrow> (bytes \<Rightarrow> nat) \<Rightarrow> bool" where
  "lookups_ascend env purp level \<longleftrightarrow> (\<forall>issued c. lookup_issuer env (der_data issued) = Inr (Some c) \<longrightarrow>
     \<not> self_issued env issued \<longrightarrow> \<not> self_issued env c \<longrightarrow> trust_anchored env (der_data c) purp = Inr False \<longrightarrow>
     level (der_data c) < level (der_data issued))"

definition height :: "chain_env \<Rightarrow> (bytes \<Rightarrow> nat) \<Rightarrow> certificate \<Rightarrow> nat" where
  "height env level c = (if self_issued env c then 0 else Suc (level (der_data c)))"

lemma next_certificate_less:
  assumes "\<not> self_issued env c" "next_certificate env lookups input c = Inr (Some (c', input'))"
    "is_anchor env lookups purp c' = Inr False" "lookups \<Longrightarrow> lookups_ascend env purp level"
  shows "((input', c'), (input, c)) \<in> measures [\<lambda>(i, c). length i, \<lambda>(i, c). height env level c]"
proof -
  from assms(2) consider "pop_certificate env input (Some c) = Some (c', input')"
    | "lookups" "lookup_issuer env (der_data c) = Inr (Some c')" "input' = input"
    by (auto simp: next_certificate_def split: option.splits sum.splits if_splits)
  then show ?thesis
  proof cases
    case 2
    then have "height env level c' < height env level c"
      using assms(1,3,4) unfolding lookups_ascend_def height_def is_anchor_def by auto
    then show ?thesis using 2 by simp
  qed (use pop_certificate_Some(2) in auto)
qed

lemma perform_returns:
  assumes "no_lookups pv \<or> lookups_ascend env (purpose pv) level"
  shows "\<exists>r. perform_build_chain env pv = Some r"
proof (cases "certificates pv")
  case Nil
  then show ?thesis by (simp add: perform_build_chain_def pop_certificate_def)
next
  case (Cons first others)
  have "\<exists>r. builds env (\<not> no_lookups pv) (purpose pv) first (remove_index_fast (first # others) 0) [first] r"
    by (rule builds_exists [where R = "measures [\<lambda>(i, c). length i, \<lambda>(i, c). height env level c]"])
      (use assms in \<open>simp_all only: wf_measures, metis next_certificate_less\<close>)
  then obtain r where "build_loop env (\<not> no_lookups pv) (purpose pv) first
      (remove_index_fast (first # others) 0) [first] = Some r"
    by (auto simp: build_loop_iff)
  then show ?thesis
    unfolding perform_pop [OF Cons] Let_def
    by (auto split: option.splits sum.splits prod.splits)
qed

text \<open>
  C30. Building returns: always when lookups are off, and with lookups when the tokens hold no circle of authorities that issued
  each other and of which none is self-signed or an anchor. Self-signed authorities may be in the tokens: the build
  stops at a self-signed certificate before it looks up the issuer, which would be the same certificate
  again. A build that reports an error leaves the chain as it was.
\<close>

theorem chain_build_returns:
  assumes "flags \<or> lookups_ascend env purp level"
  shows "\<exists>err self'. gcr_certificate_chain_build env self purp pr flags = Some (err, self') \<and>
    (err \<noteq> None \<longrightarrow> self' = self)"
proof -
  let ?pv = "prep_chain_private self purp pr flags"
  have "no_lookups ?pv \<or> lookups_ascend env (purpose ?pv) level"
    using assms by (simp add: prep_chain_private_def)
  from perform_returns [OF this] show ?thesis
    by (auto simp: gcr_certificate_chain_build_def split: sum.splits)
qed

lemma cycle_never_builds:
  "builds env lookups purp c input certs r \<Longrightarrow> lookups \<Longrightarrow> input = [] \<Longrightarrow> c \<in> {a, b} \<Longrightarrow>
    (\<forall>d \<in> {a, b}. \<not> self_issued env d \<and> trust_anchored env (der_data d) purp = Inr False) \<Longrightarrow>
    lookup_issuer env (der_data a) = Inr (Some b) \<Longrightarrow> lookup_issuer env (der_data b) = Inr (Some a) \<Longrightarrow> False"
  by (induction rule: builds.induct)
    (auto simp: next_certificate_def pop_certificate_def self_issued_def is_anchor_def)

text \<open>
  C35. Two authorities that certified each other make the build run forever: when each is found in a
  token as the issuer of the other, and neither is an anchor for the purpose, then
  \<open>gcr_certificate_chain_build\<close> never returns (and the chain grows without bound).
\<close>

theorem cross_certificates_diverge:
  assumes "certificates self = [a]" "lookup_issuer env (der_data a) = Inr (Some b)"
    "lookup_issuer env (der_data b) = Inr (Some a)"
    "\<forall>d \<in> {a, b}. \<not> self_issued env d \<and> trust_anchored env (der_data d) purp = Inr False"
    "\<forall>pr'. pr = Some pr' \<longrightarrow> trust_pinned env (der_data a) purp pr' = Inr False"
  shows "gcr_certificate_chain_build env self purp pr False = None"
proof -
  let ?pv = "prep_chain_private self purp pr False"
  have "build_loop env True purp a [] [a] = None"
    using cycle_never_builds [OF _ _ _ _ assms(4,2,3), of True a "[]" "[a]"]
    by (metis build_loop_iff insertI1 not_None_eq)
  moreover have "certificates ?pv = [a]" by (simp add: prep_chain_private_def assms(1))
  moreover have "remove_index_fast [a] 0 = []" by (simp add: remove_index_fast_def)
  ultimately have "perform_build_chain env ?pv = None"
    using assms(5) unfolding perform_pop [OF \<open>certificates ?pv = [a]\<close>] Let_def
    by (auto simp: prep_chain_private_def split: option.splits)
  then show ?thesis by (simp add: gcr_certificate_chain_build_def)
qed

section \<open>The asynchronous build\<close>

text \<open>Certificate objects that carry the same data and stand for the same object.\<close>

definition alike :: "certificate \<Rightarrow> certificate \<Rightarrow> bool" where
  "alike c d \<longleftrightarrow> der_data c = der_data d \<and> restore_certificate c = restore_certificate d"

lemma alike_refl [simp]: "alike c c"
  by (simp add: alike_def)

lemma alike_issuer:
  "alike c d \<Longrightarrow> alike c' d' \<Longrightarrow> gcr_certificate_is_issuer env c c' = gcr_certificate_is_issuer env d d'"
  by (simp add: alike_def gcr_certificate_is_issuer_def cong: option.case_cong)

lemma alike_anchor: "alike c d \<Longrightarrow> is_anchor env lookups purp c = is_anchor env lookups purp d"
  by (simp add: alike_def is_anchor_def)

lemma alike_find:
  "list_all2 alike xs ys \<Longrightarrow> (\<And>x y. alike x y \<Longrightarrow> P x = Q y) \<Longrightarrow> find_index P xs = find_index Q ys"
  by (induction rule: list_all2_induct) auto

lemma alike_remove:
  assumes "list_all2 alike xs ys" "i < length xs"
  shows "list_all2 alike (remove_index_fast xs i) (remove_index_fast ys i)"
proof -
  have len: "length xs = length ys" using assms(1) by (rule list_all2_lengthD)
  have "xs \<noteq> []" "ys \<noteq> []" using assms(2) len by auto
  then have "alike (last xs) (last ys)"
    using list_all2_nthD [OF assms(1), of "length xs - 1"] len by (simp add: last_conv_nth)
  then have "list_all2 alike (xs[i := last xs]) (ys[i := last ys])"
    using assms(1) by (rule list_all2_update_cong [rotated])
  then show ?thesis
    unfolding remove_index_fast_def butlast_conv_take using len by (simp add: list_all2_takeI)
qed

text \<open>Results that are alike, and steps on certificates that are alike.\<close>

definition alike_next ::
  "lookup_error + (certificate \<times> certificate list) option
     \<Rightarrow> lookup_error + (certificate \<times> certificate list) option \<Rightarrow> bool" where
  "alike_next r s \<longleftrightarrow> rel_sum (=) (rel_option (rel_prod alike (list_all2 alike))) r s"

lemma alike_next_certificate:
  assumes "alike c d" "list_all2 alike xs ys"
  shows "alike_next (next_certificate env lookups xs c) (next_certificate env lookups ys d)"
proof -
  have f: "find_index (gcr_certificate_is_issuer env c) xs = find_index (gcr_certificate_is_issuer env d) ys"
    by (rule alike_find [OF assms(2)]) (rule alike_issuer [OF assms(1)])
  show ?thesis
  proof (cases "find_index (gcr_certificate_is_issuer env d) ys")
    case (Some i)
    have i: "i < length xs" using find_index_Some [of _ xs i] f Some by auto
    then show ?thesis
      using f Some alike_remove [OF assms(2) i] list_all2_nthD [OF assms(2) i]
      by (simp add: alike_next_def next_certificate_def pop_certificate_def)
  next
    case None
    then show ?thesis
      using f assms
      by (auto simp: alike_next_def next_certificate_def pop_certificate_def alike_def
          split: option.splits sum.splits)
  qed
qed

lemma alike_builds:
  "builds env lookups purp c input certs r \<Longrightarrow> alike c d \<Longrightarrow> list_all2 alike input input2 \<Longrightarrow>
    list_all2 alike certs certs2 \<Longrightarrow> \<exists>s. builds env lookups purp d input2 certs2 s \<and>
      rel_sum (=) (rel_prod (list_all2 alike) (=)) r s"
proof (induction arbitrary: d input2 certs2 rule: builds.induct)
  case (selfsigned c input certs)
  then have "gcr_certificate_is_issuer env d d" using alike_issuer by blast
  from builds.selfsigned [OF this] show ?case using selfsigned by (auto intro!: exI)
next
  case (next_fails c input e certs)
  have self: "\<not> gcr_certificate_is_issuer env d d" using next_fails alike_issuer by blast
  have "next_certificate env lookups input2 d = Inl e"
    using alike_next_certificate [OF next_fails.prems(1,2), of env lookups] next_fails.hyps(2)
    by (auto simp: alike_next_def elim: rel_sum.cases)
  from builds.next_fails [OF self this] show ?case by (auto intro!: exI)
next
  case (incomplete c input certs)
  have self: "\<not> gcr_certificate_is_issuer env d d" using incomplete alike_issuer by blast
  have "next_certificate env lookups input2 d = Inr None"
    using alike_next_certificate [OF incomplete.prems(1,2), of env lookups] incomplete.hyps(2)
    by (auto simp: alike_next_def elim: rel_sum.cases)
  from builds.incomplete [OF self this] show ?case using incomplete.prems by (auto intro!: exI)
next
  case (anchor_fails c input c' input' e certs)
  have self: "\<not> gcr_certificate_is_issuer env d d" using anchor_fails alike_issuer by blast
  obtain d' in2 where n: "next_certificate env lookups input2 d = Inr (Some (d', in2))" "alike c' d'"
    using alike_next_certificate [OF anchor_fails.prems(1,2), of env lookups] anchor_fails.hyps(2)
    by (auto simp: alike_next_def rel_option_iff elim!: rel_sum.cases split: option.splits)
  have "is_anchor env lookups purp d' = Inl e" using anchor_fails.hyps(3) alike_anchor [OF n(2)] by simp
  from builds.anchor_fails [OF self n(1) this] show ?case by (auto intro!: exI)
next
  case (anchored c input c' input' certs)
  have self: "\<not> gcr_certificate_is_issuer env d d" using anchored alike_issuer by blast
  obtain d' in2 where n: "next_certificate env lookups input2 d = Inr (Some (d', in2))" "alike c' d'"
    using alike_next_certificate [OF anchored.prems(1,2), of env lookups] anchored.hyps(2)
    by (auto simp: alike_next_def rel_option_iff elim!: rel_sum.cases split: option.splits)
  have "is_anchor env lookups purp d' = Inr True" using anchored.hyps(3) alike_anchor [OF n(2)] by simp
  from builds.anchored [OF self n(1) this] show ?case
    using anchored.prems(3) n(2) by (auto intro!: exI list_all2_appendI)
next
  case (further c input c' input' certs r)
  have self: "\<not> gcr_certificate_is_issuer env d d" using further alike_issuer by blast
  obtain d' in2 where n: "next_certificate env lookups input2 d = Inr (Some (d', in2))" "alike c' d'"
    "list_all2 alike input' in2"
    using alike_next_certificate [OF further.prems(1,2), of env lookups] further.hyps(2)
    by (auto simp: alike_next_def rel_option_iff elim!: rel_sum.cases split: option.splits)
  have anc: "is_anchor env lookups purp d' = Inr False" using further.hyps(3) alike_anchor [OF n(2)] by simp
  have "list_all2 alike (certs @ [c']) (certs2 @ [d'])"
    using further.prems(3) n(2) by (simp add: list_all2_appendI)
  from further.IH [OF n(2,3) this] show ?case
    using builds.further [OF self n(1) anc] by blast
qed

lemma alike_sym: "list_all2 alike xs ys \<Longrightarrow> list_all2 alike ys xs"
  by (induction rule: list_all2_induct) (auto simp: alike_def)

lemma alike_build_loop:
  assumes "alike c d" "list_all2 alike input input2" "list_all2 alike certs certs2"
  shows "rel_option (rel_sum (=) (rel_prod (list_all2 alike) (=)))
    (build_loop env lookups purp c input certs) (build_loop env lookups purp d input2 certs2)"
proof (cases "build_loop env lookups purp c input certs")
  case None
  have sym: "alike d c" using assms(1) by (simp add: alike_def)
  have "build_loop env lookups purp d input2 certs2 = None"
  proof (rule ccontr)
    assume "build_loop env lookups purp d input2 certs2 \<noteq> None"
    then obtain s where "builds env lookups purp d input2 certs2 s" by (auto simp: build_loop_iff)
    from alike_builds [OF this sym alike_sym [OF assms(2)] alike_sym [OF assms(3)]] show False
      using None by (auto simp flip: build_loop_iff)
  qed
  then show ?thesis using None by simp
next
  case (Some r)
  then have "builds env lookups purp c input certs r" by (simp add: build_loop_iff)
  from alike_builds [OF this assms] show ?thesis using Some by (auto simp flip: build_loop_iff)
qed

lemma alike_restore: "list_all2 alike xs ys \<Longrightarrow> map restore_certificate xs = map restore_certificate ys"
  by (induction rule: list_all2_induct) (auto simp: alike_def)

lemma alike_safe: "alike (thread_safe_certificate c) c"
  by (cases c) (simp_all add: alike_def thread_safe_certificate_def restore_certificate_def)

text \<open>
  C23. Building in another thread is building: \<open>gcr_certificate_chain_build_async\<close> with its
  \<open>_finish\<close> - which work on thread-safe copies of the certificates and put the original objects
  back - give the same error, the same certificate objects and the same status as the synchronous
  call, and return in exactly the same cases.
\<close>

theorem async_build_equals_build:
  "map_option (gcr_certificate_chain_build_finish self)
     (gcr_certificate_chain_build_async env self purp pr flags) =
   gcr_certificate_chain_build env self purp pr flags"
proof (cases "certificates self")
  case Nil
  then show ?thesis
    by (simp add: gcr_certificate_chain_build_finish_def gcr_certificate_chain_build_async_def
        gcr_certificate_chain_build_def prep_chain_private_thread_safe_def prep_chain_private_def
        perform_build_chain_def pop_certificate_def new_chain_private_def cleanup_chain_private_def)
next
  case (Cons first others)
  let ?ts = thread_safe_certificate
  let ?pv = "prep_chain_private self purp pr flags"
  have certs: "certificates ?pv = first # others"
    "certificates (prep_chain_private_thread_safe self purp pr flags) = ?ts first # map ?ts others"
    by (simp_all add: prep_chain_private_def prep_chain_private_thread_safe_def Cons)
  have fields: "no_lookups ?pv = flags" "purpose ?pv = purp" "peer ?pv = pr"
    by (simp_all add: prep_chain_private_def)
  have der: "der_data (?ts first) = der_data first" using alike_safe by (simp add: alike_def)
  have "list_all2 alike (?ts first # map ?ts others) (first # others)"
    by (simp add: alike_safe list_all2_map1 list.rel_refl)
  then have "list_all2 alike (remove_index_fast (?ts first # map ?ts others) 0) (remove_index_fast (first # others) 0)"
    by (rule alike_remove) simp
  from alike_build_loop [OF alike_safe this, of "[?ts first]" "[first]" env "\<not> flags" purp]
  have rel: "rel_option (rel_sum (=) (rel_prod (list_all2 alike) (=)))
    (build_loop env (\<not> flags) purp (?ts first) (remove_index_fast (?ts first # map ?ts others) 0) [?ts first])
    (build_loop env (\<not> flags) purp first (remove_index_fast (first # others) 0) [first])"
    by (simp add: alike_safe)
  have one: "restore_certificate (?ts first) = restore_certificate first"
    using alike_safe by (simp add: alike_def)
  show ?thesis
    unfolding gcr_certificate_chain_build_async_def gcr_certificate_chain_build_def
      perform_pop [OF certs(1)] perform_pop [OF certs(2)] Let_def
    using rel
    by (auto simp: fields der one gcr_certificate_chain_build_finish_def cleanup_chain_private_def
        prep_chain_private_thread_safe_def prep_chain_private_def new_chain_private_def
        rel_option_iff rel_sum.simps dest!: alike_restore
        split: option.splits sum.splits if_splits prod.splits)
qed

section \<open>Concrete chains\<close>

definition example_env :: chain_env where
  "example_env = \<lparr>subject_name = (\<lambda>der. Some (take 1 der)), issuer_name = (\<lambda>der. Some (drop 1 der)),
     trust_pinned = (\<lambda>der purp pr. Inr False), trust_anchored = (\<lambda>der purp. Inr (der = [2, 3])),
     lookup_issuer = (\<lambda>der. if der = [1, 2] then Inr (Some (Pkcs11Certificate 7 [2, 3])) else Inr None)\<rparr>"

definition example_chain :: chain where
  "example_chain = gcr_certificate_chain_add new_chain_private (OtherCertificate 0 [1, 2])"

declare build_loop.simps [code]

lemma example_build:
  "gcr_certificate_chain_build example_env example_chain ''p'' None False =
     Some (None, \<lparr>certificates = [OtherCertificate 0 [1, 2], Pkcs11Certificate 7 [2, 3]], status = Anchored,
       purpose = ''p'', peer = None, no_lookups = False\<rparr>)"
  by code_simp

lemma example_matches: "lookups_match example_env"
  by (auto simp: lookups_match_def example_env_def gcr_certificate_is_issuer_def split: if_splits)

lemma chain_build_correct_witness:
  "\<exists>certs. [OtherCertificate 0 [1, 2], Pkcs11Certificate 7 [2, 3]] = map restore_certificate certs \<and>
    chain_result example_env (prep_chain_private example_chain ''p'' None False) certs Anchored"
  using chain_build_correct [OF example_build example_matches] by simp

lemma no_lookups_isolated_witness:
  "gcr_certificate_chain_build (example_env\<lparr>lookup_issuer := (\<lambda>der. Inl 3)\<rparr>) example_chain ''p'' None True =
     gcr_certificate_chain_build example_env example_chain ''p'' None True"
  using no_lookups_isolated [of "example_env\<lparr>lookup_issuer := (\<lambda>der. Inl 3)\<rparr>" example_env example_chain "''p''" None]
  by simp

text \<open>A token that holds a self-signed authority, which is the issuer of itself and of the endpoint, and is not trusted.\<close>

definition self_signed_env :: chain_env where
  "self_signed_env = example_env\<lparr>trust_anchored := (\<lambda>der purp. Inr False),
     lookup_issuer := (\<lambda>der. if drop 1 der = [2] then Inr (Some (Pkcs11Certificate 7 [2, 2])) else Inr None)\<rparr>"

lemma chain_build_returns_witness:
  "lookup_issuer self_signed_env [1, 2] = Inr (Some (Pkcs11Certificate 7 [2, 2])) \<and>
    lookup_issuer self_signed_env [2, 2] = Inr (Some (Pkcs11Certificate 7 [2, 2])) \<and>
    (\<exists>err self'. gcr_certificate_chain_build self_signed_env example_chain ''p'' (Some ''q'') False = Some (err, self'))"
proof -
  have "lookups_ascend self_signed_env ''p'' (\<lambda>der. 0)"
    by (auto simp: lookups_ascend_def self_issued_def gcr_certificate_is_issuer_def self_signed_env_def example_env_def
        split: if_splits)
  then have "\<exists>err self'. gcr_certificate_chain_build self_signed_env example_chain ''p'' (Some ''q'') False = Some (err, self')"
    using chain_build_returns [of False self_signed_env "''p''" "\<lambda>der. 0" example_chain "Some ''q''"] by blast
  then show ?thesis unfolding self_signed_env_def by simp
qed

definition cross_env :: chain_env where
  "cross_env = example_env\<lparr>lookup_issuer := (\<lambda>der. if der = [1, 2] then Inr (Some (Pkcs11Certificate 7 [2, 1]))
     else Inr (Some (OtherCertificate 0 [1, 2])))\<rparr>"

lemma cross_certificates_diverge_witness:
  "gcr_certificate_chain_build cross_env example_chain ''p'' (Some ''q'') False = None"
  by (rule cross_certificates_diverge [of _ "OtherCertificate 0 [1, 2]" _ "Pkcs11Certificate 7 [2, 1]"])
    (simp_all add: cross_env_def example_env_def example_chain_def new_chain_private_def
      gcr_certificate_chain_add_def self_issued_def gcr_certificate_is_issuer_def)

end
