(* ===== verification/SecurePool.thy ===== *)
theory SecurePool
  imports GcrPrelude
begin

text \<open>
  The pool of \<open>egg/egg-secure-memory.c\<close>: items of one size, which hold the descriptions of
  cells and blocks. Pools are mapped from the kernel one by one, and unmapped with their last
  item. An address is a natural number and \<open>0\<close> is \<open>NULL\<close>; the sizes are those of a machine with
  pointers of 8 bytes. The linked list of pools is a list, the newest first; the stack of unused
  items, which the code threads through the items themselves, is a list, too.
\<close>

section \<open>The stack of unused items\<close>

definition unused_push :: "nat list \<Rightarrow> nat \<Rightarrow> nat list option" where
  "unused_push stack ptr = do { c_assert (ptr \<noteq> 0); Some (ptr # stack) }"

text \<open>Popping the empty stack dereferences \<open>NULL\<close>.\<close>

definition unused_pop :: "nat list \<Rightarrow> (nat \<times> nat list) option" where
  "unused_pop stack = (case stack of [] \<Rightarrow> None | ptr # rest \<Rightarrow> Some (ptr, rest))"

definition unused_peek :: "nat list \<Rightarrow> nat" where
  "unused_peek stack = (case stack of [] \<Rightarrow> 0 | ptr # _ \<Rightarrow> ptr)"

section \<open>Pools\<close>

text \<open>\<open>Item\<close> is the larger of \<open>Cell\<close> and \<open>Block\<close>, six pointers; a \<open>Pool\<close> ends with its first item.\<close>

definition sizeof_item :: nat where
  "sizeof_item = 48"

definition sizeof_pool :: nat where
  "sizeof_pool = 88"

definition items_offset :: nat where
  "items_offset = 40"

record pool =
  p_base :: nat
  p_length :: nat
  p_used :: nat
  p_unused :: "nat list"
  p_n_items :: nat

text \<open>
  What the pool asks of its surroundings: whether the version of the pool is the one of this code,
  the size of a page, and the answer of \<open>mmap\<close> (where \<open>0\<close> stands for \<open>MAP_FAILED\<close>).
\<close>

record pool_env =
  version_ok :: bool
  page_size :: nat
  map_pages :: "nat \<Rightarrow> nat"

fun push_items :: "nat \<Rightarrow> nat \<Rightarrow> nat list \<Rightarrow> nat list option" where
  "push_items at 0 stack = Some stack"
| "push_items at (Suc n) stack = do {
     stack \<leftarrow> unused_push stack at;
     push_items (at + sizeof_item) n stack }"

definition new_pool :: "nat \<Rightarrow> nat \<Rightarrow> pool option" where
  "new_pool pages len =
     (let n = (len - sizeof_pool) div sizeof_item
      in do {
        stack \<leftarrow> push_items (pages + items_offset) n [];
        Some \<lparr>p_base = pages, p_length = len, p_used = 0, p_unused = stack, p_n_items = n\<rparr> })"

text \<open>The first pool with an unused item, and the pools before and after it.\<close>

fun available_pool :: "pool list \<Rightarrow> (pool list \<times> pool \<times> pool list) option" where
  "available_pool [] = None"
| "available_pool (p # ps) =
     (if unused_peek (p_unused p) \<noteq> 0 then Some ([], p, ps)
      else map_option (\<lambda>(before, q, after). (p # before, q, after)) (available_pool ps))"

definition pool_alloc :: "pool_env \<Rightarrow> pool list \<Rightarrow> (nat \<times> pool list) option" where
  "pool_alloc pe ps =
     (if \<not> version_ok pe then Some (0, ps)
      else do {
        found \<leftarrow> (case available_pool ps of
            Some found \<Rightarrow> Some (Some found)
          | None \<Rightarrow>
              let len = page_size pe * 2;
                  pages = map_pages pe len
              in if pages = 0 then Some None
                 else do { p \<leftarrow> new_pool pages len; Some (Some ([], p, ps)) });
        case found of
          None \<Rightarrow> Some (0, ps)
        | Some (before, p, after) \<Rightarrow> do {
            c_assert (unused_peek (p_unused p) \<noteq> 0);
            (item, rest) \<leftarrow> unused_pop (p_unused p);
            Some (item, before @ p\<lparr>p_used := p_used p + 1, p_unused := rest\<rparr> # after) } })"

definition items_begin :: "pool \<Rightarrow> nat" where
  "items_begin p = p_base p + items_offset"

definition items_end :: "pool \<Rightarrow> nat" where
  "items_end p = p_base p + p_length p - sizeof_item"

text \<open>A pool that loses its last item is unmapped; an address outside of all pools is an error.\<close>

fun pool_free :: "pool list \<Rightarrow> nat \<Rightarrow> pool list option" where
  "pool_free [] item = None"
| "pool_free (p # ps) item =
     (if items_begin p \<le> item \<and> item \<le> items_end p
      then do {
        c_assert ((item - items_begin p) mod sizeof_item = 0);
        c_assert (p_used p > 0);
        if p_used p = 1 then Some ps
        else do {
          stack \<leftarrow> unused_push (p_unused p) item;
          Some (p\<lparr>p_used := p_used p - 1, p_unused := stack\<rparr> # ps) } }
      else map_option ((#) p) (pool_free ps item))"

fun pool_valid :: "pool list \<Rightarrow> nat \<Rightarrow> bool" where
  "pool_valid [] item = False"
| "pool_valid (p # ps) item =
     (if items_begin p \<le> item \<and> item \<le> items_end p
      then p_used p \<noteq> 0 \<and> (item - items_begin p) mod sizeof_item = 0
      else pool_valid ps item)"

section \<open>The contract of a pool\<close>

definition pool_items :: "pool \<Rightarrow> nat set" where
  "pool_items p = (\<lambda>i. items_begin p + sizeof_item * i) ` {..<p_n_items p}"

definition items_in_use :: "pool \<Rightarrow> nat set" where
  "items_in_use p = pool_items p - set (p_unused p)"

text \<open>
  Every item of a pool is in use or on its stack; the counter counts those in use, and is not zero.
\<close>

definition pool_ok :: "pool \<Rightarrow> bool" where
  "pool_ok p \<longleftrightarrow> p_base p > 0 \<and> p_base p + p_length p < size_limit \<and> sizeof_pool \<le> p_length p \<and>
     p_n_items p = (p_length p - sizeof_pool) div sizeof_item \<and>
     distinct (p_unused p) \<and> set (p_unused p) \<subseteq> pool_items p \<and>
     p_used p + length (p_unused p) = p_n_items p \<and> p_used p > 0"

definition apart :: "pool \<Rightarrow> pool \<Rightarrow> bool" where
  "apart p q \<longleftrightarrow> p_base p + p_length p \<le> p_base q \<or> p_base q + p_length q \<le> p_base p"

definition pools_own :: "pool list \<Rightarrow> nat set \<Rightarrow> bool" where
  "pools_own ps A \<longleftrightarrow> (\<forall>p \<in> set ps. pool_ok p) \<and> sorted_wrt apart ps \<and>
     A = (\<Union>p \<in> set ps. items_in_use p)"

text \<open>The kernel maps pages where nothing is mapped, and a page has room for some items.\<close>

definition maps_fresh :: "pool_env \<Rightarrow> pool list \<Rightarrow> bool" where
  "maps_fresh pe ps \<longleftrightarrow> 128 \<le> page_size pe \<and> (let len = page_size pe * 2; pages = map_pages pe len
     in pages \<noteq> 0 \<longrightarrow> pages + len < size_limit \<and>
        (\<forall>p \<in> set ps. pages + len \<le> p_base p \<or> p_base p + p_length p \<le> pages))"


lemma item_bounds:
  assumes "pool_ok p" "i \<in> pool_items p"
  shows "items_begin p \<le> i" "i \<le> items_end p" "(i - items_begin p) mod sizeof_item = 0"
    "p_base p < i" "i < p_base p + p_length p"
proof -
  obtain k where k: "i = items_begin p + sizeof_item * k" "k < (p_length p - sizeof_pool) div sizeof_item"
    using assms by (auto simp: pool_items_def pool_ok_def)
  then have "sizeof_item * (k + 1) \<le> p_length p - sizeof_pool"
    by (simp add: sizeof_item_def sizeof_pool_def)
  then show "items_begin p \<le> i" "i \<le> items_end p" "(i - items_begin p) mod sizeof_item = 0"
    "p_base p < i" "i < p_base p + p_length p"
    using k(1) assms(1) by (auto simp: items_begin_def items_end_def items_offset_def sizeof_item_def
        sizeof_pool_def pool_ok_def)
qed

lemma outside_other_pool:
  assumes "pool_ok p" "pool_ok q" "apart p q \<or> apart q p" "i \<in> pool_items p"
  shows "\<not> (items_begin q \<le> i \<and> i \<le> items_end q)"
  using item_bounds(4,5) [OF assms(1,4)] assms(2,3)
  by (auto simp: apart_def items_begin_def items_end_def items_offset_def sizeof_item_def
      sizeof_pool_def pool_ok_def)

lemma in_use_disjoint:
  assumes "pool_ok p" "pool_ok q" "apart p q \<or> apart q p"
  shows "items_in_use p \<inter> items_in_use q = {}"
  using outside_other_pool [OF assms] item_bounds(1,2) [OF assms(2)] by (auto simp: items_in_use_def)

lemma card_pool_items: "card (pool_items p) = p_n_items p" "finite (pool_items p)"
  unfolding pool_items_def by (subst card_image) (auto simp: inj_on_def sizeof_item_def)

lemma card_in_use: "pool_ok p \<Longrightarrow> card (items_in_use p) = p_used p"
  unfolding items_in_use_def
  by (subst card_Diff_subset) (auto simp: pool_ok_def card_pool_items distinct_card)

lemma pools_own_append:
  "pools_own (before @ p # after) A \<longleftrightarrow> pools_own (before @ after) (A - items_in_use p) \<and> pool_ok p \<and>
     (\<forall>q \<in> set (before @ after). apart p q \<or> apart q p) \<and> sorted_wrt apart (before @ p # after) \<and>
     items_in_use p \<subseteq> A"
  (is "?l \<longleftrightarrow> ?r")
proof -
  have "(\<Union>q \<in> set (before @ p # after). items_in_use q) - items_in_use p =
      (\<Union>q \<in> set (before @ after). items_in_use q)"
    if "\<forall>q \<in> set (before @ p # after). pool_ok q" "\<forall>q \<in> set (before @ after). apart p q \<or> apart q p"
    using in_use_disjoint [of p] that by fastforce
  then show ?thesis
    by (auto simp: pools_own_def sorted_wrt_append)
qed

lemma pools_replace:
  assumes "pools_own (before @ p # after) A" "pool_ok p'" "p_base p' = p_base p" "p_length p' = p_length p"
  shows "pools_own (before @ p' # after) (A - items_in_use p \<union> items_in_use p')"
proof -
  have ap: "apart p' q = apart p q" "apart q p' = apart q p" for q using assms(3,4) by (auto simp: apart_def)
  have B: "pools_own (before @ after) (A - items_in_use p)" "\<forall>q \<in> set (before @ after). apart p' q \<or> apart q p'"
    "sorted_wrt apart (before @ p' # after)"
    using assms(1) unfolding pools_own_append by (auto simp: ap sorted_wrt_append)
  have "items_in_use p' \<inter> (A - items_in_use p) = {}"
    using in_use_disjoint [OF assms(2)] B(1,2) unfolding pools_own_def by fastforce
  then have "A - items_in_use p \<union> items_in_use p' - items_in_use p' = A - items_in_use p" by blast
  then show ?thesis using B assms(2) unfolding pools_own_append by simp
qed

lemma unused_peek_zero: "pool_ok p \<Longrightarrow> unused_peek (p_unused p) = 0 \<longleftrightarrow> p_unused p = []"
  using item_bounds(4) [of p "hd (p_unused p)"]
  by (cases "p_unused p") (auto simp: unused_peek_def pool_ok_def)

lemma available_pool_Some:
  "available_pool ps = Some (before, p, after) \<Longrightarrow> ps = before @ p # after \<and> unused_peek (p_unused p) \<noteq> 0"
  by (induction ps arbitrary: before) (auto split: if_splits)

lemma push_items_eq: "at \<noteq> 0 \<Longrightarrow> push_items at n stack = Some (rev (map (\<lambda>i. at + sizeof_item * i) [0..<n]) @ stack)"
proof (induction n arbitrary: "at" stack)
  case (Suc n)
  have "map (\<lambda>i. at + sizeof_item * i) [0..<Suc n] = at # map (\<lambda>i. at + sizeof_item + sizeof_item * i) [0..<n]"
    by (simp add: upt_rec [of 0] map_Suc_upt [symmetric] del: upt_Suc)
  then show ?case using Suc by (simp add: unused_push_def del: upt_Suc)
qed simp

text \<open>Taking the top item off the stack of a pool.\<close>

lemma take_top:
  assumes "pools_own (before @ p # after) A" "p_unused p = i # rest"
  shows "pools_own (before @ p\<lparr>p_used := p_used p + 1, p_unused := rest\<rparr> # after) (insert i A) \<and> i \<notin> A"
proof -
  let ?p = "p\<lparr>p_used := p_used p + 1, p_unused := rest\<rparr>"
  have own: "pool_ok p" "items_in_use p \<subseteq> A" using assms(1) by (auto simp: pools_own_append)
  then have ok: "pool_ok ?p" using assms(2) by (auto simp: pool_ok_def pool_items_def items_begin_def)
  have i: "i \<in> pool_items p" "i \<notin> set rest" "i \<notin> items_in_use p"
    using own(1) assms(2) by (auto simp: pool_ok_def items_in_use_def)
  have "items_in_use ?p = insert i (items_in_use p)"
    using i assms(2) by (auto simp: items_in_use_def pool_items_def items_begin_def)
  moreover have "i \<notin> A"
  proof
    assume "i \<in> A"
    then have "i \<in> A - items_in_use p" using i(3) by simp
    then obtain q where "q \<in> set (before @ after)" "i \<in> items_in_use q"
      using assms(1) unfolding pools_own_def by auto
    moreover have "apart p q \<or> apart q p" "pool_ok q" using assms(1) calculation(1)
      unfolding pools_own_append by (auto simp: pools_own_def)
    ultimately show False
      using outside_other_pool [OF own(1) _ _ i(1), of q] item_bounds(1,2) [of q i]
      by (auto simp: items_in_use_def)
  qed
  ultimately show ?thesis
    using pools_replace [OF assms(1) ok] own(2) by (simp add: Un_absorb2)
qed


lemma new_pool_own:
  assumes "maps_fresh pe ps" "pools_own ps A" "map_pages pe (page_size pe * 2) \<noteq> 0"
  shows "\<exists>p i rest. new_pool (map_pages pe (page_size pe * 2)) (page_size pe * 2) = Some p \<and>
    p_unused p = i # rest \<and> i \<noteq> 0 \<and> i \<notin> A \<and>
    pools_own (p\<lparr>p_used := p_used p + 1, p_unused := rest\<rparr> # ps) (insert i A)"
proof -
  let ?len = "page_size pe * 2" and ?pages = "map_pages pe (page_size pe * 2)"
  let ?n = "(?len - sizeof_pool) div sizeof_item"
  let ?items = "map (\<lambda>i. ?pages + items_offset + sizeof_item * i) [0..<?n]"
  let ?p = "\<lparr>p_base = ?pages, p_length = ?len, p_used = 0, p_unused = rev ?items, p_n_items = ?n\<rparr>"
  have f: "128 \<le> page_size pe" "?pages + ?len < size_limit"
    "\<forall>p \<in> set ps. ?pages + ?len \<le> p_base p \<or> p_base p + p_length p \<le> ?pages"
    using assms(1,3) by (auto simp: maps_fresh_def Let_def)
  have new: "new_pool ?pages ?len = Some ?p"
    using push_items_eq [of "?pages + items_offset" ?n "[]"] by (simp add: new_pool_def Let_def items_offset_def)
  have n: "?n > 0" using f(1) by (simp add: sizeof_pool_def sizeof_item_def)
  then obtain i rest where ir: "rev ?items = i # rest" by (cases "rev ?items") auto
  have all: "distinct ?items" "set ?items = pool_items ?p"
    by (auto simp: distinct_map inj_on_def sizeof_item_def pool_items_def items_begin_def)
  define q where "q = ?p\<lparr>p_used := p_used ?p + 1, p_unused := rest\<rparr>"
  have items: "pool_items q = pool_items ?p" by (simp add: q_def pool_items_def items_begin_def)
  have qs: "p_base q = ?pages" "p_length q = ?len" "p_used q = 1" "p_unused q = rest" "p_n_items q = ?n"
    by (simp_all add: q_def)
  have len: "length rest + 1 = ?n" using arg_cong [OF ir, of length] by simp
  have sets: "distinct (i # rest)" "set (i # rest) = pool_items ?p"
    using all ir by (metis distinct_rev) (metis all(2) ir set_rev)
  have ok: "pool_ok q"
    using f sets len assms(3) unfolding pool_ok_def qs items by (auto simp: sizeof_pool_def)
  have use: "items_in_use q = {i}"
    using sets by (auto simp: items_in_use_def items qs)
  have apart: "\<forall>p \<in> set ps. apart q p"
    using f(3) by (auto simp: apart_def qs)
  have notin: "i \<notin> A"
  proof
    assume "i \<in> A"
    then obtain p where "p \<in> set ps" "i \<in> items_in_use p" using assms(2) by (auto simp: pools_own_def)
    moreover have "apart q p" "pool_ok p" using calculation(1) assms(2) apart by (auto simp: pools_own_def)
    ultimately show False using in_use_disjoint [OF ok, of p] use by auto
  qed
  have "pools_own (q # ps) (insert i A)"
    using assms(2) ok apart use by (simp add: pools_own_def)
  moreover have "i \<noteq> 0"
  proof -
    have "i \<in> pool_items q" using use unfolding items_in_use_def by blast
    from item_bounds(4) [OF ok this] show ?thesis by simp
  qed
  ultimately show ?thesis using new ir notin by (auto simp: q_def)
qed

lemma pool_alloc_owns:
  assumes "maps_fresh pe ps" "pools_own ps A"
  shows "\<exists>i ps'. pool_alloc pe ps = Some (i, ps') \<and>
    (i = 0 \<and> ps' = ps \<or> i \<noteq> 0 \<and> i \<notin> A \<and> pools_own ps' (insert i A))"
proof (cases "version_ok pe")
  case True
  show ?thesis
  proof (cases "available_pool ps")
    case None
    show ?thesis
    proof (cases "map_pages pe (page_size pe * 2) = 0")
      case False
      then show ?thesis
        using new_pool_own [OF assms False] True None
        by (auto simp: pool_alloc_def Let_def unused_peek_def unused_pop_def)
    qed (use True None in \<open>simp add: pool_alloc_def Let_def\<close>)
  next
    case (Some found)
    then obtain before p after where f: "available_pool ps = Some (before, p, after)" by (cases found) auto
    note ps = available_pool_Some [OF f]
    then have ok: "pool_ok p" using assms(2) by (auto simp: pools_own_def)
    then obtain i rest where ir: "p_unused p = i # rest"
      using ps unused_peek_zero [OF ok] by (cases "p_unused p") auto
    show ?thesis
      using take_top [of before p after A i rest] assms(2) ps ir True f
      by (simp add: pool_alloc_def unused_peek_def unused_pop_def)
  qed
qed (simp add: pool_alloc_def)

lemma split_at_item:
  assumes "pools_own ps A" "i \<in> A"
  obtains before p after where "ps = before @ p # after" "i \<in> items_in_use p" "pool_ok p"
    "\<forall>q \<in> set before. \<not> (items_begin q \<le> i \<and> i \<le> items_end q)"
proof -
  obtain p where p: "p \<in> set ps" "i \<in> items_in_use p" using assms by (auto simp: pools_own_def)
  then obtain before after where ps: "ps = before @ p # after" by (auto dest: split_list)
  then have ok: "pool_ok p" "\<forall>q \<in> set before. pool_ok q \<and> apart q p"
    using assms(1) by (auto simp: pools_own_def sorted_wrt_append)
  then have "\<forall>q \<in> set before. \<not> (items_begin q \<le> i \<and> i \<le> items_end q)"
    using outside_other_pool [OF ok(1)] p(2) by (auto simp: items_in_use_def)
  then show thesis using that ps p(2) ok(1) by blast
qed

lemma pool_free_skip:
  "\<forall>q \<in> set before. \<not> (items_begin q \<le> i \<and> i \<le> items_end q) \<Longrightarrow>
    pool_free (before @ ps) i = map_option (\<lambda>qs. before @ qs) (pool_free ps i)"
  by (cases "pool_free ps i"; induction before) auto

lemma pool_valid_skip:
  "\<forall>q \<in> set before. \<not> (items_begin q \<le> i \<and> i \<le> items_end q) \<Longrightarrow> pool_valid (before @ ps) i = pool_valid ps i"
  by (induction before) auto

lemma pool_free_owns:
  assumes "pools_own ps A" "i \<in> A"
  shows "\<exists>ps'. pool_free ps i = Some ps' \<and> pools_own ps' (A - {i})"
proof -
  obtain before p after where p: "ps = before @ p # after" "i \<in> items_in_use p" "pool_ok p"
    "\<forall>q \<in> set before. \<not> (items_begin q \<le> i \<and> i \<le> items_end q)"
    using split_at_item [OF assms] .
  have i: "i \<in> pool_items p" "i \<notin> set (p_unused p)" using p(2) by (auto simp: items_in_use_def)
  note b = item_bounds [OF p(3) i(1)]
  have used: "p_used p > 0" using p(3) by (simp add: pool_ok_def)
  have own: "pools_own (before @ after) (A - items_in_use p)" "items_in_use p \<subseteq> A"
    using assms(1) unfolding p(1) pools_own_append by auto
  show ?thesis
  proof (cases "p_used p = 1")
    case True
    then have "items_in_use p = {i}"
      using card_in_use [OF p(3)] p(2) by (auto simp: card_1_singleton_iff)
    then show ?thesis
      using own b True used by (simp add: p(1) pool_free_skip [OF p(4)])
  next
    case False
    let ?p = "p\<lparr>p_used := p_used p - 1, p_unused := i # p_unused p\<rparr>"
    have ok: "pool_ok ?p"
      using p(3) i False used by (auto simp: pool_ok_def pool_items_def items_begin_def)
    have "items_in_use ?p = items_in_use p - {i}"
      by (auto simp: items_in_use_def pool_items_def items_begin_def)
    then have "A - items_in_use p \<union> items_in_use ?p = A - {i}" using own(2) p(2) by auto
    then have "pools_own (before @ ?p # after) (A - {i})"
      using pools_replace [OF assms(1)[unfolded p(1)] ok] by simp
    then show ?thesis
      using b False used by (simp add: p(1) pool_free_skip [OF p(4)] unused_push_def)
  qed
qed

lemma pool_valid_owned:
  assumes "pools_own ps A" "i \<in> A"
  shows "pool_valid ps i" "0 < i" "i < size_limit"
proof -
  obtain before p after where p: "ps = before @ p # after" "i \<in> items_in_use p" "pool_ok p"
    "\<forall>q \<in> set before. \<not> (items_begin q \<le> i \<and> i \<le> items_end q)"
    using split_at_item [OF assms] .
  have i: "i \<in> pool_items p" using p(2) by (auto simp: items_in_use_def)
  show "pool_valid ps i"
    using item_bounds [OF p(3) i] p(3) by (simp add: p(1) pool_valid_skip [OF p(4)] pool_ok_def)
  show "0 < i" "i < size_limit"
    using item_bounds(4,5) [OF p(3) i] p(3) by (auto simp: pool_ok_def)
qed


section \<open>The interface for the allocator\<close>

text \<open>
  What the allocator relies on: an item that is taken is new, stays owned until it is given back,
  and is an address. \<open>fit\<close> says that the surroundings behave at the time of the call.
\<close>

locale item_source =
  fixes take_item :: "'e \<Rightarrow> 's \<Rightarrow> (nat \<times> 's) option"
    and give_item :: "'s \<Rightarrow> nat \<Rightarrow> 's option"
    and valid_item :: "'s \<Rightarrow> nat \<Rightarrow> bool"
    and owns :: "'s \<Rightarrow> nat set \<Rightarrow> bool"
    and fit :: "'e \<Rightarrow> 's \<Rightarrow> bool"
  assumes take_fresh: "\<And>e s A. fit e s \<Longrightarrow> owns s A \<Longrightarrow> \<exists>i s'. take_item e s = Some (i, s') \<and>
      (i = 0 \<and> s' = s \<or> i \<noteq> 0 \<and> i \<notin> A \<and> owns s' (insert i A))"
    and give_back: "\<And>s A i. owns s A \<Longrightarrow> i \<in> A \<Longrightarrow> \<exists>s'. give_item s i = Some s' \<and> owns s' (A - {i})"
    and valid_owned: "\<And>s A i. owns s A \<Longrightarrow> i \<in> A \<Longrightarrow> valid_item s i"
    and owned_address: "\<And>s A i. owns s A \<Longrightarrow> i \<in> A \<Longrightarrow> 0 < i \<and> i < size_limit"
    and owns_unique: "\<And>s A B. owns s A \<Longrightarrow> owns s B \<Longrightarrow> A = B"

fun give_items :: "('s \<Rightarrow> nat \<Rightarrow> 's option) \<Rightarrow> 's \<Rightarrow> nat list \<Rightarrow> 's option" where
  "give_items give s [] = Some s"
| "give_items give s (i # is) = do { s \<leftarrow> give s i; give_items give s is }"

context item_source
begin

lemma take_cases:
  assumes "fit e s" "owns s A"
  obtains (no_memory) "take_item e s = Some (0, s)"
  | (taken) i s' where "take_item e s = Some (i, s')" "i \<noteq> 0" "i \<notin> A" "owns s' (insert i A)"
  using take_fresh [OF assms] by auto

lemma give_again:
  assumes "owns s A" "i \<notin> A" "owns s' (insert i A)"
  shows "\<exists>s''. give_item s' i = Some s'' \<and> owns s'' A"
  using give_back [OF assms(3), of i] assms(2) by auto

lemma give_all:
  "owns s A \<Longrightarrow> distinct is \<Longrightarrow> set is \<subseteq> A \<Longrightarrow> \<exists>s'. give_items give_item s is = Some s' \<and> owns s' (A - set is)"
proof (induction "is" arbitrary: s A)
  case (Cons i "is")
  then obtain s1 where s1: "give_item s i = Some s1" "owns s1 (A - {i})"
    using give_back [OF Cons.prems(1), of i] by auto
  have "set is \<subseteq> A - {i}" using Cons.prems(2,3) by auto
  then show ?case
    using Cons.IH [OF s1(2)] Cons.prems(2) s1(1) by (auto simp: Diff_insert2 [symmetric] insert_Diff_if)
qed simp

end

lemma item_source_pool: "item_source pool_alloc pool_free pool_valid pools_own maps_fresh"
  by unfold_locales (fact pool_alloc_owns, fact pool_free_owns, fact pool_valid_owned(1),
      use pool_valid_owned in blast, simp add: pools_own_def)

interpretation items: item_source pool_alloc pool_free pool_valid pools_own maps_fresh
  by (rule item_source_pool)

end
