(* ===== verification/CellRing.thy ===== *)
theory CellRing
  imports GcrPrelude
begin

text \<open>
  Cells of \<open>egg/egg-secure-memory.c\<close>, which describe pieces of secure memory, and the doubly linked
  rings that hold the used and the unused ones. Cells live at addresses and point at each other;
  following \<open>NULL\<close> or an address without a cell, and a failed assertion, are \<open>None\<close>.
\<close>

section \<open>Cells and rings in memory\<close>

record cell =
  c_words :: nat
  c_n_words :: nat
  c_requested :: nat
  c_tag :: "string option"
  c_next :: nat
  c_prev :: nat

type_synonym cells = "nat \<Rightarrow> cell option"

text \<open>A new item is filled with zeros.\<close>

definition blank_cell :: cell where
  "blank_cell = \<lparr>c_words = 0, c_n_words = 0, c_requested = 0, c_tag = None, c_next = 0, c_prev = 0\<rparr>"

definition cell_at :: "cells \<Rightarrow> nat \<Rightarrow> cell option" where
  "cell_at cs p = (if p = 0 then None else cs p)"

definition set_next :: "cells \<Rightarrow> nat \<Rightarrow> nat \<Rightarrow> cells option" where
  "set_next cs p v = do { c \<leftarrow> cell_at cs p; Some (cs(p \<mapsto> c\<lparr>c_next := v\<rparr>)) }"

definition set_prev :: "cells \<Rightarrow> nat \<Rightarrow> nat \<Rightarrow> cells option" where
  "set_prev cs p v = do { c \<leftarrow> cell_at cs p; Some (cs(p \<mapsto> c\<lparr>c_prev := v\<rparr>)) }"

text \<open>The assertions that a cell and its neighbours in the ring agree.\<close>

definition check_links :: "cells \<Rightarrow> nat \<Rightarrow> unit option" where
  "check_links cs cell = do {
     c \<leftarrow> cell_at cs cell;
     n \<leftarrow> cell_at cs (c_next c);
     c_assert (c_prev n = cell);
     p \<leftarrow> cell_at cs (c_prev c);
     c_assert (c_next p = cell) }"

definition sec_insert_cell_ring :: "cells \<Rightarrow> nat \<Rightarrow> nat \<Rightarrow> (cells \<times> nat) option" where
  "sec_insert_cell_ring cs ring cell = do {
     c_assert (cell \<noteq> 0);
     c_assert (cell \<noteq> ring);
     c \<leftarrow> cell_at cs cell;
     c_assert (c_next c = 0);
     c_assert (c_prev c = 0);
     cs \<leftarrow> (if ring \<noteq> 0 then do {
         r \<leftarrow> cell_at cs ring;
         let cs = cs(cell \<mapsto> c\<lparr>c_next := c_next r, c_prev := ring\<rparr>);
         cs \<leftarrow> set_prev cs (c_next r) cell;
         set_next cs ring cell }
       else Some (cs(cell \<mapsto> c\<lparr>c_next := cell, c_prev := cell\<rparr>)));
     check_links cs cell;
     Some (cs, cell) }"

definition sec_remove_cell_ring :: "cells \<Rightarrow> nat \<Rightarrow> nat \<Rightarrow> (cells \<times> nat) option" where
  "sec_remove_cell_ring cs ring cell = do {
     c_assert (ring \<noteq> 0);
     c \<leftarrow> cell_at cs cell;
     c_assert (c_next c \<noteq> 0);
     c_assert (c_prev c \<noteq> 0);
     check_links cs cell;
     ring \<leftarrow> (if cell = ring then
         (if c_next c = cell then do { c_assert (c_prev c = cell); Some 0 }
          else do { c_assert (c_prev c \<noteq> cell); Some (c_next c) })
       else Some ring);
     cs \<leftarrow> set_prev cs (c_next c) (c_prev c);
     c \<leftarrow> cell_at cs cell;
     cs \<leftarrow> set_next cs (c_prev c) (c_next c);
     c \<leftarrow> cell_at cs cell;
     let cs = cs(cell \<mapsto> c\<lparr>c_next := 0, c_prev := 0\<rparr>);
     c_assert (ring \<noteq> cell);
     Some (cs, ring) }"

section \<open>What a ring is\<close>

text \<open>Neighbours in the cyclic order of a list point at each other.\<close>

definition neighbours :: "cells \<Rightarrow> nat \<times> nat \<Rightarrow> bool" where
  "neighbours cs p \<longleftrightarrow> (\<exists>ca cb. cs (fst p) = Some ca \<and> cs (snd p) = Some cb \<and>
     c_next ca = snd p \<and> c_prev cb = fst p)"

definition linked :: "cells \<Rightarrow> nat list \<Rightarrow> bool" where
  "linked cs xs \<longleftrightarrow> (\<forall>p \<in> set (zip xs (rotate1 xs)). neighbours cs p)"

definition ring_of :: "cells \<Rightarrow> nat \<Rightarrow> nat set \<Rightarrow> bool" where
  "ring_of cs h A \<longleftrightarrow> 0 \<notin> A \<and> (if A = {} then h = 0
     else \<exists>xs. distinct (h # xs) \<and> set (h # xs) = A \<and> linked cs (h # xs))"

text \<open>What the rings leave alone: everything but the two pointers.\<close>

definition core :: "cell \<Rightarrow> nat \<times> nat \<times> nat \<times> string option" where
  "core c = (c_words c, c_n_words c, c_requested c, c_tag c)"

definition links_only :: "cells \<Rightarrow> cells \<Rightarrow> nat set \<Rightarrow> bool" where
  "links_only cs cs' B \<longleftrightarrow> (\<forall>x. x \<notin> B \<longrightarrow> cs' x = cs x) \<and>
     (\<forall>x. map_option core (cs' x) = map_option core (cs x))"

lemma core_eq_iff:
  "core c = core d \<longleftrightarrow> c_words c = c_words d \<and> c_n_words c = c_n_words d \<and>
     c_requested c = c_requested d \<and> c_tag c = c_tag d"
  by (simp add: core_def)

lemma core_links [simp]: "core (c\<lparr>c_next := x\<rparr>) = core c" "core (c\<lparr>c_prev := x\<rparr>) = core c"
  by (simp_all add: core_def)

lemma zip_rotated:
  "zip (a # list @ [x]) (list @ [x, b]) = zip (a # list) (list @ [x]) @ [(x, b)]"
  using zip_append [of "a # list" "list @ [x]" "[x]" "[b]"] by simp

lemma linked_rotate1: "linked cs (rotate1 xs) \<longleftrightarrow> linked cs xs"
proof -
  have "set (zip (rotate1 xs) (rotate1 (rotate1 xs))) = set (zip xs (rotate1 xs))"
  proof (cases xs)
    case (Cons x ys)
    then show ?thesis
    proof (cases ys)
      case (Cons a zs)
      have "set (zip (rotate1 xs) (rotate1 (rotate1 xs))) = set (zip (a # zs @ [x]) (zs @ [x, a]))"
        using \<open>xs = x # ys\<close> Cons by simp
      then show ?thesis using \<open>xs = x # ys\<close> Cons unfolding zip_rotated by simp
    qed simp
  qed simp
  then show ?thesis by (simp add: linked_def)
qed

lemma linkedD:
  "linked cs xs \<Longrightarrow> (a, b) \<in> set (zip xs (rotate1 xs)) \<Longrightarrow>
    \<exists>ca cb. cs a = Some ca \<and> cs b = Some cb \<and> c_next ca = b \<and> c_prev cb = a"
  by (fastforce simp: linked_def neighbours_def)

lemma linked_append: "linked cs (xs @ ys) \<longleftrightarrow> linked cs (ys @ xs)"
proof -
  have "linked cs (rotate n zs) \<longleftrightarrow> linked cs zs" for n zs
    by (induction n) (simp_all add: linked_rotate1)
  from this [of "length xs" "xs @ ys"] show ?thesis by (simp add: rotate_append)
qed

lemma linked_single: "linked cs [x] \<longleftrightarrow> (\<exists>c. cs x = Some c \<and> c_next c = x \<and> c_prev c = x)"
  by (auto simp: linked_def neighbours_def)

lemma path_cong:
  assumes "\<forall>p \<in> set (zip xs ys). neighbours cs p"
    and "\<And>x. x \<in> set xs \<Longrightarrow> map_option c_next (cs' x) = map_option c_next (cs x)"
    and "\<And>y. y \<in> set ys \<Longrightarrow> map_option c_prev (cs' y) = map_option c_prev (cs y)"
  shows "\<forall>p \<in> set (zip xs ys). neighbours cs' p"
proof
  fix p
  assume p: "p \<in> set (zip xs ys)"
  then have "neighbours cs p" "fst p \<in> set xs" "snd p \<in> set ys"
    using assms(1) set_zip_leftD [of "fst p" "snd p"] set_zip_rightD [of "fst p" "snd p"] by auto
  then show "neighbours cs' p"
    using assms(2) [of "fst p"] assms(3) [of "snd p"] by (auto simp: neighbours_def)
qed

text \<open>A ring depends on the two pointers of its cells only.\<close>

definition ends :: "cell \<Rightarrow> nat \<times> nat" where
  "ends c = (c_next c, c_prev c)"

lemma ends_eq_iff: "ends c = ends d \<longleftrightarrow> c_next c = c_next d \<and> c_prev c = c_prev d"
  by (simp add: ends_def)

lemma map_ends:
  "map_option ends x = map_option ends y \<Longrightarrow> map_option c_next x = map_option c_next y"
  "map_option ends x = map_option ends y \<Longrightarrow> map_option c_prev x = map_option c_prev y"
  by (cases x; cases y; simp add: ends_def)+

lemma linked_cong:
  assumes "linked cs xs" "\<And>x. x \<in> set xs \<Longrightarrow> map_option ends (cs' x) = map_option ends (cs x)"
  shows "linked cs' xs"
  unfolding linked_def
proof (rule path_cong)
  show "\<forall>p \<in> set (zip xs (rotate1 xs)). neighbours cs p" using assms(1) by (simp add: linked_def)
  show "map_option c_next (cs' x) = map_option c_next (cs x)" if "x \<in> set xs" for x
    by (rule map_ends(1)) (rule assms(2) [OF that])
  show "map_option c_prev (cs' x) = map_option c_prev (cs x)" if "x \<in> set (rotate1 xs)" for x
    by (rule map_ends(2)) (rule assms(2), use that in simp)
qed

lemma ring_of_cong:
  assumes "ring_of cs h A" "\<And>x. x \<in> A \<Longrightarrow> map_option ends (cs' x) = map_option ends (cs x)"
  shows "ring_of cs' h A"
proof (cases "A = {}")
  case False
  then obtain xs where xs: "distinct (h # xs)" "set (h # xs) = A" "linked cs (h # xs)" "0 \<notin> A"
    using assms(1) unfolding ring_of_def by auto
  from linked_cong [OF xs(3)] assms(2) xs(2) have "linked cs' (h # xs)" by blast
  then show ?thesis using False xs(1,2,4) unfolding ring_of_def by auto
qed (use assms in \<open>simp add: ring_of_def\<close>)

text \<open>A ring seen from one of its members.\<close>

lemma ring_from:
  assumes "ring_of cs h A" "x \<in> A"
  obtains ys where "distinct (x # ys)" "set (x # ys) = A" "linked cs (x # ys)"
proof -
  obtain zs where zs: "distinct (h # zs)" "set (h # zs) = A" "linked cs (h # zs)"
    using assms by (auto simp: ring_of_def split: if_splits)
  then obtain us vs where uv: "h # zs = us @ x # vs" using assms(2) by (metis split_list)
  then have "linked cs ((x # vs) @ us)" using zs(3) linked_append by metis
  moreover have "distinct (x # vs @ us)" "set (x # vs @ us) = A"
    using zs(1,2) unfolding uv by auto
  ultimately show thesis using that [of "vs @ us"] by simp
qed

lemma ring_member:
  assumes "ring_of cs h A" "x \<in> A"
  obtains c where "cs x = Some c" "c_next c \<in> A" "c_prev c \<in> A" "c_next c \<noteq> 0" "c_prev c \<noteq> 0"
    "check_links cs x = Some ()"
proof -
  obtain ys where ys: "distinct (x # ys)" "set (x # ys) = A" "linked cs (x # ys)" using ring_from [OF assms] .
  have nz: "0 \<notin> A" using assms(1) by (simp add: ring_of_def)
  show thesis
  proof (cases ys)
    case Nil
    then obtain c where c: "cs x = Some c" "c_next c = x" "c_prev c = x" using ys(3) by (auto simp: linked_single)
    have "x \<noteq> 0" using assms(2) nz by metis
    then have "check_links cs x = Some ()" using c by (simp add: check_links_def cell_at_def)
    then show thesis using that [OF c(1)] c \<open>x \<noteq> 0\<close> assms(2) by simp
  next
    case (Cons y zs)
    define l where "l = last (y # zs)"
    have last: "(l, x) \<in> set (zip (x # ys) (rotate1 (x # ys)))" "l \<in> A"
    proof -
      have "x # ys = (x # butlast ys) @ [l]" using Cons by (simp add: l_def)
      then have "zip (x # ys) (rotate1 (x # ys)) = zip ((x # butlast ys) @ [l]) (ys @ [x])" by simp
      then show "(l, x) \<in> set (zip (x # ys) (rotate1 (x # ys)))" using Cons by (simp add: zip_append)
      show "l \<in> A" using Cons ys(2) by (auto simp: l_def)
    qed
    have first: "(x, y) \<in> set (zip (x # ys) (rotate1 (x # ys)))" using Cons by simp
    obtain cl c where c: "cs l = Some cl" "cs x = Some c" "c_next cl = x" "c_prev c = l"
      using linkedD [OF ys(3) last(1)] by blast
    obtain cy where y: "cs y = Some cy" "c_prev cy = x" "c_next c = y"
      using linkedD [OF ys(3) first] c(2) by auto
    have "y \<in> A" using Cons ys(2) by auto
    then have nz: "x \<noteq> 0" "y \<noteq> 0" "l \<noteq> 0" using assms(2) last(2) nz by metis+
    then have "check_links cs x = Some ()" using c y by (simp add: check_links_def cell_at_def)
    then show thesis using that [OF c(2)] c y nz last(2) \<open>y \<in> A\<close> by simp
  qed
qed


section \<open>The ring operations\<close>

text \<open>Two neighbours in a ring of at least two are moved apart, or closed up.\<close>

lemma linked_Cons2:
  "linked cs (h # a # ws) \<longleftrightarrow> neighbours cs (h, a) \<and> (\<forall>p \<in> set (zip (a # ws) (ws @ [h])). neighbours cs p)"
  by (simp add: linked_def)

lemma insert_second:
  assumes "linked cs (h # a # ws)" "distinct (h # a # ws)" "c \<notin> set (h # a # ws)" "cs h = Some ch" "cs a = Some ca"
  shows "linked (cs(c \<mapsto> cl\<lparr>c_next := a, c_prev := h\<rparr>, a \<mapsto> ca\<lparr>c_prev := c\<rparr>, h \<mapsto> ch\<lparr>c_next := c\<rparr>)) (c # a # ws @ [h])"
    (is "linked ?cs _")
proof -
  have "\<forall>p \<in> set (zip (a # ws) (ws @ [h])). neighbours cs p" using assms(1) by (simp add: linked_Cons2)
  then have "\<forall>p \<in> set (zip (a # ws) (ws @ [h])). neighbours ?cs p"
    by (rule path_cong) (use assms in auto)
  moreover have "set (zip (a # ws @ [h]) ((ws @ [h]) @ [c])) = insert (h, c) (set (zip (a # ws) (ws @ [h])))"
    using zip_rotated [of a ws h c] by simp
  moreover have "neighbours ?cs (c, a)" "neighbours ?cs (h, c)" using assms(2-5) by (auto simp: neighbours_def)
  ultimately show ?thesis unfolding linked_Cons2 by auto
qed

lemma links_onlyI:
  assumes "\<And>x. x \<notin> B \<Longrightarrow> cs' x = cs x" "\<And>x. x \<in> B \<Longrightarrow> map_option core (cs' x) = map_option core (cs x)"
  shows "links_only cs cs' B"
  unfolding links_only_def using assms by metis

lemma insert_cell_ring:
  assumes "ring_of cs h A" "c \<notin> A" "c \<noteq> 0" "cs c = Some cl" "c_next cl = 0" "c_prev cl = 0"
  shows "\<exists>cs'. sec_insert_cell_ring cs h c = Some (cs', c) \<and> ring_of cs' c (insert c A) \<and>
    links_only cs cs' (insert c A)"
proof (cases "A = {}")
  case True
  let ?cs = "cs(c \<mapsto> cl\<lparr>c_next := c, c_prev := c\<rparr>)"
  have "h = 0" using assms(1) True by (simp add: ring_of_def)
  then have "sec_insert_cell_ring cs h c = Some (?cs, c)"
    using assms by (simp add: sec_insert_cell_ring_def cell_at_def check_links_def)
  moreover have "ring_of ?cs c {c}"
    using assms(3) by (auto simp: ring_of_def linked_single intro!: exI [of _ "[]"])
  moreover have "links_only cs ?cs {c}" by (rule links_onlyI) (use assms in auto)
  ultimately show ?thesis using True by auto
next
  case False
  then obtain xs where xs: "distinct (h # xs)" "set (h # xs) = A" "linked cs (h # xs)" "0 \<notin> A"
    using assms(1) by (auto simp: ring_of_def)
  have hc: "h \<noteq> 0" "h \<noteq> c" using xs(2,4) assms(2) by auto
  show ?thesis
  proof (cases xs)
    case Nil
    then obtain ch where ch: "cs h = Some ch" "c_next ch = h" "c_prev ch = h" using xs(3) by (auto simp: linked_single)
    let ?cs = "cs(c \<mapsto> cl\<lparr>c_next := h, c_prev := h\<rparr>, h \<mapsto> ch\<lparr>c_prev := c, c_next := c\<rparr>)"
    have "sec_insert_cell_ring cs h c = Some (?cs, c)"
      using assms hc ch by (simp add: sec_insert_cell_ring_def cell_at_def check_links_def set_prev_def set_next_def)
    moreover have "linked ?cs [c, h]" using hc by (simp add: linked_def neighbours_def)
    then have "ring_of ?cs c (insert c A)"
      using xs Nil assms(3) hc by (auto simp: ring_of_def intro!: exI [of _ "[h]"])
    moreover have "links_only cs ?cs (insert c A)"
      by (rule links_onlyI) (use assms xs Nil ch hc in auto)
    ultimately show ?thesis by blast
  next
    case (Cons a ws)
    then obtain ch ca where ch: "cs h = Some ch" "c_next ch = a" "cs a = Some ca" "c_prev ca = h"
      using xs(3) by (auto simp: linked_Cons2 neighbours_def)
    let ?cs = "cs(c \<mapsto> cl\<lparr>c_next := a, c_prev := h\<rparr>, a \<mapsto> ca\<lparr>c_prev := c\<rparr>, h \<mapsto> ch\<lparr>c_next := c\<rparr>)"
    have ne: "a \<noteq> h" "a \<noteq> c" "a \<noteq> 0" using xs(1,2,4) Cons assms(2) by auto
    have "sec_insert_cell_ring cs h c = Some (?cs, c)"
      using assms hc ch ne by (simp add: sec_insert_cell_ring_def cell_at_def check_links_def set_prev_def set_next_def)
    moreover have "linked ?cs (c # a # ws @ [h])"
      by (rule insert_second) (use xs Cons assms(2) ch in auto)
    then have "ring_of ?cs c (insert c A)"
      using xs Cons assms(2,3) by (auto simp: ring_of_def intro!: exI [of _ "a # ws @ [h]"])
    moreover have "links_only cs ?cs (insert c A)"
      by (rule links_onlyI) (use assms xs Cons ch hc ne in auto)
    ultimately show ?thesis by blast
  qed
qed

lemma ring_ofI:
  assumes "linked cs xs" "distinct xs" "set xs = A" "h \<in> A" "0 \<notin> A"
  shows "ring_of cs h A"
proof -
  obtain us vs where uv: "xs = us @ h # vs" using assms(3,4) by (metis split_list)
  then have "linked cs ((h # vs) @ us)" using assms(1) linked_append by metis
  moreover have "distinct (h # vs @ us)" "set (h # vs @ us) = A" using assms(2,3) uv by auto
  ultimately show ?thesis using assms(4,5) by (auto simp: ring_of_def intro!: exI [of _ "vs @ us"])
qed

text \<open>The neighbours of the second element: its successor, and the last of the list before it.\<close>

lemma close_up:
  assumes "linked cs (c # a # us @ [l])" "distinct (c # a # us @ [l])" "cs a = Some ca" "cs l = Some cl"
  shows "linked (cs(a \<mapsto> ca\<lparr>c_prev := l\<rparr>, l \<mapsto> cl\<lparr>c_next := a\<rparr>, c \<mapsto> cc)) (a # us @ [l])" (is "linked ?cs _")
proof -
  have "set (zip (a # us @ [l]) (us @ [l, c])) = insert (l, c) (set (zip (a # us) (us @ [l])))"
    using zip_rotated [of a us l c] by simp
  then have "\<forall>p \<in> set (zip (a # us) (us @ [l])). neighbours cs p"
    using assms(1) by (simp add: linked_Cons2 del: zip_Cons_Cons)
  then have "\<forall>p \<in> set (zip (a # us) (us @ [l])). neighbours ?cs p"
    by (rule path_cong) (use assms in auto)
  moreover have "neighbours ?cs (l, a)" using assms(2-4) by (auto simp: neighbours_def)
  moreover have "set (zip (a # us @ [l]) (us @ [l, a])) = insert (l, a) (set (zip (a # us) (us @ [l])))"
    using zip_rotated [of a us l a] by simp
  ultimately show ?thesis unfolding linked_def by simp
qed

lemma remove_cell_ring:
  assumes "ring_of cs h A" "c \<in> A"
  shows "\<exists>cs' h' cl. sec_remove_cell_ring cs h c = Some (cs', h') \<and> ring_of cs' h' (A - {c}) \<and>
    links_only cs cs' A \<and> cs' c = Some cl \<and> c_next cl = 0 \<and> c_prev cl = 0"
proof -
  obtain ys where ys: "distinct (c # ys)" "set (c # ys) = A" "linked cs (c # ys)" using ring_from [OF assms] .
  have nz: "\<And>x. x \<in> A \<Longrightarrow> x \<noteq> 0" "0 \<notin> A" using assms(1) unfolding ring_of_def by metis+
  have h: "h \<in> A" using assms by (auto simp: ring_of_def split: if_splits)
  have chk: "check_links cs c = Some ()" using ring_member [OF assms] by blast
  show ?thesis
  proof (cases ys)
    case Nil
    then obtain cl where cl: "cs c = Some cl" "c_next cl = c" "c_prev cl = c" using ys(3) by (auto simp: linked_single)
    have eq: "A = {c}" "h = c" "c \<noteq> 0" using Nil ys(2) h nz by auto
    then have "sec_remove_cell_ring cs h c = Some (cs(c \<mapsto> cl\<lparr>c_next := 0, c_prev := 0\<rparr>), 0)"
      using cl chk by (simp add: sec_remove_cell_ring_def cell_at_def set_prev_def set_next_def)
    moreover have "links_only cs (cs(c \<mapsto> cl\<lparr>c_next := 0, c_prev := 0\<rparr>)) A"
      by (rule links_onlyI) (use eq cl in auto)
    ultimately show ?thesis using eq by (auto simp: ring_of_def)
  next
    case (Cons a ws)
    then obtain cl ca where c: "cs c = Some cl" "c_next cl = a" "cs a = Some ca" "c_prev ca = c"
      using ys(3) by (auto simp: linked_Cons2 neighbours_def)
    have ne: "a \<noteq> c" "a \<noteq> 0" "c \<noteq> 0" "a \<in> A" using ys(1,2) Cons nz by auto
    show ?thesis
    proof (cases ws rule: rev_cases)
      case Nil
      then have p: "c_prev cl = a" "c_next ca = c" using ys(3) Cons c by (auto simp: linked_Cons2 neighbours_def)
      let ?cs = "cs(a \<mapsto> ca\<lparr>c_prev := a, c_next := a\<rparr>, c \<mapsto> cl\<lparr>c_next := 0, c_prev := 0\<rparr>)"
      have eq: "A = {c, a}" using ys(2) Cons Nil by auto
      then have ha: "h = c \<or> h = a" using h by auto
      have "sec_remove_cell_ring cs h c = Some (?cs, a)"
        using c p ne chk ha by (auto simp: sec_remove_cell_ring_def cell_at_def set_prev_def set_next_def)
      moreover have "ring_of ?cs a (A - {c})"
        by (rule ring_ofI [of _ "[a]"]) (use ne eq in \<open>auto simp: linked_single\<close>)
      moreover have "links_only cs ?cs A" by (rule links_onlyI) (use eq ne c in auto)
      ultimately show ?thesis
        by (intro exI [of _ ?cs] exI [of _ a] exI [of _ "cl\<lparr>c_next := 0, c_prev := 0\<rparr>"] conjI) simp_all
    next
      case (snoc us l)
      have lin: "linked cs (c # a # us @ [l])" "distinct (c # a # us @ [l])" "A = set (c # a # us @ [l])"
        using ys Cons snoc by auto
      have "set (zip (a # us @ [l]) (us @ [l, c])) = insert (l, c) (set (zip (a # us) (us @ [l])))"
        using zip_rotated [of a us l c] by simp
      then have "neighbours cs (l, c)" using lin(1) by (simp add: linked_Cons2 del: zip_Cons_Cons)
      then obtain ll where l: "cs l = Some ll" "c_next ll = c" "c_prev cl = l" using c(1) by (auto simp: neighbours_def)
      have nl: "l \<noteq> c" "l \<noteq> a" "l \<noteq> 0" using lin(2,3) nz by auto
      let ?cs = "cs(a \<mapsto> ca\<lparr>c_prev := l\<rparr>, l \<mapsto> ll\<lparr>c_next := a\<rparr>, c \<mapsto> cl\<lparr>c_next := 0, c_prev := 0\<rparr>)"
      define h' where "h' = (if c = h then a else h)"
      have h': "h' \<in> A - {c}" "h' \<noteq> c" using h ne lin(3) by (auto simp: h'_def)
      have "h \<noteq> 0" using h nz by auto
      then have "sec_remove_cell_ring cs h c = Some (?cs, h')"
        using c l ne nl chk by (auto simp: sec_remove_cell_ring_def cell_at_def set_prev_def set_next_def h'_def)
      moreover have "ring_of ?cs h' (A - {c})"
        by (rule ring_ofI [OF close_up [OF lin(1,2) c(3) l(1)]]) (use lin h' nz in auto)
      moreover have "links_only cs ?cs A" by (rule links_onlyI) (use lin ne nl c l in auto)
      ultimately show ?thesis
        by (intro exI [of _ ?cs] exI [of _ h'] exI [of _ "cl\<lparr>c_next := 0, c_prev := 0\<rparr>"] conjI) simp_all
    qed
  qed
qed

end
