(* ===== verification/SecureBlock.thy ===== *)
theory SecureBlock
  imports SecurePool CellRing
begin

text \<open>
  A block of secure memory of \<open>egg/egg-secure-memory.c\<close>: cells that tile the block, guards at both
  ends of each cell that point at its description, and the operations on one block. The memory of
  the process is a partial map from addresses to bytes; touching an address that is not mapped, and
  a failed assertion, are \<open>None\<close>.
\<close>

section \<open>Memory\<close>

type_synonym space = "nat \<Rightarrow> byte option"

definition readable :: "space \<Rightarrow> nat \<Rightarrow> nat \<Rightarrow> bool" where
  "readable m a n \<longleftrightarrow> (\<forall>i < n. m (a + i) \<noteq> None)"

definition overwrite :: "space \<Rightarrow> nat \<Rightarrow> bytes \<Rightarrow> space" where
  "overwrite m a bs = (\<lambda>x. if a \<le> x \<and> x < a + length bs then Some (bs ! (x - a)) else m x)"

definition store :: "space \<Rightarrow> nat \<Rightarrow> bytes \<Rightarrow> space option" where
  "store m a bs = (if readable m a (length bs) then Some (overwrite m a bs) else None)"

definition load :: "space \<Rightarrow> nat \<Rightarrow> nat \<Rightarrow> bytes option" where
  "load m a n = (if readable m a n then Some (map (\<lambda>i. the (m (a + i))) [0..<n]) else None)"

text \<open>A pointer is stored with its least byte first.\<close>

fun ptr_bytes :: "nat \<Rightarrow> nat \<Rightarrow> bytes" where
  "ptr_bytes 0 p = []"
| "ptr_bytes (Suc n) p = of_nat (p mod 256) # ptr_bytes n (p div 256)"

fun bytes_ptr :: "bytes \<Rightarrow> nat" where
  "bytes_ptr [] = 0"
| "bytes_ptr (b # bs) = unat b + 256 * bytes_ptr bs"

definition store_ptr :: "space \<Rightarrow> nat \<Rightarrow> nat \<Rightarrow> space option" where
  "store_ptr m a p = store m a (ptr_bytes 8 p)"

definition load_ptr :: "space \<Rightarrow> nat \<Rightarrow> nat option" where
  "load_ptr m a = map_option bytes_ptr (load m a 8)"

lemma length_ptr_bytes [simp]: "length (ptr_bytes n p) = n"
  by (induction n arbitrary: p) auto

lemma bytes_ptr_bytes: "bytes_ptr (ptr_bytes n p) = p mod 256 ^ n"
proof (induction n arbitrary: p)
  case (Suc n)
  have "unat (of_nat (p mod 256) :: byte) = p mod 256"
    by (simp add: unsigned_of_nat take_bit_nat_eq_self_iff)
  then have "bytes_ptr (ptr_bytes (Suc n) p) = p mod 256 + 256 * (p div 256 mod 256 ^ n)"
    by (simp only: ptr_bytes.simps bytes_ptr.simps Suc)
  also have "\<dots> = p mod 256 ^ Suc n"
    by (simp only: power_Suc mod_mult2_eq add.commute)
  finally show ?case .
qed simp

lemma overwrite_out [simp]: "x < a \<or> a + length bs \<le> x \<Longrightarrow> overwrite m a bs x = m x"
  by (auto simp: overwrite_def)

lemma overwrite_nil [simp]: "overwrite m a [] = m"
  by (rule ext) (auto simp: overwrite_def)

lemma overwrite_mapped: "m x \<noteq> None \<Longrightarrow> overwrite m a bs x \<noteq> None"
  by (simp add: overwrite_def)

lemma store_Some: "readable m a (length bs) \<Longrightarrow> store m a bs = Some (overwrite m a bs)"
  by (simp add: store_def)

lemma readable_sub: "readable m a n \<Longrightarrow> a \<le> b \<Longrightarrow> b + k \<le> a + n \<Longrightarrow> readable m b k"
  unfolding readable_def
proof (intro allI impI)
  fix i
  assume "\<forall>i < n. m (a + i) \<noteq> None" "a \<le> b" "b + k \<le> a + n" "i < k"
  moreover have "b - a + i < n" "a + (b - a + i) = b + i" using calculation by simp_all
  ultimately show "m (b + i) \<noteq> None" by metis
qed

lemma readable_overwrite: "readable m b k \<Longrightarrow> readable (overwrite m a bs) b k"
  unfolding readable_def by (meson overwrite_mapped)

lemma readable_cong: "(\<And>i. i < n \<Longrightarrow> m' (a + i) = m (a + i)) \<Longrightarrow> readable m' a n = readable m a n"
  by (simp add: readable_def)

lemma load_cong:
  assumes "\<And>x. a \<le> x \<Longrightarrow> x < a + n \<Longrightarrow> m' x = m x"
  shows "load m' a n = load m a n"
proof -
  have "m' (a + i) = m (a + i)" if "i < n" for i using assms that by simp
  then show ?thesis by (auto simp: load_def readable_def)
qed

lemma load_Some: "readable m a n \<Longrightarrow> \<exists>bs. load m a n = Some bs"
  by (simp add: load_def)

lemma load_length: "load m a n = Some bs \<Longrightarrow> length bs = n"
  by (auto simp: load_def split: if_splits)

lemma load_readable: "load m a n = Some bs \<Longrightarrow> readable m a n"
  by (auto simp: load_def split: if_splits)

lemma load_overwrite_same: "load (overwrite m a bs) a (length bs) = Some bs"
  by (auto simp: load_def readable_def overwrite_def intro: nth_equalityI)

lemma load_overwrite_other:
  "a + n \<le> b \<or> b + length bs \<le> a \<Longrightarrow> load (overwrite m b bs) a n = load m a n"
  by (rule load_cong) auto

lemma load_take: "load m a n = Some bs \<Longrightarrow> k \<le> n \<Longrightarrow> load m a k = Some (take k bs)"
  by (auto simp: load_def readable_def take_map split: if_splits)

lemma load_ptr_cong:
  "(\<And>x. a \<le> x \<Longrightarrow> x < a + 8 \<Longrightarrow> m' x = m x) \<Longrightarrow> load_ptr m' a = load_ptr m a"
  unfolding load_ptr_def by (rule arg_cong [OF load_cong]) simp

lemma load_ptr_same: "p < size_limit \<Longrightarrow> load_ptr (overwrite m a (ptr_bytes 8 p)) a = Some p"
  using load_overwrite_same [of m a "ptr_bytes 8 p"]
  by (simp add: load_ptr_def bytes_ptr_bytes size_limit_def)

lemma load_ptr_other:
  "a + 8 \<le> b \<or> b + length bs \<le> a \<Longrightarrow> load_ptr (overwrite m b bs) a = load_ptr m a"
  by (rule load_ptr_cong) auto


section \<open>Guards\<close>

definition sec_size_to_words :: "nat \<Rightarrow> nat" where
  "sec_size_to_words n = (if n mod 8 \<noteq> 0 then 1 else 0) + n div 8"

definition last_word :: "cell \<Rightarrow> nat" where
  "last_word c = c_words c + 8 * (c_n_words c - 1)"

definition sec_write_guards :: "cells \<Rightarrow> space \<Rightarrow> nat \<Rightarrow> space option" where
  "sec_write_guards cs m cell = do {
     c \<leftarrow> cell_at cs cell;
     m \<leftarrow> store_ptr m (c_words c) cell;
     store_ptr m (last_word c) cell }"

definition sec_check_guards :: "cells \<Rightarrow> space \<Rightarrow> nat \<Rightarrow> unit option" where
  "sec_check_guards cs m cell = do {
     c \<leftarrow> cell_at cs cell;
     p \<leftarrow> load_ptr m (c_words c);
     c_assert (p = cell);
     p \<leftarrow> load_ptr m (last_word c);
     c_assert (p = cell) }"

definition sec_cell_to_memory :: "cell \<Rightarrow> nat" where
  "sec_cell_to_memory c = c_words c + 8"

section \<open>Blocks\<close>

record block =
  b_item :: nat
  b_words :: nat
  b_n_words :: nat
  b_n_used :: nat
  b_used_cells :: nat
  b_unused_cells :: nat

definition sec_is_valid_word :: "block \<Rightarrow> nat \<Rightarrow> bool" where
  "sec_is_valid_word b word \<longleftrightarrow> b_words b \<le> word \<and> word < b_words b + 8 * b_n_words b"

text \<open>Everything but the list of blocks.\<close>

record secure =
  pools :: "pool list"
  cells :: cells
  space :: space

type_synonym surroundings = "secure \<Rightarrow> pool_env"

text \<open>\<open>memset (memory + from, 0, to - from)\<close>.\<close>

definition sec_clear :: "space \<Rightarrow> nat \<Rightarrow> nat \<Rightarrow> nat \<Rightarrow> space option" where
  "sec_clear m memory from to = do {
     c_assert (from \<le> to);
     store m (memory + from) (replicate (to - from) 0) }"

text \<open>The neighbours in memory; \<open>0\<close> at the border of the block.\<close>

definition sec_neighbor_before :: "secure \<Rightarrow> block \<Rightarrow> nat \<Rightarrow> nat option" where
  "sec_neighbor_before s b cell = do {
     c \<leftarrow> cell_at (cells s) cell;
     let word = c_words c - 8;
     if \<not> sec_is_valid_word b word then Some 0
     else do {
       other \<leftarrow> load_ptr (space s) word;
       sec_check_guards (cells s) (space s) other;
       Some other } }"

definition sec_neighbor_after :: "secure \<Rightarrow> block \<Rightarrow> nat \<Rightarrow> nat option" where
  "sec_neighbor_after s b cell = do {
     c \<leftarrow> cell_at (cells s) cell;
     let word = c_words c + 8 * c_n_words c;
     if \<not> sec_is_valid_word b word then Some 0
     else do {
       other \<leftarrow> load_ptr (space s) word;
       sec_check_guards (cells s) (space s) other;
       Some other } }"

text \<open>Giving the description of a cell back to the pool.\<close>

definition free_cell :: "secure \<Rightarrow> nat \<Rightarrow> secure option" where
  "free_cell s cell = do {
     ps \<leftarrow> pool_free (pools s) cell;
     Some (s\<lparr>pools := ps, cells := (cells s)(cell := None)\<rparr>) }"

section \<open>Allocating in a block\<close>

definition WASTE :: nat where
  "WASTE = 4"

text \<open>The first unused cell with room for \<open>n_words\<close>, or \<open>0\<close> after one round.\<close>

partial_function (option) sec_find_cell :: "cells \<Rightarrow> nat \<Rightarrow> nat \<Rightarrow> nat \<Rightarrow> nat option" where
  "sec_find_cell cs ring n_words cell = do {
     c \<leftarrow> cell_at cs cell;
     if c_n_words c < n_words
     then (if c_next c = ring then Some 0 else sec_find_cell cs ring n_words (c_next c))
     else Some cell }"

declare sec_find_cell.simps [code]

text \<open>The front of a cell that is too long becomes a cell of its own.\<close>

definition sec_split :: "surroundings \<Rightarrow> secure \<Rightarrow> nat \<Rightarrow> nat \<Rightarrow> (nat \<times> secure) option" where
  "sec_split E s cell n_words = do {
     (other, ps) \<leftarrow> pool_alloc (E s) (pools s);
     if other = 0 then Some (0, s\<lparr>pools := ps\<rparr>)
     else do {
       c \<leftarrow> cell_at (cells s) cell;
       let cs = (cells s)(other \<mapsto> blank_cell\<lparr>c_n_words := n_words, c_words := c_words c\<rparr>,
           cell \<mapsto> c\<lparr>c_n_words := c_n_words c - n_words, c_words := c_words c + 8 * n_words\<rparr>);
       m \<leftarrow> sec_write_guards cs (space s) other;
       m \<leftarrow> sec_write_guards cs m cell;
       Some (other, s\<lparr>pools := ps, cells := cs, space := m\<rparr>) } }"

definition sec_alloc ::
  "surroundings \<Rightarrow> secure \<Rightarrow> block \<Rightarrow> string \<Rightarrow> nat \<Rightarrow> (nat \<times> secure \<times> block) option" where
  "sec_alloc E s b tag n = do {
     c_assert (n \<noteq> 0);
     if b_unused_cells b = 0 then Some (0, s, b)
     else do {
       let n_words = sec_size_to_words n + 2;
       cell \<leftarrow> sec_find_cell (cells s) (b_unused_cells b) n_words (b_unused_cells b);
       if cell = 0 then Some (0, s, b)
       else do {
         c \<leftarrow> cell_at (cells s) cell;
         c_assert (c_tag c = None);
         c_assert (c_requested c = 0);
         c_assert (c_prev c \<noteq> 0);
         c_assert (c_words c \<noteq> 0);
         sec_check_guards (cells s) (space s) cell;
         (cell, s) \<leftarrow> (if c_n_words c > n_words + WASTE then sec_split E s cell n_words
           else Some (cell, s));
         if cell = 0 then Some (0, s, b)
         else do {
           c \<leftarrow> cell_at (cells s) cell;
           (cs, unused) \<leftarrow> (if c_next c \<noteq> 0
             then sec_remove_cell_ring (cells s) (b_unused_cells b) cell
             else Some (cells s, b_unused_cells b));
           c \<leftarrow> cell_at cs cell;
           let cs = cs(cell \<mapsto> c\<lparr>c_tag := Some tag, c_requested := n\<rparr>);
           (cs, used) \<leftarrow> sec_insert_cell_ring cs (b_used_cells b) cell;
           let memory = sec_cell_to_memory c;
           m \<leftarrow> store (space s) memory (replicate n 0);
           Some (memory, s\<lparr>cells := cs, space := m\<rparr>,
             b\<lparr>b_n_used := b_n_used b + 1, b_used_cells := used, b_unused_cells := unused\<rparr>) } } } }"

section \<open>Freeing in a block\<close>

text \<open>The cell of an allocation, by the guard in front of it.\<close>

definition sec_cell_of :: "secure \<Rightarrow> block \<Rightarrow> nat \<Rightarrow> nat option" where
  "sec_cell_of s b memory = do {
     let word = memory - 8;
     c_assert (sec_is_valid_word b word);
     cell \<leftarrow> load_ptr (space s) word;
     c_assert (pool_valid (pools s) cell);
     sec_check_guards (cells s) (space s) cell;
     Some cell }"

text \<open>Merging with the unallocated neighbour in front; the cell that is left is the first result.\<close>

definition sec_merge_before :: "secure \<Rightarrow> block \<Rightarrow> nat \<Rightarrow> (nat \<times> secure) option" where
  "sec_merge_before s b cell = do {
     other \<leftarrow> sec_neighbor_before s b cell;
     if other = 0 then Some (cell, s)
     else do {
       d \<leftarrow> cell_at (cells s) other;
       if c_requested d \<noteq> 0 then Some (cell, s)
       else do {
         c_assert (c_tag d = None);
         c_assert (c_next d \<noteq> 0 \<and> c_prev d \<noteq> 0);
         c \<leftarrow> cell_at (cells s) cell;
         let cs = (cells s)(other \<mapsto> d\<lparr>c_n_words := c_n_words d + c_n_words c\<rparr>);
         m \<leftarrow> sec_write_guards cs (space s) other;
         s \<leftarrow> free_cell (s\<lparr>cells := cs, space := m\<rparr>) cell;
         Some (other, s) } } }"

definition sec_merge_after :: "secure \<Rightarrow> block \<Rightarrow> nat \<Rightarrow> (nat \<times> secure \<times> block) option" where
  "sec_merge_after s b cell = do {
     other \<leftarrow> sec_neighbor_after s b cell;
     if other = 0 then Some (cell, s, b)
     else do {
       d \<leftarrow> cell_at (cells s) other;
       if c_requested d \<noteq> 0 then Some (cell, s, b)
       else do {
         c_assert (c_tag d = None);
         c_assert (c_next d \<noteq> 0 \<and> c_prev d \<noteq> 0);
         c \<leftarrow> cell_at (cells s) cell;
         let cs = (cells s)(other \<mapsto> d\<lparr>c_n_words := c_n_words d + c_n_words c, c_words := c_words c\<rparr>);
         (cs, unused) \<leftarrow> (if c_next c \<noteq> 0 then sec_remove_cell_ring cs (b_unused_cells b) cell
           else Some (cs, b_unused_cells b));
         m \<leftarrow> sec_write_guards cs (space s) other;
         s \<leftarrow> free_cell (s\<lparr>cells := cs, space := m\<rparr>) cell;
         Some (other, s, b\<lparr>b_unused_cells := unused\<rparr>) } } }"

definition sec_free :: "secure \<Rightarrow> block \<Rightarrow> nat \<Rightarrow> (secure \<times> block) option" where
  "sec_free s b memory = do {
     cell \<leftarrow> sec_cell_of s b memory;
     c \<leftarrow> cell_at (cells s) cell;
     m \<leftarrow> sec_clear (space s) memory 0 (c_requested c);
     sec_check_guards (cells s) m cell;
     c_assert (c_requested c > 0);
     c_assert (c_tag c \<noteq> None);
     (cs, used) \<leftarrow> sec_remove_cell_ring (cells s) (b_used_cells b) cell;
     let b = b\<lparr>b_used_cells := used\<rparr>;
     (cell, s) \<leftarrow> sec_merge_before (s\<lparr>cells := cs, space := m\<rparr>) b cell;
     (cell, s, b) \<leftarrow> sec_merge_after s b cell;
     c \<leftarrow> cell_at (cells s) cell;
     (cs, unused) \<leftarrow> (if c_next c = 0 then sec_insert_cell_ring (cells s) (b_unused_cells b) cell
       else Some (cells s, b_unused_cells b));
     c \<leftarrow> cell_at cs cell;
     Some (s\<lparr>cells := cs(cell \<mapsto> c\<lparr>c_tag := None, c_requested := 0\<rparr>)\<rparr>,
       b\<lparr>b_unused_cells := unused, b_n_used := b_n_used b - 1\<rparr>) }"

section \<open>Resizing in a block\<close>

text \<open>Taking memory from the neighbours behind, as long as they are unallocated.\<close>

partial_function (option) sec_grow :: "secure \<Rightarrow> block \<Rightarrow> nat \<Rightarrow> nat \<Rightarrow> (secure \<times> block) option" where
  "sec_grow s b cell n_words = do {
     c \<leftarrow> cell_at (cells s) cell;
     if \<not> c_n_words c < n_words then Some (s, b)
     else do {
       other \<leftarrow> sec_neighbor_after s b cell;
       if other = 0 then Some (s, b)
       else do {
         d \<leftarrow> cell_at (cells s) other;
         if c_requested d \<noteq> 0 then Some (s, b)
         else if n_words - c_n_words c + WASTE \<ge> c_n_words d
         then do {
           let cs = (cells s)(cell \<mapsto> c\<lparr>c_n_words := c_n_words c + c_n_words d\<rparr>);
           m \<leftarrow> sec_write_guards cs (space s) cell;
           (cs, unused) \<leftarrow> sec_remove_cell_ring cs (b_unused_cells b) other;
           s \<leftarrow> free_cell (s\<lparr>cells := cs, space := m\<rparr>) other;
           sec_grow s (b\<lparr>b_unused_cells := unused\<rparr>) cell n_words }
         else do {
           let k = n_words - c_n_words c;
           let cs = (cells s)(other \<mapsto> d\<lparr>c_words := c_words d + 8 * k, c_n_words := c_n_words d - k\<rparr>);
           m \<leftarrow> sec_write_guards cs (space s) other;
           let cs = cs(cell \<mapsto> c\<lparr>c_n_words := n_words\<rparr>);
           m \<leftarrow> sec_write_guards cs m cell;
           sec_grow (s\<lparr>cells := cs, space := m\<rparr>) b cell n_words } } } }"

declare sec_grow.simps [code]

definition sec_realloc ::
  "surroundings \<Rightarrow> secure \<Rightarrow> block \<Rightarrow> string \<Rightarrow> nat \<Rightarrow> nat \<Rightarrow> (nat \<times> secure \<times> block) option" where
  "sec_realloc E s b tag memory n = do {
     c_assert (memory \<noteq> 0);
     c_assert (n > 0);
     cell \<leftarrow> sec_cell_of s b memory;
     c \<leftarrow> cell_at (cells s) cell;
     c_assert (c_requested c > 0);
     c_assert (c_tag c \<noteq> None);
     let valid = c_requested c;
     let n_words = sec_size_to_words n + 2;
     if n_words \<le> c_n_words c
     then do {
       let cs = (cells s)(cell \<mapsto> c\<lparr>c_requested := n\<rparr>);
       let alloc = sec_cell_to_memory c;
       m \<leftarrow> (if n < valid then sec_clear (space s) alloc n valid else Some (space s));
       Some (alloc, s\<lparr>cells := cs, space := m\<rparr>, b) }
     else do {
       (s, b) \<leftarrow> sec_grow s b cell n_words;
       c \<leftarrow> cell_at (cells s) cell;
       if c_n_words c \<ge> n_words
       then do {
         let cs = (cells s)(cell \<mapsto> c\<lparr>c_requested := n, c_tag := Some tag\<rparr>);
         let alloc = sec_cell_to_memory c;
         m \<leftarrow> sec_clear (space s) alloc valid n;
         Some (alloc, s\<lparr>cells := cs, space := m\<rparr>, b) }
       else do {
         (alloc, s, b) \<leftarrow> sec_alloc E s b tag n;
         if alloc = 0 then Some (0, s, b)
         else do {
           bs \<leftarrow> load (space s) memory valid;
           m \<leftarrow> store (space s) alloc bs;
           (s, b) \<leftarrow> sec_free (s\<lparr>space := m\<rparr>) b memory;
           Some (alloc, s, b) } } } }"

definition sec_allocated :: "secure \<Rightarrow> block \<Rightarrow> nat \<Rightarrow> nat option" where
  "sec_allocated s b memory = do {
     cell \<leftarrow> sec_cell_of s b memory;
     c \<leftarrow> cell_at (cells s) cell;
     c_assert (c_requested c > 0);
     c_assert (c_tag c \<noteq> None);
     Some (c_requested c) }"

text \<open>The walk over the cells of a block; the value is \<open>None\<close> when something is wrong.\<close>

partial_function (option) sec_validate_from :: "secure \<Rightarrow> block \<Rightarrow> nat \<Rightarrow> unit option" where
  "sec_validate_from s b word = do {
     c_assert (word < b_words b + 8 * b_n_words b);
     c_assert (sec_is_valid_word b word);
     cell \<leftarrow> load_ptr (space s) word;
     c_assert (pool_valid (pools s) cell);
     sec_check_guards (cells s) (space s) cell;
     c \<leftarrow> cell_at (cells s) cell;
     c_assert (if c_requested c > 0 then c_tag c \<noteq> None else c_tag c = None);
     c_assert (c_next c \<noteq> 0);
     c_assert (c_prev c \<noteq> 0);
     check_links (cells s) cell;
     c_assert (c_requested c > 0 \<longrightarrow> c_requested c \<le> (c_n_words c - 2) * 8);
     let word = word + 8 * c_n_words c;
     if word = b_words b + 8 * b_n_words b then Some () else sec_validate_from s b word }"

definition sec_validate :: "secure \<Rightarrow> block \<Rightarrow> unit option" where
  "sec_validate s b = sec_validate_from s b (b_words b)"


section \<open>The layout of a block\<close>

definition cell_ok :: "cell \<Rightarrow> bool" where
  "cell_ok c \<longleftrightarrow> 2 \<le> c_n_words c \<and>
     (if c_requested c = 0 then c_tag c = None
      else c_tag c \<noteq> None \<and> c_requested c \<le> 8 * (c_n_words c - 2))"

text \<open>
  \<open>layout cs m a L e\<close>: the cells \<open>L\<close> lie one after the other from \<open>a\<close> to \<open>e\<close>, each between its
  guards.
\<close>

fun layout :: "cells \<Rightarrow> space \<Rightarrow> nat \<Rightarrow> nat list \<Rightarrow> nat \<Rightarrow> bool" where
  "layout cs m a [] e \<longleftrightarrow> a = e"
| "layout cs m a (c # L) e \<longleftrightarrow> 0 < c \<and> c < size_limit \<and> (\<exists>cl. cs c = Some cl \<and> c_words cl = a \<and> cell_ok cl \<and>
     load_ptr m (c_words cl) = Some c \<and> load_ptr m (last_word cl) = Some c \<and>
     layout cs m (a + 8 * c_n_words cl) L e)"

definition in_use :: "cells \<Rightarrow> nat \<Rightarrow> bool" where
  "in_use cs c \<longleftrightarrow> (\<exists>cl. cs c = Some cl \<and> 0 < c_requested cl)"

definition used_of :: "cells \<Rightarrow> nat list \<Rightarrow> nat set" where
  "used_of cs L = {c \<in> set L. in_use cs c}"

definition free_of :: "cells \<Rightarrow> nat list \<Rightarrow> nat set" where
  "free_of cs L = {c \<in> set L. \<not> in_use cs c}"

definition b_end :: "block \<Rightarrow> nat" where
  "b_end b = b_words b + 8 * b_n_words b"

definition block_base :: "cells \<Rightarrow> space \<Rightarrow> block \<Rightarrow> nat list \<Rightarrow> bool" where
  "block_base cs m b L \<longleftrightarrow> 8 \<le> b_words b \<and> L \<noteq> [] \<and> layout cs m (b_words b) L (b_end b) \<and>
     readable m (b_words b) (8 * b_n_words b)"

text \<open>Both rings hold what they should; and there are no two unused cells in a row.\<close>

definition block_rings :: "cells \<Rightarrow> block \<Rightarrow> nat list \<Rightarrow> bool" where
  "block_rings cs b L \<longleftrightarrow> ring_of cs (b_used_cells b) (used_of cs L) \<and>
     ring_of cs (b_unused_cells b) (free_of cs L)"

definition coalesced :: "cells \<Rightarrow> nat list \<Rightarrow> bool" where
  "coalesced cs L \<longleftrightarrow> successively (\<lambda>c d. in_use cs c \<or> in_use cs d) L"

definition block_ok :: "cells \<Rightarrow> space \<Rightarrow> block \<Rightarrow> nat list \<Rightarrow> bool" where
  "block_ok cs m b L \<longleftrightarrow> block_base cs m b L \<and> block_rings cs b L \<and>
     b_n_used b = card (used_of cs L) \<and> coalesced cs L"

text \<open>The allocations in a set of cells, with their contents.\<close>

definition live :: "cells \<Rightarrow> space \<Rightarrow> nat set \<Rightarrow> (nat \<times> bytes) set" where
  "live cs m C = {(a, bs). \<exists>c \<in> C. \<exists>cl. cs c = Some cl \<and> 0 < c_requested cl \<and> a = c_words cl + 8 \<and>
     load m a (c_requested cl) = Some bs}"

section \<open>Facts about layouts\<close>

lemma layout_le: "layout cs m a L e \<Longrightarrow> a \<le> e"
  by (induction L arbitrary: a) fastforce+

lemma layout_append:
  "layout cs m a (xs @ ys) e \<longleftrightarrow> (\<exists>p. layout cs m a xs p \<and> layout cs m p ys e)"
  by (induction xs arbitrary: a) auto

lemma layout_cell:
  assumes "layout cs m a L e" "c \<in> set L"
  obtains cl where "cs c = Some cl" "cell_ok cl" "0 < c" "c < size_limit" "a \<le> c_words cl"
    "c_words cl + 8 * c_n_words cl \<le> e" "load_ptr m (c_words cl) = Some c" "load_ptr m (last_word cl) = Some c"
proof -
  obtain xs ys where "L = xs @ c # ys" using assms(2) by (metis split_list)
  then show thesis using that assms(1) layout_le by (fastforce simp: layout_append)
qed

lemma layout_cong:
  assumes "layout cs m a L e" "\<And>c. c \<in> set L \<Longrightarrow> map_option core (cs' c) = map_option core (cs c)"
    "\<And>x. a \<le> x \<Longrightarrow> x < e \<Longrightarrow> m' x = m x"
  shows "layout cs' m' a L e"
  using assms
proof (induction L arbitrary: a)
  case (Cons c L)
  then obtain cl where cl: "cs c = Some cl" "c_words cl = a" "cell_ok cl" "load_ptr m (c_words cl) = Some c"
    "load_ptr m (last_word cl) = Some c" "layout cs m (a + 8 * c_n_words cl) L e" "0 < c" "c < size_limit" by auto
  have "map_option core (cs' c) = map_option core (cs c)" using Cons.prems(2) by simp
  then obtain cl' where cl': "cs' c = Some cl'" "core cl' = core cl" using cl(1) by auto
  have le: "a + 8 * c_n_words cl \<le> e" "2 \<le> c_n_words cl" using layout_le [OF cl(6)] cl(3) by (auto simp: cell_ok_def)
  have "load_ptr m' (c_words cl) = load_ptr m (c_words cl)"
    by (rule load_ptr_cong) (use Cons.prems(3) le cl(2) in auto)
  moreover have "load_ptr m' (last_word cl) = load_ptr m (last_word cl)"
    by (rule load_ptr_cong) (use Cons.prems(3) le cl(2) in \<open>auto simp: last_word_def\<close>)
  moreover have "layout cs' m' (a + 8 * c_n_words cl) L e"
    by (rule Cons.IH [OF cl(6)]) (use Cons.prems(2,3) in auto)
  ultimately show ?case
    using cl cl' by (auto simp: core_eq_iff cell_ok_def last_word_def)
qed simp

lemma in_use_cong: "map_option core (cs' c) = map_option core (cs c) \<Longrightarrow> in_use cs' c = in_use cs c"
  by (cases "cs c"; cases "cs' c") (auto simp: in_use_def core_eq_iff)

lemma live_cong:
  assumes "layout cs m a L e" "\<And>c. c \<in> set L \<Longrightarrow> map_option core (cs' c) = map_option core (cs c)"
    "\<And>x. a \<le> x \<Longrightarrow> x < e \<Longrightarrow> m' x = m x"
  shows "live cs' m' (set L) = live cs m (set L)"
proof -
  have "(\<exists>cl. cs' c = Some cl \<and> 0 < c_requested cl \<and> p = c_words cl + 8 \<and> load m' p (c_requested cl) = Some bs) \<longleftrightarrow>
      (\<exists>cl. cs c = Some cl \<and> 0 < c_requested cl \<and> p = c_words cl + 8 \<and> load m p (c_requested cl) = Some bs)"
    if c: "c \<in> set L" for c p bs
  proof -
    obtain cl where cl: "cs c = Some cl" "cell_ok cl" "a \<le> c_words cl" "c_words cl + 8 * c_n_words cl \<le> e"
      using layout_cell [OF assms(1) c] by metis
    obtain cl' where cl': "cs' c = Some cl'" "core cl' = core cl"
      using assms(2) [OF c] cl(1) by auto
    have "load m' (c_words cl + 8) (c_requested cl) = load m (c_words cl + 8) (c_requested cl)"
    proof (rule load_cong)
      fix x
      assume "c_words cl + 8 \<le> x" "x < c_words cl + 8 + c_requested cl"
      then have "a \<le> x" "x < e" using cl(2-4) by (auto simp: cell_ok_def split: if_splits)
      then show "m' x = m x" by (rule assms(3))
    qed
    then show ?thesis using cl(1) cl' by (auto simp: core_eq_iff)
  qed
  then show ?thesis unfolding live_def by blast
qed

lemma live_Un: "live cs m (C \<union> D) = live cs m C \<union> live cs m D"
  by (auto simp: live_def)

lemma live_append: "live cs m (set (xs @ c # ys)) = live cs m (set xs) \<union> live cs m {c} \<union> live cs m (set ys)"
  by (simp add: live_Un [symmetric] Un_commute Un_assoc)

lemma live_free: "\<not> in_use cs c \<Longrightarrow> live cs m {c} = {}"
  by (auto simp: live_def in_use_def)

lemma layout_distinct: "layout cs m a L e \<Longrightarrow> distinct L"
proof (induction L arbitrary: a)
  case (Cons c L)
  then obtain cl where cl: "cs c = Some cl" "c_words cl = a" "cell_ok cl" "layout cs m (a + 8 * c_n_words cl) L e" by auto
  have "c \<notin> set L"
  proof
    assume "c \<in> set L"
    from layout_cell [OF cl(4) this] show False using cl(1-3) by (auto simp: cell_ok_def)
  qed
  then show ?case using Cons.IH [OF cl(4)] by simp
qed simp

lemma layout_splice:
  assumes "layout cs m a xs p" "layout cs m q ys e" "layout cs' m' p mid q"
    and "\<And>c. c \<in> set xs \<union> set ys \<Longrightarrow> map_option core (cs' c) = map_option core (cs c)"
    and "\<And>x. x < p \<or> q \<le> x \<Longrightarrow> m' x = m x"
  shows "layout cs' m' a (xs @ mid @ ys) e"
    "live cs' m' (set (xs @ mid @ ys)) = live cs m (set xs) \<union> live cs' m' (set mid) \<union> live cs m (set ys)"
proof -
  have x: "layout cs' m' a xs p" "live cs' m' (set xs) = live cs m (set xs)"
    by (rule layout_cong [OF assms(1)] live_cong [OF assms(1)]; use assms(4,5) in auto)+
  have y: "layout cs' m' q ys e" "live cs' m' (set ys) = live cs m (set ys)"
    by (rule layout_cong [OF assms(2)] live_cong [OF assms(2)]; use assms(4,5) in auto)+
  show "layout cs' m' a (xs @ mid @ ys) e" using x(1) y(1) assms(3) by (auto simp: layout_append)
  show "live cs' m' (set (xs @ mid @ ys)) = live cs m (set xs) \<union> live cs' m' (set mid) \<union> live cs m (set ys)"
    using x(2) y(2) by (simp add: live_Un Un_assoc)
qed

lemma layout_split:
  assumes "layout cs m a (xs @ c # ys) e"
  obtains cl where "cs c = Some cl" "cell_ok cl" "layout cs m a xs (c_words cl)"
    "layout cs m (c_words cl + 8 * c_n_words cl) ys e" "0 < c" "c < size_limit"
    "load_ptr m (c_words cl) = Some c" "load_ptr m (last_word cl) = Some c"
    "c \<notin> set xs" "c \<notin> set ys" "a \<le> c_words cl" "c_words cl + 8 * c_n_words cl \<le> e"
proof -
  obtain p where p: "layout cs m a xs p" "layout cs m p (c # ys) e" using assms unfolding layout_append by blast
  then obtain cl where cl: "cs c = Some cl" "c_words cl = p" "cell_ok cl" "0 < c" "c < size_limit"
    "load_ptr m (c_words cl) = Some c" "load_ptr m (last_word cl) = Some c"
    "layout cs m (p + 8 * c_n_words cl) ys e" by auto
  have "distinct (xs @ c # ys)" by (rule layout_distinct [OF assms])
  then show thesis
    using that [OF cl(1,3)] p(1) cl layout_le [OF p(1)] layout_le [OF cl(8)] by simp
qed

lemma check_guards:
  assumes "layout cs m a L e" "c \<in> set L"
  shows "sec_check_guards cs m c = Some ()"
proof -
  obtain cl where "cs c = Some cl" "0 < c" "load_ptr m (c_words cl) = Some c" "load_ptr m (last_word cl) = Some c"
    using layout_cell [OF assms] by metis
  then show ?thesis by (simp add: sec_check_guards_def cell_at_def)
qed

text \<open>Writing the guards of a cell changes the first and the last word of the cell.\<close>

definition wrote :: "space \<Rightarrow> space \<Rightarrow> nat \<Rightarrow> cell \<Rightarrow> bool" where
  "wrote m m' c cl \<longleftrightarrow> load_ptr m' (c_words cl) = Some c \<and> load_ptr m' (last_word cl) = Some c \<and>
     (\<forall>x. m x \<noteq> None \<longrightarrow> m' x \<noteq> None) \<and>
     (\<forall>x. \<not> (c_words cl \<le> x \<and> x < c_words cl + 8) \<and> \<not> (last_word cl \<le> x \<and> x < last_word cl + 8) \<longrightarrow> m' x = m x)"

lemma write_guards:
  assumes "cs c = Some cl" "0 < c" "c < size_limit" "2 \<le> c_n_words cl" "readable m (c_words cl) (8 * c_n_words cl)"
  shows "\<exists>m'. sec_write_guards cs m c = Some m' \<and> wrote m m' c cl"
proof -
  let ?m1 = "overwrite m (c_words cl) (ptr_bytes 8 c)"
  let ?m2 = "overwrite ?m1 (last_word cl) (ptr_bytes 8 c)"
  have r1: "readable m (c_words cl) 8" by (rule readable_sub [OF assms(5)]) (use assms(4) in auto)
  have "readable m (last_word cl) 8" by (rule readable_sub [OF assms(5)]) (use assms(4) in \<open>auto simp: last_word_def\<close>)
  then have r2: "readable ?m1 (last_word cl) 8" by (rule readable_overwrite)
  have "sec_write_guards cs m c = Some ?m2"
    using assms(1,2) r1 r2 by (simp add: sec_write_guards_def cell_at_def store_ptr_def store_Some)
  moreover have "load_ptr ?m2 (c_words cl) = Some c"
    using assms(3,4) by (simp add: load_ptr_other last_word_def load_ptr_same)
  moreover have "load_ptr ?m2 (last_word cl) = Some c" using assms(3) by (rule load_ptr_same)
  moreover have "\<forall>x. m x \<noteq> None \<longrightarrow> ?m2 x \<noteq> None" by (meson overwrite_mapped)
  moreover have "\<forall>x. \<not> (c_words cl \<le> x \<and> x < c_words cl + 8) \<and> \<not> (last_word cl \<le> x \<and> x < last_word cl + 8) \<longrightarrow> ?m2 x = m x"
    by (simp add: overwrite_def)
  ultimately show ?thesis unfolding wrote_def by blast
qed

lemma wrote_guards: "wrote m m' c cl \<Longrightarrow> load_ptr m' (c_words cl) = Some c" "wrote m m' c cl \<Longrightarrow> load_ptr m' (last_word cl) = Some c"
  by (simp_all add: wrote_def)

lemma wrote_readable: "wrote m m' c cl \<Longrightarrow> readable m a n \<Longrightarrow> readable m' a n"
  by (simp add: wrote_def readable_def)

lemma wrote_out:
  "wrote m m' c cl \<Longrightarrow> x < c_words cl \<or> c_words cl + 8 \<le> x \<Longrightarrow> x < last_word cl \<or> last_word cl + 8 \<le> x \<Longrightarrow> m' x = m x"
  unfolding wrote_def by (meson not_less)

lemma layout_first:
  assumes "layout cs m a (c # L) e"
  shows "load_ptr m a = Some c" "0 < c" "a < e"
proof -
  obtain cl where cl: "c_words cl = a" "cell_ok cl" "load_ptr m (c_words cl) = Some c" "0 < c"
    "layout cs m (a + 8 * c_n_words cl) L e" using assms by auto
  then show "load_ptr m a = Some c" "0 < c" "a < e"
    using layout_le [OF cl(5)] by (auto simp: cell_ok_def)
qed

lemma layout_last:
  assumes "layout cs m a (xs @ [d]) p"
  shows "load_ptr m (p - 8) = Some d" "a + 16 \<le> p" "0 < d"
proof -
  obtain cl where cl: "cs d = Some cl" "cell_ok cl" "load_ptr m (last_word cl) = Some d" "a \<le> c_words cl"
    "p = c_words cl + 8 * c_n_words cl" "0 < d"
  proof -
    from assms obtain cl where cl: "cs d = Some cl" "cell_ok cl" "0 < d" "load_ptr m (last_word cl) = Some d"
      "a \<le> c_words cl" "layout cs m (c_words cl + 8 * c_n_words cl) [] p"
      using layout_split [of cs m a xs d "[]" p] by metis
    then show thesis using that [of cl] by simp
  qed
  then have "last_word cl = p - 8" by (auto simp: last_word_def cell_ok_def)
  then show "load_ptr m (p - 8) = Some d" "a + 16 \<le> p" "0 < d" using cl by (auto simp: cell_ok_def)
qed

lemma neighbor_before:
  assumes "layout (cells s) (space s) (b_words b) (xs @ c # ys) (b_end b)" "8 \<le> b_words b"
  shows "sec_neighbor_before s b c = Some (if xs = [] then 0 else last xs)"
proof -
  obtain cl where cl: "cells s c = Some cl" "cell_ok cl" "layout (cells s) (space s) (b_words b) xs (c_words cl)"
    "0 < c" "b_words b \<le> c_words cl" "c_words cl + 8 * c_n_words cl \<le> b_end b"
    using layout_split [OF assms(1)] by metis
  show ?thesis
  proof (cases xs rule: rev_cases)
    case Nil
    then have "c_words cl = b_words b" using cl(3) by simp
    then have "\<not> sec_is_valid_word b (c_words cl - 8)" using assms(2) by (simp add: sec_is_valid_word_def)
    then show ?thesis using cl(1,4) Nil by (simp add: sec_neighbor_before_def cell_at_def Let_def)
  next
    case (snoc zs d)
    then have d: "load_ptr (space s) (c_words cl - 8) = Some d" "b_words b + 16 \<le> c_words cl" "0 < d"
      using layout_last cl(3) by blast+
    have "sec_is_valid_word b (c_words cl - 8)"
      using d(2) cl(2,6) by (auto simp: sec_is_valid_word_def b_end_def cell_ok_def)
    moreover have "sec_check_guards (cells s) (space s) d = Some ()"
      by (rule check_guards [OF assms(1)]) (simp add: snoc)
    ultimately show ?thesis using cl(1,4) d(1) snoc by (simp add: sec_neighbor_before_def cell_at_def)
  qed
qed

lemma neighbor_after:
  assumes "layout (cells s) (space s) (b_words b) (xs @ c # ys) (b_end b)"
  shows "sec_neighbor_after s b c = Some (if ys = [] then 0 else hd ys)"
proof -
  obtain cl where cl: "cells s c = Some cl" "cell_ok cl" "layout (cells s) (space s) (c_words cl + 8 * c_n_words cl) ys (b_end b)"
    "0 < c" "b_words b \<le> c_words cl"
    using layout_split [OF assms(1)] by metis
  show ?thesis
  proof (cases ys)
    case Nil
    then show ?thesis using cl by (simp add: sec_neighbor_after_def cell_at_def sec_is_valid_word_def b_end_def)
  next
    case (Cons d zs)
    then have d: "load_ptr (space s) (c_words cl + 8 * c_n_words cl) = Some d" "c_words cl + 8 * c_n_words cl < b_end b"
      using layout_first cl(3) by blast+
    have "sec_is_valid_word b (c_words cl + 8 * c_n_words cl)"
      using d(2) cl(5) by (simp add: sec_is_valid_word_def b_end_def)
    moreover have "sec_check_guards (cells s) (space s) d = Some ()"
      by (rule check_guards [OF assms(1)]) (simp add: Cons)
    ultimately show ?thesis using cl(1,4) d(1) Cons by (simp add: sec_neighbor_after_def cell_at_def)
  qed
qed

text \<open>Going round the ring of unused cells.\<close>

lemma ring_next:
  assumes "linked cs (pre @ z # zs)"
  obtains cz where "cs z = Some cz" "c_next cz = hd (zs @ pre @ [z])"
proof -
  have l: "linked cs (z # zs @ pre)" using assms linked_append [of cs pre "z # zs"] by simp
  show thesis
  proof (cases "zs @ pre")
    case Nil
    then show thesis using l that by (auto simp: linked_single)
  next
    case (Cons a ws)
    have "neighbours cs (z, a)" using l unfolding Cons linked_Cons2 by simp
    moreover have "hd (zs @ pre @ [z]) = a" using Cons by (cases zs) auto
    ultimately show thesis using that by (auto simp: neighbours_def)
  qed
qed

lemma find_from:
  assumes "linked cs (pre @ z # zs)" "distinct (pre @ z # zs)" "0 \<notin> set (pre @ z # zs)" "h = hd (pre @ [z])"
    "\<forall>d \<in> set pre. \<exists>cl. cs d = Some cl \<and> c_n_words cl < n"
  shows "\<exists>c. sec_find_cell cs h n z = Some c \<and>
    (c = 0 \<and> (\<forall>d \<in> set (pre @ z # zs). \<exists>cl. cs d = Some cl \<and> c_n_words cl < n) \<or>
     c \<in> set (pre @ z # zs) \<and> (\<exists>cl. cs c = Some cl \<and> n \<le> c_n_words cl))"
  using assms
proof (induction zs arbitrary: pre z)
  case Nil
  obtain cz where cz: "cs z = Some cz" "c_next cz = hd (pre @ [z])"
    using ring_next [OF Nil.prems(1)] by auto
  show ?case
  proof (cases "c_n_words cz < n")
    case True
    then have "sec_find_cell cs h n z = Some 0"
      using cz Nil.prems(3,4) by (subst sec_find_cell.simps) (simp add: cell_at_def)
    then show ?thesis using True cz(1) Nil.prems(5) by auto
  next
    case False
    then have "sec_find_cell cs h n z = Some z"
      using cz Nil.prems(3) by (subst sec_find_cell.simps) (simp add: cell_at_def)
    then show ?thesis using False cz(1) by auto
  qed
next
  case (Cons y ys)
  obtain cz where cz: "cs z = Some cz" "c_next cz = y"
    using ring_next [OF Cons.prems(1)] by auto
  have "y \<noteq> h" using Cons.prems(2,4) by (cases pre) auto
  show ?case
  proof (cases "c_n_words cz < n")
    case True
    then have eq: "sec_find_cell cs h n z = sec_find_cell cs h n y"
      using cz Cons.prems(3) \<open>y \<noteq> h\<close> by (subst sec_find_cell.simps) (simp add: cell_at_def)
    have "\<forall>d \<in> set (pre @ [z]). \<exists>cl. cs d = Some cl \<and> c_n_words cl < n" using True cz(1) Cons.prems(5) by auto
    moreover have "h = hd ((pre @ [z]) @ [y])" using Cons.prems(4) by (cases pre) auto
    ultimately show ?thesis
      using Cons.IH [of "pre @ [z]" y] Cons.prems(1-3) unfolding eq by simp
  next
    case False
    then have "sec_find_cell cs h n z = Some z"
      using cz Cons.prems(3) by (subst sec_find_cell.simps) (simp add: cell_at_def)
    then show ?thesis using False cz(1) by auto
  qed
qed

lemma find_cell:
  assumes "ring_of cs h F" "F \<noteq> {}"
  shows "\<exists>c. sec_find_cell cs h n h = Some c \<and>
    (c = 0 \<and> (\<forall>d \<in> F. \<exists>cl. cs d = Some cl \<and> c_n_words cl < n) \<or>
     c \<in> F \<and> (\<exists>cl. cs c = Some cl \<and> n \<le> c_n_words cl))"
proof -
  obtain xs where "distinct (h # xs)" "set (h # xs) = F" "linked cs (h # xs)" "0 \<notin> F"
    using assms by (auto simp: ring_of_def)
  then show ?thesis using find_from [of cs "[]" h xs h n] by simp
qed

end
