(* ===== verification/SecureAlloc.thy ===== *)
theory SecureAlloc
  imports SecureBlock
begin

text \<open>
  The operations on one block of secure memory (\<open>sec_alloc\<close>, \<open>sec_free\<close>, \<open>sec_realloc\<close> and
  \<open>sec_validate\<close> of \<open>egg/egg-secure-memory.c\<close>): each of them keeps the block well formed and violates
  no assertion, and changes the allocations of the block as its caller expects.
\<close>

section \<open>What an operation on a block leaves alone\<close>

text \<open>
  \<open>block_step A s b L s' b' L'\<close>: an operation on the block \<open>b\<close> with cells \<open>L\<close> keeps to its own cells
  and its own memory; \<open>A\<close> are all the items that are taken from the pool.
\<close>

definition block_step ::
  "nat set \<Rightarrow> secure \<Rightarrow> block \<Rightarrow> nat list \<Rightarrow> secure \<Rightarrow> block \<Rightarrow> nat list \<Rightarrow> bool" where
  "block_step A s b L s' b' L' \<longleftrightarrow>
     b_item b' = b_item b \<and> b_words b' = b_words b \<and> b_n_words b' = b_n_words b \<and>
     pools_own (pools s') (A - set L \<union> set L') \<and> (A - set L) \<inter> set L' = {} \<and>
     (\<forall>x \<in> A - set L. cells s' x = cells s x) \<and>
     (\<forall>x. x < b_words b \<or> b_end b \<le> x \<longrightarrow> space s' x = space s x)"

lemma block_step_refl: "pools_own (pools s) A \<Longrightarrow> set L \<subseteq> A \<Longrightarrow> block_step A s b L s b L"
  by (auto simp: block_step_def Un_absorb2 Diff_partition Un_commute)

lemma block_step_trans:
  assumes "block_step A s b L s1 b1 L1" "block_step (A - set L \<union> set L1) s1 b1 L1 s2 b2 L2"
  shows "block_step A s b L s2 b2 L2"
proof -
  have "(A - set L \<union> set L1) - set L1 = A - set L" using assms(1) by (auto simp: block_step_def)
  then show ?thesis using assms by (auto simp: block_step_def b_end_def)
qed

section \<open>Allocating\<close>

lemma used_of_iff: "c \<in> used_of cs L \<longleftrightarrow> c \<in> set L \<and> in_use cs c"
  by (simp add: used_of_def)

lemma free_of_iff: "c \<in> free_of cs L \<longleftrightarrow> c \<in> set L \<and> \<not> in_use cs c"
  by (simp add: free_of_def)

lemma base_mapped:
  assumes "block_base cs m b L" "b_words b \<le> a" "a + n \<le> b_end b"
  shows "readable m a n"
  by (rule readable_sub [of m "b_words b" "8 * b_n_words b"]) (use assms in \<open>auto simp: block_base_def b_end_def\<close>)

lemma links_only_core: "links_only cs cs' B \<Longrightarrow> map_option core (cs' x) = map_option core (cs x)"
  by (simp add: links_only_def)

lemma layout_unique:
  assumes "layout cs m a L e" "c \<in> set L" "d \<in> set L" "cs c = Some cl" "cs d = Some dl" "c_words cl = c_words dl"
  shows "c = d"
proof (rule ccontr)
  assume "c \<noteq> d"
  obtain xs ys where L: "L = xs @ c # ys" using assms(2) by (metis split_list)
  obtain k where k: "cs c = Some k" "cell_ok k" "layout cs m a xs (c_words k)"
    "layout cs m (c_words k + 8 * c_n_words k) ys e"
    using layout_split assms(1) unfolding L by metis
  have "d \<in> set xs \<or> d \<in> set ys" using assms(3) L \<open>c \<noteq> d\<close> by auto
  then show False
  proof
    assume "d \<in> set xs"
    from layout_cell [OF k(3) this] obtain k2 where "cs d = Some k2" "cell_ok k2" "c_words k2 + 8 * c_n_words k2 \<le> c_words k"
      by metis
    then show False using assms(4-6) k(1) by (simp add: cell_ok_def)
  next
    assume "d \<in> set ys"
    from layout_cell [OF k(4) this] obtain k2 where "cs d = Some k2" "c_words k + 8 * c_n_words k \<le> c_words k2"
      by metis
    then show False using assms(4-6) k(1,2) by (simp add: cell_ok_def)
  qed
qed

lemma live_not_free:
  assumes "layout cs m a L e" "c \<in> set L" "cs c = Some cl" "c_requested cl = 0"
  shows "(c_words cl + 8, bs) \<notin> live cs m (set L)"
proof
  assume "(c_words cl + 8, bs) \<in> live cs m (set L)"
  then obtain d dl where d: "d \<in> set L" "cs d = Some dl" "0 < c_requested dl" "c_words cl = c_words dl"
    by (auto simp: live_def)
  from layout_unique [OF assms(1,2) d(1) assms(3) d(2,4)] show False using d(2,3) assms(3,4) by simp
qed

text \<open>An unused cell that is in no ring is put to use.\<close>

lemma use_cell:
  assumes base: "block_base cs m b L" and c: "c \<in> set L" "cs c = Some cl" "c_next cl = 0" "c_prev cl = 0" "c_requested cl = 0"
    and rings: "ring_of cs used (used_of cs L)" "ring_of cs unused (free_of cs L - {c})"
    and n: "0 < n" "n \<le> 8 * (c_n_words cl - 2)"
  shows "\<exists>cs' m'. sec_insert_cell_ring (cs(c \<mapsto> cl\<lparr>c_tag := Some tag, c_requested := n\<rparr>)) used c = Some (cs', c) \<and>
     store m (c_words cl + 8) (replicate n 0) = Some m' \<and> block_base cs' m' b L \<and>
     ring_of cs' c (used_of cs' L) \<and> ring_of cs' unused (free_of cs' L) \<and>
     used_of cs' L = insert c (used_of cs L) \<and>
     live cs' m' (set L) = insert (c_words cl + 8, replicate n 0) (live cs m (set L)) \<and>
     (\<forall>x. x \<notin> set L \<longrightarrow> cs' x = cs x) \<and> (\<forall>x. x < b_words b \<or> b_end b \<le> x \<longrightarrow> m' x = m x)"
proof -
  let ?cl = "cl\<lparr>c_tag := Some tag, c_requested := n\<rparr>"
  let ?cs = "cs(c \<mapsto> ?cl)"
  let ?m = "overwrite m (c_words cl + 8) (replicate n 0)"
  obtain xs ys where L: "L = xs @ c # ys" using c(1) by (metis split_list)
  have lay: "layout cs m (b_words b) (xs @ c # ys) (b_end b)" using base L by (simp add: block_base_def)
  obtain k where k: "cs c = Some k" "cell_ok k" "layout cs m (b_words b) xs (c_words k)"
    "layout cs m (c_words k + 8 * c_n_words k) ys (b_end b)" "0 < c" "c < size_limit"
    "load_ptr m (c_words k) = Some c" "load_ptr m (last_word k) = Some c" "c \<notin> set xs" "c \<notin> set ys"
    "b_words b \<le> c_words k" "c_words k + 8 * c_n_words k \<le> b_end b"
    using layout_split [OF lay] by metis
  then have kc: "k = cl" using c(2) by simp
  note k = k [unfolded kc]
  have N: "2 \<le> c_n_words cl" using k(2) by (simp add: cell_ok_def)
  have free: "\<not> in_use cs c" using c(2,5) by (simp add: in_use_def)
  have notin: "c \<notin> used_of cs L" using free by (simp add: used_of_iff)
  have "ring_of ?cs used (used_of cs L)"
    by (rule ring_of_cong [OF rings(1)]) (use notin in auto)
  then obtain cs' where ins: "sec_insert_cell_ring ?cs used c = Some (cs', c)" "ring_of cs' c (insert c (used_of cs L))"
    "links_only ?cs cs' (insert c (used_of cs L))"
    using insert_cell_ring [of ?cs used "used_of cs L" c ?cl] notin k(5) c(3,4) by auto
  have core: "map_option core (cs' x) = map_option core (cs x)" if "x \<noteq> c" for x
    using links_only_core [OF ins(3), of x] that by simp
  obtain k' where k': "cs' c = Some k'" "core k' = core ?cl"
    using links_only_core [OF ins(3), of c] by auto
  have inuse: "in_use cs' x = (x = c \<or> in_use cs x)" for x
    using in_use_cong [of cs' x cs] core [of x] k' n(1) by (auto simp: in_use_def core_eq_iff)
  have used: "used_of cs' L = insert c (used_of cs L)" "free_of cs' L = free_of cs L - {c}"
    using c(1) by (auto simp: used_of_def free_of_def inuse)
  have "ring_of cs' unused (free_of cs L - {c})"
  proof (rule ring_of_cong [OF rings(2)])
    fix x
    assume x: "x \<in> free_of cs L - {c}"
    then have "cs' x = ?cs x" using ins(3) by (auto simp: links_only_def free_of_iff used_of_iff)
    then show "map_option ends (cs' x) = map_option ends (cs x)" using x by simp
  qed
  moreover have st: "store m (c_words cl + 8) (replicate n 0) = Some ?m"
    by (rule store_Some) (use base_mapped [OF base, of "c_words cl + 8" n] k(11,12) n N in simp)
  have out: "?m x = m x" if "x < c_words cl + 8 \<or> last_word cl \<le> x" for x
    using that n N by (auto simp: overwrite_def last_word_def)
  have guards: "load_ptr ?m (c_words cl) = Some c" "load_ptr ?m (last_word cl) = Some c"
    using k(7,8) load_ptr_cong [of "c_words cl" ?m m] load_ptr_cong [of "last_word cl" ?m m] out by auto
  have mid: "layout cs' ?m (c_words cl) [c] (c_words cl + 8 * c_n_words cl)"
    using k(5,6) k' N n guards by (auto simp: core_eq_iff cell_ok_def last_word_def)
  have cores: "map_option core (cs' d) = map_option core (cs d)" if "d \<in> set xs \<union> set ys" for d
    by (rule core) (use that k(9,10) in auto)
  have mem: "?m x = m x" if "x < c_words cl \<or> c_words cl + 8 * c_n_words cl \<le> x" for x
    by (rule out) (use that N in \<open>auto simp: last_word_def\<close>)
  note spl = layout_splice [OF k(3,4) mid cores mem]
  have one: "live cs' ?m (set [c]) = {(c_words cl + 8, replicate n 0)}"
    using k' n(1) load_overwrite_same [of m "c_words cl + 8" "replicate n 0"] by (auto simp: live_def core_eq_iff)
  have "live cs m (set L) = live cs m (set xs) \<union> live cs m (set ys)"
    unfolding L live_append by (simp add: live_free [OF free])
  then have "live cs' ?m (set L) = insert (c_words cl + 8, replicate n 0) (live cs m (set L))"
    using spl(2) one L by auto
  moreover have "block_base cs' ?m b L"
    using base spl(1) L by (auto simp: block_base_def intro: readable_overwrite)
  moreover have "cs' x = cs x" if "x \<notin> set L" for x
    using ins(3) that c(1) by (auto simp: links_only_def used_of_iff)
  moreover have "?m x = m x" if "x < b_words b \<or> b_end b \<le> x" for x
    using that k(11,12) by (intro out) (auto simp: last_word_def)
  ultimately show ?thesis using ins(1,2) st used by auto
qed

text \<open>What depends on the cells only through their cores.\<close>

lemma same_cores:
  assumes "\<And>x. x \<in> set L \<Longrightarrow> map_option core (cs' x) = map_option core (cs x)"
  shows "used_of cs' L = used_of cs L" "free_of cs' L = free_of cs L" "coalesced cs' L = coalesced cs L"
    "block_base cs m b L \<Longrightarrow> block_base cs' m b L"
    "layout cs m a L e \<Longrightarrow> live cs' m (set L) = live cs m (set L)"
proof -
  have u: "in_use cs' x = in_use cs x" if "x \<in> set L" for x
    using assms [OF that] by (rule in_use_cong)
  then show "used_of cs' L = used_of cs L" "free_of cs' L = free_of cs L"
    by (auto simp: used_of_def free_of_def)
  show "coalesced cs' L = coalesced cs L"
    unfolding coalesced_def by (rule successively_cong) (use u in auto)
  show "block_base cs m b L \<Longrightarrow> block_base cs' m b L"
    using layout_cong [of cs m _ L _ cs' m] assms by (auto simp: block_base_def)
  show "layout cs m a L e \<Longrightarrow> live cs' m (set L) = live cs m (set L)"
    using live_cong [of cs m a L e cs' m] assms by auto
qed

lemma ring_apart:
  assumes "links_only cs cs' A" "ring_of cs h B" "A \<inter> B = {}"
  shows "ring_of cs' h B"
  by (rule ring_of_cong [OF assms(2)]) (use assms(1,3) in \<open>auto simp: links_only_def\<close>)

lemma used_free_disjoint: "used_of cs L \<inter> free_of cs L = {}"
  by (auto simp: used_of_def free_of_def)

lemma coalesced_insert:
  assumes "coalesced cs (xs @ c # ys)" "\<And>d. d \<in> set (xs @ r # c # ys) \<Longrightarrow> in_use cs' d \<longleftrightarrow> d = r \<or> in_use cs d"
  shows "coalesced cs' (xs @ r # c # ys)"
  using assms by (auto simp: coalesced_def successively_append_iff successively_Cons
      elim!: successively_mono)

text \<open>The front of a long cell becomes a cell.\<close>

lemma split_cell:
  assumes base: "block_base (cells s) (space s) b (xs @ c # ys)" and c: "cells s c = Some cl" "c_requested cl = 0"
    and k: "2 \<le> k" "k + WASTE < c_n_words cl"
    and own: "pools_own (pools s) A" "set (xs @ c # ys) \<subseteq> A" "maps_fresh (E s) (pools s)"
    and rings: "block_rings (cells s) b (xs @ c # ys)"
  shows "sec_split E s c k = Some (0, s) \<or> (\<exists>r s' rl. sec_split E s c k = Some (r, s') \<and> r \<noteq> 0 \<and> r \<notin> A \<and>
    block_base (cells s') (space s') b (xs @ r # c # ys) \<and>
    cells s' r = Some rl \<and> c_next rl = 0 \<and> c_prev rl = 0 \<and> c_requested rl = 0 \<and> c_n_words rl = k \<and>
    (\<forall>d. d \<noteq> r \<longrightarrow> in_use (cells s') d = in_use (cells s) d) \<and>
    ring_of (cells s') (b_used_cells b) (used_of (cells s) (xs @ c # ys)) \<and>
    ring_of (cells s') (b_unused_cells b) (free_of (cells s) (xs @ c # ys)) \<and>
    live (cells s') (space s') (set (xs @ r # c # ys)) = live (cells s) (space s) (set (xs @ c # ys)) \<and>
    c_words rl = c_words cl \<and> pools_own (pools s') (insert r A) \<and>
    (\<forall>x. x \<noteq> r \<and> x \<noteq> c \<longrightarrow> cells s' x = cells s x) \<and>
    (\<forall>x. x < b_words b \<or> b_end b \<le> x \<longrightarrow> space s' x = space s x))"
  using own(3,1)
proof (cases rule: items.take_cases)
  case no_memory
  then show ?thesis by (simp add: sec_split_def)
next
  case (taken r ps)
  have lay: "layout (cells s) (space s) (b_words b) (xs @ c # ys) (b_end b)" using base by (simp add: block_base_def)
  obtain k' where l0: "cells s c = Some k'" "cell_ok k'" "layout (cells s) (space s) (b_words b) xs (c_words k')"
    "layout (cells s) (space s) (c_words k' + 8 * c_n_words k') ys (b_end b)" "0 < c" "c < size_limit"
    "load_ptr (space s) (c_words k') = Some c" "load_ptr (space s) (last_word k') = Some c" "c \<notin> set xs" "c \<notin> set ys"
    "b_words b \<le> c_words k'" "c_words k' + 8 * c_n_words k' \<le> b_end b"
    using layout_split [OF lay] by metis
  then have kc: "k' = cl" using c(1) by simp
  note l = l0 [unfolded kc]
  have r: "r \<noteq> 0" "r < size_limit" "r \<notin> set xs" "r \<notin> set ys" "r \<noteq> c"
    using taken(2,3) items.owned_address [OF taken(4), of r] own(2) by auto
  let ?rl = "blank_cell\<lparr>c_n_words := k, c_words := c_words cl\<rparr>"
  let ?cl = "cl\<lparr>c_n_words := c_n_words cl - k, c_words := c_words cl + 8 * k\<rparr>"
  define cs1 where "cs1 = (cells s)(r \<mapsto> ?rl, c \<mapsto> ?cl)"
  have cs1: "cs1 r = Some ?rl" "cs1 c = Some ?cl" "\<And>d. d \<noteq> r \<Longrightarrow> d \<noteq> c \<Longrightarrow> cs1 d = cells s d"
    using r(5) by (simp_all add: cs1_def)
  have rd: "readable (space s) (c_words cl) (8 * c_n_words cl)"
    by (rule base_mapped [OF base]) (use l in auto)
  have "readable (space s) (c_words ?rl) (8 * c_n_words ?rl)"
    by (rule readable_sub [OF rd]) (use k in auto)
  then obtain m1 where m1: "sec_write_guards cs1 (space s) r = Some m1" "wrote (space s) m1 r ?rl"
    using write_guards [of cs1 r ?rl "space s"] cs1(1) r k by auto
  have "readable m1 (c_words ?cl) (8 * c_n_words ?cl)"
    by (rule readable_sub [OF wrote_readable [OF m1(2) rd]]) (use k in auto)
  moreover have "2 \<le> c_n_words ?cl" using k by (simp add: WASTE_def)
  ultimately obtain m2 where m2: "sec_write_guards cs1 m1 c = Some m2" "wrote m1 m2 c ?cl"
    using write_guards [of cs1 c ?cl m1, OF cs1(2) l(5,6)] by auto
  have early: "m2 x = m1 x" if "x < c_words cl + 8 * k" for x
    by (rule wrote_out [OF m2(2)]) (use that k in \<open>auto simp: last_word_def WASTE_def\<close>)
  have g: "load_ptr m2 (c_words ?rl) = Some r" "load_ptr m2 (last_word ?rl) = Some r"
    using wrote_guards [OF m1(2)] load_ptr_cong [of "c_words ?rl" m2 m1] load_ptr_cong [of "last_word ?rl" m2 m1] early k
    by (auto simp: last_word_def)
  have mid: "layout cs1 m2 (c_words cl) [r, c] (c_words cl + 8 * c_n_words cl)"
    using cs1 r l(5,6) k g wrote_guards [OF m2(2)] c(2) l(2) by (auto simp: cell_ok_def blank_cell_def last_word_def WASTE_def)
  have cores: "map_option core (cs1 d) = map_option core (cells s d)" if "d \<in> set xs \<union> set ys" for d
  proof -
    have "d \<noteq> r" "d \<noteq> c" using that l(9,10) r by auto
    then show ?thesis by (simp add: cs1(3))
  qed
  have mem: "m2 x = space s x" if "x < c_words cl \<or> c_words cl + 8 * c_n_words cl \<le> x" for x
  proof -
    have "m2 x = m1 x" by (rule wrote_out [OF m2(2)]) (use that k in \<open>auto simp: last_word_def WASTE_def\<close>)
    also have "\<dots> = space s x"
      by (rule wrote_out [OF m1(2)]) (use that k in \<open>auto simp: last_word_def WASTE_def\<close>)
    finally show ?thesis .
  qed
  note spl = layout_splice [OF l(3,4) mid cores mem]
  have none: "live cs1 m2 (set [r, c]) = {}" using c(2) cs1 by (auto simp: live_def blank_cell_def)
  have "live (cells s) (space s) (set (xs @ c # ys)) = live (cells s) (space s) (set xs) \<union> live (cells s) (space s) (set ys)"
    unfolding live_append using live_free [of "cells s" c] c by (simp add: in_use_def)
  then have lv: "live cs1 m2 (set (xs @ r # c # ys)) = live (cells s) (space s) (set (xs @ c # ys))"
    using spl(2) unfolding none by (simp only: append_Cons append_Nil Un_empty_right)
  have iu: "in_use cs1 d = in_use (cells s) d" if "d \<noteq> r" for d
    using that c cs1 by (cases "d = c") (auto simp: in_use_def)
  have rg: "ring_of cs1 h B" if "ring_of (cells s) h B" "r \<notin> B" for h B
    by (rule ring_of_cong [OF that(1)]) (use that(2) c(1) cs1 in \<open>auto simp: cs1_def ends_def\<close>)
  have "sec_split E s c k = Some (r, s\<lparr>pools := ps, cells := cs1, space := m2\<rparr>)"
    using taken(1,2) l(5) c(1) m1(1) m2(1) by (simp add: sec_split_def cell_at_def cs1_def)
  moreover have "block_base cs1 m2 b (xs @ r # c # ys)"
    using base spl(1) wrote_readable [OF m2(2) wrote_readable [OF m1(2)]] by (simp add: block_base_def)
  moreover have "ring_of cs1 (b_used_cells b) (used_of (cells s) (xs @ c # ys))"
    "ring_of cs1 (b_unused_cells b) (free_of (cells s) (xs @ c # ys))"
    by (rule rg; use rings r in \<open>auto simp: block_rings_def used_of_def free_of_def\<close>)+
  moreover have "\<forall>x. x < b_words b \<or> b_end b \<le> x \<longrightarrow> m2 x = space s x"
    using mem l(11,12) by auto
  ultimately show ?thesis
    using r taken(3,4) lv iu
    by (intro disjI2 exI [of _ r] exI [of _ "s\<lparr>pools := ps, cells := cs1, space := m2\<rparr>"] exI [of _ ?rl])
      (simp add: blank_cell_def cs1)
qed

lemma ring_zero: "ring_of cs h A \<Longrightarrow> h = 0 \<longleftrightarrow> A = {}"
  by (auto simp: ring_of_def split: if_splits)

lemma block_base_fields:
  "b_words b' = b_words b \<Longrightarrow> b_n_words b' = b_n_words b \<Longrightarrow> block_base cs m b' L = block_base cs m b L"
  by (simp add: block_base_def b_end_def)

lemma finite_used: "finite (used_of cs L)"
  by (simp add: used_of_def)

text \<open>The last part of \<open>sec_alloc\<close>: the chosen cell leaves the ring of unused cells and is put to use.\<close>

lemma commit_alloc:
  assumes base: "block_base (cells s) (space s) b L" and c: "c \<in> set L" "cells s c = Some cl" "c_requested cl = 0"
    and used: "ring_of (cells s) (b_used_cells b) (used_of (cells s) L)"
    and unused: "c_next cl = 0 \<and> c_prev cl = 0 \<and> ring_of (cells s) (b_unused_cells b) (free_of (cells s) L - {c}) \<or>
      c_next cl \<noteq> 0 \<and> ring_of (cells s) (b_unused_cells b) (free_of (cells s) L)"
    and n: "0 < n" "n \<le> 8 * (c_n_words cl - 2)" and nused: "b_n_used b = card (used_of (cells s) L)"
    and co: "\<And>cs'. (\<And>d. d \<in> set L \<Longrightarrow> in_use cs' d \<longleftrightarrow> d = c \<or> in_use (cells s) d) \<Longrightarrow> coalesced cs' L"
  shows "\<exists>s' b'. (do {
           k \<leftarrow> cell_at (cells s) c;
           (cs, unused) \<leftarrow> (if c_next k \<noteq> 0 then sec_remove_cell_ring (cells s) (b_unused_cells b) c
             else Some (cells s, b_unused_cells b));
           k \<leftarrow> cell_at cs c;
           let cs = cs(c \<mapsto> k\<lparr>c_tag := Some tag, c_requested := n\<rparr>);
           (cs, used) \<leftarrow> sec_insert_cell_ring cs (b_used_cells b) c;
           let memory = sec_cell_to_memory k;
           m \<leftarrow> store (space s) memory (replicate n 0);
           Some (memory, s\<lparr>cells := cs, space := m\<rparr>,
             b\<lparr>b_n_used := b_n_used b + 1, b_used_cells := used, b_unused_cells := unused\<rparr>) }) =
         Some (c_words cl + 8, s', b') \<and> block_ok (cells s') (space s') b' L \<and> pools s' = pools s \<and>
         b_item b' = b_item b \<and> b_words b' = b_words b \<and> b_n_words b' = b_n_words b \<and> b_n_used b' = b_n_used b + 1 \<and>
         live (cells s') (space s') (set L) = insert (c_words cl + 8, replicate n 0) (live (cells s) (space s) (set L)) \<and>
         (\<forall>x. x \<notin> set L \<longrightarrow> cells s' x = cells s x) \<and>
         (\<forall>x. x < b_words b \<or> b_end b \<le> x \<longrightarrow> space s' x = space s x)"
proof -
  have lay: "layout (cells s) (space s) (b_words b) L (b_end b)" using base by (simp add: block_base_def)
  have c0: "c \<noteq> 0" using layout_cell [OF lay c(1)] by auto
  have free: "c \<in> free_of (cells s) L" using c by (auto simp: free_of_iff in_use_def)
  obtain cs1 un k where u: "(if c_next cl \<noteq> 0 then sec_remove_cell_ring (cells s) (b_unused_cells b) c
      else Some (cells s, b_unused_cells b)) = Some (cs1, un)" "ring_of cs1 un (free_of (cells s) L - {c})"
    "links_only (cells s) cs1 (free_of (cells s) L)" "cs1 c = Some k" "c_next k = 0" "c_prev k = 0"
  proof (cases "c_next cl = 0")
    case True
    then show thesis using unused c(2) that [of "cells s" "b_unused_cells b" cl] by (simp add: links_only_def)
  next
    case False
    then have "ring_of (cells s) (b_unused_cells b) (free_of (cells s) L)" using unused by simp
    from remove_cell_ring [OF this free] that False show thesis by auto
  qed
  have cores: "map_option core (cs1 x) = map_option core (cells s x)" for x
    by (rule links_only_core [OF u(3)])
  have k: "core k = core cl" using cores [of c] u(4) c(2) by simp
  have base1: "block_base cs1 (space s) b L" by (rule same_cores(4) [OF _ base]) (rule cores)
  have sets: "used_of cs1 L = used_of (cells s) L" "free_of cs1 L = free_of (cells s) L"
    by (rule same_cores(1) same_cores(2); rule cores)+
  have "ring_of cs1 (b_used_cells b) (used_of cs1 L)"
    unfolding sets by (rule ring_apart [OF u(3) used]) (use used_free_disjoint in blast)
  then obtain cs' m' where w: "sec_insert_cell_ring (cs1(c \<mapsto> k\<lparr>c_tag := Some tag, c_requested := n\<rparr>)) (b_used_cells b) c = Some (cs', c)"
     "store (space s) (c_words k + 8) (replicate n 0) = Some m'" "block_base cs' m' b L"
     "ring_of cs' c (used_of cs' L)" "ring_of cs' un (free_of cs' L)" "used_of cs' L = insert c (used_of cs1 L)"
     "live cs' m' (set L) = insert (c_words k + 8, replicate n 0) (live cs1 (space s) (set L))"
     "\<forall>x. x \<notin> set L \<longrightarrow> cs' x = cs1 x" "\<forall>x. x < b_words b \<or> b_end b \<le> x \<longrightarrow> m' x = space s x"
    using use_cell [OF base1 c(1) u(4-6) _ _ _ n(1), of "b_used_cells b" un tag] u(2) k c(3) n(2)
    by (auto simp: core_eq_iff sets)
  let ?b = "b\<lparr>b_n_used := b_n_used b + 1, b_used_cells := c, b_unused_cells := un\<rparr>"
  have cu: "c \<notin> used_of (cells s) L" using free used_free_disjoint by blast
  have "coalesced cs' L"
  proof (rule co)
    fix d
    assume d: "d \<in> set L"
    have "d \<in> used_of cs' L \<longleftrightarrow> d = c \<or> d \<in> used_of (cells s) L" using w(6) sets by auto
    then show "in_use cs' d \<longleftrightarrow> d = c \<or> in_use (cells s) d" using d c(1) by (simp add: used_of_iff)
  qed
  then have "block_ok cs' m' ?b L"
    using w(3-6) cu nused sets
    by (simp add: block_ok_def block_rings_def block_base_def b_end_def finite_used)
  moreover have "live cs1 (space s) (set L) = live (cells s) (space s) (set L)"
    by (rule same_cores(5) [OF _ lay]) (rule cores)
  moreover have "cs1 x = cells s x" if "x \<notin> set L" for x
    using u(3) that by (auto simp: links_only_def free_of_iff)
  ultimately show ?thesis
    using c0 c(2) u(1,4) w k
    by (intro exI [of _ "s\<lparr>cells := cs', space := m'\<rparr>"] exI [of _ ?b])
      (simp add: cell_at_def sec_cell_to_memory_def core_eq_iff)
qed

lemma size_to_words: "n \<le> 8 * sec_size_to_words n" "0 < n \<Longrightarrow> 0 < sec_size_to_words n"
proof -
  have "n = 8 * (n div 8) + n mod 8" by simp
  moreover have "n mod 8 < 8" by simp
  ultimately show "n \<le> 8 * sec_size_to_words n" "0 < n \<Longrightarrow> 0 < sec_size_to_words n"
    by (auto simp: sec_size_to_words_def)
qed

text \<open>
  An allocation finds no room and changes nothing, or it is a new, cleared one among the
  allocations of the block.
\<close>

definition allocated_in ::
  "nat set \<Rightarrow> secure \<Rightarrow> block \<Rightarrow> nat list \<Rightarrow> nat \<Rightarrow> nat \<Rightarrow> secure \<Rightarrow> block \<Rightarrow> nat list \<Rightarrow> bool" where
  "allocated_in A s b L n a s' b' L' \<longleftrightarrow> a \<noteq> 0 \<and> block_ok (cells s') (space s') b' L' \<and> block_step A s b L s' b' L' \<and>
     live (cells s') (space s') (set L') = insert (a, replicate n 0) (live (cells s) (space s) (set L)) \<and>
     (\<forall>bs. (a, bs) \<notin> live (cells s) (space s) (set L)) \<and> b_n_used b' = b_n_used b + 1"

lemma sec_alloc_spec:
  assumes ok: "block_ok (cells s) (space s) b L" and own: "pools_own (pools s) A" "set L \<subseteq> A" "maps_fresh (E s) (pools s)"
    and n: "0 < n"
  shows "sec_alloc E s b tag n = Some (0, s, b) \<or>
    (\<exists>a s' b' L'. sec_alloc E s b tag n = Some (a, s', b') \<and> allocated_in A s b L n a s' b' L')"
proof (cases "b_unused_cells b = 0")
  case True
  then show ?thesis using n by (simp add: sec_alloc_def)
next
  case False
  let ?k = "sec_size_to_words n + 2"
  note ok' = ok [unfolded block_ok_def block_rings_def]
  have base: "block_base (cells s) (space s) b L" using ok' by simp
  then have lay: "layout (cells s) (space s) (b_words b) L (b_end b)" by (simp add: block_base_def)
  have unused: "ring_of (cells s) (b_unused_cells b) (free_of (cells s) L)" using ok' by simp
  have "free_of (cells s) L \<noteq> {}" using False ring_zero [OF unused] by simp
  from find_cell [OF unused this, of ?k] obtain c where
    f: "sec_find_cell (cells s) (b_unused_cells b) ?k (b_unused_cells b) = Some c"
    "c = 0 \<or> c \<in> free_of (cells s) L \<and> (\<exists>cl. cells s c = Some cl \<and> ?k \<le> c_n_words cl)" by auto
  show ?thesis
  proof (cases "c = 0")
    case True
    then show ?thesis using f(1) False n by (simp add: sec_alloc_def)
  next
    case c0: False
    then obtain cl where cl: "c \<in> free_of (cells s) L" "cells s c = Some cl" "?k \<le> c_n_words cl" using f(2) by auto
    then have c: "c \<in> set L" "c_requested cl = 0" by (auto simp: free_of_iff in_use_def)
    obtain k2 where "cells s c = Some k2" "cell_ok k2" "b_words b \<le> c_words k2" using layout_cell [OF lay c(1)] by metis
    then have cok: "c_tag cl = None" "c_words cl \<noteq> 0" "cell_ok cl"
      using cl(2) c(2) base by (auto simp: cell_ok_def block_base_def)
    obtain k3 where "cells s c = Some k3" "c_next k3 \<noteq> 0" "c_prev k3 \<noteq> 0" using ring_member [OF unused cl(1)] by metis
    then have ends: "c_next cl \<noteq> 0" "c_prev cl \<noteq> 0" using cl(2) by auto
    have guards: "sec_check_guards (cells s) (space s) c = Some ()" by (rule check_guards [OF lay c(1)])
    note start = f(1) c0 cl(2) c(2) cok(1,2) ends(2) guards False n
    have nz: "n \<le> 8 * (c_n_words cl - 2)" using cl(3) size_to_words(1) [of n] by simp
    show ?thesis
    proof (cases "c_n_words cl > ?k + WASTE")
      case False
      have co: "coalesced cs' L" if "\<And>d. d \<in> set L \<Longrightarrow> in_use cs' d \<longleftrightarrow> d = c \<or> in_use (cells s) d" for cs'
        using ok' that unfolding coalesced_def by (auto elim!: successively_mono)
      obtain s' b' where w: "sec_alloc E s b tag n = Some (c_words cl + 8, s', b')" "block_ok (cells s') (space s') b' L"
         "pools s' = pools s" "b_item b' = b_item b" "b_words b' = b_words b" "b_n_words b' = b_n_words b"
         "b_n_used b' = b_n_used b + 1"
         "live (cells s') (space s') (set L) = insert (c_words cl + 8, replicate n 0) (live (cells s) (space s) (set L))"
         "\<forall>x. x \<notin> set L \<longrightarrow> cells s' x = cells s x" "\<forall>x. x < b_words b \<or> b_end b \<le> x \<longrightarrow> space s' x = space s x"
        using commit_alloc [OF base c(1) cl(2) c(2) _ _ n nz _ co, of tag] ok' ends start False
        by (auto simp: sec_alloc_def cell_at_def)
      then have "block_step A s b L s' b' L"
        using own by (auto simp: block_step_def Un_absorb2 Diff_partition Un_commute)
      then have "allocated_in A s b L n (c_words cl + 8) s' b' L"
        using w live_not_free [OF lay c(1) cl(2) c(2)] by (simp add: allocated_in_def)
      then show ?thesis using w(1) by blast
    next
      case True
      obtain xs ys where L: "L = xs @ c # ys" using c(1) by (metis split_list)
      have rings: "block_rings (cells s) b L" using ok' by (simp add: block_rings_def)
      have two: "2 \<le> ?k" by simp
      from split_cell [of s b xs c ys cl ?k A E, OF base [unfolded L] cl(2) c(2) two True own(1) own(2) [unfolded L]
          own(3) rings [unfolded L]]
      consider "sec_split E s c ?k = Some (0, s)"
        | r s1 rl where "sec_split E s c ?k = Some (r, s1)" "r \<noteq> 0" "r \<notin> A"
          "block_base (cells s1) (space s1) b (xs @ r # c # ys)" "cells s1 r = Some rl" "c_next rl = 0" "c_prev rl = 0"
          "c_requested rl = 0" "c_n_words rl = ?k" "\<forall>d. d \<noteq> r \<longrightarrow> in_use (cells s1) d = in_use (cells s) d"
          "ring_of (cells s1) (b_used_cells b) (used_of (cells s) L)"
          "ring_of (cells s1) (b_unused_cells b) (free_of (cells s) L)"
          "live (cells s1) (space s1) (set (xs @ r # c # ys)) = live (cells s) (space s) (set L)"
          "pools_own (pools s1) (insert r A)" "\<forall>x. x \<noteq> r \<and> x \<noteq> c \<longrightarrow> cells s1 x = cells s x"
          "\<forall>x. x < b_words b \<or> b_end b \<le> x \<longrightarrow> space s1 x = space s x"
        unfolding L [symmetric] by auto
      then show ?thesis
      proof cases
        case 1
        then show ?thesis using start True by (simp add: sec_alloc_def cell_at_def)
      next
        case (2 r s1 rl)
        note p = this
        let ?L = "xs @ r # c # ys"
        have rL: "r \<notin> set L" using p(3) own(2) by auto
        have nr: "\<not> in_use (cells s1) r" using p(5,8) by (simp add: in_use_def)
        have setL: "set ?L = insert r (set L)" by (auto simp: L)
        have sets: "used_of (cells s1) ?L = used_of (cells s) L" "free_of (cells s1) ?L - {r} = free_of (cells s) L"
          unfolding used_of_def free_of_def setL using nr p(10) rL by auto
        have lay1: "layout (cells s1) (space s1) (b_words b) ?L (b_end b)" using p(4) by (simp add: block_base_def)
        have co: "coalesced cs' ?L"
          if d: "\<And>d. d \<in> set ?L \<Longrightarrow> in_use cs' d \<longleftrightarrow> d = r \<or> in_use (cells s1) d" for cs'
        proof (rule coalesced_insert)
          show "coalesced (cells s) (xs @ c # ys)" using ok' L by simp
          show "in_use cs' e \<longleftrightarrow> e = r \<or> in_use (cells s) e" if "e \<in> set ?L" for e
            using d [OF that] p(10) by auto
        qed
        have rin: "r \<in> set ?L" by simp
        have n1: "n \<le> 8 * (c_n_words rl - 2)" using p(9) size_to_words(1) [of n] by simp
        obtain s' b' where w: "sec_alloc E s b tag n = Some (c_words rl + 8, s', b')" "block_ok (cells s') (space s') b' ?L"
           "pools s' = pools s1" "b_item b' = b_item b" "b_words b' = b_words b" "b_n_words b' = b_n_words b"
           "b_n_used b' = b_n_used b + 1"
           "live (cells s') (space s') (set ?L) = insert (c_words rl + 8, replicate n 0) (live (cells s1) (space s1) (set ?L))"
           "\<forall>x. x \<notin> set ?L \<longrightarrow> cells s' x = cells s1 x" "\<forall>x. x < b_words b \<or> b_end b \<le> x \<longrightarrow> space s' x = space s1 x"
          using commit_alloc [OF p(4) rin p(5,8) _ _ n n1 _ co, of tag] p(1,2,6,7,11,12) ok' start True sets
          by (auto simp: sec_alloc_def cell_at_def)
        have own1: "A - set L \<union> set ?L = insert r A" using own(2) setL by auto
        have "block_step A s b L s' b' ?L"
          unfolding block_step_def own1 using w(3-6,9,10) p(14-16) own(2) p(3) setL c(1) by auto
        then have "allocated_in A s b L n (c_words rl + 8) s' b' ?L"
          using w p(13) live_not_free [OF lay1 rin p(5,8)] by (simp add: allocated_in_def)
        then show ?thesis using w(1) by blast
      qed
    qed
  qed
qed

end
