(* ===== verification/SecureFree.thy ===== *)
theory SecureFree
  imports SecureAlloc
begin

text \<open>
  Freeing in a block of secure memory (\<open>sec_free\<close> of \<open>egg/egg-secure-memory.c\<close>): the allocation is
  erased, and its cell is merged with the unused neighbours.
\<close>

section \<open>Merging two neighbours\<close>

definition interior :: "cell \<Rightarrow> nat \<Rightarrow> bool" where
  "interior cl x \<longleftrightarrow> c_words cl + 8 \<le> x \<and> x < last_word cl"

text \<open>
  The cells \<open>p\<close> and \<open>q\<close> become one, which is described by \<open>xl\<close> and has the address \<open>x\<close>.
\<close>

lemma merge_pair:
  assumes base: "block_base cs m b (xs @ p # q # ys)" and pq: "cs p = Some pl" "cs q = Some ql"
    and x: "x = p \<or> x = q" "cs1 x = Some xl" "c_words xl = c_words pl" "c_n_words xl = c_n_words pl + c_n_words ql" "cell_ok xl"
  shows "\<exists>m'. sec_write_guards cs1 m x = Some m' \<and>
    (\<forall>cs' k. (\<forall>d \<in> set xs \<union> set ys. map_option core (cs' d) = map_option core (cs d)) \<longrightarrow>
       cs' x = Some k \<longrightarrow> core k = core xl \<longrightarrow> block_base cs' m' b (xs @ x # ys) \<and>
       live cs' m' (set xs) = live cs m (set xs) \<and> live cs' m' (set ys) = live cs m (set ys)) \<and>
    (\<forall>z. z < b_words b \<or> b_end b \<le> z \<longrightarrow> m' z = m z) \<and>
    (\<forall>z. interior pl z \<or> interior ql z \<longrightarrow> m' z = m z \<and> interior xl z)"
proof -
  have lay: "layout cs m (b_words b) (xs @ p # q # ys) (b_end b)" using base by (simp add: block_base_def)
  obtain p' where p': "cs p = Some p'" "cell_ok p'" "layout cs m (b_words b) xs (c_words p')"
    "layout cs m (c_words p' + 8 * c_n_words p') (q # ys) (b_end b)" "0 < p" "p < size_limit"
    "p \<notin> set xs" "p \<notin> set (q # ys)" "b_words b \<le> c_words p'"
    using layout_split [OF lay] by metis
  then have "p' = pl" using pq(1) by simp
  note p = p' [unfolded this]
  have q: "c_words ql = c_words pl + 8 * c_n_words pl" "cell_ok ql" "0 < q" "q < size_limit"
    "layout cs m (c_words ql + 8 * c_n_words ql) ys (b_end b)"
    using p(4) pq(2) by auto
  have bend: "c_words ql + 8 * c_n_words ql \<le> b_end b" using layout_le [OF q(5)] .
  have N: "2 \<le> c_n_words pl" "2 \<le> c_n_words ql" using p(2) q(2) by (auto simp: cell_ok_def)
  have xaddr: "0 < x" "x < size_limit" using x(1) p(5,6) q(3,4) by auto
  have two: "2 \<le> c_n_words xl" using x(4) N by simp
  have "readable m (c_words xl) (8 * c_n_words xl)"
    by (rule base_mapped [OF base]) (use x(3,4) p(9) bend q(1) in auto)
  from write_guards [of cs1 x xl, OF x(2) xaddr two this] obtain m' where
    m': "sec_write_guards cs1 m x = Some m'" "wrote m m' x xl" by auto
  have lw: "last_word xl = last_word ql" using x(3,4) q(1) N by (simp add: last_word_def)
  have mid: "m' z = m z" if "c_words pl + 8 \<le> z" "z < last_word ql" for z
    by (rule wrote_out [OF m'(2)]) (use that x(3) lw in auto)
  have out: "m' z = m z" if "z < c_words pl \<or> c_words ql + 8 * c_n_words ql \<le> z" for z
    by (rule wrote_out [OF m'(2)]) (use that x(3,4) q(1) N in \<open>auto simp: last_word_def\<close>)
  have "block_base cs' m' b (xs @ x # ys) \<and>
       live cs' m' (set xs) = live cs m (set xs) \<and> live cs' m' (set ys) = live cs m (set ys)"
    if cores: "\<forall>d \<in> set xs \<union> set ys. map_option core (cs' d) = map_option core (cs d)"
      and k: "cs' x = Some k" "core k = core xl" for cs' k
  proof -
    have one: "layout cs' m' (c_words pl) [x] (c_words ql + 8 * c_n_words ql)"
      using k xaddr x(3-5) q(1) wrote_guards [OF m'(2)] by (auto simp: core_eq_iff cell_ok_def last_word_def)
    have c': "map_option core (cs' d) = map_option core (cs d)" if "d \<in> set xs \<union> set ys" for d using cores that by blast
    note spl = layout_splice [OF p(3) q(5) one c' out]
    have "live cs' m' (set xs) = live cs m (set xs)"
      by (rule live_cong [OF p(3)]) (use cores out in auto)
    moreover have "live cs' m' (set ys) = live cs m (set ys)"
      by (rule live_cong [OF q(5)]) (use cores out in auto)
    moreover have "block_base cs' m' b (xs @ x # ys)"
      using base spl(1) wrote_readable [OF m'(2)] by (simp add: block_base_def)
    ultimately show ?thesis by simp
  qed
  moreover have "m' z = m z" if "z < b_words b \<or> b_end b \<le> z" for z
    using that p(9) bend by (intro out) auto
  moreover have "m' z = m z \<and> interior xl z" if "interior pl z \<or> interior ql z" for z
    using that mid [of z] lw x(3) q(1) N by (auto simp: interior_def last_word_def)
  ultimately show ?thesis using m'(1) by blast
qed

text \<open>
  A block in the middle of \<open>sec_free\<close>: the cell \<open>c\<close> is in no ring, or it is an unused cell in its
  ring already (\<open>j\<close>).
\<close>

definition half :: "cells \<Rightarrow> space \<Rightarrow> block \<Rightarrow> nat list \<Rightarrow> nat \<Rightarrow> bool \<Rightarrow> bool" where
  "half cs m b L c j \<longleftrightarrow> block_base cs m b L \<and> c \<in> set L \<and> ring_of cs (b_used_cells b) (used_of cs L - {c}) \<and>
     (\<exists>cl. cs c = Some cl \<and> (if j
        then c_next cl \<noteq> 0 \<and> c_requested cl = 0 \<and> ring_of cs (b_unused_cells b) (free_of cs L)
        else c_next cl = 0 \<and> c_prev cl = 0 \<and> ring_of cs (b_unused_cells b) (free_of cs L - {c})))"

text \<open>A step from a half-freed block to one where the cell has grown.\<close>

definition progress ::
  "nat set \<Rightarrow> secure \<Rightarrow> block \<Rightarrow> nat list \<Rightarrow> nat \<Rightarrow> secure \<Rightarrow> block \<Rightarrow> nat list \<Rightarrow> nat \<Rightarrow> bool" where
  "progress A s b L c s' b' L' c' \<longleftrightarrow> block_step A s b L s' b' L' \<and>
     b_n_used b' = b_n_used b \<and> used_of (cells s') L' - {c'} = used_of (cells s) L - {c} \<and>
     (\<forall>d \<in> set L' - {c'}. in_use (cells s') d = in_use (cells s) d) \<and>
     live (cells s') (space s') (set L' - {c'}) = live (cells s) (space s) (set L - {c}) \<and>
     (\<forall>cl. cells s c = Some cl \<longrightarrow> (\<exists>cl'. cells s' c' = Some cl' \<and>
        (\<forall>z. interior cl z \<longrightarrow> interior cl' z \<and> space s' z = space s z)))"

definition merged ::
  "nat set \<Rightarrow> secure \<Rightarrow> block \<Rightarrow> nat list \<Rightarrow> nat \<Rightarrow> secure \<Rightarrow> block \<Rightarrow> nat list \<Rightarrow> nat \<Rightarrow> bool" where
  "merged A s b L c s' b' L' c' \<longleftrightarrow> half (cells s') (space s') b' L' c' True \<and> progress A s b L c s' b' L' c'"

lemma progress_refl: "pools_own (pools s) A \<Longrightarrow> set L \<subseteq> A \<Longrightarrow> progress A s b L c s b L c"
  by (simp add: progress_def block_step_refl)

lemma progress_trans:
  assumes "progress A s b L c s1 b1 L1 c1" "progress (A - set L \<union> set L1) s1 b1 L1 c1 s2 b2 L2 c2"
    "set L1 - {c1} \<subseteq> set L - {c}" "set L2 - {c2} \<subseteq> set L1 - {c1}"
  shows "progress A s b L c s2 b2 L2 c2"
proof -
  note p = assms(1)[unfolded progress_def] and q = assms(2)[unfolded progress_def]
  have step: "block_step A s b L s2 b2 L2" by (rule block_step_trans) (use p q in blast)+
  have kept: "\<forall>d \<in> set L2 - {c2}. in_use (cells s2) d = in_use (cells s) d"
  proof
    fix d
    assume d: "d \<in> set L2 - {c2}"
    then have "d \<in> set L1 - {c1}" using assms(4) by (rule rev_subsetD)
    then have "in_use (cells s1) d = in_use (cells s) d" using p by blast
    moreover have "in_use (cells s2) d = in_use (cells s1) d" using q d by blast
    ultimately show "in_use (cells s2) d = in_use (cells s) d" by simp
  qed
  have inner: "\<exists>cl'. cells s2 c2 = Some cl' \<and> (\<forall>z. interior cl z \<longrightarrow> interior cl' z \<and> space s2 z = space s z)"
    if cl: "cells s c = Some cl" for cl
  proof -
    obtain k where k: "cells s1 c1 = Some k" "\<forall>z. interior cl z \<longrightarrow> interior k z \<and> space s1 z = space s z"
      using p cl by blast
    then obtain k2 where k2: "cells s2 c2 = Some k2" "\<forall>z. interior k z \<longrightarrow> interior k2 z \<and> space s2 z = space s1 z"
      using q by blast
    have "interior k2 z \<and> space s2 z = space s z" if "interior cl z" for z
      using k(2) k2(2) that by metis
    then show ?thesis using k2(1) by blast
  qed
  have "b_n_used b1 = b_n_used b" "used_of (cells s1) L1 - {c1} = used_of (cells s) L - {c}"
    "live (cells s1) (space s1) (set L1 - {c1}) = live (cells s) (space s) (set L - {c})" using p by blast+
  moreover have "b_n_used b2 = b_n_used b1" "used_of (cells s2) L2 - {c2} = used_of (cells s1) L1 - {c1}"
    "live (cells s2) (space s2) (set L2 - {c2}) = live (cells s1) (space s1) (set L1 - {c1})" using q by blast+
  ultimately have "b_n_used b2 = b_n_used b" "used_of (cells s2) L2 - {c2} = used_of (cells s) L - {c}"
    "live (cells s2) (space s2) (set L2 - {c2}) = live (cells s) (space s) (set L - {c})" by (simp_all only:)
  then show ?thesis unfolding progress_def using step kept inner by blast
qed

text \<open>The part of both merges that comes after the change of the surviving cell.\<close>

lemma finish_merge:
  assumes base: "block_base (cells s) (space s) b (xs @ p # q # ys)" and own: "pools_own (pools s) A" "set (xs @ p # q # ys) \<subseteq> A"
    and pq: "cells s p = Some pl" "cells s q = Some ql" "p \<noteq> q" "{p, q} = {c, d}" "{p, q} \<inter> (set xs \<union> set ys) = {}"
    and free: "\<not> in_use (cells s) d" and d: "cs2 d = Some dl" "c_words dl = c_words pl" "c_n_words dl = c_n_words pl + c_n_words ql"
      "cell_ok dl" "c_requested dl = 0"
    and links: "\<And>x. x \<noteq> d \<Longrightarrow> map_option core (cs2 x) = map_option core (cells s x)"
      "\<And>x. x \<notin> set (xs @ p # q # ys) \<Longrightarrow> cs2 x = cells s x"
    and rings: "ring_of cs2 (b_used_cells b) (used_of (cells s) (xs @ p # q # ys) - {c})"
      "ring_of cs2 un (free_of (cells s) (xs @ p # q # ys) - {c})"
  shows "\<exists>m s'. sec_write_guards cs2 (space s) d = Some m \<and> free_cell (s\<lparr>cells := cs2, space := m\<rparr>) c = Some s' \<and>
    merged A s b (xs @ p # q # ys) c s' (b\<lparr>b_unused_cells := un\<rparr>) (xs @ d # ys) d"
proof -
  let ?L = "xs @ p # q # ys" and ?L' = "xs @ d # ys" and ?b = "b\<lparr>b_unused_cells := un\<rparr>"
  have dpq: "d = p \<or> d = q" "c \<noteq> d" "c \<in> {p, q}" using pq(3,4) by auto
  have nd: "d \<notin> set xs" "d \<notin> set ys" "c \<notin> set xs" "c \<notin> set ys" using dpq pq(5) by auto
  obtain m where m: "sec_write_guards cs2 (space s) d = Some m"
    "\<forall>cs' k. (\<forall>e \<in> set xs \<union> set ys. map_option core (cs' e) = map_option core (cells s e)) \<longrightarrow>
       cs' d = Some k \<longrightarrow> core k = core dl \<longrightarrow> block_base cs' m b ?L' \<and>
       live cs' m (set xs) = live (cells s) (space s) (set xs) \<and> live cs' m (set ys) = live (cells s) (space s) (set ys)"
    "\<forall>z. z < b_words b \<or> b_end b \<le> z \<longrightarrow> m z = space s z"
    "\<forall>z. interior pl z \<or> interior ql z \<longrightarrow> m z = space s z \<and> interior dl z"
    using merge_pair [of "cells s" "space s" b xs p q ys pl ql d cs2 dl, OF base pq(1,2) dpq(1) d(1-4)] by blast
  have cA: "c \<in> A" using own(2) dpq(3) by auto
  from items.give_back [OF own(1) cA] obtain ps where ps: "pool_free (pools s) c = Some ps" "pools_own ps (A - {c})" by auto
  define cs3 where "cs3 = cs2(c := None)"
  let ?s = "s\<lparr>pools := ps, cells := cs3, space := m\<rparr>"
  have fc: "free_cell (s\<lparr>cells := cs2, space := m\<rparr>) c = Some ?s" using ps(1) by (simp add: free_cell_def cs3_def)
  have cs3: "cs3 d = Some dl" "cs3 c = None" "\<And>x. x \<noteq> c \<Longrightarrow> cs3 x = cs2 x" using d(1) dpq(2) by (auto simp: cs3_def)
  have core3: "map_option core (cs3 x) = map_option core (cells s x)" if "x \<noteq> c" "x \<noteq> d" for x
    using that links(1) by (simp add: cs3(3))
  have "map_option core (cs3 e) = map_option core (cells s e)" if "e \<in> set xs \<union> set ys" for e
    by (rule core3) (use that nd in auto)
  with m(2) cs3(1)
  have new: "block_base cs3 m b ?L'" "live cs3 m (set xs) = live (cells s) (space s) (set xs)"
    "live cs3 m (set ys) = live (cells s) (space s) (set ys)" by blast+
  have iu: "in_use cs3 x = in_use (cells s) x" if "x \<noteq> c" "x \<noteq> d" for x
    by (rule in_use_cong) (rule core3 [OF that])
  have nu: "\<not> in_use cs3 d" using cs3(1) d(5) by (simp add: in_use_def)
  have sets: "set ?L' = set ?L - {c}" "set ?L' - {d} = set xs \<union> set ys" "set ?L - {c} = set xs \<union> set ys \<union> {d}"
    using dpq nd pq(3) by auto
  have used: "used_of cs3 ?L' - {d} = used_of (cells s) ?L - {c}" and fr: "free_of cs3 ?L' = free_of (cells s) ?L - {c}"
    unfolding used_of_def free_of_def sets(1) using iu nu free dpq(2) by auto
  have rg: "ring_of cs3 h B" if "ring_of cs2 h B" "c \<notin> B" for h B
    by (rule ring_of_cong [OF that(1)]) (metis cs3(3) that(2))
  have "d \<in> free_of (cells s) ?L - {c}" using free dpq by (auto simp: free_of_def)
  with ring_member [OF rings(2)] d(1) have nx: "c_next dl \<noteq> 0" by (metis option.inject)
  have hf: "half cs3 m ?b ?L' d True"
    using new(1) rg [OF rings(1)] rg [OF rings(2)] cs3(1) d(5) nx
    by (auto simp: half_def used fr block_base_def b_end_def)
  have eqA: "A - set ?L \<union> set ?L' = A - {c}" using own(2) sets(1) dpq(3) by auto
  have disj: "(A - set ?L) \<inter> set ?L' = {}" using sets(1) by blast
  have "cs3 x = cells s x" if "x \<notin> set ?L" for x
  proof -
    have "x \<noteq> c" using that dpq(3) by auto
    then show ?thesis using links(2) [OF that] cs3(3) by simp
  qed
  then have "block_step A s b ?L ?s ?b ?L'"
    unfolding block_step_def eqA using ps(2) m(3) disj by simp
  moreover note hf
  moreover have "live cs3 m (set ?L' - {d}) = live (cells s) (space s) (set ?L - {c})"
    unfolding sets(2,3) live_Un new(2,3) using live_free [OF free] by simp
  moreover have "\<forall>cl. cells s c = Some cl \<longrightarrow> (\<forall>z. interior cl z \<longrightarrow> interior dl z \<and> m z = space s z)"
    using m(4) pq(1,2) dpq(3) by auto
  moreover have "\<forall>e \<in> set ?L' - {d}. in_use cs3 e = in_use (cells s) e"
    unfolding sets(2) using iu nd by (intro ballI) (metis UnE)
  ultimately have "merged A s b ?L c ?s ?b ?L' d"
    using used cs3(1) by (simp add: merged_def progress_def)
  then show ?thesis using m(1) fc by blast
qed

lemma cell_ok_merge: "cell_ok cl \<Longrightarrow> 2 \<le> c_n_words dl \<Longrightarrow> c_requested cl = 0 \<Longrightarrow> c_n_words dl = c_n_words cl + k \<Longrightarrow>
    c_requested dl = 0 \<Longrightarrow> c_tag dl = c_tag cl \<Longrightarrow> cell_ok dl"
  by (auto simp: cell_ok_def)

lemma merge_before:
  assumes h: "half (cells s) (space s) b (xs @ c # ys) c False" and own: "pools_own (pools s) A" "set (xs @ c # ys) \<subseteq> A"
  shows "(xs = [] \<or> in_use (cells s) (last xs)) \<and> sec_merge_before s b c = Some (c, s) \<or>
    (\<exists>zs d s'. xs = zs @ [d] \<and> sec_merge_before s b c = Some (d, s') \<and>
       merged A s b (xs @ c # ys) c s' b (zs @ d # ys) d)"
proof (cases "xs = [] \<or> in_use (cells s) (last xs)")
  case True
  note h' = h [unfolded half_def]
  have lay: "layout (cells s) (space s) (b_words b) (xs @ c # ys) (b_end b)" and low: "8 \<le> b_words b"
    using h' by (auto simp: block_base_def)
  have "0 < last xs" if "xs \<noteq> []"
    using layout_cell [OF lay, of "last xs"] that by (metis UnCI last_in_set set_append)
  then show ?thesis
    using True neighbor_before [OF lay low] by (auto simp: sec_merge_before_def in_use_def cell_at_def)
next
  case False
  then obtain zs d where xs: "xs = zs @ [d]" by (cases xs rule: rev_cases) auto
  then have nd: "\<not> in_use (cells s) d" using False by simp
  let ?L = "zs @ d # c # ys"
  have L: "xs @ c # ys = ?L" by (simp add: xs)
  note h' = h [unfolded half_def L, simplified]
  have base: "block_base (cells s) (space s) b ?L" using h' by simp
  then have lay: "layout (cells s) (space s) (b_words b) ?L (b_end b)" and low: "8 \<le> b_words b"
    by (auto simp: block_base_def)
  have dist: "distinct ?L" by (rule layout_distinct [OF lay])
  obtain cl where cl: "cells s c = Some cl" "c_next cl = 0" "c_prev cl = 0"
    "ring_of (cells s) (b_unused_cells b) (free_of (cells s) ?L - {c})" using h' by auto
  have used: "ring_of (cells s) (b_used_cells b) (used_of (cells s) ?L - {c})" using h' by simp
  obtain dl where dl: "cells s d = Some dl" "cell_ok dl" "0 < d" using layout_cell [OF lay, of d] by auto
  have dr: "c_requested dl = 0" "c_tag dl = None" using nd dl by (auto simp: in_use_def cell_ok_def)
  obtain cl2 where "cells s c = Some cl2" "cell_ok cl2" "0 < c" using layout_cell [OF lay, of c] by auto
  then have c: "cell_ok cl" "0 < c" using cl(1) by auto
  have "d \<in> free_of (cells s) ?L - {c}" using nd dist by (auto simp: free_of_def)
  from ring_member [OF cl(4) this] have ends: "c_next dl \<noteq> 0" "c_prev dl \<noteq> 0" using dl(1) by (metis option.inject)+
  have nb: "sec_neighbor_before s b c = Some d"
    using neighbor_before [of s b xs c ys] lay low unfolding L by (simp add: xs)
  define k where "k = dl\<lparr>c_n_words := c_n_words dl + c_n_words cl\<rparr>"
  define cs2 where "cs2 = (cells s)(d \<mapsto> k)"
  have k: "c_words k = c_words dl" "c_n_words k = c_n_words dl + c_n_words cl" "c_requested k = 0" "cell_ok k"
    using dl(2) dr by (auto simp: k_def cell_ok_def)
  have cs2: "cs2 d = Some k" "\<And>x. x \<noteq> d \<Longrightarrow> cs2 x = cells s x" by (simp_all add: cs2_def)
  have rg: "ring_of cs2 h B" if "ring_of (cells s) h B" for h B
    by (rule ring_of_cong [OF that]) (use dl(1) in \<open>auto simp: cs2_def k_def ends_def\<close>)
  have "\<exists>m s'. sec_write_guards cs2 (space s) d = Some m \<and> free_cell (s\<lparr>cells := cs2, space := m\<rparr>) c = Some s' \<and>
      merged A s b ?L c s' (b\<lparr>b_unused_cells := b_unused_cells b\<rparr>) (zs @ d # ys) d"
    by (rule finish_merge [OF base own(1) own(2) [unfolded L] dl(1) cl(1) _ _ _ nd cs2(1) k(1,2,4,3) _ _ rg [OF used] rg [OF cl(4)]])
      (use dist cs2(2) in auto)
  then obtain m s' where "sec_write_guards cs2 (space s) d = Some m" "free_cell (s\<lparr>cells := cs2, space := m\<rparr>) c = Some s'"
    "merged A s b ?L c s' b (zs @ d # ys) d" by auto
  moreover from this have "sec_merge_before s b c = Some (d, s')"
    using nb dl(1,3) dr ends cl(1) c(2) by (simp add: sec_merge_before_def cell_at_def cs2_def k_def)
  ultimately show ?thesis using xs L by auto
qed

lemma merge_after:
  assumes h: "half (cells s) (space s) b (xs @ c # ys) c j" and own: "pools_own (pools s) A" "set (xs @ c # ys) \<subseteq> A"
    and cl: "cells s c = Some cl"
  shows "(ys = [] \<or> in_use (cells s) (hd ys)) \<and> sec_merge_after s b c = Some (c, s, b) \<or>
    (\<exists>zs d s' un. ys = d # zs \<and> sec_merge_after s b c = Some (d, s', b\<lparr>b_unused_cells := un\<rparr>) \<and>
       merged A s b (xs @ c # ys) c s' (b\<lparr>b_unused_cells := un\<rparr>) (xs @ d # zs) d)"
proof (cases "ys = [] \<or> in_use (cells s) (hd ys)")
  case True
  have lay: "layout (cells s) (space s) (b_words b) (xs @ c # ys) (b_end b)"
    using h by (auto simp: half_def block_base_def)
  have "0 < hd ys" if "ys \<noteq> []"
  proof -
    have "hd ys \<in> set (xs @ c # ys)" using that by simp
    from layout_cell [OF lay this] show ?thesis by metis
  qed
  then show ?thesis
    using True neighbor_after [OF lay] by (auto simp: sec_merge_after_def in_use_def cell_at_def)
next
  case False
  then obtain d zs where ys: "ys = d # zs" by (cases ys) auto
  then have nd: "\<not> in_use (cells s) d" using False by simp
  let ?L = "xs @ c # d # zs"
  have L: "xs @ c # ys = ?L" by (simp add: ys)
  note h' = h [unfolded half_def L]
  have base: "block_base (cells s) (space s) b ?L" using h' by simp
  then have lay: "layout (cells s) (space s) (b_words b) ?L (b_end b)" by (auto simp: block_base_def)
  have dist: "distinct ?L" by (rule layout_distinct [OF lay])
  have used: "ring_of (cells s) (b_used_cells b) (used_of (cells s) ?L - {c})" using h' by simp
  have unused: "if j then c_next cl \<noteq> 0 \<and> c_requested cl = 0 \<and> ring_of (cells s) (b_unused_cells b) (free_of (cells s) ?L)
      else c_next cl = 0 \<and> c_prev cl = 0 \<and> ring_of (cells s) (b_unused_cells b) (free_of (cells s) ?L - {c})"
    using h' cl by auto
  obtain dl where dl: "cells s d = Some dl" "cell_ok dl" "0 < d" using layout_cell [OF lay, of d] by auto
  have dr: "c_requested dl = 0" "c_tag dl = None" using nd dl by (auto simp: in_use_def cell_ok_def)
  obtain cl2 where "cells s c = Some cl2" "cell_ok cl2" "0 < c" using layout_cell [OF lay, of c] by auto
  then have c: "cell_ok cl" "0 < c" using cl by auto
  obtain B where B: "ring_of (cells s) (b_unused_cells b) B" "B = free_of (cells s) ?L \<or> B = free_of (cells s) ?L - {c}"
    using unused by (auto split: if_splits)
  have "d \<in> B" using nd dist B(2) by (auto simp: free_of_def)
  from ring_member [OF B(1) this] have ends: "c_next dl \<noteq> 0" "c_prev dl \<noteq> 0" using dl(1) by (metis option.inject)+
  have nb: "sec_neighbor_after s b c = Some d"
    using neighbor_after [of s b xs c ys] lay unfolding L by (simp add: ys)
  define k where "k = dl\<lparr>c_n_words := c_n_words dl + c_n_words cl, c_words := c_words cl\<rparr>"
  define cs1 where "cs1 = (cells s)(d \<mapsto> k)"
  have k: "c_words k = c_words cl" "c_n_words k = c_n_words cl + c_n_words dl" "c_requested k = 0" "cell_ok k"
    using dl(2) dr by (auto simp: k_def cell_ok_def)
  have cs1: "cs1 d = Some k" "\<And>x. x \<noteq> d \<Longrightarrow> cs1 x = cells s x" by (simp_all add: cs1_def)
  have rg: "ring_of cs1 h B" if "ring_of (cells s) h B" for h B
    by (rule ring_of_cong [OF that]) (use dl(1) in \<open>auto simp: cs1_def k_def ends_def\<close>)
  obtain cs2 un where r: "(if c_next cl \<noteq> 0 then sec_remove_cell_ring cs1 (b_unused_cells b) c else Some (cs1, b_unused_cells b)) =
      Some (cs2, un)" "ring_of cs2 un (free_of (cells s) ?L - {c})" "links_only cs1 cs2 (free_of (cells s) ?L)"
  proof (cases j)
    case True
    then have "c \<in> free_of (cells s) ?L" using unused cl by (auto simp: free_of_def in_use_def)
    from remove_cell_ring [OF _ this, of cs1 "b_unused_cells b"] rg [of "b_unused_cells b"] True unused that
    show thesis by auto
  next
    case False
    then show thesis using that [of cs1 "b_unused_cells b"] unused rg [of "b_unused_cells b"] by (simp add: links_only_def)
  qed
  have cores: "map_option core (cs2 x) = map_option core (cs1 x)" for x by (rule links_only_core [OF r(3)])
  obtain k2 where k2: "cs2 d = Some k2" "core k2 = core k" using cores [of d] cs1(1) by auto
  have k2': "c_words k2 = c_words cl" "c_n_words k2 = c_n_words cl + c_n_words dl" "cell_ok k2" "c_requested k2 = 0"
    using k k2(2) by (auto simp: core_eq_iff cell_ok_def)
  have used2: "ring_of cs2 (b_used_cells b) (used_of (cells s) ?L - {c})"
    by (rule ring_apart [OF r(3) rg [OF used]]) (use used_free_disjoint in blast)
  have "\<exists>m s'. sec_write_guards cs2 (space s) d = Some m \<and> free_cell (s\<lparr>cells := cs2, space := m\<rparr>) c = Some s' \<and>
      merged A s b ?L c s' (b\<lparr>b_unused_cells := un\<rparr>) (xs @ d # zs) d"
  proof (rule finish_merge [OF base own(1) own(2) [unfolded L] cl dl(1) _ _ _ nd k2(1) k2' _ _ used2 r(2)])
    show "map_option core (cs2 x) = map_option core (cells s x)" if "x \<noteq> d" for x
      using cores [of x] cs1(2) [OF that] by simp
    show "cs2 x = cells s x" if "x \<notin> set ?L" for x
      using r(3) that cs1(2) [of x] by (auto simp: links_only_def free_of_def)
  qed (use dist in auto)
  then obtain m s' where "sec_write_guards cs2 (space s) d = Some m" "free_cell (s\<lparr>cells := cs2, space := m\<rparr>) c = Some s'"
    "merged A s b ?L c s' (b\<lparr>b_unused_cells := un\<rparr>) (xs @ d # zs) d" by auto
  moreover from this have "sec_merge_after s b c = Some (d, s', b\<lparr>b_unused_cells := un\<rparr>)"
    using nb dl(1,3) dr ends cl c(2) r(1) by (cases "c_next cl = 0") (simp_all add: sec_merge_after_def cell_at_def cs1_def k_def)
  ultimately show ?thesis using ys L by auto
qed

section \<open>Freeing\<close>

text \<open>Writing inside of a cell.\<close>

lemma write_inside:
  assumes base: "block_base cs m b L" and c: "c \<in> set L" "cs c = Some cl"
    and a: "c_words cl + 8 \<le> a" "a + length bs \<le> last_word cl"
  shows "store m a bs = Some (overwrite m a bs)" "block_base cs (overwrite m a bs) b L"
    "live cs (overwrite m a bs) (set L - {c}) = live cs m (set L - {c})"
    "x < b_words b \<or> b_end b \<le> x \<Longrightarrow> overwrite m a bs x = m x"
proof -
  let ?m = "overwrite m a bs"
  obtain xs ys where L: "L = xs @ c # ys" using c(1) by (metis split_list)
  have lay: "layout cs m (b_words b) (xs @ c # ys) (b_end b)" using base L by (simp add: block_base_def)
  obtain k where k: "cs c = Some k" "cell_ok k" "layout cs m (b_words b) xs (c_words k)"
    "layout cs m (c_words k + 8 * c_n_words k) ys (b_end b)" "0 < c" "c < size_limit"
    "load_ptr m (c_words k) = Some c" "load_ptr m (last_word k) = Some c" "c \<notin> set xs" "c \<notin> set ys"
    "b_words b \<le> c_words k" "c_words k + 8 * c_n_words k \<le> b_end b"
    using layout_split [OF lay] by metis
  then have "k = cl" using c(2) by simp
  note k = k [unfolded this]
  have N: "2 \<le> c_n_words cl" using k(2) by (simp add: cell_ok_def)
  then have lw: "last_word cl + 8 = c_words cl + 8 * c_n_words cl" by (simp add: last_word_def)
  show "store m a bs = Some ?m"
    by (rule store_Some) (use base_mapped [OF base, of a "length bs"] a k(11,12) lw in auto)
  have out: "?m x = m x" if "x < c_words cl + 8 \<or> last_word cl \<le> x" for x
    by (rule overwrite_out) (use that a in auto)
  have "load_ptr ?m (c_words cl) = load_ptr m (c_words cl)" "load_ptr ?m (last_word cl) = load_ptr m (last_word cl)"
    using a by (auto intro: load_ptr_other)
  then have mid: "layout cs ?m (c_words cl) [c] (c_words cl + 8 * c_n_words cl)"
    using k c(2) by simp
  have mem: "?m x = m x" if "x < c_words cl \<or> c_words cl + 8 * c_n_words cl \<le> x" for x
    by (rule out) (use that lw in auto)
  note spl = layout_splice [OF k(3,4) mid refl mem]
  then show "block_base cs ?m b L"
    using base L by (auto simp: block_base_def intro: readable_overwrite)
  have "live cs ?m (set xs) = live cs m (set xs)"
    by (rule live_cong [OF k(3)]) (use mem in auto)
  moreover have "live cs ?m (set ys) = live cs m (set ys)"
    by (rule live_cong [OF k(4)]) (use mem in auto)
  moreover have "set L - {c} = set xs \<union> set ys" using L k(9,10) by auto
  ultimately show "live cs ?m (set L - {c}) = live cs m (set L - {c})" by (simp add: live_Un)
  show "?m x = m x" if "x < b_words b \<or> b_end b \<le> x" for x
    by (rule mem) (use that k(11,12) in auto)
qed

text \<open>The cell behind an allocation.\<close>

lemma live_cell:
  assumes base: "block_base (cells s) (space s) b L" and own: "pools_own (pools s) A" "set L \<subseteq> A"
    and a: "(a, bs) \<in> live (cells s) (space s) (set L)"
  obtains c cl where "c \<in> set L" "cells s c = Some cl" "0 < c_requested cl" "a = c_words cl + 8" "cell_ok cl" "0 < c"
    "load (space s) a (c_requested cl) = Some bs" "length bs = c_requested cl" "c_tag cl \<noteq> None"
    "sec_cell_of s b a = Some c" "in_use (cells s) c" "a + length bs \<le> last_word cl" "b_words b + 8 \<le> a" "last_word cl + 8 \<le> b_end b"
proof -
  obtain c cl where c: "c \<in> set L" "cells s c = Some cl" "0 < c_requested cl" "a = c_words cl + 8"
    "load (space s) a (c_requested cl) = Some bs"
    using a by (auto simp: live_def)
  have lay: "layout (cells s) (space s) (b_words b) L (b_end b)" using base by (simp add: block_base_def)
  obtain k where k: "cells s c = Some k" "cell_ok k" "0 < c" "b_words b \<le> c_words k" "c_words k + 8 * c_n_words k \<le> b_end b"
    "load_ptr (space s) (c_words k) = Some c"
    using layout_cell [OF lay c(1)] by metis
  then have "k = cl" using c(2) by simp
  note k = k [unfolded this]
  have tag: "c_tag cl \<noteq> None" "c_requested cl \<le> 8 * (c_n_words cl - 2)" "2 \<le> c_n_words cl"
    using k(2) c(3) by (auto simp: cell_ok_def split: if_splits)
  have "c \<in> A" using c(1) own(2) by auto
  then have "pool_valid (pools s) c" by (rule items.valid_owned [OF own(1)])
  moreover have "sec_check_guards (cells s) (space s) c = Some ()" by (rule check_guards [OF lay c(1)])
  moreover have "sec_is_valid_word b (c_words cl)"
    using k(4,5) tag(3) by (auto simp: sec_is_valid_word_def b_end_def)
  ultimately have cell: "sec_cell_of s b a = Some c" using k(6) c(4) by (simp add: sec_cell_of_def)
  have "last_word cl + 8 = c_words cl + 8 * c_n_words cl" "c_words cl + 8 + c_requested cl \<le> last_word cl"
    using tag(2,3) by (auto simp: last_word_def)
  moreover have "length bs = c_requested cl" using c(5) by (rule load_length)
  ultimately show thesis
    using that [OF c(1-4) k(2,3) c(5) _ tag(1) cell] c k by (auto simp: in_use_def)
qed

lemma coalesced_around:
  assumes "coalesced cs xs" "coalesced cs ys" "xs = [] \<or> in_use cs (last xs)" "ys = [] \<or> in_use cs (hd ys)"
  shows "coalesced cs (xs @ c # ys)"
  using assms by (auto simp: coalesced_def successively_append_iff successively_Cons)

text \<open>The end of \<open>sec_free\<close>: the merged cell is an unused one in its ring.\<close>

lemma finish_free:
  assumes h: "half (cells s) (space s) b (xs @ c # ys) c j"
    and co: "coalesced (cells s) xs" "coalesced (cells s) ys" "xs = [] \<or> in_use (cells s) (last xs)" "ys = [] \<or> in_use (cells s) (hd ys)"
    and nused: "b_n_used b = Suc (card (used_of (cells s) (xs @ c # ys) - {c}))"
  shows "\<exists>s' b'. (do {
       k \<leftarrow> cell_at (cells s) c;
       (cs, unused) \<leftarrow> (if c_next k = 0 then sec_insert_cell_ring (cells s) (b_unused_cells b) c
         else Some (cells s, b_unused_cells b));
       k \<leftarrow> cell_at cs c;
       Some (s\<lparr>cells := cs(c \<mapsto> k\<lparr>c_tag := None, c_requested := 0\<rparr>)\<rparr>,
         b\<lparr>b_unused_cells := unused, b_n_used := b_n_used b - 1\<rparr>) }) = Some (s', b') \<and>
     block_ok (cells s') (space s') b' (xs @ c # ys) \<and> pools s' = pools s \<and> space s' = space s \<and>
     b_item b' = b_item b \<and> b_words b' = b_words b \<and> b_n_words b' = b_n_words b \<and> Suc (b_n_used b') = b_n_used b \<and>
     (\<forall>x. x \<notin> set (xs @ c # ys) \<longrightarrow> cells s' x = cells s x) \<and>
     live (cells s') (space s') (set (xs @ c # ys)) = live (cells s) (space s) (set (xs @ c # ys) - {c})"
proof -
  let ?L = "xs @ c # ys"
  note h' = h [unfolded half_def]
  have base: "block_base (cells s) (space s) b ?L" and used: "ring_of (cells s) (b_used_cells b) (used_of (cells s) ?L - {c})"
    using h' by simp_all
  have lay: "layout (cells s) (space s) (b_words b) ?L (b_end b)" using base by (simp add: block_base_def)
  obtain cl where cl: "cells s c = Some cl" "cell_ok cl" "layout (cells s) (space s) (b_words b) xs (c_words cl)"
    "layout (cells s) (space s) (c_words cl + 8 * c_n_words cl) ys (b_end b)" "0 < c" "c < size_limit"
    "load_ptr (space s) (c_words cl) = Some c" "load_ptr (space s) (last_word cl) = Some c" "c \<notin> set xs" "c \<notin> set ys"
    using layout_split [OF lay] by metis
  have unused: "if j then c_next cl \<noteq> 0 \<and> c_requested cl = 0 \<and> ring_of (cells s) (b_unused_cells b) (free_of (cells s) ?L)
      else c_next cl = 0 \<and> c_prev cl = 0 \<and> ring_of (cells s) (b_unused_cells b) (free_of (cells s) ?L - {c})"
    using h' cl(1) by auto
  let ?F = "insert c (free_of (cells s) ?L)"
  obtain cs un where r: "(if c_next cl = 0 then sec_insert_cell_ring (cells s) (b_unused_cells b) c
       else Some (cells s, b_unused_cells b)) = Some (cs, un)" "ring_of cs un ?F" "links_only (cells s) cs ?F"
  proof (cases j)
    case True
    then have "c \<in> free_of (cells s) ?L" using unused cl(1) by (auto simp: free_of_def in_use_def)
    then have "?F = free_of (cells s) ?L" by auto
    then show thesis using that [of "cells s" "b_unused_cells b"] unused True by (simp add: links_only_def)
  next
    case False
    have "insert c (free_of (cells s) ?L - {c}) = ?F" by auto
    with insert_cell_ring [of "cells s" "b_unused_cells b" "free_of (cells s) ?L - {c}" c cl] cl(1,5) unused False that
    show thesis by auto
  qed
  have cores: "map_option core (cs x) = map_option core (cells s x)" for x by (rule links_only_core [OF r(3)])
  obtain k where k: "cs c = Some k" "core k = core cl" using cores [of c] cl(1) by auto
  define cs' where "cs' = cs(c \<mapsto> k\<lparr>c_tag := None, c_requested := 0\<rparr>)"
  let ?k = "k\<lparr>c_tag := None, c_requested := 0\<rparr>"
  have cs': "cs' c = Some ?k" "\<And>x. x \<noteq> c \<Longrightarrow> cs' x = cs x" by (simp_all add: cs'_def)
  have core': "map_option core (cs' x) = map_option core (cells s x)" if "x \<noteq> c" for x
    using cores [of x] cs'(2) [OF that] by simp
  have iu: "in_use cs' x \<longleftrightarrow> x \<noteq> c \<and> in_use (cells s) x" for x
    using in_use_cong [of cs' x "cells s"] core' [of x] cs'(1) by (cases "x = c") (auto simp: in_use_def)
  have sets: "used_of cs' ?L = used_of (cells s) ?L - {c}" "free_of cs' ?L = ?F"
    unfolding used_of_def free_of_def using iu by auto
  have ends: "map_option ends (cs' x) = map_option ends (cs x)" for x
    using cs' k(1) by (cases "x = c") (auto simp: ends_def)
  have "ring_of cs (b_used_cells b) (used_of (cells s) ?L - {c})"
    by (rule ring_apart [OF r(3) used]) (auto simp: used_of_def free_of_def)
  then have rings: "ring_of cs' (b_used_cells b) (used_of cs' ?L)" "ring_of cs' un (free_of cs' ?L)"
    unfolding sets using r(2) by (auto elim!: ring_of_cong simp: ends)
  have c': "map_option core (cs' d) = map_option core (cells s d)" if "d \<in> set xs \<union> set ys" for d
    by (rule core') (use that cl(9,10) in auto)
  have mid: "layout cs' (space s) (c_words cl) [c] (c_words cl + 8 * c_n_words cl)"
    using cl(2,5-8) cs'(1) k(2) by (auto simp: core_eq_iff cell_ok_def last_word_def)
  note spl = layout_splice [OF cl(3,4) mid c' refl]
  have "block_base cs' (space s) b ?L" using base spl(1) by (simp add: block_base_def)
  moreover have "coalesced cs' xs" "coalesced cs' ys"
    using co(1,2) cl(9,10) iu unfolding coalesced_def by (auto elim!: successively_mono)
  then have "coalesced cs' ?L"
    by (rule coalesced_around) (use co(3,4) cl(9,10) iu last_in_set [of xs] hd_in_set [of ys] in metis)+
  ultimately have ok: "block_ok cs' (space s) (b\<lparr>b_unused_cells := un, b_n_used := b_n_used b - 1\<rparr>) ?L"
    using rings nused sets(1) by (simp add: block_ok_def block_rings_def block_base_def b_end_def)
  have none: "live cs' (space s) (set [c]) = {}" using cs'(1) by (simp add: live_def)
  have rest: "set ?L - {c} = set xs \<union> set ys" using cl(9,10) by auto
  have lv: "live cs' (space s) (set ?L) = live (cells s) (space s) (set ?L - {c})"
    using spl(2) unfolding none rest live_Un by simp
  have "cs' x = cells s x" if "x \<notin> set ?L" for x
  proof -
    have "x \<noteq> c" "x \<notin> ?F" using that by (auto simp: free_of_def)
    then show ?thesis using cs'(2) r(3) by (simp add: links_only_def)
  qed
  then show ?thesis
    using cl(1,5) r(1) k(1) ok lv nused
    by (intro exI [of _ "s\<lparr>cells := cs'\<rparr>"] exI [of _ "b\<lparr>b_unused_cells := un, b_n_used := b_n_used b - 1\<rparr>"])
      (simp add: cell_at_def cs'_def)
qed

lemma live_without:
  assumes "layout cs m a L e" "c \<in> set L" "cs c = Some cl"
  shows "live cs m (set L - {c}) = {(x, bs) \<in> live cs m (set L). x \<noteq> c_words cl + 8}"
proof -
  have "c_words dl \<noteq> c_words cl" if "d \<in> set L" "d \<noteq> c" "cs d = Some dl" for d dl
    using layout_unique [OF assms(1) that(1) assms(2) that(3) assms(3)] that(2) by auto
  moreover have "c_words cl = c_words dl" if "cs c = Some dl" for dl using that assms(3) by simp
  ultimately show ?thesis by (fastforce simp: live_def)
qed

lemma coalesced_parts:
  "coalesced cs (xs @ c # ys) \<Longrightarrow> coalesced cs xs \<and> coalesced cs ys"
  by (auto simp: coalesced_def successively_append_iff successively_Cons)

lemma coalesced_last:
  "coalesced cs (xs @ [d]) \<Longrightarrow> \<not> in_use cs d \<Longrightarrow> coalesced cs xs \<and> (xs = [] \<or> in_use cs (last xs))"
  by (auto simp: coalesced_def successively_append_iff)

lemma coalesced_first:
  "coalesced cs (d # ys) \<Longrightarrow> \<not> in_use cs d \<Longrightarrow> coalesced cs ys \<and> (ys = [] \<or> in_use cs (hd ys))"
  by (auto simp: coalesced_def successively_Cons)

lemma coalesced_in_use:
  assumes "coalesced cs xs" "\<And>x. x \<in> set xs \<Longrightarrow> in_use cs' x = in_use cs x"
  shows "coalesced cs' xs"
  using assms unfolding coalesced_def by (auto elim!: successively_mono)

lemma half_distinct: "half cs m b L c j \<Longrightarrow> distinct L"
  using layout_distinct [of cs m "b_words b" L "b_end b"] by (simp add: half_def block_base_def)

text \<open>The two merges, one after the other.\<close>

lemma merge_both:
  assumes h: "half (cells s) (space s) b (xs @ c # ys) c False" and own: "pools_own (pools s) A" "set (xs @ c # ys) \<subseteq> A"
    and co: "coalesced (cells s) xs" "coalesced (cells s) ys"
  shows "\<exists>c1 s1 c2 s2 b2 us vs j. sec_merge_before s b c = Some (c1, s1) \<and> sec_merge_after s1 b c1 = Some (c2, s2, b2) \<and>
    half (cells s2) (space s2) b2 (us @ c2 # vs) c2 j \<and> progress A s b (xs @ c # ys) c s2 b2 (us @ c2 # vs) c2 \<and>
    coalesced (cells s2) us \<and> coalesced (cells s2) vs \<and> (us = [] \<or> in_use (cells s2) (last us)) \<and>
    (vs = [] \<or> in_use (cells s2) (hd vs))"
proof -
  let ?L = "xs @ c # ys"
  have dist: "distinct ?L" by (rule half_distinct [OF h])
  obtain c1 s1 us j1 where f: "sec_merge_before s b c = Some (c1, s1)" "half (cells s1) (space s1) b (us @ c1 # ys) c1 j1"
    "progress A s b ?L c s1 b (us @ c1 # ys) c1" "coalesced (cells s) us" "us = [] \<or> in_use (cells s) (last us)"
    "set us \<subseteq> set xs"
  proof -
    from merge_before [OF h own] show thesis
    proof
      assume "(xs = [] \<or> in_use (cells s) (last xs)) \<and> sec_merge_before s b c = Some (c, s)"
      then show thesis using that [of c s xs False] h co(1) progress_refl [OF own] by auto
    next
      assume "\<exists>zs d s'. xs = zs @ [d] \<and> sec_merge_before s b c = Some (d, s') \<and> merged A s b ?L c s' b (zs @ d # ys) d"
      then obtain zs d s' where z: "xs = zs @ [d]" "sec_merge_before s b c = Some (d, s')"
        "merged A s b ?L c s' b (zs @ d # ys) d" by blast
      have m: "half (cells s') (space s') b (zs @ d # ys) d True" "progress A s b ?L c s' b (zs @ d # ys) d"
        using z(3) by (simp_all add: merged_def)
      have "\<not> in_use (cells s) d"
      proof
        assume "in_use (cells s) d"
        then have "d \<in> used_of (cells s') (zs @ d # ys) - {d}"
          using m(2) z(1) dist by (auto simp: progress_def used_of_def)
        then show False by simp
      qed
      then show thesis using that [OF z(2) m] coalesced_last [of "cells s" zs d] co(1) z(1) by auto
    qed
  qed
  let ?L1 = "us @ c1 # ys" and ?A1 = "A - set ?L \<union> set (us @ c1 # ys)"
  have own1: "pools_own (pools s1) ?A1" using f(3) by (simp add: progress_def block_step_def)
  have lay1: "layout (cells s1) (space s1) (b_words b) ?L1 (b_end b)" using f(2) by (simp add: half_def block_base_def)
  have d1: "distinct ?L1" by (rule layout_distinct [OF lay1])
  obtain k where k: "cells s1 c1 = Some k" using f(2) by (auto simp: half_def)
  have iu1: "in_use (cells s1) x = in_use (cells s) x" if "x \<in> set us \<union> set ys" for x
    using f(3) that d1 unfolding progress_def by auto
  obtain c2 s2 b2 vs j where g: "sec_merge_after s1 b c1 = Some (c2, s2, b2)" "half (cells s2) (space s2) b2 (us @ c2 # vs) c2 j"
    "progress ?A1 s1 b ?L1 c1 s2 b2 (us @ c2 # vs) c2" "coalesced (cells s) vs" "vs = [] \<or> in_use (cells s) (hd vs)"
    "set vs \<subseteq> set ys"
  proof -
    have sub: "set ?L1 \<subseteq> ?A1" by auto
    from merge_after [OF f(2) own1 sub k] show thesis
    proof
      assume a: "(ys = [] \<or> in_use (cells s1) (hd ys)) \<and> sec_merge_after s1 b c1 = Some (c1, s1, b)"
      then have "ys = [] \<or> in_use (cells s) (hd ys)" using iu1 [of "hd ys"] by (cases ys) auto
      then show thesis using that [of c1 s1 b ys j1] a f(2) co(2) progress_refl [OF own1 sub] by auto
    next
      assume "\<exists>zs d s' un. ys = d # zs \<and> sec_merge_after s1 b c1 = Some (d, s', b\<lparr>b_unused_cells := un\<rparr>) \<and>
        merged ?A1 s1 b ?L1 c1 s' (b\<lparr>b_unused_cells := un\<rparr>) (us @ d # zs) d"
      then obtain zs d s' un where z: "ys = d # zs" "sec_merge_after s1 b c1 = Some (d, s', b\<lparr>b_unused_cells := un\<rparr>)"
        "merged ?A1 s1 b ?L1 c1 s' (b\<lparr>b_unused_cells := un\<rparr>) (us @ d # zs) d" by blast
      have m: "half (cells s') (space s') (b\<lparr>b_unused_cells := un\<rparr>) (us @ d # zs) d True"
        "progress ?A1 s1 b ?L1 c1 s' (b\<lparr>b_unused_cells := un\<rparr>) (us @ d # zs) d"
        using z(3) by (simp_all add: merged_def)
      have "\<not> in_use (cells s1) d"
      proof
        assume "in_use (cells s1) d"
        then have "d \<in> used_of (cells s') (us @ d # zs) - {d}"
          using m(2) z(1) d1 by (auto simp: progress_def used_of_def)
        then show False by simp
      qed
      then have "\<not> in_use (cells s) d" using iu1 [of d] z(1) by simp
      then show thesis using that [OF z(2) m] coalesced_first [of "cells s" d zs] co(2) z(1) by auto
    qed
  qed
  have d2: "distinct (us @ c2 # vs)" by (rule half_distinct [OF g(2)])
  have "progress A s b ?L c s2 b2 (us @ c2 # vs) c2"
    by (rule progress_trans [OF f(3) g(3)]) (use f(6) g(6) dist d1 d2 in auto)
  moreover have iu: "in_use (cells s2) x = in_use (cells s) x" if "x \<in> set us \<union> set vs" for x
    using calculation that d2 unfolding progress_def by auto
  have "coalesced (cells s2) us" "coalesced (cells s2) vs"
    by (rule coalesced_in_use [OF f(4)] coalesced_in_use [OF g(4)]; use iu in auto)+
  moreover have "us = [] \<or> in_use (cells s2) (last us)" using f(5) iu [of "last us"] by (cases "us = []") simp_all
  moreover have "vs = [] \<or> in_use (cells s2) (hd vs)" using g(5) iu [of "hd vs"] by (cases "vs = []") simp_all
  ultimately show ?thesis using f(1) g(1,2) by blast
qed

text \<open>
  Freeing erases the allocation and takes it, and only it, out of the block.
\<close>

definition freed_in ::
  "nat set \<Rightarrow> secure \<Rightarrow> block \<Rightarrow> nat list \<Rightarrow> nat \<Rightarrow> secure \<Rightarrow> block \<Rightarrow> nat list \<Rightarrow> bool" where
  "freed_in A s b L a s' b' L' \<longleftrightarrow> block_ok (cells s') (space s') b' L' \<and> block_step A s b L s' b' L' \<and>
     live (cells s') (space s') (set L') = {(x, bs) \<in> live (cells s) (space s) (set L). x \<noteq> a} \<and>
     Suc (b_n_used b') = b_n_used b"

lemma sec_free_spec:
  assumes ok: "block_ok (cells s) (space s) b L" and own: "pools_own (pools s) A" "set L \<subseteq> A"
    and a: "(a, bs) \<in> live (cells s) (space s) (set L)"
  shows "\<exists>s' b' L'. sec_free s b a = Some (s', b') \<and> freed_in A s b L a s' b' L' \<and>
    (\<forall>z. a \<le> z \<longrightarrow> z < a + length bs \<longrightarrow> space s' z = Some 0)"
proof -
  note ok' = ok [unfolded block_ok_def block_rings_def]
  have base: "block_base (cells s) (space s) b L" using ok' by simp
  obtain c cl where c: "c \<in> set L" "cells s c = Some cl" "0 < c_requested cl" "a = c_words cl + 8" "cell_ok cl" "0 < c"
    "length bs = c_requested cl" "c_tag cl \<noteq> None" "sec_cell_of s b a = Some c" "in_use (cells s) c"
    "a + length bs \<le> last_word cl"
    using live_cell [OF base own a] by metis
  let ?m = "overwrite (space s) a (replicate (c_requested cl) 0)"
  have wr: "store (space s) a (replicate (c_requested cl) 0) = Some ?m" "block_base (cells s) ?m b L"
    "live (cells s) ?m (set L - {c}) = live (cells s) (space s) (set L - {c})"
    "\<And>x. x < b_words b \<or> b_end b \<le> x \<Longrightarrow> ?m x = space s x"
    using write_inside [OF base c(1,2), of a "replicate (c_requested cl) 0"] c(4,7,11) by auto
  have lay: "layout (cells s) (space s) (b_words b) L (b_end b)" "layout (cells s) ?m (b_words b) L (b_end b)"
    using base wr(2) by (simp_all add: block_base_def)
  have guards: "sec_check_guards (cells s) ?m c = Some ()" by (rule check_guards [OF lay(2) c(1)])
  have cu: "c \<in> used_of (cells s) L" using c by (simp add: used_of_iff)
  from remove_cell_ring [OF _ this] ok' obtain cs1 un k where
    r: "sec_remove_cell_ring (cells s) (b_used_cells b) c = Some (cs1, un)" "ring_of cs1 un (used_of (cells s) L - {c})"
      "links_only (cells s) cs1 (used_of (cells s) L)" "cs1 c = Some k" "c_next k = 0" "c_prev k = 0" by blast
  have cores: "map_option core (cs1 x) = map_option core (cells s x)" for x by (rule links_only_core [OF r(3)])
  have k: "core k = core cl" using cores [of c] r(4) c(2) by simp
  have sets: "used_of cs1 L = used_of (cells s) L" "free_of cs1 L = free_of (cells s) L" "coalesced cs1 L = coalesced (cells s) L"
    by (rule same_cores(1) same_cores(2) same_cores(3); rule cores)+
  let ?s = "s\<lparr>cells := cs1, space := ?m\<rparr>" and ?b = "b\<lparr>b_used_cells := un\<rparr>"
  obtain xs ys where L: "L = xs @ c # ys" using c(1) by (metis split_list)
  have "block_base cs1 ?m b L" by (rule same_cores(4) [OF _ wr(2)]) (rule cores)
  moreover have "ring_of cs1 (b_unused_cells b) (free_of (cells s) L)"
    by (rule ring_apart [OF r(3)]) (use ok' used_free_disjoint in auto)
  moreover have "c \<notin> free_of (cells s) L" using cu used_free_disjoint by blast
  ultimately have half: "half (cells ?s) (space ?s) ?b (xs @ c # ys) c False"
    using r c(1) by (simp add: half_def sets L [symmetric] block_base_def b_end_def)
  have co: "coalesced (cells ?s) xs" "coalesced (cells ?s) ys"
    using ok' sets(3) coalesced_parts [of cs1 xs c ys] L by simp_all
  have own1: "pools_own (pools ?s) A" "set (xs @ c # ys) \<subseteq> A" using own L by simp_all
  obtain c1 s1 c2 s2 b2 us vs j where g: "sec_merge_before ?s ?b c = Some (c1, s1)" "sec_merge_after s1 ?b c1 = Some (c2, s2, b2)"
    "half (cells s2) (space s2) b2 (us @ c2 # vs) c2 j" "progress A ?s ?b L c s2 b2 (us @ c2 # vs) c2"
    "coalesced (cells s2) us" "coalesced (cells s2) vs" "us = [] \<or> in_use (cells s2) (last us)"
    "vs = [] \<or> in_use (cells s2) (hd vs)"
    using merge_both [OF half own1 co] unfolding L [symmetric] by blast
  let ?L = "us @ c2 # vs"
  have pr: "block_step A ?s ?b L s2 b2 ?L" "b_n_used b2 = b_n_used b" "used_of (cells s2) ?L - {c2} = used_of cs1 L - {c}"
    "live (cells s2) (space s2) (set ?L - {c2}) = live cs1 ?m (set L - {c})"
    "\<exists>k2. cells s2 c2 = Some k2 \<and> (\<forall>z. interior k z \<longrightarrow> interior k2 z \<and> space s2 z = ?m z)"
    using g(4) r(4) unfolding progress_def by simp_all
  have nused: "b_n_used b2 = Suc (card (used_of (cells s2) ?L - {c2}))"
    unfolding pr(2,3) sets using ok' card_Suc_Diff1 [OF finite_used cu] by presburger
  obtain s' b' where f: "sec_free s b a = Some (s', b')" "block_ok (cells s') (space s') b' ?L" "pools s' = pools s2" "space s' = space s2"
     "b_item b' = b_item b2" "b_words b' = b_words b2" "b_n_words b' = b_n_words b2" "Suc (b_n_used b') = b_n_used b2"
     "\<forall>x. x \<notin> set ?L \<longrightarrow> cells s' x = cells s2 x"
     "live (cells s') (space s') (set ?L) = live (cells s2) (space s2) (set ?L - {c2})"
    using finish_free [OF g(3,5-8) nused] c(2-4,6,8,9) wr(1) guards r(1) g(1,2)
    by (auto simp: sec_free_def sec_clear_def cell_at_def)
  have st: "block_step A s b L s2 b2 ?L"
    using pr(1) r(3) wr(4) by (auto simp: block_step_def links_only_def used_of_def b_end_def)
  then have step: "block_step A s b L s' b' ?L"
    using f(3-7,9) by (auto simp: block_step_def)
  have lay1: "layout cs1 ?m (b_words b) L (b_end b)" by (rule layout_cong [OF lay(2)]) (auto simp: cores)
  have "live cs1 ?m (set L - {c}) = live (cells s) ?m (set L - {c})"
    unfolding live_without [OF lay1 c(1) r(4)] live_without [OF lay(2) c(1,2)]
    using live_cong [OF lay(2), of cs1 ?m] cores k by (simp add: core_eq_iff)
  then have "live (cells s') (space s') (set ?L) = {(x, bs) \<in> live (cells s) (space s) (set L). x \<noteq> a}"
    using f(10) pr(4) wr(3) live_without [OF lay(1) c(1,2)] c(4) by simp
  moreover have "space s' z = Some 0" if "a \<le> z" "z < a + length bs" for z
  proof -
    have "interior k z" using that c(4,11) k by (auto simp: interior_def core_eq_iff last_word_def)
    then have "space s' z = ?m z" using pr(5) f(4) by auto
    then show ?thesis using that c(7) by (simp add: overwrite_def)
  qed
  ultimately show ?thesis using f(1,2,8) step pr(2) by (auto simp: freed_in_def)
qed

end
