(* ===== verification/SecureRealloc.thy ===== *)
theory SecureRealloc
  imports SecureFree
begin

text \<open>
  Resizing in a block of secure memory (\<open>sec_realloc\<close> of \<open>egg/egg-secure-memory.c\<close>): in place, by
  taking memory from the unused neighbour behind, or by moving the allocation; and the consistency
  check \<open>sec_validate\<close>.
\<close>

section \<open>Growing in place\<close>

lemma live_same_cell:
  assumes "cs c = Some cl" "cs' c = Some k" "c_words k = c_words cl" "c_requested k = c_requested cl" "cell_ok cl"
    "\<And>z. interior cl z \<Longrightarrow> m' z = m z"
  shows "live cs' m' {c} = live cs m {c}"
proof (cases "c_requested cl = 0")
  case True
  then show ?thesis using assms(1,2,4) by (auto simp: live_def)
next
  case False
  then have "2 \<le> c_n_words cl" "c_requested cl \<le> 8 * (c_n_words cl - 2)" using assms(5) by (auto simp: cell_ok_def)
  then have "load m' (c_words cl + 8) (c_requested cl) = load m (c_words cl + 8) (c_requested cl)"
    by (intro load_cong assms(6)) (auto simp: interior_def last_word_def)
  then show ?thesis using assms(1-4) by (auto simp: live_def)
qed

lemma live_append2:
  "live cs m (set (xs @ c # d # ys)) = live cs m (set xs) \<union> live cs m {c} \<union> live cs m {d} \<union> live cs m (set ys)"
  by (auto simp: live_def)

text \<open>What growing the cell \<open>c\<close> does to the block.\<close>

definition grown ::
  "nat set \<Rightarrow> secure \<Rightarrow> block \<Rightarrow> nat list \<Rightarrow> nat \<Rightarrow> secure \<Rightarrow> block \<Rightarrow> nat list \<Rightarrow> bool" where
  "grown A s b L c s' b' L' \<longleftrightarrow> block_ok (cells s') (space s') b' L' \<and> block_step A s b L s' b' L' \<and> c \<in> set L' \<and>
     b_n_used b' = b_n_used b \<and> live (cells s') (space s') (set L') = live (cells s) (space s) (set L) \<and>
     (\<exists>cl cl'. cells s c = Some cl \<and> cells s' c = Some cl' \<and> c_words cl' = c_words cl \<and>
        c_requested cl' = c_requested cl \<and> c_tag cl' = c_tag cl \<and> c_n_words cl \<le> c_n_words cl')"

lemma grown_refl:
  assumes "block_ok (cells s) (space s) b L" "pools_own (pools s) A" "set L \<subseteq> A" "c \<in> set L"
  shows "grown A s b L c s b L"
proof -
  have "layout (cells s) (space s) (b_words b) L (b_end b)" using assms(1) by (simp add: block_ok_def block_base_def)
  then obtain cl where "cells s c = Some cl" using layout_cell [OF _ assms(4)] by metis
  then show ?thesis using assms by (simp add: grown_def block_step_refl)
qed

lemma grown_trans:
  assumes "grown A s b L c s1 b1 L1" "grown (A - set L \<union> set L1) s1 b1 L1 c s2 b2 L2"
  shows "grown A s b L c s2 b2 L2"
proof -
  have "block_step A s b L s2 b2 L2"
    by (rule block_step_trans [of A s b L s1 b1 L1]) (use assms in \<open>simp_all add: grown_def\<close>)
  then show ?thesis using assms by (auto simp: grown_def)
qed

text \<open>Eating the unused neighbour behind.\<close>

lemma eat_neighbor:
  assumes ok: "block_ok (cells s) (space s) b (xs @ c # d # ys)" and own: "pools_own (pools s) A" "set (xs @ c # d # ys) \<subseteq> A"
    and c: "cells s c = Some cl" "0 < c_requested cl" and d: "cells s d = Some dl" "c_requested dl = 0"
  shows "\<exists>m cs un s'. sec_write_guards ((cells s)(c \<mapsto> cl\<lparr>c_n_words := c_n_words cl + c_n_words dl\<rparr>)) (space s) c = Some m \<and>
    sec_remove_cell_ring ((cells s)(c \<mapsto> cl\<lparr>c_n_words := c_n_words cl + c_n_words dl\<rparr>)) (b_unused_cells b) d = Some (cs, un) \<and>
    free_cell (s\<lparr>cells := cs, space := m\<rparr>) d = Some s' \<and>
    grown A s b (xs @ c # d # ys) c s' (b\<lparr>b_unused_cells := un\<rparr>) (xs @ c # ys)"
proof -
  let ?L = "xs @ c # d # ys" and ?L' = "xs @ c # ys"
  note ok' = ok [unfolded block_ok_def block_rings_def]
  have base: "block_base (cells s) (space s) b ?L" using ok' by simp
  then have lay: "layout (cells s) (space s) (b_words b) ?L (b_end b)" by (simp add: block_base_def)
  have dist: "distinct ?L" by (rule layout_distinct [OF lay])
  obtain k1 where "cells s c = Some k1" "cell_ok k1" using layout_cell [OF lay, of c] by auto
  then have cok: "cell_ok cl" using c(1) by simp
  let ?k = "cl\<lparr>c_n_words := c_n_words cl + c_n_words dl\<rparr>"
  define cs1 where "cs1 = (cells s)(c \<mapsto> ?k)"
  have cs1: "cs1 c = Some ?k" "\<And>x. x \<noteq> c \<Longrightarrow> cs1 x = cells s x" by (simp_all add: cs1_def)
  have kok: "c_words ?k = c_words cl" "c_n_words ?k = c_n_words cl + c_n_words dl" "cell_ok ?k"
    using cok by (auto simp: cell_ok_def)
  have pc: "c = c \<or> c = d" by simp
  obtain m where m: "sec_write_guards cs1 (space s) c = Some m"
    "\<forall>cs' k. (\<forall>e \<in> set xs \<union> set ys. map_option core (cs' e) = map_option core (cells s e)) \<longrightarrow>
       cs' c = Some k \<longrightarrow> core k = core ?k \<longrightarrow> block_base cs' m b ?L' \<and>
       live cs' m (set xs) = live (cells s) (space s) (set xs) \<and> live cs' m (set ys) = live (cells s) (space s) (set ys)"
    "\<forall>z. z < b_words b \<or> b_end b \<le> z \<longrightarrow> m z = space s z"
    "\<forall>z. interior cl z \<or> interior dl z \<longrightarrow> m z = space s z \<and> interior ?k z"
    using merge_pair [of "cells s" "space s" b xs c d ys cl dl c cs1 ?k, OF base c(1) d(1) pc cs1(1) kok] by blast
  have df: "d \<in> free_of (cells s) ?L" using d by (auto simp: free_of_def in_use_def)
  have "ring_of cs1 (b_unused_cells b) (free_of (cells s) ?L)"
    by (rule ring_of_cong [of "cells s"]) (use ok' c(1) in \<open>auto simp: cs1_def ends_def\<close>)
  from remove_cell_ring [OF this df] obtain cs2 un where
    r: "sec_remove_cell_ring cs1 (b_unused_cells b) d = Some (cs2, un)" "ring_of cs2 un (free_of (cells s) ?L - {d})"
      "links_only cs1 cs2 (free_of (cells s) ?L)" by blast
  have cores: "map_option core (cs2 x) = map_option core (cs1 x)" for x by (rule links_only_core [OF r(3)])
  have "d \<in> A" using own(2) by simp
  from items.give_back [OF own(1) this] obtain ps where ps: "pool_free (pools s) d = Some ps" "pools_own ps (A - {d})" by auto
  define cs3 where "cs3 = cs2(d := None)"
  let ?s = "s\<lparr>pools := ps, cells := cs3, space := m\<rparr>" and ?b = "b\<lparr>b_unused_cells := un\<rparr>"
  have cs3: "cs3 x = cs2 x" if "x \<noteq> d" for x using that by (simp add: cs3_def)
  have ncd: "c \<noteq> d" "c \<notin> set xs" "c \<notin> set ys" "d \<notin> set xs" "d \<notin> set ys" using dist by auto
  obtain k3 where k3: "cs3 c = Some k3" "core k3 = core ?k"
    using cores [of c] cs1(1) cs3 [OF ncd(1)] by auto
  have core3: "map_option core (cs3 x) = map_option core (cells s x)" if "x \<noteq> c" "x \<noteq> d" for x
    using that cores [of x] cs1(2) cs3 by simp
  have "\<forall>e \<in> set xs \<union> set ys. map_option core (cs3 e) = map_option core (cells s e)"
    using core3 ncd by (metis UnE)
  with m(2) k3 have new: "block_base cs3 m b ?L'" "live cs3 m (set xs) = live (cells s) (space s) (set xs)"
    "live cs3 m (set ys) = live (cells s) (space s) (set ys)" by blast+
  have nd: "\<not> in_use (cells s) d" using d by (simp add: in_use_def)
  have iu: "in_use cs3 x = in_use (cells s) x" for x
  proof -
    consider "x = c" | "x = d" | "x \<noteq> c" "x \<noteq> d" by blast
    then show ?thesis
    proof cases
      case 1
      then show ?thesis using k3 c by (auto simp: in_use_def core_eq_iff)
    next
      case 2
      then show ?thesis using nd by (simp add: in_use_def cs3_def)
    qed (intro in_use_cong core3)
  qed
  have sets: "set ?L' = set ?L - {d}" using ncd by auto
  have used: "used_of cs3 ?L' = used_of (cells s) ?L" "free_of cs3 ?L' = free_of (cells s) ?L - {d}"
    unfolding used_of_def free_of_def sets using iu nd by auto
  have rg: "ring_of cs3 h B" if "ring_of cs2 h B" "d \<notin> B" for h B
    by (rule ring_of_cong [OF that(1)]) (metis cs3 that(2))
  have "ring_of cs1 (b_used_cells b) (used_of (cells s) ?L)"
    by (rule ring_of_cong [of "cells s"]) (use ok' c(1) in \<open>auto simp: cs1_def ends_def\<close>)
  then have "ring_of cs2 (b_used_cells b) (used_of (cells s) ?L)"
    by (rule ring_apart [OF r(3)]) (use used_free_disjoint in blast)
  then have rings: "ring_of cs3 (b_used_cells b) (used_of cs3 ?L')" "ring_of cs3 un (free_of cs3 ?L')"
    unfolding used using rg r(2) nd by (auto simp: used_of_def)
  have cu: "in_use cs3 c" "in_use (cells s) c" using iu [of c] c by (auto simp: in_use_def)
  have cxy: "coalesced (cells s) xs" "coalesced (cells s) ys"
    using ok' by (auto simp: coalesced_def successively_append_iff successively_Cons)
  have "coalesced cs3 xs" by (rule coalesced_in_use [OF cxy(1)]) (rule iu)
  moreover have "coalesced cs3 ys" by (rule coalesced_in_use [OF cxy(2)]) (rule iu)
  ultimately have "coalesced cs3 ?L'"
    using cu(1) by (auto simp: coalesced_def successively_append_iff successively_Cons)
  then have bok: "block_ok cs3 m ?b ?L'"
    using new(1) rings ok' used(1) by (simp add: block_ok_def block_rings_def block_base_def b_end_def)
  have "live cs3 m {c} = live (cells s) (space s) {c}"
    by (rule live_same_cell [where cs = "cells s" and cs' = cs3, OF c(1) k3(1)]) (use k3(2) cok m(4) in \<open>auto simp: core_eq_iff\<close>)
  then have lv: "live cs3 m (set ?L') = live (cells s) (space s) (set ?L)"
    by (simp only: live_append [of cs3] live_append2 [of "cells s"] new(2,3) live_free [OF nd] Un_empty_right)
  have "A - set ?L \<union> set ?L' = A - {d}" "(A - set ?L) \<inter> set ?L' = {}" using own(2) sets ncd(1) by auto
  moreover have "cs3 x = cells s x" if "x \<notin> set ?L" for x
    using that r(3) cs1(2) cs3 by (auto simp: links_only_def free_of_def)
  ultimately have "block_step A s b ?L ?s ?b ?L'"
    using ps(2) m(3) by (simp add: block_step_def)
  then have "grown A s b ?L c ?s ?b ?L'"
    using bok lv c(1) k3 by (simp add: grown_def core_eq_iff)
  moreover have "free_cell (s\<lparr>cells := cs2, space := m\<rparr>) d = Some ?s" using ps(1) by (simp add: free_cell_def cs3_def)
  ultimately show ?thesis using m(1) r(1) unfolding cs1_def by blast
qed

text \<open>Stealing words from the unused neighbour behind.\<close>

lemma steal_neighbor:
  assumes ok: "block_ok (cells s) (space s) b (xs @ c # d # ys)" and own: "pools_own (pools s) A" "set (xs @ c # d # ys) \<subseteq> A"
    and c: "cells s c = Some cl" "0 < c_requested cl" and d: "cells s d = Some dl" "c_requested dl = 0"
    and k: "0 < k" "k + WASTE < c_n_words dl"
    and dl': "dl' = dl\<lparr>c_words := c_words dl + 8 * k, c_n_words := c_n_words dl - k\<rparr>"
    and cl': "cl' = cl\<lparr>c_n_words := c_n_words cl + k\<rparr>"
  shows "\<exists>m1 m2. sec_write_guards ((cells s)(d \<mapsto> dl')) (space s) d = Some m1 \<and>
    sec_write_guards ((cells s)(d \<mapsto> dl', c \<mapsto> cl')) m1 c = Some m2 \<and>
    grown A s b (xs @ c # d # ys) c (s\<lparr>cells := (cells s)(d \<mapsto> dl', c \<mapsto> cl'), space := m2\<rparr>) b (xs @ c # d # ys)"
proof -
  let ?L = "xs @ c # d # ys"
  note ok' = ok [unfolded block_ok_def block_rings_def]
  have base: "block_base (cells s) (space s) b ?L" using ok' by simp
  then have lay: "layout (cells s) (space s) (b_words b) ?L (b_end b)" by (simp add: block_base_def)
  have dist: "distinct ?L" by (rule layout_distinct [OF lay])
  obtain p' where p': "cells s c = Some p'" "cell_ok p'" "layout (cells s) (space s) (b_words b) xs (c_words p')"
    "layout (cells s) (space s) (c_words p' + 8 * c_n_words p') (d # ys) (b_end b)" "0 < c" "c < size_limit"
    "b_words b \<le> c_words p'"
    using layout_split [OF lay] by metis
  then have "p' = cl" using c(1) by simp
  note p = p' [unfolded this]
  have q: "c_words dl = c_words cl + 8 * c_n_words cl" "cell_ok dl" "0 < d" "d < size_limit"
    "layout (cells s) (space s) (c_words dl + 8 * c_n_words dl) ys (b_end b)"
    using p(4) d(1) by auto
  have bend: "c_words dl + 8 * c_n_words dl \<le> b_end b" using layout_le [OF q(5)] .
  have N: "2 \<le> c_n_words cl" "4 < c_n_words dl - k" using p(2) k by (auto simp: cell_ok_def WASTE_def)
  define cs where "cs = (cells s)(d \<mapsto> dl', c \<mapsto> cl')"
  have ncd: "c \<noteq> d" "c \<notin> set xs" "c \<notin> set ys" "d \<notin> set xs" "d \<notin> set ys" using dist by auto
  have cs: "cs c = Some cl'" "cs d = Some dl'" "\<And>x. x \<noteq> c \<Longrightarrow> x \<noteq> d \<Longrightarrow> cs x = cells s x"
    using ncd(1) by (simp_all add: cs_def)
  have rd: "readable (space s) (c_words cl) (8 * (c_n_words cl + c_n_words dl))"
    by (rule base_mapped [OF base]) (use p(7) bend q(1) in auto)
  have "readable (space s) (c_words dl') (8 * c_n_words dl')"
    by (rule readable_sub [OF rd]) (use q(1) k in \<open>auto simp: dl'\<close>)
  then obtain m1 where m1: "sec_write_guards ((cells s)(d \<mapsto> dl')) (space s) d = Some m1" "wrote (space s) m1 d dl'"
    using write_guards [of "(cells s)(d \<mapsto> dl')" d dl' "space s"] q(3,4) N(2) by (auto simp: dl')
  have "readable m1 (c_words cl') (8 * c_n_words cl')"
    by (rule readable_sub [OF wrote_readable [OF m1(2) rd]]) (use k in \<open>auto simp: cl'\<close>)
  then obtain m2 where m2: "sec_write_guards cs m1 c = Some m2" "wrote m1 m2 c cl'"
    using write_guards [of cs c cl' m1] cs(1) p(5,6) N(1) by (auto simp: cl')
  have e1: "m2 x = m1 x" if "x < c_words cl \<or> c_words cl + 8 \<le> x" "x < last_word cl' \<or> last_word cl' + 8 \<le> x" for x
    by (rule wrote_out [OF m2(2)]) (use that in \<open>auto simp: cl'\<close>)
  have e2: "m1 x = space s x" if "x < c_words dl'" for x
    by (rule wrote_out [OF m1(2)]) (use that N(2) in \<open>auto simp: last_word_def\<close>)
  have lw: "last_word cl' + 8 = c_words dl'" "last_word dl' = last_word dl"
    using N q(1) k by (auto simp: last_word_def cl' dl')
  have g: "load_ptr m2 (c_words dl') = Some d" "load_ptr m2 (last_word dl') = Some d"
  proof -
    have "load_ptr m2 (c_words dl') = load_ptr m1 (c_words dl')" "load_ptr m2 (last_word dl') = load_ptr m1 (last_word dl')"
      by (rule load_ptr_cong e1; use lw N q(1) in \<open>auto simp: last_word_def dl'\<close>)+
    then show "load_ptr m2 (c_words dl') = Some d" "load_ptr m2 (last_word dl') = Some d"
      using wrote_guards [OF m1(2)] by simp_all
  qed
  have okc: "cell_ok cl'" "cell_ok dl'" using p(2) q(2) d(2) N by (auto simp: cell_ok_def cl' dl')
  have mid: "layout cs m2 (c_words cl) [c, d] (c_words dl + 8 * c_n_words dl)"
    using cs(1,2) p(5,6) q(3,4) okc g wrote_guards [OF m2(2)] q(1) N k by (auto simp: cl' dl')
  have cores: "map_option core (cs x) = map_option core (cells s x)" if "x \<in> set xs \<union> set ys" for x
  proof -
    have "x \<noteq> c" "x \<noteq> d" using that ncd by auto
    then show ?thesis by (simp add: cs(3))
  qed
  have mem: "m2 x = space s x" if "x < c_words cl \<or> c_words dl + 8 * c_n_words dl \<le> x" for x
  proof -
    have "m2 x = m1 x" by (rule e1) (use that lw q(1) N in \<open>auto simp: last_word_def cl' dl'\<close>)
    also have "\<dots> = space s x"
      by (rule wrote_out [OF m1(2)]) (use that q(1) N in \<open>auto simp: last_word_def dl'\<close>)
    finally show ?thesis .
  qed
  have inner: "m2 x = space s x" if "interior cl x" for x
  proof -
    have "m2 x = m1 x" by (rule e1) (use that k N in \<open>auto simp: interior_def last_word_def cl'\<close>)
    also have "\<dots> = space s x" by (rule e2) (use that q(1) in \<open>auto simp: interior_def last_word_def dl'\<close>)
    finally show ?thesis .
  qed
  note spl = layout_splice [OF p(3) q(5) mid cores mem]
  have iu: "in_use cs x = in_use (cells s) x" for x
    using c d cs(3) [of x] cs(1,2) by (cases "x = c"; cases "x = d") (auto simp: in_use_def cl' dl')
  have same: "used_of cs ?L = used_of (cells s) ?L" "free_of cs ?L = free_of (cells s) ?L"
    by (simp_all add: used_of_def free_of_def iu)
  have ends: "map_option ends (cs x) = map_option ends (cells s x)" for x
    using c(1) d(1) cs(3) [of x] cs(1,2) by (cases "x = c"; cases "x = d") (auto simp: ends_def cl' dl')
  have rings: "ring_of cs (b_used_cells b) (used_of cs ?L)" "ring_of cs (b_unused_cells b) (free_of cs ?L)"
    unfolding same using ok' by (auto elim!: ring_of_cong simp: ends)
  have "block_base cs m2 b ?L"
    using base spl(1) wrote_readable [OF m2(2) wrote_readable [OF m1(2)]] by (simp add: block_base_def)
  then have bok: "block_ok cs m2 b ?L"
    using rings ok' same by (simp add: block_ok_def block_rings_def coalesced_def iu)
  have one: "live cs m2 {c} = live (cells s) (space s) {c}"
    by (rule live_same_cell [where cs = "cells s" and cs' = cs, OF c(1) cs(1)]) (use p(2) inner in \<open>auto simp: cl'\<close>)
  have "\<not> in_use cs d" "\<not> in_use (cells s) d" using iu [of d] d by (auto simp: in_use_def)
  then have none: "live cs m2 {d} = {}" "live (cells s) (space s) {d} = {}" by (simp_all add: live_free)
  have "live cs m2 (set xs) = live (cells s) (space s) (set xs)"
    by (rule live_cong [OF p(3)]) (use cores mem in auto)
  moreover have "live cs m2 (set ys) = live (cells s) (space s) (set ys)"
    by (rule live_cong [OF q(5)]) (use cores mem in auto)
  ultimately have lv: "live cs m2 (set ?L) = live (cells s) (space s) (set ?L)"
    by (simp only: live_append2 one none)
  have "cs x = cells s x" if "x \<notin> set ?L" for x using that by (intro cs(3)) auto
  moreover have "m2 x = space s x" if "x < b_words b \<or> b_end b \<le> x" for x
    by (rule mem) (use that p(7) bend in auto)
  moreover have "A - set ?L \<union> set ?L = A" "(A - set ?L) \<inter> set ?L = {}" using own(2) by blast+
  ultimately have "block_step A s b ?L (s\<lparr>cells := cs, space := m2\<rparr>) b ?L"
    using own(1) by (simp add: block_step_def)
  then have "grown A s b ?L c (s\<lparr>cells := cs, space := m2\<rparr>) b ?L"
    using bok lv c(1) cs(1) by (simp add: grown_def cl')
  then show ?thesis using m1(1) m2(1) unfolding cs_def by blast
qed

text \<open>The loop ends: each round has one cell less, or is the last one.\<close>

lemma sec_grow_spec:
  assumes "block_ok (cells s) (space s) b L" "pools_own (pools s) A" "set L \<subseteq> A" "c \<in> set L" "in_use (cells s) c"
  shows "\<exists>s' b' L'. sec_grow s b c n = Some (s', b') \<and> grown A s b L c s' b' L'"
  using assms
proof (induction "length L" arbitrary: s b L A rule: less_induct)
  case less
  note ok = less.prems(1) [unfolded block_ok_def block_rings_def]
  have base: "block_base (cells s) (space s) b L" using ok by simp
  then have lay: "layout (cells s) (space s) (b_words b) L (b_end b)" by (simp add: block_base_def)
  obtain cl where cl: "cells s c = Some cl" "0 < c" using layout_cell [OF lay less.prems(4)] by metis
  have used: "0 < c_requested cl" using less.prems(5) cl(1) by (simp add: in_use_def)
  note start = grown_refl [OF less.prems(1-4)]
  show ?case
  proof (cases "c_n_words cl < n")
    case False
    then show ?thesis using cl start by (subst sec_grow.simps) (auto simp: cell_at_def)
  next
    case short: True
    obtain xs zs where L: "L = xs @ c # zs" using less.prems(4) by (metis split_list)
    have nb: "sec_neighbor_after s b c = Some (if zs = [] then 0 else hd zs)"
      by (rule neighbor_after) (use lay L in simp)
    show ?thesis
    proof (cases zs)
      case Nil
      then show ?thesis using cl nb short start by (subst sec_grow.simps) (auto simp: cell_at_def)
    next
      case (Cons d ys)
      have "d \<in> set L" using L Cons by simp
      then obtain dl where dl: "cells s d = Some dl" "0 < d" using layout_cell [OF lay] by metis
      have nbd: "sec_neighbor_after s b c = Some d" using nb Cons by simp
      have L2: "L = xs @ c # d # ys" using L Cons by simp
      note ok2 = less.prems(1) [unfolded L2] and sub2 = less.prems(3) [unfolded L2]
      show ?thesis
      proof (cases "c_requested dl = 0")
        case False
        then show ?thesis using cl dl nbd short start by (subst sec_grow.simps) (auto simp: cell_at_def)
      next
        case free: True
        show ?thesis
        proof (cases "n - c_n_words cl + WASTE \<ge> c_n_words dl")
          case True
          from eat_neighbor [OF ok2 less.prems(2) sub2 cl(1) used dl(1) free]
          obtain m cs un s1 where e: "sec_write_guards ((cells s)(c \<mapsto> cl\<lparr>c_n_words := c_n_words cl + c_n_words dl\<rparr>)) (space s) c = Some m"
            "sec_remove_cell_ring ((cells s)(c \<mapsto> cl\<lparr>c_n_words := c_n_words cl + c_n_words dl\<rparr>)) (b_unused_cells b) d = Some (cs, un)"
            "free_cell (s\<lparr>cells := cs, space := m\<rparr>) d = Some s1"
            "grown A s b L c s1 (b\<lparr>b_unused_cells := un\<rparr>) (xs @ c # ys)"
            unfolding L2 by blast
          have eq: "sec_grow s b c n = sec_grow s1 (b\<lparr>b_unused_cells := un\<rparr>) c n"
            using cl dl nbd short free True e(1-3) by (subst sec_grow.simps) (simp add: cell_at_def)
          let ?A = "A - set L \<union> set (xs @ c # ys)"
          have g: "block_ok (cells s1) (space s1) (b\<lparr>b_unused_cells := un\<rparr>) (xs @ c # ys)" "pools_own (pools s1) ?A"
            "in_use (cells s1) c"
            using e(4) used cl(1) by (auto simp: grown_def block_step_def in_use_def)
          have "length (xs @ c # ys) < length L" "set (xs @ c # ys) \<subseteq> ?A" "c \<in> set (xs @ c # ys)"
            using L2 by auto
          from less.hyps [OF this(1) g(1,2) this(2,3) g(3)] obtain s' b' L' where
            "sec_grow s1 (b\<lparr>b_unused_cells := un\<rparr>) c n = Some (s', b')"
            "grown ?A s1 (b\<lparr>b_unused_cells := un\<rparr>) (xs @ c # ys) c s' b' L'" by blast
          then show ?thesis using eq grown_trans [OF e(4)] by auto
        next
          case False
          let ?k = "n - c_n_words cl"
          define dl' where "dl' = dl\<lparr>c_words := c_words dl + 8 * ?k, c_n_words := c_n_words dl - ?k\<rparr>"
          define cl' where "cl' = cl\<lparr>c_n_words := c_n_words cl + ?k\<rparr>"
          have "0 < ?k" "?k + WASTE < c_n_words dl" using short False by auto
          from steal_neighbor [OF ok2 less.prems(2) sub2 cl(1) used dl(1) free this dl'_def cl'_def]
          obtain m1 m2 where e: "sec_write_guards ((cells s)(d \<mapsto> dl')) (space s) d = Some m1"
            "sec_write_guards ((cells s)(d \<mapsto> dl', c \<mapsto> cl')) m1 c = Some m2"
            "grown A s b L c (s\<lparr>cells := (cells s)(d \<mapsto> dl', c \<mapsto> cl'), space := m2\<rparr>) b L"
            unfolding L2 by blast
          have n': "cl' = cl\<lparr>c_n_words := n\<rparr>" using short by (simp add: cl'_def)
          let ?s = "s\<lparr>cells := (cells s)(d \<mapsto> dl', c \<mapsto> cl'), space := m2\<rparr>"
          have "sec_grow s b c n = sec_grow ?s b c n"
            using cl dl nbd short free False e(1,2) unfolding n' dl'_def
            by (subst sec_grow.simps) (simp add: cell_at_def)
          also have "\<dots> = Some (?s, b)"
            using cl(2) by (subst sec_grow.simps) (simp add: cell_at_def n')
          finally show ?thesis using e(3) by blast
        qed
      qed
    qed
  qed
qed

section \<open>Resizing\<close>

lemma words_le: "n \<le> 8 * k \<Longrightarrow> sec_size_to_words n \<le> k"
proof -
  assume n: "n \<le> 8 * k"
  have eq: "n = 8 * (n div 8) + n mod 8" by simp
  show ?thesis
  proof (cases "n mod 8 = 0")
    case True
    then have "n div 8 \<le> k" using n eq by linarith
    then show ?thesis using True by (simp add: sec_size_to_words_def)
  next
    case False
    then have "n div 8 + 1 \<le> k" using n eq by linarith
    then show ?thesis using False by (simp add: sec_size_to_words_def)
  qed
qed

text \<open>Another size for the allocation in a cell, and a write inside of the cell.\<close>

lemma resize_cell:
  assumes ok: "block_ok cs m b L" and c: "c \<in> set L" "cs c = Some cl" "0 < c_requested cl" "a = c_words cl + 8"
    and cl': "c_words cl' = c_words cl" "c_n_words cl' = c_n_words cl" "c_next cl' = c_next cl" "c_prev cl' = c_prev cl"
      "c_requested cl' = n" "c_tag cl' \<noteq> None"
    and n: "0 < n" "n \<le> 8 * (c_n_words cl - 2)" and w: "a \<le> w" "w + length ws \<le> last_word cl"
  shows "\<exists>bs. store m w ws = Some (overwrite m w ws) \<and> load (overwrite m w ws) a n = Some bs \<and>
    block_ok (cs(c \<mapsto> cl')) (overwrite m w ws) b L \<and>
    live (cs(c \<mapsto> cl')) (overwrite m w ws) (set L) = insert (a, bs) {(x, y) \<in> live cs m (set L). x \<noteq> a}"
proof -
  let ?m = "overwrite m w ws" and ?cs = "cs(c \<mapsto> cl')"
  note ok' = ok [unfolded block_ok_def block_rings_def]
  have base: "block_base cs m b L" using ok' by simp
  have wr: "store m w ws = Some ?m" "block_base cs ?m b L" "live cs ?m (set L - {c}) = live cs m (set L - {c})"
    using write_inside [OF base c(1,2) _ w(2)] w(1) c(4) by auto
  have lay: "layout cs m (b_words b) L (b_end b)" using base by (simp add: block_base_def)
  obtain xs ys where L: "L = xs @ c # ys" using c(1) by (metis split_list)
  have lay2: "layout cs ?m (b_words b) (xs @ c # ys) (b_end b)" using wr(2) L by (simp add: block_base_def)
  obtain k where k: "cs c = Some k" "cell_ok k" "layout cs ?m (b_words b) xs (c_words k)"
    "layout cs ?m (c_words k + 8 * c_n_words k) ys (b_end b)" "0 < c" "c < size_limit"
    "load_ptr ?m (c_words k) = Some c" "load_ptr ?m (last_word k) = Some c" "c \<notin> set xs" "c \<notin> set ys"
    "b_words b \<le> c_words k" "c_words k + 8 * c_n_words k \<le> b_end b"
    using layout_split [OF lay2] by metis
  then have "k = cl" using c(2) by simp
  note k = k [unfolded this]
  have N: "2 \<le> c_n_words cl" using k(2) by (simp add: cell_ok_def)
  have "readable ?m a n"
    by (rule base_mapped [OF wr(2)]) (use c(4) k(11,12) n N in auto)
  then obtain bs where bs: "load ?m a n = Some bs" using load_Some by blast
  have mid: "layout ?cs ?m (c_words cl) [c] (c_words cl + 8 * c_n_words cl)"
    using k(5-8) cl' n N by (simp add: cell_ok_def last_word_def)
  have cores: "map_option core (?cs d) = map_option core (cs d)" if "d \<in> set xs \<union> set ys" for d
    using that k(9,10) by auto
  note spl = layout_splice [where cs' = ?cs, OF k(3,4) mid cores refl]
  have iu: "in_use ?cs x = in_use cs x" for x
    using c(2,3) cl'(5) n(1) by (simp add: in_use_def)
  have same: "used_of ?cs L = used_of cs L" "free_of ?cs L = free_of cs L"
    by (simp_all add: used_of_def free_of_def iu)
  have ends: "map_option ends (?cs x) = map_option ends (cs x)" for x
    using c(2) cl'(3,4) by (simp add: ends_def)
  have "block_base ?cs ?m b L" using wr(2) spl(1) L by (simp add: block_base_def del: fun_upd_apply)
  moreover have "ring_of ?cs (b_used_cells b) (used_of ?cs L)"
    unfolding same by (rule ring_of_cong [of cs]) (use ok' in \<open>simp_all add: ends del: fun_upd_apply\<close>)
  moreover have "ring_of ?cs (b_unused_cells b) (free_of ?cs L)"
    unfolding same by (rule ring_of_cong [of cs]) (use ok' in \<open>simp_all add: ends del: fun_upd_apply\<close>)
  ultimately have "block_ok ?cs ?m b L"
    using ok' by (simp add: block_ok_def block_rings_def coalesced_def iu same del: fun_upd_apply)
  moreover have "live ?cs ?m (set L) = live ?cs ?m {c} \<union> live ?cs ?m (set L - {c})"
    unfolding live_Un [symmetric] using c(1) by (simp add: insert_absorb)
  moreover have "live ?cs ?m {c} = {(a, bs)}" using bs n(1) c(4) cl'(1,5) by (auto simp: live_def)
  moreover have "live ?cs ?m (set L - {c}) = {(x, y) \<in> live cs m (set L). x \<noteq> a}"
  proof -
    have "live ?cs ?m (set L - {c}) = live cs ?m (set L - {c})" by (auto simp: live_def)
    then show ?thesis using wr(3) live_without [OF lay c(1,2)] c(4) by simp
  qed
  ultimately show ?thesis using wr(1) bs by auto
qed

lemma load_prefix:
  assumes "load m a k = Some bs" "load m' a n = Some bs'" "\<And>x. a \<le> x \<Longrightarrow> x < a + min n k \<Longrightarrow> m' x = m x"
  shows "take (min n k) bs' = take (min n k) bs"
proof -
  have "load m' a (min n k) = load m a (min n k)" by (rule load_cong) (use assms(3) in auto)
  then show ?thesis using load_take [OF assms(1), of "min n k"] load_take [OF assms(2), of "min n k"] by simp
qed

text \<open>
  A resized allocation keeps its contents up to the smaller one of the sizes; one that could not be
  resized is as before.
\<close>

definition resized_in ::
  "nat set \<Rightarrow> secure \<Rightarrow> block \<Rightarrow> nat list \<Rightarrow> nat \<Rightarrow> bytes \<Rightarrow> nat \<Rightarrow> nat \<Rightarrow> secure \<Rightarrow> block \<Rightarrow> nat list \<Rightarrow> bool" where
  "resized_in A s b L a bs n r s' b' L' \<longleftrightarrow> block_ok (cells s') (space s') b' L' \<and> block_step A s b L s' b' L' \<and>
     b_n_used b' = b_n_used b \<and>
     (if r = 0 then live (cells s') (space s') (set L') = live (cells s) (space s) (set L) \<and> length bs \<le> n
      else \<exists>bs'. length bs' = n \<and> take (min n (length bs)) bs' = take (min n (length bs)) bs \<and>
        live (cells s') (space s') (set L') = insert (r, bs') {(x, y) \<in> live (cells s) (space s) (set L). x \<noteq> a} \<and>
        (\<forall>y. (r, y) \<in> live (cells s) (space s) (set L) \<longrightarrow> r = a))"

definition kernel_maps :: "surroundings \<Rightarrow> bool" where
  "kernel_maps E \<longleftrightarrow> (\<forall>s A. pools_own (pools s) A \<longrightarrow> maps_fresh (E s) (pools s))"

lemma moved_live:
  "r \<noteq> a \<Longrightarrow> \<forall>y. (r, y) \<notin> X \<Longrightarrow>
    {(x, y) \<in> insert (r, bs') {(x, y) \<in> insert (r, zs) X. x \<noteq> r}. x \<noteq> a} = insert (r, bs') {(x, y) \<in> X. x \<noteq> a}"
  by auto

lemma sec_realloc_spec:
  assumes ok: "block_ok (cells s) (space s) b L" and own: "pools_own (pools s) A" "set L \<subseteq> A" and E: "kernel_maps E"
    and a: "(a, bs) \<in> live (cells s) (space s) (set L)" and n: "0 < n"
  shows "\<exists>r s' b' L'. sec_realloc E s b tag a n = Some (r, s', b') \<and> resized_in A s b L a bs n r s' b' L'"
proof -
  note ok' = ok [unfolded block_ok_def block_rings_def]
  have base: "block_base (cells s) (space s) b L" using ok' by simp
  obtain c cl where c: "c \<in> set L" "cells s c = Some cl" "0 < c_requested cl" "a = c_words cl + 8" "cell_ok cl" "0 < c"
    "load (space s) a (c_requested cl) = Some bs" "length bs = c_requested cl" "c_tag cl \<noteq> None"
    "sec_cell_of s b a = Some c" "in_use (cells s) c" "a + length bs \<le> last_word cl"
    using live_cell [OF base own a] by metis
  let ?k = "sec_size_to_words n + 2"
  have a0: "a \<noteq> 0" using c(4) by simp
  have req: "c_requested cl \<le> 8 * (c_n_words cl - 2)" "2 \<le> c_n_words cl" using c(3,5) by (auto simp: cell_ok_def)
  show ?thesis
  proof (cases "?k \<le> c_n_words cl")
    case True
    then have nk: "n \<le> 8 * (c_n_words cl - 2)" using size_to_words(1) [of n] by linarith
    let ?cl = "cl\<lparr>c_requested := n\<rparr>"
    define ws where "ws = replicate (c_requested cl - n) (0 :: byte)"
    have fit: "n + length ws \<le> max n (c_requested cl)" by (simp add: ws_def)
    have w2: "a + n + length ws \<le> last_word cl"
      using fit nk req c(4) by (auto simp: last_word_def ws_def)
    obtain bs' where z: "store (space s) (a + n) ws = Some (overwrite (space s) (a + n) ws)"
      "load (overwrite (space s) (a + n) ws) a n = Some bs'"
      "block_ok ((cells s)(c \<mapsto> ?cl)) (overwrite (space s) (a + n) ws) b L"
      "live ((cells s)(c \<mapsto> ?cl)) (overwrite (space s) (a + n) ws) (set L) = insert (a, bs') {(x, y) \<in> live (cells s) (space s) (set L). x \<noteq> a}"
      using resize_cell [OF ok c(1-4), of ?cl n "a + n" ws] c(9) n nk w2 by auto
    let ?s = "s\<lparr>cells := (cells s)(c \<mapsto> ?cl), space := overwrite (space s) (a + n) ws\<rparr>"
    have "(if n < c_requested cl then sec_clear (space s) (c_words cl + 8) n (c_requested cl) else Some (space s)) =
        Some (overwrite (space s) (a + n) ws)"
      using z(1) c(4) by (simp add: sec_clear_def ws_def)
    then have "sec_realloc E s b tag a n = Some (a, ?s, b)"
      using True a0 n c by (simp add: sec_realloc_def cell_at_def sec_cell_to_memory_def Let_def)
    moreover have "take (min n (length bs)) bs' = take (min n (length bs)) bs"
      unfolding c(8) by (rule load_prefix [OF c(7) z(2)]) (auto simp: ws_def overwrite_def)
    moreover have "block_step A s b L ?s b L"
    proof -
      have "overwrite (space s) (a + n) ws x = space s x" if "x < b_words b \<or> b_end b \<le> x" for x
        using write_inside(4) [OF base c(1,2) _ w2 that] c(4) by simp
      moreover have "A - set L \<union> set L = A" using own(2) by auto
      ultimately show ?thesis using own(1) c(1) by (auto simp: block_step_def)
    qed
    ultimately show ?thesis using z(3,4) a0 load_length [OF z(2)] by (auto simp: resized_in_def intro!: exI [of _ L])
  next
    case False
    then have larger: "c_requested cl < n"
      using words_le [of n "c_n_words cl - 2"] req by linarith
    from sec_grow_spec [OF ok own c(1,11), of ?k] obtain s1 b1 L1 where
      g: "sec_grow s b c ?k = Some (s1, b1)" "grown A s b L c s1 b1 L1" by blast
    then obtain cl1 where cl1: "cells s1 c = Some cl1" "c_words cl1 = c_words cl" "c_requested cl1 = c_requested cl"
      "c_tag cl1 = c_tag cl" "c_n_words cl \<le> c_n_words cl1" using c(2) by (auto simp: grown_def)
    have g': "block_ok (cells s1) (space s1) b1 L1" "block_step A s b L s1 b1 L1" "c \<in> set L1" "b_n_used b1 = b_n_used b"
      "live (cells s1) (space s1) (set L1) = live (cells s) (space s) (set L)"
      using g(2) by (simp_all add: grown_def)
    let ?A1 = "A - set L \<union> set L1"
    have own1: "pools_own (pools s1) ?A1" "set L1 \<subseteq> ?A1" using g'(2) by (auto simp: block_step_def)
    have base1: "block_base (cells s1) (space s1) b1 L1" using g'(1) by (simp add: block_ok_def)
    have a1: "(a, bs) \<in> live (cells s1) (space s1) (set L1)" using a g'(5) by simp
    then have load1: "load (space s1) a (c_requested cl1) = Some bs"
    proof -
      obtain d dl where d: "d \<in> set L1" "cells s1 d = Some dl" "a = c_words dl + 8" "load (space s1) a (c_requested dl) = Some bs"
        using a1 by (auto simp: live_def)
      have "layout (cells s1) (space s1) (b_words b1) L1 (b_end b1)" using base1 by (simp add: block_base_def)
      from layout_unique [OF this d(1) g'(3) d(2) cl1(1)] d(3) c(4) cl1(2) have "d = c" by simp
      then show ?thesis using d(2,4) cl1(1) by simp
    qed
    have start: "sec_realloc E s b tag a n =
       (if c_n_words cl1 \<ge> ?k
       then do {
         let cs = (cells s1)(c \<mapsto> cl1\<lparr>c_requested := n, c_tag := Some tag\<rparr>);
         m \<leftarrow> sec_clear (space s1) (sec_cell_to_memory cl1) (c_requested cl) n;
         Some (sec_cell_to_memory cl1, s1\<lparr>cells := cs, space := m\<rparr>, b1) }
       else do {
         (alloc, s, b) \<leftarrow> sec_alloc E s1 b1 tag n;
         if alloc = 0 then Some (0, s, b)
         else do {
           bs \<leftarrow> load (space s) a (c_requested cl);
           m \<leftarrow> store (space s) alloc bs;
           (s, b) \<leftarrow> sec_free (s\<lparr>space := m\<rparr>) b a;
           Some (alloc, s, b) } })"
      using False a0 n c(2,3,6,9,10) g(1) cl1(1) by (auto simp: sec_realloc_def cell_at_def Let_def)
    show ?thesis
    proof (cases "c_n_words cl1 \<ge> ?k")
      case True
      then have nk: "n \<le> 8 * (c_n_words cl1 - 2)" using size_to_words(1) [of n] by linarith
      let ?cl = "cl1\<lparr>c_requested := n, c_tag := Some tag\<rparr>"
      define ws where "ws = replicate (n - c_requested cl) (0 :: byte)"
      have w2: "a + c_requested cl + length ws \<le> last_word cl1"
        using larger nk cl1(2,5) req(2) c(4) by (simp add: last_word_def ws_def)
      have a2: "a = c_words cl1 + 8" "0 < c_requested cl1" using c(3,4) cl1 by simp_all
      obtain bs' where z: "store (space s1) (a + c_requested cl) ws = Some (overwrite (space s1) (a + c_requested cl) ws)"
        "load (overwrite (space s1) (a + c_requested cl) ws) a n = Some bs'"
        "block_ok ((cells s1)(c \<mapsto> ?cl)) (overwrite (space s1) (a + c_requested cl) ws) b1 L1"
        "live ((cells s1)(c \<mapsto> ?cl)) (overwrite (space s1) (a + c_requested cl) ws) (set L1) =
          insert (a, bs') {(x, y) \<in> live (cells s1) (space s1) (set L1). x \<noteq> a}"
        using resize_cell [OF g'(1,3) cl1(1) a2(2,1), of ?cl n "a + c_requested cl" ws] n nk w2 by auto
      let ?s = "s1\<lparr>cells := (cells s1)(c \<mapsto> ?cl), space := overwrite (space s1) (a + c_requested cl) ws\<rparr>"
      have "sec_realloc E s b tag a n = Some (a, ?s, b1)"
        using start True larger z(1) a2(1) by (simp add: sec_clear_def ws_def sec_cell_to_memory_def)
      moreover have "take (min n (length bs)) bs' = take (min n (length bs)) bs"
        unfolding c(8) by (rule load_prefix [OF load1[unfolded cl1(3)] z(2)]) (use larger in \<open>auto simp: ws_def\<close>)
      moreover have "block_step ?A1 s1 b1 L1 ?s b1 L1"
      proof -
        have "overwrite (space s1) (a + c_requested cl) ws x = space s1 x" if "x < b_words b1 \<or> b_end b1 \<le> x" for x
          using write_inside(4) [OF base1 g'(3) cl1(1) _ w2 that] a2(1) by simp
        moreover have "?A1 - set L1 \<union> set L1 = ?A1" by auto
        ultimately show ?thesis using own1(1) g'(3) by (auto simp: block_step_def)
      qed
      then have "block_step A s b L ?s b1 L1" by (rule block_step_trans [OF g'(2)])
      ultimately show ?thesis
        using z(3,4) a0 load_length [OF z(2)] g'(4,5) by (auto simp: resized_in_def intro!: exI [of _ L1])
    next
      case full: False
      have fresh: "maps_fresh (E s1) (pools s1)" using E own1(1) by (auto simp: kernel_maps_def)
      from sec_alloc_spec [where E = E and tag = tag, OF g'(1) own1 fresh n] show ?thesis
      proof
        assume "sec_alloc E s1 b1 tag n = Some (0, s1, b1)"
        then have "sec_realloc E s b tag a n = Some (0, s1, b1)" using start full by simp
        then show ?thesis using g' larger c(8) by (auto simp: resized_in_def)
      next
        assume "\<exists>r s2 b2 L2. sec_alloc E s1 b1 tag n = Some (r, s2, b2) \<and> allocated_in ?A1 s1 b1 L1 n r s2 b2 L2"
        then obtain r s2 b2 L2 where al: "sec_alloc E s1 b1 tag n = Some (r, s2, b2)" "allocated_in ?A1 s1 b1 L1 n r s2 b2 L2"
          by blast
        then have r: "r \<noteq> 0" "block_ok (cells s2) (space s2) b2 L2" "block_step ?A1 s1 b1 L1 s2 b2 L2"
          "live (cells s2) (space s2) (set L2) = insert (r, replicate n 0) (live (cells s1) (space s1) (set L1))"
          "\<forall>y. (r, y) \<notin> live (cells s1) (space s1) (set L1)" "b_n_used b2 = b_n_used b1 + 1"
          by (simp_all add: allocated_in_def)
        have al2: "(a, bs) \<in> live (cells s2) (space s2) (set L2)" and ra: "r \<noteq> a" using r(4,5) a1 by auto
        have base2: "block_base (cells s2) (space s2) b2 L2" using r(2) by (simp add: block_ok_def)
        let ?A2 = "?A1 - set L1 \<union> set L2"
        have own2: "pools_own (pools s2) ?A2" "set L2 \<subseteq> ?A2" using r(3) by (auto simp: block_step_def)
        have rl: "(r, replicate n 0) \<in> live (cells s2) (space s2) (set L2)" using r(4) by simp
        obtain d dl where d: "d \<in> set L2" "cells s2 d = Some dl" "0 < c_requested dl" "r = c_words dl + 8" "cell_ok dl"
          "n = c_requested dl" "c_tag dl \<noteq> None" "r + n \<le> last_word dl"
          using live_cell [OF base2 own2 rl] by (metis length_replicate)
        obtain e el where e: "e \<in> set L2" "cells s2 e = Some el" "a = c_words el + 8" "c_requested el = c_requested cl"
          "load (space s2) a (c_requested cl) = Some bs"
          using live_cell [OF base2 own2 al2] c(8) by metis
        have dn: "n \<le> 8 * (c_n_words dl - 2)" using d(3,5,6) by (auto simp: cell_ok_def)
        have lb: "length bs \<le> n" using larger c(8) by simp
        let ?m = "overwrite (space s2) r bs"
        have same: "dl\<lparr>c_requested := n\<rparr> = dl" "(cells s2)(d \<mapsto> dl) = cells s2" using d(2,6) by (auto simp: fun_upd_idem)
        obtain bs' where z: "store (space s2) r bs = Some ?m" "load ?m r n = Some bs'"
          "block_ok (cells s2) ?m b2 L2"
          "live (cells s2) ?m (set L2) = insert (r, bs') {(x, y) \<in> live (cells s2) (space s2) (set L2). x \<noteq> r}"
          using resize_cell [OF r(2) d(1-4), of dl n r bs] d(6-8) n dn lb unfolding same by auto
        let ?s2 = "s2\<lparr>space := ?m\<rparr>"
        have st2: "block_step ?A2 s2 b2 L2 ?s2 b2 L2"
        proof -
          have "r + length bs \<le> last_word dl" using d(8) lb by simp
          then have "?m x = space s2 x" if "x < b_words b2 \<or> b_end b2 \<le> x" for x
            using write_inside(4) [OF base2 d(1,2) _ _ that, of r bs] d(4) by simp
          moreover have "?A2 - set L2 \<union> set L2 = ?A2" by auto
          ultimately show ?thesis using own2(1) by (auto simp: block_step_def)
        qed
        have "(a, bs) \<in> live (cells ?s2) (space ?s2) (set L2)" using z(4) al2 ra by auto
        from sec_free_spec [of ?s2 b2 L2 ?A2, OF _ _ own2(2) this] z(3) own2(1)
        obtain s3 b3 L3 where f: "sec_free ?s2 b2 a = Some (s3, b3)" "freed_in ?A2 ?s2 b2 L2 a s3 b3 L3" by auto
        have "block_step ?A1 s1 b1 L1 ?s2 b2 L2" by (rule block_step_trans [OF r(3) st2])
        moreover have "block_step ?A2 ?s2 b2 L2 s3 b3 L3" using f(2) by (simp add: freed_in_def)
        ultimately have "block_step ?A1 s1 b1 L1 s3 b3 L3" by (rule block_step_trans)
        then have step: "block_step A s b L s3 b3 L3" by (rule block_step_trans [OF g'(2)])
        have "sec_realloc E s b tag a n = Some (r, s3, b3)"
          using start full al(1) r(1) e(5) z(1) f(1) by simp
        moreover have "take (min n (length bs)) bs' = take (min n (length bs)) bs"
        proof -
          have "load ?m r (length bs) = Some bs" by (rule load_overwrite_same)
          from load_prefix [OF this z(2)] show ?thesis by simp
        qed
        moreover have "live (cells s3) (space s3) (set L3) =
            insert (r, bs') {(x, y) \<in> live (cells s) (space s) (set L). x \<noteq> a}"
        proof -
          have "live (cells s3) (space s3) (set L3) = {(x, y) \<in> live (cells s2) ?m (set L2). x \<noteq> a}"
            using f(2) by (simp add: freed_in_def)
          then show ?thesis unfolding z(4) r(4) g'(5) using moved_live [OF ra] r(5) [unfolded g'(5)] by simp
        qed
        moreover have "b_n_used b3 = b_n_used b" using f(2) r(6) g'(4) by (simp add: freed_in_def)
        moreover have "\<forall>y. (r, y) \<in> live (cells s) (space s) (set L) \<longrightarrow> r = a" using r(5) g'(5) by simp
        moreover have "block_ok (cells s3) (space s3) b3 L3" using f(2) by (simp add: freed_in_def)
        ultimately have "sec_realloc E s b tag a n = Some (r, s3, b3) \<and> resized_in A s b L a bs n r s3 b3 L3"
          using step r(1) load_length [OF z(2)] unfolding resized_in_def by (auto intro!: exI [of _ bs'])
        then show ?thesis by blast
      qed
    qed
  qed
qed

end
