(* ===== verification/SecureMemory.thy ===== *)
theory SecureMemory
  imports SecureRealloc
begin

text \<open>
  The secure allocator of \<open>egg/egg-secure-memory.c\<close> as its callers see it: locked pages, the list of
  blocks, and the public functions. The kernel and the fallback allocator that the program
  configures in \<open>EGG_SECURE_GLOBALS\<close> are parameters. The functions hold the global lock while they
  touch the blocks, so that they run one after the other.
\<close>

section \<open>The surroundings\<close>

text \<open>
  The answers of the kernel, where \<open>0\<close> stands for \<open>MAP_FAILED\<close>; whether \<open>SECMEM_FORCE_FALLBACK\<close> is
  set; and the fallback allocator, which behaves as \<open>realloc\<close>: it takes its own state, the memory, an
  address and a size. \<open>fallback_sizes\<close> tells the allocations that it has handed out; only the
  specification uses it.
\<close>

record 'f sys =
  kernel :: surroundings
  getpagesize :: nat
  mmap_secure :: "secure \<Rightarrow> nat \<Rightarrow> nat"
  mlock_ok :: "secure \<Rightarrow> nat \<Rightarrow> nat \<Rightarrow> bool"
  munmap_ok :: "secure \<Rightarrow> nat \<Rightarrow> nat \<Rightarrow> bool"
  force_fallback :: bool
  fallback :: "('f \<Rightarrow> space \<Rightarrow> nat \<Rightarrow> nat \<Rightarrow> nat \<times> 'f \<times> space) option"
  fallback_sizes :: "'f \<Rightarrow> nat \<Rightarrow> nat option"

record 'f heap =
  sec :: secure
  all_blocks :: "block list"
  other :: 'f

definition set_sec :: "secure \<Rightarrow> 'f heap \<Rightarrow> 'f heap" where
  "set_sec s h = h\<lparr>sec := s\<rparr>"

section \<open>Locked memory\<close>

definition map_zero :: "space \<Rightarrow> nat \<Rightarrow> nat \<Rightarrow> space" where
  "map_zero m p sz = (\<lambda>x. if p \<le> x \<and> x < p + sz then Some 0 else m x)"

definition unmap :: "space \<Rightarrow> nat \<Rightarrow> nat \<Rightarrow> space" where
  "unmap m p sz = (\<lambda>x. if p \<le> x \<and> x < p + sz then None else m x)"

text \<open>The size as a \<open>size_t\<close>, rounded up to whole pages.\<close>

definition page_round :: "u64 \<Rightarrow> u64 \<Rightarrow> u64" where
  "page_round sz pgsize = (sz + pgsize - 1) AND NOT (pgsize - 1)"

definition munmap :: "'f sys \<Rightarrow> secure \<Rightarrow> nat \<Rightarrow> nat \<Rightarrow> secure" where
  "munmap y s p sz = (if munmap_ok y s p sz then s\<lparr>space := unmap (space s) p sz\<rparr> else s)"

text \<open>The results are the pages, \<open>0\<close> when there are none, and their size.\<close>

definition sec_acquire_pages :: "'f sys \<Rightarrow> secure \<Rightarrow> nat \<Rightarrow> (nat \<times> nat \<times> secure) option" where
  "sec_acquire_pages y s sz = do {
     c_assert (sz \<noteq> 0);
     let sz = unat (page_round (of_nat sz) (of_nat (getpagesize y)));
     let pages = mmap_secure y s sz;
     if pages = 0 then Some (0, sz, s)
     else do {
       let s' = s\<lparr>space := map_zero (space s) pages sz\<rparr>;
       if mlock_ok y s pages sz then Some (pages, sz, s')
       else Some (0, sz, munmap y s' pages sz) } }"

definition sec_release_pages :: "'f sys \<Rightarrow> secure \<Rightarrow> nat \<Rightarrow> nat \<Rightarrow> secure option" where
  "sec_release_pages y s pages sz = do {
     c_assert (pages \<noteq> 0);
     c_assert (sz mod getpagesize y = 0);
     Some (munmap y s pages sz) }"

section \<open>The list of blocks\<close>

definition DEFAULT_BLOCK_SIZE :: nat where
  "DEFAULT_BLOCK_SIZE = 16384"

definition free_item :: "secure \<Rightarrow> nat \<Rightarrow> secure option" where
  "free_item s item = map_option (\<lambda>ps. s\<lparr>pools := ps\<rparr>) (pool_free (pools s) item)"

text \<open>The first result is the item of the new block, \<open>0\<close> for \<open>NULL\<close>.\<close>

definition sec_block_create :: "'f sys \<Rightarrow> 'f heap \<Rightarrow> nat \<Rightarrow> (nat \<times> 'f heap) option" where
  "sec_block_create y h n =
     (if force_fallback y then Some (0, h)
      else do {
        let s = sec h;
        (block, ps) \<leftarrow> pool_alloc (kernel y s) (pools s);
        let s = s\<lparr>pools := ps\<rparr>;
        if block = 0 then Some (0, set_sec s h)
        else do {
          (cell, ps) \<leftarrow> pool_alloc (kernel y s) (pools s);
          let s = s\<lparr>pools := ps\<rparr>;
          if cell = 0 then do { s \<leftarrow> free_item s block; Some (0, set_sec s h) }
          else do {
            let n = (if n < DEFAULT_BLOCK_SIZE then DEFAULT_BLOCK_SIZE else n);
            (words, n, s) \<leftarrow> sec_acquire_pages y s n;
            if words = 0 then do {
              s \<leftarrow> free_item s block;
              s \<leftarrow> free_item s cell;
              Some (0, set_sec s h) }
            else do {
              let cs = (cells s)(cell \<mapsto> blank_cell\<lparr>c_n_words := n div 8, c_words := words\<rparr>);
              m \<leftarrow> sec_write_guards cs (space s) cell;
              (cs, unused) \<leftarrow> sec_insert_cell_ring cs 0 cell;
              let b = \<lparr>b_item = block, b_words = words, b_n_words = n div 8, b_n_used = 0,
                  b_used_cells = 0, b_unused_cells = unused\<rparr>;
              Some (block, h\<lparr>sec := s\<lparr>cells := cs, space := m\<rparr>, all_blocks := b # all_blocks h\<rparr>) } } } })"

text \<open>Unlinking a block; \<open>None\<close> when it is not in the list.\<close>

fun remove_block :: "nat \<Rightarrow> block list \<Rightarrow> block list option" where
  "remove_block item [] = None"
| "remove_block item (b # bs) =
     (if b_item b = item then Some bs else map_option ((#) b) (remove_block item bs))"

partial_function (option) sec_free_cells :: "secure \<Rightarrow> nat \<Rightarrow> secure option" where
  "sec_free_cells s unused =
     (if unused = 0 then Some s
      else do {
        (cs, unused') \<leftarrow> sec_remove_cell_ring (cells s) unused unused;
        s \<leftarrow> free_cell (s\<lparr>cells := cs\<rparr>) unused;
        sec_free_cells s unused' })"

declare sec_free_cells.simps [code]

definition sec_block_destroy :: "'f sys \<Rightarrow> 'f heap \<Rightarrow> block \<Rightarrow> 'f heap option" where
  "sec_block_destroy y h b = do {
     c_assert (b_words b \<noteq> 0);
     c_assert (b_n_used b = 0);
     bs \<leftarrow> remove_block (b_item b) (all_blocks h);
     c_assert (b_used_cells b = 0);
     s \<leftarrow> sec_free_cells (sec h) (b_unused_cells b);
     s \<leftarrow> sec_release_pages y s (b_words b) (b_n_words b * 8);
     s \<leftarrow> free_item s (b_item b);
     Some (h\<lparr>sec := s, all_blocks := bs\<rparr>) }"

section \<open>The public functions\<close>

definition tag_or_default :: "string option \<Rightarrow> string" where
  "tag_or_default tag = (case tag of None \<Rightarrow> ''?'' | Some t \<Rightarrow> t)"

definition insane_size :: "nat \<Rightarrow> bool" where
  "insane_size n \<longleftrightarrow> n > 0xFFFFFFFF div 2"

text \<open>A call of the fallback allocator.\<close>

definition call_fallback ::
  "('f \<Rightarrow> space \<Rightarrow> nat \<Rightarrow> nat \<Rightarrow> nat \<times> 'f \<times> space) \<Rightarrow> 'f heap \<Rightarrow> nat \<Rightarrow> nat \<Rightarrow> nat \<times> 'f heap" where
  "call_fallback f h p n = (let (r, st, m) = f (other h) (space (sec h)) p n
     in (r, h\<lparr>sec := (sec h)\<lparr>space := m\<rparr>, other := st\<rparr>))"

text \<open>Asking the blocks one after the other.\<close>

fun alloc_in_blocks ::
  "surroundings \<Rightarrow> secure \<Rightarrow> block list \<Rightarrow> string \<Rightarrow> nat \<Rightarrow> (nat \<times> secure \<times> block list) option" where
  "alloc_in_blocks E s [] tag n = Some (0, s, [])"
| "alloc_in_blocks E s (b # bs) tag n = do {
     (memory, s, b) \<leftarrow> sec_alloc E s b tag n;
     if memory \<noteq> 0 then Some (memory, s, b # bs)
     else do {
       (memory, s, bs) \<leftarrow> alloc_in_blocks E s bs tag n;
       Some (memory, s, b # bs) } }"

text \<open>The part of \<open>egg_secure_alloc_full\<close> that holds the lock, and the part behind it.\<close>

definition alloc_locked :: "'f sys \<Rightarrow> 'f heap \<Rightarrow> string \<Rightarrow> nat \<Rightarrow> (nat \<times> 'f heap) option" where
  "alloc_locked y h tag n = do {
     (memory, s, bs) \<leftarrow> alloc_in_blocks (kernel y) (sec h) (all_blocks h) tag n;
     let h = h\<lparr>sec := s, all_blocks := bs\<rparr>;
     if memory \<noteq> 0 then Some (memory, h)
     else do {
       (block, h) \<leftarrow> sec_block_create y h n;
       if block = 0 then Some (0, h)
       else (case all_blocks h of
           [] \<Rightarrow> None
         | b # bs \<Rightarrow> do {
             (memory, s, b) \<leftarrow> sec_alloc (kernel y) (sec h) b tag n;
             Some (memory, h\<lparr>sec := s, all_blocks := b # bs\<rparr>) }) } }"

definition alloc_fallback ::
  "('f \<Rightarrow> space \<Rightarrow> nat \<Rightarrow> nat \<Rightarrow> nat \<times> 'f \<times> space) \<Rightarrow> 'f heap \<Rightarrow> nat \<Rightarrow> (nat \<times> 'f heap) option" where
  "alloc_fallback f h n = (let (memory, h) = call_fallback f h 0 n
     in if memory \<noteq> 0 then do {
          m \<leftarrow> store (space (sec h)) memory (replicate n 0);
          Some (memory, set_sec ((sec h)\<lparr>space := m\<rparr>) h) }
        else Some (0, h))"

definition egg_secure_alloc_full ::
  "'f sys \<Rightarrow> 'f heap \<Rightarrow> string option \<Rightarrow> nat \<Rightarrow> bool \<Rightarrow> (nat \<times> 'f heap) option" where
  "egg_secure_alloc_full y h tag n use_fallback =
     (if insane_size n then Some (0, h)
      else if n = 0 then Some (0, h)
      else do {
        (memory, h) \<leftarrow> alloc_locked y h (tag_or_default tag) n;
        case (if memory = 0 \<and> use_fallback then fallback y else None) of
          None \<Rightarrow> Some (memory, h)
        | Some f \<Rightarrow> alloc_fallback f h n })"

text \<open>The first block that a pointer is in, with the blocks around it.\<close>

fun block_of :: "block list \<Rightarrow> nat \<Rightarrow> (block list \<times> block \<times> block list) option" where
  "block_of [] memory = None"
| "block_of (b # bs) memory =
     (if sec_is_valid_word b memory then Some ([], b, bs)
      else map_option (\<lambda>(before, c, after). (b # before, c, after)) (block_of bs memory))"

definition destroy_unused :: "'f sys \<Rightarrow> 'f heap \<Rightarrow> block \<Rightarrow> 'f heap option" where
  "destroy_unused y h b = (if b_n_used b = 0 then sec_block_destroy y h b else Some h)"

definition egg_secure_free_full :: "'f sys \<Rightarrow> 'f heap \<Rightarrow> nat \<Rightarrow> bool \<Rightarrow> 'f heap option" where
  "egg_secure_free_full y h memory use_fallback =
     (if memory = 0 then Some h
      else case block_of (all_blocks h) memory of
        Some (before, b, after) \<Rightarrow> do {
          (s, b) \<leftarrow> sec_free (sec h) b memory;
          destroy_unused y (h\<lparr>sec := s, all_blocks := before @ b # after\<rparr>) b }
      | None \<Rightarrow> (case (if use_fallback then fallback y else None) of
            Some f \<Rightarrow> Some (snd (call_fallback f h memory 0))
          | None \<Rightarrow> None))"

definition egg_secure_free :: "'f sys \<Rightarrow> 'f heap \<Rightarrow> nat \<Rightarrow> 'f heap option" where
  "egg_secure_free y h memory = egg_secure_free_full y h memory True"

definition egg_secure_realloc_full ::
  "'f sys \<Rightarrow> 'f heap \<Rightarrow> string option \<Rightarrow> nat \<Rightarrow> nat \<Rightarrow> bool \<Rightarrow> (nat \<times> 'f heap) option" where
  "egg_secure_realloc_full y h tag memory n use_fallback =
     (if insane_size n then Some (0, h)
      else if memory = 0 then egg_secure_alloc_full y h (Some (tag_or_default tag)) n use_fallback
      else if n = 0 then do { h \<leftarrow> egg_secure_free_full y h memory use_fallback; Some (0, h) }
      else case block_of (all_blocks h) memory of
        Some (before, b, after) \<Rightarrow> do {
          previous \<leftarrow> sec_allocated (sec h) b memory;
          (alloc, s, b) \<leftarrow> sec_realloc (kernel y) (sec h) b (tag_or_default tag) memory n;
          h \<leftarrow> destroy_unused y (h\<lparr>sec := s, all_blocks := before @ b # after\<rparr>) b;
          if alloc \<noteq> 0 then Some (alloc, h)
          else do {
            (alloc, h) \<leftarrow> egg_secure_alloc_full y h (Some (tag_or_default tag)) n use_fallback;
            if alloc = 0 then Some (0, h)
            else do {
              bs \<leftarrow> load (space (sec h)) memory previous;
              m \<leftarrow> store (space (sec h)) alloc bs;
              h \<leftarrow> egg_secure_free_full y (set_sec ((sec h)\<lparr>space := m\<rparr>) h) memory use_fallback;
              Some (alloc, h) } } }
      | None \<Rightarrow> (case (if use_fallback then fallback y else None) of
            Some f \<Rightarrow> Some (call_fallback f h memory n)
          | None \<Rightarrow> None))"

definition egg_secure_check :: "'f heap \<Rightarrow> nat \<Rightarrow> bool" where
  "egg_secure_check h memory \<longleftrightarrow> block_of (all_blocks h) memory \<noteq> None"

fun validate_blocks :: "secure \<Rightarrow> block list \<Rightarrow> unit option" where
  "validate_blocks s [] = Some ()"
| "validate_blocks s (b # bs) = do { sec_validate s b; validate_blocks s bs }"

definition egg_secure_validate :: "'f heap \<Rightarrow> unit option" where
  "egg_secure_validate h = validate_blocks (sec h) (all_blocks h)"

section \<open>Strings\<close>

partial_function (option) c_strlen :: "space \<Rightarrow> nat \<Rightarrow> nat option" where
  "c_strlen m str = do {
     ch \<leftarrow> m str;
     if ch = 0 then Some 0 else do { n \<leftarrow> c_strlen m (Suc str); Some (Suc n) } }"

declare c_strlen.simps [code]

definition egg_secure_strdup_full ::
  "'f sys \<Rightarrow> 'f heap \<Rightarrow> string option \<Rightarrow> nat \<Rightarrow> bool \<Rightarrow> (nat \<times> 'f heap) option" where
  "egg_secure_strdup_full y h tag str use_fallback =
     (if str = 0 then Some (0, h)
      else do {
        n \<leftarrow> c_strlen (space (sec h)) str;
        let len = n + 1;
        (res, h) \<leftarrow> egg_secure_alloc_full y h tag len use_fallback;
        n \<leftarrow> c_strlen (space (sec h)) str;
        bs \<leftarrow> load (space (sec h)) str (n + 1);
        c_assert (res \<noteq> 0);
        m \<leftarrow> store (space (sec h)) res bs;
        Some (res, set_sec ((sec h)\<lparr>space := m\<rparr>) h) })"

text \<open>\<open>memchr (str, '\0', length)\<close>: the offset of the first zero byte.\<close>

fun c_memchr0 :: "space \<Rightarrow> nat \<Rightarrow> nat \<Rightarrow> nat option option" where
  "c_memchr0 m str 0 = Some None"
| "c_memchr0 m str (Suc n) = do {
     ch \<leftarrow> m str;
     if ch = 0 then Some (Some 0) else map_option (map_option Suc) (c_memchr0 m (Suc str) n) }"

definition egg_secure_strndup_full ::
  "'f sys \<Rightarrow> 'f heap \<Rightarrow> string option \<Rightarrow> nat \<Rightarrow> nat \<Rightarrow> bool \<Rightarrow> (nat \<times> 'f heap) option" where
  "egg_secure_strndup_full y h tag str n use_fallback =
     (if str = 0 then Some (0, h)
      else do {
        found \<leftarrow> c_memchr0 (space (sec h)) str n;
        let n = (case found of None \<Rightarrow> n | Some i \<Rightarrow> i);
        let len = sz_add n 1;
        (res, h) \<leftarrow> egg_secure_alloc_full y h tag len use_fallback;
        bs \<leftarrow> load (space (sec h)) str len;
        c_assert (res \<noteq> 0 \<or> len = 0);
        m \<leftarrow> store (space (sec h)) res bs;
        Some (res, set_sec ((sec h)\<lparr>space := m\<rparr>) h) })"

definition egg_secure_clear :: "space \<Rightarrow> nat \<Rightarrow> nat \<Rightarrow> space option" where
  "egg_secure_clear m p n = (if p = 0 then Some m else store m p (replicate n 0xAA))"

definition egg_secure_strclear :: "space \<Rightarrow> nat \<Rightarrow> space option" where
  "egg_secure_strclear m str =
     (if str = 0 then Some m else do { n \<leftarrow> c_strlen m str; egg_secure_clear m str n })"

definition egg_secure_strfree :: "'f sys \<Rightarrow> 'f heap \<Rightarrow> nat \<Rightarrow> 'f heap option" where
  "egg_secure_strfree y h str = do {
     m \<leftarrow> egg_secure_strclear (space (sec h)) str;
     egg_secure_free_full y (set_sec ((sec h)\<lparr>space := m\<rparr>) h) str True }"

end
