(* ===== verification/SecureHeap.thy ===== *)
theory SecureHeap
  imports SecureMemory
begin

text \<open>
  What the list of blocks of \<open>egg/egg-secure-memory.c\<close> maintains: every block is well formed, no two
  blocks share bytes or descriptions, and the memory of the fallback allocator is elsewhere. Here are
  the steps that the public functions are composed of: a step inside of one block, the creation and
  the destruction of a block.
\<close>

section \<open>Laws of the surroundings\<close>

text \<open>The kernel maps pages where nothing is mapped, and a page is a power of two of bytes.\<close>

definition kernel_ok :: "'f sys \<Rightarrow> bool" where
  "kernel_ok y \<longleftrightarrow> kernel_maps (kernel y) \<and> (\<exists>k. 3 \<le> k \<and> k < 32 \<and> getpagesize y = 2 ^ k) \<and>
     (\<forall>s sz. mmap_secure y s sz \<noteq> 0 \<longrightarrow> 8 \<le> mmap_secure y s sz \<and>
        (\<forall>x. mmap_secure y s sz \<le> x \<and> x < mmap_secure y s sz + sz \<longrightarrow> space s x = None))"

text \<open>The fallback allocator is as \<open>realloc\<close>: allocating, resizing and freeing.\<close>

definition fallback_allocates ::
  "('f \<Rightarrow> nat \<Rightarrow> nat option) \<Rightarrow> 'f \<Rightarrow> space \<Rightarrow> nat \<Rightarrow> nat \<Rightarrow> 'f \<Rightarrow> space \<Rightarrow> bool" where
  "fallback_allocates sizes st m n r st' m' \<longleftrightarrow>
     (if r = 0 then sizes st' = sizes st \<and> m' = m
      else sizes st r = None \<and> sizes st' = (sizes st)(r \<mapsto> n) \<and> readable m' r n \<and>
        (\<forall>x. if r \<le> x \<and> x < r + n then m x = None else m' x = m x))"

definition fallback_resizes ::
  "('f \<Rightarrow> nat \<Rightarrow> nat option) \<Rightarrow> 'f \<Rightarrow> space \<Rightarrow> nat \<Rightarrow> nat \<Rightarrow> nat \<Rightarrow> nat \<Rightarrow> 'f \<Rightarrow> space \<Rightarrow> bool" where
  "fallback_resizes sizes st m p k n r st' m' \<longleftrightarrow>
     (if r = 0 then sizes st' = sizes st \<and> m' = m
      else sizes st' = (sizes st)(p := None, r \<mapsto> n) \<and> readable m' r n \<and>
        (\<forall>i < min n k. m' (r + i) = m (p + i)) \<and>
        (\<forall>x. r \<le> x \<and> x < r + n \<longrightarrow> p \<le> x \<and> x < p + k \<or> m x = None) \<and>
        (\<forall>x. \<not> (r \<le> x \<and> x < r + n) \<and> \<not> (p \<le> x \<and> x < p + k) \<longrightarrow> m' x = m x))"

definition fallback_frees ::
  "('f \<Rightarrow> nat \<Rightarrow> nat option) \<Rightarrow> 'f \<Rightarrow> space \<Rightarrow> nat \<Rightarrow> nat \<Rightarrow> 'f \<Rightarrow> space \<Rightarrow> bool" where
  "fallback_frees sizes st m p k st' m' \<longleftrightarrow> sizes st' = (sizes st)(p := None) \<and>
     (\<forall>x. \<not> (p \<le> x \<and> x < p + k) \<longrightarrow> m' x = m x)"

definition fallback_ok :: "'f sys \<Rightarrow> bool" where
  "fallback_ok y \<longleftrightarrow> (\<forall>f st m p n r st' m'. fallback y = Some f \<and> f st m p n = (r, st', m') \<longrightarrow>
     (p = 0 \<and> 0 < n \<longrightarrow> fallback_allocates (fallback_sizes y) st m n r st' m') \<and>
     (\<forall>k. fallback_sizes y st p = Some k \<longrightarrow>
        (if n = 0 then fallback_frees (fallback_sizes y) st m p k st' m'
         else fallback_resizes (fallback_sizes y) st m p k n r st' m')))"

definition sys_ok :: "'f sys \<Rightarrow> bool" where
  "sys_ok y \<longleftrightarrow> kernel_ok y \<and> fallback_ok y"

section \<open>The invariant\<close>

text \<open>The blocks are taken together with the cells that tile them.\<close>

type_synonym tiled = "(block \<times> nat list) list"

definition owned :: "tiled \<Rightarrow> nat list" where
  "owned gs = concat (map (\<lambda>(b, L). b_item b # L) gs)"

definition block_apart :: "block \<Rightarrow> block \<Rightarrow> bool" where
  "block_apart b c \<longleftrightarrow> b_end b \<le> b_words c \<or> b_end c \<le> b_words b"

definition outside :: "tiled \<Rightarrow> nat \<Rightarrow> nat \<Rightarrow> bool" where
  "outside gs p k \<longleftrightarrow> (\<forall>(b, L) \<in> set gs. p + k \<le> b_words b \<or> b_end b \<le> p)"

definition blocks_ok :: "'f sys \<Rightarrow> secure \<Rightarrow> tiled \<Rightarrow> bool" where
  "blocks_ok y s gs \<longleftrightarrow>
     (\<forall>(b, L) \<in> set gs. block_ok (cells s) (space s) b L \<and> 8 * b_n_words b mod getpagesize y = 0) \<and>
     sorted_wrt block_apart (map fst gs) \<and> distinct (owned gs) \<and> pools_own (pools s) (set (owned gs))"

definition sizes_ok :: "(nat \<Rightarrow> nat option) \<Rightarrow> space \<Rightarrow> tiled \<Rightarrow> bool" where
  "sizes_ok sizes m gs \<longleftrightarrow>
     (\<forall>p k. sizes p = Some k \<longrightarrow> 0 < p \<and> 0 < k \<and> readable m p k \<and> outside gs p k) \<and>
     (\<forall>p k q j. sizes p = Some k \<and> sizes q = Some j \<and> p \<noteq> q \<longrightarrow> p + k \<le> q \<or> q + j \<le> p)"

definition heap_ok :: "'f sys \<Rightarrow> 'f heap \<Rightarrow> tiled \<Rightarrow> bool" where
  "heap_ok y h gs \<longleftrightarrow> all_blocks h = map fst gs \<and> blocks_ok y (sec h) gs \<and>
     sizes_ok (fallback_sizes y (other h)) (space (sec h)) gs \<and>
     (fallback y = None \<longrightarrow> fallback_sizes y (other h) = Map.empty)"

text \<open>The allocations, with their contents.\<close>

definition block_live :: "secure \<Rightarrow> tiled \<Rightarrow> (nat \<times> bytes) set" where
  "block_live s gs = (\<Union>(b, L) \<in> set gs. live (cells s) (space s) (set L))"

definition fallback_live :: "(nat \<Rightarrow> nat option) \<Rightarrow> space \<Rightarrow> (nat \<times> bytes) set" where
  "fallback_live sizes m = {(p, bs). \<exists>k. sizes p = Some k \<and> load m p k = Some bs}"

definition contents :: "(nat \<Rightarrow> nat option) \<Rightarrow> secure \<Rightarrow> tiled \<Rightarrow> (nat \<times> bytes) set" where
  "contents sizes s gs = block_live s gs \<union> fallback_live sizes (space s)"

definition allocations :: "'f sys \<Rightarrow> 'f heap \<Rightarrow> tiled \<Rightarrow> (nat \<times> bytes) set" where
  "allocations y h gs = contents (fallback_sizes y (other h)) (sec h) gs"

section \<open>Frames\<close>

text \<open>A block only depends on its cells and on its bytes.\<close>

lemma block_frame:
  assumes ok: "block_ok (cells s) (space s) b L" and c: "\<And>x. x \<in> set L \<Longrightarrow> cells s' x = cells s x"
    and m: "\<And>x. b_words b \<le> x \<Longrightarrow> x < b_end b \<Longrightarrow> space s' x = space s x"
  shows "block_ok (cells s') (space s') b L" "live (cells s') (space s') (set L) = live (cells s) (space s) (set L)"
proof -
  note ok' = ok [unfolded block_ok_def block_rings_def block_base_def]
  have lay: "layout (cells s) (space s) (b_words b) L (b_end b)" using ok' by simp
  have lay': "layout (cells s') (space s') (b_words b) L (b_end b)"
    by (rule layout_cong [OF lay]) (simp_all add: c m)
  have iu: "in_use (cells s') x = in_use (cells s) x" if "x \<in> set L" for x
    using c [OF that] by (simp add: in_use_def)
  have sets: "used_of (cells s') L = used_of (cells s) L" "free_of (cells s') L = free_of (cells s) L"
    using iu by (auto simp: used_of_def free_of_def)
  have "readable (space s') (b_words b) (8 * b_n_words b) = readable (space s) (b_words b) (8 * b_n_words b)"
    by (rule readable_cong) (simp add: m b_end_def)
  moreover have "ring_of (cells s') (b_used_cells b) (used_of (cells s) L)"
    by (rule ring_of_cong [of "cells s"]) (use ok' in \<open>simp_all add: c used_of_def\<close>)
  moreover have "ring_of (cells s') (b_unused_cells b) (free_of (cells s) L)"
    by (rule ring_of_cong [of "cells s"]) (use ok' in \<open>simp_all add: c free_of_def\<close>)
  moreover have "coalesced (cells s') L"
    using ok' iu unfolding coalesced_def by (auto cong: successively_cong)
  ultimately show "block_ok (cells s') (space s') b L"
    using ok' lay' by (simp add: block_ok_def block_rings_def block_base_def sets)
  show "live (cells s') (space s') (set L) = live (cells s) (space s) (set L)"
    by (rule live_cong [OF lay]) (simp_all add: c m)
qed

lemma sizes_frame:
  assumes "sizes_ok sizes m gs" "\<And>p k x. sizes p = Some k \<Longrightarrow> p \<le> x \<Longrightarrow> x < p + k \<Longrightarrow> m' x = m x"
    "\<And>p k. sizes p = Some k \<Longrightarrow> outside gs p k \<Longrightarrow> outside gs' p k"
  shows "sizes_ok sizes m' gs'" "fallback_live sizes m' = fallback_live sizes m"
proof -
  have r: "readable m' p k = readable m p k" "load m' p k = load m p k" if "sizes p = Some k" for p k
    using assms(2) [OF that] by (auto intro!: readable_cong load_cong)
  show "sizes_ok sizes m' gs'" using assms(1,3) r(1) unfolding sizes_ok_def by blast
  show "fallback_live sizes m' = fallback_live sizes m" using r(2) by (auto simp: fallback_live_def)
qed

lemma sorted_wrt_middle:
  assumes "\<And>x y. P x y \<Longrightarrow> P y x"
  shows "sorted_wrt P (xs @ b # ys) \<longleftrightarrow> sorted_wrt P (xs @ ys) \<and> (\<forall>c \<in> set xs \<union> set ys. P b c)"
  using assms by (fastforce simp: sorted_wrt_append)

lemma block_apart_sym: "block_apart b c \<Longrightarrow> block_apart c b"
  by (auto simp: block_apart_def)

lemma owned_append: "owned (xs @ ys) = owned xs @ owned ys"
  by (simp add: owned_def)

lemma owned_Cons: "owned ((b, L) # gs) = b_item b # L @ owned gs"
  by (simp add: owned_def)

lemma owned_member: "(b, L) \<in> set gs \<Longrightarrow> set L \<subseteq> set (owned gs)"
  by (auto simp: owned_def)

lemma block_live_append: "block_live s (xs @ ys) = block_live s xs \<union> block_live s ys"
  by (auto simp: block_live_def)

lemma block_live_Cons: "block_live s ((b, L) # gs) = live (cells s) (space s) (set L) \<union> block_live s gs"
  by (simp add: block_live_def)

text \<open>Blocks whose cells and bytes stay as they are.\<close>

lemma blocks_frame:
  assumes ok: "\<forall>(b, L) \<in> set gs. block_ok (cells s) (space s) b L \<and> 8 * b_n_words b mod getpagesize y = 0"
    and c: "\<And>b L x. (b, L) \<in> set gs \<Longrightarrow> x \<in> set L \<Longrightarrow> cells s' x = cells s x"
    and m: "\<And>b L x. (b, L) \<in> set gs \<Longrightarrow> b_words b \<le> x \<Longrightarrow> x < b_end b \<Longrightarrow> space s' x = space s x"
  shows "\<forall>(b, L) \<in> set gs. block_ok (cells s') (space s') b L \<and> 8 * b_n_words b mod getpagesize y = 0"
    "block_live s' gs = block_live s gs"
proof -
  have f: "block_ok (cells s') (space s') b L"
    "live (cells s') (space s') (set L) = live (cells s) (space s) (set L)" if "(b, L) \<in> set gs" for b L
    by (rule block_frame [of s]; use ok c m that in blast)+
  show "\<forall>(b, L) \<in> set gs. block_ok (cells s') (space s') b L \<and> 8 * b_n_words b mod getpagesize y = 0"
    using f(1) ok by auto
  show "block_live s' gs = block_live s gs" using f(2) by (auto simp: block_live_def)
qed


lemma live_bounds:
  assumes "block_ok cs m b L" "(a, bs) \<in> live cs m (set L)"
  shows "b_words b + 8 \<le> a" "a + length bs + 8 \<le> b_end b" "0 < length bs"
proof -
  have lay: "layout cs m (b_words b) L (b_end b)" using assms(1) by (simp add: block_ok_def block_base_def)
  obtain c cl where c: "c \<in> set L" "cs c = Some cl" "0 < c_requested cl" "a = c_words cl + 8"
    "load m a (c_requested cl) = Some bs" using assms(2) by (auto simp: live_def)
  obtain k where k: "cs c = Some k" "cell_ok k" "b_words b \<le> c_words k" "c_words k + 8 * c_n_words k \<le> b_end b"
    using layout_cell [OF lay c(1)] by metis
  have "k = cl" "length bs = c_requested cl" using k(1) c(2) load_length [OF c(5)] by simp_all
  then show "b_words b + 8 \<le> a" "a + length bs + 8 \<le> b_end b" "0 < length bs"
    using k(2-4) c(3,4) by (auto simp: cell_ok_def)
qed

lemma block_live_elsewhere:
  assumes "\<forall>(c, L) \<in> set gs. block_ok (cells s) (space s) c L" "\<forall>c \<in> fst ` set gs. block_apart b c"
    "(a, bs) \<in> block_live s gs"
  shows "bs \<noteq> [] \<and> (a + length bs \<le> b_words b \<or> b_end b \<le> a)"
proof -
  obtain c L where c: "(c, L) \<in> set gs" "(a, bs) \<in> live (cells s) (space s) (set L)"
    using assms(3) by (auto simp: block_live_def)
  then have "block_ok (cells s) (space s) c L" "block_apart b c" using assms(1,2) by force+
  then show ?thesis using live_bounds [OF _ c(2)] by (fastforce simp: block_apart_def)
qed

text \<open>
  A step of one block is a step of the heap: the allocations outside of the block are as before,
  and they are at other addresses than those of the block.
\<close>

definition others :: "(nat \<Rightarrow> nat option) \<Rightarrow> secure \<Rightarrow> tiled \<Rightarrow> tiled \<Rightarrow> (nat \<times> bytes) set" where
  "others sizes s xs ys = block_live s xs \<union> block_live s ys \<union> fallback_live sizes (space s)"

lemma others_apart:
  assumes ok: "blocks_ok y s (xs @ (b, L) # ys)" "sizes_ok sizes (space s) (xs @ (b, L) # ys)"
    and a: "(a, bs) \<in> others sizes s xs ys"
  shows "bs \<noteq> [] \<and> (a + length bs \<le> b_words b \<or> b_end b \<le> a)"
proof -
  note so = ok(1) [unfolded blocks_ok_def]
  have "\<forall>c \<in> set (map fst xs) \<union> set (map fst ys). block_apart b c"
    using so sorted_wrt_middle [of block_apart "map fst xs" b "map fst ys", OF block_apart_sym] by simp
  then have ap: "\<forall>c \<in> fst ` set xs. block_apart b c" "\<forall>c \<in> fst ` set ys. block_apart b c" by auto
  have bo: "\<forall>(c, L) \<in> set xs. block_ok (cells s) (space s) c L" "\<forall>(c, L) \<in> set ys. block_ok (cells s) (space s) c L"
    using so by auto
  consider "(a, bs) \<in> block_live s xs" | "(a, bs) \<in> block_live s ys" | "(a, bs) \<in> fallback_live sizes (space s)"
    using a by (auto simp: others_def)
  then show ?thesis
  proof cases
    case 3
    then obtain k where k: "sizes a = Some k" "load (space s) a k = Some bs" by (auto simp: fallback_live_def)
    then have "0 < k" "outside (xs @ (b, L) # ys) a k" using ok(2) by (auto simp: sizes_ok_def)
    then show ?thesis using load_length [OF k(2)] by (auto simp: outside_def)
  qed (use block_live_elsewhere [OF bo(1) ap(1)] block_live_elsewhere [OF bo(2) ap(2)] in blast)+
qed

lemma others_elsewhere:
  assumes "blocks_ok y s (xs @ (b, L) # ys)" "sizes_ok sizes (space s) (xs @ (b, L) # ys)" "(a, bs) \<in> others sizes s xs ys"
  shows "a < b_words b \<or> b_end b \<le> a"
  using others_apart [OF assms] by (cases bs) auto

lemma block_step_heap:
  assumes ok: "blocks_ok y s (xs @ (b, L) # ys)" "sizes_ok sizes (space s) (xs @ (b, L) # ys)"
    and step: "block_step (set (owned (xs @ (b, L) # ys))) s b L s' b' L'"
    and b': "block_ok (cells s') (space s') b' L'"
  shows "blocks_ok y s' (xs @ (b', L') # ys) \<and> sizes_ok sizes (space s') (xs @ (b', L') # ys) \<and>
    others sizes s' xs ys = others sizes s xs ys"
proof -
  let ?gs = "xs @ (b, L) # ys" and ?gs' = "xs @ (b', L') # ys"
  note so = ok(1) [unfolded blocks_ok_def]
  have st: "b_item b' = b_item b" "b_words b' = b_words b" "b_n_words b' = b_n_words b"
    "pools_own (pools s') (set (owned ?gs) - set L \<union> set L')" "(set (owned ?gs) - set L) \<inter> set L' = {}"
    "\<And>x. x \<in> set (owned ?gs) - set L \<Longrightarrow> cells s' x = cells s x"
    "\<And>x. x < b_words b \<or> b_end b \<le> x \<Longrightarrow> space s' x = space s x"
    using step by (auto simp: block_step_def)
  have be: "b_end b' = b_end b" using st(2,3) by (simp add: b_end_def)
  have ap: "block_apart b c" if "(c, K) \<in> set xs \<union> set ys" for c K
    using so that sorted_wrt_middle [of block_apart "map fst xs" b "map fst ys", OF block_apart_sym] by force
  have dist: "distinct (owned ?gs)" using so by simp
  have disj: "set L \<inter> set K = {}" if "(c, K) \<in> set xs \<union> set ys" for c K
    using dist that owned_member [of c K xs] owned_member [of c K ys]
    by (auto simp: owned_append owned_Cons)
  have cs: "cells s' x = cells s x" if "(c, K) \<in> set xs \<union> set ys" "x \<in> set K" for c K x
  proof (rule st(6))
    show "x \<in> set (owned ?gs) - set L"
      using that disj [OF that(1)] owned_member [of c K xs] owned_member [of c K ys]
      by (auto simp: owned_append owned_Cons)
  qed
  have ms: "space s' x = space s x" if "(c, K) \<in> set xs \<union> set ys" "b_words c \<le> x" "x < b_end c" for c K x
    using ap [OF that(1)] that(2,3) by (intro st(7)) (auto simp: block_apart_def)
  have fx: "\<forall>(b, L) \<in> set xs. block_ok (cells s') (space s') b L \<and> 8 * b_n_words b mod getpagesize y = 0"
    "block_live s' xs = block_live s xs"
  proof -
    have "\<forall>(b, L) \<in> set xs. block_ok (cells s) (space s) b L \<and> 8 * b_n_words b mod getpagesize y = 0"
      using so by simp
    note f = blocks_frame [of xs s y s', OF this cs [OF UnI1] ms [OF UnI1]]
    show "\<forall>(b, L) \<in> set xs. block_ok (cells s') (space s') b L \<and> 8 * b_n_words b mod getpagesize y = 0"
      "block_live s' xs = block_live s xs"
      by (rule f; assumption)+
  qed
  have fy: "\<forall>(b, L) \<in> set ys. block_ok (cells s') (space s') b L \<and> 8 * b_n_words b mod getpagesize y = 0"
    "block_live s' ys = block_live s ys"
  proof -
    have "\<forall>(b, L) \<in> set ys. block_ok (cells s) (space s) b L \<and> 8 * b_n_words b mod getpagesize y = 0"
      using so by simp
    note f = blocks_frame [of ys s y s', OF this cs [OF UnI2] ms [OF UnI2]]
    show "\<forall>(b, L) \<in> set ys. block_ok (cells s') (space s') b L \<and> 8 * b_n_words b mod getpagesize y = 0"
      "block_live s' ys = block_live s ys"
      by (rule f; assumption)+
  qed
  have L': "set L' \<inter> (set (owned ?gs) - set L) = {}" "distinct L'"
    using st(5) b' layout_distinct by (auto simp: block_ok_def block_base_def)
  have part: "set (owned ?gs) - set L = insert (b_item b) (set (owned xs) \<union> set (owned ys))"
    using dist by (auto simp: owned_append owned_Cons)
  have "distinct (owned ?gs')"
    using dist L' unfolding part by (auto simp: owned_append owned_Cons st(1))
  moreover have "set (owned ?gs') = set (owned ?gs) - set L \<union> set L'"
    unfolding part by (auto simp: owned_append owned_Cons st(1))
  moreover have "sorted_wrt block_apart (map fst ?gs')"
    using so by (simp add: sorted_wrt_append block_apart_def st(2,3) be)
  moreover have "8 * b_n_words b' mod getpagesize y = 0" using so st(3) by simp
  ultimately have "blocks_ok y s' ?gs'" using fx(1) fy(1) b' st(4) by (simp add: blocks_ok_def ball_Un)
  moreover have sz: "space s' x = space s x" if "sizes p = Some k" "p \<le> x" "x < p + k" for p k x
  proof (rule st(7))
    have "outside ?gs p k" using ok(2) that(1) by (auto simp: sizes_ok_def)
    then show "x < b_words b \<or> b_end b \<le> x" using that(2,3) by (auto simp: outside_def)
  qed
  have "sizes_ok sizes (space s') ?gs' \<and> fallback_live sizes (space s') = fallback_live sizes (space s)"
    using sizes_frame [OF ok(2), of "space s'" ?gs'] sz by (auto simp: outside_def st(2) be)
  ultimately show ?thesis using fx(2) fy(2) by (simp add: others_def)
qed


lemma contents_middle:
  "contents sizes s (xs @ (b, L) # ys) = live (cells s) (space s) (set L) \<union> others sizes s xs ys"
  by (auto simp: contents_def others_def block_live_append block_live_Cons)

section \<open>Allocating\<close>

definition gained ::
  "'f sys \<Rightarrow> (nat \<Rightarrow> nat option) \<Rightarrow> secure \<Rightarrow> tiled \<Rightarrow> nat \<Rightarrow> nat \<Rightarrow> secure \<Rightarrow> tiled \<Rightarrow> bool" where
  "gained y sizes s gs n r s' gs' \<longleftrightarrow> r \<noteq> 0 \<and> blocks_ok y s' gs' \<and> sizes_ok sizes (space s') gs' \<and>
     contents sizes s' gs' = insert (r, replicate n 0) (contents sizes s gs) \<and>
     (\<forall>bs. (r, bs) \<notin> contents sizes s gs)"

lemma alloc_one:
  assumes ok: "blocks_ok y s (xs @ (b, L) # ys)" "sizes_ok sizes (space s) (xs @ (b, L) # ys)"
    and E: "kernel_maps E" and n: "0 < n"
  shows "sec_alloc E s b tag n = Some (0, s, b) \<or> (\<exists>r s' b' L'. sec_alloc E s b tag n = Some (r, s', b') \<and>
    gained y sizes s (xs @ (b, L) # ys) n r s' (xs @ (b', L') # ys))"
proof -
  let ?gs = "xs @ (b, L) # ys"
  have bo: "block_ok (cells s) (space s) b L" and own: "pools_own (pools s) (set (owned ?gs))"
    using ok(1) by (auto simp: blocks_ok_def)
  have sub: "set L \<subseteq> set (owned ?gs)" by (rule owned_member [of b]) simp
  have "maps_fresh (E s) (pools s)" using E own by (auto simp: kernel_maps_def)
  from sec_alloc_spec [where E = E and tag = tag, OF bo own sub this n] show ?thesis
  proof
    assume "\<exists>r s' b' L'. sec_alloc E s b tag n = Some (r, s', b') \<and> allocated_in (set (owned ?gs)) s b L n r s' b' L'"
    then obtain r s' b' L' where a: "sec_alloc E s b tag n = Some (r, s', b')"
      "allocated_in (set (owned ?gs)) s b L n r s' b' L'" by blast
    then have al: "r \<noteq> 0" "block_ok (cells s') (space s') b' L'" "block_step (set (owned ?gs)) s b L s' b' L'"
      "live (cells s') (space s') (set L') = insert (r, replicate n 0) (live (cells s) (space s) (set L))"
      "\<forall>bs. (r, bs) \<notin> live (cells s) (space s) (set L)" by (simp_all add: allocated_in_def)
    note st = block_step_heap [OF ok al(3,2)]
    have "(r, replicate n 0) \<in> live (cells s') (space s') (set L')" using al(4) by simp
    from live_bounds [OF al(2) this] al(3) have "b_words b \<le> r" "r < b_end b"
      by (auto simp: block_step_def b_end_def)
    then have "(r, bs) \<notin> others sizes s xs ys" for bs using others_elsewhere [OF ok, of r bs] by auto
    then have "gained y sizes s ?gs n r s' (xs @ (b', L') # ys)"
      using al(1,4,5) st by (auto simp: gained_def contents_middle)
    then show ?thesis using a(1) by blast
  qed simp
qed

lemma alloc_in_blocks:
  assumes "blocks_ok y s (xs @ ys)" "sizes_ok sizes (space s) (xs @ ys)" "kernel_maps E" "0 < n"
  shows "alloc_in_blocks E s (map fst ys) tag n = Some (0, s, map fst ys) \<or>
    (\<exists>r s' ys'. alloc_in_blocks E s (map fst ys) tag n = Some (r, s', map fst ys') \<and>
      gained y sizes s (xs @ ys) n r s' (xs @ ys'))"
  using assms(1,2)
proof (induction ys arbitrary: xs)
  case (Cons g ys)
  obtain b L where g: "g = (b, L)" by (cases g)
  from alloc_one [where tag = tag, OF Cons.prems [unfolded g] assms(3,4)] show ?case
  proof
    assume a: "sec_alloc E s b tag n = Some (0, s, b)"
    have "alloc_in_blocks E s (map fst ys) tag n = Some (0, s, map fst ys) \<or>
      (\<exists>r s' ys'. alloc_in_blocks E s (map fst ys) tag n = Some (r, s', map fst ys') \<and>
        gained y sizes s ((xs @ [g]) @ ys) n r s' ((xs @ [g]) @ ys'))"
      using Cons.prems by (intro Cons.IH) simp_all
    then show ?case
    proof
      assume "\<exists>r s' ys'. alloc_in_blocks E s (map fst ys) tag n = Some (r, s', map fst ys') \<and>
        gained y sizes s ((xs @ [g]) @ ys) n r s' ((xs @ [g]) @ ys')"
      then obtain r s' ys' where r: "alloc_in_blocks E s (map fst ys) tag n = Some (r, s', map fst ys')"
        "gained y sizes s (xs @ g # ys) n r s' (xs @ g # ys')" by auto
      then have "alloc_in_blocks E s (map fst (g # ys)) tag n = Some (r, s', map fst (g # ys'))"
        using a g by simp
      then show ?thesis using r(2) by blast
    qed (use a g in simp)
  next
    assume "\<exists>r s' b' L'. sec_alloc E s b tag n = Some (r, s', b') \<and>
      gained y sizes s (xs @ (b, L) # ys) n r s' (xs @ (b', L') # ys)"
    then obtain r s' b' L' where a: "sec_alloc E s b tag n = Some (r, s', b')"
      "gained y sizes s (xs @ g # ys) n r s' (xs @ (b', L') # ys)" using g by blast
    then have "alloc_in_blocks E s (map fst (g # ys)) tag n = Some (r, s', map fst ((b', L') # ys))"
      using g by (simp add: gained_def)
    then show ?thesis using a(2) by blast
  qed
qed simp

section \<open>New blocks\<close>

text \<open>Rounding a size up to whole pages.\<close>

lemma page_round_unat:
  assumes "k < 64" "sz + 2 ^ k \<le> 2 ^ 64" "0 < sz"
  shows "unat (page_round (of_nat sz) (of_nat (2 ^ k))) = (sz + 2 ^ k - 1) div 2 ^ k * 2 ^ k"
proof -
  define N where "N = sz + 2 ^ k - 1"
  have N: "N < 2 ^ 64" using assms(2,3) by (simp add: N_def)
  let ?w = "of_nat N :: u64"
  have m: "(of_nat (2 ^ k) :: u64) - 1 = mask k" by (simp add: mask_eq_exp_minus_1)
  have "(of_nat sz :: u64) + of_nat (2 ^ k) - 1 = ?w"
    using assms(3) by (simp add: N_def of_nat_diff)
  then have "page_round (of_nat sz) (of_nat (2 ^ k)) = ?w AND NOT (mask k)"
    unfolding page_round_def using m by simp
  also have "\<dots> = push_bit k (drop_bit k ?w)" by (rule bit_eqI) (auto simp: bit_simps)
  finally have e: "page_round (of_nat sz) (of_nat (2 ^ k)) = push_bit k (drop_bit k ?w)" .
  have w: "unat ?w = N" using N by (simp add: unsigned_of_nat take_bit_nat_eq_self_iff)
  have "N div 2 ^ k * 2 ^ k \<le> N" by simp
  then have "N div 2 ^ k * 2 ^ k < 2 ^ 64" using N by (rule le_less_trans)
  then have lt: "push_bit k (N div 2 ^ k) < (2 :: nat) ^ 64" by (simp add: push_bit_eq_mult)
  have d: "unat (drop_bit k ?w) = N div 2 ^ k"
    unfolding unsigned_drop_bit_eq w using N by (simp add: take_bit_nat_eq_self drop_bit_eq_div)
  have "unat (push_bit k (drop_bit k ?w)) = N div 2 ^ k * 2 ^ k"
    unfolding unsigned_push_bit_eq d using lt by (simp add: take_bit_nat_eq_self push_bit_eq_mult)
  then show ?thesis unfolding e N_def [symmetric] .
qed

end
