(* ===== verification/SecureBlocks.thy ===== *)
theory SecureBlocks
  imports SecureHeap
begin

text \<open>The creation and the destruction of a block, in \<open>egg/egg-secure-memory.c\<close>.\<close>

section \<open>Steps outside of the blocks\<close>

lemma interval_apart:
  assumes "\<And>x. a \<le> x \<Longrightarrow> x < a + n \<Longrightarrow> m x = None" "readable m b k" "0 < k" "0 < n"
  shows "a + n \<le> b \<or> b + k \<le> a"
proof (rule ccontr)
  assume "\<not> ?thesis"
  then have x: "a \<le> max a b" "max a b < a + n" "b \<le> max a b" "max a b < b + k" using assms(3,4) by auto
  have "m (b + (max a b - b)) \<noteq> None" using assms(2) x(3,4) unfolding readable_def by (metis add.commute less_diff_conv2)
  then show False using assms(1) [OF x(1,2)] x(3) by simp
qed

lemma block_nonempty:
  assumes "block_ok cs m b L"
  shows "b_words b < b_end b" "readable m (b_words b) (b_end b - b_words b)"
proof -
  note ok = assms [unfolded block_ok_def block_base_def]
  obtain c K where L: "L = c # K" using ok by (cases L) auto
  obtain cl :: cell where "2 \<le> c_n_words cl" "layout cs m (b_words b + 8 * c_n_words cl) K (b_end b)"
    using ok unfolding L by (auto simp: cell_ok_def)
  then show "b_words b < b_end b" using layout_le by fastforce
  show "readable m (b_words b) (b_end b - b_words b)" using ok by (simp add: b_end_def)
qed

text \<open>A step that leaves the cells alone and the bytes that are mapped.\<close>

lemma secure_frame:
  assumes ok: "blocks_ok y s gs" "sizes_ok sizes (space s) gs"
    and c: "\<And>x. x \<in> set (owned gs) \<Longrightarrow> cells s' x = cells s x"
    and m: "\<And>x. space s x \<noteq> None \<Longrightarrow> space s' x = space s x"
    and p: "pools_own (pools s') (set (owned gs))"
  shows "blocks_ok y s' gs" "sizes_ok sizes (space s') gs" "contents sizes s' gs = contents sizes s gs"
proof -
  note so = ok(1) [unfolded blocks_ok_def]
  have all: "\<forall>(b, L) \<in> set gs. block_ok (cells s) (space s) b L \<and> 8 * b_n_words b mod getpagesize y = 0"
    using so by simp
  have mb: "space s' x = space s x" if "(b, L) \<in> set gs" "b_words b \<le> x" "x < b_end b" for b L x
  proof (rule m)
    have bo: "block_ok (cells s) (space s) b L" using all that(1) by auto
    have "x - b_words b < b_end b - b_words b" using that(2,3) by simp
    then have "space s (b_words b + (x - b_words b)) \<noteq> None"
      using block_nonempty(2) [OF bo] unfolding readable_def by blast
    then show "space s x \<noteq> None" using that(2) by simp
  qed
  have cb: "cells s' x = cells s x" if "(b, L) \<in> set gs" "x \<in> set L" for b L x
    using c owned_member [OF that(1)] that(2) by blast
  note f = blocks_frame [of gs s y s', OF all cb mb]
  show "blocks_ok y s' gs" using f(1) so p by (simp add: blocks_ok_def)
  have sz: "space s' x = space s x" if "sizes q = Some k" "q \<le> x" "x < q + k" for q k x
  proof (rule m)
    have "readable (space s) q k" using ok(2) that(1) by (auto simp: sizes_ok_def)
    then have "space s (q + (x - q)) \<noteq> None" using that(2,3) unfolding readable_def by (metis add.commute less_diff_conv2)
    then show "space s x \<noteq> None" using that(2) by simp
  qed
  show "sizes_ok sizes (space s') gs" using sizes_frame(1) [OF ok(2), of "space s'" gs] sz by blast
  have "fallback_live sizes (space s') = fallback_live sizes (space s)"
    using sizes_frame(2) [OF ok(2), of "space s'" gs] sz by blast
  then show "contents sizes s' gs = contents sizes s gs" using f(2) by (simp add: contents_def)
qed

lemma heap_frame:
  assumes ok: "heap_ok y h gs" and c: "cells s' = cells (sec h)"
    and m: "\<And>x. space (sec h) x \<noteq> None \<Longrightarrow> space s' x = space (sec h) x"
    and p: "pools_own (pools s') (set (owned gs))"
  shows "heap_ok y (set_sec s' h) gs \<and> allocations y (set_sec s' h) gs = allocations y h gs"
proof -
  have b: "blocks_ok y (sec h) gs" "sizes_ok (fallback_sizes y (other h)) (space (sec h)) gs"
    using ok by (simp_all add: heap_ok_def)
  have "cells s' x = cells (sec h) x" for x using c by simp
  note f = secure_frame [OF b this m p]
  show ?thesis using ok f by (simp add: heap_ok_def set_sec_def allocations_def)
qed

section \<open>Pages\<close>

text \<open>Pages that are acquired were not mapped before; and otherwise nothing that is mapped changes.\<close>

definition acquired :: "'f sys \<Rightarrow> secure \<Rightarrow> nat \<Rightarrow> nat \<Rightarrow> nat \<Rightarrow> secure \<Rightarrow> bool" where
  "acquired y s n p sz s' \<longleftrightarrow> n \<le> sz \<and> sz mod getpagesize y = 0 \<and> sz mod 8 = 0 \<and> 8 \<le> p \<and>
     (\<forall>x. p \<le> x \<and> x < p + sz \<longrightarrow> space s x = None) \<and> s' = s\<lparr>space := map_zero (space s) p sz\<rparr>"

lemma acquire_pages:
  assumes y: "kernel_ok y" and n: "0 < n" "n \<le> 2 ^ 31"
  shows "\<exists>p sz s'. sec_acquire_pages y s n = Some (p, sz, s') \<and>
    (if p = 0 then cells s' = cells s \<and> pools s' = pools s \<and> (\<forall>x. space s x \<noteq> None \<longrightarrow> space s' x = space s x)
     else acquired y s n p sz s')"
proof -
  obtain k where k: "3 \<le> k" "k < 32" "getpagesize y = 2 ^ k" using y by (auto simp: kernel_ok_def)
  define sz where "sz = unat (page_round (of_nat n) (of_nat (getpagesize y)))"
  define p where "p = mmap_secure y s sz"
  have "(2 :: nat) ^ k \<le> 2 ^ 31" using k(2) by (intro power_increasing) auto
  then have "n + 2 ^ k \<le> 2 ^ 64" using n(2) by simp
  then have szk: "sz = (n + 2 ^ k - 1) div 2 ^ k * 2 ^ k"
    unfolding sz_def k(3) using k(2) n(1) by (intro page_round_unat) auto
  have "n + 2 ^ k - 1 = (n + 2 ^ k - 1) div 2 ^ k * 2 ^ k + (n + 2 ^ k - 1) mod 2 ^ k"
    by (rule div_mult_mod_eq [symmetric])
  moreover have "(n + 2 ^ k - 1) mod 2 ^ k < 2 ^ k" by simp
  ultimately have "n + 2 ^ k - 1 < sz + 2 ^ k" unfolding szk by linarith
  then have ge: "n \<le> sz" by linarith
  have "(8 :: nat) dvd 2 ^ k" using le_imp_power_dvd [OF k(1), of "2 :: nat"] by simp
  then have mods: "sz mod getpagesize y = 0" "sz mod 8 = 0"
    unfolding k(3) by (simp_all add: szk mod_eq_0_iff_dvd)
  have fresh: "8 \<le> p" "\<And>x. p \<le> x \<Longrightarrow> x < p + sz \<Longrightarrow> space s x = None" if "p \<noteq> 0"
    using y that unfolding p_def kernel_ok_def by auto
  have start: "sec_acquire_pages y s n = (if p = 0 then Some (0, sz, s)
      else if mlock_ok y s p sz then Some (p, sz, s\<lparr>space := map_zero (space s) p sz\<rparr>)
      else Some (0, sz, munmap y (s\<lparr>space := map_zero (space s) p sz\<rparr>) p sz))"
    using n(1) by (simp add: sec_acquire_pages_def Let_def sz_def p_def)
  show ?thesis
  proof (cases "p = 0")
    case True
    then show ?thesis using start by simp
  next
    case False
    show ?thesis
    proof (cases "mlock_ok y s p sz")
      case True
      then show ?thesis
        using start False ge mods fresh [OF False] by (simp add: acquired_def)
    next
      case no: False
      let ?s = "munmap y (s\<lparr>space := map_zero (space s) p sz\<rparr>) p sz"
      have "space ?s x = space s x" if "space s x \<noteq> None" for x
        using that fresh(2) [OF False, of x] by (auto simp: munmap_def unmap_def map_zero_def)
      moreover have "cells ?s = cells s" "pools ?s = pools s" by (simp_all add: munmap_def)
      ultimately show ?thesis using start False no by simp
    qed
  qed
qed

section \<open>Creating a block\<close>

lemma new_block_ok:
  assumes acq: "acquired y s n p sz s1" "16384 \<le> n" and c: "0 < c" "c < size_limit"
  shows "\<exists>m cs. sec_write_guards ((cells s1)(c \<mapsto> blank_cell\<lparr>c_n_words := sz div 8, c_words := p\<rparr>)) (space s1) c = Some m \<and>
    sec_insert_cell_ring ((cells s1)(c \<mapsto> blank_cell\<lparr>c_n_words := sz div 8, c_words := p\<rparr>)) 0 c = Some (cs, c) \<and>
    (\<forall>x. x \<noteq> c \<longrightarrow> cs x = cells s1 x) \<and> (\<forall>x. \<not> (p \<le> x \<and> x < p + sz) \<longrightarrow> m x = space s x) \<and>
    block_ok cs m \<lparr>b_item = i, b_words = p, b_n_words = sz div 8, b_n_used = 0, b_used_cells = 0, b_unused_cells = c\<rparr> [c] \<and>
    live cs m {c} = {}"
proof -
  let ?cl = "blank_cell\<lparr>c_n_words := sz div 8, c_words := p\<rparr>"
  let ?cs = "(cells s1)(c \<mapsto> ?cl)"
  have a: "n \<le> sz" "sz mod 8 = 0" "8 \<le> p" "space s1 = map_zero (space s) p sz"
    using acq(1) by (simp_all add: acquired_def)
  have sz: "8 * (sz div 8) = sz" "2 \<le> sz div 8" using a(1,2) acq(2) by auto
  have map: "readable (space s1) p sz" by (simp add: readable_def a(4) map_zero_def)
  obtain m where m: "sec_write_guards ?cs (space s1) c = Some m" "wrote (space s1) m c ?cl"
    using write_guards [of ?cs c ?cl "space s1"] c sz map by auto
  have mx: "m x = space s x" if "\<not> (p \<le> x \<and> x < p + sz)" for x
  proof -
    define d where "d = sz div 8 - 2"
    have d: "sz div 8 = Suc (Suc d)" using sz(2) by (simp add: d_def)
    have d2: "sz = 8 * Suc (Suc d)" using sz(1) d by simp
    have "\<not> (c_words ?cl \<le> x \<and> x < c_words ?cl + 8)" "\<not> (last_word ?cl \<le> x \<and> x < last_word ?cl + 8)"
      using that unfolding d2 by (auto simp: last_word_def)
    then have "m x = space s1 x" using m(2) unfolding wrote_def by blast
    then show ?thesis using that by (simp add: a(4) map_zero_def)
  qed
  have "ring_of ?cs 0 {}" by (simp add: ring_of_def)
  from insert_cell_ring [OF this _ _ , of c ?cl] obtain cs where cs: "sec_insert_cell_ring ?cs 0 c = Some (cs, c)"
    "ring_of cs c {c}" "links_only ?cs cs {c}" using c(1) by (auto simp: blank_cell_def)
  have "map_option core (cs c) = map_option core (?cs c)" using cs(3) by (simp add: links_only_def)
  then obtain k where k: "cs c = Some k" "core k = core ?cl" by auto
  then have kf: "c_words k = p" "c_n_words k = sz div 8" "c_requested k = 0" "c_tag k = None"
    by (simp_all add: core_eq_iff blank_cell_def)
  have other: "cs x = cells s1 x" if "x \<noteq> c" for x using cs(3) that by (simp add: links_only_def)
  let ?b = "\<lparr>b_item = i, b_words = p, b_n_words = sz div 8, b_n_used = 0, b_used_cells = 0, b_unused_cells = c\<rparr>"
  have iu: "\<not> in_use cs c" using k(1) kf(3) by (simp add: in_use_def)
  have sets: "used_of cs [c] = {}" "free_of cs [c] = {c}" using iu by (auto simp: used_of_def free_of_def)
  have "last_word k = last_word ?cl" using kf by (simp add: last_word_def)
  then have "layout cs m p [c] (p + sz)"
    using c k(1) kf sz wrote_guards [OF m(2)] by (simp add: cell_ok_def)
  moreover have "readable m p sz" by (rule wrote_readable [OF m(2) map])
  ultimately have "block_ok cs m ?b [c]"
    using a(3) cs(2) sz(1) by (simp add: block_ok_def block_base_def block_rings_def b_end_def sets coalesced_def ring_of_def)
  then show ?thesis using m(1) cs(1) mx other live_free [OF iu] by blast
qed


lemma free_item_owned:
  assumes "pools_own (pools s) A" "i \<in> A"
  shows "\<exists>ps. free_item s i = Some (s\<lparr>pools := ps\<rparr>) \<and> pools_own ps (A - {i})"
  using items.give_back [OF assms] by (auto simp: free_item_def)

lemma set_sec_simps [simp]: "sec (set_sec s h) = s" "all_blocks (set_sec s h) = all_blocks h" "other (set_sec s h) = other h"
  by (simp_all add: set_sec_def)

lemma sizes_new_block:
  assumes "sizes_ok sizes m gs" "\<And>x. p \<le> x \<Longrightarrow> x < p + sz \<Longrightarrow> m x = None" "0 < sz" "b_words b = p" "b_end b = p + sz"
    "\<And>x. m x \<noteq> None \<Longrightarrow> m' x = m x"
  shows "sizes_ok sizes m' ((b, L) # gs)"
proof (rule sizes_frame(1) [OF assms(1)])
  fix q k
  assume q: "sizes q = Some k"
  then have r: "readable m q k" "0 < k" using assms(1) by (auto simp: sizes_ok_def)
  show "m' x = m x" if "q \<le> x" "x < q + k" for x
  proof (rule assms(6))
    have "m (q + (x - q)) \<noteq> None" using r(1) that unfolding readable_def by (metis add.commute less_diff_conv2)
    then show "m x \<noteq> None" using that(1) by simp
  qed
  show "outside ((b, L) # gs) q k" if "outside gs q k"
    using that interval_apart [OF assms(2) r assms(3)] assms(4,5) by (auto simp: outside_def)
qed

definition created :: "'f sys \<Rightarrow> 'f heap \<Rightarrow> tiled \<Rightarrow> nat \<Rightarrow> 'f heap \<Rightarrow> bool" where
  "created y h gs i h' \<longleftrightarrow> other h' = other h \<and>
     (if i = 0 then heap_ok y h' gs \<and> allocations y h' gs = allocations y h gs
      else \<exists>b c. heap_ok y h' ((b, [c]) # gs) \<and> allocations y h' ((b, [c]) # gs) = allocations y h gs)"

lemma block_created:
  assumes ok: "heap_ok y h gs" and s1: "cells s1 = cells (sec h)" "space s1 = space (sec h)"
      "pools_own (pools s1) (insert c (insert i (set (owned gs))))"
    and ci: "c \<noteq> i" "i \<notin> set (owned gs)" "c \<notin> set (owned gs)" "i \<noteq> 0"
    and acq: "acquired y s1 n p sz s2" "16384 \<le> n"
  shows "\<exists>m cs. sec_write_guards ((cells s2)(c \<mapsto> blank_cell\<lparr>c_n_words := sz div 8, c_words := p\<rparr>)) (space s2) c = Some m \<and>
    sec_insert_cell_ring ((cells s2)(c \<mapsto> blank_cell\<lparr>c_n_words := sz div 8, c_words := p\<rparr>)) 0 c = Some (cs, c) \<and>
    created y h gs i (h\<lparr>sec := s2\<lparr>cells := cs, space := m\<rparr>, all_blocks := \<lparr>b_item = i, b_words = p,
      b_n_words = sz div 8, b_n_used = 0, b_used_cells = 0, b_unused_cells = c\<rparr> # all_blocks h\<rparr>)"
proof -
  let ?b = "\<lparr>b_item = i, b_words = p, b_n_words = sz div 8, b_n_used = 0, b_used_cells = 0, b_unused_cells = c\<rparr>"
  have c: "0 < c" "c < size_limit" using items.owned_address [OF s1(3)] by auto
  obtain m cs where n: "sec_write_guards ((cells s2)(c \<mapsto> blank_cell\<lparr>c_n_words := sz div 8, c_words := p\<rparr>)) (space s2) c = Some m"
    "sec_insert_cell_ring ((cells s2)(c \<mapsto> blank_cell\<lparr>c_n_words := sz div 8, c_words := p\<rparr>)) 0 c = Some (cs, c)"
    "\<forall>x. x \<noteq> c \<longrightarrow> cs x = cells s2 x" "\<forall>x. \<not> (p \<le> x \<and> x < p + sz) \<longrightarrow> m x = space s1 x"
    "block_ok cs m ?b [c]" "live cs m {c} = {}"
    using new_block_ok [OF acq c, of i] by blast
  have a: "n \<le> sz" "sz mod getpagesize y = 0" "sz mod 8 = 0" "\<And>x. p \<le> x \<Longrightarrow> x < p + sz \<Longrightarrow> space s1 x = None"
    "cells s2 = cells s1" "pools s2 = pools s1" using acq(1) by (auto simp: acquired_def)
  have sz: "8 * (sz div 8) = sz" "0 < sz" using a(1,3) acq(2) by auto
  let ?s = "s2\<lparr>cells := cs, space := m\<rparr>"
  let ?h = "h\<lparr>sec := ?s, all_blocks := ?b # all_blocks h\<rparr>"
  have b: "blocks_ok y (sec h) gs" "sizes_ok (fallback_sizes y (other h)) (space (sec h)) gs"
    using ok by (simp_all add: heap_ok_def)
  have ap: "block_apart ?b d" if "(d, K) \<in> set gs" for d K
  proof -
    have bo: "block_ok (cells (sec h)) (space (sec h)) d K" using b(1) that by (auto simp: blocks_ok_def)
    have "p + sz \<le> b_words d \<or> b_words d + (b_end d - b_words d) \<le> p"
      by (rule interval_apart [of p sz "space s1"]) (use a(4) sz(2) block_nonempty [OF bo] s1(2) in auto)
    then show ?thesis using block_nonempty(1) [OF bo] sz(1) by (auto simp: block_apart_def b_end_def)
  qed
  have mm: "m x = space (sec h) x" if "space (sec h) x \<noteq> None" for x
    using n(4) a(4) that s1(2) by metis
  let ?frame = "?s\<lparr>pools := pools (sec h)\<rparr>"
  have own0: "pools_own (pools ?frame) (set (owned gs))" using b(1) by (simp add: blocks_ok_def)
  have cc: "cells ?frame x = cells (sec h) x" if "x \<in> set (owned gs)" for x
    using n(3) that ci(3) a(5) s1(1) by auto
  note f = secure_frame [of y "sec h" gs "fallback_sizes y (other h)" ?frame, OF b cc _ own0]
  have f': "blocks_ok y ?frame gs" "contents (fallback_sizes y (other h)) ?frame gs = contents (fallback_sizes y (other h)) (sec h) gs"
    using f mm by simp_all
  have "set (owned ((?b, [c]) # gs)) = insert c (insert i (set (owned gs)))" by (auto simp: owned_Cons)
  then have own: "pools_own (pools ?s) (set (owned ((?b, [c]) # gs)))" using s1(3) a(6) by simp
  have "distinct (owned ((?b, [c]) # gs))" using b(1) ci by (simp add: blocks_ok_def owned_Cons)
  moreover have "\<forall>d \<in> set (map fst gs). block_apart ?b d" using ap by auto
  ultimately have "blocks_ok y ?s ((?b, [c]) # gs)"
    using f'(1) n(5) a(2) sz(1) own by (simp add: blocks_ok_def)
  moreover have "sizes_ok (fallback_sizes y (other h)) m ((?b, [c]) # gs)"
    by (rule sizes_new_block [OF b(2), of p sz]) (use a(4) s1(2) sz mm in \<open>auto simp: b_end_def\<close>)
  ultimately have "heap_ok y ?h ((?b, [c]) # gs)" using ok by (simp add: heap_ok_def)
  moreover have "allocations y ?h ((?b, [c]) # gs) = allocations y h gs"
    using f'(2) n(6) by (simp add: allocations_def contents_def block_live_def)
  ultimately have "created y h gs i ?h" using ci(4) by (auto simp: created_def)
  then show ?thesis using n(1,2) by blast
qed

lemma block_create:
  assumes ok: "heap_ok y h gs" and y: "kernel_ok y" and n: "0 < n" "n \<le> 2 ^ 31"
  shows "\<exists>i h'. sec_block_create y h n = Some (i, h') \<and> created y h gs i h'"
proof (cases "force_fallback y")
  case True
  then show ?thesis using ok by (simp add: sec_block_create_def created_def)
next
  case False
  let ?s = "sec h" and ?O = "set (owned gs)"
  have own: "pools_own (pools ?s) ?O" using ok by (simp add: heap_ok_def blocks_ok_def)
  have km: "maps_fresh (kernel y s) (pools s)" if "pools_own (pools s) A" for s A
    using y that by (auto simp: kernel_ok_def kernel_maps_def)
  have none: "created y h gs 0 (set_sec s' h)" if "cells s' = cells ?s" "pools_own (pools s') ?O"
    "\<And>x. space ?s x \<noteq> None \<Longrightarrow> space s' x = space ?s x" for s'
    using heap_frame [OF ok that(1,3,2)] by (simp add: created_def)
  show ?thesis
    using km [OF own] own
  proof (cases rule: items.take_cases)
    case no_memory
    then show ?thesis using False none [of ?s] own by (simp add: sec_block_create_def)
  next
    case (taken i ps1)
    let ?s1 = "?s\<lparr>pools := ps1\<rparr>"
    have own1: "pools_own (pools ?s1) (insert i ?O)" using taken(4) by simp
    show ?thesis
      using km [OF own1] own1
    proof (cases rule: items.take_cases)
      case no_memory
      obtain ps where "free_item ?s1 i = Some (?s1\<lparr>pools := ps\<rparr>)" "pools_own ps (insert i ?O - {i})"
        using free_item_owned [OF own1, of i] by auto
      then show ?thesis using False taken no_memory none [of "?s1\<lparr>pools := ps\<rparr>"] by (simp add: sec_block_create_def)
    next
      case t2: (taken c ps2)
      let ?s2 = "?s1\<lparr>pools := ps2\<rparr>"
      have own2: "pools_own (pools ?s2) (insert c (insert i ?O))" using t2(4) by simp
      define k where "k = (if n < DEFAULT_BLOCK_SIZE then DEFAULT_BLOCK_SIZE else n)"
      have k: "16384 \<le> k" "0 < k" "k \<le> 2 ^ 31" using n by (auto simp: k_def DEFAULT_BLOCK_SIZE_def)
      obtain p sz s3 where a: "sec_acquire_pages y ?s2 k = Some (p, sz, s3)"
        "if p = 0 then cells s3 = cells ?s2 \<and> pools s3 = pools ?s2 \<and> (\<forall>x. space ?s2 x \<noteq> None \<longrightarrow> space s3 x = space ?s2 x)
         else acquired y ?s2 k p sz s3" using acquire_pages [OF y k(2,3), of ?s2] by blast
      show ?thesis
      proof (cases "p = 0")
        case True
        then have s3: "cells s3 = cells ?s" "pools s3 = ps2" "\<And>x. space ?s x \<noteq> None \<Longrightarrow> space s3 x = space ?s x"
          using a(2) by auto
        obtain ps3 where p3: "free_item s3 i = Some (s3\<lparr>pools := ps3\<rparr>)" "pools_own ps3 (insert c (insert i ?O) - {i})"
          using free_item_owned [of s3 "insert c (insert i ?O)" i] own2 s3(2) by auto
        obtain ps4 where p4: "free_item (s3\<lparr>pools := ps3\<rparr>) c = Some (s3\<lparr>pools := ps4\<rparr>)"
          "pools_own ps4 (insert c (insert i ?O) - {i} - {c})"
          using free_item_owned [of "s3\<lparr>pools := ps3\<rparr>" "insert c (insert i ?O) - {i}" c] p3(2) t2(3) by auto
        have "insert c (insert i ?O) - {i} - {c} = ?O" using taken(3) t2(3) by auto
        then have "created y h gs 0 (set_sec (s3\<lparr>pools := ps4\<rparr>) h)"
          using none [of "s3\<lparr>pools := ps4\<rparr>"] p4(2) s3 by simp
        then show ?thesis
          using False taken(1,2) t2(1,2) a(1) True p3(1) p4(1) by (simp add: sec_block_create_def k_def Let_def)
      next
        case p: False
        then have acq: "acquired y ?s2 k p sz s3" using a(2) by simp
        have ci: "c \<noteq> i" "i \<notin> ?O" "c \<notin> ?O" "i \<noteq> 0" using taken(2,3) t2(3) by auto
        have sc: "cells ?s2 = cells ?s" "space ?s2 = space ?s" by simp_all
        from block_created [OF ok sc own2 ci acq k(1)]
        show ?thesis
          using False taken(1,2) t2(1,2) a(1) p by (fastforce simp: sec_block_create_def k_def [symmetric] Let_def)
      qed
    qed
  qed
qed


section \<open>Destroying a block\<close>

text \<open>Without allocations there is one cell, since unused cells do not lie side by side.\<close>

lemma unused_block:
  assumes ok: "block_ok cs m b L" and unused: "b_n_used b = 0"
  shows "\<exists>c. L = [c] \<and> ring_of cs (b_unused_cells b) {c} \<and> b_used_cells b = 0 \<and> live cs m (set L) = {}"
proof -
  note ok' = ok [unfolded block_ok_def block_rings_def block_base_def]
  have "card (used_of cs L) = 0" using ok' unused by simp
  then have none: "used_of cs L = {}" using finite_used [of cs L] by simp
  then have iu: "\<not> in_use cs c" if "c \<in> set L" for c using that by (auto simp: used_of_def)
  obtain c K where L: "L = c # K" using ok' by (cases L) auto
  have "K = []"
  proof (cases K)
    case (Cons d K')
    then have "in_use cs c \<or> in_use cs d" using ok' L by (simp add: coalesced_def)
    then show ?thesis using iu L Cons by auto
  qed
  moreover have "free_of cs L = set L" using iu by (auto simp: free_of_def)
  moreover have "b_used_cells b = 0" using ok' none ring_zero by metis
  moreover have "live cs m (set L) = {}" using iu by (auto simp: live_def in_use_def)
  ultimately show ?thesis using ok' L by auto
qed

lemma remove_block_middle:
  "b_item b \<notin> b_item ` set xs \<Longrightarrow> remove_block (b_item b) (xs @ b # ys) = Some (xs @ ys)"
  by (induction xs) auto

lemma items_owned: "(b, L) \<in> set gs \<Longrightarrow> b_item b \<in> set (owned gs)"
  by (force simp: owned_def)

lemma free_cells_one:
  assumes r: "ring_of (cells s) h {c}" and own: "pools_own (pools s) A" "c \<in> A"
  shows "\<exists>s'. sec_free_cells s h = Some s' \<and> pools_own (pools s') (A - {c}) \<and> space s' = space s \<and>
    (\<forall>x. x \<noteq> c \<longrightarrow> cells s' x = cells s x)"
proof -
  have h: "h = c" "c \<noteq> 0" using r by (auto simp: ring_of_def split: if_splits)
  obtain cs' h' cl where rm: "sec_remove_cell_ring (cells s) h c = Some (cs', h')" "ring_of cs' h' ({c} - {c})"
    "links_only (cells s) cs' {c}" using remove_cell_ring [OF r, of c] by auto
  then have h': "h' = 0" by (simp add: ring_of_def)
  obtain ps where ps: "pool_free (pools s) c = Some ps" "pools_own ps (A - {c})" using items.give_back [OF own] by auto
  let ?s = "s\<lparr>pools := ps, cells := cs'(c := None)\<rparr>"
  have "free_cell (s\<lparr>cells := cs'\<rparr>) c = Some ?s" using ps(1) by (simp add: free_cell_def)
  then have "sec_free_cells s h = sec_free_cells ?s 0"
    using h rm(1) h' by (subst sec_free_cells.simps) simp
  also have "\<dots> = Some ?s" by (subst sec_free_cells.simps) simp
  finally show ?thesis using ps(2) rm(3) by (auto simp: links_only_def)
qed

lemma block_destroy:
  assumes ok: "heap_ok y h (xs @ (b, L) # ys)" and unused: "b_n_used b = 0"
  shows "\<exists>h'. sec_block_destroy y h b = Some h' \<and> heap_ok y h' (xs @ ys) \<and> other h' = other h \<and>
    allocations y h' (xs @ ys) = allocations y h (xs @ (b, L) # ys)"
proof -
  let ?gs = "xs @ (b, L) # ys" and ?s = "sec h" and ?z = "fallback_sizes y (other h)"
  have so: "blocks_ok y ?s ?gs" "sizes_ok ?z (space ?s) ?gs" "all_blocks h = map fst ?gs"
    using ok by (simp_all add: heap_ok_def)
  have own: "pools_own (pools ?s) (set (owned ?gs))" and dist: "distinct (owned ?gs)" and bo: "block_ok (cells ?s) (space ?s) b L"
    and page: "8 * b_n_words b mod getpagesize y = 0" and srt: "sorted_wrt block_apart (map fst ?gs)"
    using so(1) by (auto simp: blocks_ok_def)
  obtain c where c: "L = [c]" "ring_of (cells ?s) (b_unused_cells b) {c}" "b_used_cells b = 0"
    "live (cells ?s) (space ?s) (set L) = {}" using unused_block [OF bo unused] by blast
  have nw: "b_words b \<noteq> 0" using bo by (simp add: block_ok_def block_base_def)
  have cin: "c \<in> set (owned ?gs)" "b_item b \<in> set (owned ?gs) - {c}"
    using dist unfolding c(1) by (auto simp: owned_append owned_Cons)
  obtain s1 where s1: "sec_free_cells ?s (b_unused_cells b) = Some s1" "pools_own (pools s1) (set (owned ?gs) - {c})"
    "space s1 = space ?s" "\<forall>x. x \<noteq> c \<longrightarrow> cells s1 x = cells ?s x"
    using free_cells_one [OF c(2) own cin(1)] by blast
  let ?s2 = "munmap y s1 (b_words b) (b_n_words b * 8)"
  have s2: "cells ?s2 = cells s1" "pools ?s2 = pools s1" by (simp_all add: munmap_def)
  have sp: "space ?s2 x = space ?s x" if "x < b_words b \<or> b_end b \<le> x" for x
    using that s1(3) by (auto simp: munmap_def unmap_def b_end_def)
  have rel: "sec_release_pages y s1 (b_words b) (b_n_words b * 8) = Some ?s2"
    using nw page by (simp add: sec_release_pages_def mult.commute)
  have own2: "pools_own (pools ?s2) (set (owned ?gs) - {c})" using s1(2) s2(2) by simp
  obtain ps where ps: "free_item ?s2 (b_item b) = Some (?s2\<lparr>pools := ps\<rparr>)"
    "pools_own ps (set (owned ?gs) - {c} - {b_item b})" using free_item_owned [OF own2 cin(2)] by blast
  have nob: "b_item b \<notin> b_item ` set (map fst xs)"
    using dist items_owned [of _ _ xs] by (fastforce simp: owned_append owned_Cons)
  let ?t = "?s2\<lparr>pools := ps\<rparr>" and ?h = "h\<lparr>sec := ?s2\<lparr>pools := ps\<rparr>, all_blocks := map fst (xs @ ys)\<rparr>"
  have run: "sec_block_destroy y h b = Some ?h"
    using nw unused remove_block_middle [OF nob, of "map fst ys"] so(3) c(3) s1(1) rel ps(1)
    by (simp add: sec_block_destroy_def)
  have ap: "\<forall>d \<in> set (map fst xs) \<union> set (map fst ys). block_apart b d" "sorted_wrt block_apart (map fst xs @ map fst ys)"
    using srt sorted_wrt_middle [of block_apart "map fst xs" b "map fst ys", OF block_apart_sym] by simp_all
  have disj: "c \<notin> set (owned xs) \<union> set (owned ys)" using dist unfolding c(1) by (auto simp: owned_append owned_Cons)
  have rest: "set (owned ?gs) - {c} - {b_item b} = set (owned (xs @ ys))"
    using dist unfolding c(1) by (auto simp: owned_append owned_Cons)
  have bl: "\<forall>(b, L) \<in> set (xs @ ys). block_ok (cells ?s) (space ?s) b L \<and> 8 * b_n_words b mod getpagesize y = 0"
    using so(1) by (auto simp: blocks_ok_def)
  have cc: "cells ?t x = cells ?s x" if "(d, K) \<in> set (xs @ ys)" "x \<in> set K" for d K x
  proof -
    have "x \<in> set (owned (xs @ ys))" using owned_member [OF that(1)] that(2) by blast
    then have "x \<noteq> c" using disj by (auto simp: owned_append)
    then show ?thesis using s1(4) s2(1) by simp
  qed
  have mm: "space ?t x = space ?s x" if "(d, K) \<in> set (xs @ ys)" "b_words d \<le> x" "x < b_end d" for d K x
  proof -
    have "d \<in> set (map fst xs) \<union> set (map fst ys)" using that(1) by force
    then have "block_apart b d" using ap(1) by blast
    then have "space ?s2 x = space ?s x" by (intro sp) (use that(2,3) in \<open>auto simp: block_apart_def\<close>)
    then show ?thesis by simp
  qed
  note f = blocks_frame [of "xs @ ys" ?s y ?t, OF bl cc mm]
  have dd: "distinct (owned (xs @ ys))" using dist by (auto simp: owned_append owned_Cons)
  have fr: "\<forall>(b, L) \<in> set (xs @ ys). block_ok (cells ?t) (space ?t) b L \<and> 8 * b_n_words b mod getpagesize y = 0"
    "block_live ?t (xs @ ys) = block_live ?s (xs @ ys)"
    by (rule f; assumption)+
  have "blocks_ok y ?t (xs @ ys)"
    using fr(1) ap(2) dd ps(2) unfolding rest by (simp add: blocks_ok_def)
  moreover have zz: "space ?t x = space ?s x" if "?z p = Some k" "p \<le> x" "x < p + k" for p k x
  proof -
    have "outside ?gs p k" using so(2) that(1) by (auto simp: sizes_ok_def)
    then have "space ?s2 x = space ?s x" by (intro sp) (use that(2,3) in \<open>auto simp: outside_def\<close>)
    then show ?thesis by simp
  qed
  have "sizes_ok ?z (space ?t) (xs @ ys)" "fallback_live ?z (space ?t) = fallback_live ?z (space ?s)"
    by (rule sizes_frame [OF so(2), of _ "xs @ ys"]; use zz in \<open>auto simp: outside_def\<close>)+
  ultimately have "heap_ok y ?h (xs @ ys)" "allocations y ?h (xs @ ys) = allocations y h ?gs"
    using ok fr(2) c(4) \<open>fallback_live ?z (space ?t) = fallback_live ?z (space ?s)\<close>
    by (simp_all add: heap_ok_def allocations_def contents_def block_live_append block_live_Cons)
  then show ?thesis using run by simp
qed

end
