(* ===== verification/SecurePublic.thy ===== *)
theory SecurePublic
  imports SecureBlocks
begin

text \<open>
  The public functions of \<open>egg/egg-secure-memory.c\<close> keep the invariant and do to the allocations
  what their names say. The contract is a locale over the allocations as a map from addresses to
  contents, which is proved of the functions of the model.
\<close>

section \<open>The fallback allocator\<close>

lemma interval_disjoint:
  assumes "\<And>x. a \<le> x \<Longrightarrow> x < a + n \<Longrightarrow> b \<le> x \<Longrightarrow> x < b + k \<Longrightarrow> False" "0 < n" "0 < k"
  shows "a + n \<le> (b :: nat) \<or> b + k \<le> a"
proof (rule ccontr)
  assume "\<not> ?thesis"
  then have "a \<le> max a b" "max a b < a + n" "b \<le> max a b" "max a b < b + k" using assms(2,3) by auto
  then show False by (rule assms(1))
qed

lemma mapped_byte: "readable m p k \<Longrightarrow> p \<le> x \<Longrightarrow> x < p + k \<Longrightarrow> m x \<noteq> None"
  unfolding readable_def by (metis le_add_diff_inverse nat_add_left_cancel_less)

lemma blocks_space:
  assumes ok: "blocks_ok y s gs" and m: "\<And>b L x. (b, L) \<in> set gs \<Longrightarrow> b_words b \<le> x \<Longrightarrow> x < b_end b \<Longrightarrow> m' x = space s x"
  shows "blocks_ok y (s\<lparr>space := m'\<rparr>) gs" "block_live (s\<lparr>space := m'\<rparr>) gs = block_live s gs"
proof -
  have bl: "\<forall>(b, L) \<in> set gs. block_ok (cells s) (space s) b L \<and> 8 * b_n_words b mod getpagesize y = 0"
    using ok by (simp add: blocks_ok_def)
  have "block_live (s\<lparr>space := m'\<rparr>) gs = block_live s gs"
    "\<forall>(b, L) \<in> set gs. block_ok (cells (s\<lparr>space := m'\<rparr>)) (space (s\<lparr>space := m'\<rparr>)) b L \<and> 8 * b_n_words b mod getpagesize y = 0"
    by (rule blocks_frame [OF bl]; use m in simp)+
  then show "blocks_ok y (s\<lparr>space := m'\<rparr>) gs" "block_live (s\<lparr>space := m'\<rparr>) gs = block_live s gs"
    using ok by (simp_all add: blocks_ok_def)
qed

lemma block_mapped:
  assumes "blocks_ok y s gs" "(b, L) \<in> set gs" "b_words b \<le> x" "x < b_end b"
  shows "space s x \<noteq> None"
proof -
  have bo: "block_ok (cells s) (space s) b L" using assms(1,2) by (auto simp: blocks_ok_def)
  show ?thesis by (rule mapped_byte [OF block_nonempty(2) [OF bo] assms(3)]) (use assms(4) block_nonempty(1) [OF bo] in simp)
qed

text \<open>What an allocation, or a move of one from \<open>p\<close> to \<open>r\<close>, does.\<close>

lemma fallback_moved:
  assumes ok: "blocks_ok y s gs" "sizes_ok sizes (space s) gs"
    and p: "sizes p = Some k \<or> sizes p = None \<and> k = 0"
    and r: "r \<noteq> 0" "0 < n" "readable m' r n" "\<forall>x. r \<le> x \<and> x < r + n \<longrightarrow> p \<le> x \<and> x < p + k \<or> space s x = None"
      "\<forall>x. \<not> (r \<le> x \<and> x < r + n) \<and> \<not> (p \<le> x \<and> x < p + k) \<longrightarrow> m' x = space s x"
  shows "blocks_ok y (s\<lparr>space := m'\<rparr>) gs" "block_live (s\<lparr>space := m'\<rparr>) gs = block_live s gs"
    "sizes_ok (sizes(p := None, r \<mapsto> n)) m' gs" "r = p \<or> sizes r = None" "(r, bs) \<notin> block_live s gs"
    "load m' r n = Some bs \<Longrightarrow> fallback_live (sizes(p := None, r \<mapsto> n)) m' =
      insert (r, bs) {(q, c) \<in> fallback_live sizes (space s). q \<noteq> p}"
proof -
  have keep: "m' x = space s x" "\<not> (r \<le> x \<and> x < r + n)" if "space s x \<noteq> None" "\<not> (p \<le> x \<and> x < p + k)" for x
    using r(4,5) that by auto
  have bp: "\<not> (p \<le> x \<and> x < p + k)" if "(b, L) \<in> set gs" "b_words b \<le> x" "x < b_end b" for b L x
  proof
    assume x: "p \<le> x \<and> x < p + k"
    then have "sizes p = Some k" using p by auto
    then have "outside gs p k" using ok(2) by (auto simp: sizes_ok_def)
    then show False using that x by (auto simp: outside_def)
  qed
  have byte: "m' x = space s x" "\<not> (r \<le> x \<and> x < r + n)" if "(b, L) \<in> set gs" "b_words b \<le> x" "x < b_end b" for b L x
    by (rule keep [OF block_mapped [OF ok(1) that] bp [OF that]])+
  show "blocks_ok y (s\<lparr>space := m'\<rparr>) gs" "block_live (s\<lparr>space := m'\<rparr>) gs = block_live s gs"
    by (rule blocks_space [OF ok(1) byte(1)]; assumption)+
  have q: "m' x = space s x \<and> \<not> (r \<le> x \<and> x < r + n)" if "sizes q = Some j" "q \<noteq> p" "q \<le> x" "x < q + j" for q j x
  proof -
    have "readable (space s) q j" using ok(2) that(1) by (auto simp: sizes_ok_def)
    then have "space s x \<noteq> None" by (rule mapped_byte [OF _ that(3,4)])
    moreover have "\<not> (p \<le> x \<and> x < p + k)"
    proof
      assume x: "p \<le> x \<and> x < p + k"
      then have "sizes p = Some k" using p by auto
      then have "p + k \<le> q \<or> q + j \<le> p" using ok(2) that(1,2) unfolding sizes_ok_def by blast
      then show False using that(3,4) x by auto
    qed
    ultimately show ?thesis by (intro conjI; rule keep)
  qed
  have out: "outside gs r n"
    unfolding outside_def
  proof (clarify, rule ccontr)
    fix b L
    assume b: "(b, L) \<in> set gs" "\<not> b_end b \<le> r" "\<not> r + n \<le> b_words b"
    have "block_ok (cells s) (space s) b L" using ok(1) b(1) by (auto simp: blocks_ok_def)
    then have "b_words b < b_end b" by (rule block_nonempty)
    then show False using byte(2) [OF b(1), of "max r (b_words b)"] b(2,3) r(2) by simp
  qed
  have rq: "r + n \<le> q \<or> q + j \<le> r" if "sizes q = Some j" "q \<noteq> p" for q j
    by (rule interval_disjoint) (use q [OF that] r(2) ok(2) that(1) in \<open>auto simp: sizes_ok_def\<close>)
  have nr: "sizes r = None" if "r \<noteq> p"
  proof (rule ccontr)
    assume "sizes r \<noteq> None"
    then obtain j where j: "sizes r = Some j" by blast
    then have "0 < j" using ok(2) by (auto simp: sizes_ok_def)
    then show False using rq [OF j that] r(2) by simp
  qed
  show "r = p \<or> sizes r = None" by (cases "r = p") (use nr in simp_all)
  have same: "readable m' q j = readable (space s) q j" "load m' q j = load (space s) q j" if "sizes q = Some j" "q \<noteq> p" for q j
    using q [OF that] by (auto intro!: readable_cong load_cong)
  show "sizes_ok (sizes(p := None, r \<mapsto> n)) m' gs"
    unfolding sizes_ok_def
  proof (intro conjI allI impI)
    fix q j q' j'
    assume a: "(sizes(p := None, r \<mapsto> n)) q = Some j \<and> (sizes(p := None, r \<mapsto> n)) q' = Some j' \<and> q \<noteq> q'"
    show "q + j \<le> q' \<or> q' + j' \<le> q"
    proof (cases "q = r \<or> q' = r")
      case True
      then show ?thesis using a rq by (auto split: if_splits)
    next
      case False
      then have "sizes q = Some j" "sizes q' = Some j'" using a by (auto split: if_splits)
      then show ?thesis using ok(2) a unfolding sizes_ok_def by blast
    qed
  next
    fix q j
    assume a: "(sizes(p := None, r \<mapsto> n)) q = Some j"
    consider "q = r" "j = n" | "q \<noteq> r" "q \<noteq> p" "sizes q = Some j" using a by (auto split: if_splits)
    then have "0 < q \<and> 0 < j \<and> readable m' q j \<and> outside gs q j"
      by cases (use r(1-3) out same(1) ok(2) in \<open>auto simp: sizes_ok_def\<close>)
    then show "0 < q" "0 < j" "readable m' q j" "outside gs q j" by simp_all
  qed
  show "(r, bs) \<notin> block_live s gs"
  proof
    assume "(r, bs) \<in> block_live s gs"
    then obtain b L where b: "(b, L) \<in> set gs" "(r, bs) \<in> live (cells s) (space s) (set L)" by (auto simp: block_live_def)
    have "block_ok (cells s) (space s) b L" using ok(1) b(1) by (auto simp: blocks_ok_def)
    from live_bounds [OF this b(2)] show False using out b(1) r(2) by (auto simp: outside_def)
  qed
  show "fallback_live (sizes(p := None, r \<mapsto> n)) m' = insert (r, bs) {(q, c) \<in> fallback_live sizes (space s). q \<noteq> p}"
    if "load m' r n = Some bs"
    using that nr same(2) by (auto simp: fallback_live_def split: if_splits)
qed

lemma fallback_removed:
  assumes ok: "blocks_ok y s gs" "sizes_ok sizes (space s) gs" and p: "sizes p = Some k"
    and m: "\<And>x. \<not> (p \<le> x \<and> x < p + k) \<Longrightarrow> m' x = space s x"
  shows "blocks_ok y (s\<lparr>space := m'\<rparr>) gs" "block_live (s\<lparr>space := m'\<rparr>) gs = block_live s gs"
    "sizes_ok (sizes(p := None)) m' gs"
    "fallback_live (sizes(p := None)) m' = {(q, c) \<in> fallback_live sizes (space s). q \<noteq> p}"
proof -
  have out: "outside gs p k" using ok(2) p by (auto simp: sizes_ok_def)
  have byte: "m' x = space s x" if "(b, L) \<in> set gs" "b_words b \<le> x" "x < b_end b" for b L x
    using out that by (intro m) (auto simp: outside_def)
  show "blocks_ok y (s\<lparr>space := m'\<rparr>) gs" "block_live (s\<lparr>space := m'\<rparr>) gs = block_live s gs"
    by (rule blocks_space [OF ok(1) byte]; assumption)+
  have "m' x = space s x" if "sizes q = Some j" "q \<noteq> p" "q \<le> x" "x < q + j" for q j x
  proof -
    have "p + k \<le> q \<or> q + j \<le> p" using ok(2) p that(1,2) unfolding sizes_ok_def by blast
    then show ?thesis using that(3,4) by (intro m) auto
  qed
  then have same: "readable m' q j = readable (space s) q j" "load m' q j = load (space s) q j" if "sizes q = Some j" "q \<noteq> p" for q j
    using that by (auto intro!: readable_cong load_cong)
  show "sizes_ok (sizes(p := None)) m' gs" using ok(2) same(1) by (auto simp: sizes_ok_def)
  show "fallback_live (sizes(p := None)) m' = {(q, c) \<in> fallback_live sizes (space s). q \<noteq> p}"
    using same(2) by (auto simp: fallback_live_def split: if_splits)
qed


section \<open>Where an allocation is\<close>

lemma block_of_Some: "block_of bs a = Some (xs, b, ys) \<Longrightarrow> bs = xs @ b # ys \<and> sec_is_valid_word b a"
  by (induction bs arbitrary: xs) (auto split: if_splits)

lemma block_of_None: "block_of bs a = None \<longleftrightarrow> (\<forall>b \<in> set bs. \<not> sec_is_valid_word b a)"
  by (induction bs) auto

lemma live_single:
  assumes "block_ok cs m b L" "(a, bs) \<in> live cs m (set L)" "(a, bs') \<in> live cs m (set L)"
  shows "bs = bs'" "load m a (length bs) = Some bs"
proof -
  have lay: "layout cs m (b_words b) L (b_end b)" using assms(1) by (simp add: block_ok_def block_base_def)
  obtain c cl where c: "c \<in> set L" "cs c = Some cl" "a = c_words cl + 8" "load m a (c_requested cl) = Some bs"
    using assms(2) by (auto simp: live_def)
  obtain d dl where d: "d \<in> set L" "cs d = Some dl" "a = c_words dl + 8" "load m a (c_requested dl) = Some bs'"
    using assms(3) by (auto simp: live_def)
  have "d = c" using layout_unique [OF lay d(1) c(1) d(2) c(2)] c(3) d(3) by simp
  then have "dl = cl" using c(2) d(2) by simp
  then show "bs = bs'" using c(4) d(4) by simp
  show "load m a (length bs) = Some bs" using c(4) load_length [OF c(4)] by simp
qed

lemma not_in_block:
  assumes ok: "heap_ok y h gs" and none: "block_of (all_blocks h) a = None"
  shows "(a, bs) \<notin> block_live (sec h) gs"
proof
  assume "(a, bs) \<in> block_live (sec h) gs"
  then obtain b L where b: "(b, L) \<in> set gs" "(a, bs) \<in> live (cells (sec h)) (space (sec h)) (set L)"
    by (auto simp: block_live_def)
  have "block_ok (cells (sec h)) (space (sec h)) b L" using ok b(1) by (auto simp: heap_ok_def blocks_ok_def)
  from live_bounds [OF this b(2)] have "sec_is_valid_word b a" by (simp add: sec_is_valid_word_def b_end_def)
  moreover have "b \<in> set (all_blocks h)" using ok b(1) by (force simp: heap_ok_def)
  ultimately show False using none block_of_None by blast
qed

text \<open>An allocation is in a block, where it is found, or it belongs to the fallback allocator.\<close>

lemma allocation_cases:
  assumes ok: "heap_ok y h gs" and a: "(a, bs) \<in> allocations y h gs"
  obtains (block) xs b L ys where "gs = xs @ (b, L) # ys" "block_of (all_blocks h) a = Some (map fst xs, b, map fst ys)"
      "(a, bs) \<in> live (cells (sec h)) (space (sec h)) (set L)" "block_ok (cells (sec h)) (space (sec h)) b L"
  | (fallback) f k where "block_of (all_blocks h) a = None" "fallback y = Some f"
      "fallback_sizes y (other h) a = Some k" "load (space (sec h)) a k = Some bs" "length bs = k"
proof (cases "block_of (all_blocks h) a")
  case None
  have "(a, bs) \<notin> block_live (sec h) gs" by (rule not_in_block [OF ok None])
  then obtain k where k: "fallback_sizes y (other h) a = Some k" "load (space (sec h)) a k = Some bs"
    using a by (auto simp: allocations_def contents_def fallback_live_def)
  have "fallback y \<noteq> None"
  proof
    assume "fallback y = None"
    then show False using ok k(1) by (simp add: heap_ok_def)
  qed
  then obtain f where "fallback y = Some f" by blast
  from fallback [OF None this k load_length [OF k(2)]] show thesis .
next
  case (Some t)
  obtain xs b ys where t: "t = (xs, b, ys)" by (cases t)
  have v: "map fst gs = xs @ b # ys" "sec_is_valid_word b a"
    using block_of_Some [OF Some [unfolded t]] ok by (simp_all add: heap_ok_def)
  then obtain us L vs where gs: "gs = us @ (b, L) # vs" "xs = map fst us" "ys = map fst vs"
    by (auto simp: map_eq_append_conv Cons_eq_map_conv)
  have so: "blocks_ok y (sec h) (us @ (b, L) # vs)"
    "sizes_ok (fallback_sizes y (other h)) (space (sec h)) (us @ (b, L) # vs)"
    using ok gs(1) by (simp_all add: heap_ok_def)
  have "(a, bs) \<notin> others (fallback_sizes y (other h)) (sec h) us vs"
    using others_elsewhere [OF so] v(2) by (force simp: sec_is_valid_word_def b_end_def)
  then have "(a, bs) \<in> live (cells (sec h)) (space (sec h)) (set L)"
    using a unfolding gs(1) by (simp add: allocations_def contents_middle)
  moreover have "block_ok (cells (sec h)) (space (sec h)) b L" using so(1) by (auto simp: blocks_ok_def)
  ultimately show thesis using block gs Some t by simp
qed

lemma allocation_load:
  assumes ok: "heap_ok y h gs" and a: "(a, bs) \<in> allocations y h gs"
  shows "load (space (sec h)) a (length bs) = Some bs" "a \<noteq> 0" "bs \<noteq> []"
proof -
  have "load (space (sec h)) a (length bs) = Some bs \<and> a \<noteq> 0 \<and> bs \<noteq> []"
    using ok a
  proof (cases rule: allocation_cases)
    case (block xs b L ys)
    then show ?thesis using live_single [OF block(4,3,3)] live_bounds [OF block(4,3)] by auto
  next
    case (fallback f k)
    then have "0 < a" "0 < k" using ok by (auto simp: heap_ok_def sizes_ok_def)
    then show ?thesis using fallback by auto
  qed
  then show "load (space (sec h)) a (length bs) = Some bs" "a \<noteq> 0" "bs \<noteq> []" by auto
qed

lemma allocation_single:
  assumes ok: "heap_ok y h gs" and a: "(a, bs) \<in> allocations y h gs" "(a, bs') \<in> allocations y h gs"
  shows "bs = bs'"
  using ok a(1)
proof (cases rule: allocation_cases)
  case a1: (block xs b L ys)
  show ?thesis
    using ok a(2)
  proof (cases rule: allocation_cases)
    case (block xs' b' L' ys')
    have "map fst xs = map fst xs'" "b = b'" using a1(2) block(2) by auto
    then have "length xs = length xs'" by (metis length_map)
    then have "L = L'" using a1(1) block(1) by simp
    then show ?thesis using live_single [OF a1(4,3)] block(3) by simp
  qed (use a1 in simp)
next
  case a1: (fallback f k)
  show ?thesis
    using ok a(2) by (cases rule: allocation_cases) (use a1 in simp_all)
qed

section \<open>Writing to an allocation\<close>

definition written :: "bytes \<Rightarrow> nat \<Rightarrow> bytes \<Rightarrow> bytes" where
  "written old off ws = take off old @ ws @ drop (off + length ws) old"

lemma load_overwrite_inside:
  assumes "load m a n = Some old" "off + length ws \<le> n"
  shows "load (overwrite m (a + off) ws) a n = Some (written old off ws)"
proof -
  have old: "old = map (\<lambda>i. the (m (a + i))) [0..<n]" "readable m a n" using assms(1) by (auto simp: load_def split: if_splits)
  have "map (\<lambda>i. the (overwrite m (a + off) ws (a + i))) [0..<n] = written old off ws"
    by (rule nth_equalityI) (use assms(2) in \<open>auto simp: written_def old(1) overwrite_def nth_append\<close>)
  then show ?thesis using readable_overwrite [OF old(2)] by (simp add: load_def)
qed

lemma write_allocation:
  assumes ok: "heap_ok y h gs" and a: "(a, old) \<in> allocations y h gs" and n: "off + length ws \<le> length old"
  shows "\<exists>m. store (space (sec h)) (a + off) ws = Some m \<and> heap_ok y (set_sec ((sec h)\<lparr>space := m\<rparr>) h) gs \<and>
    allocations y (set_sec ((sec h)\<lparr>space := m\<rparr>) h) gs = insert (a, written old off ws) {(x, bs) \<in> allocations y h gs. x \<noteq> a}"
proof -
  let ?s = "sec h" and ?m = "overwrite (space (sec h)) (a + off) ws"
  let ?h = "set_sec (?s\<lparr>space := ?m\<rparr>) h" and ?z = "fallback_sizes y (other h)"
  note ld = allocation_load [OF ok a]
  have rd: "readable (space ?s) (a + off) (length ws)"
    by (rule readable_sub [OF load_readable [OF ld(1)]]) (use n in auto)
  have st: "store (space ?s) (a + off) ws = Some ?m" using rd by (rule store_Some)
  have new: "load ?m a (length old) = Some (written old off ws)" by (rule load_overwrite_inside [OF ld(1) n])
  have so: "blocks_ok y ?s gs" "sizes_ok ?z (space ?s) gs" "all_blocks h = map fst gs" using ok by (simp_all add: heap_ok_def)
  have "heap_ok y ?h gs \<and> allocations y ?h gs = insert (a, written old off ws) {(x, bs) \<in> allocations y h gs. x \<noteq> a}"
    using ok a
  proof (cases rule: allocation_cases)
    case (block xs b L ys)
    have base: "block_base (cells ?s) (space ?s) b L" using block(4) by (simp add: block_ok_def)
    have own: "pools_own (pools ?s) (set (owned gs))" "set L \<subseteq> set (owned gs)"
      using so(1) owned_member [of b L gs] block(1) by (auto simp: blocks_ok_def)
    obtain c cl where c: "c \<in> set L" "cells ?s c = Some cl" "0 < c_requested cl" "a = c_words cl + 8" "cell_ok cl"
      "length old = c_requested cl" "c_tag cl \<noteq> None" "a + length old \<le> last_word cl"
      using live_cell [OF base own block(3)] by metis
    have req: "c_requested cl \<le> 8 * (c_n_words cl - 2)" using c(3,5) by (auto simp: cell_ok_def)
    have same: "(cells ?s)(c \<mapsto> cl) = cells ?s" using c(2) by (auto simp: fun_upd_idem)
    have lo: "a \<le> a + off" and hi: "a + off + length ws \<le> last_word cl" using n c(8) by auto
    obtain bs where z: "load ?m a (c_requested cl) = Some bs" "block_ok (cells ?s) ?m b L"
      "live (cells ?s) ?m (set L) = insert (a, bs) {(x, y) \<in> live (cells ?s) (space ?s) (set L). x \<noteq> a}"
      using resize_cell [OF block(4) c(1-4) refl refl refl refl refl c(7,3) req lo hi] unfolding same by blast
    have bs: "bs = written old off ws" using z(1) new c(6) by simp
    have far: "?m x = space ?s x" if "x < b_words b \<or> b_end b \<le> x" for x
      using write_inside(4) [OF base c(1,2) _ hi that] c(4) by simp
    have step: "block_step (set (owned gs)) ?s b L (?s\<lparr>space := ?m\<rparr>) b L"
    proof -
      have "set (owned gs) - set L \<union> set L = set (owned gs)" using own(2) by auto
      then show ?thesis using own(1) far by (auto simp: block_step_def)
    qed
    have z': "block_ok (cells (?s\<lparr>space := ?m\<rparr>)) (space (?s\<lparr>space := ?m\<rparr>)) b L" using z(2) by simp
    note r = block_step_heap [OF so(1,2) [unfolded block(1)] step [unfolded block(1)] z']
    have "(x, bs) \<in> others ?z ?s xs ys \<Longrightarrow> x \<noteq> a" for x bs
      using others_elsewhere [OF so(1,2) [unfolded block(1)], of x bs] live_bounds [OF block(4,3)] by auto
    then have o: "{(x, bs) \<in> others ?z ?s xs ys. x \<noteq> a} = others ?z ?s xs ys" by auto
    have "heap_ok y ?h gs" using r ok block(1) by (simp add: heap_ok_def)
    moreover have "allocations y ?h gs = insert (a, bs) {(x, y) \<in> live (cells ?s) (space ?s) (set L). x \<noteq> a} \<union> others ?z ?s xs ys"
      using r z(3) unfolding block(1) by (simp add: allocations_def contents_middle)
    moreover have "{(x, bs) \<in> allocations y h gs. x \<noteq> a} =
        {(x, y) \<in> live (cells ?s) (space ?s) (set L). x \<noteq> a} \<union> others ?z ?s xs ys"
      unfolding block(1) allocations_def contents_middle using o by auto
    ultimately show ?thesis unfolding bs by simp
  next
    case (fallback f k)
    have kk: "?z a = Some k \<or> ?z a = None \<and> k = 0" and pos: "0 < k"
      using fallback(3) so(2) by (auto simp: sizes_ok_def)
    have rd': "readable ?m a k" using load_readable [OF new] fallback(5) by simp
    have upd: "?z(a := None, a \<mapsto> k) = ?z" using fallback(3) by (auto simp: fun_eq_iff)
    have in': "\<forall>x. a \<le> x \<and> x < a + k \<longrightarrow> a \<le> x \<and> x < a + k \<or> space ?s x = None" by simp
    have out': "\<forall>x. \<not> (a \<le> x \<and> x < a + k) \<and> \<not> (a \<le> x \<and> x < a + k) \<longrightarrow> ?m x = space ?s x"
      using n fallback(5) by (auto simp: overwrite_def)
    note mv = fallback_moved [OF so(1,2) kk ld(2) pos rd' in' out']
    have "fallback_live ?z ?m = insert (a, written old off ws) {(q, c) \<in> fallback_live ?z (space ?s). q \<noteq> a}"
      using mv(6) new fallback(5) unfolding upd by simp
    moreover have "blocks_ok y (?s\<lparr>space := ?m\<rparr>) gs" "block_live (?s\<lparr>space := ?m\<rparr>) gs = block_live ?s gs"
      "sizes_ok ?z ?m gs" using mv(1-3) unfolding upd by simp_all
    moreover have "(a, bs) \<notin> block_live ?s gs" for bs by (rule mv(5))
    ultimately show ?thesis using ok by (auto simp: heap_ok_def allocations_def contents_def)
  qed
  then show ?thesis using st by blast
qed

end
