(* ===== verification/SecureAllocator.thy ===== *)
theory SecureAllocator
  imports SecurePublic
begin

text \<open>
  \<open>egg_secure_alloc_full\<close>, \<open>egg_secure_free_full\<close>, \<open>egg_secure_realloc_full\<close> and what is built on
  them: each call on a heap that keeps the invariant has a result, and its effect on the allocations
  is that of an abstract allocator.
\<close>

section \<open>Allocating\<close>

definition alloc_result :: "'f sys \<Rightarrow> 'f heap \<Rightarrow> tiled \<Rightarrow> nat \<Rightarrow> nat \<Rightarrow> 'f heap \<Rightarrow> tiled \<Rightarrow> bool" where
  "alloc_result y h gs n r h' gs' \<longleftrightarrow> heap_ok y h' gs' \<and>
     (if r = 0 then allocations y h' gs' = allocations y h gs
      else (\<forall>bs. (r, bs) \<notin> allocations y h gs) \<and>
        allocations y h' gs' = insert (r, replicate n 0) (allocations y h gs))"

lemma gained_result:
  assumes "heap_ok y h gs" "gained y (fallback_sizes y (other h)) (sec h) gs n r s' gs'"
  shows "alloc_result y h gs n r (h\<lparr>sec := s', all_blocks := map fst gs'\<rparr>) gs'"
  using assms by (auto simp: alloc_result_def gained_def heap_ok_def allocations_def)

lemma alloc_locked:
  assumes ok: "heap_ok y h gs" and y: "sys_ok y" and n: "0 < n" "n \<le> 2 ^ 31"
  shows "\<exists>r h' gs'. alloc_locked y h tag n = Some (r, h') \<and> alloc_result y h gs n r h' gs' \<and> other h' = other h"
proof -
  let ?z = "fallback_sizes y (other h)"
  have so: "blocks_ok y (sec h) ([] @ gs)" "sizes_ok ?z (space (sec h)) ([] @ gs)" and ab: "all_blocks h = map fst gs"
    and km: "kernel_maps (kernel y)" using ok y by (simp_all add: heap_ok_def sys_ok_def kernel_ok_def)
  from alloc_in_blocks [where tag = tag, OF so km n(1)] show ?thesis
  proof
    assume "\<exists>r s' ys'. alloc_in_blocks (kernel y) (sec h) (map fst gs) tag n = Some (r, s', map fst ys') \<and>
      gained y ?z (sec h) ([] @ gs) n r s' ([] @ ys')"
    then obtain r s' gs' where a: "alloc_in_blocks (kernel y) (sec h) (map fst gs) tag n = Some (r, s', map fst gs')"
      "gained y ?z (sec h) gs n r s' gs'" by auto
    have "r \<noteq> 0" using a(2) by (simp add: gained_def)
    then have "alloc_locked y h tag n = Some (r, h\<lparr>sec := s', all_blocks := map fst gs'\<rparr>)"
      using a(1) ab by (simp add: alloc_locked_def)
    then show ?thesis using gained_result [OF ok a(2)] by fastforce
  next
    assume none: "alloc_in_blocks (kernel y) (sec h) (map fst gs) tag n = Some (0, sec h, map fst gs)"
    have "kernel_ok y" using y by (simp add: sys_ok_def)
    from block_create [OF ok this n] obtain i h1 where
      c: "sec_block_create y h n = Some (i, h1)" "created y h gs i h1" by blast
    have hh: "h\<lparr>all_blocks := map fst gs\<rparr> = h" using ab by (metis heap.surjective heap.update_convs(2))
    show ?thesis
    proof (cases "i = 0")
      case True
      then have "alloc_locked y h tag n = Some (0, h1)" using none c(1) ab by (simp add: alloc_locked_def hh)
      then show ?thesis using c(2) True by (auto simp: alloc_result_def created_def)
    next
      case False
      then obtain b d where b: "heap_ok y h1 ((b, [d]) # gs)" "allocations y h1 ((b, [d]) # gs) = allocations y h gs"
        "other h1 = other h" using c(2) by (auto simp: created_def)
      have s1: "blocks_ok y (sec h1) ([] @ (b, [d]) # gs)" "sizes_ok ?z (space (sec h1)) ([] @ (b, [d]) # gs)"
        "all_blocks h1 = b # map fst gs" using b(1,3) by (simp_all add: heap_ok_def)
      have run: "alloc_locked y h tag n = do {
          (memory, s, b) \<leftarrow> sec_alloc (kernel y) (sec h1) b tag n;
          Some (memory, h1\<lparr>sec := s, all_blocks := b # map fst gs\<rparr>) }"
        using none c(1) ab False s1(3) by (simp add: alloc_locked_def hh)
      from alloc_one [where tag = tag, OF s1(1,2) km n(1)] show ?thesis
      proof
        assume "sec_alloc (kernel y) (sec h1) b tag n = Some (0, sec h1, b)"
        then have "alloc_locked y h tag n = Some (0, h1)" using run s1(3) by simp
        then show ?thesis using b by (auto simp: alloc_result_def)
      next
        assume "\<exists>r s' b' L'. sec_alloc (kernel y) (sec h1) b tag n = Some (r, s', b') \<and>
          gained y ?z (sec h1) ([] @ (b, [d]) # gs) n r s' ([] @ (b', L') # gs)"
        then obtain r s' b' L' where a: "sec_alloc (kernel y) (sec h1) b tag n = Some (r, s', b')"
          "gained y ?z (sec h1) ((b, [d]) # gs) n r s' ((b', L') # gs)" by auto
        have "alloc_result y h1 ((b, [d]) # gs) n r (h1\<lparr>sec := s', all_blocks := map fst ((b', L') # gs)\<rparr>) ((b', L') # gs)"
          by (rule gained_result [OF b(1)]) (use a(2) b(3) in simp)
        then have "alloc_result y h gs n r (h1\<lparr>sec := s', all_blocks := b' # map fst gs\<rparr>) ((b', L') # gs)"
          unfolding alloc_result_def b(2) list.map fst_conv .
        moreover have "alloc_locked y h tag n = Some (r, h1\<lparr>sec := s', all_blocks := b' # map fst gs\<rparr>)"
          using run a(1) by simp
        ultimately show ?thesis using b(3) by fastforce
      qed
    qed
  qed
qed

lemma replace_fresh: "\<forall>z. (r, z) \<notin> X \<Longrightarrow> insert (r, new) {(x, z) \<in> insert (r, old) X. x \<noteq> r} = insert (r, new) X"
  by auto

lemma alloc_fallback:
  assumes ok: "heap_ok y h gs" and y: "sys_ok y" "fallback y = Some f" and n: "0 < n"
  shows "\<exists>r h'. alloc_fallback f h n = Some (r, h') \<and> alloc_result y h gs n r h' gs"
proof -
  let ?z = "fallback_sizes y (other h)" and ?s = "sec h"
  have so: "blocks_ok y ?s gs" "sizes_ok ?z (space ?s) gs" "all_blocks h = map fst gs" using ok by (simp_all add: heap_ok_def)
  obtain r st m where f: "f (other h) (space ?s) 0 n = (r, st, m)" by (cases "f (other h) (space ?s) 0 n") auto
  then have law: "fallback_allocates (fallback_sizes y) (other h) (space ?s) n r st m"
    using y n by (auto simp: sys_ok_def fallback_ok_def)
  let ?h = "h\<lparr>sec := ?s\<lparr>space := m\<rparr>, other := st\<rparr>"
  have call: "call_fallback f h 0 n = (r, ?h)" using f by (simp add: call_fallback_def)
  show ?thesis
  proof (cases "r = 0")
    case True
    then have "fallback_sizes y st = ?z" "m = space ?s" using law by (auto simp: fallback_allocates_def)
    then have "alloc_result y h gs n r ?h gs" using ok True by (simp add: alloc_result_def heap_ok_def allocations_def)
    moreover have "alloc_fallback f h n = Some (0, ?h)" using call True by (simp add: alloc_fallback_def)
    ultimately show ?thesis using True by blast
  next
    case False
    then have l: "?z r = None" "fallback_sizes y st = ?z(r \<mapsto> n)" "readable m r n"
      "\<And>x. r \<le> x \<Longrightarrow> x < r + n \<Longrightarrow> space ?s x = None" "\<And>x. \<not> (r \<le> x \<and> x < r + n) \<Longrightarrow> m x = space ?s x"
      using law by (auto simp: fallback_allocates_def)
    have z0: "?z 0 = None"
    proof (rule ccontr)
      assume "?z 0 \<noteq> None"
      then show False using so(2) by (auto simp: sizes_ok_def)
    qed
    then have z: "?z 0 = Some 0 \<or> ?z 0 = None \<and> (0 :: nat) = 0" by simp
    have upd: "?z(0 := None, r \<mapsto> n) = fallback_sizes y st" using z0 l(2) by (simp add: fun_upd_idem)
    have in': "\<forall>x. r \<le> x \<and> x < r + n \<longrightarrow> 0 \<le> x \<and> x < 0 + 0 \<or> space ?s x = None" by (simp add: l(4))
    have out': "\<forall>x. \<not> (r \<le> x \<and> x < r + n) \<and> \<not> (0 \<le> x \<and> x < 0 + 0) \<longrightarrow> m x = space ?s x" by (simp add: l(5))
    obtain old where old: "load m r n = Some old" using load_Some [OF l(3)] by blast
    note mv = fallback_moved [OF so(1,2) z False n l(3) in' out']
    have "fallback_live (fallback_sizes y st) m = insert (r, old) {(q, c) \<in> fallback_live ?z (space ?s). q \<noteq> 0}"
      using mv(6) [OF old] unfolding upd .
    moreover have "{(q, c) \<in> fallback_live ?z (space ?s). q \<noteq> 0} = fallback_live ?z (space ?s)"
    proof -
      have "q \<noteq> 0" if "?z q = Some k" for q k using z0 that by (metis option.distinct(1))
      then show ?thesis unfolding fallback_live_def by blast
    qed
    moreover have mv': "blocks_ok y (?s\<lparr>space := m\<rparr>) gs" "block_live (?s\<lparr>space := m\<rparr>) gs = block_live ?s gs"
      "sizes_ok (fallback_sizes y st) m gs" using mv(1-3) unfolding upd by simp_all
    ultimately have h1: "heap_ok y ?h gs" "allocations y ?h gs = insert (r, old) (allocations y h gs)"
      using ok y(2) by (simp_all add: heap_ok_def allocations_def contents_def)
    have "(r, bs) \<notin> fallback_live ?z (space ?s)" for bs using l(1) by (auto simp: fallback_live_def)
    then have nr: "(r, bs) \<notin> allocations y h gs" for bs using mv(5) by (auto simp: allocations_def contents_def)
    have len: "length old = n" by (rule load_length [OF old])
    have "(r, old) \<in> allocations y ?h gs" using h1(2) by simp
    from write_allocation [OF h1(1) this, of 0 "replicate n 0"] len obtain m' where
      w: "store m r (replicate n 0) = Some m'" "heap_ok y (set_sec (?s\<lparr>space := m'\<rparr>) ?h) gs"
      "allocations y (set_sec (?s\<lparr>space := m'\<rparr>) ?h) gs =
        insert (r, written old 0 (replicate n 0)) {(x, bs) \<in> allocations y ?h gs. x \<noteq> r}" by auto
    have "written old 0 (replicate n 0) = replicate n 0" using len by (simp add: written_def)
    then have "allocations y (set_sec (?s\<lparr>space := m'\<rparr>) ?h) gs = insert (r, replicate n 0) (allocations y h gs)"
      unfolding w(3) h1(2) using replace_fresh [of r "allocations y h gs"] nr by simp
    then have "alloc_result y h gs n r (set_sec (?s\<lparr>space := m'\<rparr>) ?h) gs"
      using w(2) False nr by (simp add: alloc_result_def)
    moreover have "alloc_fallback f h n = Some (r, set_sec (?s\<lparr>space := m'\<rparr>) ?h)"
      using call False w(1) by (simp add: alloc_fallback_def)
    ultimately show ?thesis by blast
  qed
qed

lemma alloc_full:
  assumes ok: "heap_ok y h gs" and y: "sys_ok y"
  shows "\<exists>r h' gs'. egg_secure_alloc_full y h tag n use_fallback = Some (r, h') \<and> alloc_result y h gs n r h' gs' \<and>
    (n = 0 \<or> insane_size n \<longrightarrow> r = 0) \<and> (use_fallback \<or> other h' = other h)"
proof (cases "n = 0 \<or> insane_size n")
  case True
  then have "egg_secure_alloc_full y h tag n use_fallback = Some (0, h)" by (auto simp: egg_secure_alloc_full_def)
  then show ?thesis using ok by (auto simp: alloc_result_def)
next
  case False
  then have n: "0 < n" "n \<le> 2 ^ 31" by (auto simp: insane_size_def)
  from alloc_locked [OF ok y n, of "tag_or_default tag"] obtain r h1 gs1 where
    a: "alloc_locked y h (tag_or_default tag) n = Some (r, h1)" "alloc_result y h gs n r h1 gs1" "other h1 = other h" by blast
  show ?thesis
  proof (cases "if r = 0 \<and> use_fallback then fallback y else None")
    case None
    then have "egg_secure_alloc_full y h tag n use_fallback = Some (r, h1)"
      using False a(1) by (simp add: egg_secure_alloc_full_def)
    then show ?thesis using a(2,3) False by blast
  next
    case (Some f)
    then have r: "r = 0" "fallback y = Some f" and uf: "use_fallback" by (auto split: if_splits)
    have h1: "heap_ok y h1 gs1" "allocations y h1 gs1 = allocations y h gs" using a(2) r(1) by (simp_all add: alloc_result_def)
    from alloc_fallback [OF h1(1) y r(2) n(1)] obtain r' h' where
      b: "alloc_fallback f h1 n = Some (r', h')" "alloc_result y h1 gs1 n r' h' gs1" by blast
    have "egg_secure_alloc_full y h tag n use_fallback = Some (r', h')"
      using False a(1) Some b(1) by (simp add: egg_secure_alloc_full_def)
    moreover have "alloc_result y h gs n r' h' gs1" using b(2) unfolding alloc_result_def h1(2) .
    ultimately show ?thesis using False uf by blast
  qed
qed


section \<open>Freeing\<close>

definition erased :: "space \<Rightarrow> nat \<Rightarrow> nat \<Rightarrow> bool" where
  "erased m a n \<longleftrightarrow> (\<forall>x. a \<le> x \<and> x < a + n \<longrightarrow> m x = None \<or> m x = Some 0)"

text \<open>A destroyed block leaves the bytes as they were or unmaps them.\<close>

lemma free_cells_space:
  assumes "sec_free_cells s h = Some s'"
  shows "space s' = space s"
proof (rule sec_free_cells.raw_induct [OF _ assms])
  fix f s h s'
  assume IH: "\<And>s h s'. f s h = Some s' \<Longrightarrow> space s' = space s"
    and eq: "(if h = 0 then Some s else Option.bind (sec_remove_cell_ring (cells s) h h) (\<lambda>(cs, h').
      Option.bind (free_cell (s\<lparr>cells := cs\<rparr>) h) (\<lambda>s. f s h'))) = Some s'"
  show "space s' = space s"
  proof (cases "h = 0")
    case False
    then obtain cs h' s1 where "free_cell (s\<lparr>cells := cs\<rparr>) h = Some s1" "f s1 h' = Some s'"
      using eq by (auto simp: bind_eq_Some_conv)
    then show ?thesis using IH by (auto simp: free_cell_def bind_eq_Some_conv)
  qed (use eq in simp)
qed

lemma destroy_space:
  assumes "sec_block_destroy y h b = Some h'"
  shows "space (sec h') x = space (sec h) x \<or> space (sec h') x = None"
proof -
  obtain bs s1 s2 s3 where d: "sec_free_cells (sec h) (b_unused_cells b) = Some s1"
    "sec_release_pages y s1 (b_words b) (b_n_words b * 8) = Some s2" "free_item s2 (b_item b) = Some s3" "sec h' = s3"
    using assms by (auto simp: sec_block_destroy_def bind_eq_Some_conv)
  have "space s3 = space s2" using d(3) by (auto simp: free_item_def)
  moreover have "space s2 x = space s1 x \<or> space s2 x = None"
    using d(2) by (cases "munmap_ok y s1 (b_words b) (b_n_words b * 8)")
      (auto simp: sec_release_pages_def munmap_def unmap_def bind_eq_Some_conv split: if_splits)
  ultimately show ?thesis using free_cells_space [OF d(1)] d(4) by auto
qed

lemma destroy_unused:
  assumes ok: "heap_ok y h (xs @ (b, L) # ys)"
  shows "\<exists>h' gs'. destroy_unused y h b = Some h' \<and> heap_ok y h' gs' \<and> other h' = other h \<and>
    allocations y h' gs' = allocations y h (xs @ (b, L) # ys) \<and>
    (\<forall>x. space (sec h') x = space (sec h) x \<or> space (sec h') x = None)"
proof (cases "b_n_used b = 0")
  case True
  from block_destroy [OF ok this] obtain h' where d: "sec_block_destroy y h b = Some h'" "heap_ok y h' (xs @ ys)"
    "other h' = other h" "allocations y h' (xs @ ys) = allocations y h (xs @ (b, L) # ys)" by blast
  have "\<forall>x. space (sec h') x = space (sec h) x \<or> space (sec h') x = None" using destroy_space [OF d(1)] by blast
  then show ?thesis using d True by (auto simp: destroy_unused_def)
qed (use ok in \<open>auto simp: destroy_unused_def\<close>)

lemma egg_secure_check_iff: "egg_secure_check h a \<longleftrightarrow> block_of (all_blocks h) a \<noteq> None"
  by (simp add: egg_secure_check_def)

definition freed_result :: "'f sys \<Rightarrow> 'f heap \<Rightarrow> tiled \<Rightarrow> nat \<Rightarrow> 'f heap \<Rightarrow> tiled \<Rightarrow> bool" where
  "freed_result y h gs a h' gs' \<longleftrightarrow> heap_ok y h' gs' \<and> allocations y h' gs' = {(x, bs) \<in> allocations y h gs. x \<noteq> a}"

lemma step_heap_ok:
  assumes "heap_ok y h gs" "blocks_ok y s' gs'" "sizes_ok (fallback_sizes y (other h)) (space s') gs'"
  shows "heap_ok y (h\<lparr>sec := s', all_blocks := map fst gs'\<rparr>) gs'"
  using assms by (simp add: heap_ok_def)

lemma free_full:
  assumes ok: "heap_ok y h gs" and y: "sys_ok y" and a: "(a, bs) \<in> allocations y h gs"
    and fl: "use_fallback \<or> egg_secure_check h a"
  shows "\<exists>h' gs'. egg_secure_free_full y h a use_fallback = Some h' \<and> freed_result y h gs a h' gs' \<and>
    (egg_secure_check h a \<longrightarrow> erased (space (sec h')) a (length bs))"
proof -
  let ?s = "sec h" and ?z = "fallback_sizes y (other h)"
  have a0: "a \<noteq> 0" using allocation_load [OF ok a] by simp
  have so: "blocks_ok y ?s gs" "sizes_ok ?z (space ?s) gs" "all_blocks h = map fst gs" using ok by (simp_all add: heap_ok_def)
  show ?thesis
    using ok a
  proof (cases rule: allocation_cases)
    case (block xs b L ys)
    have own: "pools_own (pools ?s) (set (owned gs))" "set L \<subseteq> set (owned gs)"
      using so(1) owned_member [of b L gs] block(1) by (auto simp: blocks_ok_def)
    from sec_free_spec [OF block(4) own block(3)] obtain s' b' L' where
      f: "sec_free ?s b a = Some (s', b')" "freed_in (set (owned gs)) ?s b L a s' b' L'"
      "\<forall>x. a \<le> x \<longrightarrow> x < a + length bs \<longrightarrow> space s' x = Some 0" by blast
    then have fr: "block_ok (cells s') (space s') b' L'" "block_step (set (owned gs)) ?s b L s' b' L'"
      "live (cells s') (space s') (set L') = {(x, bs) \<in> live (cells ?s) (space ?s) (set L). x \<noteq> a}"
      by (simp_all add: freed_in_def)
    let ?gs = "xs @ (b', L') # ys"
    let ?h = "h\<lparr>sec := s', all_blocks := map fst ?gs\<rparr>"
    note st = block_step_heap [OF so(1,2) [unfolded block(1)] fr(2) [unfolded block(1)] fr(1)]
    have h1: "heap_ok y ?h ?gs" by (rule step_heap_ok [OF ok]) (use st in simp_all)
    have "x \<noteq> a" if "(x, c) \<in> others ?z ?s xs ys" for x c
      using others_elsewhere [OF so(1,2) [unfolded block(1)] that] live_bounds [OF block(4,3)] by auto
    then have o: "{(x, c) \<in> others ?z ?s xs ys. x \<noteq> a} = others ?z ?s xs ys" by auto
    have "allocations y ?h ?gs = {(x, bs) \<in> live (cells ?s) (space ?s) (set L). x \<noteq> a} \<union> others ?z ?s xs ys"
      using st fr(3) by (simp add: allocations_def contents_middle)
    also have "\<dots> = {(x, bs) \<in> allocations y h gs. x \<noteq> a}"
      unfolding block(1) allocations_def contents_middle using o by auto
    finally have al: "allocations y ?h ?gs = {(x, bs) \<in> allocations y h gs. x \<noteq> a}" .
    from destroy_unused [OF h1] obtain h' gs' where d: "destroy_unused y ?h b' = Some h'" "heap_ok y h' gs'"
      "allocations y h' gs' = allocations y ?h ?gs" "\<forall>x. space (sec h') x = space (sec ?h) x \<or> space (sec h') x = None"
      by blast
    have "egg_secure_free_full y h a use_fallback = Some h'"
      using a0 block(2) f(1) d(1) by (simp add: egg_secure_free_full_def)
    moreover have "freed_result y h gs a h' gs'" using d(2,3) al by (simp add: freed_result_def)
    moreover have "erased (space (sec h')) a (length bs)"
      unfolding erased_def
    proof (intro allI impI)
      fix x
      assume "a \<le> x \<and> x < a + length bs"
      then have "space s' x = Some 0" using f(3) by simp
      moreover have "space (sec h') x = space s' x \<or> space (sec h') x = None" using d(4) by simp
      ultimately show "space (sec h') x = None \<or> space (sec h') x = Some 0" by auto
    qed
    ultimately show ?thesis by blast
  next
    case (fallback f k)
    have uf: "use_fallback" "\<not> egg_secure_check h a" using fl fallback(1) by (auto simp: egg_secure_check_def)
    obtain r st m where f: "f (other h) (space ?s) a 0 = (r, st, m)" by (cases "f (other h) (space ?s) a 0") auto
    have law: "fallback_frees (fallback_sizes y) (other h) (space ?s) a k st m"
      using y fallback(2,3) f by (fastforce simp: sys_ok_def fallback_ok_def)
    then have out: "fallback_sizes y st = ?z(a := None)" "\<And>x. \<not> (a \<le> x \<and> x < a + k) \<Longrightarrow> m x = space ?s x"
      by (auto simp: fallback_frees_def)
    let ?h = "h\<lparr>sec := ?s\<lparr>space := m\<rparr>, other := st\<rparr>"
    note rm = fallback_removed [OF so(1,2) fallback(3) out(2)]
    have rm': "blocks_ok y (?s\<lparr>space := m\<rparr>) gs" "block_live (?s\<lparr>space := m\<rparr>) gs = block_live ?s gs"
      "sizes_ok (fallback_sizes y st) m gs"
      "fallback_live (fallback_sizes y st) m = {(q, c) \<in> fallback_live ?z (space ?s). q \<noteq> a}"
      unfolding out(1) by (rule rm; assumption)+
    have "(a, c) \<notin> block_live ?s gs" for c using not_in_block [OF ok fallback(1)] .
    then have "allocations y ?h gs = {(x, bs) \<in> allocations y h gs. x \<noteq> a}"
      using rm'(2,4) by (auto simp: allocations_def contents_def)
    moreover have "heap_ok y ?h gs" using ok rm' fallback(2) by (simp add: heap_ok_def)
    moreover have "egg_secure_free_full y h a use_fallback = Some ?h"
      using a0 fallback(1,2) uf f by (simp add: egg_secure_free_full_def call_fallback_def)
    ultimately show ?thesis using uf(2) by (auto simp: freed_result_def)
  qed
qed


section \<open>Resizing\<close>

definition realloc_result ::
  "'f sys \<Rightarrow> 'f heap \<Rightarrow> tiled \<Rightarrow> nat \<Rightarrow> bytes \<Rightarrow> nat \<Rightarrow> nat \<Rightarrow> 'f heap \<Rightarrow> tiled \<Rightarrow> bool" where
  "realloc_result y h gs a bs n r h' gs' \<longleftrightarrow> heap_ok y h' gs' \<and>
     (if r = 0 then allocations y h' gs' = allocations y h gs
      else \<exists>bs'. length bs' = n \<and> take (min n (length bs)) bs' = take (min n (length bs)) bs \<and>
        allocations y h' gs' = insert (r, bs') {(x, c) \<in> allocations y h gs. x \<noteq> a} \<and>
        (\<forall>c. (r, c) \<in> allocations y h gs \<longrightarrow> r = a))"

lemma sec_allocated_live:
  assumes "block_ok (cells s) (space s) b L" "pools_own (pools s) A" "set L \<subseteq> A" "(a, bs) \<in> live (cells s) (space s) (set L)"
  shows "sec_allocated s b a = Some (length bs)" "b_n_used b \<noteq> 0"
proof -
  have base: "block_base (cells s) (space s) b L" using assms(1) by (simp add: block_ok_def)
  obtain c cl where c: "cells s c = Some cl" "0 < c_requested cl" "length bs = c_requested cl" "c_tag cl \<noteq> None"
    "sec_cell_of s b a = Some c" "0 < c"
    using live_cell [OF base assms(2-4)] by metis
  then show "sec_allocated s b a = Some (length bs)" by (simp add: sec_allocated_def cell_at_def)
  show "b_n_used b \<noteq> 0" using unused_block [OF assms(1)] assms(4) by auto
qed

lemma realloc_full_fallback:
  assumes ok: "heap_ok y h gs" and y: "sys_ok y" and n: "0 < n"
    and a: "block_of (all_blocks h) a = None" "fallback y = Some f" "fallback_sizes y (other h) a = Some k"
      "load (space (sec h)) a k = Some bs"
  shows "\<exists>r h'. call_fallback f h a n = (r, h') \<and> realloc_result y h gs a bs n r h' gs"
proof -
  let ?z = "fallback_sizes y (other h)" and ?s = "sec h"
  have so: "blocks_ok y ?s gs" "sizes_ok ?z (space ?s) gs" "all_blocks h = map fst gs" using ok by (simp_all add: heap_ok_def)
  obtain r st m where f: "f (other h) (space ?s) a n = (r, st, m)" by (cases "f (other h) (space ?s) a n") auto
  have "\<forall>k. ?z a = Some k \<longrightarrow> (if n = 0 then fallback_frees (fallback_sizes y) (other h) (space ?s) a k st m
      else fallback_resizes (fallback_sizes y) (other h) (space ?s) a k n r st m)"
    using y a(2) f unfolding sys_ok_def fallback_ok_def by blast
  then have law: "fallback_resizes (fallback_sizes y) (other h) (space ?s) a k n r st m" using a(3) n by simp
  let ?h = "h\<lparr>sec := ?s\<lparr>space := m\<rparr>, other := st\<rparr>"
  have call: "call_fallback f h a n = (r, ?h)" using f by (simp add: call_fallback_def)
  have len: "length bs = k" by (rule load_length [OF a(4)])
  have "realloc_result y h gs a bs n r ?h gs"
  proof (cases "r = 0")
    case True
    then have "fallback_sizes y st = ?z" "m = space ?s" using law by (auto simp: fallback_resizes_def)
    then show ?thesis using ok True by (simp add: realloc_result_def heap_ok_def allocations_def)
  next
    case False
    then have l: "fallback_sizes y st = ?z(a := None, r \<mapsto> n)" "readable m r n" "\<forall>i < min n k. m (r + i) = space ?s (a + i)"
      "\<forall>x. r \<le> x \<and> x < r + n \<longrightarrow> a \<le> x \<and> x < a + k \<or> space ?s x = None"
      "\<forall>x. \<not> (r \<le> x \<and> x < r + n) \<and> \<not> (a \<le> x \<and> x < a + k) \<longrightarrow> m x = space ?s x"
      using law by (auto simp: fallback_resizes_def)
    have z: "?z a = Some k \<or> ?z a = None \<and> k = 0" using a(3) by simp
    obtain bs' where bs': "load m r n = Some bs'" using load_Some [OF l(2)] by blast
    note mv = fallback_moved [OF so(1,2) z False n l(2,4,5)]
    have na: "(a, c) \<notin> block_live ?s gs" for c by (rule not_in_block [OF ok a(1)])
    have "heap_ok y ?h gs" using mv(1,3) ok a(2) l(1) by (simp add: heap_ok_def)
    moreover have "allocations y ?h gs = insert (r, bs') {(x, c) \<in> allocations y h gs. x \<noteq> a}"
    proof -
      have "fallback_live (fallback_sizes y st) m = insert (r, bs') {(x, c) \<in> fallback_live ?z (space ?s). x \<noteq> a}"
        unfolding l(1) by (rule mv(6) [OF bs'])
      moreover have "{(x, c) \<in> block_live ?s gs. x \<noteq> a} = block_live ?s gs" using na by auto
      ultimately show ?thesis using mv(2) by (auto simp: allocations_def contents_def)
    qed
    moreover have "take (min n (length bs)) bs' = take (min n (length bs)) bs"
    proof -
      have "bs' = map (\<lambda>i. the (m (r + i))) [0..<n]" "bs = map (\<lambda>i. the (space ?s (a + i))) [0..<k]"
        using bs' a(4) by (auto simp: load_def split: if_splits)
      then show ?thesis using l(3) len by (auto simp: take_map intro!: map_cong)
    qed
    moreover have "r = a" if "(r, c) \<in> allocations y h gs" for c
      using that mv(4,5) by (auto simp: allocations_def contents_def fallback_live_def)
    ultimately show ?thesis using False load_length [OF bs'] by (auto simp: realloc_result_def)
  qed
  then show ?thesis using call by blast
qed

lemma realloc_in_block:
  assumes ok: "heap_ok y h gs" and y: "sys_ok y" and n: "0 < n" and gs: "gs = xs @ (b, L) # ys"
    and a: "(a, bs) \<in> live (cells (sec h)) (space (sec h)) (set L)" "block_ok (cells (sec h)) (space (sec h)) b L"
  shows "\<exists>r s' b' L'. sec_realloc (kernel y) (sec h) b tag a n = Some (r, s', b') \<and> b_n_used b' \<noteq> 0 \<and>
    (r = 0 \<longrightarrow> length bs \<le> n) \<and>
    realloc_result y h gs a bs n r (h\<lparr>sec := s', all_blocks := map fst xs @ b' # map fst ys\<rparr>) (xs @ (b', L') # ys)"
proof -
  let ?s = "sec h" and ?z = "fallback_sizes y (other h)"
  have so: "blocks_ok y ?s gs" "sizes_ok ?z (space ?s) gs" using ok by (simp_all add: heap_ok_def)
  have own: "pools_own (pools ?s) (set (owned gs))" "set L \<subseteq> set (owned gs)"
    using so(1) owned_member [of b L gs] gs by (auto simp: blocks_ok_def)
  have km: "kernel_maps (kernel y)" using y by (simp add: sys_ok_def kernel_ok_def)
  from sec_realloc_spec [where tag = tag, OF a(2) own km a(1) n] obtain r s' b' L' where
    f: "sec_realloc (kernel y) ?s b tag a n = Some (r, s', b')" "resized_in (set (owned gs)) ?s b L a bs n r s' b' L'" by blast
  then have rs: "block_ok (cells s') (space s') b' L'" "block_step (set (owned gs)) ?s b L s' b' L'" "b_n_used b' = b_n_used b"
    by (simp_all add: resized_in_def)
  let ?gs = "xs @ (b', L') # ys"
  let ?h = "h\<lparr>sec := s', all_blocks := map fst ?gs\<rparr>"
  note st = block_step_heap [OF so [unfolded gs] rs(2) [unfolded gs] rs(1)]
  have h1: "heap_ok y ?h ?gs" by (rule step_heap_ok [OF ok]) (use st in simp_all)
  have al: "allocations y ?h ?gs = live (cells s') (space s') (set L') \<union> others ?z ?s xs ys"
    using st by (simp add: allocations_def contents_middle)
  have old: "allocations y h gs = live (cells ?s) (space ?s) (set L) \<union> others ?z ?s xs ys"
    unfolding gs by (simp add: allocations_def contents_middle)
  have far: "x < b_words b \<or> b_end b \<le> x" if "(x, c) \<in> others ?z ?s xs ys" for x c
    by (rule others_elsewhere [OF so [unfolded gs] that])
  have "x \<noteq> a" if "(x, c) \<in> others ?z ?s xs ys" for x c
    using far [OF that] live_bounds [OF a(2,1)] by auto
  then have o: "{(x, c) \<in> others ?z ?s xs ys. x \<noteq> a} = others ?z ?s xs ys" by auto
  have "realloc_result y h gs a bs n r ?h ?gs"
  proof (cases "r = 0")
    case True
    then have "live (cells s') (space s') (set L') = live (cells ?s) (space ?s) (set L)" using f(2) by (simp add: resized_in_def)
    then show ?thesis using h1 al old True by (simp add: realloc_result_def)
  next
    case False
    then obtain bs' where r: "length bs' = n" "take (min n (length bs)) bs' = take (min n (length bs)) bs"
      "live (cells s') (space s') (set L') = insert (r, bs') {(x, c) \<in> live (cells ?s) (space ?s) (set L). x \<noteq> a}"
      "\<forall>c. (r, c) \<in> live (cells ?s) (space ?s) (set L) \<longrightarrow> r = a"
      using f(2) by (auto simp: resized_in_def)
    have "(r, bs') \<in> live (cells s') (space s') (set L')" using r(3) by simp
    from live_bounds [OF rs(1) this] rs(2) have "b_words b \<le> r" "r < b_end b" by (auto simp: block_step_def b_end_def)
    then have no: "(r, c) \<notin> others ?z ?s xs ys" for c using far [of r c] by auto
    have "allocations y ?h ?gs = insert (r, bs') {(x, c) \<in> allocations y h gs. x \<noteq> a}"
      unfolding al old r(3) using o by auto
    moreover have "\<forall>c. (r, c) \<in> allocations y h gs \<longrightarrow> r = a" unfolding old using r(4) no by blast
    ultimately show ?thesis using h1 r(1,2) False by (auto simp: realloc_result_def)
  qed
  moreover have "r = 0 \<longrightarrow> length bs \<le> n" using f(2) by (simp add: resized_in_def)
  moreover have "b_n_used b' \<noteq> 0" using rs(3) sec_allocated_live(2) [OF a(2) own a(1)] by simp
  ultimately show ?thesis using f(1) by auto
qed


text \<open>The last resort of the code: a new allocation, a copy, and the old one is freed.\<close>

definition realloc_by_copy ::
  "'f sys \<Rightarrow> 'f heap \<Rightarrow> string \<Rightarrow> nat \<Rightarrow> nat \<Rightarrow> nat \<Rightarrow> bool \<Rightarrow> (nat \<times> 'f heap) option" where
  "realloc_by_copy y h tag memory previous n use_fallback = do {
     (alloc, h) \<leftarrow> egg_secure_alloc_full y h (Some tag) n use_fallback;
     if alloc = 0 then Some (0, h)
     else do {
       bs \<leftarrow> load (space (sec h)) memory previous;
       m \<leftarrow> store (space (sec h)) alloc bs;
       h \<leftarrow> egg_secure_free_full y (set_sec ((sec h)\<lparr>space := m\<rparr>) h) memory use_fallback;
       Some (alloc, h) } }"

lemma realloc_by_copy:
  assumes ok: "heap_ok y h gs" and y: "sys_ok y" and a: "(a, bs) \<in> allocations y h gs" and n: "length bs \<le> n"
    and fl: "use_fallback \<or> fallback_sizes y (other h) a = None"
  shows "\<exists>r h' gs'. realloc_by_copy y h tag a (length bs) n use_fallback = Some (r, h') \<and>
    realloc_result y h gs a bs n r h' gs'"
proof -
  from alloc_full [OF ok y, of "Some tag" n use_fallback] obtain r h1 gs1 where
    al: "egg_secure_alloc_full y h (Some tag) n use_fallback = Some (r, h1)" "alloc_result y h gs n r h1 gs1"
    "use_fallback \<or> other h1 = other h" by blast
  show ?thesis
  proof (cases "r = 0")
    case True
    then have "realloc_by_copy y h tag a (length bs) n use_fallback = Some (0, h1)" using al(1) by (simp add: realloc_by_copy_def)
    moreover have "realloc_result y h gs a bs n 0 h1 gs1" using al(2) True by (simp add: alloc_result_def realloc_result_def)
    ultimately show ?thesis by blast
  next
    case False
    then have h1: "heap_ok y h1 gs1" "\<forall>c. (r, c) \<notin> allocations y h gs"
      "allocations y h1 gs1 = insert (r, replicate n 0) (allocations y h gs)" using al(2) by (simp_all add: alloc_result_def)
    have a1: "(a, bs) \<in> allocations y h1 gs1" and r1: "(r, replicate n 0) \<in> allocations y h1 gs1" and ra: "r \<noteq> a"
      using a h1(2,3) by auto
    have ld: "load (space (sec h1)) a (length bs) = Some bs" by (rule allocation_load [OF h1(1) a1])
    have "0 + length bs \<le> length (replicate n (0 :: byte))" using n by simp
    from write_allocation [OF h1(1) r1 this] obtain m where
      m: "store (space (sec h1)) r bs = Some m" "heap_ok y (set_sec ((sec h1)\<lparr>space := m\<rparr>) h1) gs1"
      "allocations y (set_sec ((sec h1)\<lparr>space := m\<rparr>) h1) gs1 =
        insert (r, written (replicate n 0) 0 bs) {(x, c) \<in> allocations y h1 gs1. x \<noteq> r}" by auto
    let ?h2 = "set_sec ((sec h1)\<lparr>space := m\<rparr>) h1" and ?new = "written (replicate n 0) 0 bs"
    have al2: "allocations y ?h2 gs1 = insert (r, ?new) (allocations y h gs)"
      unfolding m(3) h1(3) using replace_fresh [of r "allocations y h gs"] h1(2) by simp
    have a2: "(a, bs) \<in> allocations y ?h2 gs1" using al2 a by simp
    have "use_fallback \<or> egg_secure_check ?h2 a"
      using m(2) a2
    proof (cases rule: allocation_cases)
      case (block xs b L ys)
      then show ?thesis by (simp add: egg_secure_check_def)
    next
      case (fallback f k)
      then show ?thesis using fl al(3) by auto
    qed
    from free_full [OF m(2) y a2 this] obtain h3 gs3 where
      f: "egg_secure_free_full y ?h2 a use_fallback = Some h3" "freed_result y ?h2 gs1 a h3 gs3" by blast
    have "realloc_by_copy y h tag a (length bs) n use_fallback = Some (r, h3)"
      using al(1) False ld m(1) f(1) by (simp add: realloc_by_copy_def)
    moreover have "realloc_result y h gs a bs n r h3 gs3"
    proof -
      have "length ?new = n" "take (min n (length bs)) ?new = take (min n (length bs)) bs"
        using n by (simp_all add: written_def)
      moreover have "allocations y h3 gs3 = insert (r, ?new) {(x, c) \<in> allocations y h gs. x \<noteq> a}"
        using f(2) ra unfolding freed_result_def al2 by auto
      ultimately show ?thesis using False h1(2) f(2) unfolding realloc_result_def freed_result_def by auto
    qed
    ultimately show ?thesis by blast
  qed
qed

lemma realloc_full:
  assumes ok: "heap_ok y h gs" and y: "sys_ok y" and a: "(a, bs) \<in> allocations y h gs" and n: "0 < n" "\<not> insane_size n"
    and fl: "use_fallback \<or> egg_secure_check h a"
  shows "\<exists>r h' gs'. egg_secure_realloc_full y h tag a n use_fallback = Some (r, h') \<and> realloc_result y h gs a bs n r h' gs'"
proof -
  have a0: "a \<noteq> 0" using allocation_load [OF ok a] by simp
  show ?thesis
    using ok a
  proof (cases rule: allocation_cases)
    case (fallback f k)
    have "use_fallback" using fl fallback(1) by (simp add: egg_secure_check_def)
    moreover from realloc_full_fallback [OF ok y n(1) fallback(1-4)] obtain r h' where
      "call_fallback f h a n = (r, h')" "realloc_result y h gs a bs n r h' gs" by blast
    ultimately show ?thesis using a0 n fallback(1,2) by (auto simp: egg_secure_realloc_full_def)
  next
    case (block xs b L ys)
    have own: "pools_own (pools (sec h)) (set (owned gs))" "set L \<subseteq> set (owned gs)"
      using ok owned_member [of b L gs] block(1) by (auto simp: heap_ok_def blocks_ok_def)
    have prev: "sec_allocated (sec h) b a = Some (length bs)" by (rule sec_allocated_live [OF block(4) own block(3)])
    from realloc_in_block [OF ok y n(1) block(1,3,4), of "tag_or_default tag"] obtain r s' b' L' where
      r: "sec_realloc (kernel y) (sec h) b (tag_or_default tag) a n = Some (r, s', b')" "b_n_used b' \<noteq> 0"
      "r = 0 \<longrightarrow> length bs \<le> n" "realloc_result y h gs a bs n r (h\<lparr>sec := s', all_blocks := map fst xs @ b' # map fst ys\<rparr>) (xs @ (b', L') # ys)" by blast
    let ?h = "h\<lparr>sec := s', all_blocks := map fst xs @ b' # map fst ys\<rparr>"
    have run: "egg_secure_realloc_full y h tag a n use_fallback =
        (if r \<noteq> 0 then Some (r, ?h) else realloc_by_copy y ?h (tag_or_default tag) a (length bs) n use_fallback)"
      using a0 n block(2) prev r(1,2)
      by (simp add: egg_secure_realloc_full_def destroy_unused_def realloc_by_copy_def)
    show ?thesis
    proof (cases "r = 0")
      case False
      then show ?thesis using run r(4) by auto
    next
      case True
      then have h1: "heap_ok y ?h (xs @ (b', L') # ys)" "allocations y ?h (xs @ (b', L') # ys) = allocations y h gs"
        using r(4) by (simp_all add: realloc_result_def)
      have nb: "fallback_sizes y (other ?h) a = None"
      proof (rule ccontr)
        assume "fallback_sizes y (other ?h) a \<noteq> None"
        then obtain k where k: "fallback_sizes y (other h) a = Some k" by auto
        then have "outside gs a k" "0 < k" using ok by (auto simp: heap_ok_def sizes_ok_def)
        then show False using live_bounds [OF block(4,3)] block(1) by (auto simp: outside_def)
      qed
      have "(a, bs) \<in> allocations y ?h (xs @ (b', L') # ys)" using a h1(2) by simp
      from realloc_by_copy [OF h1(1) y this, of n use_fallback "tag_or_default tag"] r(3) True nb
      obtain r' h' gs' where c: "realloc_by_copy y ?h (tag_or_default tag) a (length bs) n use_fallback = Some (r', h')"
        "realloc_result y ?h (xs @ (b', L') # ys) a bs n r' h' gs'" by blast
      have "realloc_result y h gs a bs n r' h' gs'" using c(2) unfolding realloc_result_def h1(2) .
      then show ?thesis using run True c(1) by auto
    qed
  qed
qed

end
