(* ===== verification/SecureClient.thy ===== *)
theory SecureClient
  imports SecureAllocator
begin

text \<open>
  The secure allocator of \<open>egg/egg-secure-memory.c\<close> and its callers: sequences of calls as a step
  relation, with the sizes of the allocations as what a caller knows; and the string functions as a
  client of the interface that an allocator offers.
\<close>

section \<open>The allocations by their sizes\<close>

definition sized :: "(nat \<Rightarrow> nat option) \<Rightarrow> (nat \<times> bytes) set \<Rightarrow> bool" where
  "sized S X \<longleftrightarrow> (\<forall>a n. S a = Some n \<longleftrightarrow> (\<exists>bs. (a, bs) \<in> X \<and> length bs = n))"

definition secure_inv :: "'f sys \<Rightarrow> 'f heap \<Rightarrow> (nat \<Rightarrow> nat option) \<Rightarrow> bool" where
  "secure_inv y h S \<longleftrightarrow> sys_ok y \<and> (\<exists>gs. heap_ok y h gs \<and> sized S (allocations y h gs))"

definition memory :: "'f heap \<Rightarrow> space" where
  "memory h = space (sec h)"

text \<open>The contents of the allocations \<open>S\<close> is the same in two memories.\<close>

definition kept :: "(nat \<Rightarrow> nat option) \<Rightarrow> space \<Rightarrow> space \<Rightarrow> bool" where
  "kept S m m' \<longleftrightarrow> (\<forall>a n. S a = Some n \<longrightarrow> load m' a n = load m a n)"

lemma sized_single: "sized S X \<Longrightarrow> (a, bs) \<in> X \<Longrightarrow> S a = Some (length bs)"
  by (auto simp: sized_def)

lemma sized_None: "sized S X \<Longrightarrow> S a = None \<longleftrightarrow> (\<forall>bs. (a, bs) \<notin> X)"
  unfolding sized_def by (metis not_None_eq)

lemma sized_insert:
  assumes "sized S X"
  shows "sized (S(a := None, r \<mapsto> length bs)) (insert (r, bs) {(x, c) \<in> X. x \<noteq> a \<and> x \<noteq> r})"
  using assms by (auto simp: sized_def)

lemma sized_remove: "sized S X \<Longrightarrow> sized (S(a := None)) {(x, c) \<in> X. x \<noteq> a}"
  by (auto simp: sized_def)

lemma kept_mono: "kept S m m' \<Longrightarrow> S' \<subseteq>\<^sub>m S \<Longrightarrow> kept S' m m'"
  unfolding kept_def map_le_def by (metis domI)

lemma kept_allocations:
  assumes "heap_ok y h gs" "heap_ok y h' gs'" "sized S X" "X \<subseteq> allocations y h gs" "X \<subseteq> allocations y h' gs'"
  shows "kept S (memory h) (memory h')"
  unfolding kept_def
proof (intro allI impI)
  fix a n
  assume "S a = Some n"
  then obtain bs where bs: "(a, bs) \<in> X" "length bs = n" using assms(3) by (auto simp: sized_def)
  then have "load (memory h) a n = Some bs" "load (memory h') a n = Some bs"
    using allocation_load(1) [OF assms(1)] allocation_load(1) [OF assms(2)] assms(4,5) unfolding memory_def by blast+
  then show "load (memory h') a n = load (memory h) a n" by simp
qed

section \<open>The calls\<close>

lemma inv_alloc:
  assumes "secure_inv y h S"
  shows "\<exists>r h'. egg_secure_alloc_full y h tag n use_fallback = Some (r, h') \<and>
    (if r = 0 then secure_inv y h' S
     else S r = None \<and> secure_inv y h' (S(r \<mapsto> n)) \<and> load (memory h') r n = Some (replicate n 0)) \<and>
    kept S (memory h) (memory h') \<and> (n = 0 \<or> insane_size n \<longrightarrow> r = 0)"
proof -
  obtain gs where gs: "sys_ok y" "heap_ok y h gs" "sized S (allocations y h gs)" using assms by (auto simp: secure_inv_def)
  from alloc_full [OF gs(2,1)] obtain r h' gs' where
    a: "egg_secure_alloc_full y h tag n use_fallback = Some (r, h')" "alloc_result y h gs n r h' gs'"
    "n = 0 \<or> insane_size n \<longrightarrow> r = 0" by blast
  show ?thesis
  proof (cases "r = 0")
    case True
    then have h': "heap_ok y h' gs'" "allocations y h' gs' = allocations y h gs" using a(2) by (simp_all add: alloc_result_def)
    have "secure_inv y h' S" using gs h' by (auto simp: secure_inv_def)
    moreover have "kept S (memory h) (memory h')" by (rule kept_allocations [OF gs(2) h'(1) gs(3)]) (use h'(2) in simp_all)
    ultimately show ?thesis using a(1) True by auto
  next
    case False
    then have h': "heap_ok y h' gs'" "\<forall>bs. (r, bs) \<notin> allocations y h gs"
      "allocations y h' gs' = insert (r, replicate n 0) (allocations y h gs)" using a(2) by (simp_all add: alloc_result_def)
    have Sr: "S r = None" using sized_None [OF gs(3)] h'(2) by blast
    have "sized (S(r \<mapsto> n)) (allocations y h' gs')"
    proof -
      have "{(x, c) \<in> allocations y h gs. x \<noteq> r \<and> x \<noteq> r} = allocations y h gs" using h'(2) by auto
      then show ?thesis using sized_insert [OF gs(3), of r r "replicate n 0"] h'(3) by (simp add: fun_upd_upd)
    qed
    then have "secure_inv y h' (S(r \<mapsto> n))" using gs(1) h'(1) by (auto simp: secure_inv_def)
    moreover have "load (memory h') r n = Some (replicate n 0)"
      using allocation_load(1) [OF h'(1), of r "replicate n 0"] h'(3) by (simp add: memory_def)
    moreover have "kept S (memory h) (memory h')" by (rule kept_allocations [OF gs(2) h'(1) gs(3)]) (use h'(3) in auto)
    ultimately show ?thesis using a(1,3) Sr False by auto
  qed
qed

lemma inv_free:
  assumes "secure_inv y h S" "S a = Some n" "use_fallback \<or> egg_secure_check h a"
  shows "\<exists>h'. egg_secure_free_full y h a use_fallback = Some h' \<and> secure_inv y h' (S(a := None)) \<and>
    kept (S(a := None)) (memory h) (memory h') \<and> (egg_secure_check h a \<longrightarrow> erased (memory h') a n)"
proof -
  obtain gs where gs: "sys_ok y" "heap_ok y h gs" "sized S (allocations y h gs)" using assms by (auto simp: secure_inv_def)
  obtain bs where bs: "(a, bs) \<in> allocations y h gs" "length bs = n" using gs(3) assms(2) by (auto simp: sized_def)
  from free_full [OF gs(2,1) bs(1) assms(3)] obtain h' gs' where
    f: "egg_secure_free_full y h a use_fallback = Some h'" "freed_result y h gs a h' gs'"
    "egg_secure_check h a \<longrightarrow> erased (space (sec h')) a n" unfolding bs(2) by blast
  then have h': "heap_ok y h' gs'" "allocations y h' gs' = {(x, bs) \<in> allocations y h gs. x \<noteq> a}"
    by (simp_all add: freed_result_def)
  note sr = sized_remove [OF gs(3), of a]
  have "secure_inv y h' (S(a := None))" using gs(1) h' sr by (auto simp: secure_inv_def)
  moreover have "kept (S(a := None)) (memory h) (memory h')" by (rule kept_allocations [OF gs(2) h'(1) sr]) (use h'(2) in auto)
  ultimately show ?thesis using f(1,3) by (auto simp: memory_def)
qed

lemma inv_realloc:
  assumes "secure_inv y h S" "S a = Some k" "use_fallback \<or> egg_secure_check h a" "0 < n" "\<not> insane_size n"
  shows "\<exists>r h'. egg_secure_realloc_full y h tag a n use_fallback = Some (r, h') \<and>
    (if r = 0 then secure_inv y h' S \<and> kept S (memory h) (memory h')
     else (r = a \<or> S r = None) \<and> secure_inv y h' (S(a := None, r \<mapsto> n)) \<and> kept (S(a := None)) (memory h) (memory h') \<and>
       (\<exists>old new. load (memory h) a k = Some old \<and> load (memory h') r n = Some new \<and>
          take (min n k) new = take (min n k) old))"
proof -
  obtain gs where gs: "sys_ok y" "heap_ok y h gs" "sized S (allocations y h gs)" using assms by (auto simp: secure_inv_def)
  obtain bs where bs: "(a, bs) \<in> allocations y h gs" "length bs = k" using gs(3) assms(2) by (auto simp: sized_def)
  from realloc_full [OF gs(2,1) bs(1) assms(4,5,3)] obtain r h' gs' where
    f: "egg_secure_realloc_full y h tag a n use_fallback = Some (r, h')" "realloc_result y h gs a bs n r h' gs'" by blast
  show ?thesis
  proof (cases "r = 0")
    case True
    then have h': "heap_ok y h' gs'" "allocations y h' gs' = allocations y h gs" using f(2) by (simp_all add: realloc_result_def)
    have "secure_inv y h' S" using gs h' by (auto simp: secure_inv_def)
    moreover have "kept S (memory h) (memory h')" by (rule kept_allocations [OF gs(2) h'(1) gs(3)]) (use h'(2) in simp_all)
    ultimately show ?thesis using f(1) True by auto
  next
    case False
    then obtain new where h': "heap_ok y h' gs'" "length new = n" "take (min n k) new = take (min n k) bs"
      "allocations y h' gs' = insert (r, new) {(x, c) \<in> allocations y h gs. x \<noteq> a}"
      "\<forall>c. (r, c) \<in> allocations y h gs \<longrightarrow> r = a" using f(2) unfolding realloc_result_def bs(2) by auto
    have "r = a \<or> S r = None" using sized_None [OF gs(3), of r] h'(5) by auto
    moreover have "secure_inv y h' (S(a := None, r \<mapsto> n))"
    proof -
      have "{(x, c) \<in> allocations y h gs. x \<noteq> a \<and> x \<noteq> r} = {(x, c) \<in> allocations y h gs. x \<noteq> a}" using h'(5) by auto
      then have "sized (S(a := None, r \<mapsto> n)) (allocations y h' gs')"
        using sized_insert [OF gs(3), of a r new] h'(2,4) by simp
      then show ?thesis using gs(1) h'(1) by (auto simp: secure_inv_def)
    qed
    moreover have "kept (S(a := None)) (memory h) (memory h')"
      by (rule kept_allocations [OF gs(2) h'(1) sized_remove [OF gs(3)]]) (use h'(4) in auto)
    moreover have "load (memory h) a k = Some bs" using allocation_load(1) [OF gs(2) bs(1)] bs(2) by (simp add: memory_def)
    moreover have "load (memory h') r n = Some new"
      using allocation_load(1) [OF h'(1), of r new] h'(2,4) by (simp add: memory_def)
    ultimately show ?thesis using f(1) False h'(3) by auto
  qed
qed

lemma inv_write:
  assumes "secure_inv y h S" "S a = Some n" "off + length ws \<le> n"
  shows "\<exists>m. store (memory h) (a + off) ws = Some m \<and> secure_inv y (set_sec ((sec h)\<lparr>space := m\<rparr>) h) S \<and>
    kept (S(a := None)) (memory h) m \<and>
    (\<exists>old. load (memory h) a n = Some old \<and> load m a n = Some (written old off ws))"
proof -
  obtain gs where gs: "sys_ok y" "heap_ok y h gs" "sized S (allocations y h gs)" using assms by (auto simp: secure_inv_def)
  obtain bs where bs: "(a, bs) \<in> allocations y h gs" "length bs = n" using gs(3) assms(2) by (auto simp: sized_def)
  from write_allocation [OF gs(2) bs(1)] assms(3) bs(2) obtain m where
    w: "store (memory h) (a + off) ws = Some m" "heap_ok y (set_sec ((sec h)\<lparr>space := m\<rparr>) h) gs"
    "allocations y (set_sec ((sec h)\<lparr>space := m\<rparr>) h) gs = insert (a, written bs off ws) {(x, c) \<in> allocations y h gs. x \<noteq> a}"
    unfolding memory_def by blast
  let ?h = "set_sec ((sec h)\<lparr>space := m\<rparr>) h"
  have len: "length (written bs off ws) = n" using assms(3) bs(2) by (simp add: written_def)
  have mm: "memory ?h = m" by (simp add: memory_def)
  have "S(a := None, a \<mapsto> n) = S" using assms(2) by auto
  then have "sized S (allocations y ?h gs)" using sized_insert [OF gs(3), of a a "written bs off ws"] w(3) len by simp
  then have "secure_inv y ?h S" using gs(1) w(2) by (auto simp: secure_inv_def)
  moreover have "kept (S(a := None)) (memory h) (memory ?h)"
    by (rule kept_allocations [OF gs(2) w(2) sized_remove [OF gs(3)]]) (use w(3) in auto)
  moreover have "load (memory h) a n = Some bs" using allocation_load(1) [OF gs(2) bs(1)] bs(2) by (simp add: memory_def)
  moreover have "load m a n = Some (written bs off ws)"
    using allocation_load(1) [OF w(2), of a "written bs off ws"] len w(3) by simp
  ultimately show ?thesis using w(1) unfolding mm by blast
qed


section \<open>Allocations do not overlap\<close>

lemma layout_cells_apart:
  assumes lay: "layout cs m a L e" and c: "c \<in> set L" "cs c = Some cl" and d: "d \<in> set L" "cs d = Some dl" and ne: "c \<noteq> d"
  shows "c_words cl + 8 * c_n_words cl \<le> c_words dl \<or> c_words dl + 8 * c_n_words dl \<le> c_words cl"
proof -
  obtain xs ys where L: "L = xs @ c # ys" using c(1) by (metis split_list)
  obtain k where k: "cs c = Some k" "layout cs m a xs (c_words k)" "layout cs m (c_words k + 8 * c_n_words k) ys e"
    using layout_split [OF lay [unfolded L]] by metis
  then have k': "k = cl" using c(2) by simp
  consider "d \<in> set xs" | "d \<in> set ys" using d(1) L ne by auto
  then show ?thesis
  proof cases
    case 1
    obtain j where "cs d = Some j" "c_words j + 8 * c_n_words j \<le> c_words k" using layout_cell [OF k(2) 1] by metis
    then show ?thesis using d(2) k' by simp
  next
    case 2
    obtain j where "cs d = Some j" "c_words k + 8 * c_n_words k \<le> c_words j" using layout_cell [OF k(3) 2] by metis
    then show ?thesis using d(2) k' by simp
  qed
qed

lemma live_apart:
  assumes ok: "block_ok cs m b L" and a: "(a, as) \<in> live cs m (set L)" and c: "(c, bs) \<in> live cs m (set L)" and ne: "a \<noteq> c"
  shows "a + length as \<le> c \<or> c + length bs \<le> a"
proof -
  have lay: "layout cs m (b_words b) L (b_end b)" using ok by (simp add: block_ok_def block_base_def)
  obtain x xl where x: "x \<in> set L" "cs x = Some xl" "a = c_words xl + 8" "load m a (c_requested xl) = Some as" "0 < c_requested xl"
    using a by (auto simp: live_def)
  obtain z zl where z: "z \<in> set L" "cs z = Some zl" "c = c_words zl + 8" "load m c (c_requested zl) = Some bs" "0 < c_requested zl"
    using c by (auto simp: live_def)
  have "x \<noteq> z" using x(2,3) z(2,3) ne by auto
  note ap = layout_cells_apart [OF lay x(1,2) z(1,2) this]
  obtain kx where "cs x = Some kx" "cell_ok kx" using layout_cell [OF lay x(1)] by metis
  then have "cell_ok xl" using x(2) by simp
  moreover obtain kz where "cs z = Some kz" "cell_ok kz" using layout_cell [OF lay z(1)] by metis
  then have "cell_ok zl" using z(2) by simp
  ultimately have "length as + 16 \<le> 8 * c_n_words xl" "length bs + 16 \<le> 8 * c_n_words zl"
    using x(5) z(5) load_length [OF x(4)] load_length [OF z(4)] by (auto simp: cell_ok_def)
  then show ?thesis using ap x(3) z(3) by auto
qed

lemma allocations_apart:
  assumes ok: "heap_ok y h gs" and a: "(a, as) \<in> allocations y h gs" and c: "(c, bs) \<in> allocations y h gs" and ne: "a \<noteq> c"
  shows "a + length as \<le> c \<or> c + length bs \<le> a"
proof -
  have so: "blocks_ok y (sec h) gs" "sizes_ok (fallback_sizes y (other h)) (space (sec h)) gs" using ok by (simp_all add: heap_ok_def)
  have one: "a + length as \<le> c \<or> c + length bs \<le> a"
    if gs: "gs = xs @ (b, L) # ys" and bl: "(a, as) \<in> live (cells (sec h)) (space (sec h)) (set L)"
      "block_ok (cells (sec h)) (space (sec h)) b L" and c: "(c, bs) \<in> allocations y h gs" and ne: "a \<noteq> c" for a as c bs xs b L ys
  proof -
    consider "(c, bs) \<in> live (cells (sec h)) (space (sec h)) (set L)"
      | "(c, bs) \<in> others (fallback_sizes y (other h)) (sec h) xs ys"
      using c unfolding gs allocations_def contents_middle by blast
    then show ?thesis
    proof cases
      case 1
      then show ?thesis by (rule live_apart [OF bl(2,1) _ ne])
    next
      case 2
      from others_apart [OF so [unfolded gs] 2] live_bounds [OF bl(2,1)] show ?thesis by auto
    qed
  qed
  show ?thesis
    using ok a
  proof (cases rule: allocation_cases)
    case (block xs b L ys)
    then show ?thesis using one [OF block(1,3,4) c ne] by blast
  next
    case fa: (fallback f k)
    show ?thesis
      using ok c
    proof (cases rule: allocation_cases)
      case (block xs b L ys)
      then show ?thesis using one [OF block(1,3,4) a ne [symmetric]] by blast
    next
      case (fallback f' k')
      then show ?thesis using so(2) fa(3,5) ne unfolding sizes_ok_def by blast
    qed
  qed
qed

section \<open>Validation\<close>

lemma ring_links:
  assumes "block_ok cs m b L" "c \<in> set L" "cs c = Some cl"
  shows "c_next cl \<noteq> 0" "c_prev cl \<noteq> 0" "check_links cs c = Some ()"
proof -
  have r: "ring_of cs (b_used_cells b) (used_of cs L)" "ring_of cs (b_unused_cells b) (free_of cs L)"
    using assms(1) by (simp_all add: block_ok_def block_rings_def)
  have "c \<in> used_of cs L \<or> c \<in> free_of cs L" using assms(2) by (auto simp: used_of_def free_of_def)
  then obtain k where "cs c = Some k" "c_next k \<noteq> 0" "c_prev k \<noteq> 0" "check_links cs c = Some ()"
    using ring_member [OF r(1)] ring_member [OF r(2)] by metis
  then show "c_next cl \<noteq> 0" "c_prev cl \<noteq> 0" "check_links cs c = Some ()" using assms(3) by simp_all
qed

lemma validate_from:
  assumes ok: "block_ok (cells s) (space s) b L" and own: "pools_own (pools s) A" "set L \<subseteq> A"
    and lay: "layout (cells s) (space s) w K (b_end b)" "K \<noteq> []" "set K \<subseteq> set L" "b_words b \<le> w"
  shows "sec_validate_from s b w = Some ()"
  using lay
proof (induction K arbitrary: w)
  case (Cons c K)
  then obtain cl where c: "0 < c" "cells s c = Some cl" "c_words cl = w" "cell_ok cl"
    "load_ptr (space s) w = Some c" "layout (cells s) (space s) (w + 8 * c_n_words cl) K (b_end b)" by auto
  have two: "2 \<le> c_n_words cl" using c(4) by (simp add: cell_ok_def)
  have w: "w < b_end b" "b_words b \<le> w" using layout_le [OF c(6)] two Cons.prems(4) by simp_all
  then have valid: "sec_is_valid_word b w" "w < b_words b + 8 * b_n_words b" by (simp_all add: sec_is_valid_word_def b_end_def)
  have cL: "c \<in> set L" using Cons.prems(3) by simp
  have pv: "pool_valid (pools s) c" using items.valid_owned [OF own(1), of c] cL own(2) by blast
  have g: "sec_check_guards (cells s) (space s) c = Some ()" by (rule check_guards [OF Cons.prems(1)]) simp
  note rl = ring_links [OF ok cL c(2)]
  have tag: "if c_requested cl > 0 then c_tag cl \<noteq> None else c_tag cl = None"
    "c_requested cl > 0 \<longrightarrow> c_requested cl \<le> (c_n_words cl - 2) * 8"
    using c(4) by (auto simp: cell_ok_def)
  have step: "sec_validate_from s b w =
      (if w + 8 * c_n_words cl = b_end b then Some () else sec_validate_from s b (w + 8 * c_n_words cl))"
    using valid c(1,2,5) pv g rl tag by (subst sec_validate_from.simps) (simp add: cell_at_def b_end_def)
  show ?case
  proof (cases "K = []")
    case True
    then show ?thesis using step c(6) by simp
  next
    case False
    have "w + 8 * c_n_words cl \<noteq> b_end b"
    proof
      assume "w + 8 * c_n_words cl = b_end b"
      moreover obtain d K' where "K = d # K'" using False by (cases K) auto
      ultimately show False using c(6) layout_le by (fastforce simp: cell_ok_def)
    qed
    then show ?thesis using step Cons.IH [OF c(6) False] Cons.prems(3) w(2) by simp
  qed
qed simp

lemma inv_validate:
  assumes "secure_inv y h S"
  shows "egg_secure_validate h = Some ()"
proof -
  obtain gs where gs: "heap_ok y h gs" using assms by (auto simp: secure_inv_def)
  have own: "pools_own (pools (sec h)) (set (owned gs))" using gs by (simp add: heap_ok_def blocks_ok_def)
  have "sec_validate (sec h) b = Some ()" if "(b, L) \<in> set gs" for b L
  proof -
    have bo: "block_ok (cells (sec h)) (space (sec h)) b L" using gs that by (auto simp: heap_ok_def blocks_ok_def)
    show ?thesis
      unfolding sec_validate_def
      by (rule validate_from [OF bo own owned_member [OF that], of _ L]) (use bo in \<open>auto simp: block_ok_def block_base_def\<close>)
  qed
  then have "\<forall>b \<in> set (map fst gs). sec_validate (sec h) b = Some ()" by auto
  then have "validate_blocks (sec h) (map fst gs) = Some ()" by (induction gs) auto
  then show ?thesis using gs by (simp add: egg_secure_validate_def heap_ok_def)
qed

end
