(* ===== verification/SecureSessions.thy ===== *)
theory SecureSessions
  imports SecureClient
begin

text \<open>
  Callers of the secure allocator: sessions of calls and writes as a state machine, and the string
  functions \<open>egg_secure_strdup_full\<close> and \<open>egg_secure_strndup_full\<close> as clients of the interface of an
  allocator.
\<close>

section \<open>Sessions\<close>

datatype request =
    Alloc "string option" nat bool
  | Realloc "string option" nat nat bool
  | Free nat bool
  | Write nat nat bytes

text \<open>
  What a caller may ask for: pointers are \<open>NULL\<close> or allocations that it was given, in secure memory
  when it does not allow the fallback; and it writes inside of its allocations.
\<close>

definition own_pointer :: "'f heap \<Rightarrow> (nat \<Rightarrow> nat option) \<Rightarrow> nat \<Rightarrow> bool \<Rightarrow> bool" where
  "own_pointer h S a use_fallback \<longleftrightarrow> a = 0 \<or> S a \<noteq> None \<and> (use_fallback \<or> egg_secure_check h a)"

fun permitted :: "'f heap \<Rightarrow> (nat \<Rightarrow> nat option) \<Rightarrow> request \<Rightarrow> bool" where
  "permitted h S (Alloc tag n fl) = True"
| "permitted h S (Realloc tag a n fl) = own_pointer h S a fl"
| "permitted h S (Free a fl) = own_pointer h S a fl"
| "permitted h S (Write a off ws) = (case S a of None \<Rightarrow> False | Some n \<Rightarrow> off + length ws \<le> n)"

fun perform :: "'f sys \<Rightarrow> 'f heap \<Rightarrow> request \<Rightarrow> (nat \<times> 'f heap) option" where
  "perform y h (Alloc tag n fl) = egg_secure_alloc_full y h tag n fl"
| "perform y h (Realloc tag a n fl) = egg_secure_realloc_full y h tag a n fl"
| "perform y h (Free a fl) = map_option (Pair 0) (egg_secure_free_full y h a fl)"
| "perform y h (Write a off ws) =
     map_option (\<lambda>m. (0, set_sec ((sec h)\<lparr>space := m\<rparr>) h)) (store (memory h) (a + off) ws)"

text \<open>What the caller knows afterwards, by the pointer that it got.\<close>

fun sizes_after :: "(nat \<Rightarrow> nat option) \<Rightarrow> request \<Rightarrow> nat \<Rightarrow> (nat \<Rightarrow> nat option)" where
  "sizes_after S (Alloc tag n fl) r = (if r = 0 then S else S(r \<mapsto> n))"
| "sizes_after S (Realloc tag a n fl) r =
     (if a \<noteq> 0 \<and> n = 0 then S(a := None) else if r = 0 then S else S(a := None, r \<mapsto> n))"
| "sizes_after S (Free a fl) r = S(a := None)"
| "sizes_after S (Write a off ws) r = S"

definition fresh_heap :: "space \<Rightarrow> 'f \<Rightarrow> 'f heap" where
  "fresh_heap m st = \<lparr>sec = \<lparr>pools = [], cells = Map.empty, space = m\<rparr>, all_blocks = [], other = st\<rparr>"

inductive session :: "'f sys \<Rightarrow> 'f heap \<Rightarrow> (nat \<Rightarrow> nat option) \<Rightarrow> bool" for y where
  start: "fallback_sizes y st = Map.empty \<Longrightarrow> session y (fresh_heap m st) Map.empty"
| call: "session y h S \<Longrightarrow> permitted h S req \<Longrightarrow> perform y h req = Some (r, h') \<Longrightarrow> session y h' (sizes_after S req r)"

section \<open>The abstract allocator\<close>

text \<open>
  An allocator as a map from addresses to contents. \<open>outcome M req r M'\<close> says what a request may do
  when \<open>r\<close> is the pointer that it returns.
\<close>

definition new_bytes :: "(nat \<Rightarrow> bytes option) \<Rightarrow> nat \<Rightarrow> nat \<Rightarrow> (nat \<Rightarrow> bytes option) \<Rightarrow> bool" where
  "new_bytes M n r M' \<longleftrightarrow> (if r = 0 then M' = M else 0 < n \<and> M r = None \<and> M' = M(r \<mapsto> replicate n 0))"

fun outcome :: "(nat \<Rightarrow> bytes option) \<Rightarrow> request \<Rightarrow> nat \<Rightarrow> (nat \<Rightarrow> bytes option) \<Rightarrow> bool" where
  "outcome M (Alloc tag n fl) r M' = new_bytes M n r M'"
| "outcome M (Realloc tag a n fl) r M' =
     (if a = 0 then new_bytes M n r M'
      else if n = 0 then r = 0 \<and> M' = M(a := None)
      else if r = 0 then M' = M
      else (r = a \<or> M r = None) \<and> (\<exists>old new. M a = Some old \<and> length new = n \<and>
        take (min n (length old)) new = take (min n (length old)) old \<and> M' = M(a := None, r \<mapsto> new)))"
| "outcome M (Free a fl) r M' = (r = 0 \<and> M' = M(a := None))"
| "outcome M (Write a off ws) r M' = (r = 0 \<and> (\<exists>old. M a = Some old \<and> M' = M(a \<mapsto> written old off ws)))"

definition contents_of :: "space \<Rightarrow> (nat \<Rightarrow> nat option) \<Rightarrow> nat \<Rightarrow> bytes option" where
  "contents_of m S a = (case S a of None \<Rightarrow> None | Some n \<Rightarrow> load m a n)"

lemma contents_kept:
  assumes "kept S' m m'" "\<And>b. b \<noteq> r \<Longrightarrow> T b = S' b"
  shows "contents_of m' T = (contents_of m S')(r := contents_of m' T r)"
proof
  fix b
  show "contents_of m' T b = ((contents_of m S')(r := contents_of m' T r)) b"
    using assms by (cases "b = r") (auto simp: contents_of_def kept_def split: option.splits)
qed

lemma contents_removed: "contents_of m (S(a := None)) = (contents_of m S)(a := None)"
  by (auto simp: contents_of_def fun_eq_iff)

lemma contents_same:
  assumes "kept S m m'"
  shows "contents_of m' S = contents_of m S"
  using assms by (auto simp: contents_of_def kept_def fun_eq_iff split: option.splits)

lemma inv_contents:
  assumes "secure_inv y h S"
  shows "contents_of (memory h) S a = None \<longleftrightarrow> S a = None" "S 0 = None"
    "contents_of (memory h) S a = Some bs \<Longrightarrow> S a = Some (length bs)" "S a = Some 0 \<Longrightarrow> False"
proof -
  obtain gs where gs: "heap_ok y h gs" "sized S (allocations y h gs)" using assms by (auto simp: secure_inv_def)
  have ld: "\<exists>bs. load (memory h) a n = Some bs \<and> a \<noteq> 0 \<and> length bs = n \<and> n \<noteq> 0" if S: "S a = Some n" for a n
  proof -
    obtain bs where bs: "(a, bs) \<in> allocations y h gs" "length bs = n" using gs(2) S by (auto simp: sized_def)
    show ?thesis using allocation_load [OF gs(1) bs(1)] bs(2) by (auto simp: memory_def)
  qed
  show "contents_of (memory h) S a = None \<longleftrightarrow> S a = None"
    using ld [of a] by (cases "S a") (auto simp: contents_of_def)
  show "S 0 = None" using ld [of 0] by (cases "S 0") auto
  show "contents_of (memory h) S a = Some bs \<Longrightarrow> S a = Some (length bs)"
    using ld [of a] by (cases "S a") (auto simp: contents_of_def)
  show "S a = Some 0 \<Longrightarrow> False" using ld [of a 0] by auto
qed

lemma new_bytes_simulated:
  assumes inv: "secure_inv y h S"
  shows "\<exists>r h'. egg_secure_alloc_full y h tag n fl = Some (r, h') \<and>
    secure_inv y h' (if r = 0 then S else S(r \<mapsto> n)) \<and>
    new_bytes (contents_of (memory h) S) n r (contents_of (memory h') (if r = 0 then S else S(r \<mapsto> n)))"
proof -
  from inv_alloc [OF inv] obtain r h' where
    a: "egg_secure_alloc_full y h tag n fl = Some (r, h')" "kept S (memory h) (memory h')"
    "n = 0 \<or> insane_size n \<longrightarrow> r = 0"
    "if r = 0 then secure_inv y h' S
     else S r = None \<and> secure_inv y h' (S(r \<mapsto> n)) \<and> load (memory h') r n = Some (replicate n 0)" by blast
  show ?thesis
  proof (cases "r = 0")
    case True
    then show ?thesis using a contents_same [OF a(2)] by (simp add: new_bytes_def)
  next
    case False
    then have b: "S r = None" "secure_inv y h' (S(r \<mapsto> n))" "load (memory h') r n = Some (replicate n 0)" "0 < n"
      using a(3,4) by auto
    have "contents_of (memory h') (S(r \<mapsto> n)) = (contents_of (memory h) S)(r := contents_of (memory h') (S(r \<mapsto> n)) r)"
      by (rule contents_kept [OF a(2)]) simp
    moreover have "contents_of (memory h') (S(r \<mapsto> n)) r = Some (replicate n 0)" using b(3) by (simp add: contents_of_def)
    moreover have "contents_of (memory h) S r = None" using b(1) by (simp add: contents_of_def)
    ultimately show ?thesis using a(1) b(2,4) False by (simp add: new_bytes_def)
  qed
qed

lemma free_simulated:
  assumes inv: "secure_inv y h S" and p: "own_pointer h S a fl"
  shows "\<exists>h'. egg_secure_free_full y h a fl = Some h' \<and> secure_inv y h' (S(a := None)) \<and>
    contents_of (memory h') (S(a := None)) = (contents_of (memory h) S)(a := None)"
proof (cases "a = 0")
  case True
  have "S(0 := None) = S" using inv_contents(2) [OF inv] by auto
  then show ?thesis using True inv contents_removed [of "memory h" S 0] by (simp add: egg_secure_free_full_def)
next
  case False
  then obtain n where n: "S a = Some n" "fl \<or> egg_secure_check h a" using p by (auto simp: own_pointer_def)
  from inv_free [OF inv n] obtain h' where h': "egg_secure_free_full y h a fl = Some h'" "secure_inv y h' (S(a := None))"
    "kept (S(a := None)) (memory h) (memory h')" by blast
  then show ?thesis using contents_same [OF h'(3)] contents_removed by simp
qed

lemma realloc_simulated:
  assumes inv: "secure_inv y h S" and p: "S a = Some k" "fl \<or> egg_secure_check h a" and n: "n \<noteq> 0"
  shows "\<exists>r h'. egg_secure_realloc_full y h tag a n fl = Some (r, h') \<and>
    secure_inv y h' (if r = 0 then S else S(a := None, r \<mapsto> n)) \<and>
    outcome (contents_of (memory h) S) (Realloc tag a n fl) r (contents_of (memory h') (if r = 0 then S else S(a := None, r \<mapsto> n)))"
proof (cases "insane_size n")
  case True
  have "a \<noteq> 0" using inv_contents(2) [OF inv] p(1) by (metis option.distinct(1))
  then show ?thesis using True inv n by (simp add: egg_secure_realloc_full_def)
next
  case False
  have a0: "a \<noteq> 0" using inv_contents(2) [OF inv] p(1) by (metis option.distinct(1))
  from inv_realloc [OF inv p _ False] n obtain r h' where
    b: "egg_secure_realloc_full y h tag a n fl = Some (r, h')"
    "if r = 0 then secure_inv y h' S \<and> kept S (memory h) (memory h')
     else (r = a \<or> S r = None) \<and> secure_inv y h' (S(a := None, r \<mapsto> n)) \<and> kept (S(a := None)) (memory h) (memory h') \<and>
       (\<exists>old new. load (memory h) a k = Some old \<and> load (memory h') r n = Some new \<and>
          take (min n k) new = take (min n k) old)" by blast
  show ?thesis
  proof (cases "r = 0")
    case True
    then have "secure_inv y h' S" "kept S (memory h) (memory h')" using b(2) by simp_all
    then show ?thesis using b(1) True contents_same a0 n by auto
  next
    case False
    then obtain old new where c: "r = a \<or> S r = None" "secure_inv y h' (S(a := None, r \<mapsto> n))"
      "kept (S(a := None)) (memory h) (memory h')" "load (memory h) a k = Some old" "load (memory h') r n = Some new"
      "take (min n k) new = take (min n k) old" using b(2) by auto
    let ?T = "S(a := None, r \<mapsto> n)"
    have "contents_of (memory h') ?T = (contents_of (memory h) (S(a := None)))(r := contents_of (memory h') ?T r)"
      by (rule contents_kept [OF c(3)]) simp
    moreover have "contents_of (memory h') ?T r = Some new" using c(5) by (simp add: contents_of_def)
    ultimately have "contents_of (memory h') ?T = (contents_of (memory h) S)(a := None, r \<mapsto> new)"
      unfolding contents_removed by simp
    moreover have "contents_of (memory h) S a = Some old" using c(4) p(1) by (simp add: contents_of_def)
    moreover have "r = a \<or> contents_of (memory h) S r = None" using c(1) by (auto simp: contents_of_def)
    moreover have "length old = k" "length new = n" using load_length [OF c(4)] load_length [OF c(5)] by simp_all
    ultimately show ?thesis using b(1) c(2,6) False a0 n by auto
  qed
qed

lemma perform_simulated:
  assumes inv: "secure_inv y h S" and p: "permitted h S req"
  shows "\<exists>r h'. perform y h req = Some (r, h') \<and> secure_inv y h' (sizes_after S req r) \<and>
    outcome (contents_of (memory h) S) req r (contents_of (memory h') (sizes_after S req r))"
proof (cases req)
  case (Alloc tag n fl)
  then show ?thesis using new_bytes_simulated [OF inv, of tag n fl] by auto
next
  case (Free a fl)
  then show ?thesis using free_simulated [OF inv, of a fl] p by auto
next
  case (Write a off ws)
  then obtain n where n: "S a = Some n" "off + length ws \<le> n" using p by (auto split: option.splits)
  from inv_write [OF inv n] obtain m old where w: "store (memory h) (a + off) ws = Some m"
    "secure_inv y (set_sec ((sec h)\<lparr>space := m\<rparr>) h) S" "kept (S(a := None)) (memory h) m"
    "load (memory h) a n = Some old" "load m a n = Some (written old off ws)" by blast
  have "contents_of m S = (contents_of (memory h) (S(a := None)))(a := contents_of m S a)"
    by (rule contents_kept [OF w(3)]) simp
  then have "contents_of m S = (contents_of (memory h) S)(a \<mapsto> written old off ws)"
    unfolding contents_removed using w(5) n(1) by (simp add: contents_of_def)
  moreover have "contents_of (memory h) S a = Some old" using w(4) n(1) by (simp add: contents_of_def)
  ultimately show ?thesis using w(1,2) Write by (simp add: memory_def)
next
  case (Realloc tag a n fl)
  show ?thesis
  proof (cases "a = 0")
    case True
    have "S(0 := None) = S" using inv_contents(2) [OF inv] by auto
    then have after: "sizes_after S req r = (if r = 0 then S else S(r \<mapsto> n))" for r using Realloc True by simp
    show ?thesis
    proof (cases "insane_size n")
      case False
      from new_bytes_simulated [OF inv, of "Some (tag_or_default tag)" n fl] False Realloc True
      show ?thesis unfolding after by (simp add: egg_secure_realloc_full_def)
    next
      case ins: True
      then show ?thesis using inv Realloc True unfolding after
        by (intro exI [of _ 0] exI [of _ h]) (simp add: egg_secure_realloc_full_def new_bytes_def)
    qed
  next
    case False
    then obtain k where k: "S a = Some k" "fl \<or> egg_secure_check h a" "own_pointer h S a fl"
      using p Realloc by (auto simp: own_pointer_def)
    show ?thesis
    proof (cases "n = 0")
      case True
      then show ?thesis
        using free_simulated [OF inv k(3)] Realloc False by (auto simp: egg_secure_realloc_full_def insane_size_def)
    next
      case n: False
      then show ?thesis using realloc_simulated [OF inv k(1,2) n, of tag] Realloc by auto
    qed
  qed
qed

lemma fresh_inv:
  assumes "sys_ok y" "fallback_sizes y st = Map.empty"
  shows "secure_inv y (fresh_heap m st) Map.empty"
proof -
  have "heap_ok y (fresh_heap m st) []"
    using assms(2) by (simp add: heap_ok_def fresh_heap_def blocks_ok_def sizes_ok_def owned_def pools_own_def)
  moreover have "sized Map.empty (allocations y (fresh_heap m st) [])"
    using assms(2) by (simp add: sized_def fresh_heap_def allocations_def contents_def block_live_def fallback_live_def)
  ultimately show ?thesis using assms(1) by (auto simp: secure_inv_def)
qed

lemma session_inv:
  assumes "session y h S" "sys_ok y"
  shows "secure_inv y h S"
  using assms
proof (induction rule: session.induct)
  case (start st m)
  show ?case by (rule fresh_inv [OF start(2,1)])
next
  case (call h S req r h')
  then show ?case using perform_simulated [of y h S req] by auto
qed

end
