(* ===== verification/SecureLimits.thy ===== *)
theory SecureLimits
  imports SecureSessions
begin

text \<open>
  Which requests a new block of \<open>egg/egg-secure-memory.c\<close> can hold: those that leave room for the two
  guard words. The code sizes a block by the request alone, so that a request of whole pages gets a
  block that is too small for it.
\<close>

section \<open>The stock of a pool\<close>

definition stock :: "pool list \<Rightarrow> nat" where
  "stock ps = sum_list (map (\<lambda>p. length (p_unused p)) ps)"

lemma available_pool_stock:
  assumes "\<forall>p \<in> set ps. pool_ok p" "0 < stock ps"
  shows "available_pool ps \<noteq> None"
  using assms
proof (induction ps)
  case (Cons p ps)
  show ?case
  proof (cases "p_unused p = []")
    case True
    then have "0 < stock ps" "\<forall>p \<in> set ps. pool_ok p" using Cons.prems by (simp_all add: stock_def)
    then have "available_pool ps \<noteq> None" using Cons.IH by simp
    then show ?thesis by (cases "available_pool ps") (auto simp: split_def)
  next
    case False
    then show ?thesis using unused_peek_zero [of p] Cons.prems(1) by simp
  qed
qed (simp add: stock_def)

lemma pool_alloc_stock:
  assumes own: "pools_own ps A" and v: "version_ok pe" and st: "0 < stock ps"
  shows "\<exists>i ps'. pool_alloc pe ps = Some (i, ps') \<and> i \<noteq> 0 \<and> Suc (stock ps') = stock ps"
proof -
  have ok: "\<forall>p \<in> set ps. pool_ok p" using own by (simp add: pools_own_def)
  obtain before p after where f: "available_pool ps = Some (before, p, after)"
    using available_pool_stock [OF ok st] by (cases "available_pool ps") auto
  then have ps: "ps = before @ p # after" "unused_peek (p_unused p) \<noteq> 0" using available_pool_Some by blast+
  then obtain i rest where u: "p_unused p = i # rest" "i \<noteq> 0" by (cases "p_unused p") (auto simp: unused_peek_def)
  show ?thesis
    using f v u by (auto simp: pool_alloc_def unused_pop_def unused_peek_def ps(1) stock_def)
qed

lemma pool_alloc_first:
  assumes f: "maps_fresh pe []" and v: "version_ok pe" and m: "map_pages pe (page_size pe * 2) \<noteq> 0"
  shows "\<exists>i ps'. pool_alloc pe [] = Some (i, ps') \<and> i \<noteq> 0 \<and> 2 \<le> stock ps'"
proof -
  have "pools_own [] {}" by (simp add: pools_own_def)
  from new_pool_own [OF f this m] obtain p i rest where
    p: "new_pool (map_pages pe (page_size pe * 2)) (page_size pe * 2) = Some p" "p_unused p = i # rest" "i \<noteq> 0"
    "pools_own [p\<lparr>p_used := p_used p + 1, p_unused := rest\<rparr>] {i}" by auto
  have "128 \<le> page_size pe" using f by (simp add: maps_fresh_def Let_def)
  then have "3 \<le> p_n_items p"
    using p(1) by (auto simp: new_pool_def bind_eq_Some_conv sizeof_pool_def sizeof_item_def Let_def)
  moreover have "p_used p + 1 + length rest = p_n_items p" using p(4) by (simp add: pools_own_def pool_ok_def)
  moreover have "p_used p = 0" using p(1) by (auto simp: new_pool_def bind_eq_Some_conv Let_def)
  ultimately have "2 \<le> length rest" by simp
  then show ?thesis using v m p(1-3) by (simp add: pool_alloc_def Let_def unused_pop_def unused_peek_def stock_def)
qed

section \<open>The size of a new block\<close>

definition block_size :: "'f sys \<Rightarrow> nat \<Rightarrow> nat" where
  "block_size y n = unat (page_round (of_nat (if n < DEFAULT_BLOCK_SIZE then DEFAULT_BLOCK_SIZE else n)) (of_nat (getpagesize y)))"

lemma acquire_size: "sec_acquire_pages y s n = Some (p, sz, s') \<Longrightarrow> sz = unat (page_round (of_nat n) (of_nat (getpagesize y))) \<and> pools s' = pools s"
  by (auto simp: sec_acquire_pages_def bind_eq_Some_conv Let_def munmap_def split: if_splits)

text \<open>The run of \<open>sec_block_create\<close> that gives a block.\<close>

lemma create_run:
  assumes "sec_block_create y h n = Some (i, h')" "i \<noteq> 0"
  obtains ps1 c ps2 p sz s where "pool_alloc (kernel y (sec h)) (pools (sec h)) = Some (i, ps1)"
    "pool_alloc (kernel y ((sec h)\<lparr>pools := ps1\<rparr>)) ps1 = Some (c, ps2)" "c \<noteq> 0"
    "sec_acquire_pages y ((sec h)\<lparr>pools := ps2\<rparr>) (if n < DEFAULT_BLOCK_SIZE then DEFAULT_BLOCK_SIZE else n) = Some (p, sz, s)"
    "p \<noteq> 0" "pools (sec h') = pools s" "\<exists>b. all_blocks h' = b # all_blocks h \<and> b_n_words b = sz div 8"
proof -
  let ?k = "if n < DEFAULT_BLOCK_SIZE then DEFAULT_BLOCK_SIZE else n"
  have nf: "\<not> force_fallback y" using assms by (auto simp: sec_block_create_def)
  obtain j ps1 where a: "pool_alloc (kernel y (sec h)) (pools (sec h)) = Some (j, ps1)"
    using assms(1) nf by (cases "pool_alloc (kernel y (sec h)) (pools (sec h))") (auto simp: sec_block_create_def Let_def)
  let ?s1 = "(sec h)\<lparr>pools := ps1\<rparr>"
  have j: "j \<noteq> 0" using assms nf a by (cases "j = 0") (simp_all add: sec_block_create_def Let_def)
  obtain c ps2 where b: "pool_alloc (kernel y ?s1) ps1 = Some (c, ps2)"
    using assms(1) nf a j by (cases "pool_alloc (kernel y ?s1) ps1") (auto simp: sec_block_create_def Let_def)
  let ?s2 = "(sec h)\<lparr>pools := ps2\<rparr>"
  have c: "c \<noteq> 0"
  proof
    assume "c = 0"
    then show False using assms nf a b j
      by (cases "free_item ?s2 j") (simp_all add: sec_block_create_def Let_def)
  qed
  obtain p sz s where d: "sec_acquire_pages y ?s2 ?k = Some (p, sz, s)"
    using assms(1) nf a b j c by (cases "sec_acquire_pages y ?s2 ?k") (auto simp: sec_block_create_def Let_def)
  have p: "p \<noteq> 0"
  proof
    assume "p = 0"
    then show False using assms nf a b c d j
      by (auto simp: sec_block_create_def Let_def bind_eq_Some_conv)
  qed
  let ?cs = "(cells s)(c \<mapsto> blank_cell\<lparr>c_n_words := sz div 8, c_words := p\<rparr>)"
  have rest: "Some (i, h') = do {
      m \<leftarrow> sec_write_guards ?cs (space s) c;
      (cs, unused) \<leftarrow> sec_insert_cell_ring ?cs 0 c;
      let b = \<lparr>b_item = j, b_words = p, b_n_words = sz div 8, b_n_used = 0, b_used_cells = 0, b_unused_cells = unused\<rparr>;
      Some (j, h\<lparr>sec := s\<lparr>cells := cs, space := m\<rparr>, all_blocks := b # all_blocks h\<rparr>) }"
    using assms(1) nf a b c d p j by (simp add: sec_block_create_def Let_def)
  obtain m where m: "sec_write_guards ?cs (space s) c = Some m" using rest by (cases "sec_write_guards ?cs (space s) c") auto
  obtain cs unused where u: "sec_insert_cell_ring ?cs 0 c = Some (cs, unused)"
    using rest m by (cases "sec_insert_cell_ring ?cs 0 c") auto
  have "i = j" "h' = h\<lparr>sec := s\<lparr>cells := cs, space := m\<rparr>, all_blocks := \<lparr>b_item = j, b_words = p, b_n_words = sz div 8,
      b_n_used = 0, b_used_cells = 0, b_unused_cells = unused\<rparr> # all_blocks h\<rparr>" using rest m u by simp_all
  then show thesis using that [OF _ _ c d p] a b by simp
qed

lemma create_size:
  assumes "sec_block_create y h n = Some (i, h')" "i \<noteq> 0"
  shows "\<exists>b. all_blocks h' = b # all_blocks h \<and> b_n_words b = block_size y n div 8"
  using assms
proof (rule create_run)
  fix ps1 c ps2 p sz s
  assume "sec_acquire_pages y (sec h\<lparr>pools := ps2\<rparr>) (if n < DEFAULT_BLOCK_SIZE then DEFAULT_BLOCK_SIZE else n) = Some (p, sz, s)"
    "\<exists>b. all_blocks h' = b # all_blocks h \<and> b_n_words b = sz div 8"
  then show ?thesis using acquire_size unfolding block_size_def by blast
qed

text \<open>What does not fit a block between two guards is not allocated in it.\<close>

lemma sec_alloc_too_large:
  assumes ok: "block_ok (cells s) (space s) b L" and own: "pools_own (pools s) A" "set L \<subseteq> A" and E: "kernel_maps E"
    and n: "0 < n" "8 * b_n_words b < n + 16"
  shows "sec_alloc E s b tag n = Some (0, s, b)"
proof -
  have "maps_fresh (E s) (pools s)" using E own(1) by (auto simp: kernel_maps_def)
  from sec_alloc_spec [where E = E and tag = tag, OF ok own this n(1)] show ?thesis
  proof
    assume "\<exists>a s' b' L'. sec_alloc E s b tag n = Some (a, s', b') \<and> allocated_in A s b L n a s' b' L'"
    then obtain a s' b' L' where al: "allocated_in A s b L n a s' b' L'" by blast
    then have "block_ok (cells s') (space s') b' L'" "(a, replicate n 0) \<in> live (cells s') (space s') (set L')"
      "b_n_words b' = b_n_words b" "b_words b' = b_words b" by (simp_all add: allocated_in_def block_step_def)
    then have "b_words b + 8 \<le> a" "a + n + 8 \<le> b_end b"
      using live_bounds [of "cells s'" "space s'" b' L' a "replicate n 0"] by (simp_all add: b_end_def)
    then show ?thesis using n(2) by (simp add: b_end_def)
  qed
qed

lemma alloc_too_large:
  assumes inv: "secure_inv y h S" and none: "all_blocks h = []" and n: "0 < n" "n \<le> 2 ^ 31" "block_size y n < n + 16"
  shows "\<exists>h'. egg_secure_alloc_full y h tag n False = Some (0, h') \<and>
    (all_blocks h' = [] \<or> (\<exists>b. all_blocks h' = [b] \<and> b_n_words b = block_size y n div 8))"
proof -
  obtain gs where gs: "sys_ok y" "heap_ok y h gs" using inv by (auto simp: secure_inv_def)
  then have g0: "gs = []" using none by (simp add: heap_ok_def)
  have ko: "kernel_ok y" "kernel_maps (kernel y)" using gs(1) by (simp_all add: sys_ok_def kernel_ok_def)
  show ?thesis
  proof (cases "insane_size n")
    case True
    then show ?thesis using none by (simp add: egg_secure_alloc_full_def)
  next
    case False
    from block_create [OF gs(2) ko(1) n(1,2)] obtain i h1 where
      c: "sec_block_create y h n = Some (i, h1)" "created y h gs i h1" by blast
    have hh: "h\<lparr>all_blocks := []\<rparr> = h" using none by (metis heap.surjective heap.update_convs(2))
    show ?thesis
    proof (cases "i = 0")
      case True
      then have "alloc_locked y h (tag_or_default tag) n = Some (0, h1)"
        using c(1) none by (simp add: alloc_locked_def hh)
      then have run: "egg_secure_alloc_full y h tag n False = Some (0, h1)" using False n(1) by (simp add: egg_secure_alloc_full_def)
      have "heap_ok y h1 []" using c(2) True g0 by (simp add: created_def)
      then show ?thesis using run by (simp add: heap_ok_def)
    next
      case i: False
      obtain b where b: "all_blocks h1 = [b]" "b_n_words b = block_size y n div 8"
        using create_size [OF c(1) i] none by auto
      obtain d b' where h1: "heap_ok y h1 [(b', [d])]" using c(2) i g0 by (auto simp: created_def)
      then have "b' = b" using b(1) by (simp add: heap_ok_def)
      then have bo: "block_ok (cells (sec h1)) (space (sec h1)) b [d]" "pools_own (pools (sec h1)) (set (owned [(b, [d])]))"
        using h1 by (simp_all add: heap_ok_def blocks_ok_def)
      have sub: "set [d] \<subseteq> set (owned [(b, [d])])" by (simp add: owned_Cons)
      have "8 * b_n_words b < n + 16" using b(2) n(3) by simp
      from sec_alloc_too_large [where tag = "tag_or_default tag", OF bo sub ko(2) n(1) this]
      have "alloc_locked y h (tag_or_default tag) n = Some (0, h1)"
        using c(1) none b(1) i by (simp add: alloc_locked_def hh)
      then have "egg_secure_alloc_full y h tag n False = Some (0, h1)" using False n(1) by (simp add: egg_secure_alloc_full_def)
      then show ?thesis using b by blast
    qed
  qed
qed


section \<open>Requests that fit\<close>

lemma split_room:
  assumes "sec_split E s c k = Some (r, s')" "pools_own (pools s) A" "version_ok (E s)" "0 < stock (pools s)"
  shows "r \<noteq> 0"
proof -
  obtain i ps where "pool_alloc (E s) (pools s) = Some (i, ps)" "i \<noteq> 0" using pool_alloc_stock [OF assms(2-4)] by blast
  then show ?thesis using assms(1) by (auto simp: sec_split_def bind_eq_Some_conv Let_def)
qed

lemma sec_alloc_room:
  assumes ok: "block_ok (cells s) (space s) b [c]" and free: "\<not> in_use (cells s) c"
    and own: "pools_own (pools s) A" "version_ok (E s)" "0 < stock (pools s)"
    and n: "0 < n" "sec_size_to_words n + 2 \<le> b_n_words b" and run: "sec_alloc E s b tag n = Some (r, s', b')"
  shows "r \<noteq> 0"
proof -
  have "free_of (cells s) [c] = {c}" using free by (auto simp: free_of_def)
  then have r: "ring_of (cells s) (b_unused_cells b) {c}" and lay: "layout (cells s) (space s) (b_words b) [c] (b_end b)"
    using ok by (simp_all add: block_ok_def block_rings_def block_base_def)
  have h: "b_unused_cells b = c" "c \<noteq> 0" using r by (auto simp: ring_of_def split: if_splits)
  obtain cl where cl: "cells s c = Some cl" "c_n_words cl = b_n_words b" using lay by (auto simp: b_end_def)
  let ?k = "sec_size_to_words n + 2"
  have find: "sec_find_cell (cells s) c ?k c = Some c"
    using cl n(2) h(2) by (subst sec_find_cell.simps) (simp add: cell_at_def)
  define step where "step = (if c_n_words cl > ?k + WASTE then sec_split E s c ?k else Some (c, s))"
  have cell: "cell \<noteq> 0" if "step = Some (cell, t)" for cell t
    using that h(2) split_room [where E = E and s = s, OF _ own] by (auto simp: step_def split: if_splits)
  have "\<exists>k. r = sec_cell_to_memory k"
  proof -
    have eq: "sec_alloc E s b tag n = do {
         c_assert (c_tag cl = None);
         c_assert (c_requested cl = 0);
         c_assert (c_prev cl \<noteq> 0);
         c_assert (c_words cl \<noteq> 0);
         sec_check_guards (cells s) (space s) c;
         (cell, s) \<leftarrow> step;
         if cell = 0 then Some (0, s, b)
         else do {
           c \<leftarrow> cell_at (cells s) cell;
           (cs, unused) \<leftarrow> (if c_next c \<noteq> 0
             then sec_remove_cell_ring (cells s) (b_unused_cells b) cell
             else Some (cells s, b_unused_cells b));
           c \<leftarrow> cell_at cs cell;
           let cs = cs(cell \<mapsto> c\<lparr>c_tag := Some tag, c_requested := n\<rparr>);
           (cs, used) \<leftarrow> sec_insert_cell_ring cs (b_used_cells b) cell;
           let memory = sec_cell_to_memory c;
           m \<leftarrow> store (space s) memory (replicate n 0);
           Some (memory, s\<lparr>cells := cs, space := m\<rparr>,
             b\<lparr>b_n_used := b_n_used b + 1, b_used_cells := used, b_unused_cells := unused\<rparr>) } }"
      using n(1) h find cl(1) unfolding sec_alloc_def step_def by (simp add: Let_def cell_at_def)
    note run' = run [unfolded eq]
    obtain cell t where st: "step = Some (cell, t)" using run' by (cases step) (auto simp: bind_eq_Some_conv)
    have nz: "cell \<noteq> 0" by (rule cell [OF st])
    show ?thesis using run' nz by (auto simp: st bind_eq_Some_conv Let_def)
  qed
  then show ?thesis by (auto simp: sec_cell_to_memory_def)
qed

text \<open>A kernel that gives pages when it is asked by a process that has none.\<close>

definition generous :: "'f sys \<Rightarrow> space \<Rightarrow> bool" where
  "generous y m \<longleftrightarrow> \<not> force_fallback y \<and> (\<forall>s. version_ok (kernel y s)) \<and>
     (\<forall>s. pools s = [] \<longrightarrow> map_pages (kernel y s) (page_size (kernel y s) * 2) \<noteq> 0) \<and>
     (\<forall>s sz. space s = m \<longrightarrow> mmap_secure y s sz \<noteq> 0 \<and> mlock_ok y s (mmap_secure y s sz) sz)"

lemma acquire_generous:
  assumes "generous y (space s)" "sec_acquire_pages y s n = Some (p, sz, s')"
  shows "p \<noteq> 0"
proof -
  let ?sz = "unat (page_round (of_nat n) (of_nat (getpagesize y)))"
  have "mmap_secure y s ?sz \<noteq> 0" "mlock_ok y s (mmap_secure y s ?sz) ?sz" using assms(1) unfolding generous_def by blast+
  then show ?thesis using assms(2) by (auto simp: sec_acquire_pages_def Let_def bind_eq_Some_conv)
qed

lemma block_size_words:
  assumes "kernel_ok y" "n \<le> 2 ^ 31"
  shows "8 * (block_size y n div 8) = block_size y n"
proof -
  obtain k where k: "3 \<le> k" "k < 32" "getpagesize y = 2 ^ k" using assms(1) by (auto simp: kernel_ok_def)
  let ?n = "if n < DEFAULT_BLOCK_SIZE then DEFAULT_BLOCK_SIZE else n"
  have "(2 :: nat) ^ k \<le> 2 ^ 31" using k(2) by (intro power_increasing) auto
  moreover have "?n \<le> 2 ^ 31" "0 < ?n" using assms(2) by (auto simp: DEFAULT_BLOCK_SIZE_def)
  ultimately have "block_size y n = (?n + 2 ^ k - 1) div 2 ^ k * 2 ^ k"
    unfolding block_size_def k(3) using k(2) by (intro page_round_unat) auto
  moreover have "(8 :: nat) dvd 2 ^ k" using le_imp_power_dvd [OF k(1), of "2 :: nat"] by simp
  ultimately show ?thesis by simp
qed

lemma create_generous:
  assumes y: "sys_ok y" "generous y m" and e: "fallback_sizes y st = Map.empty" and n: "0 < n" "n \<le> 2 ^ 31"
  shows "\<exists>i h b c. sec_block_create y (fresh_heap m st) n = Some (i, h) \<and> i \<noteq> 0 \<and> all_blocks h = [b] \<and>
    b_n_words b = block_size y n div 8 \<and> heap_ok y h [(b, [c])] \<and> allocations y h [(b, [c])] = {} \<and> 0 < stock (pools (sec h))"
proof -
  let ?h = "fresh_heap m st :: 'a heap" and ?k = "if n < DEFAULT_BLOCK_SIZE then DEFAULT_BLOCK_SIZE else n"
  have f: "sec ?h = \<lparr>pools = [], cells = Map.empty, space = m\<rparr>" "all_blocks ?h = []" by (simp_all add: fresh_heap_def)
  have ok: "heap_ok y ?h []" "allocations y ?h [] = {}"
    using e by (simp_all add: heap_ok_def fresh_heap_def blocks_ok_def sizes_ok_def owned_def pools_own_def allocations_def
      contents_def block_live_def fallback_live_def)
  have ko: "kernel_ok y" "kernel_maps (kernel y)" using y(1) by (simp_all add: sys_ok_def kernel_ok_def)
  from block_create [OF ok(1) ko(1) n] obtain i h where c: "sec_block_create y ?h n = Some (i, h)" "created y ?h [] i h" by blast
  have own0: "pools_own [] {}" by (simp add: pools_own_def)
  have fr: "maps_fresh (kernel y s) (pools s)" if "pools_own (pools s) A" for s A
    using ko(2) that unfolding kernel_maps_def by blast
  have v: "version_ok (kernel y s)" for s using y(2) by (simp add: generous_def)
  obtain j ps1 where a: "pool_alloc (kernel y (sec ?h)) [] = Some (j, ps1)" "j \<noteq> 0" "2 \<le> stock ps1"
    using pool_alloc_first [OF _ v, of "sec ?h"] fr [of "sec ?h" "{}"] own0 y(2) f(1) by (auto simp: generous_def)
  have "pools_own ps1 {j}" using pool_alloc_owns [OF _ own0, of "kernel y (sec ?h)"] fr [of "sec ?h" "{}"] own0 f(1) a by auto
  then have own1: "pools_own (pools ((sec ?h)\<lparr>pools := ps1\<rparr>)) {j}" by simp
  obtain c2 ps2 where b: "pool_alloc (kernel y ((sec ?h)\<lparr>pools := ps1\<rparr>)) ps1 = Some (c2, ps2)" "c2 \<noteq> 0" "Suc (stock ps2) = stock ps1"
    using pool_alloc_stock [of ps1 "{j}", OF _ v] own1 a(3) by fastforce
  have k: "0 < ?k" "?k \<le> 2 ^ 31" using n by (auto simp: DEFAULT_BLOCK_SIZE_def)
  let ?s2 = "(sec ?h)\<lparr>pools := ps2\<rparr>"
  obtain p sz s3 where d: "sec_acquire_pages y ?s2 ?k = Some (p, sz, s3)" using acquire_pages [OF ko(1) k] by blast
  have p: "p \<noteq> 0" by (rule acquire_generous [OF _ d]) (use y(2) f(1) in simp)
  have "i \<noteq> 0"
  proof
    assume "i = 0"
    then show False
      using c(1) y(2) a(1,2) b(1,2) d p f(1) by (auto simp: sec_block_create_def generous_def Let_def bind_eq_Some_conv)
  qed
  moreover obtain b' d' where h1: "heap_ok y h [(b', [d'])]" "allocations y h [(b', [d'])] = {}"
    using c(2) calculation ok(2) by (auto simp: created_def)
  moreover obtain b0 where b0: "all_blocks h = [b0]" "b_n_words b0 = block_size y n div 8"
    using create_size [OF c(1) calculation(1)] f(2) by auto
  moreover have "b0 = b'" using b0(1) h1(1) by (simp add: heap_ok_def)
  moreover have "0 < stock (pools (sec h))"
    using c(1) \<open>i \<noteq> 0\<close>
  proof (rule create_run)
    fix qs1 c' qs2 p' sz' s'
    assume q: "pool_alloc (kernel y (sec ?h)) (pools (sec ?h)) = Some (i, qs1)"
      "pool_alloc (kernel y ((sec ?h)\<lparr>pools := qs1\<rparr>)) qs1 = Some (c', qs2)"
      "sec_acquire_pages y ((sec ?h)\<lparr>pools := qs2\<rparr>) ?k = Some (p', sz', s')" "pools (sec h) = pools s'"
    then have "qs1 = ps1" using a(1) f(1) by simp
    then have "qs2 = ps2" using q(2) b(1) by simp
    then show ?thesis using acquire_size [OF q(3)] q(4) a(3) b(3) by simp
  qed
  ultimately show ?thesis using c(1) by blast
qed

lemma fresh_alloc:
  assumes y: "sys_ok y" "generous y m" and e: "fallback_sizes y st = Map.empty"
    and n: "0 < n" "\<not> insane_size n" "n + 16 \<le> block_size y n"
  shows "\<exists>r h. egg_secure_alloc_full y (fresh_heap m st) tag n fl = Some (r, h) \<and> r \<noteq> 0 \<and> egg_secure_check h r"
proof -
  let ?h = "fresh_heap m st :: 'a heap"
  have n2: "n \<le> 2 ^ 31" using n(2) by (simp add: insane_size_def)
  from create_generous [OF y e n(1) n2] obtain i h b c where
    c: "sec_block_create y ?h n = Some (i, h)" "i \<noteq> 0" "all_blocks h = [b]" "b_n_words b = block_size y n div 8"
    "heap_ok y h [(b, [c])]" "allocations y h [(b, [c])] = {}" "0 < stock (pools (sec h))" by blast
  let ?z = "fallback_sizes y (other h)"
  have so: "blocks_ok y (sec h) ([] @ [(b, [c])])" "sizes_ok ?z (space (sec h)) ([] @ [(b, [c])])"
    using c(5) by (simp_all add: heap_ok_def)
  have km: "kernel_maps (kernel y)" using y(1) by (simp add: sys_ok_def kernel_ok_def)
  have bo: "block_ok (cells (sec h)) (space (sec h)) b [c]" and own: "pools_own (pools (sec h)) (set (owned [(b, [c])]))"
    using so(1) by (simp_all add: blocks_ok_def)
  have free: "\<not> in_use (cells (sec h)) c"
  proof
    assume "in_use (cells (sec h)) c"
    then obtain cl where cl: "cells (sec h) c = Some cl" "0 < c_requested cl" by (auto simp: in_use_def)
    have base: "block_base (cells (sec h)) (space (sec h)) b [c]" using bo by (simp add: block_ok_def)
    then obtain k where k: "cells (sec h) c = Some k" "cell_ok k" "b_words b = c_words k" "c_words k + 8 * c_n_words k = b_end b"
      by (auto simp: block_base_def)
    have "readable (space (sec h)) (c_words cl + 8) (c_requested cl)"
      by (rule base_mapped [OF base]) (use k cl in \<open>auto simp: cell_ok_def\<close>)
    then obtain bs where "load (space (sec h)) (c_words cl + 8) (c_requested cl) = Some bs" using load_Some by blast
    then have "(c_words cl + 8, bs) \<in> allocations y h [(b, [c])]"
      using cl by (auto simp: allocations_def contents_def block_live_def live_def)
    then show False using c(6) by simp
  qed
  have ko: "kernel_ok y" using y(1) by (simp add: sys_ok_def)
  have "n + 16 \<le> 8 * b_n_words b" unfolding c(4) block_size_words [OF ko n2] by (rule n(3))
  then have fit: "sec_size_to_words n + 2 \<le> b_n_words b" using words_le [of n "b_n_words b - 2"] by linarith
  obtain r s b' where al: "sec_alloc (kernel y) (sec h) b (tag_or_default tag) n = Some (r, s, b')"
    using alloc_one [OF so km n(1), of "tag_or_default tag"] by blast
  have v: "version_ok (kernel y (sec h))" using y(2) by (simp add: generous_def)
  have r: "r \<noteq> 0" by (rule sec_alloc_room [OF bo free own v c(7) n(1) fit al])
  have hh: "?h\<lparr>all_blocks := []\<rparr> = ?h" by (simp add: fresh_heap_def)
  have f: "all_blocks ?h = []" by (simp add: fresh_heap_def)
  have "alloc_locked y ?h (tag_or_default tag) n = Some (r, h\<lparr>sec := s, all_blocks := [b']\<rparr>)"
    using c(1-3) f al by (simp add: alloc_locked_def hh)
  then have run: "egg_secure_alloc_full y ?h tag n fl = Some (r, h\<lparr>sec := s, all_blocks := [b']\<rparr>)"
    using n(1,2) r by (simp add: egg_secure_alloc_full_def)
  have ok: "heap_ok y ?h []" "other ?h = st"
    using e by (simp_all add: heap_ok_def fresh_heap_def blocks_ok_def sizes_ok_def owned_def pools_own_def)
  from alloc_locked [OF ok(1) y(1) n(1) n2, of "tag_or_default tag"] obtain gs' where
    g: "alloc_result y ?h [] n r (h\<lparr>sec := s, all_blocks := [b']\<rparr>) gs'" "other h = st"
    using ok(2) \<open>alloc_locked y ?h (tag_or_default tag) n = Some (r, h\<lparr>sec := s, all_blocks := [b']\<rparr>)\<close> by auto
  let ?h' = "h\<lparr>sec := s, all_blocks := [b']\<rparr>"
  have "heap_ok y ?h' gs'" "(r, replicate n 0) \<in> allocations y ?h' gs'" using g(1) r by (simp_all add: alloc_result_def)
  then have "egg_secure_check ?h' r"
  proof (cases rule: allocation_cases)
    case (block xs b L ys)
    then show ?thesis by (simp add: egg_secure_check_def)
  next
    case (fallback f k)
    then show ?thesis using e g(2) by simp
  qed
  then show ?thesis using run r by blast
qed

end
