(* ===== verification/SecureStrings.thy ===== *)
theory SecureStrings
  imports SecureLimits
begin

text \<open>
  The copies of strings of \<open>egg/egg-secure-memory.c\<close>: \<open>egg_secure_strdup_full\<close> and
  \<open>egg_secure_strndup_full\<close> need of the allocator no more than an interface, which is stated as a
  locale and proved of \<open>egg_secure_alloc_full\<close>; and \<open>egg_secure_strclear\<close>.
\<close>

section \<open>The interface of an allocator\<close>

text \<open>A new allocation with a copy of a piece of memory.\<close>

definition copy_new ::
  "('h \<Rightarrow> nat \<Rightarrow> (nat \<times> 'h) option) \<Rightarrow> ('h \<Rightarrow> space) \<Rightarrow> (space \<Rightarrow> 'h \<Rightarrow> 'h) \<Rightarrow> 'h \<Rightarrow> nat \<Rightarrow> nat \<Rightarrow> (nat \<times> 'h) option" where
  "copy_new alloc mem set_mem h src n = do {
     (r, h) \<leftarrow> alloc h n;
     bs \<leftarrow> load (mem h) src n;
     c_assert (r \<noteq> 0);
     m \<leftarrow> store (mem h) r bs;
     Some (r, set_mem m h) }"

lemma load_byte: "load m a n = Some bs \<Longrightarrow> i < n \<Longrightarrow> m (a + i) = Some (bs ! i)"
  by (auto simp: load_def readable_def split: if_splits)

locale zeroing_allocator =
  fixes inv :: "'e \<Rightarrow> 'h \<Rightarrow> (nat \<Rightarrow> nat option) \<Rightarrow> bool"
    and mem :: "'h \<Rightarrow> space"
    and set_mem :: "space \<Rightarrow> 'h \<Rightarrow> 'h"
    and alloc :: "'e \<Rightarrow> 'h \<Rightarrow> nat \<Rightarrow> (nat \<times> 'h) option"
  assumes alloc_law: "\<And>e h S n. inv e h S \<Longrightarrow> \<exists>r h'. alloc e h n = Some (r, h') \<and> kept S (mem h) (mem h') \<and>
      (if r = 0 then inv e h' S else S r = None \<and> inv e h' (S(r \<mapsto> n)))"
    and store_law: "\<And>e h S a n off ws. inv e h S \<Longrightarrow> S a = Some n \<Longrightarrow> off + length ws \<le> n \<Longrightarrow>
      \<exists>m. store (mem h) (a + off) ws = Some m \<and> inv e (set_mem m h) S \<and> kept (S(a := None)) (mem h) m"
    and mapped: "\<And>e h S a n. inv e h S \<Longrightarrow> S a = Some n \<Longrightarrow> readable (mem h) a n"
    and mem_set: "\<And>m h. mem (set_mem m h) = m"

context zeroing_allocator
begin

lemma kept_byte:
  assumes "inv e h S" "kept S (mem h) m" "S a = Some n" "a \<le> x" "x < a + n"
  shows "m x = mem h x"
proof -
  obtain bs where bs: "load (mem h) a n = Some bs" using load_Some [OF mapped [OF assms(1,3)]] by blast
  then have l: "load m a n = load (mem h) a n" using assms(2,3) by (simp add: kept_def)
  have i: "x = a + (x - a)" "x - a < n" using assms(4,5) by simp_all
  have "m (a + (x - a)) = Some (bs ! (x - a))" "mem h (a + (x - a)) = Some (bs ! (x - a))"
    using i(2) bs l load_byte by metis+
  then show ?thesis using i(1) by simp
qed

lemma kept_part:
  assumes "inv e h S" "kept S (mem h) m" "S a = Some n" "a \<le> src" "src + k \<le> a + n"
  shows "load m src k = load (mem h) src k" "readable (mem h) src k"
proof -
  show "load m src k = load (mem h) src k" by (rule load_cong) (use kept_byte [OF assms(1-3)] assms(4,5) in auto)
  show "readable (mem h) src k" by (rule readable_sub [OF mapped [OF assms(1,3)]]) (use assms(4,5) in auto)
qed

lemma kept_trans: "kept S m1 m2 \<Longrightarrow> kept S m2 m3 \<Longrightarrow> kept S m1 m3"
  by (simp add: kept_def)

text \<open>The copy fails exactly when there is no memory for it.\<close>

lemma copy_new:
  assumes h: "inv e h S" and a: "S a = Some n" "a \<le> src" "src + k \<le> a + n"
  shows "\<exists>r h1. alloc e h k = Some (r, h1) \<and> (if r = 0 then copy_new (alloc e) mem set_mem h src k = None
     else \<exists>h'. copy_new (alloc e) mem set_mem h src k = Some (r, h') \<and> S r = None \<and> inv e h' (S(r \<mapsto> k)) \<and>
       kept S (mem h) (mem h') \<and> load (mem h') r k = load (mem h) src k)"
proof -
  obtain r h1 where r: "alloc e h k = Some (r, h1)" "kept S (mem h) (mem h1)"
    "if r = 0 then inv e h1 S else S r = None \<and> inv e h1 (S(r \<mapsto> k))" using alloc_law [OF h] by blast
  obtain bs where bs: "load (mem h) src k = Some bs" using load_Some [OF kept_part(2) [OF h r(2) a]] by blast
  then have bs1: "load (mem h1) src k = Some bs" using kept_part(1) [OF h r(2) a] by simp
  have len: "length bs = k" by (rule load_length [OF bs])
  show ?thesis
  proof (cases "r = 0")
    case True
    then show ?thesis using r(1) bs1 by (simp add: copy_new_def)
  next
    case False
    then have s: "S r = None" "inv e h1 (S(r \<mapsto> k))" using r(3) by simp_all
    have "(S(r \<mapsto> k)) r = Some k" "0 + length bs \<le> k" using len by simp_all
    from store_law [OF s(2) this] obtain m where m: "store (mem h1) r bs = Some m" "inv e (set_mem m h1) (S(r \<mapsto> k))"
      "kept ((S(r \<mapsto> k))(r := None)) (mem h1) m" unfolding add_0_right by blast
    have "(S(r \<mapsto> k))(r := None) = S" using s(1) by (simp add: fun_upd_idem)
    then have "kept S (mem h) m" using kept_trans [OF r(2)] m(3) by simp
    moreover have "load m r k = Some bs"
      using m(1) load_overwrite_same [of "mem h1" r bs] len by (auto simp: store_def split: if_splits)
    moreover have "copy_new (alloc e) mem set_mem h src k = Some (r, set_mem m h1)"
      using r(1) bs1 False m(1) by (simp add: copy_new_def)
    ultimately show ?thesis using r(1) False s(1) m(2) bs by (simp add: mem_set del: fun_upd_apply)
  qed
qed

end

lemma inv_readable: "secure_inv y h S \<Longrightarrow> S a = Some n \<Longrightarrow> readable (memory h) a n"
  using inv_contents(1) [of y h S a] load_readable by (fastforce simp: contents_of_def)

lemma zeroing_secure:
  "zeroing_allocator (\<lambda>(y, tag, fl) h S. secure_inv y h S) memory (\<lambda>m h. set_sec ((sec h)\<lparr>space := m\<rparr>) h)
     (\<lambda>(y, tag, fl) h n. egg_secure_alloc_full y h tag n fl)"
proof (unfold_locales, goal_cases)
  case (1 e h S n)
  obtain y tag fl where e: "e = (y, tag, fl)" by (cases e)
  have "secure_inv y h S" using 1 e by simp
  from inv_alloc [OF this, of tag n fl] obtain r h' where
    "egg_secure_alloc_full y h tag n fl = Some (r, h')" "kept S (memory h) (memory h')"
    "if r = 0 then secure_inv y h' S else S r = None \<and> secure_inv y h' (S(r \<mapsto> n))" by (auto split: if_splits)
  then show ?case unfolding e by (intro exI [of _ r] exI [of _ h']) simp
next
  case (2 e h S a n off ws)
  obtain y tag fl where e: "e = (y, tag, fl)" by (cases e)
  have "secure_inv y h S" using 2(1) e by simp
  from inv_write [OF this 2(2,3)] show ?case unfolding e by auto
next
  case (3 e h S a n)
  then show ?case using inv_readable by (cases e) auto
next
  case (4 m h)
  then show ?case by (simp add: memory_def)
qed

interpretation secure_strings: zeroing_allocator
  "\<lambda>(y, tag, fl) h S. secure_inv y h S" memory "\<lambda>m h. set_sec ((sec h)\<lparr>space := m\<rparr>) h"
  "\<lambda>(y, tag, fl) h n. egg_secure_alloc_full y h tag n fl"
  by (rule zeroing_secure)

section \<open>Copies of strings\<close>

lemma c_strlen_step: "c_strlen m a = (case m a of None \<Rightarrow> None
    | Some ch \<Rightarrow> if ch = 0 then Some 0 else map_option Suc (c_strlen m (Suc a)))"
  by (subst c_strlen.simps) (auto split: option.splits simp: bind_eq_Some_conv map_option_case)

text \<open>A string of \<open>n\<close> characters at \<open>a\<close>, with its terminator.\<close>

lemma strlen_same:
  "c_strlen m a = Some n \<Longrightarrow> (\<And>x. a \<le> x \<Longrightarrow> x \<le> a + n \<Longrightarrow> m' x = m x) \<Longrightarrow> c_strlen m' a = Some n"
proof (induction n arbitrary: a)
  case 0
  then have "m a = Some 0" by (subst (asm) c_strlen_step) (auto split: option.splits if_splits)
  then show ?case using 0(2) [of a] by (subst c_strlen_step) simp
next
  case (Suc n)
  then obtain ch where ch: "m a = Some ch" "ch \<noteq> 0" "c_strlen m (Suc a) = Some n"
    by (subst (asm) c_strlen_step) (auto split: option.splits if_splits)
  have "c_strlen m' (Suc a) = Some n" by (rule Suc.IH [OF ch(3)]) (use Suc.prems(2) in auto)
  then show ?case using ch(1,2) Suc.prems(2) [of a] by (subst c_strlen_step) simp
qed

lemma strlen_of_bytes:
  assumes "load m a n = Some bs" "i < n" "bs ! i = 0" "\<And>j. j < i \<Longrightarrow> bs ! j \<noteq> 0"
  shows "c_strlen m a = Some i"
  using assms
proof (induction i arbitrary: a n bs)
  case 0
  then show ?case using load_byte [OF 0(1), of 0] by (subst c_strlen_step) simp
next
  case (Suc i)
  have b0: "m a = Some (bs ! 0)" "bs ! 0 \<noteq> 0" using load_byte [OF Suc.prems(1), of 0] Suc.prems(2,4) by auto
  obtain k where k: "n = Suc k" using Suc.prems(2) by (cases n) auto
  have len: "length bs = n" by (rule load_length [OF Suc.prems(1)])
  have "readable m (Suc a) k" by (rule readable_sub [OF load_readable [OF Suc.prems(1)]]) (use k in auto)
  then obtain cs where cs: "load m (Suc a) k = Some cs" using load_Some by blast
  have nth: "cs ! j = bs ! Suc j" if "j < k" for j
    using load_byte [OF cs that] load_byte [OF Suc.prems(1), of "Suc j"] that k by simp
  have "c_strlen m (Suc a) = Some i"
    by (rule Suc.IH [OF cs]) (use Suc.prems(2-4) k nth in auto)
  then show ?case using b0 by (subst c_strlen_step) simp
qed

lemma strlen_bytes:
  assumes "c_strlen m a = Some n"
  shows "\<exists>bs. load m a (n + 1) = Some bs \<and> bs ! n = 0 \<and> (\<forall>j < n. bs ! j \<noteq> 0)"
  using assms
proof (induction n arbitrary: a)
  case 0
  then have "m a = Some 0" by (subst (asm) c_strlen_step) (auto split: option.splits if_splits)
  then show ?case by (simp add: load_def readable_def)
next
  case (Suc n)
  then obtain ch where ch: "m a = Some ch" "ch \<noteq> 0" "c_strlen m (Suc a) = Some n"
    by (subst (asm) c_strlen_step) (auto split: option.splits if_splits)
  obtain bs where bs: "load m (Suc a) (n + 1) = Some bs" "bs ! n = 0" "\<forall>j < n. bs ! j \<noteq> 0"
    using Suc.IH [OF ch(3)] by blast
  have len: "length bs = n + 1" by (rule load_length [OF bs(1)])
  have byte: "m (a + Suc j) = Some (bs ! j)" if "j < n + 1" for j using load_byte [OF bs(1) that] by simp
  have "readable m a (Suc n + 1)"
    unfolding readable_def
  proof (intro allI impI)
    fix i
    assume "i < Suc n + 1"
    then show "m (a + i) \<noteq> None" using ch(1) byte [of "i - 1"] by (cases i) auto
  qed
  then obtain cs where cs: "load m a (Suc n + 1) = Some cs" using load_Some by blast
  have "cs ! 0 = ch" using load_byte [OF cs, of 0] ch(1) by simp
  moreover have later: "cs ! Suc j = bs ! j" if "j < n + 1" for j
    using load_byte [OF cs, of "Suc j"] byte [OF that] that by simp
  have "cs ! Suc n = 0" using later [of n] bs(2) by simp
  moreover have "cs ! j \<noteq> 0" if "j < Suc n" for j
    using that calculation(1) ch(2) later [of "j - 1"] bs(3) by (cases j) auto
  ultimately have "cs ! Suc n = 0 \<and> (\<forall>j < Suc n. cs ! j \<noteq> 0)" by blast
  then show ?case using cs by blast
qed

definition in_allocation :: "(nat \<Rightarrow> nat option) \<Rightarrow> nat \<Rightarrow> nat \<Rightarrow> bool" where
  "in_allocation S p k \<longleftrightarrow> (\<exists>a n. S a = Some n \<and> a \<le> p \<and> p + k \<le> a + n)"

lemma strdup_copies:
  assumes inv: "secure_inv y h S" and s: "c_strlen (memory h) str = Some n" "in_allocation S str (n + 1)" "str \<noteq> 0"
  shows "\<exists>r h1. egg_secure_alloc_full y h tag (n + 1) fl = Some (r, h1) \<and>
    (if r = 0 then egg_secure_strdup_full y h tag str fl = None
     else \<exists>h'. egg_secure_strdup_full y h tag str fl = Some (r, h') \<and> S r = None \<and> secure_inv y h' (S(r \<mapsto> n + 1)) \<and>
       kept S (memory h) (memory h') \<and> load (memory h') r (n + 1) = load (memory h) str (n + 1))"
proof -
  obtain a k where a: "S a = Some k" "a \<le> str" "str + (n + 1) \<le> a + k" using s(2) by (auto simp: in_allocation_def)
  let ?copy = "copy_new (\<lambda>h n. egg_secure_alloc_full y h tag n fl) memory (\<lambda>m h. set_sec ((sec h)\<lparr>space := m\<rparr>) h) h str (n + 1)"
  obtain r h1 where r: "egg_secure_alloc_full y h tag (n + 1) fl = Some (r, h1)" "kept S (memory h) (memory h1)"
    using inv_alloc [OF inv, of tag "n + 1" fl] by blast
  have "c_strlen (memory h1) str = Some n"
    by (rule strlen_same [OF s(1)])
      (use secure_strings.kept_byte [of "(y, tag, fl)" h S "memory h1" a k] inv r(2) a in auto)
  then have "egg_secure_strdup_full y h tag str fl = ?copy"
    using s(1,3) r(1) by (simp add: egg_secure_strdup_full_def copy_new_def memory_def Let_def)
  then show ?thesis using secure_strings.copy_new [of "(y, tag, fl)" h S a k str "n + 1"] inv a by auto
qed

lemma memchr0_first:
  "c_memchr0 m a n = Some (Some i) \<Longrightarrow> i < n \<and> c_strlen m a = Some i"
proof (induction n arbitrary: a i)
  case (Suc n)
  then obtain ch where ch: "m a = Some ch" by (auto simp: bind_eq_Some_conv)
  show ?case
  proof (cases "ch = 0")
    case True
    then have "i = 0" using Suc.prems ch by simp
    then show ?thesis using ch True by (subst c_strlen_step) simp
  next
    case False
    then obtain j where "c_memchr0 m (Suc a) n = Some (Some j)" "i = Suc j" using Suc.prems ch by auto
    then show ?thesis using Suc.IH [of "Suc a" j] ch False by (subst c_strlen_step) simp
  qed
qed simp

lemma memchr0_None:
  "c_memchr0 m a n = Some None \<Longrightarrow> j < n \<Longrightarrow> \<exists>ch. m (a + j) = Some ch \<and> ch \<noteq> 0"
proof (induction n arbitrary: a j)
  case (Suc n)
  then obtain ch where ch: "m a = Some ch" "ch \<noteq> 0" "c_memchr0 m (Suc a) n = Some None"
    by (auto simp: bind_eq_Some_conv split: if_splits)
  then show ?case using Suc.IH [OF ch(3), of "j - 1"] Suc.prems(2) by (cases j) auto
qed simp

text \<open>
  A copy of the first \<open>n\<close> characters of a longer string: the code copies \<open>n + 1\<close> bytes of the
  original, and no terminator of its own.
\<close>

lemma strndup_copies:
  assumes inv: "secure_inv y h S" and s: "c_memchr0 (memory h) str n = Some None" "in_allocation S str (n + 1)" "str \<noteq> 0"
    and n: "n + 1 < size_limit"
  shows "\<exists>r h1. egg_secure_alloc_full y h tag (n + 1) fl = Some (r, h1) \<and>
    (if r = 0 then egg_secure_strndup_full y h tag str n fl = None
     else \<exists>h'. egg_secure_strndup_full y h tag str n fl = Some (r, h') \<and> S r = None \<and> secure_inv y h' (S(r \<mapsto> n + 1)) \<and>
       kept S (memory h) (memory h') \<and> load (memory h') r (n + 1) = load (memory h) str (n + 1))"
proof -
  obtain a k where a: "S a = Some k" "a \<le> str" "str + (n + 1) \<le> a + k" using s(2) by (auto simp: in_allocation_def)
  let ?copy = "copy_new (\<lambda>h n. egg_secure_alloc_full y h tag n fl) memory (\<lambda>m h. set_sec ((sec h)\<lparr>space := m\<rparr>) h) h str (n + 1)"
  have "sz_add n 1 = n + 1" using n by (rule sz_add_no_wrap)
  then have "egg_secure_strndup_full y h tag str n fl = ?copy"
    using s(1,3) by (simp add: egg_secure_strndup_full_def copy_new_def memory_def Let_def)
  then show ?thesis using secure_strings.copy_new [of "(y, tag, fl)" h S a k str "n + 1"] inv a by auto
qed

end
