(* ===== verification/SecureProperties.thy ===== *)
theory SecureProperties
  imports SecureStrings
begin

text \<open>
  The properties of \<open>egg/egg-secure-memory.c\<close>, each applied in a process with a kernel that gives
  pages and with a fallback allocator of one slot.
\<close>

section \<open>A process\<close>

definition slot :: nat where
  "slot = 65536"

definition slot_realloc :: "nat option \<Rightarrow> space \<Rightarrow> nat \<Rightarrow> nat \<Rightarrow> nat \<times> nat option \<times> space" where
  "slot_realloc st m p n =
     (if p = 0 \<and> 0 < n then
        (if st = None \<and> (\<forall>x \<in> {slot..<slot + n}. m x = None) then (slot, Some n, map_zero m slot n) else (0, st, m))
      else case st of
        None \<Rightarrow> (0, st, m)
      | Some k \<Rightarrow> (if p = slot \<and> n = 0 then (0, None, unmap m slot k) else (0, st, m)))"

definition demo_kernel :: surroundings where
  "demo_kernel s = \<lparr>version_ok = True, page_size = 4096, map_pages = (\<lambda>n. if pools s = [] then 4096 else 0)\<rparr>"

definition demo_sys :: "nat option sys" where
  "demo_sys = \<lparr>kernel = demo_kernel, getpagesize = 4096,
     mmap_secure = (\<lambda>s sz. if \<forall>x \<in> {1048576..<1048576 + sz}. space s x = None then 1048576 else 0),
     mlock_ok = (\<lambda>s p sz. True), munmap_ok = (\<lambda>s p sz. True), force_fallback = False,
     fallback = Some slot_realloc, fallback_sizes = (\<lambda>st p. if p = slot then st else None)\<rparr>"

lemma demo_sys_ok: "sys_ok demo_sys"
proof -
  have "kernel_maps demo_kernel"
    by (simp add: kernel_maps_def maps_fresh_def demo_kernel_def Let_def size_limit_def)
  moreover have "\<exists>k. 3 \<le> k \<and> k < 32 \<and> (4096 :: nat) = 2 ^ k" by (rule exI [of _ 12]) simp
  moreover have "fallback_ok demo_sys"
    unfolding fallback_ok_def
  proof (intro allI impI)
    fix f st m p n r st' m'
    assume "fallback demo_sys = Some f \<and> f st m p n = (r, st', m')"
    then have f: "slot_realloc st m p n = (r, st', m')" by (auto simp: demo_sys_def)
    have sz: "fallback_sizes demo_sys = (\<lambda>st p. if p = slot then st else None)" by (simp add: demo_sys_def)
    have "fallback_allocates (fallback_sizes demo_sys) st m n r st' m'" if "p = 0" "0 < n"
      using f that
      by (auto simp: slot_realloc_def fallback_allocates_def sz slot_def map_zero_def readable_def split: if_splits)
    moreover have "if n = 0 then fallback_frees (fallback_sizes demo_sys) st m p k st' m'
        else fallback_resizes (fallback_sizes demo_sys) st m p k n r st' m'" if "fallback_sizes demo_sys st p = Some k" for k
      using f that
      by (auto simp: slot_realloc_def fallback_frees_def fallback_resizes_def sz slot_def unmap_def fun_eq_iff split: if_splits option.splits)
    ultimately show "(p = 0 \<and> 0 < n \<longrightarrow> fallback_allocates (fallback_sizes demo_sys) st m n r st' m') \<and>
      (\<forall>k. fallback_sizes demo_sys st p = Some k \<longrightarrow>
        (if n = 0 then fallback_frees (fallback_sizes demo_sys) st m p k st' m'
         else fallback_resizes (fallback_sizes demo_sys) st m p k n r st' m'))" by blast
  qed
  ultimately show ?thesis by (simp add: sys_ok_def kernel_ok_def demo_sys_def)
qed

lemma demo_generous: "generous demo_sys Map.empty"
  by (simp add: generous_def demo_sys_def demo_kernel_def)

lemma demo_sizes: "fallback_sizes demo_sys None = Map.empty"
  by (simp add: demo_sys_def fun_eq_iff)

lemma demo_block_size: "n < 16384 \<Longrightarrow> block_size demo_sys n = 16384"
  by (simp add: block_size_def DEFAULT_BLOCK_SIZE_def demo_sys_def page_round_def)

definition demo_heap :: "nat option heap" where
  "demo_heap = fresh_heap Map.empty None"

text \<open>A session with an allocation of 16 bytes in secure memory.\<close>

lemma demo_session:
  "\<exists>r h. session demo_sys h [r \<mapsto> 16] \<and> egg_secure_check h r \<and> r \<noteq> 0"
proof -
  have s0: "session demo_sys demo_heap Map.empty" unfolding demo_heap_def by (rule session.start [OF demo_sizes])
  have "(16 :: nat) + 16 \<le> block_size demo_sys 16" by (simp add: demo_block_size)
  from fresh_alloc [OF demo_sys_ok demo_generous demo_sizes _ _ this, of None False]
  obtain r h where a: "egg_secure_alloc_full demo_sys demo_heap None 16 False = Some (r, h)" "r \<noteq> 0" "egg_secure_check h r"
    by (auto simp: insane_size_def demo_heap_def)
  have "session demo_sys h (sizes_after Map.empty (Alloc None 16 False) r)"
    by (rule session.call [OF s0]) (use a(1) in simp_all)
  then show ?thesis using a(2,3) by auto
qed


section \<open>Calls\<close>

text \<open>
  C12. Whatever a caller does with the secure allocator, as long as it passes pointers that it was given
  and writes inside of its allocations: every call returns (no assertion fails, no byte outside of
  the process' memory is touched, no loop runs on), and it does to the allocations and their
  contents what an abstract allocator does. Allocating gives zeroed memory at an address that was
  not in use, or \<open>NULL\<close> and nothing changes; resizing keeps the contents up to the smaller size, or
  gives \<open>NULL\<close> and leaves everything as it was; freeing removes that allocation alone.
\<close>

theorem secure_calls_refine:
  assumes "session y h S" "sys_ok y" "permitted h S req"
  shows "\<exists>r h'. perform y h req = Some (r, h') \<and> session y h' (sizes_after S req r) \<and>
    outcome (contents_of (memory h) S) req r (contents_of (memory h') (sizes_after S req r))"
  using perform_simulated [OF session_inv [OF assms(1,2)] assms(3)] session.call [OF assms(1,3)] by blast

lemma secure_calls_refine_witness:
  "\<exists>h S r h'. perform demo_sys h (Realloc None r 40 True) = Some h' \<and> S r = Some 16 \<and> session demo_sys h S"
proof -
  obtain r h where s: "session demo_sys h [r \<mapsto> 16]" using demo_session by blast
  have "permitted h [r \<mapsto> 16] (Realloc None r 40 True)" by (simp add: own_pointer_def)
  from secure_calls_refine [OF s demo_sys_ok this] obtain q h' where
    "perform demo_sys h (Realloc None r 40 True) = Some (q, h')" by blast
  moreover have "[r \<mapsto> 16] r = Some (16 :: nat)" by simp
  ultimately show ?thesis using s by blast
qed

text \<open>
  C21. The allocations that a caller holds are in its memory, are not at \<open>NULL\<close>, and no two of them
  share a byte, in secure memory and outside of it.
\<close>

theorem secure_allocations_apart:
  assumes "session y h S" "sys_ok y" "S a = Some n"
  shows "a \<noteq> 0 \<and> 0 < n \<and> readable (memory h) a n \<and> (\<forall>b k. S b = Some k \<and> a \<noteq> b \<longrightarrow> a + n \<le> b \<or> b + k \<le> a)"
proof -
  have inv: "secure_inv y h S" by (rule session_inv [OF assms(1,2)])
  then obtain gs where gs: "heap_ok y h gs" "sized S (allocations y h gs)" by (auto simp: secure_inv_def)
  have "a + n \<le> b \<or> b + k \<le> a" if bk: "S b = Some k" "a \<noteq> b" for b k
  proof -
    obtain as bs where "(a, as) \<in> allocations y h gs" "length as = n" "(b, bs) \<in> allocations y h gs" "length bs = k"
      using gs(2) assms(3) bk(1) by (auto simp: sized_def)
    then show ?thesis using allocations_apart [OF gs(1) _ _ bk(2), of as bs] by simp
  qed
  moreover have "a \<noteq> 0" using inv_contents(2) [OF inv] assms(3) by (metis option.distinct(1))
  moreover have "0 < n" using inv_contents(4) [OF inv, of a] assms(3) by (cases n) auto
  ultimately show ?thesis using inv_readable [OF inv assms(3)] by blast
qed

lemma secure_allocations_apart_witness: "\<exists>h r. session demo_sys h [r \<mapsto> 16] \<and> readable (memory h) r 16"
proof -
  obtain r h where s: "session demo_sys h [r \<mapsto> 16]" using demo_session by blast
  then show ?thesis using secure_allocations_apart [OF s demo_sys_ok, of r 16] by auto
qed

text \<open>
  C22. The metadata stays well formed: in every state that calls can lead to, \<open>egg_secure_validate\<close>
  walks over all blocks and finds the cells of each from its first word to its last, with their
  guards, their links, and sizes that fit.
\<close>

theorem secure_validate_accepts:
  assumes "session y h S" "sys_ok y"
  shows "egg_secure_validate h = Some ()"
  by (rule inv_validate [OF session_inv [OF assms]])

lemma secure_validate_accepts_witness: "\<exists>h r. session demo_sys h [r \<mapsto> 16] \<and> egg_secure_validate h = Some ()"
  using demo_session secure_validate_accepts [OF _ demo_sys_ok] by blast

text \<open>
  C13. Freed secrets are gone: after \<open>egg_secure_free\<close> of an allocation in secure memory, each of its
  bytes is zero or no longer mapped, and the other allocations are as they were.
\<close>

theorem secure_free_erases:
  assumes "session y h S" "sys_ok y" "S a = Some n" "egg_secure_check h a"
  shows "\<exists>h'. egg_secure_free y h a = Some h' \<and>
    (\<forall>x. a \<le> x \<and> x < a + n \<longrightarrow> memory h' x = None \<or> memory h' x = Some 0) \<and> kept (S(a := None)) (memory h) (memory h')"
  using inv_free [OF session_inv [OF assms(1,2)] assms(3), of True] assms(4) by (auto simp: egg_secure_free_def erased_def)

lemma secure_free_erases_witness: "\<exists>h r h'. egg_secure_free demo_sys h r = Some h' \<and> session demo_sys h [r \<mapsto> 16]"
proof -
  obtain r h where s: "session demo_sys h [r \<mapsto> 16]" "egg_secure_check h r" using demo_session by blast
  from secure_free_erases [OF s(1) demo_sys_ok _ s(2), of 16] s(1) show ?thesis by auto
qed

section \<open>Limits\<close>

text \<open>
  Rounding up to pages, on the 64 bits of a \<open>size_t\<close>: for pages of a power of two, the result is
  the least multiple of the page size that is not below the size, unless the addition wraps.
\<close>

theorem page_round_least:
  assumes "k < 64" "0 < sz" "sz + 2 ^ k \<le> 2 ^ 64"
  shows "2 ^ k dvd unat (page_round (of_nat sz) (of_nat (2 ^ k))) \<and>
    sz \<le> unat (page_round (of_nat sz) (of_nat (2 ^ k))) \<and> unat (page_round (of_nat sz) (of_nat (2 ^ k))) < sz + 2 ^ k"
proof -
  have r: "unat (page_round (of_nat sz) (of_nat (2 ^ k))) = (sz + 2 ^ k - 1) div 2 ^ k * 2 ^ k"
    by (rule page_round_unat [OF assms(1,3,2)])
  have "sz + 2 ^ k - 1 = (sz + 2 ^ k - 1) div 2 ^ k * 2 ^ k + (sz + 2 ^ k - 1) mod 2 ^ k"
    by (rule div_mult_mod_eq [symmetric])
  moreover have "(sz + 2 ^ k - 1) mod 2 ^ k < 2 ^ k" by simp
  ultimately show ?thesis using assms(2) unfolding r by (intro conjI) (simp, linarith, linarith)
qed

lemma page_round_least_witness: "unat (page_round (of_nat 16385) (of_nat (2 ^ 12))) < 16385 + 2 ^ 12"
  using page_round_least [of 12 16385] by simp

text \<open>
  C31. A first request that leaves room for the two guard words of its block succeeds, when the kernel
  gives pages and locks them; the memory is secure.
\<close>

theorem secure_request_fits:
  assumes "sys_ok y" "generous y m" "fallback_sizes y st = Map.empty"
    and "0 < n" "\<not> insane_size n" "n + 16 \<le> block_size y n"
  shows "\<exists>r h. egg_secure_alloc_full y (fresh_heap m st) tag n use_fallback = Some (r, h) \<and> r \<noteq> 0 \<and> egg_secure_check h r"
  by (rule fresh_alloc [OF assms])

lemma secure_request_fits_witness:
  "\<exists>r h. egg_secure_alloc_full demo_sys demo_heap (Some ''key'') 32 False = Some (r, h) \<and> r \<noteq> 0 \<and> egg_secure_check h r"
  using secure_request_fits [OF demo_sys_ok demo_generous demo_sizes, of 32]
  by (simp add: demo_heap_def demo_block_size insane_size_def)

text \<open>
  A request that does not leave room for the guards fails, however much memory there is: the new
  block is sized by the request alone. The block that was mapped and locked for it stays, unused.
  With pages of 4096 bytes this is every request of 16369 to 16384 bytes, and those that end less
  than two words before the end of a page beyond.
\<close>

theorem secure_request_too_large:
  assumes "session y h S" "sys_ok y" "all_blocks h = []" "0 < n" "n \<le> 2 ^ 31" "block_size y n < n + 16"
  shows "\<exists>h'. egg_secure_alloc_full y h tag n False = Some (0, h') \<and>
    (all_blocks h' = [] \<or> (\<exists>b. all_blocks h' = [b] \<and> b_n_words b = block_size y n div 8))"
  by (rule alloc_too_large [OF session_inv [OF assms(1,2)] assms(3-6)])

lemma secure_request_too_large_witness: "\<exists>h'. egg_secure_alloc_full demo_sys demo_heap None 16384 False = Some (0, h')"
proof -
  have "session demo_sys demo_heap Map.empty" unfolding demo_heap_def by (rule session.start [OF demo_sizes])
  moreover have "all_blocks demo_heap = []" by (simp add: demo_heap_def fresh_heap_def)
  moreover have "block_size demo_sys 16384 < 16384 + 16"
    by (simp add: block_size_def DEFAULT_BLOCK_SIZE_def demo_sys_def page_round_def)
  ultimately show ?thesis using secure_request_too_large [OF _ demo_sys_ok, of demo_heap Map.empty 16384 None] by auto
qed

section \<open>Strings\<close>

text \<open>
  A copy of a string by \<open>egg_secure_strdup_full\<close> is a new allocation with the characters and the
  terminator of the original, if there is memory for it. If there is none, the code writes to
  \<open>NULL\<close>.
\<close>

theorem secure_strdup_copies:
  assumes "session y h S" "sys_ok y" "str \<noteq> 0" "c_strlen (memory h) str = Some n" "in_allocation S str (n + 1)"
  shows "\<exists>r h1. egg_secure_alloc_full y h tag (n + 1) fl = Some (r, h1) \<and>
    (if r = 0 then egg_secure_strdup_full y h tag str fl = None
     else \<exists>h'. egg_secure_strdup_full y h tag str fl = Some (r, h') \<and> S r = None \<and>
       c_strlen (memory h') r = Some n \<and> load (memory h') r (n + 1) = load (memory h) str (n + 1))"
proof -
  from strdup_copies [OF session_inv [OF assms(1,2)] assms(4,5,3)] obtain r h1 where
    r: "egg_secure_alloc_full y h tag (n + 1) fl = Some (r, h1)"
    "if r = 0 then egg_secure_strdup_full y h tag str fl = None
     else \<exists>h'. egg_secure_strdup_full y h tag str fl = Some (r, h') \<and> S r = None \<and> secure_inv y h' (S(r \<mapsto> n + 1)) \<and>
       kept S (memory h) (memory h') \<and> load (memory h') r (n + 1) = load (memory h) str (n + 1)" by blast
  obtain bs where bs: "load (memory h) str (n + 1) = Some bs" "bs ! n = 0" "\<forall>j < n. bs ! j \<noteq> 0"
    using strlen_bytes [OF assms(4)] by blast
  have "c_strlen m r = Some n" if "load m r (n + 1) = load (memory h) str (n + 1)" for m
    by (rule strlen_of_bytes [of m r "n + 1" bs]) (use that bs in auto)
  then show ?thesis using r by (cases "r = 0") auto
qed

lemma demo_written:
  "\<exists>r h. session demo_sys h [r \<mapsto> 16] \<and> r \<noteq> 0 \<and> load (memory h) r 16 = Some ([65, 66, 67, 0] @ replicate 12 0)"
proof -
  obtain r h where s: "session demo_sys h [r \<mapsto> 16]" "r \<noteq> 0" using demo_session by blast
  have p: "permitted h [r \<mapsto> 16] (Write r 0 ([65, 66, 67, 0] @ replicate 12 0))" by simp
  obtain t h' where w: "perform demo_sys h (Write r 0 ([65, 66, 67, 0] @ replicate 12 0)) = Some (t, h')"
    using perform_simulated [OF session_inv [OF s(1) demo_sys_ok] p] by blast
  have "session demo_sys h' [r \<mapsto> 16]" using session.call [OF s(1) p w] by simp
  moreover have "memory h' = overwrite (memory h) r ([65, 66, 67, 0] @ replicate 12 0)"
    using w by (auto simp: store_def memory_def split: if_splits)
  moreover have "load (overwrite (memory h) r ([65, 66, 67, 0] @ replicate 12 0)) r 16 = Some ([65, 66, 67, 0] @ replicate 12 0)"
    using load_overwrite_same [of "memory h" r "[65, 66, 67, 0] @ replicate 12 0"] by simp
  ultimately show ?thesis using s(2) by metis
qed

lemma secure_strdup_copies_witness:
  "\<exists>r h q h1. load (memory h) r 4 = Some [65, 66, 67, 0] \<and> egg_secure_alloc_full demo_sys h None 4 True = Some (q, h1) \<and>
    (q = 0 \<or> (\<exists>h'. egg_secure_strdup_full demo_sys h None r True = Some (q, h') \<and> load (memory h') q 4 = Some [65, 66, 67, 0]))"
proof -
  obtain r h where s: "session demo_sys h [r \<mapsto> 16]" "r \<noteq> 0" "load (memory h) r 16 = Some ([65, 66, 67, 0] @ replicate 12 0)"
    using demo_written by blast
  have "c_strlen (memory h) r = Some 3"
    by (rule strlen_of_bytes [OF s(3)]) (auto simp: less_Suc_eq numeral_3_eq_3)
  moreover have "in_allocation [r \<mapsto> 16] r (3 + 1)" by (auto simp: in_allocation_def intro!: exI [of _ r])
  moreover have l: "load (memory h) r 4 = Some [65, 66, 67, 0]" using load_take [OF s(3), of 4] by simp
  ultimately show ?thesis
    using secure_strdup_copies [OF s(1) demo_sys_ok s(2), of 3 None True] by (fastforce split: if_splits)
qed

text \<open>
  A truncated copy by \<open>egg_secure_strndup_full\<close> is not a string: when the original has more than
  \<open>n\<close> characters, the last byte of the new allocation is the next character of the original, where
  its terminator should be.
\<close>

theorem secure_strndup_unterminated:
  assumes "session y h S" "sys_ok y" "str \<noteq> 0" "c_strlen (memory h) str = Some k" "n < k" "n + 1 < size_limit"
    and "in_allocation S str (n + 1)" "c_memchr0 (memory h) str n = Some None"
  shows "\<exists>r h1. egg_secure_alloc_full y h tag (n + 1) fl = Some (r, h1) \<and>
    (r = 0 \<or> (\<exists>h' bs. egg_secure_strndup_full y h tag str n fl = Some (r, h') \<and> S r = None \<and>
       load (memory h') r (n + 1) = Some bs \<and> 0 \<notin> set bs))"
proof -
  from strndup_copies [OF session_inv [OF assms(1,2)] assms(8,7,3,6), of tag fl] obtain r h1 where
    r: "egg_secure_alloc_full y h tag (n + 1) fl = Some (r, h1)"
    "if r = 0 then egg_secure_strndup_full y h tag str n fl = None
     else \<exists>h'. egg_secure_strndup_full y h tag str n fl = Some (r, h') \<and> S r = None \<and> secure_inv y h' (S(r \<mapsto> n + 1)) \<and>
       kept S (memory h) (memory h') \<and> load (memory h') r (n + 1) = load (memory h) str (n + 1)" by blast
  obtain bs where bs: "load (memory h) str (k + 1) = Some bs" "\<forall>j < k. bs ! j \<noteq> 0"
    using strlen_bytes [OF assms(4)] by blast
  have "load (memory h) str (n + 1) = Some (take (n + 1) bs)" by (rule load_take [OF bs(1)]) (use assms(5) in simp)
  moreover have "0 \<notin> set (take (n + 1) bs)"
  proof
    assume "0 \<in> set (take (n + 1) bs)"
    then obtain i where "i < n + 1" "bs ! i = 0" by (auto simp: in_set_conv_nth)
    then show False using bs(2) assms(5) by simp
  qed
  ultimately show ?thesis using r by (cases "r = 0") auto
qed

lemma secure_strndup_unterminated_witness:
  "\<exists>r h q h1. load (memory h) r 4 = Some [65, 66, 67, 0] \<and> egg_secure_alloc_full demo_sys h None 2 True = Some (q, h1) \<and>
    (q = 0 \<or> (\<exists>h' bs. egg_secure_strndup_full demo_sys h None r 1 True = Some (q, h') \<and>
       load (memory h') q 2 = Some bs \<and> 0 \<notin> set bs))"
proof -
  obtain r h where s: "session demo_sys h [r \<mapsto> 16]" "r \<noteq> 0" "load (memory h) r 16 = Some ([65, 66, 67, 0] @ replicate 12 0)"
    using demo_written by blast
  have "c_strlen (memory h) r = Some 3"
    by (rule strlen_of_bytes [OF s(3)]) (auto simp: less_Suc_eq numeral_3_eq_3)
  moreover have "in_allocation [r \<mapsto> 16] r (1 + 1)" by (auto simp: in_allocation_def intro!: exI [of _ r])
  moreover have "c_memchr0 (memory h) r 1 = Some None" using load_byte [OF s(3), of 0] by simp
  ultimately have "\<exists>q h1. egg_secure_alloc_full demo_sys h None (1 + 1) True = Some (q, h1) \<and>
    (q = 0 \<or> (\<exists>h' bs. egg_secure_strndup_full demo_sys h None r 1 True = Some (q, h') \<and> [r \<mapsto> (16 :: nat)] q = None \<and>
       load (memory h') q (1 + 1) = Some bs \<and> 0 \<notin> set bs))"
    using secure_strndup_unterminated [OF s(1) demo_sys_ok s(2), of 3 1 None True] by (simp add: size_limit_def)
  moreover have "load (memory h) r 4 = Some [65, 66, 67, 0]" using load_take [OF s(3), of 4] by simp
  ultimately show ?thesis by (simp add: numeral_2_eq_2) blast
qed

end
