(* ===== verification/Asn1Tlv.thy ===== *)
theory Asn1Tlv
  imports GcrPrelude "HOL-Library.List_Lexorder"
begin

text \<open>
  The tag-length-value layer of \<open>egg/egg-asn1x.c\<close>: \<open>Atlv\<close> trees, the parser of encodings, the
  writer, and the sorting of a \<open>SET OF\<close>. A \<open>GBytes\<close> is a list of bytes, a pointer into it an index,
  and every access is checked: a read outside of the data, a write outside of the buffer and a
  failed assertion are \<open>None\<close>. A \<open>gint\<close> has 32 bits and wraps around.
\<close>

section \<open>The tree\<close>

text \<open>The messages that the parser fails with.\<close>

datatype tlv_error = BadHeader | BadLength | BadIndefinite | TrailingData

record tlv =
  t_cls :: byte
  t_tag :: u64
  t_off :: int
  t_len :: int
  t_value :: "bytes option"
  t_decoded :: "bytes option"
  t_bits_empty :: nat
  t_prefix_for_bit_string :: bool
  t_prefix_with_zero_byte :: bool
  t_sorted :: bool

text \<open>
  The pointers \<open>child\<close> and \<open>next\<close> give every node a chain of children. A chain is a list; where the
  last element points back to an element of the chain, instead of to \<open>NULL\<close>, is its position.
\<close>

datatype atlv = Atlv (t_data: tlv) (t_child: "atlv list") (t_back: "nat option")

definition tlv_zero :: tlv where
  "tlv_zero = \<lparr>t_cls = 0, t_tag = 0, t_off = 0, t_len = 0, t_value = None, t_decoded = None,
     t_bits_empty = 0, t_prefix_for_bit_string = False, t_prefix_with_zero_byte = False, t_sorted = False\<rparr>"

definition atlv_new :: atlv where
  "atlv_new = Atlv tlv_zero [] None"

definition structured :: "byte \<Rightarrow> bool" where
  "structured c \<longleftrightarrow> c AND 0x20 \<noteq> 0"

section \<open>Parsing\<close>

definition byte_at :: "bytes \<Rightarrow> nat \<Rightarrow> byte option" where
  "byte_at d i = (if i < length d then Some (d ! i) else None)"

definition sub_bytes :: "bytes \<Rightarrow> nat \<Rightarrow> nat \<Rightarrow> bytes" where
  "sub_bytes d i n = take n (drop i d)"

text \<open>
  The digits of a long tag. The result \<open>Some None\<close> is the failure for a tag that is too large.
\<close>

function parse_tag_digits :: "bytes \<Rightarrow> nat \<Rightarrow> int \<Rightarrow> nat \<Rightarrow> int \<Rightarrow> (nat \<times> int) option option" where
  "parse_tag_digits d at n_data punt ris =
     (if int punt \<le> n_data then do {
        val \<leftarrow> byte_at d (at + punt);
        let prod = gint (ris * 128);
        if prod < ris then Some None
        else do {
          let total = gint (prod + uint (val AND 0x7F));
          if total < prod then Some None
          else if val AND 0x7F = val then Some (Some (punt + 1, total))
          else parse_tag_digits d at n_data (punt + 1) total } }
      else Some (Some (punt, ris)))"
  by pat_completeness auto
termination by (relation "measure (\<lambda>(d, at, n_data, punt, ris). nat (n_data + 1 - int punt))") auto

declare parse_tag_digits.simps [simp del]

definition atlv_parse_cls_tag :: "bytes \<Rightarrow> nat \<Rightarrow> nat \<Rightarrow> (byte \<times> u64 \<times> nat) option option" where
  "atlv_parse_cls_tag d at e = do {
     c_assert (at \<le> e);
     let n_data = gint (int e - int at);
     if n_data < 2 then Some None
     else do {
       b \<leftarrow> byte_at d at;
       if b AND 0x1F \<noteq> 0x1F then Some (Some (b AND 0xE0, ucast (b AND 0x1F), 1))
       else do {
         r \<leftarrow> parse_tag_digits d at n_data 1 0;
         (case r of
            None \<Rightarrow> Some None
          | Some (punt, ris) \<Rightarrow>
              if int punt \<ge> n_data then Some None
              else Some (Some (b AND 0xE0, word_of_int ris, punt))) } } }"

function parse_length_digits :: "bytes \<Rightarrow> nat \<Rightarrow> int \<Rightarrow> nat \<Rightarrow> nat \<Rightarrow> int \<Rightarrow> (nat \<times> int) option option" where
  "parse_length_digits d at n_data k punt ans =
     (if punt \<le> k \<and> int punt < n_data then do {
        val \<leftarrow> byte_at d (at + punt);
        let prod = gint (ans * 256);
        if prod < ans then Some None
        else do {
          let total = gint (prod + uint val);
          if total < prod then Some None
          else parse_length_digits d at n_data k (punt + 1) total } }
      else Some (Some (punt, ans)))"
  by pat_completeness auto
termination by (relation "measure (\<lambda>(d, at, n_data, k, punt, ans). k + 1 - punt)") auto

declare parse_length_digits.simps [simp del]

text \<open>The results are the length, \<open>-1\<close> when it is indefinite and \<open>-2\<close> when it is too large, and the offset.\<close>

definition atlv_parse_length :: "bytes \<Rightarrow> nat \<Rightarrow> nat \<Rightarrow> (int \<times> nat) option" where
  "atlv_parse_length d at e = do {
     c_assert (at < e);
     let n_data = gint (int e - int at);
     b \<leftarrow> byte_at d at;
     if b AND 128 = 0 then Some (uint b, 1)
     else do {
       let k = unat (b AND 0x7F);
       if k \<noteq> 0 then do {
         r \<leftarrow> parse_length_digits d at n_data k 1 0;
         (case r of None \<Rightarrow> Some (-2, 0) | Some (punt, ans) \<Rightarrow> Some (ans, punt)) }
       else Some (-1, 1) } }"

definition atlv_parse_cls_tag_len :: "bytes \<Rightarrow> nat \<Rightarrow> nat \<Rightarrow> (byte \<times> u64 \<times> nat \<times> int) option option" where
  "atlv_parse_cls_tag_len d at e = do {
     c_assert (at \<le> e);
     r \<leftarrow> atlv_parse_cls_tag d at e;
     (case r of
        None \<Rightarrow> Some None
      | Some (cls, tag, cb1) \<Rightarrow> do {
          (len, cb2) \<leftarrow> atlv_parse_length d (at + cb1) e;
          if len < -1 then Some None
          else if len \<ge> 0 \<and> int (at + (cb1 + cb2)) + len > int e then Some None
          else Some (Some (cls, tag, cb1 + cb2, len)) }) }"

text \<open>
  An element, when its children are parsed by \<open>kids\<close>: the children start at a position and go on to
  an end, which is the end of all the data when the length is indefinite.
\<close>

definition parse_tag_with ::
  "(bytes \<times> int \<times> nat \<times> nat \<Rightarrow> (tlv_error + atlv list \<times> nat) option) \<Rightarrow>
   byte \<Rightarrow> u64 \<Rightarrow> nat \<Rightarrow> int \<Rightarrow> bytes \<Rightarrow> nat \<Rightarrow> (tlv_error + atlv \<times> nat) option" where
  "parse_tag_with kids cls tag off len d at = do {
     c_assert (at \<le> length d);
     if int at + int off + len > int (length d) then Some (Inl BadLength)
     else if len < 0 \<and> \<not> structured cls then Some (Inl BadIndefinite)
     else do {
       let t = tlv_zero\<lparr>t_cls := cls, t_tag := tag, t_off := int off, t_len := len\<rparr>;
       let start = at + off;
       if structured cls then do {
         r \<leftarrow> kids (d, len, (if len \<ge> 0 then start + nat len else length d), start);
         Some (case r of
            Inl m \<Rightarrow> Inl m
          | Inr (cs, at') \<Rightarrow> Inr (Atlv (t\<lparr>t_decoded := Some (sub_bytes d at (at' - at))\<rparr>) cs None, at')) }
       else Some (Inr (Atlv (t\<lparr>t_value := Some (sub_bytes d start (nat len)),
                                t_decoded := Some (sub_bytes d at (start + nat len - at))\<rparr>) [] None, start + nat len)) } }"

lemma parse_tag_with_mono [partial_function_mono]:
  "(\<And>z. mono_option (\<lambda>f. K f z)) \<Longrightarrow> mono_option (\<lambda>f. parse_tag_with (K f) cls tag off len d at)"
  unfolding parse_tag_with_def Let_def by (intro partial_function_mono)

text \<open>The loop over the children: an element of the class and the tag zero ends an indefinite length.\<close>

partial_function (option) parse_children ::
  "bytes \<times> int \<times> nat \<times> nat \<Rightarrow> (tlv_error + atlv list \<times> nat) option" where
  "parse_children p = (case p of (d, len, e, at) \<Rightarrow>
     if \<not> at < e then Some (Inr ([], at))
     else do {
       r \<leftarrow> atlv_parse_cls_tag_len d at e;
       (case r of
          None \<Rightarrow> Some (Inl BadHeader)
        | Some (ccls, ctag, coff, clen) \<Rightarrow>
            if len < 0 \<and> ccls = 0 \<and> ctag = 0 \<and> clen = 0 then Some (Inr ([], at + coff))
            else do {
              c \<leftarrow> parse_tag_with (\<lambda>z. parse_children z) ccls ctag coff clen d at;
              (case c of
                 Inl m \<Rightarrow> Some (Inl m)
               | Inr (child, at') \<Rightarrow> do {
                   rest \<leftarrow> parse_children (d, len, e, at');
                   Some (case rest of
                      Inl m \<Rightarrow> Inl m
                    | Inr (cs, at'') \<Rightarrow> Inr (child # cs, at'')) }) }) })"

declare parse_children.simps [code]

definition atlv_parse_der_tag ::
  "byte \<Rightarrow> u64 \<Rightarrow> nat \<Rightarrow> int \<Rightarrow> bytes \<Rightarrow> nat \<Rightarrow> (tlv_error + atlv \<times> nat) option" where
  "atlv_parse_der_tag = parse_tag_with parse_children"

text \<open>
  The pointer to the data of an empty \<open>GBytes\<close> may be \<open>NULL\<close>, which is \<open>None\<close>. The check for it
  returns \<open>FALSE\<close>, which is no message, and so the value for success.
\<close>

definition atlv_parse_der :: "bytes option \<Rightarrow> (tlv_error + atlv) option" where
  "atlv_parse_der data = (case data of
     None \<Rightarrow> Some (Inr atlv_new)
   | Some d \<Rightarrow> do {
       r \<leftarrow> atlv_parse_cls_tag_len d 0 (length d);
       (case r of
          None \<Rightarrow> Some (Inl BadHeader)
        | Some (cls, tag, off, len) \<Rightarrow> do {
            c \<leftarrow> atlv_parse_der_tag cls tag off len d 0;
            Some (case c of
               Inl m \<Rightarrow> Inl m
             | Inr (t, at) \<Rightarrow> if at \<noteq> length d then Inl TrailingData else Inr t) }) })"

section \<open>Writing\<close>

definition put :: "bytes \<Rightarrow> nat \<Rightarrow> byte \<Rightarrow> bytes option" where
  "put d i v = (if i < length d then Some (d[i := v]) else None)"

definition put_all :: "bytes \<Rightarrow> nat \<Rightarrow> bytes \<Rightarrow> bytes option" where
  "put_all d i vs = (if i + length vs \<le> length d then Some (take i d @ vs @ drop (i + length vs) d) else None)"

text \<open>The digits of a number with \<open>b\<close> bits each, the lowest one first, in an array of 8 bytes.\<close>

function shift_digits :: "nat \<Rightarrow> u64 \<Rightarrow> bytes \<Rightarrow> bytes option" where
  "shift_digits b v temp =
     (if v = 0 then Some temp
      else if length temp < 8 then shift_digits b (drop_bit b v) (temp @ [ucast (v AND mask b)])
      else None)"
  by pat_completeness auto
termination by (relation "measure (\<lambda>(b, v, temp). 8 - length temp)") auto

declare shift_digits.simps [simp del]

text \<open>The digits are written so that the lowest one is at the position \<open>final\<close>.\<close>

fun put_digits :: "bytes \<Rightarrow> nat \<Rightarrow> byte \<Rightarrow> bytes \<Rightarrow> nat \<Rightarrow> bytes option" where
  "put_digits d final add temp 0 = Some d"
| "put_digits d final add temp (Suc k) = do {
     d \<leftarrow> put d (final - k) (temp ! k + add);
     put_digits d final add temp k }"

text \<open>The results are the number of bytes and the buffer, which may be \<open>NULL\<close>.\<close>

definition atlv_unparse_len :: "u64 \<Rightarrow> bytes option \<Rightarrow> nat \<Rightarrow> (nat \<times> bytes option) option" where
  "atlv_unparse_len len ans at =
     (if len < 128 then
        (case ans of
           None \<Rightarrow> Some (1, None)
         | Some d \<Rightarrow> do { d \<leftarrow> put d at (ucast len); Some (1, Some d) })
      else do {
        temp \<leftarrow> shift_digits 8 len [];
        let k = length temp;
        let cb = k + 1;
        (case ans of
           None \<Rightarrow> Some (cb, None)
         | Some d \<Rightarrow> do {
             d \<leftarrow> put d at ((word_of_nat k AND 0x7F) + 128);
             d \<leftarrow> put_digits d (at + cb - 1) 0 temp k;
             Some (cb, Some d) }) })"

definition unparse_cls_tag :: "bytes option \<Rightarrow> nat \<Rightarrow> nat \<Rightarrow> byte \<Rightarrow> u64 \<Rightarrow> (nat \<times> bytes option) option" where
  "unparse_cls_tag data at n_data cls tag =
     (if tag < 31 then
        (case data of
           None \<Rightarrow> Some (1, None)
         | Some d \<Rightarrow> do {
             c_assert (n_data \<ge> 1);
             d \<leftarrow> put d at ((cls AND 0xE0) + ucast (tag AND 0x1F));
             Some (1, Some d) })
      else do {
        temp \<leftarrow> shift_digits 7 tag [];
        let k = length temp;
        let off = k + 1;
        (case data of
           None \<Rightarrow> Some (off, None)
         | Some d \<Rightarrow> do {
             c_assert (n_data \<ge> off);
             d \<leftarrow> put d at ((cls AND 0xE0) + 31);
             d \<leftarrow> put_digits d (at + off - 1) 128 temp k;
             b \<leftarrow> byte_at d (at + off - 1);
             d \<leftarrow> put d (at + off - 1) (b - 128);
             Some (off, Some d) }) })"

text \<open>The length is a \<open>gint\<close> that becomes a \<open>gulong\<close>.\<close>

definition atlv_unparse_cls_tag_len ::
  "bytes option \<Rightarrow> nat \<Rightarrow> nat \<Rightarrow> byte \<Rightarrow> u64 \<Rightarrow> int \<Rightarrow> (nat \<times> bytes option) option" where
  "atlv_unparse_cls_tag_len data at n_data cls tag len = do {
     (off, data) \<leftarrow> unparse_cls_tag data at n_data cls tag;
     (cb, data) \<leftarrow> atlv_unparse_len (word_of_int len) data (at + off);
     c_assert (data = None \<or> n_data \<ge> off + cb);
     Some (off + cb, data) }"

definition unparse_value :: "tlv \<Rightarrow> bytes \<Rightarrow> bytes \<Rightarrow> nat \<Rightarrow> (bytes \<times> nat) option" where
  "unparse_value t buf d p = do {
     let len = length buf;
     if t_prefix_for_bit_string t then do {
       c_assert (int len + 1 = t_len t);
       d \<leftarrow> put d p (word_of_nat (t_bits_empty t));
       d \<leftarrow> put_all d (p + 1) buf;
       d \<leftarrow> (if len \<noteq> 0 \<and> t_bits_empty t \<noteq> 0 then do {
               let m = drop_bit (8 - t_bits_empty t) (0xFF :: byte);
               b \<leftarrow> byte_at d (p + len);
               put d (p + len) (b AND NOT m) }
             else Some d);
       Some (d, p + len + 1) }
     else if t_prefix_with_zero_byte t then do {
       c_assert (int len + 1 = t_len t);
       d \<leftarrow> put d p 0;
       d \<leftarrow> put_all d (p + 1) buf;
       Some (d, p + len + 1) }
     else do {
       c_assert (int len = t_len t);
       d \<leftarrow> put_all d p buf;
       Some (d, p + len) } }"

text \<open>
  The loop over a chain of children that leads back into itself never ends; what it writes soon
  leaves the buffer.
\<close>

fun atlv_unparse_der :: "atlv \<Rightarrow> bytes \<Rightarrow> nat \<Rightarrow> nat \<Rightarrow> (bytes \<times> nat) option"
and unparse_children :: "atlv list \<Rightarrow> bytes \<Rightarrow> nat \<Rightarrow> nat \<Rightarrow> (bytes \<times> nat) option" where
  "atlv_unparse_der (Atlv t cs back) d at e = do {
     c_assert (at \<le> e);
     (off, data) \<leftarrow> atlv_unparse_cls_tag_len (Some d) at (e - at) (t_cls t) (t_tag t) (t_len t);
     d \<leftarrow> data;
     c_assert (int off = t_off t);
     (d, at) \<leftarrow> (case t_value t of
        Some buf \<Rightarrow> unparse_value t buf d (at + off)
      | None \<Rightarrow> do {
          r \<leftarrow> unparse_children cs d (at + off) e;
          (case back of None \<Rightarrow> Some r | Some i \<Rightarrow> None) });
     c_assert (at \<le> e);
     Some (d, at) }"
| "unparse_children [] d at e = Some (d, at)"
| "unparse_children (c # cs) d at e = do {
     let expected = int at + t_len (t_data c) + t_off (t_data c);
     (d, at) \<leftarrow> atlv_unparse_der c d at e;
     c_assert (expected = int at);
     unparse_children cs d at e }"

text \<open>
  The memory of new \<open>GBytes\<close>: the standard allocator aborts instead of returning \<open>NULL\<close>, and another
  one is asked for one byte more.
\<close>

definition bytes_new_with_allocator :: "realloc_fn \<Rightarrow> allocator \<Rightarrow> nat \<Rightarrow> bytes option option" where
  "bytes_new_with_allocator R al n =
     (if al = StdRealloc then map_option Some (R al None n)
      else Some (map_option (take n) (R al None (n + 1))))"

definition atlv_unparse_to_bytes :: "realloc_fn \<Rightarrow> allocator \<Rightarrow> atlv \<Rightarrow> bytes option option" where
  "atlv_unparse_to_bytes R al t = do {
     let len = t_off (t_data t) + t_len (t_data t);
     if len = 0 then Some None
     else do {
       c_assert (len \<ge> 0);
       data \<leftarrow> bytes_new_with_allocator R al (nat len);
       (case data of
          None \<Rightarrow> Some None
        | Some d \<Rightarrow> do {
            (d, at) \<leftarrow> atlv_unparse_der t d 0 (nat len);
            c_assert (at = nat len);
            Some (Some d) }) } }"

section \<open>Sorting\<close>

text \<open>\<open>None\<close> as the inner result: an encoding failed, and the chain is left as it is.\<close>

fun sort_pairs :: "realloc_fn \<Rightarrow> allocator \<Rightarrow> nat \<Rightarrow> atlv list \<Rightarrow> (bytes \<times> nat \<times> atlv) list \<Rightarrow>
    (bytes \<times> nat \<times> atlv) list option option" where
  "sort_pairs R al i [] pairs = Some (Some pairs)"
| "sort_pairs R al i (c # cs) pairs = do {
     bs \<leftarrow> atlv_unparse_to_bytes R al c;
     (case bs of
        None \<Rightarrow> Some None
      | Some bs \<Rightarrow> sort_pairs R al (i + 1) cs ((bs, i, c) # pairs)) }"

text \<open>
  \<open>g_list_sort\<close> is stable and \<open>g_bytes_compare\<close> compares lexically. The links are set from each
  element to the one behind it; the last one keeps the link that it had: to the element \<open>i + 1\<close> of
  the old chain.
\<close>

definition find_position :: "nat \<Rightarrow> (bytes \<times> nat \<times> atlv) list \<Rightarrow> nat option" where
  "find_position i ps = (case filter (\<lambda>j. fst (snd (ps ! j)) = i) [0..<length ps] of [] \<Rightarrow> None | j # _ \<Rightarrow> Some j)"

definition relink :: "tlv \<Rightarrow> (bytes \<times> nat \<times> atlv) list \<Rightarrow> atlv" where
  "relink t pairs = (let ps = sort_key fst pairs in
     Atlv t (map (snd \<circ> snd) ps) (if ps = [] then None else find_position (fst (snd (last ps)) + 1) ps))"

fun atlv_sort_perform :: "realloc_fn \<Rightarrow> allocator \<Rightarrow> atlv \<Rightarrow> atlv option"
and sort_children :: "realloc_fn \<Rightarrow> allocator \<Rightarrow> atlv list \<Rightarrow> atlv list option" where
  "atlv_sort_perform R al (Atlv t cs back) = do {
     cs \<leftarrow> sort_children R al cs;
     c_assert (back = None);
     if \<not> t_sorted t then Some (Atlv t cs back)
     else do {
       r \<leftarrow> sort_pairs R al 0 cs [];
       (case r of None \<Rightarrow> Some (Atlv t cs back) | Some pairs \<Rightarrow> Some (relink t pairs)) } }"
| "sort_children R al [] = Some []"
| "sort_children R al (c # cs) = do {
     c \<leftarrow> atlv_sort_perform R al c;
     cs \<leftarrow> sort_children R al cs;
     Some (c # cs) }"

end
