(* ===== verification/Asn1Header.thy ===== *)
theory Asn1Header
  imports Asn1Tlv
begin

text \<open>
  The headers of elements: reading one stays inside of the data unless a long tag runs to its very
  end, and what the writer writes is a reference encoding that the reader inverts.
\<close>

section \<open>Reading stays inside\<close>

text \<open>The data ends with a byte without the continuation bit.\<close>

definition closed_data :: "bytes \<Rightarrow> bool" where
  "closed_data d \<longleftrightarrow> length d < 2147483648 \<and> (d = [] \<or> last d AND 0x80 = 0)"

lemma byte_and_7f: "(b :: byte) AND 0x7F = b \<longleftrightarrow> b AND 0x80 = 0"
proof
  assume "b AND 0x7F = b"
  then have "b AND 0x80 = (b AND 0x7F) AND 0x80" by simp
  then show "b AND 0x80 = 0" by (simp add: and.assoc)
next
  assume z: "b AND 0x80 = 0"
  have "b AND 0x7F = (b AND 0x7F) OR (b AND 0x80)" using z by simp
  also have "\<dots> = b AND (0x7F OR 0x80)" by (simp only: bit.conj_disj_distrib)
  also have "(0x7F OR 0x80 :: byte) = -1" by simp
  finally show "b AND 0x7F = b" by simp
qed

lemma uint_and_7f: "0 \<le> uint ((b :: byte) AND 0x7F)" "uint ((b :: byte) AND 0x7F) \<le> 127"
proof -
  have "b AND 0x7F \<le> 0x7F" by (rule word_and_le1)
  then show "uint (b AND 0x7F) \<le> 127" by (simp add: word_le_def)
qed simp

lemma tag_digits_step:
  assumes "int punt \<le> n" "byte_at d (at + punt) = Some val"
  shows "parse_tag_digits d at n punt ris =
     (if gint (ris * 128) < ris then Some None
      else if gint (gint (ris * 128) + uint (val AND 0x7F)) < gint (ris * 128) then Some None
      else if val AND 0x7F = val then Some (Some (punt + 1, gint (gint (ris * 128) + uint (val AND 0x7F))))
      else parse_tag_digits d at n (punt + 1) (gint (gint (ris * 128) + uint (val AND 0x7F))))"
  unfolding parse_tag_digits.simps [of d at n punt ris] Let_def by (simp only: assms if_True Option.bind.simps)

lemma tag_digits_done: "\<not> int punt \<le> n \<Longrightarrow> parse_tag_digits d at n punt ris = Some (Some (punt, ris))"
  by (subst parse_tag_digits.simps) simp

lemma length_digits_step:
  assumes "punt \<le> k" "int punt < n" "byte_at d (at + punt) = Some val"
  shows "parse_length_digits d at n k punt ans =
     (if gint (ans * 256) < ans then Some None
      else if gint (gint (ans * 256) + uint val) < gint (ans * 256) then Some None
      else parse_length_digits d at n k (punt + 1) (gint (gint (ans * 256) + uint val)))"
  unfolding parse_length_digits.simps [of d at n k punt ans] Let_def by (simp only: assms if_True Option.bind.simps simp_thms)

lemma length_digits_done:
  "\<not> (punt \<le> k \<and> int punt < n) \<Longrightarrow> parse_length_digits d at n k punt ans = Some (Some (punt, ans))"
  by (subst parse_length_digits.simps) (simp only: if_False)

lemma tag_digits_total:
  assumes "closed_data d" "at + punt < length d" "n = int e - int at" "e \<le> length d"
  shows "parse_tag_digits d at n punt ris \<noteq> None"
  using assms
proof (induction d at n punt ris rule: parse_tag_digits.induct)
  case (1 d at n punt ris)
  show ?case
  proof (cases "int punt \<le> n")
    case True
    let ?v = "d ! (at + punt)"
    have v: "byte_at d (at + punt) = Some ?v" using 1(3) by (simp add: byte_at_def)
    show ?thesis
    proof (cases "?v AND 0x7F = ?v")
      case False
      then have "?v \<noteq> last d \<or> d = []" using 1(2) by (auto simp: byte_and_7f closed_data_def)
      then have "at + punt \<noteq> length d - 1" using 1(3) by (cases "d = []") (auto simp: last_conv_nth)
      then have "at + (punt + 1) < length d" using 1(3) by linarith
      then show ?thesis using 1(1) [OF True v refl _ refl _ False 1(2) _ 1(4,5)] False
        by (simp add: tag_digits_step [OF True v])
    qed (simp add: tag_digits_step [OF True v])
  qed (simp add: tag_digits_done)
qed

lemma tag_digits_result:
  "parse_tag_digits d at n punt ris = Some (Some (p, r)) \<Longrightarrow> 0 \<le> ris \<Longrightarrow> ris < 2147483648 \<Longrightarrow>
    punt \<le> p \<and> 0 \<le> r \<and> r < 2147483648"
proof (induction d at n punt ris rule: parse_tag_digits.induct)
  case (1 d at n punt ris)
  show ?case
  proof (cases "int punt \<le> n")
    case True
    obtain val where v: "byte_at d (at + punt) = Some val" using 1(2) True
      by (subst (asm) parse_tag_digits.simps) (auto split: bind_splits)
    let ?p = "gint (ris * 128)" let ?t = "gint (?p + uint (val AND 0x7F))"
    have c: "\<not> ?p < ris" "\<not> ?t < ?p"
      and eq: "(if val AND 0x7F = val then Some (Some (punt + 1, ?t)) else parse_tag_digits d at n (punt + 1) ?t) = Some (Some (p, r))"
      using 1(2) unfolding tag_digits_step [OF True v] by (meson option.distinct(1) option.inject)+
    have t: "0 \<le> ?t" "?t < 2147483648" using c 1(3) gint_range [of "?p + uint (val AND 0x7F)"] by linarith+
    show ?thesis
    proof (cases "val AND 0x7F = val")
      case True
      then show ?thesis using eq t by simp
    next
      case False
      have e: "parse_tag_digits d at n (punt + 1) ?t = Some (Some (p, r))" using eq unfolding if_not_P [OF False] .
      have "punt + 1 \<le> p \<and> 0 \<le> r \<and> r < 2147483648" by (rule 1(1) [OF True v refl c(1) refl c(2) False e t])
      then show ?thesis by simp
    qed
  next
    case False
    then show ?thesis using 1(2-4) by (simp add: tag_digits_done)
  qed
qed

lemma length_digits_result:
  "at + punt \<le> length d \<Longrightarrow> n = int (length d') - int at \<Longrightarrow> length d' \<le> length d \<Longrightarrow> at + punt \<le> length d' \<Longrightarrow>
    0 \<le> ans \<Longrightarrow> ans < 2147483648 \<Longrightarrow>
    \<exists>r. parse_length_digits d at n k punt ans = Some r \<and>
      (\<forall>p a. r = Some (p, a) \<longrightarrow> punt \<le> p \<and> at + p \<le> length d' \<and> 0 \<le> a)"
proof (induction d at n k punt ans rule: parse_length_digits.induct)
  case (1 d at n k punt ans)
  show ?case
  proof (cases "punt \<le> k \<and> int punt < n")
    case True
    then have v: "byte_at d (at + punt) = Some (d ! (at + punt))" using 1(3,4) by (simp add: byte_at_def)
    let ?p = "gint (ans * 256)" let ?t = "gint (?p + uint (d ! (at + punt)))"
    have eq: "parse_length_digits d at n k punt ans =
        (if ?p < ans then Some None else if ?t < ?p then Some None else parse_length_digits d at n k (punt + 1) ?t)"
      by (rule length_digits_step) (use True v in auto)
    show ?thesis
    proof (cases "?p < ans \<or> ?t < ?p")
      case True
      then show ?thesis using eq by auto
    next
      case False
      then have t: "0 \<le> ?t" "?t < 2147483648" using 1(6) gint_range by auto
      have a: "at + (punt + 1) \<le> length d" "at + (punt + 1) \<le> length d'" using True 1(3-5) by simp_all
      have "\<exists>r. parse_length_digits d at n k (punt + 1) ?t = Some r \<and>
          (\<forall>p a. r = Some (p, a) \<longrightarrow> punt + 1 \<le> p \<and> at + p \<le> length d' \<and> 0 \<le> a)"
        by (rule 1(1) [OF True v refl _ refl _ a(1) 1(3,4) a(2) t]) (use False in auto)
      then show ?thesis using eq False by auto
    qed
  next
    case False
    then show ?thesis using 1 by (simp add: length_digits_done)
  qed
qed

lemma and_e0_idem: "(b AND 0xE0) AND 0xE0 = (b AND 0xE0 :: byte)"
  by (simp add: and.assoc)

lemma unat_ucast_byte [simp]: "unat (ucast (b :: byte) :: u64) = unat b"
  by (simp add: unsigned_ucast_eq take_bit_nat_eq_self order.strict_trans [OF byte_nat_bound])

lemma parse_cls_tag_total:
  assumes "closed_data d" "at \<le> e" "e \<le> length d"
  obtains r where "atlv_parse_cls_tag d at e = Some r"
    "\<And>cls tag off. r = Some (cls, tag, off) \<Longrightarrow> 1 \<le> off \<and> at + off < e \<and> cls AND 0xE0 = cls \<and> unat tag < 2147483648"
proof -
  let ?n = "int e - int at"
  have n: "gint ?n = ?n" using assms by (simp add: closed_data_def)
  show thesis
  proof (cases "?n < 2")
    case True
    then show ?thesis using that [of None] assms(2) n by (simp add: atlv_parse_cls_tag_def Let_def)
  next
    case False
    then have b: "byte_at d at = Some (d ! at)" using assms by (simp add: byte_at_def)
    show ?thesis
    proof (cases "d ! at AND 0x1F = 0x1F")
      case True
      have "at + 1 < length d" using False assms by linarith
      then obtain q where q: "parse_tag_digits d at ?n 1 0 = Some q"
        using tag_digits_total [OF assms(1), of at 1 ?n e 0] assms(3) by fastforce
      let ?r = "case q of None \<Rightarrow> None
          | Some (p, ris) \<Rightarrow> if int p \<ge> ?n then None else Some (d ! at AND 0xE0, word_of_int ris :: u64, p)"
      have e: "atlv_parse_cls_tag d at e = Some ?r"
        using False True b q n assms(2) by (auto simp: atlv_parse_cls_tag_def Let_def split: option.splits)
      have "1 \<le> off \<and> at + off < e \<and> cls AND 0xE0 = cls \<and> unat tag < 2147483648"
        if R: "?r = Some (cls, tag, off)" for cls tag off
      proof -
        obtain ris where p: "q = Some (off, ris)" "int off < ?n" "cls = d ! at AND 0xE0" "tag = word_of_int ris"
          using R by (auto split: option.splits if_splits)
        have x: "1 \<le> off" "0 \<le> ris" "ris < 2147483648" using tag_digits_result [of d at ?n 1 0 off ris] q p by auto
        have "unat tag < 2147483648"
          unfolding p(4) using x by (simp add: unat_eq_nat_uint uint_word_of_int)
        then show ?thesis using x p by (simp add: and_e0_idem)
      qed
      then show ?thesis by (rule that [OF e])
    next
      case F: False
      have "unat (ucast (d ! at AND 0x1F) :: u64) < 2147483648"
        by (simp add: order.strict_trans [OF byte_nat_bound])
      then show ?thesis using that [of "Some (d ! at AND 0xE0, ucast (d ! at AND 0x1F), 1)"] False F b n assms(2)
        by (simp add: atlv_parse_cls_tag_def Let_def and_e0_idem)
    qed
  qed
qed

lemma parse_length_total:
  assumes "at < e" "e \<le> length d" "length d < 2147483648"
  obtains len off where "atlv_parse_length d at e = Some (len, off)" "-2 \<le> len" "len \<noteq> -2 \<Longrightarrow> 1 \<le> off \<and> at + off \<le> e"
proof -
  let ?n = "int e - int at"
  have n: "gint ?n = ?n" using assms by simp
  have b: "byte_at d at = Some (d ! at)" using assms by (simp add: byte_at_def)
  let ?k = "unat (d ! at AND 0x7F)"
  have "\<exists>r. parse_length_digits d at ?n ?k 1 0 = Some r \<and>
      (\<forall>p a. r = Some (p, a) \<longrightarrow> 1 \<le> p \<and> at + p \<le> length (take e d) \<and> 0 \<le> a)"
    by (rule length_digits_result) (use assms in simp_all)
  then obtain r where r: "parse_length_digits d at ?n ?k 1 0 = Some r" "\<And>p a. r = Some (p, a) \<Longrightarrow> 1 \<le> p \<and> at + p \<le> e \<and> 0 \<le> a"
    using assms(2) by auto
  have eq: "atlv_parse_length d at e = (if d ! at AND 128 = 0 then Some (uint (d ! at), 1)
      else if ?k \<noteq> 0 then Some (case r of None \<Rightarrow> (-2, 0) | Some (punt, ans) \<Rightarrow> (ans, punt)) else Some (-1, 1))"
    using assms(1) b n r(1) by (simp add: atlv_parse_length_def Let_def split: option.split)
  have g: "0 \<le> uint (d ! at)" by simp
  show thesis
  proof (cases "d ! at AND 128 = 0")
    case True
    then show ?thesis using that [of "uint (d ! at)" 1] eq assms(1) g by simp
  next
    case F: False
    show ?thesis
    proof (cases "?k = 0")
      case True
      then show ?thesis using that [of "-1" 1] eq F assms(1) by simp
    next
      case False
      show ?thesis
      proof (cases r)
        case None
        then show ?thesis using that [of "-2" 0] eq F False by simp
      next
        case (Some pa)
        obtain p a where "r = Some (p, a)" using Some by (cases pa) simp
        then show ?thesis using that [of a p] eq F False r(2) by force
      qed
    qed
  qed
qed

lemma parse_header_total:
  assumes "closed_data d" "at \<le> e" "e \<le> length d"
  obtains r where "atlv_parse_cls_tag_len d at e = Some r"
    "\<And>cls tag off len. r = Some (cls, tag, off, len) \<Longrightarrow>
       2 \<le> off \<and> at + off \<le> e \<and> -1 \<le> len \<and> int at + int off + len \<le> int e \<and> cls AND 0xE0 = cls \<and> unat tag < 2147483648"
proof -
  have L: "length d < 2147483648" using assms(1) by (simp add: closed_data_def)
  obtain q where q: "atlv_parse_cls_tag d at e = Some q"
      "\<And>cls tag off. q = Some (cls, tag, off) \<Longrightarrow> 1 \<le> off \<and> at + off < e \<and> cls AND 0xE0 = cls \<and> unat tag < 2147483648"
    using parse_cls_tag_total [OF assms] by blast
  show thesis
  proof (cases q)
    case None
    then show ?thesis using that [of None] q(1) assms(2) by (simp add: atlv_parse_cls_tag_len_def)
  next
    case (Some x)
    obtain cls tag cb1 where x: "x = (cls, tag, cb1)" by (cases x)
    have o: "1 \<le> cb1" "at + cb1 < e" "cls AND 0xE0 = cls" "unat tag < 2147483648" using q(2) Some x by simp_all
    obtain len cb2 where l: "atlv_parse_length d (at + cb1) e = Some (len, cb2)" "-2 \<le> len"
        "len \<noteq> -2 \<Longrightarrow> 1 \<le> cb2 \<and> at + cb1 + cb2 \<le> e"
      using parse_length_total [OF o(2) assms(3) L] by blast
    let ?r = "if len < -1 \<or> len \<ge> 0 \<and> int (at + (cb1 + cb2)) + len > int e then None else Some (cls, tag, cb1 + cb2, len)"
    have e: "atlv_parse_cls_tag_len d at e = Some ?r"
      using assms(2) q(1) Some x l(1) by (simp add: atlv_parse_cls_tag_len_def)
    show ?thesis by (rule that [OF e]) (use o l(2,3) in \<open>auto split: if_splits\<close>)
  qed
qed

end
