(* ===== verification/Asn1Parse.thy ===== *)
theory Asn1Parse
  imports Asn1Header
begin

text \<open>
  What the parser of encodings returns: it comes back from every input that ends without an open
  tag, and the tree that it gives is laid over the data without gaps.
\<close>

section \<open>Trees over their data\<close>

text \<open>
  The bytes of an element are its header, its content and, when the length is indefinite, what ends
  it; the content is the value, or the bytes of the children one after the other.
\<close>

abbreviation decoded_of :: "atlv \<Rightarrow> bytes" where
  "decoded_of t \<equiv> the (t_decoded (t_data t))"

fun tiles :: "atlv \<Rightarrow> bool" where
  "tiles (Atlv t cs back) \<longleftrightarrow> back = None \<and>
     (\<exists>hdr body trailer. t_decoded t = Some (hdr @ body @ trailer) \<and> int (length hdr) = t_off t \<and>
        (0 \<le> t_len t \<longrightarrow> trailer = []) \<and>
        (case t_value t of
           Some v \<Rightarrow> \<not> structured (t_cls t) \<and> cs = [] \<and> body = v \<and> int (length v) = t_len t
         | None \<Rightarrow> structured (t_cls t) \<and> body = concat (map decoded_of cs) \<and> (\<forall>c \<in> set cs. tiles c)))"

lemma sub_bytes_split: "a \<le> b \<Longrightarrow> b \<le> c \<Longrightarrow> sub_bytes d a (c - a) = sub_bytes d a (b - a) @ sub_bytes d b (c - b)"
  unfolding sub_bytes_def using take_add [of "b - a" "c - b" "drop a d"] by (simp add: add.commute)

lemma sub_bytes_empty [simp]: "sub_bytes d a 0 = []"
  by (simp add: sub_bytes_def)

lemma length_sub_bytes: "a + n \<le> length d \<Longrightarrow> length (sub_bytes d a n) = n"
  by (simp add: sub_bytes_def)

lemma parse_tag_with_cases:
  assumes "parse_tag_with kids cls tag off len d at = Some (Inr (c, at'))"
  shows "at \<le> length d" "int at + int off + len \<le> int (length d)"
    "\<not> structured cls \<Longrightarrow> 0 \<le> len \<and> at' = at + off + nat len \<and>
       c = Atlv (tlv_zero\<lparr>t_cls := cls, t_tag := tag, t_off := int off, t_len := len,
          t_value := Some (sub_bytes d (at + off) (nat len)), t_decoded := Some (sub_bytes d at (at' - at))\<rparr>) [] None"
    "structured cls \<Longrightarrow> \<exists>cs. kids (d, len, (if len \<ge> 0 then at + off + nat len else length d), at + off) = Some (Inr (cs, at')) \<and>
       c = Atlv (tlv_zero\<lparr>t_cls := cls, t_tag := tag, t_off := int off, t_len := len, t_decoded := Some (sub_bytes d at (at' - at))\<rparr>) cs None"
  using assms unfolding parse_tag_with_def c_assert_bind
  by (auto simp: Let_def split: if_splits sum.splits bind_splits)

text \<open>What is read from a position of the data to another one.\<close>

definition read_element :: "bytes \<Rightarrow> nat \<Rightarrow> nat \<Rightarrow> atlv \<Rightarrow> bool" where
  "read_element d at at' c \<longleftrightarrow> at + 2 \<le> at' \<and> at' \<le> length d \<and> tiles c \<and> t_decoded (t_data c) = Some (sub_bytes d at (at' - at))"

definition read_elements :: "bytes \<Rightarrow> int \<Rightarrow> nat \<Rightarrow> nat \<Rightarrow> atlv list \<Rightarrow> bool" where
  "read_elements d len at at' cs \<longleftrightarrow> at \<le> at' \<and> at' \<le> length d \<and> (\<forall>c \<in> set cs. tiles c) \<and>
     (\<exists>trailer. sub_bytes d at (at' - at) = concat (map decoded_of cs) @ trailer \<and> (0 \<le> len \<longrightarrow> trailer = []))"

lemma read_elements_Nil: "at \<le> length d \<Longrightarrow> read_elements d len at at []"
  by (simp add: read_elements_def)

lemma read_elements_end: "at + n \<le> length d \<Longrightarrow> len < 0 \<Longrightarrow> read_elements d len at (at + n) []"
  by (simp add: read_elements_def)

lemma read_elements_Cons:
  assumes "read_element d at at' c" "read_elements d len at' at'' cs"
  shows "read_elements d len at at'' (c # cs)"
  using assms sub_bytes_split [of at at' at'' d] unfolding read_element_def read_elements_def by auto

lemma read_element_primitive:
  assumes "2 \<le> off" "0 \<le> len" "at + off + nat len \<le> length d" "\<not> structured cls"
  shows "read_element d at (at + off + nat len)
     (Atlv (tlv_zero\<lparr>t_cls := cls, t_tag := tag, t_off := int off, t_len := len,
        t_value := Some (sub_bytes d (at + off) (nat len)), t_decoded := Some (sub_bytes d at (at + off + nat len - at))\<rparr>) [] None)"
proof -
  have "sub_bytes d at (at + off + nat len - at) = sub_bytes d at off @ sub_bytes d (at + off) (nat len)"
    using sub_bytes_split [of at "at + off" "at + off + nat len" d] by simp
  then show ?thesis using assms by (auto simp: read_element_def tlv_zero_def length_sub_bytes)
qed

lemma read_element_structured:
  assumes "2 \<le> off" "read_elements d len (at + off) at' cs" "structured cls"
  shows "read_element d at at'
     (Atlv (tlv_zero\<lparr>t_cls := cls, t_tag := tag, t_off := int off, t_len := len,
        t_decoded := Some (sub_bytes d at (at' - at))\<rparr>) cs None)"
proof -
  have le: "at + off \<le> at'" "at' \<le> length d" and cs: "\<forall>c \<in> set cs. tiles c" using assms(2) by (simp_all add: read_elements_def)
  obtain tr where tr: "sub_bytes d (at + off) (at' - (at + off)) = concat (map decoded_of cs) @ tr" "0 \<le> len \<longrightarrow> tr = []"
    using assms(2) by (auto simp: read_elements_def)
  have s: "sub_bytes d at (at' - at) = sub_bytes d at off @ concat (map decoded_of cs) @ tr"
    using sub_bytes_split [of at "at + off" at' d] le tr(1) by simp
  have "int (length (sub_bytes d at off)) = int off" using le by (simp add: length_sub_bytes)
  then have "tiles (Atlv (tlv_zero\<lparr>t_cls := cls, t_tag := tag, t_off := int off, t_len := len,
        t_decoded := Some (sub_bytes d at (at' - at))\<rparr>) cs None)"
    unfolding s using assms(3) cs tr(2) by (auto simp: tlv_zero_def)
  then show ?thesis using assms(1) le by (simp add: read_element_def)
qed

section \<open>The parser comes back\<close>

lemma parse_tag_total:
  assumes kids: "\<And>e. e \<le> length d \<Longrightarrow> \<exists>r. parse_children (d, len, e, at + off) = Some r \<and>
      (\<forall>cs at'. r = Inr (cs, at') \<longrightarrow> read_elements d len (at + off) at' cs)"
    and h: "2 \<le> off" "-1 \<le> len" "int at + int off + len \<le> int (length d)" "at + off \<le> length d"
  shows "\<exists>r. parse_tag_with parse_children cls tag off len d at = Some r \<and>
      (\<forall>c at'. r = Inr (c, at') \<longrightarrow> read_element d at at' c)"
proof (cases "structured cls")
  case True
  have e: "(if len \<ge> 0 then at + off + nat len else length d) \<le> length d" using h by auto
  obtain r where r: "parse_children (d, len, (if len \<ge> 0 then at + off + nat len else length d), at + off) = Some r"
      "\<forall>cs at'. r = Inr (cs, at') \<longrightarrow> read_elements d len (at + off) at' cs"
    using kids [OF e] by blast
  show ?thesis
  proof (cases r)
    case (Inl m)
    then show ?thesis using r(1) True h by (simp add: parse_tag_with_def Let_def)
  next
    case (Inr p)
    obtain cs at' where p: "p = (cs, at')" by (cases p)
    have "read_elements d len (at + off) at' cs" using r(2) Inr p by blast
    from read_element_structured [OF h(1) this True, of tag]
    show ?thesis using r(1) True h(3,4) Inr p by (simp add: parse_tag_with_def Let_def)
  qed
next
  case False
  show ?thesis
  proof (cases "len < 0")
    case True
    then show ?thesis using False h by (simp add: parse_tag_with_def Let_def)
  next
    case F: False
    then have "at + off + nat len \<le> length d" using h by linarith
    from read_element_primitive [OF h(1) _ this False, of tag] F False h(3,4)
    show ?thesis by (simp add: parse_tag_with_def Let_def)
  qed
qed

lemma parse_children_step:
  "at < e \<Longrightarrow> parse_children (d, len, e, at) = do {
       r \<leftarrow> atlv_parse_cls_tag_len d at e;
       (case r of
          None \<Rightarrow> Some (Inl BadHeader)
        | Some (ccls, ctag, coff, clen) \<Rightarrow>
            if len < 0 \<and> ccls = 0 \<and> ctag = 0 \<and> clen = 0 then Some (Inr ([], at + coff))
            else do {
              c \<leftarrow> parse_tag_with parse_children ccls ctag coff clen d at;
              (case c of
                 Inl m \<Rightarrow> Some (Inl m)
               | Inr (child, at') \<Rightarrow> do {
                   rest \<leftarrow> parse_children (d, len, e, at');
                   Some (case rest of
                      Inl m \<Rightarrow> Inl m
                    | Inr (cs, at'') \<Rightarrow> Inr (child # cs, at'')) }) }) }"
  by (subst parse_children.simps) (simp only: prod.case if_not_P if_True simp_thms if_False)

lemma parse_children_done: "\<not> at < e \<Longrightarrow> parse_children (d, len, e, at) = Some (Inr ([], at))"
  by (subst parse_children.simps) simp

lemma parse_children_total:
  assumes "closed_data d"
  shows "at \<le> length d \<Longrightarrow> e \<le> length d \<Longrightarrow> \<exists>r. parse_children (d, len, e, at) = Some r \<and>
      (\<forall>cs at'. r = Inr (cs, at') \<longrightarrow> read_elements d len at at' cs)"
proof (induction "length d - at" arbitrary: at e len rule: less_induct)
  case less
  show ?case
  proof (cases "at < e")
    case False
    then show ?thesis using less.prems by (simp add: parse_children_done read_elements_Nil)
  next
    case True
    obtain q where q: "atlv_parse_cls_tag_len d at e = Some q"
      "\<And>cls tag off len. q = Some (cls, tag, off, len) \<Longrightarrow>
         2 \<le> off \<and> at + off \<le> e \<and> -1 \<le> len \<and> int at + int off + len \<le> int e \<and> cls AND 0xE0 = cls \<and> unat tag < 2147483648"
      using parse_header_total [OF assms _ less.prems(2), of at] True by (metis less_imp_le)
    show ?thesis
    proof (cases q)
      case None
      then show ?thesis using q(1) True by (simp add: parse_children_step)
    next
      case (Some x)
      obtain cls tag off cl where x: "x = (cls, tag, off, cl)" by (cases x)
      have h: "2 \<le> off" "at + off \<le> e" "-1 \<le> cl" "int at + int off + cl \<le> int e" using q(2) Some x by simp_all
      show ?thesis
      proof (cases "len < 0 \<and> cls = 0 \<and> tag = 0 \<and> cl = 0")
        case T: True
        then show ?thesis using q(1) True Some x h less.prems by (simp add: parse_children_step read_elements_end)
      next
        case F: False
        have "\<exists>r. parse_tag_with parse_children cls tag off cl d at = Some r \<and>
            (\<forall>c at'. r = Inr (c, at') \<longrightarrow> read_element d at at' c)"
          by (rule parse_tag_total) (use less.hyps [of "at + off"] h less.prems in auto)
        then obtain r where r: "parse_tag_with parse_children cls tag off cl d at = Some r"
            "\<And>c at'. r = Inr (c, at') \<Longrightarrow> read_element d at at' c"
          by blast
        show ?thesis
        proof (cases r)
          case (Inl m)
          then show ?thesis using q(1) True Some x F r(1) by (auto simp: parse_children_step)
        next
          case (Inr p)
          obtain c at' where p: "p = (c, at')" by (cases p)
          have c: "read_element d at at' c" using r(2) Inr p by blast
          then have l: "at' \<le> length d" "length d - at' < length d - at" by (auto simp: read_element_def)
          obtain s where s: "parse_children (d, len, e, at') = Some s"
              "\<And>cs at''. s = Inr (cs, at'') \<Longrightarrow> read_elements d len at' at'' cs"
            using less.hyps [OF l(2,1) less.prems(2)] by blast
          have "parse_children (d, len, e, at) = Some (case s of Inl m \<Rightarrow> Inl m | Inr (cs, at'') \<Rightarrow> Inr (c # cs, at''))"
            using q(1) True Some x F r(1) Inr p s(1) by (auto simp add: parse_children_step)
          then show ?thesis using read_elements_Cons [OF c] s(2) by (cases s) auto
        qed
      qed
    qed
  qed
qed

lemma parse_returns:
  assumes "closed_data d"
  shows "\<exists>r. atlv_parse_der (Some d) = Some r \<and>
     (\<forall>t. r = Inr t \<longrightarrow> t_decoded (t_data t) = Some d \<and> tiles t)"
proof -
  obtain q where q: "atlv_parse_cls_tag_len d 0 (length d) = Some q"
      "\<And>cls tag off len. q = Some (cls, tag, off, len) \<Longrightarrow> 2 \<le> off \<and> off \<le> length d \<and> -1 \<le> len \<and> int off + len \<le> int (length d)"
    by (rule parse_header_total [OF assms, of 0 "length d"]) auto
  show ?thesis
  proof (cases q)
    case None
    then show ?thesis using q(1) by (simp add: atlv_parse_der_def)
  next
    case (Some x)
    obtain cls tag off len where x: "x = (cls, tag, off, len)" by (cases x)
    have h: "2 \<le> off" "off \<le> length d" "-1 \<le> len" "int off + len \<le> int (length d)" using q(2) Some x by simp_all
    have "\<exists>r. parse_tag_with parse_children cls tag off len d 0 = Some r \<and>
        (\<forall>c at'. r = Inr (c, at') \<longrightarrow> read_element d 0 at' c)"
      by (rule parse_tag_total) (use parse_children_total [OF assms] h in auto)
    then obtain r where r: "parse_tag_with parse_children cls tag off len d 0 = Some r"
        "\<And>c at'. r = Inr (c, at') \<Longrightarrow> read_element d 0 at' c"
      by blast
    have e: "atlv_parse_der (Some d) = Some (case r of Inl m \<Rightarrow> Inl m
        | Inr (t, at) \<Rightarrow> if at \<noteq> length d then Inl TrailingData else Inr t)"
      using q(1) Some x r(1) by (simp add: atlv_parse_der_def atlv_parse_der_tag_def)
    show ?thesis
    proof (cases r)
      case (Inr p)
      obtain c at' where p: "p = (c, at')" by (cases p)
      have "read_element d 0 at' c" using r(2) Inr p by blast
      then show ?thesis using e Inr p by (simp add: read_element_def sub_bytes_def)
    qed (use e in simp)
  qed
qed

end
