(* ===== verification/Asn1Write.thy ===== *)
theory Asn1Write
  imports Asn1Parse
begin

text \<open>
  The writer of encodings implements a reference encoding, \<open>der\<close>, for every tree whose lengths are
  those of its contents.
\<close>

section \<open>Pieces of a buffer\<close>

definition overlay :: "bytes \<Rightarrow> nat \<Rightarrow> bytes \<Rightarrow> bytes" where
  "overlay d at xs = take at d @ xs @ drop (at + length xs) d"

lemma length_overlay [simp]: "at + length xs \<le> length d \<Longrightarrow> length (overlay d at xs) = length d"
  by (simp add: overlay_def)

lemma overlay_Nil [simp]: "overlay d at [] = d"
  by (simp add: overlay_def)

lemma overlay_overlay:
  assumes "at + length xs + length ys \<le> length d" "i = at + length xs"
  shows "overlay (overlay d at xs) i ys = overlay d at (xs @ ys)"
proof -
  have "take i (take at d @ xs @ drop (at + length xs) d) = take at d @ xs" using assms by simp
  moreover have "drop (i + length ys) (take at d @ xs @ drop (at + length xs) d) = drop (at + length (xs @ ys)) d"
    using assms by (simp add: add.commute add.left_commute)
  ultimately show ?thesis by (simp add: overlay_def)
qed

lemma put_all_overlay: "i + length xs \<le> length d \<Longrightarrow> put_all d i xs = Some (overlay d i xs)"
  by (simp add: put_all_def overlay_def)

lemma put_overlay: "i < length d \<Longrightarrow> put d i v = Some (overlay d i [v])"
  by (simp add: put_def overlay_def upd_conv_take_nth_drop)

lemma put_inside_overlay:
  assumes "at + length xs \<le> length d" "at \<le> i" "i < at + length xs"
  shows "put (overlay d at xs) i v = Some (overlay d at (xs[i - at := v]))" "byte_at (overlay d at xs) i = Some (xs ! (i - at))"
proof -
  have "i - at < length xs" using assms by linarith
  then show "put (overlay d at xs) i v = Some (overlay d at (xs[i - at := v]))" "byte_at (overlay d at xs) i = Some (xs ! (i - at))"
    using assms by (simp_all add: put_def byte_at_def overlay_def list_update_append nth_append)
qed

section \<open>Digits\<close>

text \<open>The digits of a number, the lowest one first, with \<open>b\<close> bits each.\<close>

function digits :: "nat \<Rightarrow> nat \<Rightarrow> nat list" where
  "digits b n = (if n = 0 \<or> b = 0 then [] else n mod 2 ^ b # digits b (n div 2 ^ b))"
  by pat_completeness auto
termination by (relation "measure snd") (auto intro!: div_less_dividend one_less_power)

declare digits.simps [simp del]

lemma digits_0 [simp]: "digits b 0 = []"
  by (simp add: digits.simps)

lemma digits_less: "x \<in> set (digits b n) \<Longrightarrow> x < 2 ^ b"
  by (induction b n rule: digits.induct) (subst (asm) (2) digits.simps, auto split: if_splits)

lemma digits_fold: "0 < b \<Longrightarrow> foldl (\<lambda>a x. a * 2 ^ b + x) 0 (rev (digits b n)) = n"
proof (induction b n rule: digits.induct)
  case (1 b n)
  then show ?case by (subst digits.simps) (auto simp: mod_mult_div_eq mult.commute)
qed

lemma digits_not_Nil: "0 < b \<Longrightarrow> 0 < n \<Longrightarrow> digits b n \<noteq> []"
  by (subst digits.simps) simp

lemma digits_length: "0 < b \<Longrightarrow> n < 2 ^ (b * k) \<Longrightarrow> length (digits b n) \<le> k"
proof (induction b n arbitrary: k rule: digits.induct)
  case (1 b n)
  show ?case
  proof (cases "n = 0")
    case False
    then have k: "0 < k" using 1(3) by (cases k) auto
    have "n div 2 ^ b < 2 ^ (b * (k - 1))"
    proof -
      have "b * k = b * (k - 1) + b" using k by (cases k) simp_all
      then have "n < 2 ^ (b * (k - 1)) * 2 ^ b" using 1(3) by (simp add: power_add)
      then show ?thesis by (simp add: less_mult_imp_div_less)
    qed
    then have "length (digits b (n div 2 ^ b)) \<le> k - 1" using 1 False by simp
    then show ?thesis using 1(2) k False by (subst digits.simps) simp
  qed simp
qed

lemma shift_digits_eq:
  assumes "0 < b" "b \<le> 8"
  shows "length temp + length (digits b (unat v)) \<le> 8 \<Longrightarrow>
    shift_digits b v temp = Some (temp @ map word_of_nat (digits b (unat v)))"
  using assms
proof (induction b v temp rule: shift_digits.induct)
  case (1 b v temp)
  show ?case
  proof (cases "v = 0")
    case True
    then show ?thesis by (simp add: shift_digits.simps)
  next
    case False
    have u: "unat (drop_bit b v) = unat v div 2 ^ b" unfolding unat_drop_bit_eq by (rule drop_bit_eq_div)
    have d: "digits b (unat v) = unat v mod 2 ^ b # digits b (unat (drop_bit b v))"
      unfolding u using 1(3) False by (subst digits.simps) (simp add: unat_eq_zero)
    have "unat (v AND mask b) = unat v mod 2 ^ b"
      unfolding take_bit_eq_mask [symmetric] unsigned_take_bit_eq by (rule take_bit_eq_mod)
    then have w: "ucast (v AND mask b) = (word_of_nat (unat v mod 2 ^ b) :: byte)" by (metis of_nat_unat)
    have l: "length temp < 8" using 1(2) d by simp
    have "shift_digits b (drop_bit b v) (temp @ [ucast (v AND mask b)]) =
        Some ((temp @ [ucast (v AND mask b)]) @ map word_of_nat (digits b (unat (drop_bit b v))))"
      by (rule 1(1)) (use False l 1 d in simp_all)
    then show ?thesis using False l d w by (subst shift_digits.simps) simp
  qed
qed

lemma put_digits_overlay:
  "k \<le> length temp \<Longrightarrow> k \<le> final + 1 \<Longrightarrow> final < length d \<Longrightarrow>
    put_digits d final add temp k = Some (overlay d (final + 1 - k) (map (\<lambda>x. x + add) (rev (take k temp))))"
proof (induction k arbitrary: d)
  case (Suc k)
  have "put d (final - k) (temp ! k + add) = Some (overlay d (final - k) [temp ! k + add])"
    using Suc.prems by (intro put_overlay) simp
  moreover have "put_digits (overlay d (final - k) [temp ! k + add]) final add temp k =
      Some (overlay (overlay d (final - k) [temp ! k + add]) (final + 1 - k) (map (\<lambda>x. x + add) (rev (take k temp))))"
    using Suc.prems by (intro Suc.IH) simp_all
  moreover have "overlay (overlay d (final - k) [temp ! k + add]) (final + 1 - k) (map (\<lambda>x. x + add) (rev (take k temp))) =
      overlay d (final - k) ([temp ! k + add] @ map (\<lambda>x. x + add) (rev (take k temp)))"
    using Suc.prems by (intro overlay_overlay) simp_all
  ultimately show ?case using Suc.prems by (simp add: take_Suc_conv_app_nth)
qed simp

section \<open>The reference encoding\<close>

definition der_length :: "nat \<Rightarrow> bytes" where
  "der_length n = (if n < 128 then [word_of_nat n]
     else word_of_nat (128 + length (digits 8 n)) # map word_of_nat (rev (digits 8 n)))"

definition long_tag :: "nat list \<Rightarrow> bytes" where
  "long_tag ds = map (\<lambda>x. word_of_nat x + 128) (butlast ds) @ [word_of_nat (last ds)]"

definition der_tag :: "byte \<Rightarrow> u64 \<Rightarrow> bytes" where
  "der_tag cls tag = (if tag < 31 then [(cls AND 0xE0) + ucast (tag AND 0x1F)]
     else ((cls AND 0xE0) + 31) # long_tag (rev (digits 7 (unat tag))))"

definition clear_low :: "nat \<Rightarrow> bytes \<Rightarrow> bytes" where
  "clear_low n buf = (if buf = [] \<or> n = 0 then buf else butlast buf @ [last buf AND NOT (drop_bit (8 - n) 0xFF)])"

definition der_value :: "tlv \<Rightarrow> bytes \<Rightarrow> bytes" where
  "der_value t buf =
     (if t_prefix_for_bit_string t then word_of_nat (t_bits_empty t) # clear_low (t_bits_empty t) buf
      else if t_prefix_with_zero_byte t then 0 # buf
      else buf)"

definition der_header :: "tlv \<Rightarrow> bytes" where
  "der_header t = der_tag (t_cls t) (t_tag t) @ der_length (nat (t_len t))"

fun der :: "atlv \<Rightarrow> bytes" where
  "der (Atlv t cs back) = der_header t @ (case t_value t of Some buf \<Rightarrow> der_value t buf | None \<Rightarrow> concat (map der cs))"

fun encodable :: "atlv \<Rightarrow> bool" where
  "encodable (Atlv t cs back) \<longleftrightarrow> back = None \<and> t_cls t AND 0xE0 = t_cls t \<and> unat (t_tag t) < 2147483648 \<and>
     0 \<le> t_len t \<and> t_off t = int (length (der_header t)) \<and> t_off t + t_len t < 2147483648 \<and>
     (case t_value t of
        Some buf \<Rightarrow> \<not> structured (t_cls t) \<and> cs = [] \<and> t_len t = int (length (der_value t buf))
      | None \<Rightarrow> structured (t_cls t) \<and> t_len t = int (length (concat (map der cs))) \<and> (\<forall>c \<in> set cs. encodable c))"

lemma encodable_length: "encodable t \<Longrightarrow> int (length (der t)) = t_off (t_data t) + t_len (t_data t)"
  by (cases t) (auto split: option.splits)

lemma unparse_len_overlay:
  assumes "at + length (der_length n) \<le> length d" "n < 2147483648"
  shows "atlv_unparse_len (word_of_int (int n)) (Some d) at = Some (length (der_length n), Some (overlay d at (der_length n)))"
proof -
  let ?v = "word_of_int (int n) :: u64"
  have u: "unat ?v = n" using assms(2) by (simp add: unsigned_of_nat take_bit_nat_eq_self_iff)
  have less: "?v < 128 \<longleftrightarrow> n < 128" using u by (simp add: word_less_nat_alt)
  show ?thesis
  proof (cases "n < 128")
    case True
    have "ucast ?v = (word_of_nat n :: byte)" using u by (metis of_int_of_nat_eq of_nat_unat)
    then show ?thesis using True less assms(1) by (simp add: atlv_unparse_len_def der_length_def put_overlay)
  next
    case False
    let ?ds = "digits 8 n"
    let ?temp = "map word_of_nat ?ds :: bytes"
    have "n < 2 ^ (8 * 4)" using assms(2) by simp
    then have l: "length ?ds \<le> 4" by (intro digits_length) simp_all
    have s: "shift_digits 8 ?v [] = Some ?temp" using shift_digits_eq [of 8 "[]" ?v] l u by simp
    have k: "(word_of_nat (length ?ds) AND 0x7F) + 128 = (word_of_nat (128 + length ?ds) :: byte)"
    proof -
      have "length ?ds = 0 \<or> length ?ds = 1 \<or> length ?ds = 2 \<or> length ?ds = 3 \<or> length ?ds = 4" using l by linarith
      then show ?thesis by (elim disjE) simp_all
    qed
    have dl: "der_length n = word_of_nat (128 + length ?ds) # rev ?temp"
      using False by (simp add: der_length_def rev_map)
    have fit: "at + Suc (length ?ds) \<le> length d" using assms(1) dl by simp
    let ?d1 = "overlay d at [word_of_nat (128 + length ?ds)]"
    have p1: "put d at (word_of_nat (128 + length ?ds)) = Some ?d1" using fit by (intro put_overlay) simp
    have "put_digits ?d1 (at + (length ?ds + 1) - 1) 0 ?temp (length ?ds) =
        Some (overlay ?d1 (at + (length ?ds + 1) - 1 + 1 - length ?ds) (map (\<lambda>x. x + 0) (rev (take (length ?ds) ?temp))))"
      using fit by (intro put_digits_overlay) simp_all
    also have "overlay ?d1 (at + (length ?ds + 1) - 1 + 1 - length ?ds) (map (\<lambda>x. x + 0) (rev (take (length ?ds) ?temp))) =
        overlay d at ([word_of_nat (128 + length ?ds)] @ rev ?temp)"
      using fit by (simp add: overlay_overlay)
    finally have p2: "put_digits ?d1 (at + (length ?ds + 1) - 1) 0 ?temp (length ?ds) = Some (overlay d at (der_length n))"
      unfolding dl by simp
    show ?thesis using False less s p1 p2 by (simp add: atlv_unparse_len_def Let_def k dl)
  qed
qed

lemma length_long_tag [simp]: "ds \<noteq> [] \<Longrightarrow> length (long_tag ds) = length ds"
  by (simp add: long_tag_def)

lemma update_final: "length xs = n \<Longrightarrow> (b # xs @ [y])[Suc n := z] = b # xs @ [z]"
  by (induction xs arbitrary: n) auto

lemma unparse_cls_tag_overlay:
  assumes fit: "at + length (der_tag cls tag) \<le> length d" "length (der_tag cls tag) \<le> n" and tag: "unat tag < 2147483648"
  shows "unparse_cls_tag (Some d) at n cls tag = Some (length (der_tag cls tag), Some (overlay d at (der_tag cls tag)))"
proof (cases "tag < 31")
  case True
  then show ?thesis using fit by (simp add: unparse_cls_tag_def der_tag_def put_overlay)
next
  case False
  let ?ds = "digits 7 (unat tag)"
  let ?temp = "map word_of_nat ?ds :: bytes"
  let ?b = "(cls AND 0xE0) + 31"
  let ?k = "length ?ds"
  let ?e = "at + (?k + 1) - 1"
  have pos: "0 < unat tag" using False by (simp add: word_less_nat_alt)
  then have ne: "?ds \<noteq> []" by (intro digits_not_Nil) simp_all
  have "unat tag < 2 ^ (7 * 5)" using tag by simp
  then have "?k \<le> 5" by (intro digits_length) simp_all
  then have s: "shift_digits 7 tag [] = Some ?temp" using shift_digits_eq [of 7 "[]" tag] by simp
  have dt: "der_tag cls tag = ?b # long_tag (rev ?ds)" using False by (simp add: der_tag_def)
  have fit': "at + Suc ?k \<le> length d" "Suc ?k \<le> n" using fit dt ne by simp_all
  let ?hi = "map (\<lambda>x. x + 128) (rev ?temp)"
  let ?d1 = "overlay d at [?b]"
  have p1: "put d at ?b = Some ?d1" using fit' by (intro put_overlay) simp
  have "put_digits ?d1 ?e 128 ?temp ?k = Some (overlay ?d1 (?e + 1 - ?k) (map (\<lambda>x. x + 128) (rev (take ?k ?temp))))"
    using fit' by (intro put_digits_overlay) simp_all
  also have "overlay ?d1 (?e + 1 - ?k) (map (\<lambda>x. x + 128) (rev (take ?k ?temp))) = overlay d at (?b # ?hi)"
    using fit' by (simp add: overlay_overlay)
  finally have p2: "put_digits ?d1 ?e 128 ?temp ?k = Some (overlay d at (?b # ?hi))" .
  have in_range: "at + length (?b # ?hi) \<le> length d" "at \<le> ?e" "?e < at + length (?b # ?hi)" using fit' by simp_all
  have last: "(?b # ?hi) ! (?e - at) = word_of_nat (last (rev ?ds)) + 128"
    using ne by (simp add: rev_map last_rev hd_conv_nth rev_nth)
  have upd: "(?b # ?hi)[?e - at := word_of_nat (last (rev ?ds)) + 128 - 128] = der_tag cls tag"
  proof -
    have "?hi = map (\<lambda>x. word_of_nat x + 128) (rev ?ds)" by (simp add: rev_map)
    also have "\<dots> = map (\<lambda>x. word_of_nat x + 128) (butlast (rev ?ds) @ [last (rev ?ds)])"
      using ne append_butlast_last_id [of "rev ?ds"] by simp
    finally have "?hi = map (\<lambda>x. word_of_nat x + 128) (butlast (rev ?ds)) @ [word_of_nat (last (rev ?ds)) + 128]" by simp
    moreover have "?e - at = Suc (?k - 1)" using ne by (cases ?ds) simp_all
    moreover have "length (map (\<lambda>x. word_of_nat x + 128 :: byte) (butlast (rev ?ds))) = ?k - 1" by simp
    ultimately show ?thesis unfolding dt long_tag_def by (simp only: update_final add_diff_cancel_right')
  qed
  have p3: "byte_at (overlay d at (?b # ?hi)) ?e = Some (word_of_nat (last (rev ?ds)) + 128)"
    "put (overlay d at (?b # ?hi)) ?e (word_of_nat (last (rev ?ds)) + 128 - 128) = Some (overlay d at (der_tag cls tag))"
    using put_inside_overlay [OF in_range] last upd by simp_all
  have len: "length (der_tag cls tag) = ?k + 1" using dt ne by simp
  show ?thesis unfolding unparse_cls_tag_def len using False s fit' p1 p2 p3 by (simp add: Let_def)
qed

lemma unparse_header_overlay:
  assumes "at + length (der_header t) \<le> length d" "length (der_header t) \<le> n" "unat (t_tag t) < 2147483648"
    "0 \<le> t_len t" "t_len t < 2147483648"
  shows "atlv_unparse_cls_tag_len (Some d) at n (t_cls t) (t_tag t) (t_len t) =
     Some (length (der_header t), Some (overlay d at (der_header t)))"
proof -
  let ?T = "der_tag (t_cls t) (t_tag t)" let ?L = "der_length (nat (t_len t))"
  have h: "der_header t = ?T @ ?L" by (simp add: der_header_def)
  have len: "word_of_int (t_len t) = (word_of_int (int (nat (t_len t))) :: u64)" using assms(4) by simp
  have a: "unparse_cls_tag (Some d) at n (t_cls t) (t_tag t) = Some (length ?T, Some (overlay d at ?T))"
    using assms h by (intro unparse_cls_tag_overlay) simp_all
  have "atlv_unparse_len (word_of_int (int (nat (t_len t)))) (Some (overlay d at ?T)) (at + length ?T) =
      Some (length ?L, Some (overlay (overlay d at ?T) (at + length ?T) ?L))"
    using assms h by (intro unparse_len_overlay) simp_all
  also have "overlay (overlay d at ?T) (at + length ?T) ?L = overlay d at (der_header t)"
    using assms(1) h by (simp add: overlay_overlay)
  finally have b: "atlv_unparse_len (word_of_int (t_len t)) (Some (overlay d at ?T)) (at + length ?T) =
      Some (length ?L, Some (overlay d at (der_header t)))" unfolding len .
  show ?thesis using a b assms(2) h by (simp add: atlv_unparse_cls_tag_len_def)
qed

lemma length_clear_low [simp]: "length (clear_low n buf) = length buf"
  by (simp add: clear_low_def)

lemma unparse_value_overlay:
  assumes "p + length (der_value t buf) \<le> length d" "t_len t = int (length (der_value t buf))"
  shows "unparse_value t buf d p = Some (overlay d p (der_value t buf), p + length (der_value t buf))"
proof (cases "t_prefix_for_bit_string t")
  case True
  let ?n = "word_of_nat (t_bits_empty t) :: byte"
  have fit: "p + Suc (length buf) \<le> length d" "t_len t = int (length buf) + 1" using assms True by (simp_all add: der_value_def)
  have a: "put d p ?n = Some (overlay d p [?n])" using fit by (intro put_overlay) simp
  have "put_all (overlay d p [?n]) (p + 1) buf = Some (overlay (overlay d p [?n]) (p + 1) buf)"
    using fit by (intro put_all_overlay) simp
  also have "overlay (overlay d p [?n]) (p + 1) buf = overlay d p (?n # buf)" using fit by (simp add: overlay_overlay)
  finally have b: "put_all (overlay d p [?n]) (Suc p) buf = Some (overlay d p (?n # buf))" by simp
  show ?thesis
  proof (cases "buf = [] \<or> t_bits_empty t = 0")
    case C: True
    then have "der_value t buf = ?n # buf" using True by (auto simp: der_value_def clear_low_def)
    then show ?thesis using True C fit a b by (auto simp: unparse_value_def Let_def)
  next
    case False
    let ?m = "drop_bit (8 - t_bits_empty t) (0xFF :: byte)"
    have r: "p + length (?n # buf) \<le> length d" "p \<le> p + length buf" "p + length buf < p + length (?n # buf)" using fit by simp_all
    have g: "(?n # buf) ! length buf = last buf" using False by (cases "length buf") (simp_all add: last_conv_nth)
    have "(?n # buf)[length buf := last buf AND NOT ?m] = ?n # clear_low (t_bits_empty t) buf"
      using False by (cases buf rule: rev_cases) (simp_all add: clear_low_def list_update_append)
    then have "(?n # buf)[length buf := last buf AND NOT ?m] = der_value t buf" using True by (simp add: der_value_def)
    then have c: "byte_at (overlay d p (?n # buf)) (p + length buf) = Some (last buf)"
      "put (overlay d p (?n # buf)) (p + length buf) (last buf AND NOT ?m) = Some (overlay d p (der_value t buf))"
      using put_inside_overlay [OF r] g by simp_all
    show ?thesis using True False fit a b c assms(2) by (simp add: unparse_value_def Let_def der_value_def)
  qed
next
  case False
  show ?thesis
  proof (cases "t_prefix_with_zero_byte t")
    case True
    have fit: "p + Suc (length buf) \<le> length d" "t_len t = int (length buf) + 1" using assms True False by (simp_all add: der_value_def)
    have a: "put d p 0 = Some (overlay d p [0])" using fit by (intro put_overlay) simp
    have "put_all (overlay d p [0]) (p + 1) buf = Some (overlay (overlay d p [0]) (p + 1) buf)"
      using fit by (intro put_all_overlay) simp
    also have "overlay (overlay d p [0]) (p + 1) buf = overlay d p (0 # buf)" using fit by (simp add: overlay_overlay)
    finally show ?thesis using False True fit a by (simp add: unparse_value_def der_value_def Let_def)
  next
    case F: False
    then show ?thesis using False assms by (simp add: unparse_value_def der_value_def Let_def put_all_overlay)
  qed
qed

lemma unparse_overlay:
  "encodable t \<Longrightarrow> at + length (der t) \<le> e \<Longrightarrow> e \<le> length d \<Longrightarrow>
     atlv_unparse_der t d at e = Some (overlay d at (der t), at + length (der t))"
  "(\<And>c. c \<in> set cs \<Longrightarrow> encodable c) \<Longrightarrow> at + length (concat (map der cs)) \<le> e \<Longrightarrow> e \<le> length d \<Longrightarrow>
     unparse_children cs d at e = Some (overlay d at (concat (map der cs)), at + length (concat (map der cs)))"
proof (induction t d at e and cs d at e rule: atlv_unparse_der_unparse_children.induct)
  case (1 t cs link d at e)
  let ?B = "case t_value t of Some buf \<Rightarrow> der_value t buf | None \<Rightarrow> concat (map der cs)"
  have enc: "der (Atlv t cs link) = der_header t @ ?B" by simp
  have ok: "link = None" "unat (t_tag t) < 2147483648" "0 \<le> t_len t" "t_off t = int (length (der_header t))" "t_len t < 2147483648"
    using 1(2) by simp_all
  have fit: "at + length (der_header t) + length ?B \<le> e" using 1(3) enc by simp
  have h: "atlv_unparse_cls_tag_len (Some d) at (e - at) (t_cls t) (t_tag t) (t_len t) =
      Some (length (der_header t), Some (overlay d at (der_header t)))"
    using ok fit 1(4) by (intro unparse_header_overlay) simp_all
  let ?d1 = "overlay d at (der_header t)"
  have l1: "length ?d1 = length d" using fit 1(4) by simp
  have join: "overlay ?d1 (at + length (der_header t)) ?B = overlay d at (der_header t @ ?B)"
    using fit 1(4) by (simp add: overlay_overlay)
  have body: "(case t_value t of Some buf \<Rightarrow> unparse_value t buf ?d1 (at + length (der_header t))
      | None \<Rightarrow> unparse_children cs ?d1 (at + length (der_header t)) e) =
      Some (overlay d at (der_header t @ ?B), at + length (der_header t @ ?B))"
  proof (cases "t_value t")
    case (Some buf)
    then have "t_len t = int (length (der_value t buf))" using 1(2) by simp
    then have "unparse_value t buf ?d1 (at + length (der_header t)) =
        Some (overlay ?d1 (at + length (der_header t)) ?B, at + length (der_header t) + length ?B)"
      using unparse_value_overlay [of "at + length (der_header t)" t buf ?d1] Some fit 1(4) l1 by simp
    then show ?thesis using Some join by (simp add: add.assoc)
  next
    case None
    then have "\<And>c. c \<in> set cs \<Longrightarrow> encodable c" using 1(2) by simp
    then have "unparse_children cs ?d1 (at + length (der_header t)) e =
        Some (overlay ?d1 (at + length (der_header t)) ?B, at + length (der_header t) + length ?B)"
      using 1(1) [OF _ h refl refl _ None, of "()" "()"] None fit 1(4) l1 ok by simp
    then show ?thesis using None join by (simp add: add.assoc)
  qed
  show ?case
    using h ok(1,4) fit body 1(4) by (cases "t_value t") (simp_all add: enc)
next
  case (2 d at e)
  then show ?case by simp
next
  case (3 c cs d at e)
  have fit: "at + length (der c) + length (concat (map der cs)) \<le> e" using 3(4) by simp
  have c: "encodable c" using 3(3) by simp
  have a: "atlv_unparse_der c d at e = Some (overlay d at (der c), at + length (der c))"
    using 3(1) [OF refl c] fit 3(5) by simp
  have "unparse_children cs (overlay d at (der c)) (at + length (der c)) e =
      Some (overlay (overlay d at (der c)) (at + length (der c)) (concat (map der cs)), at + length (der c) + length (concat (map der cs)))"
    using 3(2) [OF refl a refl] fit 3(3,5) encodable_length [OF c] by simp
  also have "overlay (overlay d at (der c)) (at + length (der c)) (concat (map der cs)) = overlay d at (concat (map der (c # cs)))"
    using fit 3(5) by (simp add: overlay_overlay)
  finally show ?case using a encodable_length [OF c] by (simp add: Let_def add.assoc)
qed

end
