(* ===== verification/Asn1Round.thy ===== *)
theory Asn1Round
  imports Asn1Write
begin

text \<open>Reading inverts the reference encoding, from headers to trees.\<close>

section \<open>Headers\<close>

lemma foldl_digits_mono: "0 < c \<Longrightarrow> (a :: nat) \<le> foldl (\<lambda>a x. a * c + x) a xs"
proof (induction xs arbitrary: a)
  case (Cons x xs)
  have "a \<le> a * c + x" using Cons.prems by (cases c) simp_all
  also have "\<dots> \<le> foldl (\<lambda>a x. a * c + x) (a * c + x) xs" by (rule Cons.IH) fact
  finally show ?case by simp
qed simp

lemma byte_at_drop: "drop i d = x # rest \<Longrightarrow> byte_at d i = Some x"
  by (auto simp: byte_at_def) (metis nth_via_drop, metis drop_all linorder_not_less list.distinct(1))

lemma drop_Suc_eq: "drop i d = x # rest \<Longrightarrow> drop (Suc i) d = rest"
  by (metis drop_Suc list.sel(3) tl_drop)

lemma length_digits_read:
  "drop (at + punt) d = map word_of_nat xs @ rest \<Longrightarrow> punt + length xs = k + 1 \<Longrightarrow> int (punt + length xs) \<le> n \<Longrightarrow>
    foldl (\<lambda>a x. a * 2 ^ 8 + x) a xs < 2147483648 \<Longrightarrow> \<forall>x \<in> set xs. x < 256 \<Longrightarrow>
    parse_length_digits d at n k punt (int a) = Some (Some (k + 1, int (foldl (\<lambda>a x. a * 2 ^ 8 + x) a xs)))"
proof (induction xs arbitrary: punt a)
  case Nil
  then show ?case by (simp add: length_digits_done)
next
  case (Cons x xs)
  have v: "byte_at d (at + punt) = Some (word_of_nat x)" using Cons.prems(1) by (simp add: byte_at_drop)
  have "a * 2 ^ 8 + x < 2147483648" using Cons.prems(4) foldl_digits_mono [of "2 ^ 8" "a * 2 ^ 8 + x" xs] by simp
  then have b: "gint (int a * 256) = int a * 256" "int a * 256 + int x < 2147483648" by (simp_all add: gint_def)
  have u: "uint (word_of_nat x :: byte) = int x" using Cons.prems(5) by (simp add: unsigned_of_nat take_bit_nat_eq_self_iff)
  have g: "gint (gint (int a * 256) + uint (word_of_nat x :: byte)) = int (a * 2 ^ 8 + x)"
    unfolding b(1) u using b(2) by (simp add: gint_def)
  have "drop (at + (punt + 1)) d = map word_of_nat xs @ rest" using drop_Suc_eq [of "at + punt" d] Cons.prems(1) by simp
  from Cons.IH [OF this, of "a * 2 ^ 8 + x"] Cons.prems
  have "parse_length_digits d at n k (punt + 1) (int (a * 2 ^ 8 + x)) =
      Some (Some (k + 1, int (foldl (\<lambda>a x. a * 2 ^ 8 + x) a (x # xs))))" by simp
  note r = this
  have k: "punt \<le> k" "int punt < n" using Cons.prems by simp_all
  have c: "\<not> gint (int a * 256) < int a" "\<not> int (a * 2 ^ 8 + x) < gint (int a * 256)" unfolding b(1) by simp_all
  show ?case unfolding length_digits_step [OF k v] g if_not_P [OF c(1)] if_not_P [OF c(2)] by (rule r)
qed

lemma byte_add_128: "x < 128 \<Longrightarrow> (word_of_nat x + 128 :: byte) AND 0x7F = word_of_nat x"
  "x < 128 \<Longrightarrow> (word_of_nat x + 128 :: byte) \<noteq> word_of_nat x"
  "x < 128 \<Longrightarrow> (word_of_nat x :: byte) AND 0x7F = word_of_nat x"
proof -
  assume x: "x < 128"
  have m: "(0x7F :: byte) = mask 7" by (simp add: mask_eq_exp_minus_1)
  show "(word_of_nat x :: byte) AND 0x7F = word_of_nat x"
    unfolding m take_bit_eq_mask [symmetric] using x unfolding word_unat_eq_iff unsigned_take_bit_eq unsigned_of_nat by (simp add: take_bit_eq_mod)
  show "(word_of_nat x + 128 :: byte) \<noteq> word_of_nat x" by simp
  show "(word_of_nat x + 128 :: byte) AND 0x7F = word_of_nat x"
    unfolding m take_bit_eq_mask [symmetric] using x
    by (simp add: word_unat_eq_iff unsigned_take_bit_eq unsigned_of_nat unat_word_ariths take_bit_eq_mod)
qed

lemma tag_digits_read:
  "drop (at + punt) d = long_tag xs @ rest \<Longrightarrow> xs \<noteq> [] \<Longrightarrow> int (punt + length xs) \<le> n \<Longrightarrow>
    foldl (\<lambda>a x. a * 2 ^ 7 + x) a xs < 2147483648 \<Longrightarrow> \<forall>x \<in> set xs. x < 128 \<Longrightarrow>
    parse_tag_digits d at n punt (int a) = Some (Some (punt + length xs, int (foldl (\<lambda>a x. a * 2 ^ 7 + x) a xs)))"
proof (induction xs arbitrary: punt a)
  case (Cons x xs)
  let ?b = "if xs = [] then word_of_nat x else word_of_nat x + 128 :: byte"
  have lt: "long_tag (x # xs) = ?b # (if xs = [] then [] else long_tag xs)" by (simp add: long_tag_def)
  have v: "byte_at d (at + punt) = Some ?b" using Cons.prems(1) unfolding lt by (intro byte_at_drop) simp
  have x: "x < 128" using Cons.prems(5) by simp
  have and7: "?b AND 0x7F = word_of_nat x" using byte_add_128 [OF x] by simp
  have "a * 2 ^ 7 + x < 2147483648" using Cons.prems(4) foldl_digits_mono [of "2 ^ 7" "a * 2 ^ 7 + x" xs] by simp
  then have b: "gint (int a * 128) = int a * 128" "int a * 128 + int x < 2147483648" by (simp_all add: gint_def)
  have u: "uint (word_of_nat x :: byte) = int x" using x by (simp add: unsigned_of_nat take_bit_nat_eq_self_iff)
  have g: "gint (gint (int a * 128) + uint (?b AND 0x7F)) = int (a * 2 ^ 7 + x)"
    unfolding b(1) and7 u using b(2) by (simp add: gint_def)
  have n: "int punt \<le> n" using Cons.prems(3) by simp
  have c: "\<not> gint (int a * 128) < int a" "\<not> int (a * 2 ^ 7 + x) < gint (int a * 128)" unfolding b(1) by simp_all
  show ?case
  proof (cases "xs = []")
    case True
    then have q: "?b AND 0x7F = ?b" using and7 by simp
    show ?thesis unfolding tag_digits_step [OF n v] g if_not_P [OF c(1)] if_not_P [OF c(2)] if_P [OF q] using True by simp
  next
    case False
    then have q: "?b AND 0x7F \<noteq> ?b" using and7 byte_add_128(2) [OF x] by metis
    have "drop (at + (punt + 1)) d = long_tag xs @ rest"
      using drop_Suc_eq [of "at + punt" d] Cons.prems(1) False unfolding lt by simp
    from Cons.IH [OF this False, of "a * 2 ^ 7 + x"] Cons.prems
    have "parse_tag_digits d at n (punt + 1) (int (a * 2 ^ 7 + x)) =
        Some (Some (punt + length (x # xs), int (foldl (\<lambda>a x. a * 2 ^ 7 + x) a (x # xs))))" by simp
    then show ?thesis unfolding tag_digits_step [OF n v] g if_not_P [OF c(1)] if_not_P [OF c(2)] if_not_P [OF q] .
  qed
qed simp

lemma byte_high_low:
  assumes "cls AND 0xE0 = cls" "x AND 0x1F = x"
  shows "(cls + x) AND 0x1F = (x :: byte)" "(cls + x) AND 0xE0 = cls"
proof -
  have c: "cls AND 0x1F = 0"
  proof -
    have "cls AND 0x1F = (cls AND 0xE0) AND 0x1F" using assms(1) by simp
    then show ?thesis by (simp add: and.assoc)
  qed
  have x: "x AND 0xE0 = 0"
  proof -
    have "x AND 0xE0 = (x AND 0x1F) AND 0xE0" using assms(2) by simp
    then show ?thesis by (simp add: and.assoc)
  qed
  have "cls AND x = (cls AND 0xE0) AND x" using assms(1) by simp
  also have "\<dots> = cls AND (x AND 0xE0)" by (simp only: and.assoc and.commute [of x])
  finally have "cls AND x = 0" unfolding x by simp
  then have o: "cls + x = cls OR x" using word_plus_and_or [of cls x] by simp
  show "(cls + x) AND 0x1F = x" "(cls + x) AND 0xE0 = cls"
    unfolding o using c x assms by (simp_all add: bit.conj_disj_distrib2)
qed

lemma parse_cls_tag_read:
  assumes d: "drop at d = der_tag cls tag @ rest" and e: "at + length (der_tag cls tag) < e" "e \<le> length d" "length d < 2147483648"
    and w: "cls AND 0xE0 = cls" "unat tag < 2147483648"
  shows "atlv_parse_cls_tag d at e = Some (Some (cls, tag, length (der_tag cls tag)))"
proof (cases "tag < 31")
  case True
  let ?x = "ucast (tag AND 0x1F) :: byte"
  have m: "(0x1F :: u64) = mask 5" "(0x1F :: byte) = mask 5" by (simp_all add: mask_eq_exp_minus_1)
  have t: "unat tag < 31" using True by (simp add: word_less_nat_alt)
  have tag: "tag AND 0x1F = tag"
    unfolding m take_bit_eq_mask [symmetric] using t by (simp add: word_unat_eq_iff unsigned_take_bit_eq take_bit_nat_eq_self_iff)
  have ux: "unat ?x = unat tag" unfolding tag using t by (simp add: unsigned_ucast_eq take_bit_nat_eq_self_iff)
  have x: "?x AND 0x1F = ?x"
    unfolding m(2) take_bit_eq_mask [symmetric] using t ux by (simp add: word_unat_eq_iff unsigned_take_bit_eq take_bit_nat_eq_self_iff)
  have ne: "?x \<noteq> 0x1F" using ux t by auto
  have dt: "der_tag cls tag = [cls + ?x]" using True w(1) by (simp add: der_tag_def)
  have b: "byte_at d at = Some (cls + ?x)" using d dt by (simp add: byte_at_drop)
  have "ucast ?x = tag" using ux by (simp add: word_unat_eq_iff)
  then show ?thesis using b e dt ne byte_high_low [OF w(1) x] by (simp add: atlv_parse_cls_tag_def Let_def)
next
  case False
  let ?ds = "rev (digits 7 (unat tag))"
  have dt: "der_tag cls tag = (cls + 31) # long_tag ?ds" using False w(1) by (simp add: der_tag_def)
  have "0 < unat tag" using False by (simp add: word_less_nat_alt)
  then have ne: "?ds \<noteq> []" using digits_not_Nil [of 7 "unat tag"] by simp
  have b: "byte_at d at = Some (cls + 31)" using d dt by (simp add: byte_at_drop)
  have hl: "(cls + 31) AND 0x1F = 31" "(cls + 31) AND 0xE0 = cls" using byte_high_low [OF w(1), of 31] by simp_all
  have fold: "foldl (\<lambda>a x. a * 2 ^ 7 + x) 0 ?ds = unat tag" by (rule digits_fold) simp
  have dr: "drop (at + 1) d = long_tag ?ds @ rest" using drop_Suc_eq [of at d] d dt by simp
  have len: "length (der_tag cls tag) = 1 + length ?ds" using dt ne by simp
  have n: "int (1 + length ?ds) < int e - int at" "gint (int e - int at) = int e - int at" using e len by simp_all
  have "parse_tag_digits d at (int e - int at) 1 (int 0) = Some (Some (1 + length ?ds, int (foldl (\<lambda>a x. a * 2 ^ 7 + x) 0 ?ds)))"
  proof (rule tag_digits_read [OF dr ne])
    show "foldl (\<lambda>a x. a * 2 ^ 7 + x) 0 ?ds < 2147483648" unfolding fold by (rule w(2))
    show "\<forall>x \<in> set ?ds. x < 128" using digits_less [of _ 7 "unat tag"] by auto
  qed (use n in simp)
  then have "parse_tag_digits d at (int e - int at) 1 0 = Some (Some (1 + length ?ds, int (unat tag)))" unfolding fold by simp
  then show ?thesis using b hl n len e by (simp add: atlv_parse_cls_tag_def Let_def)
qed

lemma parse_length_read:
  assumes d: "drop at d = der_length n @ rest" and e: "at + length (der_length n) \<le> e" "e \<le> length d" "length d < 2147483648"
    and n: "n < 2147483648"
  shows "atlv_parse_length d at e = Some (int n, length (der_length n))"
proof (cases "n < 128")
  case True
  have b: "byte_at d at = Some (word_of_nat n)" using d True by (simp add: der_length_def byte_at_drop)
  have "(word_of_nat n :: byte) AND 128 = 0" using byte_add_128(3) [OF True] byte_and_7f by metis
  then show ?thesis using b True e by (simp add: atlv_parse_length_def der_length_def Let_def unsigned_of_nat take_bit_nat_eq_self_iff)
next
  case False
  let ?ds = "rev (digits 8 n)"
  have "n < 2 ^ (8 * 4)" using n by simp
  then have l: "length ?ds \<le> 4" using digits_length [of 8 n 4] by simp
  have ne: "?ds \<noteq> []" using digits_not_Nil [of 8 n] False by simp
  have dl: "der_length n = word_of_nat (128 + length ?ds) # map word_of_nat ?ds" using False by (simp add: der_length_def)
  have b: "byte_at d at = Some (word_of_nat (length ?ds) + 128)" using d dl by (simp add: byte_at_drop add.commute)
  have k: "(word_of_nat (length ?ds) + 128 :: byte) AND 0x7F = word_of_nat (length ?ds)" using byte_add_128(1) l by simp
  then have h: "(word_of_nat (length ?ds) + 128 :: byte) AND 128 \<noteq> 0"
    using byte_and_7f [of "word_of_nat (length ?ds) + 128"] byte_add_128(2) l by auto
  have u: "unat (word_of_nat (length ?ds) :: byte) = length ?ds" using l by (simp add: unsigned_of_nat take_bit_nat_eq_self_iff)
  have fold: "foldl (\<lambda>a x. a * 2 ^ 8 + x) 0 ?ds = n" by (rule digits_fold) simp
  have dr: "drop (at + 1) d = map word_of_nat ?ds @ rest" using drop_Suc_eq [of at d] d dl by simp
  have "parse_length_digits d at (int e - int at) (length ?ds) 1 (int 0) =
      Some (Some (length ?ds + 1, int (foldl (\<lambda>a x. a * 2 ^ 8 + x) 0 ?ds)))"
  proof (rule length_digits_read [OF dr])
    show "foldl (\<lambda>a x. a * 2 ^ 8 + x) 0 ?ds < 2147483648" unfolding fold by (rule n)
    show "\<forall>x \<in> set ?ds. x < 256" using digits_less [of _ 8 n] by auto
  qed (use e dl in simp_all)
  then have "parse_length_digits d at (int e - int at) (length ?ds) 1 0 = Some (Some (length ?ds + 1, int n))" unfolding fold by simp
  then show ?thesis using b h k u ne e dl by (simp add: atlv_parse_length_def Let_def)
qed

lemma der_tag_not_Nil [simp]: "der_tag cls tag \<noteq> []"
  by (simp add: der_tag_def)

lemma der_length_not_Nil [simp]: "der_length n \<noteq> []"
  by (simp add: der_length_def)

lemma length_der_length: "0 < length (der_length n)"
  by simp

lemma parse_header_read:
  assumes d: "drop at d = der_header t @ rest" and e: "int (at + length (der_header t)) + t_len t \<le> int e" "e \<le> length d" "length d < 2147483648"
    and t: "t_cls t AND 0xE0 = t_cls t" "unat (t_tag t) < 2147483648" "0 \<le> t_len t" "t_len t < 2147483648"
  shows "atlv_parse_cls_tag_len d at e = Some (Some (t_cls t, t_tag t, length (der_header t), t_len t))"
proof -
  let ?T = "der_tag (t_cls t) (t_tag t)" let ?L = "der_length (nat (t_len t))"
  have h: "der_header t = ?T @ ?L" by (simp add: der_header_def)
  have fit: "at + length ?T + length ?L + nat (t_len t) \<le> e" using e(1) t(3) h by simp
  have nl: "at + length ?T < e" using fit length_der_length [of "nat (t_len t)"] by linarith
  have a: "atlv_parse_cls_tag d at e = Some (Some (t_cls t, t_tag t, length ?T))"
    by (rule parse_cls_tag_read [where rest = "?L @ rest"]) (use d h fit e t nl in simp_all)
  have "drop (at + length ?T) d = ?L @ rest"
    using d h by (metis add.commute append.assoc append_eq_conv_conj drop_drop)
  then have b: "atlv_parse_length d (at + length ?T) e = Some (t_len t, length ?L)"
    using parse_length_read [of "at + length ?T" d "nat (t_len t)" rest e] fit e t by simp
  show ?thesis using a b fit t(3) h by (simp add: atlv_parse_cls_tag_len_def)
qed

section \<open>Trees\<close>

text \<open>What the parser sees of a tree that was written.\<close>

fun as_parsed :: "atlv \<Rightarrow> atlv" where
  "as_parsed (Atlv t cs back) = Atlv (tlv_zero\<lparr>t_cls := t_cls t, t_tag := t_tag t, t_off := t_off t, t_len := t_len t,
     t_value := map_option (der_value t) (t_value t), t_decoded := Some (der (Atlv t cs back))\<rparr>) (map as_parsed cs) None"

lemma der_length_pos: "2 \<le> length (der t)"
proof (cases t)
  case (Atlv h cs b)
  have "0 < length (der_tag (t_cls h) (t_tag h))" "0 < length (der_length (nat (t_len h)))" by (simp_all only: length_greater_0_conv der_tag_not_Nil der_length_not_Nil not_False_eq_True simp_thms)
  then show ?thesis unfolding Atlv der.simps der_header_def length_append by linarith
qed

lemma encodable_header:
  assumes "encodable t"
  shows "t_cls (t_data t) AND 0xE0 = t_cls (t_data t)" "unat (t_tag (t_data t)) < 2147483648" "0 \<le> t_len (t_data t)"
    "t_len (t_data t) < 2147483648" "t_off (t_data t) = int (length (der_header (t_data t)))"
    "\<exists>body. der t = der_header (t_data t) @ body \<and> int (length body) = t_len (t_data t)"
  using assms by (cases t, auto split: option.splits)+

lemma sub_bytes_prefix: "drop i d = xs @ rest \<Longrightarrow> length xs = n \<Longrightarrow> sub_bytes d i n = xs"
  by (simp add: sub_bytes_def)

definition reads_tree :: "atlv \<Rightarrow> bool" where
  "reads_tree t \<longleftrightarrow> (\<forall>d at rest. drop at d = der t @ rest \<longrightarrow> length d < 2147483648 \<longrightarrow>
     parse_tag_with parse_children (t_cls (t_data t)) (t_tag (t_data t)) (length (der_header (t_data t))) (t_len (t_data t)) d at =
       Some (Inr (as_parsed t, at + length (der t))))"

lemma drop_append_length: "drop i d = xs @ rest \<Longrightarrow> xs \<noteq> [] \<Longrightarrow> i + length xs + length rest = length d"
proof -
  assume d: "drop i d = xs @ rest" and "xs \<noteq> []"
  then have "length (drop i d) = length xs + length rest" by simp
  then show ?thesis using \<open>xs \<noteq> []\<close> by (cases xs) auto
qed

lemma drop_append_drop: "drop i d = xs @ rest \<Longrightarrow> drop (i + length xs) d = rest"
  by (metis add.commute append_eq_conv_conj drop_drop)

lemma read_children:
  "(\<And>c. c \<in> set cs \<Longrightarrow> reads_tree c \<and> encodable c) \<Longrightarrow> drop at d = concat (map der cs) @ rest \<Longrightarrow> at \<le> length d \<Longrightarrow>
    length d < 2147483648 \<Longrightarrow> 0 \<le> len \<Longrightarrow>
    parse_children (d, len, at + length (concat (map der cs)), at) = Some (Inr (map as_parsed cs, at + length (concat (map der cs))))"
proof (induction cs arbitrary: at)
  case Nil
  then show ?case by (simp add: parse_children_done)
next
  case (Cons c cs)
  let ?e = "at + length (concat (map der (c # cs)))"
  have c: "reads_tree c" "encodable c" using Cons.prems(1) by simp_all
  have ne: "der c \<noteq> []" using der_length_pos [of c] by auto
  have dc: "drop at d = der c @ concat (map der cs) @ rest" using Cons.prems(2) by simp
  have le: "?e \<le> length d" using drop_append_length [OF dc ne] by simp
  obtain body where body: "der c = der_header (t_data c) @ body" "int (length body) = t_len (t_data c)" using encodable_header(6) [OF c(2)] by blast
  have hd: "atlv_parse_cls_tag_len d at ?e =
      Some (Some (t_cls (t_data c), t_tag (t_data c), length (der_header (t_data c)), t_len (t_data c)))"
    using dc body le Cons.prems(4) encodable_header [OF c(2)]
    by (intro parse_header_read [where rest = "body @ concat (map der cs) @ rest"]) simp_all
  have t: "parse_tag_with parse_children (t_cls (t_data c)) (t_tag (t_data c)) (length (der_header (t_data c))) (t_len (t_data c)) d at =
       Some (Inr (as_parsed c, at + length (der c)))"
    using c(1) dc Cons.prems(4) unfolding reads_tree_def by blast
  have "parse_children (d, len, at + length (der c) + length (concat (map der cs)), at + length (der c)) =
      Some (Inr (map as_parsed cs, at + length (der c) + length (concat (map der cs))))"
    using Cons.prems(1,4,5) drop_append_drop [OF dc] le by (intro Cons.IH) simp_all
  then have r: "parse_children (d, len, ?e, at + length (der c)) = Some (Inr (map as_parsed cs, ?e))" by (simp add: add.assoc)
  have lt: "at < ?e" using ne by simp
  show ?case unfolding parse_children_step [OF lt] using Cons.prems(5) hd t r by simp
qed

lemma read_tree: "encodable t \<Longrightarrow> reads_tree t"
proof (induction t)
  case (Atlv t cs link)
  show ?case unfolding reads_tree_def
  proof (intro allI impI)
    fix d at rest
    assume d: "drop at d = der (Atlv t cs link) @ rest" and L: "length d < 2147483648"
    let ?B = "case t_value t of Some buf \<Rightarrow> der_value t buf | None \<Rightarrow> concat (map der cs)"
    have ne: "der (Atlv t cs link) \<noteq> []" using der_length_pos [of "Atlv t cs link"] by auto
    have fit: "at + length (der_header t) + length ?B \<le> length d" using drop_append_length [OF d ne] by simp
    have ds: "drop (at + length (der_header t)) d = ?B @ rest"
      using drop_append_drop [of at d "der_header t" "?B @ rest"] d by simp
    have off: "t_off t = int (length (der_header t))" and len: "0 \<le> t_len t" using Atlv.prems by simp_all
    have dec: "sub_bytes d at (length (der (Atlv t cs link))) = der (Atlv t cs link)" using d by (simp add: sub_bytes_def)
    show "parse_tag_with parse_children (t_cls (t_data (Atlv t cs link))) (t_tag (t_data (Atlv t cs link)))
        (length (der_header (t_data (Atlv t cs link)))) (t_len (t_data (Atlv t cs link))) d at =
       Some (Inr (as_parsed (Atlv t cs link), at + length (der (Atlv t cs link))))"
    proof (cases "t_value t")
      case (Some buf)
      then have v: "\<not> structured (t_cls t)" "cs = []" "t_len t = int (length (der_value t buf))" using Atlv.prems by simp_all
      have "sub_bytes d (at + length (der_header t)) (nat (t_len t)) = der_value t buf"
        using ds Some v(3) by (simp add: sub_bytes_def)
      then show ?thesis using Some v off fit dec by (simp add: parse_tag_with_def Let_def tlv_zero_def add.assoc)
    next
      case None
      then have v: "structured (t_cls t)" "t_len t = int (length (concat (map der cs)))" "\<forall>c \<in> set cs. encodable c" using Atlv.prems by simp_all
      have "parse_children (d, t_len t, at + length (der_header t) + length (concat (map der cs)), at + length (der_header t)) =
          Some (Inr (map as_parsed cs, at + length (der_header t) + length (concat (map der cs))))"
        using Atlv.IH v ds None fit L by (intro read_children) simp_all
      then show ?thesis using None v off fit dec by (simp add: parse_tag_with_def Let_def tlv_zero_def add.assoc)
    qed
  qed
qed

lemma parse_der_der:
  assumes "encodable t"
  shows "atlv_parse_der (Some (der t)) = Some (Inr (as_parsed t))"
proof -
  have L: "length (der t) < 2147483648" using encodable_length [OF assms] assms by (cases t) simp
  have r: "parse_tag_with parse_children (t_cls (t_data t)) (t_tag (t_data t)) (length (der_header (t_data t))) (t_len (t_data t)) (der t) 0 =
       Some (Inr (as_parsed t, length (der t)))"
    using read_tree [OF assms] L unfolding reads_tree_def by (metis add_0 append_Nil2 drop0)
  obtain body where body: "der t = der_header (t_data t) @ body" "int (length body) = t_len (t_data t)" using encodable_header(6) [OF assms] by blast
  have "atlv_parse_cls_tag_len (der t) 0 (length (der t)) =
      Some (Some (t_cls (t_data t), t_tag (t_data t), length (der_header (t_data t)), t_len (t_data t)))"
    using body L encodable_header [OF assms] by (intro parse_header_read [where rest = body]) simp_all
  then show ?thesis using r by (simp add: atlv_parse_der_def atlv_parse_der_tag_def)
qed

lemma unparse_to_bytes_der:
  assumes "encodable t" "realloc_law R" "alloc_total R"
  shows "atlv_unparse_to_bytes R StdRealloc t = Some (Some (der t))"
proof -
  have len: "t_off (t_data t) + t_len (t_data t) = int (length (der t))" using encodable_length [OF assms(1)] by simp
  have pos: "der t \<noteq> []" using der_length_pos [of t] by auto
  have small: "length (der t) < object_limit" using len assms(1) by (cases t) (simp add: object_limit_def)
  then obtain m where m: "R StdRealloc None (length (der t)) = Some m" using assms(3) unfolding alloc_total_def by blast
  then have lm: "length m = length (der t)" using realloc_lawD(1) [OF assms(2)] by blast
  have "atlv_unparse_der t m 0 (length (der t)) = Some (overlay m 0 (der t), 0 + length (der t))"
    by (rule unparse_overlay(1)) (use assms(1) lm in simp_all)
  moreover have "overlay m 0 (der t) = der t" using lm by (simp add: overlay_def)
  ultimately show ?thesis using m pos by (simp add: atlv_unparse_to_bytes_def Let_def len bytes_new_with_allocator_def)
qed

end
