(* ===== verification/Asn1Sort.thy ===== *)
theory Asn1Sort
  imports Asn1Round "HOL-Library.Multiset"
begin

text \<open>
  The sorting of a \<open>SET OF\<close>: \<open>atlv_sort_perform\<close> puts the children in the order of their encodings,
  but the child that ends up last keeps its old link.
\<close>

text \<open>Trees in which nothing is to be sorted.\<close>

fun calm :: "atlv \<Rightarrow> bool" where
  "calm (Atlv t cs back) \<longleftrightarrow> \<not> t_sorted t \<and> back = None \<and> (\<forall>c \<in> set cs. calm c)"

lemma sort_perform_calm:
  "calm t \<Longrightarrow> atlv_sort_perform R al t = Some t"
  "(\<And>c. c \<in> set cs \<Longrightarrow> calm c) \<Longrightarrow> sort_children R al cs = Some cs"
  by (induction R al t and R al cs rule: atlv_sort_perform_sort_children.induct) simp_all

lemma last_insort:
  "sorted (map f ys) \<Longrightarrow> last (insort_key f a ys) = (if \<forall>y \<in> set ys. f y < f a then a else last ys)"
proof (induction ys)
  case (Cons y ys)
  have "\<forall>z \<in> set ys. f y \<le> f z" using Cons.prems by simp
  then show ?case using Cons by (auto simp: not_le insort_not_Nil)
qed simp

lemma map_sort_key: "map f (sort_key f xs) = sort (map f xs)"
  by (rule properties_for_sort [symmetric]) simp_all

definition pairs_of :: "nat \<Rightarrow> atlv list \<Rightarrow> (bytes \<times> nat \<times> atlv) list" where
  "pairs_of i cs = rev (map (\<lambda>(j, c). (der c, j, c)) (enumerate i cs))"

lemma pairs_of_simps [simp]: "pairs_of i [] = []" "pairs_of i (c # cs) = pairs_of (Suc i) cs @ [(der c, i, c)]"
  by (simp_all add: pairs_of_def)

lemma pairs_of_snoc: "pairs_of i (cs @ [c]) = (der c, i + length cs, c) # pairs_of i cs"
  by (simp add: pairs_of_def enumerate_append_eq)

lemma pairs_of_index: "(b, j, c) \<in> set (pairs_of i cs) \<Longrightarrow> i \<le> j \<and> j < i + length cs \<and> b = der c \<and> c \<in> set cs"
  by (induction cs arbitrary: i) fastforce+

lemma pairs_of_every: "i \<le> j \<Longrightarrow> j < i + length cs \<Longrightarrow> \<exists>b c. (b, j, c) \<in> set (pairs_of i cs)"
proof (induction cs arbitrary: i)
  case (Cons c cs)
  then show ?case by (cases "j = i") auto
qed simp

lemma sort_pairs_encodable:
  "(\<And>c. c \<in> set cs \<Longrightarrow> encodable c) \<Longrightarrow> realloc_law R \<Longrightarrow> alloc_total R \<Longrightarrow>
    sort_pairs R StdRealloc i cs ps = Some (Some (pairs_of i cs @ ps))"
proof (induction cs arbitrary: i ps)
  case (Cons c cs)
  have "sort_pairs R StdRealloc (i + 1) cs ((der c, i, c) # ps) = Some (Some (pairs_of (i + 1) cs @ (der c, i, c) # ps))"
    by (rule Cons.IH) (use Cons.prems in simp_all)
  then show ?case using Cons.prems by (simp add: unparse_to_bytes_der)
qed simp

lemma find_position_None: "find_position i ps = None \<longleftrightarrow> (\<forall>(b, j, c) \<in> set ps. j \<noteq> i)"
proof -
  have "filter (\<lambda>j. fst (snd (ps ! j)) = i) [0..<length ps] = [] \<longleftrightarrow> (\<forall>(b, j, c) \<in> set ps. j \<noteq> i)"
    by (auto simp: filter_empty_conv all_set_conv_all_nth split_def)
  then show ?thesis unfolding find_position_def by (auto split: list.split)
qed

text \<open>The greatest child, when it is greater than all the others, comes last.\<close>

definition last_greatest :: "atlv list \<Rightarrow> bool" where
  "last_greatest cs \<longleftrightarrow> (\<forall>c \<in> set (butlast cs). der c < der (last cs))"

lemma relink_back:
  "t_back (relink t (pairs_of 0 cs)) = None \<longleftrightarrow> last_greatest cs"
proof (cases cs rule: rev_cases)
  case (snoc xs x)
  let ?ps = "sort_key fst (pairs_of 0 cs)" and ?qs = "sort_key fst (pairs_of 0 xs)"
  have ps: "?ps = insort_key fst (der x, length xs, x) ?qs" using snoc by (simp add: pairs_of_snoc)
  have ne: "?ps \<noteq> []" unfolding ps by (simp add: insort_not_Nil)
  have idx: "set ?ps = set (pairs_of 0 cs)" by simp
  have lst: "last ?ps = (if \<forall>y \<in> set ?qs. fst y < der x then (der x, length xs, x) else last ?qs)"
    unfolding ps using last_insort [of fst ?qs "(der x, length xs, x)"] by simp
  have all: "(\<forall>y \<in> set ?qs. fst y < der x) \<longleftrightarrow> last_greatest cs"
  proof -
    have i: "fst ` set (pairs_of i xs) = der ` set xs" for i by (induction xs arbitrary: i) auto
    have "(\<forall>y \<in> set ?qs. fst y < der x) \<longleftrightarrow> (\<forall>b \<in> fst ` set (pairs_of 0 xs). b < der x)" by simp
    then show ?thesis unfolding i using snoc by (simp add: last_greatest_def)
  qed
  have link: "t_back (relink t (pairs_of 0 cs)) = find_position (fst (snd (last ?ps)) + 1) ?ps"
    using ne by (simp add: relink_def Let_def)
  show ?thesis
  proof (cases "last_greatest cs")
    case True
    then have "fst (snd (last ?ps)) = length xs" unfolding lst using all by simp
    moreover have "\<forall>(b, j, c) \<in> set ?ps. j \<noteq> length xs + 1" unfolding idx using snoc pairs_of_index [of _ _ _ 0 cs] by fastforce
    ultimately show ?thesis unfolding link using True by (simp add: find_position_None)
  next
    case False
    then have na: "\<not> (\<forall>y \<in> set ?qs. fst y < der x)" using all by (simp only: simp_thms)
    have l: "last ?ps = last ?qs" unfolding lst if_not_P [OF na] ..
    have qne: "?qs \<noteq> []" using all False by (metis empty_iff list.set(1))
    obtain b j c where bj: "last ?qs = (b, j, c)" by (cases "last ?qs") auto
    have "(b, j, c) \<in> set (pairs_of 0 xs)" using qne bj by (metis last_in_set set_sort)
    then have "j + 1 < 0 + length cs" using pairs_of_index [of b j c 0 xs] snoc by simp
    then obtain b' c' where "(b', j + 1, c') \<in> set ?ps" unfolding idx using pairs_of_every [of 0 "j + 1" cs] by auto
    then have "find_position (j + 1) ?ps \<noteq> None" unfolding find_position_None by (auto intro: bexI [where x = "(b', j + 1, c')"])
    then show ?thesis unfolding link l bj using False by simp
  qed
qed (simp add: relink_def last_greatest_def)

lemma relink_parts:
  "relink t (pairs_of 0 cs) = Atlv t (t_child (relink t (pairs_of 0 cs))) (t_back (relink t (pairs_of 0 cs)))"
  by (simp add: relink_def Let_def)

lemma relink_children:
  "map der (t_child (relink t (pairs_of 0 cs))) = sort (map der cs)" "set (t_child (relink t (pairs_of 0 cs))) = set cs"
proof -
  have f: "der (snd (snd y)) = fst y" if "y \<in> set (pairs_of 0 cs)" for y
    using pairs_of_index [of "fst y" "fst (snd y)" "snd (snd y)" 0 cs] that by simp
  have m: "mset (map fst (pairs_of i cs)) = mset (map der cs)" for i by (induction cs arbitrary: i) simp_all
  have s: "snd ` snd ` set (pairs_of i cs) = set cs" for i by (induction cs arbitrary: i) auto
  have "map der (t_child (relink t (pairs_of 0 cs))) = map fst (sort_key fst (pairs_of 0 cs))"
    using f by (simp add: relink_def Let_def)
  also have "\<dots> = sort (map fst (pairs_of 0 cs))" by (rule map_sort_key)
  also have "\<dots> = sort (map der cs)" using m by (metis properties_for_sort sorted_sort mset_sort)
  finally show "map der (t_child (relink t (pairs_of 0 cs))) = sort (map der cs)" .
  show "set (t_child (relink t (pairs_of 0 cs))) = set cs" using s [of 0] by (simp add: relink_def Let_def image_comp)
qed

lemma unparse_looped: "t_value t = None \<Longrightarrow> atlv_unparse_der (Atlv t cs (Some i)) d at e = None"
  by (cases "atlv_unparse_cls_tag_len (Some d) at (e - at) (t_cls t) (t_tag t) (t_len t)") (auto simp: c_assert_bind split: bind_splits)

lemma sort_and_unparse:
  assumes t: "encodable (Atlv t cs None)" "t_sorted t" "\<forall>c \<in> set cs. calm c" and R: "realloc_law R" "alloc_total R"
  shows "Option.bind (atlv_sort_perform R StdRealloc (Atlv t cs None)) (atlv_unparse_to_bytes R StdRealloc) =
     (if last_greatest cs
      then Some (Some (der_header t @ (case t_value t of Some buf \<Rightarrow> der_value t buf | None \<Rightarrow> concat (sort (map der cs)))))
      else None)"
proof -
  let ?r = "relink t (pairs_of 0 cs)"
  have enc: "encodable c" if "c \<in> set cs" for c using t(1) that by (auto split: option.splits)
  have c: "sort_children R StdRealloc cs = Some cs" using t(3) by (intro sort_perform_calm(2)) simp
  have s: "atlv_sort_perform R StdRealloc (Atlv t cs None) = Some ?r"
    using t(2) c sort_pairs_encodable [OF enc R, of cs 0 "[]"] by simp
  have len: "length (concat (sort (map der cs))) = length (concat (map der cs))"
    by (metis length_concat mset_map mset_sort sum_mset_sum_list)
  show ?thesis
  proof (cases "last_greatest cs")
    case True
    then have r: "?r = Atlv t (t_child ?r) None" using relink_parts relink_back by metis
    have "encodable (Atlv t (t_child ?r) None)"
    proof (cases "t_value t")
      case None
      then show ?thesis using t(1) enc len relink_children [of t cs] by simp
    next
      case (Some buf)
      then have "cs = []" using t(1) by simp
      then have "t_child ?r = []" by (simp add: relink_def)
      then show ?thesis using t(1) Some by simp
    qed
    then have "encodable ?r" using r by simp
    from unparse_to_bytes_der [OF this R] show ?thesis
      unfolding s using True r relink_children(1) [of t cs] by (metis (no_types, lifting) bind.bind_lunit der.simps)
  next
    case False
    then obtain i where r: "?r = Atlv t (t_child ?r) (Some i)" using relink_parts relink_back by (metis not_None_eq)
    have v: "t_value t = None"
    proof (cases "t_value t")
      case (Some buf)
      then have "cs = []" using t(1) by simp
      then show ?thesis using False by (simp add: last_greatest_def)
    qed
    have dt: "t_data ?r = t" by (simp add: relink_def Let_def)
    obtain n where n: "length (der (Atlv t cs None)) = n" by blast
    have size: "t_off t + t_len t = int n" using encodable_length [OF t(1)] n by simp
    have pos: "0 < n" using der_length_pos [of "Atlv t cs None"] n by linarith
    have "n < object_limit" using size t(1) by (simp add: object_limit_def)
    then obtain m where "R StdRealloc None n = Some m" using R(2) unfolding alloc_total_def by blast
    moreover have "atlv_unparse_der ?r d at e = None" for d at e by (subst r) (rule unparse_looped [OF v])
    ultimately have "atlv_unparse_to_bytes R StdRealloc ?r = None"
      using pos unfolding atlv_unparse_to_bytes_def dt size Let_def by (simp add: bytes_new_with_allocator_def)
    then show ?thesis unfolding s using False by simp
  qed
qed

end
