(* ===== verification/Asn1Elements.thy ===== *)
theory Asn1Elements
  imports Asn1Sort
begin

text \<open>
  The properties of the elements of \<open>egg/egg-asn1x.c\<close>: what was written is read back, reading comes
  back, and where it fails; and what becomes of a \<open>SET OF\<close>.
\<close>

section \<open>Running off the end\<close>

text \<open>Up to four digits of a tag, all of them with the continuation bit.\<close>

lemma tag_digits_open:
  assumes "\<forall>b \<in> set cs. b AND 0x80 \<noteq> 0" "d = pre @ cs" "0 \<le> ris" "length cs \<le> 4" "ris * 128 ^ length cs + 128 ^ length cs < 2147483648"
    "n = int (length pre + length cs) - int at" "at \<le> length pre"
  shows "parse_tag_digits d at n (length pre - at) ris = None"
  using assms
proof (induction cs arbitrary: pre ris)
  case Nil
  have "int (length pre - at) \<le> n" using Nil by simp
  moreover have "byte_at d (at + (length pre - at)) = None" using Nil by (simp add: byte_at_def)
  ultimately show ?case by (subst parse_tag_digits.simps) simp
next
  case (Cons b cs)
  let ?p = "length pre - at" let ?t = "ris * 128 + uint (b AND 0x7F)"
  have v: "byte_at d (at + ?p) = Some b" using Cons.prems(2,7) by (simp add: byte_at_def)
  have n: "int ?p \<le> n" using Cons.prems(6,7) by simp
  have ub: "0 \<le> uint (b AND 0x7F)" "uint (b AND 0x7F) \<le> 127" by (rule uint_and_7f)+
  have pow: "(1 :: int) \<le> 128 ^ length cs" by simp
  have "ris * 128 ^ length (b # cs) + 128 ^ length (b # cs) = (ris + 1) * 128 * 128 ^ length cs" by (simp add: algebra_simps)
  then have le: "(ris + 1) * 128 * 128 ^ length cs < 2147483648" using Cons.prems(5) by simp
  have "(ris + 1) * 128 * 1 \<le> (ris + 1) * 128 * 128 ^ length cs" using Cons.prems(3) pow by (intro mult_left_mono) simp_all
  then have small: "(ris + 1) * 128 < 2147483648" using le by linarith
  have small': "ris * 128 + 128 < 2147483648" using small by (simp only: distrib_right mult_1)
  have g: "gint (ris * 128) = ris * 128" using small' Cons.prems(3) by (intro gint_small) simp_all
  have g': "gint ?t = ?t" using small' Cons.prems(3) ub by (intro gint_small) linarith+
  have t: "0 \<le> ?t" using Cons.prems(3) ub by simp
  have "(?t + 1) * 128 ^ length cs \<le> (ris + 1) * 128 * 128 ^ length cs" using ub by (intro mult_right_mono) simp_all
  then have "(?t + 1) * 128 ^ length cs < 2147483648" using le by (rule le_less_trans)
  then have t': "?t * 128 ^ length cs + 128 ^ length cs < 2147483648" by (simp only: distrib_right [of ?t] mult_1)
  have more: "b AND 0x7F \<noteq> b" using Cons.prems(1) byte_and_7f by simp
  have "parse_tag_digits d at n (length (pre @ [b]) - at) ?t = None"
    by (rule Cons.IH) (use Cons.prems t t' in simp_all)
  moreover have "length (pre @ [b]) - at = ?p + 1" using Cons.prems(7) by simp
  ultimately have r: "parse_tag_digits d at n (?p + 1) ?t = None" by simp
  have c: "\<not> ris * 128 < ris" "\<not> ?t < ris * 128" using Cons.prems(3) ub by simp_all
  show ?case unfolding tag_digits_step [OF n v] g g' if_not_P [OF c(1)] if_not_P [OF c(2)] if_not_P [OF more] by (rule r)
qed

section \<open>Properties\<close>

text \<open>
  C2. Elements that were written are read back. Every tree of elements whose lengths are those of
  its contents is written without failing, and parsing the result gives the tree back with the
  same classes, tags, lengths and structure, the values as they were padded, and every element
  with its own encoding attached.
\<close>

lemma tlv_roundtrip:
  assumes "encodable t" "realloc_law R" "alloc_total R"
  shows "\<exists>d. atlv_unparse_to_bytes R StdRealloc t = Some (Some d) \<and> atlv_parse_der (Some d) = Some (Inr (as_parsed t))"
  using unparse_to_bytes_der [OF assms] parse_der_der [OF assms(1)] by blast

text \<open>A sequence of an integer, which gets a zero byte as prefix, and a bit string with three empty bits.\<close>

definition demo_tree :: atlv where
  "demo_tree = Atlv (tlv_zero\<lparr>t_cls := 0x20, t_tag := 0x10, t_off := 2, t_len := 8\<rparr>)
     [Atlv (tlv_zero\<lparr>t_cls := 0, t_tag := 2, t_off := 2, t_len := 2, t_value := Some [0x85], t_prefix_with_zero_byte := True\<rparr>) [] None,
      Atlv (tlv_zero\<lparr>t_cls := 0x80, t_tag := 3, t_off := 2, t_len := 2, t_value := Some [0xFF], t_prefix_for_bit_string := True, t_bits_empty := 3\<rparr>) [] None] None"

lemma demo_tree_encodable: "encodable demo_tree"
  by (simp add: demo_tree_def tlv_zero_def der_header_def der_tag_def der_length_def der_value_def structured_def clear_low_def)

lemma tlv_roundtrip_witness:
  "\<exists>d. atlv_unparse_to_bytes padding_realloc StdRealloc demo_tree = Some (Some d) \<and> atlv_parse_der (Some d) = Some (Inr (as_parsed demo_tree))"
  by (rule tlv_roundtrip [OF demo_tree_encodable padding_realloc_law padding_realloc_total])

text \<open>
  C3. Parsing returns and stays inside of its input. Every input that ends with a byte without the
  continuation bit, however malformed it is, is parsed without reading outside of it, without
  failing an assertion and without running forever. When a tree is the result, its elements lie
  over the input without gaps, in their order, from the first byte to the last.
\<close>

lemma tlv_parse_returns:
  assumes "closed_data d"
  shows "\<exists>r. atlv_parse_der (Some d) = Some r \<and> (\<forall>t. r = Inr t \<longrightarrow> t_decoded (t_data t) = Some d \<and> tiles t)"
  by (rule parse_returns [OF assms])

lemma tlv_parse_returns_witness:
  "\<exists>r. atlv_parse_der (Some [0x30, 0x80, 2, 1, 5, 0, 0]) = Some r \<and>
     (\<forall>t. r = Inr t \<longrightarrow> t_decoded (t_data t) = Some [0x30, 0x80, 2, 1, 5, 0, 0] \<and> tiles t)"
  by (rule tlv_parse_returns) (simp add: closed_data_def)

text \<open>
  C37. An input that is nothing but a long tag of one to four digits, all of which say that another one follows, makes the
  parser read the byte behind its input: the loop over the digits of a tag runs up to and including the number of bytes that
  are left. (With five digits or more the number can grow out of 31 bits before the end is reached, and the tag is refused.)
\<close>

lemma tlv_reads_past_end:
  assumes "b AND 0x1F = 0x1F" "cs \<noteq> []" "length cs \<le> 4" "\<forall>c \<in> set cs. c AND 0x80 \<noteq> 0"
  shows "atlv_parse_der (Some (b # cs)) = None"
proof -
  have "(128 :: int) ^ length cs \<le> 128 ^ 4" using assms(3) by (intro power_increasing) simp_all
  then have p: "(0 :: int) * 128 ^ length cs + 128 ^ length cs < 2147483648" by simp
  have "parse_tag_digits (b # cs) 0 (int (length (b # cs))) 1 0 = None"
    using tag_digits_open [OF assms(4), of "b # cs" "[b]" 0 "int (length (b # cs))" 0] assms(3) p by simp
  moreover have "gint (1 + int (length cs)) = 1 + int (length cs)" using assms(3) by simp
  ultimately have "atlv_parse_cls_tag (b # cs) 0 (length (b # cs)) = None"
    using assms(1,2) by (simp add: atlv_parse_cls_tag_def Let_def byte_at_def)
  then show ?thesis by (simp add: atlv_parse_der_def atlv_parse_cls_tag_len_def)
qed

lemma tlv_reads_past_end_witness: "atlv_parse_der (Some [0x1F, 0x82]) = None"
  by (rule tlv_reads_past_end) simp_all

text \<open>
  An element whose length is cut off is accepted as an empty one. When the bytes of a long length
  are missing altogether, the length counts as zero.
\<close>

lemma tlv_cut_length:
  assumes "c AND 0x1F \<noteq> 0x1F" "c AND 0x20 = 0" "l AND 0x80 \<noteq> 0" "l AND 0x7F \<noteq> 0"
  shows "\<exists>t. atlv_parse_der (Some [c, l]) = Some (Inr t) \<and> t_value (t_data t) = Some [] \<and> t_len (t_data t) = 0"
proof -
  have k: "1 \<le> unat (l AND 0x7F)" using assms(4) by (simp add: Suc_le_eq unat_gt_0)
  have l: "atlv_parse_length [c, l] 1 2 = Some (0, 1)"
    using assms(3,4) k by (simp add: atlv_parse_length_def byte_at_def Let_def length_digits_done unat_eq_zero)
  have t: "atlv_parse_cls_tag [c, l] 0 2 = Some (Some (c AND 0xE0, ucast (c AND 0x1F), 1))"
    using assms(1) by (simp add: atlv_parse_cls_tag_def byte_at_def Let_def)
  have h: "atlv_parse_cls_tag_len [c, l] 0 2 = Some (Some (c AND 0xE0, ucast (c AND 0x1F), 2, 0))"
    using l t by (simp add: atlv_parse_cls_tag_len_def numeral_2_eq_2)
  have "(c AND 0xE0) AND 0x20 = c AND 0x20" by (simp add: and.assoc)
  then have "\<not> structured (c AND 0xE0)" using assms(2) by (simp add: structured_def)
  then show ?thesis using h by (simp add: atlv_parse_der_def atlv_parse_der_tag_def parse_tag_with_def Let_def numeral_2_eq_2 sub_bytes_def)
qed

lemma tlv_cut_length_witness:
  "\<exists>t. atlv_parse_der (Some [4, 0x82]) = Some (Inr t) \<and> t_value (t_data t) = Some [] \<and> t_len (t_data t) = 0"
  by (rule tlv_cut_length) simp_all

text \<open>
  C4. A \<open>SET OF\<close> is encoded with its elements in ascending order, but only when the last one was
  greater than all the others to begin with. The element that ends up last keeps its old link to the
  element that once came after it, so that otherwise the list of children has become a cycle, and
  writing it never finishes properly.
\<close>

lemma set_of_sorts_or_fails:
  assumes "encodable (Atlv t cs None)" "t_sorted t" "\<forall>c \<in> set cs. calm c" "realloc_law R" "alloc_total R"
  shows "Option.bind (atlv_sort_perform R StdRealloc (Atlv t cs None)) (atlv_unparse_to_bytes R StdRealloc) =
     (if \<forall>c \<in> set (butlast cs). der c < der (last cs)
      then Some (Some (der_header t @ (case t_value t of Some buf \<Rightarrow> der_value t buf | None \<Rightarrow> concat (sort (map der cs)))))
      else None)"
  using sort_and_unparse [OF assms] by (simp add: last_greatest_def)

definition demo_integer :: "byte \<Rightarrow> atlv" where
  "demo_integer b = Atlv (tlv_zero\<lparr>t_cls := 0, t_tag := 2, t_off := 2, t_len := 1, t_value := Some [b]\<rparr>) [] None"

definition demo_set_of :: "byte \<Rightarrow> byte \<Rightarrow> tlv \<times> atlv list" where
  "demo_set_of a b = (tlv_zero\<lparr>t_cls := 0x20, t_tag := 0x11, t_off := 2, t_len := 6, t_sorted := True\<rparr>, [demo_integer a, demo_integer b])"

lemma demo_set_of_ok:
  "encodable (Atlv (fst (demo_set_of a b)) (snd (demo_set_of a b)) None)" "t_sorted (fst (demo_set_of a b))"
  "\<forall>c \<in> set (snd (demo_set_of a b)). calm c"
  by (simp_all add: demo_set_of_def demo_integer_def tlv_zero_def der_header_def der_tag_def der_length_def der_value_def structured_def)

lemma demo_integer_der: "der (demo_integer b) = [2, 1, b]"
  by (simp add: demo_integer_def tlv_zero_def der_header_def der_tag_def der_length_def der_value_def)

lemma set_of_sorts_or_fails_witness:
  "Option.bind (atlv_sort_perform padding_realloc StdRealloc (Atlv (fst (demo_set_of 8 1)) (snd (demo_set_of 8 1)) None))
     (atlv_unparse_to_bytes padding_realloc StdRealloc) = None \<and>
   Option.bind (atlv_sort_perform padding_realloc StdRealloc (Atlv (fst (demo_set_of 1 8)) (snd (demo_set_of 1 8)) None))
     (atlv_unparse_to_bytes padding_realloc StdRealloc) \<noteq> None"
proof
  note p = set_of_sorts_or_fails [OF demo_set_of_ok padding_realloc_law padding_realloc_total]
  have s: "snd (demo_set_of a b) = [demo_integer a, demo_integer b]" for a b by (simp add: demo_set_of_def)
  show "Option.bind (atlv_sort_perform padding_realloc StdRealloc (Atlv (fst (demo_set_of 8 1)) (snd (demo_set_of 8 1)) None))
     (atlv_unparse_to_bytes padding_realloc StdRealloc) = None"
    unfolding p by (simp add: s demo_integer_der)
  show "Option.bind (atlv_sort_perform padding_realloc StdRealloc (Atlv (fst (demo_set_of 1 8)) (snd (demo_set_of 1 8)) None))
     (atlv_unparse_to_bytes padding_realloc StdRealloc) \<noteq> None"
    unfolding p by (simp add: s demo_integer_der)
qed

end
