(* ===== verification/Asn1Values.thy ===== *)
theory Asn1Values
  imports Asn1Write
begin

text \<open>
  The values of \<open>egg/egg-asn1x.c\<close>: how integers, booleans, bit strings, object identifiers and times
  are read from the bytes of an element and written to them. Texts are lists of bytes.
\<close>

section \<open>Numbers in texts\<close>

text \<open>From the last digit to the first one; \<open>-1\<close> when there is something else than a digit.\<close>

fun atoin_loop :: "bytes \<Rightarrow> nat \<Rightarrow> nat \<Rightarrow> int \<Rightarrow> int \<Rightarrow> int option" where
  "atoin_loop d p 0 ret base = Some ret"
| "atoin_loop d p (Suc n) ret base = do {
     c \<leftarrow> byte_at d (p + n);
     if c < 48 \<or> c > 57 then Some (-1)
     else atoin_loop d p n (gint (ret + (uint c - 48) * base)) (gint (base * 10)) }"

definition atoin :: "bytes \<Rightarrow> nat \<Rightarrow> nat \<Rightarrow> int option" where
  "atoin d p n = atoin_loop d p n 0 1"

section \<open>Integers and booleans\<close>

text \<open>
  A byte is an \<open>int\<close> when it is shifted: a shift by 32 or more is undefined, and a byte that reaches
  the sign extends it to all of the \<open>gulong\<close>.
\<close>

fun or_bytes :: "bytes \<Rightarrow> u64 \<Rightarrow> u64 option" where
  "or_bytes [] val = Some val"
| "or_bytes (b # bs) val =
     (if 8 * length bs < 32 then or_bytes bs (val OR word_of_int (gint (uint b * 2 ^ (8 * length bs)))) else None)"

text \<open>The inner result is \<open>None\<close> where the function returns \<open>FALSE\<close>.\<close>

definition anode_read_integer_ulong :: "bytes \<Rightarrow> u64 option option" where
  "anode_read_integer_ulong p =
     (if length p < 1 \<or> length p > 8 then Some None else map_option Some (or_bytes p 0))"

fun last_zero :: "bytes \<Rightarrow> nat \<Rightarrow> nat" where
  "last_zero buf 0 = 0"
| "last_zero buf (Suc i) = (if buf ! i = 0 then Suc i else last_zero buf i)"

text \<open>All callers provide room for nine bytes, or for as many as the first call asks for.\<close>

definition anode_write_integer_ulong :: "u64 \<Rightarrow> bytes" where
  "anode_write_integer_ulong val =
     (let buf = map (\<lambda>i. ucast (drop_bit ((8 - (i + 1)) * 8) val AND 0xFF)) [0..<8];
          n = 8 - last_zero buf 8;
          n = (if n = 0 then 1 else n);
          at = drop (8 - n) buf
      in if hd at AND 0x80 \<noteq> 0 then 0 # at else at)"

definition anode_read_boolean :: "bytes \<Rightarrow> bool option" where
  "anode_read_boolean buf =
     (if length buf \<noteq> 1 then None else if hd buf = 0 then Some False else if hd buf = 0xFF then Some True else None)"

definition anode_write_boolean :: "bool \<Rightarrow> bytes" where
  "anode_write_boolean val = [if val then 0xFF else 0]"

section \<open>Bit strings\<close>

text \<open>The value of a bit string, of which \<open>unused\<close> bits at the end are not used, and the number of its bits.\<close>

definition get_bits_as_ulong :: "bytes \<Rightarrow> nat \<Rightarrow> (u64 \<times> nat) option" where
  "get_bits_as_ulong buf unused =
     (let len = unat (word_of_int (int (length buf * 8) - int unused) :: u32)
      in if len > 64 then None
         else Some (drop_bit unused (foldl (\<lambda>v b. push_bit 8 v OR ucast b) 0 buf), len))"

definition set_bits_as_ulong :: "u64 \<Rightarrow> nat \<Rightarrow> (bytes \<times> nat) option" where
  "set_bits_as_ulong bits n_bits =
     (if n_bits > 64 then None
      else let unused = (if n_bits mod 8 > 0 then 8 - n_bits mod 8 else 0);
               len = n_bits div 8 + (if unused \<noteq> 0 then 1 else 0);
               val = push_bit unused bits
           in Some (map (\<lambda>j. ucast (drop_bit ((len - j - 1) * 8) val AND 0xFF)) [0..<len], unused))"

section \<open>Object identifiers\<close>

function decimal :: "nat \<Rightarrow> bytes" where
  "decimal n = (if n < 10 then [word_of_nat (48 + n)] else decimal (n div 10) @ [word_of_nat (48 + n mod 10)])"
  by pat_completeness auto
termination by (relation "measure id") auto

declare decimal.simps [simp del]

abbreviation dot :: byte where
  "dot \<equiv> 46"

fun read_arcs :: "bytes \<Rightarrow> bool \<Rightarrow> u32 \<Rightarrow> u32 \<Rightarrow> bytes \<Rightarrow> bytes option" where
  "read_arcs [] lead val pval result = Some result"
| "read_arcs (b # bs) lead val pval result =
     (if lead \<and> b = 0x80 then None
      else let val = push_bit 7 val OR ucast (b AND 0x7F)
           in if val < pval then None
              else if b AND 0x80 = 0 then read_arcs bs True 0 0 (result @ dot # decimal (unat val))
              else read_arcs bs lead val val result)"

definition anode_read_object_id :: "bytes \<Rightarrow> bytes option option" where
  "anode_read_object_id p = do {
     b \<leftarrow> byte_at p 0;
     let pval = unat b div 40;
     let val = unat b - pval * 40;
     Some (read_arcs (tl p) True 0 0 (decimal pval @ dot # decimal val)) }"

text \<open>The groups of seven bits of a number, from the group \<open>k\<close> down; leading zeros are left out.\<close>

fun arc_groups :: "nat \<Rightarrow> u32 \<Rightarrow> bool \<Rightarrow> bytes" where
  "arc_groups 0 num had = [ucast (num AND 0x7F)]"
| "arc_groups (Suc k) num had =
     (let bit7 = ucast (drop_bit (Suc k * 7) num AND 0x7F) :: byte
      in if bit7 \<noteq> 0 \<or> had then (bit7 OR 0x80) # arc_groups k num True else arc_groups k num had)"

text \<open>
  The loop over the numbers of an identifier that starts at a position of its text. The first and
  the second number make up one byte; the result \<open>Some None\<close> is \<open>FALSE\<close>. The buffer has \<open>n_data\<close> bytes.
\<close>

function write_arcs :: "bytes \<Rightarrow> nat \<Rightarrow> nat \<Rightarrow> nat \<Rightarrow> int \<Rightarrow> bytes \<Rightarrow> bytes option option" where
  "write_arcs oid start i n_data num1 result =
     (if start \<ge> length oid then Some (Some result)
      else let len = length (takeWhile (\<lambda>c. c \<noteq> dot) (drop start oid))
      in if len = 0 then Some None
      else do {
        num \<leftarrow> atoin oid start len;
        if num < 0 then Some None
        else do {
          let result' = (if i = 0 then result
                 else if i = 1 then result @ [word_of_int (40 * num1 + num)]
                 else result @ arc_groups 4 (word_of_int num) False);
          c_assert (length result' \<le> n_data);
          write_arcs oid (start + len + 1) (i + 1) n_data (if i = 0 then num else num1) result' } })"
  by pat_completeness auto
termination by (relation "measure (\<lambda>(oid, start, _). length oid - start)") auto

declare write_arcs.simps [simp del]

definition anode_write_object_id :: "bytes \<Rightarrow> nat \<Rightarrow> bytes option option" where
  "anode_write_object_id oid n_data = do {
     r \<leftarrow> write_arcs oid 0 0 n_data 0 [];
     Some (case r of None \<Rightarrow> None | Some result \<Rightarrow> if length result < 2 then None else Some result) }"

section \<open>Times\<close>

record tm =
  tm_year :: int
  tm_mon :: int
  tm_mday :: int
  tm_hour :: int
  tm_min :: int
  tm_sec :: int

text \<open>The year by the clock is a parameter; as in C, years count from 1900.\<close>

definition two_to_four_digit_year :: "int \<Rightarrow> int \<Rightarrow> int" where
  "two_to_four_digit_year now year =
     (if \<not> (0 \<le> year \<and> year \<le> 99) then -1
      else let current = now mod 100; century = (now + 1900) - current
      in if current < 40 \<and> year < current then century + year
         else if current < 40 \<and> year > 100 - (40 - current) then (century - 100) + year
         else if \<not> current < 40 \<and> year < current \<and> year > current - 40 then century + year
         else if year < current then century + 100 + year
         else century + year)"

text \<open>The end of the digits that a text begins with; the loop has no other bound than the memory.\<close>

function digits_end :: "bytes \<Rightarrow> nat \<Rightarrow> nat option" where
  "digits_end d e =
     (if e < length d then (if 48 \<le> d ! e \<and> d ! e \<le> 57 then digits_end d (e + 1) else Some e) else None)"
  by pat_completeness auto
termination by (relation "measure (\<lambda>(d, e). length d - e)") auto

declare digits_end.simps [simp del]

definition time_field :: "bytes \<Rightarrow> nat \<Rightarrow> nat \<Rightarrow> (int \<Rightarrow> tm \<Rightarrow> tm) \<Rightarrow> tm \<times> nat \<Rightarrow> (tm \<times> nat) option" where
  "time_field d e n upd s = (case s of (when, p) \<Rightarrow>
     if p + n \<le> e then do { v \<leftarrow> atoin d p n; Some (upd v when, p + n) } else Some (when, p))"

definition tm_zero :: tm where
  "tm_zero = \<lparr>tm_year = 0, tm_mon = 0, tm_mday = 1, tm_hour = 0, tm_min = 0, tm_sec = 0\<rparr>"

definition time_fields :: "bytes \<Rightarrow> nat \<Rightarrow> tm \<times> nat \<Rightarrow> (tm \<times> nat) option" where
  "time_fields d e s = do {
     s \<leftarrow> time_field d e 2 (\<lambda>v when. when\<lparr>tm_mon := v - 1\<rparr>) s;
     s \<leftarrow> time_field d e 2 (\<lambda>v when. when\<lparr>tm_mday := v\<rparr>) s;
     s \<leftarrow> time_field d e 2 (\<lambda>v when. when\<lparr>tm_hour := v\<rparr>) s;
     s \<leftarrow> time_field d e 2 (\<lambda>v when. when\<lparr>tm_min := v\<rparr>) s;
     time_field d e 2 (\<lambda>v when. when\<lparr>tm_sec := v\<rparr>) s }"

definition tm_valid :: "tm \<Rightarrow> bool" where
  "tm_valid t \<longleftrightarrow> \<not> (tm_year t < 0 \<or> tm_year t > 9999 \<or> tm_mon t < 0 \<or> tm_mon t > 11 \<or> tm_mday t < 1 \<or> tm_mday t > 31 \<or>
     tm_hour t < 0 \<or> tm_hour t > 23 \<or> tm_min t < 0 \<or> tm_min t > 59 \<or> tm_sec t < 0 \<or> tm_sec t > 59)"

text \<open>
  The fraction and the time zone. The results are what the function returns, as a number, and the
  offset in seconds.
\<close>

definition time_rest :: "bytes \<Rightarrow> nat \<Rightarrow> nat \<Rightarrow> (int \<times> int) option" where
  "time_rest d p e = do {
     p \<leftarrow> (if p < e then do { c \<leftarrow> byte_at d p; Some (if c = 46 \<and> p + 5 \<le> e then p + 5 else p) } else Some p);
     utc \<leftarrow> (if p < e then do { c \<leftarrow> byte_at d p; Some (c = 90) } else Some False);
     if utc then Some (if p + 1 \<noteq> e then 0 else 1, 0)
     else do {
       c \<leftarrow> byte_at d p;
       if (c = 45 \<or> c = 43) \<and> p + 3 \<le> e then do {
         hours \<leftarrow> atoin d (p + 1) 2;
         let off = hours * 3600;
         if off < 0 \<or> off > 86400 then Some (-1, 0)
         else do {
           (off, p) \<leftarrow> (if p + 5 \<le> e then do { minutes \<leftarrow> atoin d (p + 3) 2; Some (off + minutes * 60, p + 5) }
                       else Some (off, p + 3));
           Some (if p \<noteq> e then 0 else 1, if c = 45 then 0 - off else off) } }
       else Some (if p \<noteq> e then 0 else 1, 0) } }"

definition parse_utc_time :: "int \<Rightarrow> bytes \<Rightarrow> nat \<Rightarrow> (int \<times> tm \<times> int) option" where
  "parse_utc_time now d n_time =
     (if n_time < 6 \<or> n_time \<ge> 28 then Some (0, tm_zero, 0)
      else do {
        e \<leftarrow> digits_end d 0;
        s \<leftarrow> time_field d e 2 (\<lambda>v when. when\<lparr>tm_year := two_to_four_digit_year now v - 1900\<rparr>) (tm_zero, 0);
        (when, p) \<leftarrow> time_fields d e s;
        if \<not> tm_valid when \<or> p \<noteq> e then Some (0, when, 0)
        else do {
          (ret, offset) \<leftarrow> time_rest d p n_time;
          Some (ret, when, offset) } })"

definition parse_general_time :: "bytes \<Rightarrow> nat \<Rightarrow> (int \<times> tm \<times> int) option" where
  "parse_general_time d n_time =
     (if n_time < 8 \<or> n_time \<ge> 30 then Some (0, tm_zero, 0)
      else do {
        e \<leftarrow> digits_end d 0;
        s \<leftarrow> time_field d e 4 (\<lambda>v when. when\<lparr>tm_year := v - 1900\<rparr>) (tm_zero, 0);
        (when, p) \<leftarrow> time_fields d e s;
        if \<not> tm_valid when \<or> p \<noteq> e then Some (0, when, 0)
        else do {
          (ret, offset) \<leftarrow> time_rest d p n_time;
          Some (ret, when, offset) } })"

section \<open>Elements in memory\<close>

definition egg_asn1x_element_length :: "bytes \<Rightarrow> int option" where
  "egg_asn1x_element_length data = do {
     r \<leftarrow> atlv_parse_cls_tag data 0 (length data);
     (case r of
        None \<Rightarrow> Some (-1)
      | Some (cls, tag, cb) \<Rightarrow> do {
          (len, cb2) \<leftarrow> atlv_parse_length data cb (length data);
          Some (if len \<ge> 0 \<and> int (length data) \<ge> gint (len + int (cb + cb2)) \<and> gint (len + int (cb + cb2)) \<ge> 0
                then gint (len + int (cb + cb2)) else -1) }) }"

text \<open>The offset of the content and its length, or \<open>None\<close> for the result \<open>NULL\<close>.\<close>

definition egg_asn1x_element_content :: "bytes \<Rightarrow> (nat \<times> int) option option" where
  "egg_asn1x_element_content data = do {
     r \<leftarrow> atlv_parse_cls_tag data 0 (length data);
     (case r of
        None \<Rightarrow> Some None
      | Some (cls, tag, cb) \<Rightarrow> do {
          (len, cb2) \<leftarrow> atlv_parse_length data cb (length data);
          Some (if len < 0 then None else Some (cb + cb2, len)) }) }"

end
