(* ===== verification/Asn1Integers.thy ===== *)
theory Asn1Integers
  imports Asn1Values Asn1Round
begin

text \<open>
  Which numbers survive being written as an \<open>INTEGER\<close> and read again, and bit strings.
\<close>

section \<open>The bytes of a number\<close>

primrec low_bytes :: "nat \<Rightarrow> nat \<Rightarrow> bytes" where
  "low_bytes n 0 = []"
| "low_bytes n (Suc m) = word_of_nat (n div 256 ^ m mod 256) # low_bytes n m"

lemma length_low_bytes [simp]: "length (low_bytes n m) = m"
  by (induction m) simp_all

lemma uint_byte_of_nat: "x < 256 \<Longrightarrow> uint (word_of_nat x :: byte) = int x"
  by (simp add: unsigned_of_nat take_bit_nat_eq_self_iff)

lemma unat_byte_of_nat: "x < 256 \<Longrightarrow> unat (word_of_nat x :: byte) = x"
  by (simp add: unsigned_of_nat take_bit_nat_eq_self_iff)

lemma byte_of_nat_zero: "x < 256 \<Longrightarrow> (word_of_nat x :: byte) = 0 \<longleftrightarrow> x = 0"
  using unat_byte_of_nat [of x] by (auto simp: word_eq_unat)

lemma mod_self_iff: "0 < p \<Longrightarrow> x mod p = x \<longleftrightarrow> x < (p :: nat)"
proof (intro iffI)
  assume "0 < p" "x mod p = x"
  then show "x < p" using mod_less_divisor [of p x] by (simp only:)
qed (rule mod_less)

lemma byte_of_nat_high: "x < 256 \<Longrightarrow> (word_of_nat x :: byte) AND 0x80 = 0 \<longleftrightarrow> x < 128"
proof -
  assume x: "x < 256"
  let ?w = "word_of_nat x :: byte"
  have m: "?w AND 0x7F = take_bit 7 ?w" by (simp add: take_bit_eq_mask mask_eq_exp_minus_1)
  have "unat (take_bit 7 ?w) = x mod 128"
    unfolding unsigned_take_bit_eq unat_byte_of_nat [OF x] by (simp add: take_bit_eq_mod)
  then have "take_bit 7 ?w = ?w \<longleftrightarrow> x mod 128 = x" by (simp only: word_eq_unat unat_byte_of_nat [OF x])
  also have "\<dots> \<longleftrightarrow> x < 128" by (rule mod_self_iff) simp
  finally show ?thesis using byte_and_7f [of ?w] unfolding m by blast
qed

lemma low_bytes_value: "foldl (\<lambda>a b. a * 256 + uint b) a (low_bytes n m) = a * 256 ^ m + int (n mod 256 ^ m)"
proof (induction m arbitrary: a)
  case (Suc m)
  have "n mod 256 ^ Suc m = n div 256 ^ m mod 256 * 256 ^ m + n mod 256 ^ m"
    using mod_mult2_eq [of n "256 ^ m" 256] by (simp add: mult.commute)
  then have "int (n mod 256 ^ Suc m) = int (n div 256 ^ m mod 256) * 256 ^ m + int (n mod 256 ^ m)"
    by (simp only: of_nat_add of_nat_mult of_nat_power of_nat_numeral)
  then show ?case using Suc [of "a * 256 + int (n div 256 ^ m mod 256)"] by (simp add: uint_byte_of_nat distrib_right mult.assoc del: of_nat_mod)
qed simp

lemma low_bytes_nth: "i < m \<Longrightarrow> low_bytes n m ! i = word_of_nat (n div 256 ^ (m - 1 - i) mod 256)"
proof (induction m arbitrary: i)
  case (Suc m)
  then show ?case by (cases i) simp_all
qed simp

lemma drop_low_bytes: "k \<le> m \<Longrightarrow> drop k (low_bytes n m) = low_bytes n (m - k)"
proof (induction m arbitrary: k)
  case (Suc m)
  then show ?case by (cases k) simp_all
qed simp

lemma word_byte: "ucast (drop_bit (8 * k) (v :: u64) AND 0xFF) = (word_of_nat (unat v div 256 ^ k mod 256) :: byte)"
proof -
  have "unat (drop_bit (8 * k) v) = unat v div 256 ^ k"
    unfolding unat_drop_bit_eq by (simp add: drop_bit_eq_div power_mult)
  moreover have "unat (x AND 0xFF) = unat x mod 256" for x :: u64
    unfolding ff_mask take_bit_eq_mask [symmetric] unsigned_take_bit_eq by (simp add: take_bit_eq_mod)
  ultimately show ?thesis by (metis of_nat_unat)
qed

lemma buffer_low_bytes:
  "map (\<lambda>i. ucast (drop_bit ((8 - (i + 1)) * 8) (v :: u64) AND 0xFF)) [0..<8] = low_bytes (unat v) 8"
  by (rule nth_equalityI) (simp_all add: word_byte low_bytes_nth mult.commute)

section \<open>Reading\<close>

lemma shifted_or: "push_bit 8 h OR b = h * 256 + (b :: int)" if "0 \<le> b" "b < 256"
proof -
  have "take_bit 8 b = b" using that by (simp add: take_bit_int_eq_self_iff)
  then have "concat_bit 8 b h = push_bit 8 h OR b" by (simp add: concat_bit_def or.commute)
  moreover have "concat_bit 8 b h = b + push_bit 8 h" using \<open>take_bit 8 b = b\<close> by (simp add: concat_bit_eq)
  ultimately show ?thesis by (simp add: push_bit_eq_mult)
qed

lemma or_bytes_value:
  "length bs \<le> 4 \<Longrightarrow> length bs = 4 \<longrightarrow> unat (hd bs) < 128 \<Longrightarrow>
    or_bytes bs (word_of_int (push_bit (8 * length bs) h)) = Some (word_of_int (foldl (\<lambda>a b. a * 256 + uint b) h bs))"
proof (induction bs arbitrary: h)
  case (Cons b bs)
  let ?k = "8 * length bs"
  have len: "length bs = 0 \<or> length bs = 1 \<or> length bs = 2 \<or> length bs = 3"
    using Cons.prems(1) unfolding list.size by linarith
  have ub: "uint b < 256" using byte_nat_bound [of b] unfolding uint_nat by linarith
  have hb: "uint b < 128" if "length bs = 3"
  proof -
    have "unat b < 128" using that Cons.prems(2) by simp
    then show ?thesis unfolding uint_nat by linarith
  qed
  have "uint b * 2 ^ ?k < 2147483648" using len ub hb by (elim disjE) simp_all
  then have g: "gint (uint b * 2 ^ ?k) = push_bit ?k (uint b)"
    using order_trans [of "- 2147483648" 0 "uint b * 2 ^ ?k"] by (subst gint_small) (simp_all add: push_bit_eq_mult)
  have "push_bit (8 * length (b # bs)) h OR push_bit ?k (uint b) = push_bit ?k (push_bit 8 h OR uint b)"
    by (simp add: push_bit_or push_bit_push_bit add.commute)
  also have "\<dots> = push_bit ?k (h * 256 + uint b)" using ub by (subst shifted_or) simp_all
  finally have o: "(word_of_int (push_bit (8 * length (b # bs)) h) OR word_of_int (gint (uint b * 2 ^ ?k)) :: u64) =
      word_of_int (push_bit ?k (h * 256 + uint b))" unfolding g by (metis of_int_or_eq)
  have "or_bytes bs (word_of_int (push_bit ?k (h * 256 + uint b))) =
      Some (word_of_int (foldl (\<lambda>a b. a * 256 + uint b) (h * 256 + uint b) bs))"
    by (rule Cons.IH) (use Cons.prems in auto)
  then show ?case using len o by auto
qed simp

lemma or_bytes_long: "5 \<le> length bs \<Longrightarrow> or_bytes bs val = None"
  by (cases bs) auto

lemma read_short:
  assumes "bs \<noteq> []" "length bs \<le> 4" "length bs = 4 \<longrightarrow> unat (hd bs) < 128"
  shows "anode_read_integer_ulong bs = Some (Some (word_of_int (foldl (\<lambda>a b. a * 256 + uint b) 0 bs)))"
  using or_bytes_value [OF assms(2,3), of 0] assms by (simp add: anode_read_integer_ulong_def Suc_le_eq)

lemma read_long: "5 \<le> length bs \<Longrightarrow> anode_read_integer_ulong bs \<noteq> Some (Some v)"
  by (simp add: anode_read_integer_ulong_def or_bytes_long)

section \<open>Writing\<close>

text \<open>A number without a zero byte below its highest byte.\<close>

definition no_zero_inside :: "u64 \<Rightarrow> bool" where
  "no_zero_inside v \<longleftrightarrow> (\<forall>k < 8. 256 ^ k \<le> unat v \<longrightarrow> unat v div 256 ^ k mod 256 \<noteq> 0)"

lemma last_zero_spec:
  "k \<le> length buf \<Longrightarrow> last_zero buf k \<le> k \<and> (\<forall>i. last_zero buf k \<le> i \<and> i < k \<longrightarrow> buf ! i \<noteq> 0) \<and>
     (0 < last_zero buf k \<longrightarrow> buf ! (last_zero buf k - 1) = 0)"
proof (induction k)
  case (Suc k)
  then show ?case by (auto simp: less_Suc_eq)
qed simp

definition zero_free :: "nat \<Rightarrow> nat" where
  "zero_free n = 8 - last_zero (low_bytes n 8) 8"

lemma zero_free_spec:
  "zero_free n \<le> 8" "i < zero_free n \<Longrightarrow> n div 256 ^ i mod 256 \<noteq> 0"
  "zero_free n < 8 \<Longrightarrow> n div 256 ^ zero_free n mod 256 = 0"
proof -
  let ?z = "last_zero (low_bytes n 8) 8"
  have z: "?z \<le> 8" "\<And>i. ?z \<le> i \<Longrightarrow> i < 8 \<Longrightarrow> low_bytes n 8 ! i \<noteq> 0" "0 < ?z \<Longrightarrow> low_bytes n 8 ! (?z - 1) = 0"
    using last_zero_spec [of 8 "low_bytes n 8"] by auto
  have b: "low_bytes n 8 ! i = 0 \<longleftrightarrow> n div 256 ^ (7 - i) mod 256 = 0" if "i < 8" for i
    using that by (simp add: low_bytes_nth byte_of_nat_zero)
  show "zero_free n \<le> 8" by (simp add: zero_free_def)
  show "n div 256 ^ i mod 256 \<noteq> 0" if "i < zero_free n"
  proof -
    have "?z \<le> 7 - i" "7 - i < 8" "7 - (7 - i) = i" using that z(1) by (auto simp: zero_free_def)
    then show ?thesis using z(2) [of "7 - i"] b [of "7 - i"] by simp
  qed
  show "n div 256 ^ zero_free n mod 256 = 0" if "zero_free n < 8"
  proof -
    have "0 < ?z" using that z(1) by (simp add: zero_free_def)
    moreover have "7 - (?z - 1) = zero_free n" "?z - 1 < 8" using calculation z(1) by (simp_all add: zero_free_def)
    ultimately show ?thesis using z(3) b [of "?z - 1"] by simp
  qed
qed

lemma write_eq:
  "anode_write_integer_ulong v = (let n = unat v; m = max 1 (zero_free n)
     in (if 128 \<le> n div 256 ^ (m - 1) mod 256 then [0] else []) @ low_bytes n m)"
proof -
  let ?n = "unat v" let ?m = "max 1 (zero_free ?n)"
  have m: "(if 8 - last_zero (low_bytes ?n 8) 8 = 0 then 1 else 8 - last_zero (low_bytes ?n 8) 8) = ?m"
    unfolding zero_free_def max_def by auto
  have d: "drop (8 - ?m) (low_bytes ?n 8) = low_bytes ?n ?m" using zero_free_spec(1) [of ?n] drop_low_bytes [of "8 - ?m" 8 ?n] by simp
  obtain k where k: "?m = Suc k" by (cases ?m) simp_all
  have "hd (low_bytes ?n ?m) = word_of_nat (?n div 256 ^ (?m - 1) mod 256)" unfolding k by simp
  then show ?thesis
    unfolding anode_write_integer_ulong_def buffer_low_bytes Let_def m d by (simp add: byte_of_nat_high not_less)
qed

lemma no_zero_inside_iff: "no_zero_inside v \<longleftrightarrow> unat v < 256 ^ max 1 (zero_free (unat v))"
proof
  let ?n = "unat v" let ?z = "zero_free ?n"
  assume "?n < 256 ^ max 1 ?z"
  then show "no_zero_inside v"
  proof (cases "?z = 0")
    case True
    then have "?n mod 256 = 0" using zero_free_spec(3) [of ?n] by simp
    then have "?n = 0" using \<open>?n < 256 ^ max 1 ?z\<close> True by (simp add: max_def)
    then show ?thesis by (simp add: no_zero_inside_def)
  next
    case False
    have "k < ?z" if "256 ^ k \<le> ?n" for k
    proof -
      have "max 1 ?z = ?z" using False by simp
      then have "?n < 256 ^ ?z" using \<open>?n < 256 ^ max 1 ?z\<close> by (simp only:)
      then have "256 ^ k < (256 :: nat) ^ ?z" using that by linarith
      then show ?thesis by (rule power_less_imp_less_exp [rotated]) simp
    qed
    then show ?thesis unfolding no_zero_inside_def using zero_free_spec(2) by blast
  qed
next
  let ?n = "unat v" let ?z = "zero_free ?n"
  assume nz: "no_zero_inside v"
  have n: "?n < 256 ^ 8" using unsigned_less [of v] by simp
  show "?n < 256 ^ max 1 ?z"
  proof (cases "?z < 8")
    case True
    then have "?n < 256 ^ ?z" using nz zero_free_spec(3) [of ?n] unfolding no_zero_inside_def by (metis not_less)
    also have "\<dots> \<le> 256 ^ max 1 ?z" by (intro power_increasing) simp_all
    finally show ?thesis .
  next
    case False
    then have "?z = 8" using zero_free_spec(1) [of ?n] by simp
    then show ?thesis using n by simp
  qed
qed

lemma write_read_value:
  assumes "m \<le> 4" "m = 4 \<longrightarrow> n div 256 ^ 3 mod 256 < 128" "1 \<le> m"
  shows "anode_read_integer_ulong (low_bytes n m) = Some (Some (word_of_int (int (n mod 256 ^ m))))"
proof -
  obtain k where k: "m = Suc k" using assms(3) by (cases m) simp_all
  have "unat (hd (low_bytes n m)) = n div 256 ^ (m - 1) mod 256" unfolding k by (simp add: unat_byte_of_nat)
  then have h: "length (low_bytes n m) = 4 \<longrightarrow> unat (hd (low_bytes n m)) < 128" using assms(2) by auto
  have l: "low_bytes n m \<noteq> []" "length (low_bytes n m) \<le> 4" using k assms(1) by simp_all
  show ?thesis unfolding read_short [OF l h] low_bytes_value by simp
qed

lemma word_of_int_mod: "word_of_int (int (unat (v :: u64) mod 256 ^ m)) = v \<longleftrightarrow> unat v < 256 ^ m" if "m \<le> 8"
proof -
  have "unat v mod 256 ^ m < 2 ^ 64" by (rule le_less_trans [OF mod_less_eq_dividend]) (use unsigned_less [of v] in simp)
  then have key: "unat (word_of_int (int (unat v mod 256 ^ m)) :: u64) = unat v mod 256 ^ m"
    by (simp add: unsigned_of_nat take_bit_nat_eq_self_iff)
  show ?thesis unfolding word_unat_eq_iff key by (rule mod_self_iff) simp
qed

lemma small_by_top: "n < 256 ^ 4 \<Longrightarrow> n div 256 ^ 3 mod 256 < 128 \<Longrightarrow> n < (2 :: nat) ^ 31"
proof -
  assume "n < 256 ^ 4" "n div 256 ^ 3 mod 256 < 128"
  then have "n div 256 ^ 3 < 256" by (simp add: less_mult_imp_div_less)
  then have "n div 256 ^ 3 < 128" using \<open>n div 256 ^ 3 mod 256 < 128\<close> by simp
  then show "n < 2 ^ 31" by simp
qed

lemma integer_survives:
  "anode_read_integer_ulong (anode_write_integer_ulong v) = Some (Some v) \<longleftrightarrow> unat v < 2 ^ 31 \<and> no_zero_inside v"
proof -
  let ?n = "unat v"
  obtain m where m: "m = max 1 (zero_free ?n)" by blast
  let ?top = "?n div 256 ^ (m - 1) mod 256"
  have m8: "1 \<le> m" "m \<le> 8" using zero_free_spec(1) [of ?n] unfolding m by simp_all
  have w: "anode_write_integer_ulong v = (if 128 \<le> ?top then [0] else []) @ low_bytes ?n m"
    unfolding m by (simp only: write_eq Let_def)
  have nz: "no_zero_inside v \<longleftrightarrow> ?n < 256 ^ m" unfolding m by (rule no_zero_inside_iff)
  have low: "256 ^ i \<le> ?n" if "i < m" "0 < i" for i
  proof -
    have "i < zero_free ?n" using that m by auto
    then show ?thesis using zero_free_spec(2) by (metis div_less mod_0 not_less)
  qed
  have val: "(Some (Some (word_of_int (int (?n mod 256 ^ m)))) = Some (Some v)) \<longleftrightarrow> no_zero_inside v"
    unfolding option.inject word_of_int_mod [OF m8(2)] nz ..
  consider "m \<le> 3" | "m = 4" "?top < 128" | "m = 4" "128 \<le> ?top" | "5 \<le> m" by linarith
  then show ?thesis
  proof cases
    case 1
    have "low_bytes ?n m \<noteq> []" using m8(1) by (cases m) simp_all
    then have "anode_read_integer_ulong (0 # low_bytes ?n m) = Some (Some (word_of_int (foldl (\<lambda>a b. a * 256 + uint b) 0 (0 # low_bytes ?n m))))"
      using 1 by (intro read_short) simp_all
    then have b: "anode_read_integer_ulong (0 # low_bytes ?n m) = Some (Some (word_of_int (int (?n mod 256 ^ m))))"
      using low_bytes_value [of 0 ?n m] by simp
    have "anode_read_integer_ulong (low_bytes ?n m) = Some (Some (word_of_int (int (?n mod 256 ^ m))))"
      using 1 m8 by (intro write_read_value) simp_all
    then have r: "anode_read_integer_ulong (anode_write_integer_ulong v) = Some (Some (word_of_int (int (?n mod 256 ^ m))))"
      using b unfolding w by (cases "128 \<le> ?top") simp_all
    have "(256 :: nat) ^ m \<le> 256 ^ 3" using 1 by (intro power_increasing) simp_all
    then have "no_zero_inside v \<Longrightarrow> ?n < 2 ^ 31" unfolding nz by simp
    then show ?thesis unfolding r val by blast
  next
    case 2
    have "anode_read_integer_ulong (low_bytes ?n m) = Some (Some (word_of_int (int (?n mod 256 ^ m))))"
      by (rule write_read_value) (use 2 in simp_all)
    moreover have "anode_write_integer_ulong v = low_bytes ?n m" unfolding w using 2(2) by simp
    ultimately have r: "anode_read_integer_ulong (anode_write_integer_ulong v) = Some (Some (word_of_int (int (?n mod 256 ^ m))))"
      by (simp only:)
    have "?n < 2 ^ 31" if "no_zero_inside v"
      by (rule small_by_top) (use that 2 nz in simp_all)
    then show ?thesis unfolding r val by blast
  next
    case 3
    have "\<not> ?n < 2 ^ 31"
    proof
      assume "?n < 2 ^ 31"
      then have "?n div 256 ^ 3 < 128" by simp
      then show False using 3 by simp
    qed
    moreover have "anode_read_integer_ulong (anode_write_integer_ulong v) \<noteq> Some (Some v)"
      unfolding w using 3 by (intro read_long) simp
    ultimately show ?thesis by blast
  next
    case 4
    have "256 ^ 4 \<le> ?n" using 4 by (intro low) simp_all
    then have "\<not> ?n < 2 ^ 31" by simp
    moreover have "anode_read_integer_ulong (anode_write_integer_ulong v) \<noteq> Some (Some v)"
      unfolding w using 4 by (intro read_long) simp
    ultimately show ?thesis by blast
  qed
qed

section \<open>Bit strings\<close>

lemma shifted_bytes:
  "foldl (\<lambda>v b. push_bit 8 v OR ucast b) (word_of_int h :: u64) (bs :: bytes) = word_of_int (foldl (\<lambda>a b. a * 256 + uint b) h bs)"
proof (induction bs arbitrary: h)
  case (Cons b bs)
  have ub: "uint b < 256" using byte_nat_bound [of b] unfolding uint_nat by linarith
  have "push_bit 8 (word_of_int h :: u64) OR ucast b = word_of_int (push_bit 8 h) OR word_of_int (uint b)"
    by (simp add: push_bit_eq_mult)
  also have "\<dots> = word_of_int (push_bit 8 h OR uint b)" by (rule of_int_or_eq [symmetric])
  also have "\<dots> = word_of_int (h * 256 + uint b)" using ub by (subst shifted_or) simp_all
  finally show ?case using Cons [of "h * 256 + uint b"] by simp
qed simp

lemma set_bits_buffer:
  "map (\<lambda>j. ucast (drop_bit ((len - j - 1) * 8) (v :: u64) AND 0xFF)) [0..<len] = low_bytes (unat v) len"
  by (rule nth_equalityI) (simp_all add: word_byte low_bytes_nth mult.commute [of _ 8])

lemma bits_survive:
  assumes "n \<le> 64" "unat bits < 2 ^ n"
  shows "\<exists>buf unused. set_bits_as_ulong bits n = Some (buf, unused) \<and> unused < 8 \<and> length buf * 8 = n + unused \<and>
     get_bits_as_ulong buf unused = Some (bits, n)"
proof -
  obtain u where ud: "u = (if n mod 8 > 0 then 8 - n mod 8 else 0)" by blast
  obtain len where ld: "len = n div 8 + (if u \<noteq> 0 then 1 else 0)" by blast
  have u: "u < 8" "len * 8 = n + u" "len \<le> 8" using assms(1) unfolding ld ud by auto presburger+
  have lim: "unat bits * 2 ^ u < 256 ^ len"
  proof -
    have "(256 :: nat) ^ len = 2 ^ (len * 8)" by (simp only: mult.commute [of _ 8] power_mult) simp
    also have "\<dots> = 2 ^ n * 2 ^ u" unfolding u(2) by (rule power_add)
    finally show ?thesis using assms(2) by simp
  qed
  have "(256 :: nat) ^ len \<le> 256 ^ 8" using u(3) by (intro power_increasing) simp_all
  then have small: "unat bits * 2 ^ u < 2 ^ 64" using lim by simp
  have val: "unat (push_bit u bits) = unat bits * 2 ^ u"
    unfolding unsigned_push_bit_eq using small by (simp add: push_bit_eq_mult take_bit_nat_eq_self)
  have "foldl (\<lambda>v b. push_bit 8 v OR ucast b) (0 :: u64) (low_bytes (unat (push_bit u bits)) len) =
      word_of_int (int (unat (push_bit u bits) mod 256 ^ len))"
    using shifted_bytes [of 0] low_bytes_value [of 0 "unat (push_bit u bits)" len] by simp
  also have "\<dots> = push_bit u bits" by (subst word_of_int_mod [OF u(3)]) (use lim val in \<open>simp only:\<close>)
  finally have f: "foldl (\<lambda>v b. push_bit 8 v OR ucast b) (0 :: u64) (low_bytes (unat (push_bit u bits)) len) = push_bit u bits" .
  have d: "drop_bit u (push_bit u bits) = bits"
    unfolding word_eq_unat unsigned_drop_bit_eq val using small by (simp add: drop_bit_eq_div take_bit_nat_eq_self)
  have l: "unat (word_of_int (int (length (low_bytes (unat (push_bit u bits)) len) * 8) - int u) :: u32) = n"
    using u(2) assms(1) by (simp add: unsigned_of_nat take_bit_nat_eq_self_iff)
  have "set_bits_as_ulong bits n = Some (low_bytes (unat (push_bit u bits)) len, u)"
    unfolding set_bits_as_ulong_def Let_def set_bits_buffer ud [symmetric] ld [symmetric] using assms(1) by simp
  moreover have "get_bits_as_ulong (low_bytes (unat (push_bit u bits)) len) u = Some (bits, n)"
    unfolding get_bits_as_ulong_def Let_def l f d using assms(1) by simp
  ultimately show ?thesis using u by auto
qed

end
