(* ===== verification/Asn1Decimal.thy ===== *)
theory Asn1Decimal
  imports Asn1Integers
begin

text \<open>
  Decimal numbers in texts: the digits that are printed for a number are read back as the number.
\<close>

section \<open>Decimal numbers\<close>

lemma decimal_not_Nil [simp]: "decimal n \<noteq> []"
  by (subst decimal.simps) simp

lemma decimal_digits: "c \<in> set (decimal n) \<Longrightarrow> 48 \<le> c \<and> c \<le> 57"
proof (induction n rule: decimal.induct)
  case (1 n)
  have u: "unat (word_of_nat (48 + k) :: byte) = 48 + k" if "k < 10" for k
    using that by (intro unat_byte_of_nat) simp
  have d: "48 \<le> (word_of_nat (48 + k) :: byte) \<and> (word_of_nat (48 + k) :: byte) \<le> 57" if "k < 10" for k
    using u [OF that] that by (simp add: word_le_nat_alt)
  show ?case
  proof (cases "n < 10")
    case True
    then show ?thesis using 1(2) d [OF True] by (subst (asm) decimal.simps) simp
  next
    case False
    then have "c \<in> set (decimal (n div 10)) \<or> c = word_of_nat (48 + n mod 10)"
      using 1(2) by (subst (asm) decimal.simps) auto
    then show ?thesis using 1(1) False d [of "n mod 10"] by auto
  qed
qed

lemma digit_value:
  "k < 10 \<Longrightarrow> uint (word_of_nat (48 + k) :: byte) - 48 = int k" 
  "k < 10 \<Longrightarrow> \<not> ((word_of_nat (48 + k) :: byte) < 48 \<or> (word_of_nat (48 + k) :: byte) > 57)"
proof -
  assume k: "k < 10"
  have u: "unat (word_of_nat (48 + k) :: byte) = 48 + k" using k by (intro unat_byte_of_nat) simp
  then show "uint (word_of_nat (48 + k) :: byte) - 48 = int k" by (simp only: uint_nat)
  show "\<not> ((word_of_nat (48 + k) :: byte) < 48 \<or> (word_of_nat (48 + k) :: byte) > 57)"
    using u k by (simp add: word_less_nat_alt)
qed

lemma gint_mod:
  "gint (gint x * y) = gint (x * y)" "gint (x + gint y) = gint (x + y)"
  "gint (x + gint y * z) = gint (x + y * z)"
proof -
  have g: "gint x mod 4294967296 = x mod 4294967296" for x unfolding gint_def by (simp add: mod_diff_left_eq)
  have e: "gint x = gint y" if "x mod 4294967296 = y mod 4294967296" for x y
    unfolding gint_def using that by (metis mod_add_left_eq)
  show "gint (gint x * y) = gint (x * y)" by (rule e) (metis g mod_mult_left_eq)
  show "gint (x + gint y) = gint (x + y)" by (rule e) (metis g mod_add_right_eq)
  show "gint (x + gint y * z) = gint (x + y * z)" by (rule e) (metis g mod_mult_left_eq mod_add_right_eq)
qed

text \<open>Reading the digits from the last one to the first adds the number, times the base.\<close>

lemma atoin_loop_decimal:
  "drop p d = decimal n @ rest \<Longrightarrow> 0 \<le> ret \<Longrightarrow> ret + int n * base < 2147483648 \<Longrightarrow> 0 < base \<Longrightarrow>
    atoin_loop d p (length (decimal n)) ret (gint base) = Some (ret + int n * base)"
proof (induction n arbitrary: ret base rest rule: decimal.induct)
  case (1 n)
  show ?case
  proof (cases "n < 10")
    case True
    have dn: "decimal n = [word_of_nat (48 + n)]" using True by (subst decimal.simps) simp
    have b: "byte_at d (p + 0) = Some (word_of_nat (48 + n))" using 1(2) unfolding dn by (simp add: byte_at_drop)
    have "0 \<le> ret + int n * base" using 1(3,5) by simp
    then have "gint (ret + int n * base) = ret + int n * base" using 1(4) by (intro gint_small) simp_all
    then have g: "gint (ret + int n * gint base) = ret + int n * base"
      using gint_mod(3) [of ret base "int n"] by (simp add: mult.commute)
    show ?thesis unfolding dn using b digit_value [OF True] g by simp
  next
    case False
    let ?c = "word_of_nat (48 + n mod 10) :: byte"
    have dn: "decimal n = decimal (n div 10) @ [?c]" using False by (subst decimal.simps) simp
    have m: "n mod 10 < 10" by simp
    have d1: "drop p d = decimal (n div 10) @ (?c # rest)" using 1(2) dn by simp
    have b: "byte_at d (p + length (decimal (n div 10))) = Some ?c"
      using drop_append_drop [OF d1] by (rule byte_at_drop)
    have n: "int n = int (n div 10) * 10 + int (n mod 10)" by (simp add: zmod_int zdiv_int)
    have nn: "0 \<le> int (n div 10) * 10 * base" using 1(5) by simp
    have e: "ret + int n * base = ret + int (n mod 10) * base + int (n div 10) * (base * 10)"
      by (subst n) (simp add: algebra_simps)
    have pos: "0 \<le> ret + int (n mod 10) * base" using 1(3,5) by simp
    have lt: "ret + int (n mod 10) * base < 2147483648" using 1(4) nn unfolding e by (simp add: mult.assoc mult.left_commute)
    have "gint (ret + int (n mod 10) * base) = ret + int (n mod 10) * base" using pos lt by (intro gint_small) simp_all
    then have g: "gint (ret + int (n mod 10) * gint base) = ret + int (n mod 10) * base"
      using gint_mod(3) [of ret base "int (n mod 10)"] by (simp add: mult.commute)
    have gb: "gint (gint base * 10) = gint (base * 10)" by (rule gint_mod(1))
    have "atoin_loop d p (length (decimal (n div 10))) (ret + int (n mod 10) * base) (gint (base * 10)) =
        Some (ret + int (n mod 10) * base + int (n div 10) * (base * 10))"
      by (rule 1(1) [OF False d1 pos]) (use 1(4,5) e in simp_all)
    then show ?thesis unfolding dn e using b digit_value [OF m] g gb by simp
  qed
qed

lemma atoin_decimal: "drop p d = decimal n @ rest \<Longrightarrow> n < 2147483648 \<Longrightarrow> atoin d p (length (decimal n)) = Some (int n)"
  using atoin_loop_decimal [of p d n rest 0 1] by (simp add: atoin_def)

lemma decimal_bound: "n < 10 ^ length (decimal n)"
proof (induction n rule: decimal.induct)
  case (1 n)
  show ?case
  proof (cases "n < 10")
    case True
    then show ?thesis by (subst decimal.simps) simp
  next
    case False
    then have "n div 10 < 10 ^ length (decimal (n div 10))" by (rule 1)
    then have "n < 10 ^ length (decimal (n div 10)) * 10" by (simp add: div_less_iff_less_mult)
    then show ?thesis using False by (subst decimal.simps) simp
  qed
qed

end
