(* ===== verification/Asn1Oids.thy ===== *)
theory Asn1Oids
  imports Asn1Decimal
begin

text \<open>
  Object identifiers: which ones survive being written and read again. The loop that reads them
  refuses the byte \<open>0x80\<close> wherever it stands, and not only at the begin of a number.
\<close>

section \<open>The groups of a number\<close>

text \<open>A number with a group of seven zero bits between others, which is written as the byte \<open>0x80\<close>.\<close>

definition inner_zero :: "nat \<Rightarrow> bool" where
  "inner_zero n \<longleftrightarrow> (\<exists>i \<in> {1..4}. 128 ^ i \<le> n \<and> n div 128 ^ i mod 128 = 0)"

fun zero_group :: "nat \<Rightarrow> nat \<Rightarrow> bool \<Rightarrow> bool" where
  "zero_group 0 n had = False"
| "zero_group (Suc k) n had =
     (if n div 128 ^ Suc k mod 128 = 0 then had \<or> zero_group k n had else zero_group k n True)"

lemma zero_group_iff:
  "had \<longleftrightarrow> 128 ^ Suc k \<le> n \<Longrightarrow> zero_group k n had \<longleftrightarrow> (\<exists>i \<in> {1..k}. 128 ^ i \<le> n \<and> n div 128 ^ i mod 128 = 0)"
proof (induction k arbitrary: had)
  case (Suc k)
  have split: "(\<exists>i \<in> {1..Suc k}. P i) \<longleftrightarrow> P (Suc k) \<or> (\<exists>i \<in> {1..k}. P i)" for P :: "nat \<Rightarrow> bool"
    by (simp add: atLeastAtMostSuc_conv)
  show ?case
  proof (cases "n div 128 ^ Suc k mod 128 = 0")
    case True
    show ?thesis
    proof (cases had)
      case h: True
      have "(128 :: nat) ^ Suc k \<le> 128 ^ Suc (Suc k)" by (rule power_increasing) simp_all
      then have "128 ^ Suc k \<le> n" using Suc.prems h by linarith
      then show ?thesis unfolding split using True h by simp
    next
      case False
      then have "n < 128 ^ Suc k * 128" using Suc.prems by (simp add: not_le mult.commute)
      then have "n div 128 ^ Suc k < 128" by (simp add: less_mult_imp_div_less mult.commute)
      then have "n div 128 ^ Suc k = 0" using True by simp
      then have lt: "n < 128 ^ Suc k" by (simp add: div_eq_0_iff)
      then have "zero_group k n False \<longleftrightarrow> (\<exists>i \<in> {1..k}. 128 ^ i \<le> n \<and> n div 128 ^ i mod 128 = 0)"
        by (intro Suc.IH) simp
      then show ?thesis unfolding split using True False lt by simp
    qed
  next
    case False
    then have "128 ^ Suc k \<le> n" by (metis div_less mod_0 not_le)
    then have "zero_group k n True \<longleftrightarrow> (\<exists>i \<in> {1..k}. 128 ^ i \<le> n \<and> n div 128 ^ i mod 128 = 0)"
      by (intro Suc.IH) simp
    then show ?thesis unfolding split using False by simp
  qed
qed simp

lemma group_of: "unat (drop_bit (k * 7) (v :: u32) AND 0x7F) = unat v div 128 ^ k mod 128"
proof -
  have m: "(0x7F :: u32) = mask 7" by (simp add: mask_eq_exp_minus_1)
  have "(2 :: nat) ^ (k * 7) = 128 ^ k" by (simp only: mult.commute [of k] power_mult) simp
  then show ?thesis
    unfolding m take_bit_eq_mask [symmetric] unsigned_take_bit_eq unat_drop_bit_eq by (simp add: take_bit_eq_mod drop_bit_eq_div)
qed

lemma group_byte: "ucast (drop_bit (k * 7) (v :: u32) AND 0x7F) = (word_of_nat (unat v div 128 ^ k mod 128) :: byte)"
  using group_of [of k v] by (metis of_nat_unat)

lemma join_groups:
  "push_bit 7 (drop_bit (Suc k * 7) (v :: u32)) OR ucast (ucast (drop_bit (k * 7) v AND 0x7F) AND 0x7F :: byte) = drop_bit (k * 7) v"
proof -
  have m: "(0x7F :: u32) = mask 7" "(0x7F :: byte) = mask 7" by (simp_all add: mask_eq_exp_minus_1)
  show ?thesis unfolding m
  proof (rule bit_word_eqI)
    fix n
    assume n: "n < LENGTH(32)"
    show "bit (push_bit 7 (drop_bit (Suc k * 7) v) OR ucast (ucast (drop_bit (k * 7) v AND mask 7) AND mask 7 :: byte)) n =
        bit (drop_bit (k * 7) v) n"
    proof (cases "n < 7")
      case True
      then show ?thesis using n by (simp add: bit_simps)
    next
      case False
      then obtain i where "n = 7 + i" using le_Suc_ex not_less by blast
      then show ?thesis using n by (simp add: bit_simps ac_simps)
    qed
  qed
qed

lemma drop_bit_Suc_le: "drop_bit (Suc k * 7) (v :: u32) \<le> drop_bit (k * 7) v"
proof -
  have "(2 :: nat) ^ (k * 7) \<le> 2 ^ (Suc k * 7)" by (rule power_increasing) simp_all
  then show ?thesis unfolding word_le_nat_alt unsigned_drop_bit_eq by (simp add: drop_bit_eq_div div_le_mono2)
qed

lemma marked_byte:
  assumes "x < 128"
  shows "((word_of_nat x :: byte) OR 0x80) AND 0x7F = word_of_nat x" "((word_of_nat x :: byte) OR 0x80) AND 0x80 \<noteq> 0"
    "(word_of_nat x :: byte) OR 0x80 = 0x80 \<longleftrightarrow> x = 0" "(word_of_nat x :: byte) AND 0x80 = 0" "(word_of_nat x :: byte) \<noteq> 0x80"
proof -
  let ?w = "word_of_nat x :: byte"
  have z: "?w AND 0x80 = 0" using byte_of_nat_high [of x] assms by simp
  then show "?w AND 0x80 = 0" .
  show l: "(?w OR 0x80) AND 0x7F = ?w" using z by (simp add: bit.conj_disj_distrib2 byte_and_7f)
  show "(?w OR 0x80) AND 0x80 \<noteq> 0" by (simp add: bit.conj_disj_distrib2 z)
  have x0: "?w = 0 \<longleftrightarrow> x = 0" using byte_of_nat_zero [of x] assms by simp
  have "?w OR 0x80 = 0x80 \<longleftrightarrow> ?w = 0"
  proof
    assume "?w OR 0x80 = 0x80"
    then have "(?w OR 0x80) AND 0x7F = 0" by simp
    then show "?w = 0" using l by simp
  qed simp
  then show "?w OR 0x80 = 0x80 \<longleftrightarrow> x = 0" using x0 by simp
  show "?w \<noteq> 0x80" using z by auto
qed

text \<open>Reading the groups of a number, from the group \<open>k\<close> down.\<close>

lemma read_groups:
  assumes "had \<longleftrightarrow> 128 ^ Suc k \<le> unat num" "\<not> had \<longrightarrow> val = 0" "val = drop_bit (Suc k * 7) num"
  shows "read_arcs (arc_groups k num had @ rest) True val val result =
    (if zero_group k (unat num) had then None else read_arcs rest True 0 0 (result @ dot # decimal (unat num)))"
  using assms
proof (induction k arbitrary: had val)
  case 0
  let ?b = "ucast (num AND 0x7F) :: byte"
  have b: "?b = word_of_nat (unat num mod 128)" using group_byte [of 0 num] by simp
  have lt: "unat num mod 128 < 128" by simp
  have j: "push_bit 7 val OR ucast (?b AND 0x7F) = num" using join_groups [of 0 num] 0(3) by simp
  have le: "\<not> num < val" using drop_bit_Suc_le [of 0 num] 0(3) by simp
  show ?case using marked_byte(4,5) [OF lt] j le by (simp add: b [symmetric] Let_def)
next
  case (Suc k)
  let ?x = "unat num div 128 ^ Suc k mod 128"
  let ?g = "ucast (drop_bit (Suc k * 7) num AND 0x7F) :: byte"
  have g: "?g = word_of_nat ?x" by (rule group_byte)
  have lt: "?x < 128" by simp
  have g0: "?g = 0 \<longleftrightarrow> ?x = 0" using byte_of_nat_zero [of ?x] unfolding g by simp
  have j: "push_bit 7 val OR ucast (?g AND 0x7F) = drop_bit (Suc k * 7) num" using join_groups [of "Suc k" num] Suc.prems(3) by simp
  have low7: "(?g OR 0x80) AND 0x7F = ?g AND 0x7F"
    unfolding g using marked_byte(1) [OF lt] marked_byte(4) [OF lt] byte_and_7f by metis
  have le: "\<not> drop_bit (Suc k * 7) num < val" using drop_bit_Suc_le [of "Suc k" num] Suc.prems(3) by simp
  show ?case
  proof (cases "?x = 0 \<and> \<not> had")
    case True
    then have e: "arc_groups (Suc k) num had = arc_groups k num False" using g0 by (simp add: Let_def)
    have v: "drop_bit (Suc k * 7) num = 0" using j g0 True Suc.prems(2) by simp
    have "unat num < 128 ^ Suc k"
    proof -
      have "unat num < 128 ^ Suc k * 128" using Suc.prems(1) True by (simp add: not_le mult.commute)
      then have "unat num div 128 ^ Suc k < 128" by (simp add: less_mult_imp_div_less mult.commute)
      then have "unat num div 128 ^ Suc k = 0" using True by simp
      then show ?thesis by (simp add: div_eq_0_iff)
    qed
    then have "read_arcs (arc_groups k num False @ rest) True val val result =
        (if zero_group k (unat num) False then None else read_arcs rest True 0 0 (result @ dot # decimal (unat num)))"
      using v Suc.prems(2) True by (intro Suc.IH) simp_all
    then show ?thesis unfolding e using True by simp
  next
    case False
    then have e: "arc_groups (Suc k) num had = (?g OR 0x80) # arc_groups k num True" using g0 by (auto simp: Let_def)
    show ?thesis
    proof (cases "?x = 0")
      case x: True
      then have "?g OR 0x80 = 0x80" using g0 by simp
      then show ?thesis unfolding e using x False by simp
    next
      case x: False
      then have big: "128 ^ Suc k \<le> unat num" by (metis div_less mod_0 not_le)
      have ne: "?g OR 0x80 \<noteq> 0x80" "(?g OR 0x80) AND 0x80 \<noteq> 0" unfolding g using marked_byte(2,3) [OF lt] x by simp_all
      have "read_arcs (arc_groups (Suc k) num had @ rest) True val val result =
          read_arcs (arc_groups k num True @ rest) True (drop_bit (Suc k * 7) num) (drop_bit (Suc k * 7) num) result"
        unfolding e append_Cons read_arcs.simps Let_def low7 j using ne le by simp
      also have "\<dots> = (if zero_group k (unat num) True then None else read_arcs rest True 0 0 (result @ dot # decimal (unat num)))"
        using big by (intro Suc.IH) simp_all
      finally show ?thesis using x by simp
    qed
  qed
qed

lemma read_arc:
  assumes "r < 2147483648"
  shows "read_arcs (arc_groups 4 (word_of_nat r) False @ rest) True 0 0 result =
    (if inner_zero r then None else read_arcs rest True 0 0 (result @ dot # decimal r))"
proof -
  have u: "unat (word_of_nat r :: u32) = r" using assms by (simp add: unsigned_of_nat take_bit_nat_eq_self_iff)
  have lim: "\<not> 128 ^ Suc 4 \<le> r" using assms by simp
  have z: "drop_bit (Suc 4 * 7) (word_of_nat r :: u32) = 0" by (rule drop_bit_word_beyond) simp
  have "zero_group 4 r False \<longleftrightarrow> inner_zero r" unfolding inner_zero_def using lim by (intro zero_group_iff) simp
  then show ?thesis using read_groups [of False 4 "word_of_nat r" 0 rest result] u lim z by simp
qed

lemma read_all_arcs:
  "\<forall>r \<in> set rs. r < 2147483648 \<Longrightarrow>
    read_arcs (concat (map (\<lambda>r. arc_groups 4 (word_of_nat r) False) rs)) True 0 0 result =
      (if \<exists>r \<in> set rs. inner_zero r then None else Some (result @ concat (map (\<lambda>r. dot # decimal r) rs)))"
  by (induction rs arbitrary: result) (simp_all add: read_arc)

lemma length_arc_groups: "unat v < 128 ^ m \<Longrightarrow> 0 < m \<Longrightarrow> length (arc_groups k v False) \<le> m"
proof (induction k)
  case 0
  then show ?case by simp
next
  case (Suc k)
  have all: "length (arc_groups k v had) \<le> Suc k" for had k by (induction k arbitrary: had) (simp_all add: Let_def le_SucI)
  show ?case
  proof (cases "ucast (drop_bit (Suc k * 7) v AND 0x7F) = (0 :: byte)")
    case True
    then show ?thesis using Suc by (simp add: Let_def)
  next
    case False
    then have nz: "unat v div 128 ^ Suc k mod 128 \<noteq> 0" unfolding group_byte by (intro notI) simp
    have "\<not> unat v < 128 ^ Suc k"
    proof
      assume "unat v < 128 ^ Suc k"
      then have "unat v div 128 ^ Suc k = 0" by (rule div_less)
      then show False using nz by simp
    qed
    then have "(128 :: nat) ^ Suc k < 128 ^ m" using Suc.prems(1) by linarith
    then have "Suc k < m" by (rule power_less_imp_less_exp [rotated]) simp
    then show ?thesis using all [of k True] False by (simp add: Let_def)
  qed
qed

lemma arc_fits: "r < 2147483648 \<Longrightarrow> length (arc_groups 4 (word_of_nat r) False) \<le> length (decimal r)"
proof -
  assume r: "r < 2147483648"
  have "r < 10 ^ length (decimal r)" by (rule decimal_bound)
  also have "(10 :: nat) ^ length (decimal r) \<le> 128 ^ length (decimal r)" by (rule power_mono) simp_all
  finally have "r < 128 ^ length (decimal r)" .
  moreover have "unat (word_of_nat r :: u32) = r" using r by (simp add: unsigned_of_nat take_bit_nat_eq_self_iff)
  ultimately show ?thesis by (intro length_arc_groups) simp_all
qed

section \<open>Texts\<close>

definition oid_text :: "nat list \<Rightarrow> bytes" where
  "oid_text arcs = decimal (hd arcs) @ concat (map (\<lambda>r. dot # decimal r) (tl arcs))"

definition dotted :: "nat list \<Rightarrow> bytes" where
  "dotted rs = concat (map (\<lambda>r. dot # decimal r) rs)"

lemma take_number: "takeWhile (\<lambda>c. c \<noteq> dot) (decimal a @ dotted rs) = decimal a"
proof -
  have "dot \<notin> set (decimal a)" using decimal_digits [of dot a] by auto
  then have "\<forall>c \<in> set (decimal a). c \<noteq> dot" by auto
  then show ?thesis by (cases rs) (simp_all add: dotted_def takeWhile_append)
qed

text \<open>One step of the writing loop, at a number of the text.\<close>

lemma write_arc:
  assumes d: "drop start oid = decimal a @ dotted rs" and a: "a < 2147483648"
    and fit: "length result \<le> start" "length oid = n_data"
  shows "write_arcs oid start i n_data num1 result =
    (let result' = (if i = 0 then result else if i = 1 then result @ [word_of_int (40 * num1 + int a)]
        else result @ arc_groups 4 (word_of_nat a) False)
     in write_arcs oid (start + length (decimal a) + 1) (i + 1) n_data (if i = 0 then int a else num1) result')"
    "i = 1 \<Longrightarrow> length result + 1 \<le> start + length (decimal a)"
    "length (result @ arc_groups 4 (word_of_nat a) False) \<le> start + length (decimal a)"
    "start + length (decimal a) \<le> length oid"
proof -
  have ne: "decimal a \<noteq> []" by simp
  have pos: "0 < length (decimal a)" by simp
  have le: "start + length (decimal a) \<le> length oid"
    using drop_append_length [OF d ne] by simp
  then show "start + length (decimal a) \<le> length oid" .
  have start: "\<not> start \<ge> length oid" using le pos by linarith
  have num: "atoin oid start (length (decimal a)) = Some (int a)" by (rule atoin_decimal [OF d a])
  show l1: "length result + 1 \<le> start + length (decimal a)" using fit pos by linarith
  show l2: "length (result @ arc_groups 4 (word_of_nat a) False) \<le> start + length (decimal a)"
    using fit arc_fits [OF a] by simp
  have "length (if i = 0 then result else if i = 1 then result @ [word_of_int (40 * num1 + int a)]
        else result @ arc_groups 4 (word_of_nat a) False) \<le> n_data"
    using l1 l2 le fit by auto
  then show "write_arcs oid start i n_data num1 result =
    (let result' = (if i = 0 then result else if i = 1 then result @ [word_of_int (40 * num1 + int a)]
        else result @ arc_groups 4 (word_of_nat a) False)
     in write_arcs oid (start + length (decimal a) + 1) (i + 1) n_data (if i = 0 then int a else num1) result')"
    using start num ne by (subst write_arcs.simps) (simp only: d take_number Let_def if_False length_0_conv Option.bind.simps
      c_assert_simps of_nat_less_0_iff of_int_of_nat_eq)
qed

lemma write_arcs_end: "start \<ge> length oid \<Longrightarrow> write_arcs oid start i n_data num1 result = Some (Some result)"
  by (subst write_arcs.simps) simp

lemma dotted_drop: "drop start oid = decimal a @ dotted (r # rs) \<Longrightarrow> drop (start + length (decimal a) + 1) oid = decimal r @ dotted rs"
proof -
  assume "drop start oid = decimal a @ dotted (r # rs)"
  from drop_append_drop [OF this] have "drop (start + length (decimal a)) oid = dot # (decimal r @ dotted rs)" by (simp add: dotted_def)
  then show ?thesis using drop_Suc_eq by fastforce
qed

lemma write_tail:
  "drop start oid = decimal a @ dotted rs \<Longrightarrow> \<forall>r \<in> set (a # rs). r < 2147483648 \<Longrightarrow> length result \<le> start \<Longrightarrow>
    length oid = n_data \<Longrightarrow> 2 \<le> i \<Longrightarrow>
    write_arcs oid start i n_data num1 result =
      Some (Some (result @ concat (map (\<lambda>r. arc_groups 4 (word_of_nat r) False) (a # rs))))"
proof (induction rs arbitrary: start a result i)
  case Nil
  have "start + length (decimal a) = length oid" using drop_append_length [OF Nil.prems(1)] by (simp add: dotted_def)
  then show ?case using write_arc(1) [OF Nil.prems(1) _ Nil.prems(3,4), of i num1] Nil.prems(2,5) by (simp add: Let_def write_arcs_end)
next
  case (Cons r rs)
  have a: "a < 2147483648" using Cons.prems(2) by simp
  have "write_arcs oid (start + length (decimal a) + 1) (i + 1) n_data num1 (result @ arc_groups 4 (word_of_nat a) False) =
      Some (Some ((result @ arc_groups 4 (word_of_nat a) False) @ concat (map (\<lambda>r. arc_groups 4 (word_of_nat r) False) (r # rs))))"
    by (rule Cons.IH [OF dotted_drop [OF Cons.prems(1)]])
      (use Cons.prems write_arc(3) [OF Cons.prems(1) a Cons.prems(3,4)] in auto)
  then show ?case using write_arc(1) [OF Cons.prems(1) a Cons.prems(3,4), of i num1] Cons.prems(5) by (simp add: Let_def)
qed

lemma write_oid:
  assumes "rs \<noteq> []" "\<forall>r \<in> set (a0 # a1 # rs). r < 2147483648"
  shows "anode_write_object_id (oid_text (a0 # a1 # rs)) (length (oid_text (a0 # a1 # rs))) =
    Some (Some (word_of_int (40 * int a0 + int a1) # concat (map (\<lambda>r. arc_groups 4 (word_of_nat r) False) rs)))"
proof -
  let ?o = "oid_text (a0 # a1 # rs)" let ?n = "length ?o"
  obtain r rs' where rs: "rs = r # rs'" using assms(1) by (cases rs) auto
  have d0: "drop 0 ?o = decimal a0 @ dotted (a1 # rs)" by (simp add: oid_text_def dotted_def)
  have d1: "drop (0 + length (decimal a0) + 1) ?o = decimal a1 @ dotted rs" by (rule dotted_drop [OF d0])
  have d2: "drop (0 + length (decimal a0) + 1 + length (decimal a1) + 1) ?o = decimal r @ dotted rs'"
    using d1 unfolding rs by (rule dotted_drop)
  have a: "a0 < 2147483648" "a1 < 2147483648" using assms(2) by simp_all
  have s0: "write_arcs ?o 0 0 ?n 0 [] = write_arcs ?o (0 + length (decimal a0) + 1) 1 ?n (int a0) []"
    using write_arc(1) [OF d0 a(1), of "[]" ?n 0 0] by simp
  have s1: "write_arcs ?o (0 + length (decimal a0) + 1) 1 ?n (int a0) [] =
      write_arcs ?o (0 + length (decimal a0) + 1 + length (decimal a1) + 1) 2 ?n (int a0) [word_of_int (40 * int a0 + int a1)]"
    using write_arc(1) [OF d1 a(2), of "[]" ?n 1 "int a0"] by (simp add: numeral_2_eq_2)
  have s2: "write_arcs ?o (0 + length (decimal a0) + 1 + length (decimal a1) + 1) 2 ?n (int a0) [word_of_int (40 * int a0 + int a1)] =
      Some (Some ([word_of_int (40 * int a0 + int a1)] @ concat (map (\<lambda>r. arc_groups 4 (word_of_nat r) False) (r # rs'))))"
    by (rule write_tail [OF d2]) (use assms(2) rs in simp_all)
  have ne: "arc_groups 4 (word_of_nat r) False \<noteq> []"
  proof -
    have "arc_groups k v had \<noteq> []" for k v had by (induction k arbitrary: had) (simp_all add: Let_def)
    then show ?thesis .
  qed
  show ?thesis unfolding anode_write_object_id_def s0 s1 s2 using ne rs by (cases "arc_groups 4 (word_of_nat r) False") simp_all
qed

lemma read_first_arcs:
  "unat b = 40 * a0 + a1 \<Longrightarrow> a1 < 40 \<Longrightarrow>
    anode_read_object_id (b # g) = Some (read_arcs g True 0 0 (decimal a0 @ dot # decimal a1))"
  by (simp add: anode_read_object_id_def byte_at_def Let_def)

lemma oid_survives:
  assumes "rs \<noteq> []" "\<forall>r \<in> set rs. r < 2147483648" "a1 < 40" "40 * a0 + a1 < 256"
  shows "\<exists>bs. anode_write_object_id (oid_text (a0 # a1 # rs)) (length (oid_text (a0 # a1 # rs))) = Some (Some bs) \<and>
    anode_read_object_id bs = Some (if \<exists>r \<in> set rs. inner_zero r then None else Some (oid_text (a0 # a1 # rs)))"
proof -
  let ?b = "word_of_int (40 * int a0 + int a1) :: byte"
  have "?b = word_of_nat (40 * a0 + a1)" by simp
  then have u: "unat ?b = 40 * a0 + a1" using unat_byte_of_nat [OF assms(4)] by simp
  let ?g = "concat (map (\<lambda>r. arc_groups 4 (word_of_nat r) False) rs)"
  have w: "anode_write_object_id (oid_text (a0 # a1 # rs)) (length (oid_text (a0 # a1 # rs))) = Some (Some (?b # ?g))"
    by (rule write_oid) (use assms in auto)
  have "anode_read_object_id (?b # ?g) = Some (read_arcs ?g True 0 0 (decimal a0 @ dot # decimal a1))"
    by (rule read_first_arcs [OF u assms(3)])
  then show ?thesis unfolding read_all_arcs [OF assms(2)] using w by (simp add: oid_text_def)
qed

end
