(* ===== verification/Asn1Times.thy ===== *)
theory Asn1Times
  imports Asn1Decimal
begin

text \<open>
  Times: the texts of UTC times and of general times with all fields and a time zone, and what is read
  from them.
\<close>

section \<open>The texts\<close>

text \<open>Two and four decimal digits, the zone \<open>Z\<close>, and a zone that is hours and minutes with a sign.\<close>

definition two :: "nat \<Rightarrow> bytes" where
  "two n = [word_of_nat (48 + n div 10), word_of_nat (48 + n mod 10)]"

definition four :: "nat \<Rightarrow> bytes" where
  "four n = two (n div 100) @ two (n mod 100)"

fun zone_text :: "(bool \<times> nat \<times> nat) option \<Rightarrow> bytes" where
  "zone_text None = [90]"
| "zone_text (Some (negative, h, m)) = (if negative then 45 else 43) # two h @ two m"

fun zone_offset :: "(bool \<times> nat \<times> nat) option \<Rightarrow> int" where
  "zone_offset None = 0"
| "zone_offset (Some (negative, h, m)) = (if negative then -1 else 1) * (int h * 3600 + int m * 60)"

fun zone_ok :: "(bool \<times> nat \<times> nat) option \<Rightarrow> bool" where
  "zone_ok None = True"
| "zone_ok (Some (negative, h, m)) = (h \<le> 24 \<and> m < 100)"

text \<open>Month, day, hour, minute and second, as people count them.\<close>

type_synonym moment = "nat \<times> nat \<times> nat \<times> nat \<times> nat"

fun moment_ok :: "moment \<Rightarrow> bool" where
  "moment_ok (mo, da, h, m, s) = (1 \<le> mo \<and> mo \<le> 12 \<and> 1 \<le> da \<and> da \<le> 31 \<and> h \<le> 23 \<and> m \<le> 59 \<and> s \<le> 59)"

fun moment_text :: "moment \<Rightarrow> bytes" where
  "moment_text (mo, da, h, m, s) = two mo @ two da @ two h @ two m @ two s"

fun moment_tm :: "int \<Rightarrow> moment \<Rightarrow> tm" where
  "moment_tm year (mo, da, h, m, s) =
     \<lparr>tm_year = year - 1900, tm_mon = int mo - 1, tm_mday = int da, tm_hour = int h, tm_min = int m, tm_sec = int s\<rparr>"

section \<open>Years\<close>

lemma year_window:
  assumes "0 \<le> now" "0 \<le> y" "y \<le> 99" "r = two_to_four_digit_year now y"
  shows "r mod 100 = y \<and> now + 1900 - 40 < r \<and> r \<le> now + 1900 + 60"
proof -
  obtain q c where now: "now = 100 * q + c" "0 \<le> c" "c < 100" "now mod 100 = c"
    by (metis mult_div_mod_eq pos_mod_bound pos_mod_sign zero_less_numeral)
  have m: "(100 * k + y) mod 100 = y" for k :: int using assms(2,3) by simp
  have "r = 100 * (q + 19) + y \<or> r = 100 * (q + 18) + y \<or> r = 100 * (q + 20) + y"
    using assms(2-4) unfolding two_to_four_digit_year_def Let_def now(4) unfolding now(1) by (auto split: if_splits)
  then have "r mod 100 = y" using m by blast
  moreover have "now + 1900 - 40 < r \<and> r \<le> now + 1900 + 60"
    using assms(2-4) now(2,3) unfolding two_to_four_digit_year_def Let_def now(4) unfolding now(1) by (auto split: if_splits)
  ultimately show ?thesis by blast
qed

section \<open>Digits\<close>

abbreviation digit :: "byte \<Rightarrow> bool" where
  "digit c \<equiv> 48 \<le> c \<and> c \<le> 57"

lemma length_two [simp]: "length (two n) = 2"
  by (simp add: two_def)

lemma digits_two: "n < 100 \<Longrightarrow> c \<in> set (two n) \<Longrightarrow> digit c"
  unfolding two_def using digit_value(2) [of "n div 10"] digit_value(2) [of "n mod 10"] by (auto simp: not_less)

lemma drop_Cons_nth: "drop i d = x # xs \<Longrightarrow> i < length d \<and> d ! i = x \<and> drop (i + 1) d = xs"
  by (metis Cons_nth_drop_Suc Suc_eq_plus1 drop_all list.distinct(1) list.inject not_le)

lemma digits_end_at:
  "drop i d = ds @ c # rest \<Longrightarrow> \<forall>x \<in> set ds. digit x \<Longrightarrow> \<not> digit c \<Longrightarrow> digits_end d i = Some (i + length ds)"
proof (induction ds arbitrary: i)
  case Nil
  then have "i < length d \<and> d ! i = c" using drop_Cons_nth [of i d c rest] by simp
  then show ?case using Nil.prems(3) by (subst digits_end.simps) auto
next
  case (Cons x ds)
  then have n: "i < length d" "d ! i = x" "drop (i + 1) d = ds @ c # rest" using drop_Cons_nth [of i d x "ds @ c # rest"] by simp_all
  then have "digits_end d (i + 1) = Some (i + 1 + length ds)" using Cons by simp
  then show ?case using n Cons.prems(2) by (subst digits_end.simps) simp
qed

lemma digits_value: "int (n mod 10) + int (n div 10) * 10 = int n"
  by (simp only: of_nat_mod of_nat_div of_nat_numeral) simp

lemma hundreds_value: "int (n mod 100) + int (n div 100) * 100 = int n"
  by (simp only: of_nat_mod of_nat_div of_nat_numeral) simp

lemma atoin_two:
  assumes "drop p d = two n @ rest" "n < 100"
  shows "atoin d p 2 = Some (int n)"
proof -
  have b: "byte_at d p = Some (word_of_nat (48 + n div 10))" "byte_at d (p + 1) = Some (word_of_nat (48 + n mod 10))"
    using drop_Cons_nth [of p d "word_of_nat (48 + n div 10)" "word_of_nat (48 + n mod 10) # rest"]
      drop_Cons_nth [of "p + 1" d "word_of_nat (48 + n mod 10)" rest] assms(1)
    by (simp_all add: byte_at_def two_def)
  have v: "n mod 10 < 10" "n div 10 < 10" "int (n mod 10) + int (n div 10) * 10 = int n"
    using assms(2) digits_value by simp_all
  show ?thesis
    using digit_value [OF v(1)] digit_value [OF v(2)] v(3) b assms(2)
    unfolding atoin_def numeral_2_eq_2 by simp
qed

lemma atoin_step:
  assumes "byte_at d (p + n) = Some (word_of_nat (48 + k))" "k < 10" "0 \<le> ret" "ret + 9 * base < 2147483648" "0 \<le> base" "base * 10 < 2147483648"
  shows "atoin_loop d p (Suc n) ret base = atoin_loop d p n (ret + int k * base) (base * 10)"
proof -
  have "int k * base \<le> 9 * base" using assms(2,5) by (intro mult_right_mono) simp_all
  moreover have "0 \<le> int k * base" using assms(5) by simp
  ultimately have "gint (ret + int k * base) = ret + int k * base" using assms(3,4) by (intro gint_small) linarith+
  moreover have "gint (base * 10) = base * 10" using assms(5,6) by (intro gint_small) linarith+
  ultimately show ?thesis
    unfolding atoin_loop.simps(2) assms(1) Option.bind.simps if_not_P [OF digit_value(2) [OF assms(2)]] digit_value(1) [OF assms(2)] by simp
qed

lemma atoin_four:
  assumes "drop p d = four n @ rest" "n < 10000"
  shows "atoin d p 4 = Some (int n)"
proof -
  let ?c = "\<lambda>k. word_of_nat (48 + k) :: byte"
  have d: "drop p d = ?c (n div 100 div 10) # ?c (n div 100 mod 10) # ?c (n mod 100 div 10) # ?c (n mod 100 mod 10) # rest"
    using assms(1) by (simp add: four_def two_def)
  have p0: "byte_at d p = Some (?c (n div 100 div 10)) \<and>
      drop (p + 1) d = ?c (n div 100 mod 10) # ?c (n mod 100 div 10) # ?c (n mod 100 mod 10) # rest"
    using drop_Cons_nth [OF d] by (simp add: byte_at_def)
  have p1: "byte_at d (p + 1) = Some (?c (n div 100 mod 10)) \<and> drop (p + 2) d = ?c (n mod 100 div 10) # ?c (n mod 100 mod 10) # rest"
    using drop_Cons_nth [OF conjunct2 [OF p0]] by (simp add: byte_at_def)
  have p2: "byte_at d (p + 2) = Some (?c (n mod 100 div 10)) \<and> drop (p + 3) d = ?c (n mod 100 mod 10) # rest"
    using drop_Cons_nth [OF conjunct2 [OF p1]] by (simp add: byte_at_def numeral_3_eq_3)
  have p3: "byte_at d (p + 3) = Some (?c (n mod 100 mod 10))"
    using drop_Cons_nth [OF conjunct2 [OF p2]] by (simp add: byte_at_def)
  have l: "n div 100 div 10 < 10" "n div 100 mod 10 < 10" "n mod 100 div 10 < 10" "n mod 100 mod 10 < 10"
    using assms(2) by (simp_all add: div_less_iff_less_mult)
  have v: "int (n mod 100 mod 10) + int (n mod 100 div 10) * 10 + int (n div 100 mod 10) * 100 + int (n div 100 div 10) * 1000 = int n"
    using digits_value [of "n mod 100"] digits_value [of "n div 100"] hundreds_value [of n] by linarith
  have s1: "atoin_loop d p (Suc 3) 0 1 = atoin_loop d p 3 (int (n mod 100 mod 10)) 10"
    using atoin_step [of d p 3 "n mod 100 mod 10" 0 1] p3 l by simp
  have s2: "atoin_loop d p (Suc 2) (int (n mod 100 mod 10)) 10 =
      atoin_loop d p 2 (int (n mod 100 mod 10) + int (n mod 100 div 10) * 10) 100"
    using atoin_step [of d p 2 "n mod 100 div 10" "int (n mod 100 mod 10)" 10] p2 l by simp
  have s3: "atoin_loop d p (Suc 1) (int (n mod 100 mod 10) + int (n mod 100 div 10) * 10) 100 =
      atoin_loop d p 1 (int (n mod 100 mod 10) + int (n mod 100 div 10) * 10 + int (n div 100 mod 10) * 100) 1000"
    using atoin_step [of d p 1 "n div 100 mod 10" "int (n mod 100 mod 10) + int (n mod 100 div 10) * 10" 100] p1 l by simp
  have s4: "atoin_loop d p (Suc 0) (int (n mod 100 mod 10) + int (n mod 100 div 10) * 10 + int (n div 100 mod 10) * 100) 1000 = Some (int n)"
    using atoin_step [of d p 0 "n div 100 div 10" "int (n mod 100 mod 10) + int (n mod 100 div 10) * 10 + int (n div 100 mod 10) * 100" 1000]
      p0 l v by simp
  have "(4 :: nat) = Suc 3" "(3 :: nat) = Suc 2" "(2 :: nat) = Suc 1" "(1 :: nat) = Suc 0" by simp_all
  then show ?thesis unfolding atoin_def using s1 s2 s3 s4 by (simp only:)
qed

section \<open>Fields and zones\<close>

lemma time_field_two:
  assumes "drop p d = two n @ rest" "n < 100" "p + 2 \<le> e"
  shows "time_field d e 2 upd (t, p) = Some (upd (int n) t, p + 2) \<and> drop (p + 2) d = rest"
proof -
  have "drop 2 (drop p d) = drop 2 (two n @ rest)" by (simp only: assms(1))
  then have "drop (p + 2) d = rest" by (simp add: drop_append_length [OF assms(1)] add.commute)
  then show ?thesis using assms(3) by (simp add: time_field_def atoin_two [OF assms(1,2)])
qed

lemma time_fields_moment:
  assumes "drop p d = moment_text (mo, da, h, m, s) @ rest" "moment_ok (mo, da, h, m, s)" "e = p + 10"
  shows "time_fields d e (t, p) = Some (t\<lparr>tm_mon := int mo - 1, tm_mday := int da, tm_hour := int h, tm_min := int m, tm_sec := int s\<rparr>, e)"
proof -
  have l: "mo < 100" "da < 100" "h < 100" "m < 100" "s < 100" using assms(2) by simp_all
  have e: "p + 2 \<le> e" "p + 2 + 2 \<le> e" "p + 2 + 2 + 2 \<le> e" "p + 2 + 2 + 2 + 2 \<le> e" "p + 2 + 2 + 2 + 2 + 2 \<le> e" using assms(3) by simp_all
  have "drop p d = two mo @ two da @ two h @ two m @ two s @ rest" using assms(1) by simp
  note f1 = time_field_two [OF this l(1) e(1)]
  note f2 = time_field_two [OF conjunct2 [OF f1] l(2) e(2)]
  note f3 = time_field_two [OF conjunct2 [OF f2] l(3) e(3)]
  note f4 = time_field_two [OF conjunct2 [OF f3] l(4) e(4)]
  note f5 = time_field_two [OF conjunct2 [OF f4] l(5) e(5)]
  show ?thesis unfolding time_fields_def conjunct1 [OF f1] conjunct1 [OF f2] conjunct1 [OF f3] conjunct1 [OF f4] conjunct1 [OF f5] Option.bind.simps
    using assms(3) by simp
qed

lemma time_rest_zone:
  assumes "drop p d = zone_text z" "zone_ok z"
  shows "time_rest d p (length d) = Some (1, zone_offset z)"
proof (cases z)
  case None
  then have "p < length d \<and> d ! p = 90 \<and> length d = p + 1" using assms(1) drop_Cons_nth [of p d 90 "[]"] by auto
  then show ?thesis using None by (simp add: time_rest_def byte_at_def)
next
  case (Some x)
  obtain neg h m where z: "z = Some (neg, h, m)" using Some by (cases x) auto
  have d: "drop p d = (if neg then 45 else 43) # two h @ two m" using assms(1) unfolding z by simp
  have lim: "h \<le> 24" "h < 100" "m < 100" using assms(2) unfolding z by simp_all
  note c = drop_Cons_nth [OF d]
  have l: "length d = p + 5" using arg_cong [OF conjunct2 [OF conjunct2 [OF c]], of length] conjunct1 [OF c] by simp
  have "drop (p + 1) d = two h @ two m" using c by blast
  note f1 = this
  have f2: "drop (p + 3) d = two m @ []" using arg_cong [OF f1, of "drop 2"] by (simp add: numeral_3_eq_3)
  have b: "byte_at d p = Some (if neg then 45 else 43)" using c by (simp add: byte_at_def)
  show ?thesis unfolding z time_rest_def
    using b l atoin_two [OF f1 lim(2)] atoin_two [OF f2 lim(3)] lim by (cases neg) simp_all
qed

section \<open>Whole texts\<close>

lemma length_texts [simp]: "length (four y) = 4" "length (moment_text m) = 10"
  by (simp add: four_def) (cases m, simp)

lemma zone_start: "\<exists>c rest. zone_text z = c # rest \<and> \<not> digit c \<and> length (zone_text z) \<in> {1, 5}"
  by (cases z rule: zone_text.cases) simp_all

lemma time_fields_end:
  assumes "drop 0 d = y @ moment_text m @ zone_text z" "\<forall>c \<in> set y. digit c" "moment_ok m"
  shows "digits_end d 0 = Some (length y + 10)"
    "time_fields d (length y + 10) (t, length y) = Some (moment_tm (tm_year t + 1900) m, length y + 10)"
    "drop (length y + 10) d = zone_text z" "length y + 11 \<le> length d" "length d \<le> length y + 15"
proof -
  obtain mo da h mi s where m: "m = (mo, da, h, mi, s)" by (cases m) auto
  obtain c rest where z: "zone_text z = c # rest" "\<not> digit c" "length (zone_text z) \<in> {1, 5}" using zone_start by blast
  have two: "\<forall>x \<in> set (two k). digit x" if "k < 100" for k using digits_two [OF that] by blast
  have "\<forall>x \<in> set (moment_text m). digit x"
    unfolding m moment_text.simps set_append ball_Un by (intro conjI two) (use assms(3) m in simp_all)
  then have "digits_end d 0 = Some (0 + length (y @ moment_text m))"
    using assms(1,2) z by (intro digits_end_at [of 0 d "y @ moment_text m" c rest]) auto
  then show "digits_end d 0 = Some (length y + 10)" by simp
  have y: "drop (length y) d = moment_text m @ zone_text z" using assms(1) by simp
  then show "time_fields d (length y + 10) (t, length y) = Some (moment_tm (tm_year t + 1900) m, length y + 10)"
    using time_fields_moment [of "length y" d mo da h mi s "zone_text z"] assms(3) unfolding m by simp
  have "d = y @ moment_text m @ zone_text z" using assms(1) by simp
  then show "drop (length y + 10) d = zone_text z" "length y + 11 \<le> length d" "length d \<le> length y + 15" using z(3) by auto
qed

lemma tm_valid_moment: "moment_ok m \<Longrightarrow> 1900 \<le> year \<Longrightarrow> year \<le> 11899 \<Longrightarrow> tm_valid (moment_tm year m)"
  by (cases m) (simp add: tm_valid_def)

lemma year_range:
  assumes "40 \<le> now" "now \<le> 9939" "0 \<le> y" "y \<le> 99"
  shows "1900 \<le> two_to_four_digit_year now y" "two_to_four_digit_year now y \<le> 11899"
  using year_window [of now y "two_to_four_digit_year now y"] assms by linarith+

lemma utc_time_read:
  assumes "40 \<le> now" "now \<le> 9939" "y < 100" "moment_ok m" "zone_ok z"
  shows "parse_utc_time now (two y @ moment_text m @ zone_text z) (12 + length (zone_text z)) =
    Some (1, moment_tm (two_to_four_digit_year now (int y)) m, zone_offset z)"
proof -
  let ?d = "two y @ moment_text m @ zone_text z" let ?y = "two_to_four_digit_year now (int y)"
  have d: "drop 0 ?d = two y @ moment_text m @ zone_text z" by simp
  have y: "\<forall>c \<in> set (two y). digit c" using digits_two [OF assms(3)] by blast
  note e = time_fields_end [OF d y assms(4)]
  have f: "time_field ?d 12 2 (\<lambda>v when. when\<lparr>tm_year := two_to_four_digit_year now v - 1900\<rparr>) (tm_zero, 0) =
      Some (tm_zero\<lparr>tm_year := ?y - 1900\<rparr>, 2)"
    using conjunct1 [OF time_field_two [OF d assms(3), of 12]] by simp
  have n: "12 + length (zone_text z) = length ?d" by simp
  have v: "tm_valid (moment_tm ?y m)" using year_range [OF assms(1,2), of "int y"] assms(3) by (intro tm_valid_moment [OF assms(4)]) simp_all
  have r: "time_rest ?d 12 (length ?d) = Some (1, zone_offset z)" by (rule time_rest_zone [OF _ assms(5)]) simp
  have "\<not> (length ?d < 6 \<or> length ?d \<ge> 28)" using e(4,5) by simp
  then show ?thesis unfolding n parse_utc_time_def
    using e(1) e(2) [of "tm_zero\<lparr>tm_year := ?y - 1900\<rparr>"] f v r by simp
qed

lemma general_time_read:
  assumes "1900 \<le> y" "y < 10000" "moment_ok m" "zone_ok z"
  shows "parse_general_time (four y @ moment_text m @ zone_text z) (14 + length (zone_text z)) =
    Some (1, moment_tm (int y) m, zone_offset z)"
proof -
  let ?d = "four y @ moment_text m @ zone_text z"
  have d: "drop 0 ?d = four y @ moment_text m @ zone_text z" by simp
  have y: "\<forall>c \<in> set (four y). digit c"
    using digits_two [of "y div 100"] digits_two [of "y mod 100"] assms(2) by (auto simp: four_def less_mult_imp_div_less)
  note e = time_fields_end [OF d y assms(3)]
  have f: "time_field ?d 14 4 (\<lambda>v when. when\<lparr>tm_year := v - 1900\<rparr>) (tm_zero, 0) = Some (tm_zero\<lparr>tm_year := int y - 1900\<rparr>, 4)"
    using atoin_four [OF d assms(2)] by (simp add: time_field_def)
  have n: "14 + length (zone_text z) = length ?d" by simp
  have v: "tm_valid (moment_tm (int y) m)" using assms(1,2) by (intro tm_valid_moment [OF assms(3)]) simp_all
  have r: "time_rest ?d 14 (length ?d) = Some (1, zone_offset z)" by (rule time_rest_zone [OF _ assms(4)]) simp
  have "\<not> (length ?d < 8 \<or> length ?d \<ge> 30)" using e(4,5) by simp
  then show ?thesis unfolding n parse_general_time_def
    using e(1) e(2) [of "tm_zero\<lparr>tm_year := int y - 1900\<rparr>"] f v r by simp
qed

text \<open>A zone of more than 24 hours is refused with \<open>-1\<close>, which the callers take for \<open>TRUE\<close>; the zone is dropped.\<close>

lemma bad_zone_counts_as_read:
  assumes "drop p d = (if negative then 45 else 43) # two h @ two m" "24 < h" "h < 100"
  shows "time_rest d p (length d) = Some (-1, 0)"
proof -
  note c = drop_Cons_nth [OF assms(1)]
  have l: "length d = p + 5" using arg_cong [OF conjunct2 [OF conjunct2 [OF c]], of length] conjunct1 [OF c] by simp
  have f1: "drop (p + 1) d = two h @ two m" using c by blast
  have b: "byte_at d p = Some (if negative then 45 else 43)" using c by (simp add: byte_at_def)
  show ?thesis unfolding time_rest_def
    using b l atoin_two [OF f1 assms(3)] assms(2) by (cases negative) simp_all
qed

end
