(* ===== verification/Asn1ValueProperties.thy ===== *)
theory Asn1ValueProperties
  imports Asn1Oids Asn1Times
begin

text \<open>
  The properties of the values of \<open>egg/egg-asn1x.c\<close>: which integers and object identifiers survive
  being written and read again, and what is read from the texts of times.
\<close>

text \<open>
  C7. Which integers are kept. What the writer of unsigned integers has written is read back as
  the same number exactly if it is less than \<open>2 ^ 31\<close> and no zero byte stands below its highest byte: for all
  other numbers the reader gives another number, or none.
\<close>

lemma integer_roundtrip:
  "anode_read_integer_ulong (anode_write_integer_ulong v) = Some (Some v) \<longleftrightarrow> unat v < 2 ^ 31 \<and> no_zero_inside v"
  by (rule integer_survives)

text \<open>
  C5. Which object identifiers are kept. An identifier of three numbers or more, of which the first
  two make up a byte and the others are below \<open>2 ^ 31\<close>, is written into as many bytes as it has
  characters without failing, and the bytes are read back as the same text, unless a group of seven
  bits inside of one of its numbers is zero: then the reader refuses them.
\<close>

lemma oid_roundtrip:
  assumes "rs \<noteq> []" "\<forall>r \<in> set rs. r < 2147483648" "a1 < 40" "40 * a0 + a1 < 256"
  shows "\<exists>bs. anode_write_object_id (oid_text (a0 # a1 # rs)) (length (oid_text (a0 # a1 # rs))) = Some (Some bs) \<and>
    anode_read_object_id bs = Some (if \<exists>r \<in> set rs. inner_zero r then None else Some (oid_text (a0 # a1 # rs)))"
  by (rule oid_survives [OF assms])

lemma inner_zero_16384: "inner_zero 16384" "\<not> inner_zero 113549"
proof -
  have "{1..4::nat} = {1, 2, 3, 4}" by auto
  then show "inner_zero 16384" "\<not> inner_zero 113549" by (simp_all add: inner_zero_def)
qed

lemma oid_roundtrip_witness:
  "\<exists>bs. anode_write_object_id (oid_text [1, 2, 840, 113549]) (length (oid_text [1, 2, 840, 113549])) = Some (Some bs) \<and>
    anode_read_object_id bs =
      Some (if \<exists>r \<in> set [840, 113549]. inner_zero r then None else Some (oid_text [1, 2, 840, 113549]))"
  by (rule oid_roundtrip) simp_all

text \<open>
  C6. Times. A UTC time with two digits of a year, all other fields in their ranges and a zone is
  read completely: its fields are the ones that were printed, its offset is the one of the zone, and
  its year is the one that ends with the two digits and is less than 40 years before and at most 60
  years after the present one. A general time gives its own year.
\<close>

lemma times_read:
  assumes "40 \<le> now" "now \<le> 9939" "y < 100" "1900 \<le> y'" "y' < 10000" "moment_ok m" "zone_ok z"
  shows "parse_general_time (four y' @ moment_text m @ zone_text z) (14 + length (zone_text z)) =
      Some (1, moment_tm (int y') m, zone_offset z) \<and>
    (\<exists>year. parse_utc_time now (two y @ moment_text m @ zone_text z) (12 + length (zone_text z)) =
        Some (1, moment_tm year m, zone_offset z) \<and>
      year mod 100 = int y \<and> now + 1900 - 40 < year \<and> year \<le> now + 1900 + 60)"
  using general_time_read [OF assms(4-7)] utc_time_read [OF assms(1-3,6,7)]
    year_window [of now "int y" "two_to_four_digit_year now (int y)"] assms(1,3) by auto

lemma times_read_witness:
  "parse_general_time (four 2012 @ moment_text (2, 29, 23, 59, 7) @ zone_text (Some (True, 5, 30))) (14 + length (zone_text (Some (True, 5, 30)))) =
      Some (1, moment_tm (int 2012) (2, 29, 23, 59, 7), zone_offset (Some (True, 5, 30))) \<and>
    (\<exists>year. parse_utc_time 114 (two 70 @ moment_text (2, 29, 23, 59, 7) @ zone_text (Some (True, 5, 30))) (12 + length (zone_text (Some (True, 5, 30)))) =
        Some (1, moment_tm year (2, 29, 23, 59, 7), zone_offset (Some (True, 5, 30))) \<and>
      year mod 100 = int 70 \<and> 114 + 1900 - 40 < year \<and> year \<le> 114 + 1900 + 60)"
  by (rule times_read) simp_all

end
