(* ===== verification/Gcrypt.thy ===== *)
theory Gcrypt
  imports GcrPrelude
begin

text \<open>
  What the program calls of libgcrypt, as a record of functions: it is a parameter of all definitions
  that use it. \<open>gcrypt_law\<close> collects the documented behaviour that the theorems rely on.
  Big numbers are natural numbers, and a cipher handle is a value that every block replaces.
\<close>

record 'h gcrypt =
  gcry_mpi_scan :: "bytes \<Rightarrow> nat option"
  gcry_mpi_print :: "nat \<Rightarrow> bytes"
  gcry_mpi_powm :: "nat \<Rightarrow> nat \<Rightarrow> nat \<Rightarrow> nat"
  gcry_mpi_get_nbits :: "nat \<Rightarrow> nat"
  gcry_mpi_clear_highbit :: "nat \<Rightarrow> nat \<Rightarrow> nat"
  gcry_mpi_randomize :: "nat \<Rightarrow> nat \<Rightarrow> nat"
  gcry_create_nonce :: "nat \<Rightarrow> nat \<Rightarrow> bytes"
  gcry_md_map_name :: "string \<Rightarrow> nat"
  gcry_md_get_algo_dlen :: "nat \<Rightarrow> nat"
  gcry_md_hmac :: "nat \<Rightarrow> bytes \<Rightarrow> bytes \<Rightarrow> bytes"
  gcry_malloc :: "nat \<Rightarrow> bool"
  gcry_cipher_open :: bool
  gcry_cipher_start :: "bytes \<Rightarrow> bytes \<Rightarrow> 'h option"
  gcry_cipher_encrypt :: "'h \<Rightarrow> bytes \<Rightarrow> bytes \<times> 'h"
  gcry_cipher_decrypt :: "'h \<Rightarrow> bytes \<Rightarrow> bytes \<times> 'h"

text \<open>
  \<open>gcry_mpi_randomize\<close> and \<open>gcry_create_nonce\<close> take the number of the request, so that requests
  differ. \<open>gcry_md_hmac algo key msg\<close> is what \<open>gcry_md_read\<close> gives for a handle that was opened
  for HMAC, got that key, and to which \<open>msg\<close> was written since its last reset. \<open>gcry_malloc\<close> says
  whether memory was there. \<open>gcry_cipher_open\<close> says whether there is a handle for AES-128 in CBC mode, and
  \<open>gcry_cipher_start key iv\<close> is the handle after \<open>gcry_cipher_setkey\<close> and \<open>gcry_cipher_setiv\<close>; the
  other two functions work on one block.
\<close>

section \<open>Documented behaviour\<close>

definition mpi_value :: "bytes \<Rightarrow> nat" where
  "mpi_value bs = foldl (\<lambda>a b. a * 256 + unat b) 0 bs"

definition mpi_law :: "'h gcrypt \<Rightarrow> bool" where
  "mpi_law G \<longleftrightarrow>
     (\<forall>bs. gcry_mpi_scan G bs = Some (mpi_value bs)) \<and>
     (\<forall>n. mpi_value (gcry_mpi_print G n) = n) \<and> (\<forall>n k. n < 256 ^ k \<longrightarrow> length (gcry_mpi_print G n) \<le> k) \<and>
     (\<forall>b e m. 1 < m \<longrightarrow> gcry_mpi_powm G b e m = b ^ e mod m) \<and>
     gcry_mpi_get_nbits G 0 = 0 \<and> (\<forall>n. n < 2 ^ gcry_mpi_get_nbits G n) \<and>
     (\<forall>n. 0 < n \<longrightarrow> 0 < gcry_mpi_get_nbits G n \<and> 2 ^ (gcry_mpi_get_nbits G n - 1) \<le> n) \<and>
     (\<forall>n k. gcry_mpi_clear_highbit G n k = n mod 2 ^ k) \<and>
     (\<forall>k bits. 0 < bits \<longrightarrow> (\<exists>j \<ge> k. gcry_mpi_randomize G j bits \<noteq> 0))"

definition md_law :: "'h gcrypt \<Rightarrow> bool" where
  "md_law G \<longleftrightarrow> (\<forall>algo key msg. length (gcry_md_hmac G algo key msg) = gcry_md_get_algo_dlen G algo) \<and>
     gcry_md_map_name G ''sha256'' \<noteq> 0 \<and> gcry_md_get_algo_dlen G (gcry_md_map_name G ''sha256'') = 32 \<and> (\<forall>n. gcry_malloc G n)"

text \<open>A handle decrypts what another one that was opened with the same key and vector has encrypted, block by block.\<close>

fun cipher_blocks :: "('h \<Rightarrow> bytes \<Rightarrow> bytes \<times> 'h) \<Rightarrow> 'h \<Rightarrow> bytes list \<Rightarrow> bytes list" where
  "cipher_blocks f h [] = []"
| "cipher_blocks f h (b # bs) = (let (c, h') = f h b in c # cipher_blocks f h' bs)"

definition cipher_law :: "'h gcrypt \<Rightarrow> bool" where
  "cipher_law G \<longleftrightarrow>
     gcry_cipher_open G \<and>
     (\<forall>key iv. length key = 16 \<and> length iv = 16 \<longrightarrow> gcry_cipher_start G key iv \<noteq> None) \<and>
     (\<forall>h b. length b = 16 \<longrightarrow> length (fst (gcry_cipher_encrypt G h b)) = 16) \<and>
     (\<forall>h b. length b = 16 \<longrightarrow> length (fst (gcry_cipher_decrypt G h b)) = 16) \<and>
     (\<forall>key iv h bs. gcry_cipher_start G key iv = Some h \<and> (\<forall>b \<in> set bs. length b = 16) \<longrightarrow>
        cipher_blocks (gcry_cipher_decrypt G) h (cipher_blocks (gcry_cipher_encrypt G) h bs) = bs) \<and>
     (\<forall>k n. length (gcry_create_nonce G k n) = n)"

definition gcrypt_law :: "'h gcrypt \<Rightarrow> bool" where
  "gcrypt_law G \<longleftrightarrow> mpi_law G \<and> md_law G \<and> cipher_law G"

lemma mpi_lawD:
  assumes "mpi_law G"
  shows "gcry_mpi_scan G bs = Some (mpi_value bs)" "mpi_value (gcry_mpi_print G n) = n"
    "1 < m \<Longrightarrow> gcry_mpi_powm G b e m = b ^ e mod m" "n < 2 ^ gcry_mpi_get_nbits G n"
    "0 < n \<Longrightarrow> 0 < gcry_mpi_get_nbits G n \<and> 2 ^ (gcry_mpi_get_nbits G n - 1) \<le> n"
    "gcry_mpi_clear_highbit G n k = n mod 2 ^ k" "gcry_mpi_get_nbits G 0 = 0"
    "0 < bits \<Longrightarrow> \<exists>j \<ge> i. gcry_mpi_randomize G j bits \<noteq> 0" "n < 256 ^ l \<Longrightarrow> length (gcry_mpi_print G n) \<le> l"
  using assms unfolding mpi_law_def by (elim conjE, simp)+

lemma md_lawD:
  assumes "md_law G"
  shows "length (gcry_md_hmac G algo key msg) = gcry_md_get_algo_dlen G algo" "gcry_md_map_name G ''sha256'' \<noteq> 0"
    "gcry_md_get_algo_dlen G (gcry_md_map_name G ''sha256'') = 32" "gcry_malloc G n"
  using assms unfolding md_law_def by blast+

lemma cipher_lawD:
  assumes "cipher_law G"
  shows "length key = 16 \<Longrightarrow> length iv = 16 \<Longrightarrow> \<exists>h. gcry_cipher_start G key iv = Some h"
    "length b = 16 \<Longrightarrow> length (fst (gcry_cipher_encrypt G h b)) = 16"
    "length b = 16 \<Longrightarrow> length (fst (gcry_cipher_decrypt G h b)) = 16"
    "gcry_cipher_start G key iv = Some h \<Longrightarrow> \<forall>b \<in> set bs. length b = 16 \<Longrightarrow>
      cipher_blocks (gcry_cipher_decrypt G) h (cipher_blocks (gcry_cipher_encrypt G) h bs) = bs"
    "length (gcry_create_nonce G k n) = n" "gcry_cipher_open G"
  using assms unfolding cipher_law_def by blast+

section \<open>Numbers in bytes\<close>

lemma mpi_value_simps [simp]: "mpi_value [] = 0" "mpi_value (bs @ [b]) = mpi_value bs * 256 + unat b"
  by (simp_all add: mpi_value_def)

lemma mpi_value_bounds: "mpi_value bs < 256 ^ length bs"
proof (induction bs rule: rev_induct)
  case (snoc b bs)
  then have "mpi_value bs * 256 + 256 \<le> 256 ^ length bs * 256" by simp
  moreover have "unat b < 256" by (rule byte_nat_bound)
  ultimately have "mpi_value bs * 256 + unat b < 256 ^ length bs * 256" by linarith
  then show ?case by simp
qed simp

lemma mpi_value_Cons: "unat b * 256 ^ length bs \<le> mpi_value (b # bs)"
proof (induction bs rule: rev_induct)
  case (snoc x bs)
  then show ?case using mpi_value_simps(2) [of "b # bs" x] by simp
qed (simp add: mpi_value_def)

lemma nbits_unique:
  assumes "mpi_law G" "2 ^ k \<le> n" "n < 2 ^ Suc k"
  shows "gcry_mpi_get_nbits G n = Suc k"
proof -
  have "0 < n" using assms(2) by (metis gr0I not_one_le_zero order_trans one_le_power one_le_numeral)
  note b = mpi_lawD(5) [OF assms(1) this] mpi_lawD(4) [OF assms(1), of n]
  have "2 ^ (gcry_mpi_get_nbits G n - 1) < (2 :: nat) ^ Suc k" using b assms(3) by linarith
  then have "gcry_mpi_get_nbits G n - 1 < Suc k" by (rule power_less_imp_less_exp [rotated]) simp
  moreover have "(2 :: nat) ^ k < 2 ^ gcry_mpi_get_nbits G n" using b assms(2) by linarith
  then have "k < gcry_mpi_get_nbits G n" by (rule power_less_imp_less_exp [rotated]) simp
  ultimately show ?thesis using b by linarith
qed

end
