(* ===== verification/Dh.thy ===== *)
theory Dh
  imports DhGroups Gcrypt
begin

text \<open>
  \<open>egg/egg-dh.c\<close>: the parameters of the groups, key pairs and shared secrets. The results \<open>Some None\<close> are
  \<open>FALSE\<close> or \<open>NULL\<close>; a failed assertion is \<open>None\<close>.
\<close>

section \<open>The code\<close>

text \<open>The loop over the table, which ends at the group without a name.\<close>

fun find_group :: "string \<Rightarrow> dh_group list \<Rightarrow> dh_group option" where
  "find_group name [] = None"
| "find_group name (g # gs) = (if g_name g = name then Some g else find_group name gs)"

definition egg_dh_default_params_raw :: "string \<Rightarrow> (bytes \<times> bytes) option" where
  "egg_dh_default_params_raw name = map_option (\<lambda>g. (g_prime g, g_base g)) (find_group name dh_groups)"

definition egg_dh_default_params :: "'h gcrypt \<Rightarrow> string \<Rightarrow> (nat \<times> nat) option" where
  "egg_dh_default_params G name =
     (case find_group name dh_groups of
        None \<Rightarrow> None
      | Some g \<Rightarrow> do {
          prime \<leftarrow> gcry_mpi_scan G (g_prime g);
          if gcry_mpi_get_nbits G prime \<noteq> g_bits g then None
          else do { base \<leftarrow> gcry_mpi_scan G (g_base g); Some (prime, base) } })"

text \<open>
  The loop that asks for random numbers until one is not zero; \<open>k\<close> counts the requests. Nothing bounds
  it but the generator.
\<close>

partial_function (option) random_nonzero :: "'h gcrypt \<Rightarrow> nat \<Rightarrow> nat \<Rightarrow> nat \<Rightarrow> (nat \<times> nat) option" where
  "random_nonzero G bits priv k =
     (if priv = 0 then random_nonzero G bits (gcry_mpi_randomize G k bits) (k + 1) else Some (priv, k))"

declare random_nonzero.simps [code]

text \<open>The public and the private number, and the number of the next request.\<close>

definition egg_dh_gen_pair :: "'h gcrypt \<Rightarrow> nat \<Rightarrow> nat \<Rightarrow> nat \<Rightarrow> nat \<Rightarrow> ((nat \<times> nat) option \<times> nat) option" where
  "egg_dh_gen_pair G prime base bits k =
     (let pbits = gcry_mpi_get_nbits G prime
      in if \<not> pbits > 1 then Some (None, k)
         else if bits > pbits then Some (None, k)
         else do {
           let bits = (if bits = 0 then pbits else bits);
           (priv, k) \<leftarrow> random_nonzero G bits 0 k;
           let priv = (if gcry_mpi_get_nbits G priv > bits then gcry_mpi_clear_highbit G priv bits else priv);
           let priv = (if gcry_mpi_get_nbits G priv > pbits - 1 then gcry_mpi_clear_highbit G priv (pbits - 1) else priv);
           c_assert (prime > priv);
           Some (Some (gcry_mpi_powm G base priv prime, priv), k) })"

text \<open>
  Memory is allocated by \<open>R\<close>, secure memory by an allocator of its own, and a request for no bytes
  gives \<open>NULL\<close>.
\<close>

definition secure :: allocator where
  "secure = CustomAllocator 1"

definition fresh :: "realloc_fn \<Rightarrow> allocator \<Rightarrow> nat \<Rightarrow> bytes option" where
  "fresh R al n = (if n = 0 then None else R al None n)"

definition secure_alloc :: "realloc_fn \<Rightarrow> nat \<Rightarrow> bytes option" where
  "secure_alloc R n = fresh R secure n"

definition egg_dh_gen_secret :: "'h gcrypt \<Rightarrow> realloc_fn \<Rightarrow> nat \<Rightarrow> nat \<Rightarrow> nat \<Rightarrow> bytes option option" where
  "egg_dh_gen_secret G R peer priv prime =
     (let k = gcry_mpi_powm G peer priv prime;
          n_value = length (gcry_mpi_print G k)
      in mem_write (secure_alloc R n_value) 0 (gcry_mpi_print G k))"

section \<open>The groups\<close>

lemma dh_group_lengths:
  "length dh_group_768_prime = 96" "length dh_group_1024_prime = 128" "length dh_group_1536_prime = 192"
  "length dh_group_2048_prime = 256" "length dh_group_3072_prime = 384" "length dh_group_4096_prime = 512"
  "length dh_group_8192_prime = 1024"
  unfolding dh_group_768_prime_def dh_group_1024_prime_def dh_group_1536_prime_def dh_group_2048_prime_def
    dh_group_3072_prime_def dh_group_4096_prime_def dh_group_8192_prime_def
  by simp_all

lemma last_simps: "last (x # y # xs) = last (y # xs)" "last [x] = x"
  by simp_all

lemma dh_group_ends:
  "hd dh_group_768_prime = 0xFF \<and> last dh_group_768_prime = 0xFF"
  "hd dh_group_1024_prime = 0xFF \<and> last dh_group_1024_prime = 0xFF"
  "hd dh_group_1536_prime = 0xFF \<and> last dh_group_1536_prime = 0xFF"
  "hd dh_group_2048_prime = 0xFF \<and> last dh_group_2048_prime = 0xFF"
  "hd dh_group_3072_prime = 0xFF \<and> last dh_group_3072_prime = 0xFF"
  "hd dh_group_4096_prime = 0xFF \<and> last dh_group_4096_prime = 0xFF"
  "hd dh_group_8192_prime = 0xFF \<and> last dh_group_8192_prime = 0xFF"
  unfolding dh_group_768_prime_def dh_group_1024_prime_def dh_group_1536_prime_def dh_group_2048_prime_def
    dh_group_3072_prime_def dh_group_4096_prime_def dh_group_8192_prime_def
  by (simp_all only: last_simps list.sel simp_thms)

text \<open>Every prime of the table has as many bits as the table says, and is odd.\<close>

definition prime_bytes :: "nat \<Rightarrow> bytes \<Rightarrow> bool" where
  "prime_bytes bits p \<longleftrightarrow> length p * 8 = bits \<and> 0 < length p \<and> hd p = 0xFF \<and> last p = 0xFF"

lemma dh_group_prime_bytes:
  "prime_bytes 768 dh_group_768_prime"
  "prime_bytes 1024 dh_group_1024_prime"
  "prime_bytes 1536 dh_group_1536_prime"
  "prime_bytes 2048 dh_group_2048_prime"
  "prime_bytes 3072 dh_group_3072_prime"
  "prime_bytes 4096 dh_group_4096_prime"
  "prime_bytes 8192 dh_group_8192_prime"
  unfolding prime_bytes_def dh_group_lengths using dh_group_ends by simp_all

lemma dh_groups_bytes: "g \<in> set dh_groups \<Longrightarrow> prime_bytes (g_bits g) (g_prime g) \<and> g_base g = [2]"
  unfolding dh_groups_def using dh_group_prime_bytes by auto

lemma prime_bytes_value:
  assumes "prime_bytes bits p"
  shows "2 ^ (bits - 1) \<le> mpi_value p" "mpi_value p < 2 ^ bits" "odd (mpi_value p)" "8 \<le> bits"
proof -
  obtain b bs where p: "p = b # bs" "b = 0xFF" using assms unfolding prime_bytes_def by (cases p) auto
  have n: "bits = 8 * length p" "bits - 1 = 8 * length bs + 7" using assms p(1) unfolding prime_bytes_def by auto
  have pow: "(2 :: nat) ^ (8 * k) = 256 ^ k" for k by (simp add: power_mult)
  have "2 ^ (bits - 1) = 256 ^ length bs * (2 :: nat) ^ 7" unfolding n(2) power_add pow by simp
  also have "\<dots> \<le> unat b * 256 ^ length bs" unfolding p(2) by simp
  also have "\<dots> \<le> mpi_value p" unfolding p(1) by (rule mpi_value_Cons)
  finally show "2 ^ (bits - 1) \<le> mpi_value p" .
  show "mpi_value p < 2 ^ bits" unfolding n(1) pow by (rule mpi_value_bounds)
  have "p = butlast p @ [0xFF]" using assms unfolding prime_bytes_def by (metis append_butlast_last_id length_greater_0_conv)
  then have "mpi_value p = mpi_value (butlast p) * 256 + 255" using mpi_value_simps(2) [of "butlast p" "0xFF"] by simp
  then show "odd (mpi_value p)" by simp
  show "8 \<le> bits" using n(1) p(1) by simp
qed

definition good_params :: "'h gcrypt \<Rightarrow> nat \<Rightarrow> nat \<Rightarrow> bool" where
  "good_params G prime base \<longleftrightarrow> odd prime \<and> base = 2 \<and> 8 \<le> gcry_mpi_get_nbits G prime"

lemma default_params_good:
  assumes "mpi_law G" "g \<in> set dh_groups"
  shows "\<exists>prime. gcry_mpi_scan G (g_prime g) = Some prime \<and> gcry_mpi_get_nbits G prime = g_bits g \<and>
    gcry_mpi_scan G (g_base g) = Some 2 \<and> good_params G prime 2"
proof -
  note b = dh_groups_bytes [OF assms(2)]
  note v = prime_bytes_value [OF conjunct1 [OF b]]
  have s: "Suc (g_bits g - 1) = g_bits g" using v(4) by simp
  have "gcry_mpi_get_nbits G (mpi_value (g_prime g)) = Suc (g_bits g - 1)" using v s by (intro nbits_unique [OF assms(1)]) simp_all
  moreover have "mpi_value [2] = 2" by (simp add: mpi_value_def)
  ultimately show ?thesis using mpi_lawD(1) [OF assms(1)] v(3,4) b s by (simp add: good_params_def)
qed

lemma find_group_iff: "find_group name gs = Some g \<Longrightarrow> g \<in> set gs \<and> g_name g = name"
  by (induction gs) (auto split: if_splits)

lemma default_params_ok:
  assumes "mpi_law G"
  shows "case find_group name dh_groups of None \<Rightarrow> egg_dh_default_params G name = None
    | Some g \<Rightarrow> \<exists>prime. egg_dh_default_params G name = Some (prime, 2) \<and> gcry_mpi_get_nbits G prime = g_bits g \<and> good_params G prime 2"
proof (cases "find_group name dh_groups")
  case (Some g)
  then have "g \<in> set dh_groups" using find_group_iff by blast
  then show ?thesis using default_params_good [OF assms, of g] Some by (auto simp: egg_dh_default_params_def)
qed (simp add: egg_dh_default_params_def)

section \<open>Key pairs\<close>

lemma random_nonzero_returns:
  assumes "mpi_law G" "0 < bits"
  shows "\<exists>p k'. random_nonzero G bits priv k = Some (p, k') \<and> 0 < p"
proof -
  obtain j where j: "k \<le> j" "gcry_mpi_randomize G j bits \<noteq> 0" using mpi_lawD(8) [OF assms] by blast
  have "\<exists>p k'. random_nonzero G bits priv k = Some (p, k') \<and> 0 < p" using j
  proof (induction "j - k" arbitrary: k priv)
    case 0
    then have "k = j" by simp
    have again: "random_nonzero G bits (gcry_mpi_randomize G j bits) (j + 1) = Some (gcry_mpi_randomize G j bits, j + 1)"
      by (subst random_nonzero.simps) (simp add: j(2))
    show ?case using again j(2) \<open>k = j\<close> by (subst random_nonzero.simps) simp
  next
    case (Suc d)
    show ?case
    proof (cases "priv = 0")
      case True
      then show ?thesis using Suc.hyps(1) [of "k + 1"] Suc by (subst random_nonzero.simps) simp
    qed (simp add: random_nonzero.simps)
  qed
  then show ?thesis .
qed

lemma gen_pair_ok:
  assumes "mpi_law G" "1 < gcry_mpi_get_nbits G prime" "bits \<le> gcry_mpi_get_nbits G prime"
  shows "\<exists>priv k'. egg_dh_gen_pair G prime base bits k = Some (Some (base ^ priv mod prime, priv), k') \<and>
    priv < prime \<and> priv < 2 ^ (gcry_mpi_get_nbits G prime - 1) \<and> priv < 2 ^ (if bits = 0 then gcry_mpi_get_nbits G prime else bits)"
proof -
  let ?p = "gcry_mpi_get_nbits G prime" let ?b = "if bits = 0 then ?p else bits"
  have "0 < ?b" using assms(2) by (cases "bits = 0") simp_all
  then obtain r k' where r: "random_nonzero G ?b 0 k = Some (r, k')" "0 < r"
    using random_nonzero_returns [OF assms(1), of ?b 0 k] by blast
  obtain q where q: "q = (if gcry_mpi_get_nbits G r > ?b then gcry_mpi_clear_highbit G r ?b else r)" by blast
  obtain priv where priv: "priv = (if gcry_mpi_get_nbits G q > ?p - 1 then gcry_mpi_clear_highbit G q (?p - 1) else q)" by blast
  have cut: "(if gcry_mpi_get_nbits G x > m then gcry_mpi_clear_highbit G x m else x) < 2 ^ m" for x m
  proof (cases "gcry_mpi_get_nbits G x > m")
    case False
    then have "(2 :: nat) ^ gcry_mpi_get_nbits G x \<le> 2 ^ m" by (intro power_increasing) simp_all
    then have "x < 2 ^ m" by (rule less_le_trans [OF mpi_lawD(4) [OF assms(1)]])
    then show ?thesis using False by simp
  qed (simp add: mpi_lawD(6) [OF assms(1)])
  have q2: "q < 2 ^ ?b" unfolding q by (rule cut)
  have p1: "priv < 2 ^ (?p - 1)" unfolding priv by (rule cut)
  have "priv \<le> q" unfolding priv by (simp add: mpi_lawD(6) [OF assms(1)])
  then have p2: "priv < 2 ^ ?b" using q2 by linarith
  have pos: "0 < prime"
  proof (rule ccontr)
    assume "\<not> 0 < prime"
    then have "prime = 0" by simp
    then show False using assms(2) mpi_lawD(7) [OF assms(1)] by simp
  qed
  have lt: "priv < prime" using p1 mpi_lawD(5) [OF assms(1) pos] by linarith
  have one: "1 < prime"
  proof -
    have "(2 :: nat) ^ 1 \<le> 2 ^ (?p - 1)" using assms(2) by (intro power_increasing) simp_all
    then show ?thesis using mpi_lawD(5) [OF assms(1) pos] by simp
  qed
  have n: "\<not> \<not> 1 < ?p" "\<not> ?p < bits" using assms(2,3) by simp_all
  have "egg_dh_gen_pair G prime base bits k = Some (Some (base ^ priv mod prime, priv), k')"
    unfolding egg_dh_gen_pair_def Let_def if_not_P [OF n(1)] if_not_P [OF n(2)] r(1) Option.bind.simps prod.case
      q [symmetric] priv [symmetric] mpi_lawD(3) [OF assms(1) one]
    using lt by simp
  then show ?thesis using lt p1 p2 by blast
qed

section \<open>Shared secrets\<close>

text \<open>Both sides get the same number, and with an odd prime it is not zero.\<close>

lemma shared_number: "(base ^ x mod p) ^ y mod p = (base ^ y mod p) ^ x mod (p :: nat)"
  by (simp add: power_mod power_mult [symmetric] mult.commute)

lemma odd_power_mod: "odd p \<Longrightarrow> 1 < p \<Longrightarrow> 0 < (2 :: nat) ^ n mod p"
proof (rule ccontr)
  assume p: "odd p" "1 < p" and z: "\<not> 0 < (2 :: nat) ^ n mod p"
  then have "p dvd 2 ^ n" by (simp add: dvd_eq_mod_eq_0)
  moreover have "coprime p (2 ^ n)" using p(1) by (simp add: coprime_commute)
  ultimately have "is_unit p" by (metis coprime_common_divisor dvd_refl)
  then show False using p(2) by simp
qed

lemma good_params_prime:
  assumes "mpi_law G" "good_params G prime base"
  shows "1 < prime" "odd prime" "base = 2" "1 < gcry_mpi_get_nbits G prime"
proof -
  show o: "odd prime" and "base = 2" and n: "1 < gcry_mpi_get_nbits G prime" using assms(2) by (auto simp: good_params_def)
  have "0 < prime" using o by (rule odd_pos)
  moreover have "prime \<noteq> 1" using n nbits_unique [OF assms(1), of 0 1] by auto
  ultimately show "1 < prime" by linarith
qed

lemma mpi_print_not_Nil: "mpi_law G \<Longrightarrow> 0 < n \<Longrightarrow> gcry_mpi_print G n \<noteq> []"
  using mpi_lawD(2) [of G n] by auto

lemma gen_secret_ok:
  assumes "mpi_law G" "1 < prime" "0 < peer ^ priv mod prime" "realloc_law R" "alloc_total R"
    "length (gcry_mpi_print G (peer ^ priv mod prime)) < object_limit"
  shows "egg_dh_gen_secret G R peer priv prime = Some (Some (gcry_mpi_print G (peer ^ priv mod prime)))"
proof -
  let ?v = "gcry_mpi_print G (peer ^ priv mod prime)"
  have "?v \<noteq> []" by (rule mpi_print_not_Nil [OF assms(1,3)])
  moreover obtain m where m: "R secure None (length ?v) = Some m" using assms(5,6) unfolding alloc_total_def by blast
  moreover have "length m = length ?v" using realloc_lawD(1) [OF assms(4) m] .
  ultimately show ?thesis
    by (simp add: egg_dh_gen_secret_def secure_alloc_def fresh_def mpi_lawD(3) [OF assms(1,2)] Let_def mem_write_Some)
qed

end
