(* ===== verification/Hkdf.thy ===== *)
theory Hkdf
  imports Gcrypt
begin

text \<open>
  \<open>egg/egg-hkdf.c\<close>: the key derivation of RFC 5869. The loop writes the output block by block; the
  reference definition is the one of the RFC, and both agree.
\<close>

section \<open>The code\<close>

text \<open>\<open>md\<close> is the handle with its key; \<open>buffer\<close> is what the last round has left in the buffer.\<close>

function hkdf_expand :: "(bytes \<Rightarrow> bytes) \<Rightarrow> nat \<Rightarrow> bytes \<Rightarrow> nat \<Rightarrow> bytes \<Rightarrow> bytes option \<Rightarrow> nat \<Rightarrow> nat \<Rightarrow> bytes option option" where
  "hkdf_expand md hash_len info i buffer output at n_output =
     (if i < 256 then do {
        let buffer = md (buffer @ info @ [word_of_nat i]);
        let step = min hash_len n_output;
        output \<leftarrow> mem_write output at (take step buffer);
        if n_output - step = 0 then Some output
        else hkdf_expand md hash_len info (i + 1) buffer output (at + step) (n_output - step) }
      else Some output)"
  by pat_completeness auto
termination by (relation "measure (\<lambda>(md, hash_len, info, i, _). 256 - i)") auto

declare hkdf_expand.simps [simp del]

text \<open>The inner result is \<open>None\<close> for \<open>FALSE\<close>, and otherwise the output.\<close>

definition egg_hkdf_perform :: "'h gcrypt \<Rightarrow> string \<Rightarrow> bytes \<Rightarrow> bytes option \<Rightarrow> bytes \<Rightarrow> bytes option \<Rightarrow> nat \<Rightarrow> bytes option option option" where
  "egg_hkdf_perform G hash_algo input salt info output n_output =
     (let algo = gcry_md_map_name G hash_algo; hash_len = gcry_md_get_algo_dlen G algo
      in if \<not> algo \<noteq> 0 then Some None
         else if \<not> hash_len \<noteq> 0 then Some None
         else if \<not> n_output \<le> 255 * hash_len then Some None
         else if \<not> gcry_malloc G hash_len then Some None
         else let salt = (case salt of None \<Rightarrow> replicate hash_len 0 | Some s \<Rightarrow> s);
                  prk = gcry_md_hmac G algo salt input
              in map_option Some (hkdf_expand (gcry_md_hmac G algo prk) hash_len info 1 [] output 0 n_output))"

section \<open>The reference\<close>

text \<open>The blocks \<open>T(0)\<close>, \<open>T(1)\<close>, \<dots> of the RFC, and its output keying material of a length.\<close>

fun rfc_block :: "(bytes \<Rightarrow> bytes) \<Rightarrow> bytes \<Rightarrow> nat \<Rightarrow> bytes" where
  "rfc_block hmac info 0 = []"
| "rfc_block hmac info (Suc i) = hmac (rfc_block hmac info i @ info @ [word_of_nat (Suc i)])"

definition rfc_expand :: "(bytes \<Rightarrow> bytes) \<Rightarrow> bytes \<Rightarrow> nat \<Rightarrow> nat \<Rightarrow> bytes" where
  "rfc_expand hmac info n_blocks n = take n (concat (map (rfc_block hmac info) [1..<Suc n_blocks]))"

definition rfc_hkdf :: "(bytes \<Rightarrow> bytes \<Rightarrow> bytes) \<Rightarrow> nat \<Rightarrow> bytes \<Rightarrow> bytes option \<Rightarrow> bytes \<Rightarrow> nat \<Rightarrow> bytes" where
  "rfc_hkdf hmac hash_len ikm salt info n =
     rfc_expand (hmac (hmac (case salt of None \<Rightarrow> replicate hash_len 0 | Some s \<Rightarrow> s) ikm)) info
       ((n + hash_len - 1) div hash_len) n"

section \<open>The loop\<close>

abbreviation rfc_from :: "(bytes \<Rightarrow> bytes) \<Rightarrow> bytes \<Rightarrow> nat \<Rightarrow> nat \<Rightarrow> bytes" where
  "rfc_from hmac info i n \<equiv> concat (map (rfc_block hmac info) [i..<i + n])"

lemma rfc_from_Suc: "rfc_from hmac info i (Suc n) = rfc_block hmac info i @ rfc_from hmac info (Suc i) n"
  by (simp add: upt_conv_Cons del: upt_Suc)

lemma length_rfc_from:
  assumes "\<forall>m. length (hmac m) = hash_len" "0 < i"
  shows "length (rfc_from hmac info i n) = n * hash_len"
  using assms(2)
proof (induction n arbitrary: i)
  case (Suc n)
  obtain j where "i = Suc j" using Suc.prems by (cases i) auto
  then have "length (rfc_block hmac info i) = hash_len" using assms(1) by simp
  then show ?case using Suc.IH [of "Suc i"] unfolding rfc_from_Suc by simp
qed simp

text \<open>The rounds from \<open>i\<close> on put the blocks from \<open>i\<close> on behind what is in the output already.\<close>

lemma expand_from:
  assumes "\<forall>m. length (hmac m) = hash_len" "0 < hash_len"
  shows "n \<le> k * hash_len \<Longrightarrow> 0 < k \<Longrightarrow> i + k \<le> 256 \<Longrightarrow> 0 < i \<Longrightarrow> length out = at + n \<Longrightarrow>
    hkdf_expand hmac hash_len info i (rfc_block hmac info (i - 1)) (Some out) at n =
      Some (Some (take at out @ take n (rfc_from hmac info i k)))"
proof (induction k arbitrary: i out at n)
  case (Suc k)
  let ?b = "rfc_block hmac info i" let ?s = "min hash_len n"
  have i: "hmac (rfc_block hmac info (i - 1) @ info @ [word_of_nat i]) = ?b" using Suc.prems(4) by (cases i) simp_all
  have l: "length ?b = hash_len" using assms(1) Suc.prems(4) by (cases i) simp_all
  have w: "mem_write (Some out) at (take ?s ?b) = Some (Some (take at out @ take ?s ?b @ drop (at + ?s) out))"
    using l Suc.prems(5) by (subst mem_write_Some) simp_all
  have lt: "i < 256" using Suc.prems(3) by simp
  show ?case
  proof (cases "n \<le> hash_len")
    case True
    then show ?thesis using w i lt l Suc.prems(5) unfolding rfc_from_Suc
      by (subst hkdf_expand.simps) (simp add: Let_def)
  next
    case False
    let ?o = "take at out @ ?b @ drop (at + hash_len) out"
    have k: "0 < k" using False Suc.prems(1) by (cases k) simp_all
    have lo: "length ?o = at + hash_len + (n - hash_len)" using Suc.prems(5) False l by simp
    have "hkdf_expand hmac hash_len info (i + 1) (rfc_block hmac info (i + 1 - 1)) (Some ?o) (at + hash_len) (n - hash_len) =
        Some (Some (take (at + hash_len) ?o @ take (n - hash_len) (rfc_from hmac info (i + 1) k)))"
      by (rule Suc.IH [OF _ k _ _ lo]) (use Suc.prems(1,3) in simp_all)
    moreover have "take (at + hash_len) ?o = take at out @ ?b" using Suc.prems(5) l False by simp
    ultimately have r: "hkdf_expand hmac hash_len info (i + 1) ?b (Some ?o) (at + hash_len) (n - hash_len) =
        Some (Some (take at out @ take n (?b @ rfc_from hmac info (Suc i) k)))"
      using False l by simp
    show ?thesis using w i lt l False r unfolding rfc_from_Suc by (subst hkdf_expand.simps) (simp add: Let_def)
  qed
qed simp

lemma hkdf_perform_rfc:
  assumes "md_law G" "algo = gcry_md_map_name G hash" "algo \<noteq> 0" "hash_len = gcry_md_get_algo_dlen G algo"
    "0 < hash_len" "n \<le> 255 * hash_len" "0 < n" "length out = n"
  shows "egg_hkdf_perform G hash input salt info (Some out) n = Some (Some (Some (rfc_hkdf (gcry_md_hmac G algo) hash_len input salt info n)))"
proof -
  let ?k = "(n + hash_len - 1) div hash_len"
  have k: "n \<le> ?k * hash_len" "0 < ?k" "?k \<le> 255"
  proof -
    have "n + hash_len - 1 < ?k * hash_len + hash_len" using dividend_less_div_times [OF assms(5), of "n + hash_len - 1"] by (simp only: add.commute)
    then show "n \<le> ?k * hash_len" by simp
    then show "0 < ?k" using assms(7) by (cases ?k) simp_all
    have "n + hash_len - 1 < 256 * hash_len" using assms(5,6) by simp
    then show "?k \<le> 255" using assms(5) by (simp add: div_less_iff_less_mult less_Suc_eq_le [symmetric])
  qed
  let ?m = "gcry_md_hmac G algo (gcry_md_hmac G algo (case salt of None \<Rightarrow> replicate hash_len 0 | Some s \<Rightarrow> s) input)"
  have "hkdf_expand ?m hash_len info 1 (rfc_block ?m info (1 - 1)) (Some out) 0 n =
      Some (Some (take 0 out @ take n (rfc_from ?m info 1 ?k)))"
    by (rule expand_from) (use k assms md_lawD(1) [OF assms(1)] in simp_all)
  then have e: "hkdf_expand ?m hash_len info 1 [] (Some out) 0 n = Some (Some (rfc_hkdf (gcry_md_hmac G algo) hash_len input salt info n))"
    by (simp add: rfc_hkdf_def rfc_expand_def del: upt_Suc)
  have "0 < algo" using assms(3) by simp
  then show ?thesis using assms(5,6) md_lawD(4) [OF assms(1)] e
    unfolding egg_hkdf_perform_def Let_def assms(2) [symmetric] assms(4) [symmetric] by simp
qed

lemma length_rfc_hkdf:
  assumes "\<And>key m. length (hmac key m) = hash_len" "0 < hash_len"
  shows "length (rfc_hkdf hmac hash_len ikm salt info n) = n"
proof -
  let ?k = "(n + hash_len - 1) div hash_len"
  have "n + hash_len - 1 < ?k * hash_len + hash_len"
    using dividend_less_div_times [OF assms(2), of "n + hash_len - 1"] by (simp only: add.commute)
  then have "n \<le> ?k * hash_len" by simp
  moreover have "length (rfc_from (hmac key) info 1 ?k) = ?k * hash_len" for key by (rule length_rfc_from) (use assms in simp_all)
  ultimately show ?thesis by (simp add: rfc_hkdf_def rfc_expand_def del: upt_Suc)
qed

lemma hkdf_refuses: "255 * gcry_md_get_algo_dlen G (gcry_md_map_name G hash) < n \<Longrightarrow> egg_hkdf_perform G hash input salt info out n = Some None"
  by (simp add: egg_hkdf_perform_def Let_def)

end
