(* ===== verification/Exchange.thy ===== *)
theory Exchange
  imports Dh Hkdf Padding "HOL-Library.AList"
begin

text \<open>
  \<open>gcr/gcr-secret-exchange.c\<close>: how two processes exchange secrets. The exchange proper works with any
  class that has the four virtual methods; the default class uses Diffie-Hellman, HKDF and AES. Computations
  are \<open>None\<close> for undefined behaviour, as everywhere.
\<close>

section \<open>Key files and base64\<close>

text \<open>
  A \<open>GKeyFile\<close> is a table of values under a section and a field. Its text, and base64, belong to GLib: they are
  parameters with the documented laws.
\<close>

type_synonym key_file = "((string \<times> string) \<times> bytes) list"

record glib =
  g_base64_encode :: "bytes \<Rightarrow> bytes"
  g_base64_decode :: "bytes \<Rightarrow> bytes"
  g_key_file_to_data :: "key_file \<Rightarrow> bytes"
  g_key_file_load_from_data :: "bytes \<Rightarrow> key_file option"
  g_strchug :: "bytes \<Rightarrow> bytes"

definition PROTOCOL_1 :: string where
  "PROTOCOL_1 = ''sx-aes-1''"

definition our_values :: "glib \<Rightarrow> key_file \<Rightarrow> bool" where
  "our_values L kf \<longleftrightarrow> kf \<noteq> [] \<and> distinct (map fst kf) \<and>
     (\<forall>k v. (k, v) \<in> set kf \<longrightarrow> fst k = PROTOCOL_1 \<and> snd k \<in> {''public'', ''secret'', ''iv''} \<and> v \<in> range (g_base64_encode L))"

definition glib_law :: "glib \<Rightarrow> bool" where
  "glib_law L \<longleftrightarrow> (\<forall>d. g_base64_decode L (g_base64_encode L d) = d) \<and>
     (\<forall>kf. our_values L kf \<longrightarrow>
        (\<exists>kf'. g_key_file_load_from_data L (g_strchug L (g_key_file_to_data L kf)) = Some kf' \<and> map_of kf' = map_of kf))"

definition key_file_set_base64 :: "glib \<Rightarrow> key_file \<Rightarrow> string \<Rightarrow> string \<Rightarrow> bytes \<Rightarrow> key_file" where
  "key_file_set_base64 L key_file section field data = AList.update (section, field) (g_base64_encode L data) key_file"

definition key_file_get_base64 :: "glib \<Rightarrow> key_file \<Rightarrow> string \<Rightarrow> string \<Rightarrow> bytes option" where
  "key_file_get_base64 L key_file section field = map_option (g_base64_decode L) (map_of key_file (section, field))"

section \<open>The class and the object\<close>

text \<open>
  The virtual methods, on the state that the class keeps for an object: they return the new state, and before it
  \<open>None\<close> for \<open>FALSE\<close>, or what they store through their arguments. \<open>decrypt_transport_data\<close> returns \<open>TRUE\<close> with
  no plain text, and some length, when it finds bad padding.
\<close>

record 'd exchange_class =
  generate_exchange_key :: "'d \<Rightarrow> (bytes option \<times> 'd) option"
  derive_transport_key :: "'d \<Rightarrow> bytes \<Rightarrow> (bool \<times> 'd) option"
  encrypt_transport_data :: "'d \<Rightarrow> allocator \<Rightarrow> bytes \<Rightarrow> ((bytes \<times> bytes) option \<times> 'd) option"
  decrypt_transport_data :: "'d \<Rightarrow> allocator \<Rightarrow> bytes \<Rightarrow> bytes option \<Rightarrow> ((bytes option \<times> nat) option \<times> 'd) option"

record 'd exchange =
  default_exchange :: 'd
  explicit_protocol :: bool
  generated :: bool
  publi :: "bytes option"
  derived :: bool
  secret :: "bytes option"
  n_secret :: nat

definition gcr_secret_exchange_new :: "'d \<Rightarrow> string option \<Rightarrow> 'd exchange" where
  "gcr_secret_exchange_new d protocol =
     \<lparr>default_exchange = d, explicit_protocol = (protocol = Some PROTOCOL_1), generated = False, publi = None,
      derived = False, secret = None, n_secret = 0\<rparr>"

definition gcr_secret_exchange_get_protocol :: "'d exchange \<Rightarrow> string option" where
  "gcr_secret_exchange_get_protocol self = (if explicit_protocol self \<or> generated self then Some PROTOCOL_1 else None)"

definition clear_secret_exchange :: "'d exchange \<Rightarrow> 'd exchange" where
  "clear_secret_exchange self = self\<lparr>publi := None, derived := False, generated := True, secret := None, n_secret := 0\<rparr>"

definition gcr_secret_exchange_begin :: "'d exchange_class \<Rightarrow> glib \<Rightarrow> 'd exchange \<Rightarrow> (bytes option \<times> 'd exchange) option" where
  "gcr_secret_exchange_begin klass L self = do {
     let self = clear_secret_exchange self;
     (pub, d) \<leftarrow> generate_exchange_key klass (default_exchange self);
     let self = self\<lparr>default_exchange := d, publi := pub\<rparr>;
     (case pub of
        None \<Rightarrow> Some (None, self)
      | Some data \<Rightarrow>
          Some (Some (g_strchug L (g_key_file_to_data L (key_file_set_base64 L [] PROTOCOL_1 ''public'' data))), self\<lparr>generated := True\<rparr>)) }"

definition derive_key :: "'d exchange_class \<Rightarrow> glib \<Rightarrow> 'd exchange \<Rightarrow> key_file \<Rightarrow> (bool \<times> 'd exchange) option" where
  "derive_key klass L self input =
     (case key_file_get_base64 L input PROTOCOL_1 ''public'' of
        None \<Rightarrow> Some (False, self)
      | Some peer \<Rightarrow> do {
          (ret, d) \<leftarrow> derive_transport_key klass (default_exchange self) peer;
          Some (ret, self\<lparr>default_exchange := d, derived := ret\<rparr>) })"

definition perform_decrypt :: "'d exchange_class \<Rightarrow> glib \<Rightarrow> realloc_fn \<Rightarrow> 'd exchange \<Rightarrow> key_file \<Rightarrow> ((bytes option \<times> nat) option \<times> 'd exchange) option" where
  "perform_decrypt klass L R self input =
     (case key_file_get_base64 L input PROTOCOL_1 ''secret'' of
        None \<Rightarrow> Some (None, self)
      | Some value \<Rightarrow> do {
          (r, d) \<leftarrow> decrypt_transport_data klass (default_exchange self) secure value (key_file_get_base64 L input PROTOCOL_1 ''iv'');
          let self = self\<lparr>default_exchange := d\<rparr>;
          (case r of
             None \<Rightarrow> Some (None, self)
           | Some (None, n_result) \<Rightarrow> Some (Some (None, n_result), self)
           | Some (Some m, n_result) \<Rightarrow> do {
               m \<leftarrow> mem_write (R secure (Some m) (n_result + 1)) n_result [0];
               Some (Some (m, n_result), self) }) })"

definition gcr_secret_exchange_receive :: "'d exchange_class \<Rightarrow> glib \<Rightarrow> realloc_fn \<Rightarrow> 'd exchange \<Rightarrow> bytes \<Rightarrow> (bool \<times> 'd exchange) option" where
  "gcr_secret_exchange_receive klass L R self exchange =
     (case g_key_file_load_from_data L exchange of
        None \<Rightarrow> Some (False, self)
      | Some input \<Rightarrow> do {
          (go, self) \<leftarrow> (if generated self then Some (True, self)
             else do {
               (pub, d) \<leftarrow> generate_exchange_key klass (default_exchange self);
               let self = self\<lparr>default_exchange := d, publi := pub\<rparr>;
               Some (if pub = None then (False, self) else (True, self\<lparr>generated := True\<rparr>)) });
          if \<not> go then Some (False, self)
          else do {
            (ret, self) \<leftarrow> (if derived self then Some (True, self) else derive_key klass L self input);
            if ret \<and> map_of input (PROTOCOL_1, ''secret'') \<noteq> None then do {
              (r, self) \<leftarrow> perform_decrypt klass L R self input;
              Some (case r of
                 None \<Rightarrow> (False, self)
               | Some (m, n) \<Rightarrow> (True, self\<lparr>secret := m, n_secret := n\<rparr>)) }
            else Some (if ret then (True, self\<lparr>secret := None, n_secret := 0\<rparr>) else (False, self)) } })"

definition gcr_secret_exchange_get_secret :: "'d exchange \<Rightarrow> bytes option \<times> nat" where
  "gcr_secret_exchange_get_secret self = (secret self, n_secret self)"

definition perform_encrypt :: "'d exchange_class \<Rightarrow> glib \<Rightarrow> 'd exchange \<Rightarrow> key_file \<Rightarrow> bytes \<Rightarrow> (key_file option \<times> 'd exchange) option" where
  "perform_encrypt klass L self output plain = do {
     (r, d) \<leftarrow> encrypt_transport_data klass (default_exchange self) StdRealloc plain;
     let self = self\<lparr>default_exchange := d\<rparr>;
     (case r of
        None \<Rightarrow> Some (None, self)
      | Some (iv, result) \<Rightarrow>
          Some (Some (key_file_set_base64 L (key_file_set_base64 L output PROTOCOL_1 ''secret'' result) PROTOCOL_1 ''iv'' iv), self)) }"

text \<open>The secret lies in memory; with a negative length it ends at the first zero byte.\<close>

definition secret_bytes :: "bytes \<Rightarrow> int \<Rightarrow> bytes option" where
  "secret_bytes mem secret_len =
     (if secret_len < 0 then map_option (\<lambda>n. take n mem) (memchr0 mem)
      else if length mem < nat secret_len then None else Some (take (nat secret_len) mem))"

definition gcr_secret_exchange_send :: "'d exchange_class \<Rightarrow> glib \<Rightarrow> 'd exchange \<Rightarrow> bytes option \<Rightarrow> int \<Rightarrow> (bytes option \<times> 'd exchange) option" where
  "gcr_secret_exchange_send klass L self mem secret_len =
     (if \<not> derived self then Some (None, self)
      else do {
        let output = key_file_set_base64 L [] PROTOCOL_1 ''public'' (case publi self of None \<Rightarrow> [] | Some p \<Rightarrow> p);
        (output, self) \<leftarrow> (case mem of
            None \<Rightarrow> Some (Some output, self)
          | Some m \<Rightarrow> do { plain \<leftarrow> secret_bytes m secret_len; perform_encrypt klass L self output plain });
        Some (case output of None \<Rightarrow> (None, self) | Some kf \<Rightarrow> (Some (g_strchug L (g_key_file_to_data L kf)), self)) })"

section \<open>The default class\<close>

definition EXCHANGE_1_IKE_NAME :: string where
  "EXCHANGE_1_IKE_NAME = ''ietf-ike-grp-modp-1536''"

record exchange_data =
  x_prime :: nat
  x_base :: nat
  x_pub :: "nat option"
  x_priv :: "nat option"
  x_key :: "bytes option"

text \<open>The data of an object, if there are any yet, and how many requests for random bytes were made.\<close>

record exchange_default =
  x_data :: "exchange_data option"
  x_requests :: nat

definition mpi_to_data :: "'h gcrypt \<Rightarrow> nat \<Rightarrow> bytes option" where
  "mpi_to_data G mpi = (if gcry_mpi_print G mpi = [] then None else Some (gcry_mpi_print G mpi))"

definition default_generate_exchange_key :: "'h gcrypt \<Rightarrow> exchange_default \<Rightarrow> (bytes option \<times> exchange_default) option" where
  "default_generate_exchange_key G s =
     (case (case x_data s of
              None \<Rightarrow> map_option (\<lambda>(p, b). \<lparr>x_prime = p, x_base = b, x_pub = None, x_priv = None, x_key = None\<rparr>)
                        (egg_dh_default_params G EXCHANGE_1_IKE_NAME)
            | Some d \<Rightarrow> Some d) of
        None \<Rightarrow> Some (None, s)
      | Some d \<Rightarrow> do {
          let d = d\<lparr>x_priv := None, x_pub := None, x_key := None\<rparr>;
          (r, k) \<leftarrow> egg_dh_gen_pair G (x_prime d) (x_base d) 0 (x_requests s);
          (case r of
             None \<Rightarrow> Some (None, \<lparr>x_data = Some d, x_requests = k\<rparr>)
           | Some (pub, priv) \<Rightarrow>
               Some (mpi_to_data G pub, \<lparr>x_data = Some (d\<lparr>x_pub := Some pub, x_priv := Some priv\<rparr>), x_requests = k\<rparr>)) })"

definition default_derive_transport_key :: "'h gcrypt \<Rightarrow> realloc_fn \<Rightarrow> exchange_default \<Rightarrow> bytes \<Rightarrow> (bool \<times> exchange_default) option" where
  "default_derive_transport_key G R s peer =
     (case x_data s of
        None \<Rightarrow> Some (False, s)
      | Some d \<Rightarrow>
          (case x_priv d of
             None \<Rightarrow> Some (False, s)
           | Some priv \<Rightarrow>
               (case gcry_mpi_scan G peer of
                  None \<Rightarrow> Some (False, s)
                | Some mpi \<Rightarrow> do {
                    ikm \<leftarrow> egg_dh_gen_secret G R mpi priv (x_prime d);
                    (case ikm of
                       None \<Rightarrow> Some (False, s)
                     | Some ikm \<Rightarrow> do {
                         let key = (if x_key d = None then secure_alloc R 16 else x_key d);
                         r \<leftarrow> egg_hkdf_perform G ''sha256'' ikm None [] key 16;
                         Some (case r of
                            None \<Rightarrow> (False, s\<lparr>x_data := Some (d\<lparr>x_key := key\<rparr>)\<rparr>)
                          | Some key \<Rightarrow> (True, s\<lparr>x_data := Some (d\<lparr>x_key := key\<rparr>)\<rparr>)) }) })))"

text \<open>The loops over the blocks of 16 bytes, from a buffer into another.\<close>

function crypt_loop :: "('h \<Rightarrow> bytes \<Rightarrow> bytes \<times> 'h) \<Rightarrow> 'h \<Rightarrow> bytes option \<Rightarrow> bytes option \<Rightarrow> nat \<Rightarrow> nat \<Rightarrow> bytes option option" where
  "crypt_loop f h input result pos n =
     (if pos < n then do {
        b \<leftarrow> mem_read input pos 16;
        let (c, h') = f h b;
        result \<leftarrow> mem_write result pos c;
        crypt_loop f h' input result (pos + 16) n }
      else Some result)"
  by pat_completeness auto
termination by (relation "measure (\<lambda>(f, h, input, result, pos, n). n - pos)") auto

declare crypt_loop.simps [simp del]

text \<open>Without a cipher handle the code frees the address of the caller's variable, which is undefined.\<close>

definition default_encrypt_transport_data ::
  "'h gcrypt \<Rightarrow> realloc_fn \<Rightarrow> exchange_default \<Rightarrow> allocator \<Rightarrow> bytes \<Rightarrow> ((bytes \<times> bytes) option \<times> exchange_default) option" where
  "default_encrypt_transport_data G R s al plain =
     (case Option.bind (x_data s) x_key of
        None \<Rightarrow> Some (None, s)
      | Some key \<Rightarrow> do {
          c_assert (gcry_cipher_open G);
          (case fresh R al 16 of
             None \<Rightarrow> Some (None, s)
           | Some iv \<Rightarrow> do {
               iv \<leftarrow> mem_write (Some iv) 0 (gcry_create_nonce G (x_requests s) 16);
               let s = s\<lparr>x_requests := x_requests s + 1\<rparr>;
               (case gcry_cipher_start G key (the iv) of
                  None \<Rightarrow> Some (None, s)
                | Some h \<Rightarrow> do {
                    padded \<leftarrow> egg_padding_pkcs7_pad R (Some secure) 16 plain True;
                    (case padded of
                       None \<Rightarrow> Some (None, s)
                     | Some (n_result, padded) \<Rightarrow>
                         (case fresh R al n_result of
                            None \<Rightarrow> Some (None, s)
                          | Some result \<Rightarrow> do {
                              result \<leftarrow> crypt_loop (gcry_cipher_encrypt G) h padded (Some result) 0 n_result;
                              Some (Some (the iv, the result), s) })) }) }) })"

text \<open>\<open>uninit\<close> is what the variable for the length holds that the code leaves unset when the padding is bad.\<close>

definition default_decrypt_transport_data ::
  "'h gcrypt \<Rightarrow> realloc_fn \<Rightarrow> nat \<Rightarrow> exchange_default \<Rightarrow> allocator \<Rightarrow> bytes \<Rightarrow> bytes option \<Rightarrow> ((bytes option \<times> nat) option \<times> exchange_default) option" where
  "default_decrypt_transport_data G R uninit s al cipher_text iv =
     (case Option.bind (x_data s) x_key of
        None \<Rightarrow> Some (None, s)
      | Some key \<Rightarrow>
          if iv = None \<or> length (the iv) \<noteq> 16 then Some (None, s)
          else if length cipher_text mod 16 \<noteq> 0 then Some (None, s)
          else if \<not> gcry_cipher_open G then Some (None, s)
          else case gcry_cipher_start G key (the iv) of
            None \<Rightarrow> Some (None, s)
          | Some h \<Rightarrow>
              (case fresh R al (length cipher_text) of
                 None \<Rightarrow> Some (None, s)
               | Some padded \<Rightarrow> do {
                   padded \<leftarrow> crypt_loop (gcry_cipher_decrypt G) h (Some cipher_text) (Some padded) 0 (length cipher_text);
                   r \<leftarrow> egg_padding_pkcs7_unpad R (Some al) 16 (the padded) True;
                   Some (case r of None \<Rightarrow> Some (None, uninit) | Some (n, m) \<Rightarrow> Some (m, n), s) }))"

definition default_class :: "'h gcrypt \<Rightarrow> realloc_fn \<Rightarrow> nat \<Rightarrow> exchange_default exchange_class" where
  "default_class G R uninit =
     \<lparr>generate_exchange_key = default_generate_exchange_key G,
      derive_transport_key = default_derive_transport_key G R,
      encrypt_transport_data = default_encrypt_transport_data G R,
      decrypt_transport_data = default_decrypt_transport_data G R uninit\<rparr>"

end
