(* ===== verification/ExchangeClass.thy ===== *)
theory ExchangeClass
  imports Exchange
begin

text \<open>
  What the secret exchange asks of its class, as a locale, and the default class as an instance of it: both sides
  derive the same key, and what one side encrypts is what the other one decrypts.
\<close>

section \<open>The contract of the class\<close>

text \<open>
  \<open>g\<close> is what the class is made of, \<open>ok\<close> says that it behaves as documented and \<open>proper\<close> is the invariant of
  the state. An object that holds a private value \<open>x\<close> sends out \<open>public g x\<close>; two objects agree on a key, and
  \<open>sealed\<close> relates a vector and a cipher text to the plain text.
\<close>

locale exchange_laws =
  fixes klass :: "'g \<Rightarrow> 'd exchange_class" and memory :: "'g \<Rightarrow> realloc_fn" and ok :: "'g \<Rightarrow> bool" and proper :: "'g \<Rightarrow> 'd \<Rightarrow> bool"
    and holds :: "'g \<Rightarrow> 'd \<Rightarrow> 'x \<Rightarrow> bool" and public :: "'g \<Rightarrow> 'x \<Rightarrow> bytes" and agreed :: "'g \<Rightarrow> 'x \<Rightarrow> 'x \<Rightarrow> 'k"
    and keyed :: "'g \<Rightarrow> 'd \<Rightarrow> 'k \<Rightarrow> bool" and sealed :: "'g \<Rightarrow> 'k \<Rightarrow> bytes \<Rightarrow> bytes \<Rightarrow> bytes \<Rightarrow> bool"
  assumes memory_law: "ok g \<Longrightarrow> realloc_law (memory g) \<and> (\<forall>al p n. n < object_limit \<longrightarrow> memory g al p n \<noteq> None)"
    and generates: "ok g \<Longrightarrow> proper g d \<Longrightarrow>
      \<exists>x d'. generate_exchange_key (klass g) d = Some (Some (public g x), d') \<and> proper g d' \<and> holds g d' x"
    and derives: "ok g \<Longrightarrow> proper g d \<Longrightarrow> holds g d x \<Longrightarrow>
      \<exists>d'. derive_transport_key (klass g) d (public g y) = Some (True, d') \<and> proper g d' \<and> holds g d' x \<and> keyed g d' (agreed g x y)"
    and agreed_sym: "ok g \<Longrightarrow> agreed g x y = agreed g y x"
    and encrypts: "ok g \<Longrightarrow> proper g d \<Longrightarrow> keyed g d k \<Longrightarrow> length s + 16 < object_limit \<Longrightarrow>
      \<exists>iv c d'. encrypt_transport_data (klass g) d StdRealloc s = Some (Some (iv, c), d') \<and> proper g d' \<and> keyed g d' k \<and> sealed g k iv c s"
    and decrypts: "ok g \<Longrightarrow> proper g d \<Longrightarrow> keyed g d k \<Longrightarrow> sealed g k iv c s \<Longrightarrow> length s + 16 < object_limit \<Longrightarrow>
      \<exists>d' m. decrypt_transport_data (klass g) d secure c (Some iv) = Some (Some (Some m, length s), d') \<and> proper g d' \<and> keyed g d' k \<and>
        length s < length m \<and> take (length s) m = s"

section \<open>Blocks\<close>

fun chunks :: "nat \<Rightarrow> bytes \<Rightarrow> bytes list" where
  "chunks 0 bs = []"
| "chunks (Suc m) bs = take 16 bs # chunks m (drop 16 bs)"

lemma concat_chunks: "concat (chunks m bs) = take (16 * m) bs"
  by (induction m arbitrary: bs) (simp_all add: take_add add.commute [of _ 16])

lemma chunks_length: "16 * m \<le> length bs \<Longrightarrow> b \<in> set (chunks m bs) \<Longrightarrow> length b = 16"
proof (induction m arbitrary: bs)
  case (Suc m)
  then show ?case using Suc.IH [of "drop 16 bs"] by auto
qed simp

lemma length_chunks [simp]: "length (chunks m bs) = m"
  by (induction m arbitrary: bs) simp_all

lemma chunks_concat: "\<forall>b \<in> set bs. length b = 16 \<Longrightarrow> chunks (length bs) (concat bs @ rest) = bs"
  by (induction bs) simp_all

lemma cipher_blocks_length:
  "\<forall>h b. length b = 16 \<longrightarrow> length (fst (f h b)) = 16 \<Longrightarrow> \<forall>b \<in> set bs. length b = 16 \<Longrightarrow>
    length (cipher_blocks f h bs) = length bs \<and> (\<forall>b \<in> set (cipher_blocks f h bs). length b = 16)"
proof (induction bs arbitrary: h)
  case (Cons b bs)
  obtain c h' where c: "f h b = (c, h')" by fastforce
  have "length b = 16" using Cons.prems(2) by simp
  then have "length (fst (f h b)) = 16" using Cons.prems(1) by blast
  then have "length c = 16" using c by simp
  moreover have "\<forall>b \<in> set bs. length b = 16" using Cons.prems(2) by simp
  note Cons.IH [OF Cons.prems(1) this, of h']
  ultimately show ?case using c by simp
qed simp

lemma length_concat_blocks: "\<forall>b \<in> set bs. length b = 16 \<Longrightarrow> length (concat bs) = 16 * length bs"
  by (induction bs) simp_all

lemma crypt_loop_blocks:
  assumes "\<forall>h b. length b = 16 \<longrightarrow> length (fst (f h b)) = 16"
  shows "pos + 16 * m = n \<Longrightarrow> n \<le> length input \<Longrightarrow> n \<le> length result \<Longrightarrow>
    crypt_loop f h (Some input) (Some result) pos n =
      Some (Some (take pos result @ concat (cipher_blocks f h (chunks m (drop pos input))) @ drop n result))"
proof (induction m arbitrary: h pos result)
  case 0
  then show ?case by (subst crypt_loop.simps) simp
next
  case (Suc m)
  let ?b = "take 16 (drop pos input)"
  obtain c h' where c: "f h ?b = (c, h')" by fastforce
  have "length ?b = 16" using Suc.prems(1,2) by simp
  then have lc: "length c = 16" using assms c by (metis fst_conv)
  let ?r = "take pos result @ c @ drop (pos + 16) result"
  have w: "mem_write (Some result) pos c = Some (Some ?r)" using Suc.prems lc by (simp add: mem_write_Some)
  have r: "mem_read (Some input) pos 16 = Some ?b" using Suc.prems by (simp add: mem_read_Some)
  have "crypt_loop f h' (Some input) (Some ?r) (pos + 16) n =
      Some (Some (take (pos + 16) ?r @ concat (cipher_blocks f h' (chunks m (drop (pos + 16) input))) @ drop n ?r))"
    by (rule Suc.IH) (use Suc.prems lc in simp_all)
  moreover have "take (pos + 16) ?r = take pos result @ c" "drop n ?r = drop n result" using Suc.prems lc by simp_all
  moreover have "pos < n" using Suc.prems(1) by simp
  ultimately show ?case using c w r by (subst crypt_loop.simps) (simp add: Let_def add.commute)
qed

section \<open>The default class\<close>

text \<open>The parts: libgcrypt, the allocators, and the value of a variable that is not set.\<close>

type_synonym 'h parts = "'h gcrypt \<times> realloc_fn \<times> nat"

definition parts_class :: "'h parts \<Rightarrow> exchange_default exchange_class" where
  "parts_class g = (case g of (G, R, uninit) \<Rightarrow> default_class G R uninit)"

definition parts_memory :: "'h parts \<Rightarrow> realloc_fn" where
  "parts_memory g = fst (snd g)"

definition parts_ok :: "'h parts \<Rightarrow> bool" where
  "parts_ok g \<longleftrightarrow> gcrypt_law (fst g) \<and> realloc_law (parts_memory g) \<and> (\<forall>al p n. n < object_limit \<longrightarrow> parts_memory g al p n \<noteq> None)"

definition group_prime :: nat where
  "group_prime = mpi_value dh_group_1536_prime"

definition default_proper :: "'h parts \<Rightarrow> exchange_default \<Rightarrow> bool" where
  "default_proper g s \<longleftrightarrow> (\<forall>d. x_data s = Some d \<longrightarrow> x_prime d = group_prime \<and> x_base d = 2)"

definition default_holds :: "'h parts \<Rightarrow> exchange_default \<Rightarrow> nat \<Rightarrow> bool" where
  "default_holds g s x \<longleftrightarrow> (\<exists>d. x_data s = Some d \<and> x_priv d = Some x \<and> (\<forall>k. x_key d = Some k \<longrightarrow> length k = 16))"

definition default_public :: "'h parts \<Rightarrow> nat \<Rightarrow> bytes" where
  "default_public g x = gcry_mpi_print (fst g) (2 ^ x mod group_prime)"

definition transport_key :: "'h gcrypt \<Rightarrow> nat \<Rightarrow> bytes" where
  "transport_key G n = rfc_hkdf (gcry_md_hmac G (gcry_md_map_name G ''sha256'')) 32 (gcry_mpi_print G n) None [] 16"

definition default_agreed :: "'h parts \<Rightarrow> nat \<Rightarrow> nat \<Rightarrow> bytes" where
  "default_agreed g x y = transport_key (fst g) ((2 ^ y mod group_prime) ^ x mod group_prime)"

definition default_keyed :: "'h parts \<Rightarrow> exchange_default \<Rightarrow> bytes \<Rightarrow> bool" where
  "default_keyed g s k \<longleftrightarrow> Option.bind (x_data s) x_key = Some k \<and> length k = 16"

definition default_sealed :: "'h parts \<Rightarrow> bytes \<Rightarrow> bytes \<Rightarrow> bytes \<Rightarrow> bytes \<Rightarrow> bool" where
  "default_sealed g k iv c s \<longleftrightarrow> (\<exists>h m p. length iv = 16 \<and> gcry_cipher_start (fst g) k iv = Some h \<and> length p = 16 * m \<and> 0 < m \<and> 16 * m \<le> length s + 16 \<and>
     c = concat (cipher_blocks (gcry_cipher_encrypt (fst g)) h (chunks m p)) \<and>
     (\<forall>al. egg_padding_pkcs7_unpad (parts_memory g) al 16 p True = Some (Some (length s, Some (s @ [0])))))"

lemma group_prime_bits: "2 ^ 1535 \<le> group_prime" "group_prime < 2 ^ 1536" "odd group_prime"
  using prime_bytes_value [OF dh_group_prime_bytes(3)] unfolding group_prime_def by simp_all

lemma group_prime_pos: "1 < group_prime"
proof -
  have "(2 :: nat) ^ 1 \<le> 2 ^ 1535" by (rule power_increasing) simp_all
  then have "2 ^ 1 \<le> group_prime" using group_prime_bits(1) by (rule order_trans)
  then show ?thesis by simp
qed

lemma group_params: "mpi_law G \<Longrightarrow> egg_dh_default_params G EXCHANGE_1_IKE_NAME = Some (group_prime, 2) \<and> gcry_mpi_get_nbits G group_prime = 1536"
proof -
  assume law: "mpi_law G"
  have n: "gcry_mpi_get_nbits G group_prime = 1536"
    using nbits_unique [OF law, of 1535 group_prime] group_prime_bits by simp
  have f: "find_group EXCHANGE_1_IKE_NAME dh_groups = Some \<lparr>g_name = ''ietf-ike-grp-modp-1536'', g_bits = 1536, g_prime = dh_group_1536_prime, g_base = [2]\<rparr>"
    by (simp add: dh_groups_def EXCHANGE_1_IKE_NAME_def)
  have "mpi_value [2] = 2" by (simp add: mpi_value_def)
  then show ?thesis using n f mpi_lawD(1) [OF law] by (simp add: egg_dh_default_params_def group_prime_def)
qed

lemma parts_okD:
  assumes "parts_ok (G, R, uninit)"
  shows "mpi_law G" "md_law G" "cipher_law G" "realloc_law R" "alloc_total R" "n < object_limit \<Longrightarrow> R al p n \<noteq> None"
  using assms unfolding parts_ok_def gcrypt_law_def parts_memory_def alloc_total_def by auto

lemma default_generates:
  assumes "parts_ok g" "default_proper g s"
  shows "\<exists>x s'. generate_exchange_key (parts_class g) s = Some (Some (default_public g x), s') \<and> default_proper g s' \<and> default_holds g s' x"
proof -
  obtain G R u where g: "g = (G, R, u)" by (cases g) auto
  note law = parts_okD [OF assms(1) [unfolded g]]
  note params = group_params [OF law(1)]
  obtain d where d: "(case x_data s of None \<Rightarrow> map_option (\<lambda>(p, b). \<lparr>x_prime = p, x_base = b, x_pub = None, x_priv = None, x_key = None\<rparr>)
        (egg_dh_default_params G EXCHANGE_1_IKE_NAME) | Some d \<Rightarrow> Some d) = Some d" "x_prime d = group_prime" "x_base d = 2"
    using assms(2) params unfolding default_proper_def by (cases "x_data s") auto
  obtain x k' where p: "egg_dh_gen_pair G group_prime 2 0 (x_requests s) = Some (Some (2 ^ x mod group_prime, x), k')"
    using gen_pair_ok [OF law(1), of group_prime 0 2 "x_requests s"] params by auto
  have "gcry_mpi_print G (2 ^ x mod group_prime) \<noteq> []"
    by (rule mpi_print_not_Nil [OF law(1) odd_power_mod [OF group_prime_bits(3) group_prime_pos]])
  then have "generate_exchange_key (parts_class g) s = Some (Some (default_public g x),
      \<lparr>x_data = Some (d\<lparr>x_priv := None, x_pub := None, x_key := None, x_pub := Some (2 ^ x mod group_prime), x_priv := Some x\<rparr>), x_requests = k'\<rparr>)"
    using d p by (simp add: g parts_class_def default_class_def default_generate_exchange_key_def mpi_to_data_def default_public_def)
  then show ?thesis using d(2,3) by (auto simp: default_proper_def default_holds_def)
qed

lemma default_derives:
  assumes "parts_ok g" "default_proper g s" "default_holds g s x"
  shows "\<exists>s'. derive_transport_key (parts_class g) s (default_public g y) = Some (True, s') \<and> default_proper g s' \<and> default_holds g s' x \<and>
    default_keyed g s' (default_agreed g x y)"
proof -
  obtain G R u where g: "g = (G, R, u)" by (cases g) auto
  note law = parts_okD [OF assms(1) [unfolded g]]
  obtain d where d: "x_data s = Some d" "x_priv d = Some x" "\<forall>k. x_key d = Some k \<longrightarrow> length k = 16" "x_prime d = group_prime"
    using assms(2,3) unfolding default_proper_def default_holds_def by blast
  let ?n = "(2 ^ y mod group_prime) ^ x mod group_prime" and ?key = "if x_key d = None then secure_alloc R 16 else x_key d"
  have n: "0 < ?n" using odd_power_mod [OF group_prime_bits(3) group_prime_pos, of "y * x"] by (simp add: power_mod power_mult)
  have "?n < group_prime" using group_prime_pos by simp
  also have "group_prime < 2 ^ 1536" by (rule group_prime_bits(2))
  also have "(2 :: nat) ^ 1536 = 256 ^ 192" by simp
  finally have "length (gcry_mpi_print G ?n) \<le> 192" by (rule mpi_lawD(9) [OF law(1)])
  then have "length (gcry_mpi_print G ?n) < object_limit" by (simp add: object_limit_def)
  note ikm = gen_secret_ok [OF law(1) group_prime_pos n law(4,5) this]
  obtain m where m: "?key = Some m" "length m = 16"
  proof (cases "x_key d")
    case None
    have "R secure None 16 \<noteq> None" by (rule law(6)) (simp add: object_limit_def)
    then obtain m where m: "R secure None 16 = Some m" by blast
    then have "?key = Some m" using None by (simp add: secure_alloc_def fresh_def)
    then show ?thesis using that realloc_lawD(1) [OF law(4) m] by blast
  qed (use d(3) that in simp)
  have kd: "egg_hkdf_perform G ''sha256'' (gcry_mpi_print G ?n) None [] (Some m) 16 = Some (Some (Some (transport_key G ?n)))"
    using hkdf_perform_rfc [OF law(2) refl md_lawD(2) [OF law(2)] refl, where n = 16 and out = m] m(2)
      md_lawD(3) [OF law(2)] by (simp add: transport_key_def)
  have len: "length (transport_key G ?n) = 16"
    unfolding transport_key_def by (rule length_rfc_hkdf) (use md_lawD(1,3) [OF law(2)] in simp_all)
  have "derive_transport_key (parts_class g) s (default_public g y) = Some (True, s\<lparr>x_data := Some (d\<lparr>x_key := Some (transport_key G ?n)\<rparr>)\<rparr>)"
    using d ikm kd m(1) mpi_lawD(1,2) [OF law(1)]
    by (simp add: g parts_class_def default_class_def default_derive_transport_key_def default_public_def Let_def)
  then show ?thesis using d len assms(2) by (auto simp: g default_proper_def default_holds_def default_keyed_def default_agreed_def)
qed

lemma default_agreed_sym: "default_agreed g x y = default_agreed g y x"
  unfolding default_agreed_def by (simp only: shared_number [of 2 y group_prime x])

lemma default_encrypts:
  assumes "parts_ok g" "default_proper g s" "default_keyed g s k" "length plain + 16 < object_limit"
  shows "\<exists>iv c s'. encrypt_transport_data (parts_class g) s StdRealloc plain = Some (Some (iv, c), s') \<and> default_proper g s' \<and>
    default_keyed g s' k \<and> default_sealed g k iv c plain"
proof -
  obtain G R u where g: "g = (G, R, u)" by (cases g) auto
  note law = parts_okD [OF assms(1) [unfolded g]]
  let ?iv = "gcry_create_nonce G (x_requests s) 16"
  have key: "Option.bind (x_data s) x_key = Some k" "length k = 16" using assms(3) unfolding default_keyed_def by simp_all
  have "R StdRealloc None 16 \<noteq> None" by (rule law(6)) (simp add: object_limit_def)
  then obtain v where v: "fresh R StdRealloc 16 = Some v" "length v = 16" using realloc_lawD(1) [OF law(4)] by (auto simp: fresh_def)
  have iv: "length ?iv = 16" by (rule cipher_lawD(5) [OF law(3)])
  then have w: "mem_write (Some v) 0 ?iv = Some (Some ?iv)" using v(2) by (simp add: mem_write_Some)
  obtain h where h: "gcry_cipher_start G k ?iv = Some h" using cipher_lawD(1) [OF law(3) key(2) iv] by blast
  obtain n p where p: "egg_padding_pkcs7_pad R (Some secure) 16 plain True = Some (Some (n, Some p))" "length p = n" "n mod 16 = 0"
      "length plain < n" "n \<le> length plain + 16" "\<forall>al. egg_padding_pkcs7_unpad R al 16 p True = Some (Some (length plain, Some (plain @ [0])))"
    using pkcs7_padded [OF law(4,5), of 16 plain "Some secure"] assms(4) by auto
  obtain m where m: "n = 16 * m" using p(3) by (auto simp: mod_eq_0_iff_dvd dvd_def)
  have "n < object_limit" using p(5) assms(4) by simp
  then have "R StdRealloc None n \<noteq> None" by (rule law(6))
  then obtain r where r: "fresh R StdRealloc n = Some r" "length r = n"
    using p(4) realloc_lawD(1) [OF law(4)] by (auto simp: fresh_def)
  let ?c = "concat (cipher_blocks (gcry_cipher_encrypt G) h (chunks m p))"
  have b: "\<forall>h b. length b = 16 \<longrightarrow> length (fst (gcry_cipher_encrypt G h b)) = 16" using cipher_lawD(2) [OF law(3)] by blast
  have "crypt_loop (gcry_cipher_encrypt G) h (Some p) (Some r) 0 n = Some (Some ?c)"
    using crypt_loop_blocks [OF b, of 0 m n p r h] p(2) r(2) m by simp
  then have "encrypt_transport_data (parts_class g) s StdRealloc plain = Some (Some (?iv, ?c), s\<lparr>x_requests := x_requests s + 1\<rparr>)"
    using key v w h p(1) r(1) cipher_lawD(6) [OF law(3)]
    by (simp add: g parts_class_def default_class_def default_encrypt_transport_data_def)
  moreover have "0 < m" using p(4) m by (cases m) simp_all
  then have "default_sealed g k ?iv ?c plain"
    using iv h p(2,5,6) m unfolding g default_sealed_def parts_memory_def by auto
  ultimately show ?thesis using assms(2,3) by (auto simp: default_proper_def default_keyed_def)
qed

lemma default_decrypts:
  assumes "parts_ok g" "default_proper g s" "default_keyed g s k" "default_sealed g k iv c plain" "length plain + 16 < object_limit"
  shows "\<exists>s' m. decrypt_transport_data (parts_class g) s secure c (Some iv) = Some (Some (Some m, length plain), s') \<and> default_proper g s' \<and>
    default_keyed g s' k \<and> length plain < length m \<and> take (length plain) m = plain"
proof -
  obtain G R u where g: "g = (G, R, u)" by (cases g) auto
  note law = parts_okD [OF assms(1) [unfolded g]]
  have key: "Option.bind (x_data s) x_key = Some k" "length k = 16" using assms(3) unfolding default_keyed_def by simp_all
  obtain h m p where p: "length iv = 16" "gcry_cipher_start G k iv = Some h" "length p = 16 * m" "0 < m" "16 * m \<le> length plain + 16"
      "c = concat (cipher_blocks (gcry_cipher_encrypt G) h (chunks m p))"
      "\<forall>al. egg_padding_pkcs7_unpad R al 16 p True = Some (Some (length plain, Some (plain @ [0])))"
    using assms(4) unfolding g default_sealed_def parts_memory_def by auto
  let ?cs = "cipher_blocks (gcry_cipher_encrypt G) h (chunks m p)"
  have ch: "\<forall>b \<in> set (chunks m p). length b = 16" using chunks_length [of m p] p(3) by auto
  have e: "\<forall>h b. length b = 16 \<longrightarrow> length (fst (gcry_cipher_encrypt G h b)) = 16" using cipher_lawD(2) [OF law(3)] by blast
  have d: "\<forall>h b. length b = 16 \<longrightarrow> length (fst (gcry_cipher_decrypt G h b)) = 16" using cipher_lawD(3) [OF law(3)] by blast
  note cs = cipher_blocks_length [OF e ch, of h]
  then have lc: "length c = 16 * m" using length_concat_blocks [of ?cs] p(6) by simp
  have "length c < object_limit" using lc p(5) assms(5) by simp
  then have "R secure None (length c) \<noteq> None" by (rule law(6))
  then obtain r where r: "fresh R secure (length c) = Some r" "length r = length c"
    using p(4) lc realloc_lawD(1) [OF law(4)] by (auto simp: fresh_def)
  have cc: "chunks m c = ?cs" using chunks_concat [of ?cs "[]"] cs p(6) by simp
  have back_p: "concat (cipher_blocks (gcry_cipher_decrypt G) h (chunks m c)) = p"
    unfolding cc cipher_lawD(4) [OF law(3) p(2) ch] concat_chunks using p(3) by simp
  have "crypt_loop (gcry_cipher_decrypt G) h (Some c) (Some r) 0 (length c) = Some (Some p)"
    using crypt_loop_blocks [OF d, of 0 m "length c" c r h] r(2) lc back_p by simp
  then have "decrypt_transport_data (parts_class g) s secure c (Some iv) = Some (Some (Some (plain @ [0]), length plain), s)"
    using key p(1,2,7) r(1) lc cipher_lawD(6) [OF law(3)]
    by (simp add: g parts_class_def default_class_def default_decrypt_transport_data_def)
  then show ?thesis using assms(2,3) by simp
qed

interpretation dx: exchange_laws parts_class parts_memory parts_ok default_proper default_holds default_public default_agreed default_keyed default_sealed
proof
  fix g :: "'h parts" and d x y k s iv c
  show "parts_ok g \<Longrightarrow> realloc_law (parts_memory g) \<and> (\<forall>al p n. n < object_limit \<longrightarrow> parts_memory g al p n \<noteq> None)"
    unfolding parts_ok_def by blast
  show "default_agreed g x y = default_agreed g y x" by (rule default_agreed_sym)
qed (fact default_generates default_derives default_encrypts default_decrypts)+

end
