(* ===== verification/ExchangeProtocol.thy ===== *)
theory ExchangeProtocol
  imports ExchangeClass
begin

text \<open>
  The exchange between two objects, for any class that keeps the contract: after the greeting every secret that
  one side sends arrives at the other side.
\<close>

section \<open>The steps of a conversation\<close>

text \<open>The first side begins, and the second one receives its greeting.\<close>

definition greet :: "'d exchange_class \<Rightarrow> glib \<Rightarrow> realloc_fn \<Rightarrow> 'd exchange \<Rightarrow> 'd exchange \<Rightarrow> ('d exchange \<times> 'd exchange) option" where
  "greet klass L R a b = do {
     (m, a) \<leftarrow> gcr_secret_exchange_begin klass L a;
     m \<leftarrow> m;
     (ret, b) \<leftarrow> gcr_secret_exchange_receive klass L R b m;
     c_assert ret;
     Some (a, b) }"

text \<open>One side sends a secret, the other one receives the message and returns the secret that it holds then.\<close>

definition deliver :: "'d exchange_class \<Rightarrow> glib \<Rightarrow> realloc_fn \<Rightarrow> 'd exchange \<Rightarrow> 'd exchange \<Rightarrow> bytes \<Rightarrow> (bytes \<times> 'd exchange \<times> 'd exchange) option" where
  "deliver klass L R from to s = do {
     (m, from) \<leftarrow> gcr_secret_exchange_send klass L from (Some s) (int (length s));
     m \<leftarrow> m;
     (ret, to) \<leftarrow> gcr_secret_exchange_receive klass L R to m;
     c_assert ret;
     (mem, n) \<leftarrow> Some (gcr_secret_exchange_get_secret to);
     mem \<leftarrow> mem;
     c_assert (n < length mem \<and> mem ! n = 0);
     Some (take n mem, from, to) }"

text \<open>Secrets in both directions, those to the first side with \<open>True\<close>, and what was received.\<close>

fun talk :: "'d exchange_class \<Rightarrow> glib \<Rightarrow> realloc_fn \<Rightarrow> 'd exchange \<Rightarrow> 'd exchange \<Rightarrow> (bool \<times> bytes) list \<Rightarrow> bytes list option" where
  "talk klass L R a b [] = Some []"
| "talk klass L R a b ((True, s) # ts) = do {
     (s, b, a) \<leftarrow> deliver klass L R b a s;
     ss \<leftarrow> talk klass L R a b ts;
     Some (s # ss) }"
| "talk klass L R a b ((False, s) # ts) = do {
     (s, a, b) \<leftarrow> deliver klass L R a b s;
     ss \<leftarrow> talk klass L R a b ts;
     Some (s # ss) }"

section \<open>Messages\<close>

lemma glib_lawD:
  assumes "glib_law L"
  shows "g_base64_decode L (g_base64_encode L d) = d"
    "our_values L kf \<Longrightarrow> \<exists>kf'. g_key_file_load_from_data L (g_strchug L (g_key_file_to_data L kf)) = Some kf' \<and> map_of kf' = map_of kf"
  using assms unfolding glib_law_def by blast+

lemma our_values_set:
  assumes "our_values L kf \<or> kf = []" "f \<in> {''public'', ''secret'', ''iv''}"
  shows "our_values L (key_file_set_base64 L kf PROTOCOL_1 f d)"
proof -
  have "set (AList.update (PROTOCOL_1, f) (g_base64_encode L d) kf) \<subseteq> insert ((PROTOCOL_1, f), g_base64_encode L d) (set kf)"
    by (induction kf) auto
  moreover have "distinct (map fst (AList.update (PROTOCOL_1, f) (g_base64_encode L d) kf))"
    using assms(1) by (intro distinct_update) (auto simp: our_values_def)
  moreover have "AList.update (PROTOCOL_1, f) (g_base64_encode L d) kf \<noteq> []" by (cases kf) auto
  ultimately show ?thesis using assms unfolding our_values_def key_file_set_base64_def by fastforce
qed

lemma set_base64_get [simp]:
  "map_of (key_file_set_base64 L kf s f d) k = (if k = (s, f) then Some (g_base64_encode L d) else map_of kf k)"
  by (simp add: key_file_set_base64_def update_conv')

text \<open>The greeting has a public value only; a message has a public value, a cipher text and a vector.\<close>

lemma greeting_read:
  assumes "glib_law L"
  obtains kf where "g_key_file_load_from_data L (g_strchug L (g_key_file_to_data L (key_file_set_base64 L [] PROTOCOL_1 ''public'' p))) = Some kf"
    "key_file_get_base64 L kf PROTOCOL_1 ''public'' = Some p" "map_of kf (PROTOCOL_1, ''secret'') = None"
proof -
  obtain kf where kf: "g_key_file_load_from_data L (g_strchug L (g_key_file_to_data L (key_file_set_base64 L [] PROTOCOL_1 ''public'' p))) = Some kf"
    "map_of kf = map_of (key_file_set_base64 L [] PROTOCOL_1 ''public'' p)"
    using glib_lawD(2) [OF assms our_values_set [of L "[]" "''public''" p]] by auto
  show ?thesis by (rule that [OF kf(1)]) (simp_all add: key_file_get_base64_def kf(2) glib_lawD(1) [OF assms])
qed

lemma message_read:
  assumes "glib_law L" "m = key_file_set_base64 L (key_file_set_base64 L (key_file_set_base64 L [] PROTOCOL_1 ''public'' p) PROTOCOL_1 ''secret'' c) PROTOCOL_1 ''iv'' iv"
  obtains kf where "g_key_file_load_from_data L (g_strchug L (g_key_file_to_data L m)) = Some kf"
    "key_file_get_base64 L kf PROTOCOL_1 ''public'' = Some p" "key_file_get_base64 L kf PROTOCOL_1 ''secret'' = Some c"
    "key_file_get_base64 L kf PROTOCOL_1 ''iv'' = Some iv" "map_of kf (PROTOCOL_1, ''secret'') \<noteq> None"
proof -
  have "our_values L m" unfolding assms(2) by (rule our_values_set, rule disjI1, rule our_values_set, rule disjI1, rule our_values_set) simp_all
  then obtain kf where kf: "g_key_file_load_from_data L (g_strchug L (g_key_file_to_data L m)) = Some kf" "map_of kf = map_of m"
    using glib_lawD(2) [OF assms(1)] by blast
  show ?thesis by (rule that [OF kf(1)]) (simp_all add: key_file_get_base64_def kf(2) assms(2) glib_lawD(1) [OF assms(1)])
qed

section \<open>Both sides\<close>

context exchange_laws begin

text \<open>A side that has sent out its public value for \<open>x\<close>, and one that has derived a key.\<close>

abbreviation waiting :: "'g \<Rightarrow> 'd exchange \<Rightarrow> 'x \<Rightarrow> bool" where
  "waiting g e x \<equiv> generated e \<and> \<not> derived e \<and> proper g (default_exchange e) \<and> holds g (default_exchange e) x \<and> publi e = Some (public g x)"

abbreviation talking :: "'g \<Rightarrow> 'd exchange \<Rightarrow> 'x \<Rightarrow> 'k \<Rightarrow> bool" where
  "talking g e x k \<equiv> generated e \<and> derived e \<and> proper g (default_exchange e) \<and> keyed g (default_exchange e) k \<and> publi e = Some (public g x)"

lemma begin_waits:
  assumes "ok g" "proper g (default_exchange e)"
  obtains x e' where "gcr_secret_exchange_begin (klass g) L e =
      Some (Some (g_strchug L (g_key_file_to_data L (key_file_set_base64 L [] PROTOCOL_1 ''public'' (public g x)))), e')" "waiting g e' x"
proof -
  obtain x d where d: "generate_exchange_key (klass g) (default_exchange e) = Some (Some (public g x), d)" "proper g d" "holds g d x"
    using generates [OF assms] by blast
  show ?thesis
    by (rule that [of x "(clear_secret_exchange e)\<lparr>default_exchange := d, publi := Some (public g x), generated := True\<rparr>"])
      (use d in \<open>simp_all add: gcr_secret_exchange_begin_def clear_secret_exchange_def\<close>)
qed

lemma generate_to_receive:
  assumes "ok g" "proper g (default_exchange e)" "\<not> generated e" "\<not> derived e"
  obtains x e' where "waiting g e' x"
    "\<forall>m. g_key_file_load_from_data L m \<noteq> None \<longrightarrow> gcr_secret_exchange_receive (klass g) L R e m = gcr_secret_exchange_receive (klass g) L R e' m"
proof -
  obtain x d where d: "generate_exchange_key (klass g) (default_exchange e) = Some (Some (public g x), d)" "proper g d" "holds g d x"
    using generates [OF assms(1,2)] by blast
  let ?e = "e\<lparr>default_exchange := d, publi := Some (public g x), generated := True\<rparr>"
  have "gcr_secret_exchange_receive (klass g) L R e m = gcr_secret_exchange_receive (klass g) L R ?e m" if "g_key_file_load_from_data L m \<noteq> None" for m
    using that d(1) assms(3) by (auto simp: gcr_secret_exchange_receive_def)
  then show ?thesis using that [of ?e x] d assms(4) by simp
qed

lemma receive_greeting:
  assumes "ok g" "glib_law L" "waiting g e x"
  obtains e' where "gcr_secret_exchange_receive (klass g) L R e
      (g_strchug L (g_key_file_to_data L (key_file_set_base64 L [] PROTOCOL_1 ''public'' (public g y)))) = Some (True, e')"
    "talking g e' x (agreed g x y)"
proof -
  obtain d where d: "derive_transport_key (klass g) (default_exchange e) (public g y) = Some (True, d)" "proper g d" "keyed g d (agreed g x y)"
    using derives [OF assms(1), of "default_exchange e" x y] assms(3) by blast
  obtain kf where kf: "g_key_file_load_from_data L (g_strchug L (g_key_file_to_data L (key_file_set_base64 L [] PROTOCOL_1 ''public'' (public g y)))) = Some kf"
    "key_file_get_base64 L kf PROTOCOL_1 ''public'' = Some (public g y)" "map_of kf (PROTOCOL_1, ''secret'') = None"
    by (rule greeting_read [OF assms(2)])
  show ?thesis
    by (rule that [of "e\<lparr>default_exchange := d, derived := True, secret := None, n_secret := 0\<rparr>"])
      (use d kf assms(3) in \<open>simp_all add: gcr_secret_exchange_receive_def derive_key_def\<close>)
qed

text \<open>What one side encrypts arrives, whether the receiver has derived its key before or does so now.\<close>

lemma delivers:
  assumes "ok g" "glib_law L" "talking g a y k" "length s + 16 < object_limit"
    "talking g b x k \<or> waiting g b x \<and> k = agreed g x y"
  obtains a' b' where "deliver (klass g) L (memory g) a b s = Some (s, a', b')" "talking g a' y k" "talking g b' x k"
proof -
  obtain iv c d where e: "encrypt_transport_data (klass g) (default_exchange a) StdRealloc s = Some (Some (iv, c), d)" "proper g d" "keyed g d k" "sealed g k iv c s"
    using encrypts [OF assms(1)] assms(3,4) by blast
  let ?kf = "key_file_set_base64 L (key_file_set_base64 L (key_file_set_base64 L [] PROTOCOL_1 ''public'' (public g y)) PROTOCOL_1 ''secret'' c) PROTOCOL_1 ''iv'' iv"
  let ?m = "g_strchug L (g_key_file_to_data L ?kf)" and ?a = "a\<lparr>default_exchange := d\<rparr>"
  have sent: "gcr_secret_exchange_send (klass g) L a (Some s) (int (length s)) = Some (Some ?m, ?a)"
    using e(1) assms(3) by (simp add: gcr_secret_exchange_send_def secret_bytes_def perform_encrypt_def)
  obtain kf where kf: "g_key_file_load_from_data L ?m = Some kf" "key_file_get_base64 L kf PROTOCOL_1 ''public'' = Some (public g y)"
    "key_file_get_base64 L kf PROTOCOL_1 ''secret'' = Some c" "key_file_get_base64 L kf PROTOCOL_1 ''iv'' = Some iv" "map_of kf (PROTOCOL_1, ''secret'') \<noteq> None"
    by (rule message_read [OF assms(2) refl])
  obtain f b1 where key: "(if derived b then Some (True, b) else derive_key (klass g) L b kf) = Some (True, b1)" "talking g b1 x k"
  proof (cases "derived b")
    case True
    then show ?thesis using that [of b] assms(5) by simp
  next
    case False
    then have w: "waiting g b x" "k = agreed g x y" using assms(5) by blast+
    obtain d' where "derive_transport_key (klass g) (default_exchange b) (public g y) = Some (True, d')" "proper g d'" "keyed g d' k"
      using derives [OF assms(1), of "default_exchange b" x y] w by blast
    then show ?thesis using that [of "b\<lparr>default_exchange := d', derived := True\<rparr>"] w False kf(2) by (simp add: derive_key_def)
  qed
  obtain d2 m where d: "decrypt_transport_data (klass g) (default_exchange b1) secure c (Some iv) = Some (Some (Some m, length s), d2)"
    "proper g d2" "keyed g d2 k" "length s < length m" "take (length s) m = s"
    using decrypts [OF assms(1) _ _ e(4) assms(4)] key(2) by blast
  note mem = memory_law [OF assms(1)]
  have "length s + 1 < object_limit" using assms(4) by simp
  then obtain m' where m': "memory g secure (Some m) (length s + 1) = Some m'" using mem by blast
  note r = realloc_lawD [OF conjunct1 [OF mem] m']
  have cut: "take (length s + 1) m' = take (length s + 1) m" using r(3) [OF refl] d(4) by (simp add: min_def)
  have "take (length s) (take (length s + 1) m') = take (length s) (take (length s + 1) m)" by (simp only: cut)
  then have t: "take (length s) m' = s" using d(5) by (simp add: min_def)
  have w: "mem_write (Some m') (length s) [0] = Some (Some (s @ [0]))" using r(1) t by (simp add: mem_write_Some)
  let ?b = "b1\<lparr>default_exchange := d2, secret := Some (s @ [0]), n_secret := length s\<rparr>"
  have "generated b" using assms(5) by blast
  then have "gcr_secret_exchange_receive (klass g) L (memory g) b ?m = Some (True, ?b)"
    using kf key(1) d(1) m' w by (simp add: gcr_secret_exchange_receive_def perform_decrypt_def)
  then have "deliver (klass g) L (memory g) a b s = Some (s, ?a, ?b)"
    using sent by (simp add: deliver_def gcr_secret_exchange_get_secret_def nth_append)
  then show ?thesis using that [of ?a ?b] e(2,3) d(2,3) assms(3) key(2) by simp
qed

lemma conversation_talks:
  assumes "ok g" "glib_law L"
  shows "\<forall>t \<in> set ts. length (snd t) + 16 < object_limit \<Longrightarrow> talking g a x k \<Longrightarrow> talking g b y k \<Longrightarrow>
    talk (klass g) L (memory g) a b ts = Some (map snd ts)"
proof (induction ts arbitrary: a b)
  case (Cons t ts)
  obtain to_a s where t: "t = (to_a, s)" by fastforce
  have s: "length s + 16 < object_limit" "\<forall>t \<in> set ts. length (snd t) + 16 < object_limit" using Cons.prems(1) t by simp_all
  show ?case
  proof (cases to_a)
    case True
    obtain b' a' where d: "deliver (klass g) L (memory g) b a s = Some (s, b', a')" "talking g b' y k" "talking g a' x k"
      by (rule delivers [OF assms Cons.prems(3) s(1), of a x]) (use Cons.prems(2) in blast)+
    show ?thesis using Cons.IH [OF s(2) d(3,2)] d(1) t True by simp
  next
    case False
    obtain a' b' where d: "deliver (klass g) L (memory g) a b s = Some (s, a', b')" "talking g a' x k" "talking g b' y k"
      by (rule delivers [OF assms Cons.prems(2) s(1), of b y]) (use Cons.prems(3) in blast)+
    show ?thesis using Cons.IH [OF s(2) d(2,3)] d(1) t False by simp
  qed
qed simp

lemma greeting_and_secrets:
  assumes "ok g" "glib_law L" "proper g (default_exchange a)" "proper g (default_exchange b)" "\<not> generated b" "\<not> derived b"
    "\<forall>t \<in> set ((True, s) # ts). length (snd t) + 16 < object_limit"
  shows "\<exists>a' b'. greet (klass g) L (memory g) a b = Some (a', b') \<and> talk (klass g) L (memory g) a' b' ((True, s) # ts) = Some (s # map snd ts)"
proof -
  obtain x a' where a: "gcr_secret_exchange_begin (klass g) L a =
      Some (Some (g_strchug L (g_key_file_to_data L (key_file_set_base64 L [] PROTOCOL_1 ''public'' (public g x)))), a')" "waiting g a' x"
    by (rule begin_waits [OF assms(1,3)])
  let ?m = "g_strchug L (g_key_file_to_data L (key_file_set_base64 L [] PROTOCOL_1 ''public'' (public g x)))"
  obtain y b1 where b1: "waiting g b1 y"
      "\<forall>m. g_key_file_load_from_data L m \<noteq> None \<longrightarrow> gcr_secret_exchange_receive (klass g) L (memory g) b m = gcr_secret_exchange_receive (klass g) L (memory g) b1 m"
    by (rule generate_to_receive [OF assms(1,4-6), where L = L and R = "memory g"])
  obtain b2 where b2: "gcr_secret_exchange_receive (klass g) L (memory g) b1 ?m = Some (True, b2)" "talking g b2 y (agreed g y x)"
    by (rule receive_greeting [OF assms(1,2) b1(1)])
  obtain kf where "g_key_file_load_from_data L ?m = Some kf" by (rule greeting_read [OF assms(2)])
  then have "gcr_secret_exchange_receive (klass g) L (memory g) b ?m = Some (True, b2)" using b1(2) b2(1) by simp
  then have g: "greet (klass g) L (memory g) a b = Some (a', b2)" using a(1) by (simp add: greet_def)
  have s: "length s + 16 < object_limit" "\<forall>t \<in> set ts. length (snd t) + 16 < object_limit" using assms(7) by simp_all
  obtain b3 a3 where d: "deliver (klass g) L (memory g) b2 a' s = Some (s, b3, a3)" "talking g b3 y (agreed g y x)" "talking g a3 x (agreed g y x)"
    by (rule delivers [OF assms(1,2) b2(2) s(1), of a' x]) (use a(2) agreed_sym [OF assms(1)] in blast)+
  show ?thesis using g d(1) conversation_talks [OF assms(1,2) s(2) d(3,2)] by auto
qed

end

end
