(* ===== verification/ExchangeSafety.thy ===== *)
theory ExchangeSafety
  imports ExchangeProtocol
begin

text \<open>
  The default class under arbitrary calls: whatever texts arrive, nothing undefined happens, and the object keeps its
  invariant.
\<close>

section \<open>Calls\<close>

datatype exchange_call = Begin | Receive bytes | Send "bytes option" int

fun perform_call :: "'d exchange_class \<Rightarrow> glib \<Rightarrow> realloc_fn \<Rightarrow> 'd exchange \<Rightarrow> exchange_call \<Rightarrow> 'd exchange option" where
  "perform_call klass L R e Begin = map_option snd (gcr_secret_exchange_begin klass L e)"
| "perform_call klass L R e (Receive m) = map_option snd (gcr_secret_exchange_receive klass L R e m)"
| "perform_call klass L R e (Send s n) = map_option snd (gcr_secret_exchange_send klass L e s n)"

fun perform_calls :: "'d exchange_class \<Rightarrow> glib \<Rightarrow> realloc_fn \<Rightarrow> 'd exchange \<Rightarrow> exchange_call list \<Rightarrow> 'd exchange option" where
  "perform_calls klass L R e [] = Some e"
| "perform_calls klass L R e (c # cs) = Option.bind (perform_call klass L R e c) (\<lambda>e. perform_calls klass L R e cs)"

text \<open>The values in a text that arrives fit into memory; a secret is readable up to its length, and fits, too.\<close>

fun call_ok :: "glib \<Rightarrow> exchange_call \<Rightarrow> bool" where
  "call_ok L Begin = True"
| "call_ok L (Receive m) = (\<forall>kf. g_key_file_load_from_data L m = Some kf \<longrightarrow> (\<forall>(k, v) \<in> set kf. length (g_base64_decode L v) < object_limit))"
| "call_ok L (Send s n) = (\<forall>m. s = Some m \<longrightarrow> (case secret_bytes m n of None \<Rightarrow> False | Some b \<Rightarrow> length b + 16 < object_limit))"

definition data_ok :: "exchange_default \<Rightarrow> bool" where
  "data_ok s \<longleftrightarrow> (\<forall>d k. x_data s = Some d \<longrightarrow> x_key d = Some k \<longrightarrow> length k = 16)"

definition has_key :: "exchange_default \<Rightarrow> bool" where
  "has_key s \<longleftrightarrow> Option.bind (x_data s) x_key \<noteq> None"

definition secret_ok :: "'d exchange \<Rightarrow> bool" where
  "secret_ok e \<longleftrightarrow> (\<forall>m. secret e = Some m \<longrightarrow> n_secret e < length m \<and> m ! n_secret e = 0)"

definition exchange_inv :: "'h parts \<Rightarrow> exchange_default exchange \<Rightarrow> bool" where
  "exchange_inv g e \<longleftrightarrow> default_proper g (default_exchange e) \<and> data_ok (default_exchange e) \<and>
     (derived e \<longrightarrow> generated e \<and> has_key (default_exchange e)) \<and> secret_ok e"

section \<open>The methods of the default class\<close>

lemma generate_data_ok: "generate_exchange_key (parts_class g) s = Some (r, s') \<Longrightarrow> data_ok s \<Longrightarrow> data_ok s'"
  by (auto simp: parts_class_def default_class_def default_generate_exchange_key_def data_ok_def Let_def bind_eq_Some_conv
      split: prod.splits option.splits)

lemma hkdf_key:
  assumes "md_law G" "length m = 16"
  shows "egg_hkdf_perform G ''sha256'' ikm None [] (Some m) 16 =
    Some (Some (Some (rfc_hkdf (gcry_md_hmac G (gcry_md_map_name G ''sha256'')) 32 ikm None [] 16)))"
    "length (rfc_hkdf (gcry_md_hmac G (gcry_md_map_name G ''sha256'')) 32 ikm None [] 16) = 16"
proof -
  show "egg_hkdf_perform G ''sha256'' ikm None [] (Some m) 16 =
    Some (Some (Some (rfc_hkdf (gcry_md_hmac G (gcry_md_map_name G ''sha256'')) 32 ikm None [] 16)))"
    using hkdf_perform_rfc [OF assms(1) refl md_lawD(2) [OF assms(1)] refl, where n = 16 and out = m] assms(2) md_lawD(3) [OF assms(1)] by simp
  show "length (rfc_hkdf (gcry_md_hmac G (gcry_md_map_name G ''sha256'')) 32 ikm None [] 16) = 16"
    by (rule length_rfc_hkdf) (use md_lawD(1,3) [OF assms(1)] in simp_all)
qed

lemma gen_secret_returns:
  assumes "mpi_law G" "realloc_law R" "alloc_total R"
  shows "egg_dh_gen_secret G R peer priv group_prime \<noteq> None"
proof -
  let ?n = "peer ^ priv mod group_prime" and ?v = "gcry_mpi_print G (peer ^ priv mod group_prime)"
  have "?n < group_prime" using group_prime_pos by simp
  also have "group_prime < 2 ^ 1536" by (rule group_prime_bits(2))
  also have "(2 :: nat) ^ 1536 = 256 ^ 192" by simp
  finally have "length ?v \<le> 192" by (rule mpi_lawD(9) [OF assms(1)])
  then have l: "length ?v < object_limit" by (simp add: object_limit_def)
  show ?thesis
  proof (cases "?v = []")
    case True
    then show ?thesis by (simp add: egg_dh_gen_secret_def secure_alloc_def fresh_def mpi_lawD(3) [OF assms(1) group_prime_pos] Let_def mem_write_def)
  next
    case False
    then have "0 < ?n" using mpi_lawD(9) [OF assms(1), of ?n 0] by (cases "?n = 0") simp_all
    then show ?thesis using gen_secret_ok [OF assms(1) group_prime_pos _ assms(2,3) l] by simp
  qed
qed

lemma derive_returns:
  assumes "parts_ok g" "default_proper g s" "data_ok s"
  shows "\<exists>r s'. derive_transport_key (parts_class g) s peer = Some (r, s') \<and> default_proper g s' \<and> data_ok s' \<and> (r \<longrightarrow> has_key s')"
proof -
  obtain G R u where g: "g = (G, R, u)" by (cases g) auto
  note law = parts_okD [OF assms(1) [unfolded g]]
  have d: "derive_transport_key (parts_class g) s peer = default_derive_transport_key G R s peer" by (simp add: g parts_class_def default_class_def)
  consider "x_data s = None" | d where "x_data s = Some d" "x_priv d = None" | d priv where "x_data s = Some d" "x_priv d = Some priv" by fastforce
  then show ?thesis
  proof cases
    case (3 d priv)
    let ?ikm = "egg_dh_gen_secret G R (mpi_value peer) priv group_prime"
    have pr: "x_prime d = group_prime" using 3(1) assms(2) unfolding default_proper_def by blast
    obtain ikm where ikm: "?ikm = Some ikm" using gen_secret_returns [OF law(1,4,5)] by blast
    show ?thesis
    proof (cases ikm)
      case None
      then show ?thesis using 3 pr ikm assms(2,3) mpi_lawD(1) [OF law(1)] unfolding d by (auto simp: default_derive_transport_key_def)
    next
      case (Some b)
      obtain m where m: "(if x_key d = None then secure_alloc R 16 else x_key d) = Some m" "length m = 16"
      proof (cases "x_key d")
        case None
        have "R secure None 16 \<noteq> None" by (rule law(6)) (simp add: object_limit_def)
        then obtain m where m: "R secure None 16 = Some m" by blast
        then have "(if x_key d = None then secure_alloc R 16 else x_key d) = Some m" using None by (simp add: secure_alloc_def fresh_def)
        then show ?thesis using that realloc_lawD(1) [OF law(4) m] by blast
      next
        case (Some k)
        then show ?thesis using that assms(3) 3(1) unfolding data_ok_def by simp
      qed
      show ?thesis using 3 pr ikm Some m(1) hkdf_key [OF law(2) m(2), of b] assms(2) mpi_lawD(1) [OF law(1)]
        unfolding d by (auto simp: default_derive_transport_key_def Let_def default_proper_def data_ok_def has_key_def)
    qed
  qed (use assms(2,3) in \<open>auto simp: d default_derive_transport_key_def\<close>)
qed

lemma encrypt_returns:
  assumes "parts_ok g" "default_proper g s" "data_ok s" "has_key s" "length plain + 16 < object_limit"
  shows "\<exists>r s'. encrypt_transport_data (parts_class g) s StdRealloc plain = Some (r, s') \<and> default_proper g s' \<and> data_ok s' \<and> has_key s'"
proof -
  obtain k where k: "Option.bind (x_data s) x_key = Some k" using assms(4) unfolding has_key_def by blast
  then have "default_keyed g s k" using assms(3) unfolding default_keyed_def data_ok_def by (cases "x_data s") auto
  then obtain iv c s' where e: "encrypt_transport_data (parts_class g) s StdRealloc plain = Some (Some (iv, c), s')" "default_proper g s'" "default_keyed g s' k"
    using default_encrypts [OF assms(1,2) _ assms(5)] by blast
  then have "has_key s'" "data_ok s'" unfolding default_keyed_def has_key_def data_ok_def by auto
  then show ?thesis using e(1,2) by blast
qed

lemma pkcs7_unpad_returns:
  assumes "realloc_law R" "length padded < object_limit" "\<And>al n. n < object_limit \<Longrightarrow> R al None n \<noteq> None"
  shows "egg_padding_pkcs7_unpad R al block padded True = Some None \<or>
    (\<exists>n m. egg_padding_pkcs7_unpad R al block padded True = Some (Some (n, Some m)) \<and> length m = n + 1 \<and> n < length padded)"
proof (cases "padded = []")
  case False
  obtain c where c: "byte_at padded (length padded - 1) = Some c" using False by (simp add: byte_at_def)
  let ?n = "length padded - unat c"
  show ?thesis
  proof (cases "unat c = 0")
    case True
    then show ?thesis using c False by (simp add: egg_padding_pkcs7_unpad_def Let_def)
  next
    case nz: False
    have n: "?n < length padded" using nz False by (intro diff_less) simp_all
    then have lim: "?n + 1 < object_limit \<or> ?n + 1 = length padded" using assms(2) by linarith
    then have "?n + 1 < object_limit" using assms(2) by linarith
    then obtain m where m: "R (alloc_or_std al) None (?n + 1) = Some m" "length m = ?n + 1"
      using assms(3) realloc_lawD(1) [OF assms(1)] by blast
    have w: "mem_write (Some m) 0 (take ?n padded) = Some (Some (take ?n padded @ drop ?n m))"
      "mem_write (Some (take ?n padded @ drop ?n m)) ?n [0] = Some (Some (take ?n padded @ [0]))"
      using m(2) by (simp_all add: mem_write_Some)
    have e: "egg_padding_pkcs7_unpad R al block padded True = (if unat c = 0 \<or> unat c > 256 then Some None else if unat c > length padded then Some None
        else if block \<noteq> 0 \<and> unat c > block then Some None
        else if \<exists>b \<in> set (drop ?n padded). unat b \<noteq> unat c then Some None else Some (Some (?n, Some (take ?n padded @ [0]))))"
      unfolding egg_padding_pkcs7_unpad_def Let_def using False
      by (simp only: length_0_conv if_False c Option.bind.simps m(1) w option.case simp_thms if_True not_True_eq_False)
    then have "egg_padding_pkcs7_unpad R al block padded True = Some None \<or>
        egg_padding_pkcs7_unpad R al block padded True = Some (Some (?n, Some (take ?n padded @ [0])))" by argo
    moreover have "length (take ?n padded @ [0 :: byte]) = ?n + 1" by simp
    ultimately show ?thesis using n by blast
  qed
qed (simp add: egg_padding_pkcs7_unpad_def)

lemma decrypt_returns:
  assumes "parts_ok g" "data_ok s" "length c < object_limit"
  shows "\<exists>r. decrypt_transport_data (parts_class g) s secure c iv = Some (r, s) \<and>
    (\<forall>m n. r = Some (Some m, n) \<longrightarrow> length m = n + 1 \<and> n + 1 < object_limit)"
proof -
  obtain G R u where g: "g = (G, R, u)" by (cases g) auto
  note law = parts_okD [OF assms(1) [unfolded g]]
  have d: "decrypt_transport_data (parts_class g) s secure c iv = default_decrypt_transport_data G R u s secure c iv"
    by (simp add: g parts_class_def default_class_def)
  show ?thesis
  proof (cases "Option.bind (x_data s) x_key = None \<or> iv = None \<or> length (the iv) \<noteq> 16 \<or> length c mod 16 \<noteq> 0 \<or> c = []")
    case True
    then show ?thesis unfolding d by (auto simp: default_decrypt_transport_data_def fresh_def split: option.splits)
  next
    case False
    then obtain k v where k: "Option.bind (x_data s) x_key = Some k" "iv = Some v" "length v = 16" "length c mod 16 = 0" "c \<noteq> []" by auto
    have lk: "length k = 16" using k(1) assms(2) unfolding data_ok_def by (cases "x_data s") auto
    obtain h where h: "gcry_cipher_start G k v = Some h" using cipher_lawD(1) [OF law(3) lk k(3)] by blast
    have "R secure None (length c) \<noteq> None" by (rule law(6) [OF assms(3)])
    then obtain r where r: "fresh R secure (length c) = Some r" "length r = length c"
      using k(5) realloc_lawD(1) [OF law(4)] by (auto simp: fresh_def)
    obtain m where m: "length c = 16 * m" using k(4) by (auto simp: mod_eq_0_iff_dvd dvd_def)
    have b: "\<forall>h b. length b = 16 \<longrightarrow> length (fst (gcry_cipher_decrypt G h b)) = 16" using cipher_lawD(3) [OF law(3)] by blast
    let ?p = "concat (cipher_blocks (gcry_cipher_decrypt G) h (chunks m c))"
    have loop: "crypt_loop (gcry_cipher_decrypt G) h (Some c) (Some r) 0 (length c) = Some (Some ?p)"
      using crypt_loop_blocks [OF b, of 0 m "length c" c r h] r(2) m by simp
    have ch: "\<forall>x \<in> set (chunks m c). length x = 16" using chunks_length [of m c] m by auto
    note cb = cipher_blocks_length [OF b ch, of h]
    then have "length ?p = 16 * m" using length_concat_blocks [of "cipher_blocks (gcry_cipher_decrypt G) h (chunks m c)"] by simp
    then have lp: "length ?p < object_limit" using m assms(3) by simp
    have e: "default_decrypt_transport_data G R u s secure c iv =
        Option.bind (egg_padding_pkcs7_unpad R (Some secure) 16 ?p True) (\<lambda>r. Some (case r of None \<Rightarrow> Some (None, u) | Some (n, m) \<Rightarrow> Some (m, n), s))"
      using k h r(1) loop cipher_lawD(6) [OF law(3)] by (simp add: default_decrypt_transport_data_def)
    show ?thesis using pkcs7_unpad_returns [OF law(4) lp, of "Some secure" 16] law(6) lp unfolding d e by fastforce
  qed
qed

section \<open>The invariant\<close>

lemma begin_safe:
  assumes "parts_ok g" "exchange_inv g e"
  shows "\<exists>r e'. gcr_secret_exchange_begin (parts_class g) L e = Some (r, e') \<and> exchange_inv g e'"
proof -
  obtain x s where s: "generate_exchange_key (parts_class g) (default_exchange e) = Some (Some (default_public g x), s)" "default_proper g s"
    using default_generates [OF assms(1)] assms(2) unfolding exchange_inv_def by blast
  have "data_ok s" using generate_data_ok [OF s(1)] assms(2) unfolding exchange_inv_def by blast
  then show ?thesis using s by (simp add: gcr_secret_exchange_begin_def clear_secret_exchange_def exchange_inv_def secret_ok_def)
qed

lemma decrypt_safe:
  assumes "parts_ok g" "exchange_inv g e" "\<forall>(k, v) \<in> set kf. length (g_base64_decode L v) < object_limit"
  shows "\<exists>r e'. perform_decrypt (parts_class g) L (parts_memory g) e kf = Some (r, e') \<and> e' = e \<and>
    (\<forall>m n. r = Some (Some m, n) \<longrightarrow> n < length m \<and> m ! n = 0)"
proof (cases "key_file_get_base64 L kf PROTOCOL_1 ''secret''")
  case (Some c)
  then have "length c < object_limit" using assms(3) by (auto simp: key_file_get_base64_def dest: map_of_SomeD)
  then obtain r where r: "decrypt_transport_data (parts_class g) (default_exchange e) secure c (key_file_get_base64 L kf PROTOCOL_1 ''iv'') = Some (r, default_exchange e)"
    "\<forall>m n. r = Some (Some m, n) \<longrightarrow> length m = n + 1 \<and> n + 1 < object_limit"
    using decrypt_returns [OF assms(1)] assms(2) unfolding exchange_inv_def by blast
  consider "r = None" | n where "r = Some (None, n)" | m n where "r = Some (Some m, n)" by (metis option.exhaust surj_pair)
  then show ?thesis
  proof cases
    case (3 m n)
    have mem: "realloc_law (parts_memory g)" "n + 1 < object_limit" "parts_memory g secure (Some m) (n + 1) \<noteq> None"
      using assms(1) r(2) 3 unfolding parts_ok_def by blast+
    then obtain m' where m': "parts_memory g secure (Some m) (n + 1) = Some m'" by blast
    then have "length m' = n + 1" by (rule realloc_lawD(1) [OF mem(1)])
    then have "mem_write (Some m') n [0] = Some (Some (take n m' @ [0]))" "length (take n m') = n" by (simp_all add: mem_write_Some)
    then show ?thesis using 3 r(1) Some m' by (simp add: perform_decrypt_def nth_append)
  qed (use r(1) Some in \<open>simp_all add: perform_decrypt_def\<close>)
qed (simp add: perform_decrypt_def)

lemma receive_safe:
  assumes "parts_ok g" "exchange_inv g e" "call_ok L (Receive m)" "R = parts_memory g"
  shows "\<exists>r e'. gcr_secret_exchange_receive (parts_class g) L R e m = Some (r, e') \<and> exchange_inv g e' \<and>
    (\<not> r \<longrightarrow> secret e' = secret e \<and> n_secret e' = n_secret e)"
proof (cases "g_key_file_load_from_data L m")
  case None
  then show ?thesis using assms(2) by (auto simp: gcr_secret_exchange_receive_def)
next
  case (Some kf)
  obtain e1 where e1: "(if generated e then Some (True, e) else do {
       (pub, d) \<leftarrow> generate_exchange_key (parts_class g) (default_exchange e);
       let self = e\<lparr>default_exchange := d, publi := pub\<rparr>;
       Some (if pub = None then (False, self) else (True, self\<lparr>generated := True\<rparr>)) }) = Some (True, e1)"
    "exchange_inv g e1" "generated e1" "secret e1 = secret e" "n_secret e1 = n_secret e"
  proof (cases "generated e")
    case True
    then show ?thesis using that assms(2) by simp
  next
    case False
    obtain x s where s: "generate_exchange_key (parts_class g) (default_exchange e) = Some (Some (default_public g x), s)" "default_proper g s"
      using default_generates [OF assms(1)] assms(2) unfolding exchange_inv_def by blast
    have "data_ok s" using generate_data_ok [OF s(1)] assms(2) unfolding exchange_inv_def by blast
    then show ?thesis using that [of "e\<lparr>default_exchange := s, publi := Some (default_public g x), generated := True\<rparr>"] s assms(2) False
      by (auto simp: exchange_inv_def secret_ok_def)
  qed
  obtain ret e2 where e2: "(if derived e1 then Some (True, e1) else derive_key (parts_class g) L e1 kf) = Some (ret, e2)"
    "exchange_inv g e2" "secret e2 = secret e" "n_secret e2 = n_secret e"
  proof (cases "derived e1 \<or> key_file_get_base64 L kf PROTOCOL_1 ''public'' = None")
    case True
    then show ?thesis using that e1 by (cases "derived e1") (auto simp: derive_key_def)
  next
    case False
    then obtain p where p: "key_file_get_base64 L kf PROTOCOL_1 ''public'' = Some p" by blast
    obtain r s where "derive_transport_key (parts_class g) (default_exchange e1) p = Some (r, s)" "default_proper g s" "data_ok s" "r \<longrightarrow> has_key s"
      using derive_returns [OF assms(1)] e1(2) unfolding exchange_inv_def by blast
    then show ?thesis using that [of r "e1\<lparr>default_exchange := s, derived := r\<rparr>"] p e1 False
      by (simp add: derive_key_def exchange_inv_def secret_ok_def)
  qed
  have vals: "\<forall>(k, v) \<in> set kf. length (g_base64_decode L v) < object_limit" using assms(3) Some by simp
  obtain r where r: "perform_decrypt (parts_class g) L R e2 kf = Some (r, e2)" "\<forall>m n. r = Some (Some m, n) \<longrightarrow> n < length m \<and> m ! n = 0"
    using decrypt_safe [OF assms(1) e2(2) vals] assms(4) by blast
  have step: "gcr_secret_exchange_receive (parts_class g) L R e m =
      Some (if ret \<and> map_of kf (PROTOCOL_1, ''secret'') \<noteq> None then (case r of None \<Rightarrow> (False, e2) | Some (m, n) \<Rightarrow> (True, e2\<lparr>secret := m, n_secret := n\<rparr>))
        else if ret then (True, e2\<lparr>secret := None, n_secret := 0\<rparr>) else (False, e2))"
    unfolding gcr_secret_exchange_receive_def Some option.case e1(1) Option.bind.simps prod.case
    using e2(1) r(1) by (cases "map_of kf (PROTOCOL_1, ''secret'')") simp_all
  show ?thesis unfolding step using e2 r(2)
    by (auto simp: exchange_inv_def secret_ok_def split: option.splits)
qed

lemma send_safe:
  assumes "parts_ok g" "exchange_inv g e" "call_ok L (Send s n)"
  shows "\<exists>r e'. gcr_secret_exchange_send (parts_class g) L e s n = Some (r, e') \<and> exchange_inv g e'"
proof (cases "derived e \<and> s \<noteq> None")
  case True
  then obtain m b where s: "s = Some m" "secret_bytes m n = Some b" "length b + 16 < object_limit"
    using assms(3) by (auto split: option.splits)
  obtain r d where "encrypt_transport_data (parts_class g) (default_exchange e) StdRealloc b = Some (r, d)" "default_proper g d" "data_ok d" "has_key d"
    using encrypt_returns [OF assms(1) _ _ _ s(3)] assms(2) True unfolding exchange_inv_def by blast
  then show ?thesis using s True assms(2)
    by (cases r) (auto simp: gcr_secret_exchange_send_def perform_encrypt_def exchange_inv_def secret_ok_def Let_def)
qed (use assms(2) in \<open>auto simp: gcr_secret_exchange_send_def\<close>)

lemma call_safe:
  assumes "parts_ok g" "exchange_inv g e" "call_ok L c"
  obtains e' where "perform_call (parts_class g) L (parts_memory g) e c = Some e'" "exchange_inv g e'"
proof (cases c)
  case Begin
  then show ?thesis using begin_safe [OF assms(1,2), of L] that by auto
next
  case (Receive m)
  then show ?thesis using receive_safe [OF assms(1,2) _ refl, of L m] assms(3) that by auto
next
  case (Send s n)
  then show ?thesis using send_safe [OF assms(1,2), of L s n] assms(3) that by auto
qed

lemma calls_safe:
  assumes "parts_ok g"
  shows "exchange_inv g e \<Longrightarrow> \<forall>c \<in> set cs. call_ok L c \<Longrightarrow> \<exists>e'. perform_calls (parts_class g) L (parts_memory g) e cs = Some e' \<and> exchange_inv g e'"
proof (induction cs arbitrary: e)
  case (Cons c cs)
  obtain e1 where "perform_call (parts_class g) L (parts_memory g) e c = Some e1" "exchange_inv g e1"
    by (rule call_safe [OF assms Cons.prems(1), of L c]) (use Cons.prems(2) in simp)
  then show ?case using Cons.IH [of e1] Cons.prems(2) by simp
qed simp

lemma new_inv: "exchange_inv g (gcr_secret_exchange_new \<lparr>x_data = None, x_requests = j\<rparr> protocol)"
  by (simp add: exchange_inv_def gcr_secret_exchange_new_def default_proper_def data_ok_def secret_ok_def)

end
