(* ===== verification/ExchangeDemo.thy ===== *)
theory ExchangeDemo
  imports ExchangeProtocol
begin

text \<open>
  Concrete parameters that keep the laws, for the examples: big numbers that are real ones, and a checksum, a cipher and
  a key file format that are simple ones.
\<close>

section \<open>Big numbers\<close>

function demo_print :: "nat \<Rightarrow> bytes" where
  "demo_print n = (if n = 0 then [] else demo_print (n div 256) @ [word_of_nat (n mod 256)])"
  by pat_completeness auto
termination by (relation "measure id") auto

declare demo_print.simps [simp del]

function demo_nbits :: "nat \<Rightarrow> nat" where
  "demo_nbits n = (if n = 0 then 0 else Suc (demo_nbits (n div 2)))"
  by pat_completeness auto
termination by (relation "measure id") auto

declare demo_nbits.simps [simp del]

lemma demo_print_value: "mpi_value (demo_print n) = n"
proof (induction n rule: demo_print.induct)
  case (1 n)
  show ?case
  proof (cases "n = 0")
    case True
    then show ?thesis by (subst demo_print.simps) simp
  next
    case False
    have "unat (word_of_nat (n mod 256) :: byte) = n mod 256" by (simp add: unsigned_of_nat take_bit_nat_eq_self_iff)
    then show ?thesis using 1 False by (subst demo_print.simps) simp
  qed
qed

lemma demo_print_length: "n < 256 ^ k \<Longrightarrow> length (demo_print n) \<le> k"
proof (induction k arbitrary: n)
  case 0
  then show ?case by (subst demo_print.simps) simp
next
  case (Suc k)
  then have "n div 256 < 256 ^ k" by (simp add: div_less_iff_less_mult mult.commute)
  then show ?case using Suc.IH [of "n div 256"] by (subst demo_print.simps) simp
qed

lemma demo_nbits_bounds: "n < 2 ^ demo_nbits n" "0 < n \<Longrightarrow> 0 < demo_nbits n \<and> 2 ^ (demo_nbits n - 1) \<le> n"
proof (induction n rule: demo_nbits.induct)
  case (1 n)
  {
    case 1
    show ?case
    proof (cases "n = 0")
      case False
      then have "n div 2 < 2 ^ demo_nbits (n div 2)" using \<open>n \<noteq> 0 \<Longrightarrow> n div 2 < 2 ^ demo_nbits (n div 2)\<close> by blast
      then have "n < 2 * 2 ^ demo_nbits (n div 2)" by linarith
      then show ?thesis using False by (subst demo_nbits.simps) simp
    qed simp
  next
    case 2
    show ?case
    proof (cases "n div 2 = 0")
      case True
      then have "n = 1" using 2 by linarith
      then show ?thesis using demo_nbits.simps [of 1] demo_nbits.simps [of 0] by simp
    next
      case False
      then have p: "0 < demo_nbits (n div 2)" "2 ^ (demo_nbits (n div 2) - 1) \<le> n div 2"
        using \<open>n \<noteq> 0 \<Longrightarrow> 0 < n div 2 \<Longrightarrow> 0 < demo_nbits (n div 2) \<and> 2 ^ (demo_nbits (n div 2) - 1) \<le> n div 2\<close> 2 by simp_all
      have "2 ^ demo_nbits (n div 2) = 2 * (2 :: nat) ^ (demo_nbits (n div 2) - 1)" using p(1) by (simp add: power_eq_if)
      then have "2 ^ demo_nbits (n div 2) \<le> n" using p(2) by linarith
      then show ?thesis using 2 by (simp add: demo_nbits.simps [of n])
    qed
  }
qed

section \<open>Checksum and cipher\<close>

definition demo_hmac :: "nat \<Rightarrow> bytes \<Rightarrow> bytes \<Rightarrow> bytes" where
  "demo_hmac algo key msg = replicate 32 (foldl (+) 7 (key @ msg))"

definition demo_cipher :: "byte \<Rightarrow> bytes \<Rightarrow> bytes \<times> byte" where
  "demo_cipher h b = (map (\<lambda>x. x XOR h) b, h)"

definition demo_gcrypt :: "byte gcrypt" where
  "demo_gcrypt = \<lparr>gcry_mpi_scan = (\<lambda>bs. Some (mpi_value bs)), gcry_mpi_print = demo_print, gcry_mpi_powm = (\<lambda>b e m. b ^ e mod m),
     gcry_mpi_get_nbits = demo_nbits, gcry_mpi_clear_highbit = (\<lambda>n k. n mod 2 ^ k), gcry_mpi_randomize = (\<lambda>k bits. 3 * k + 5),
     gcry_create_nonce = (\<lambda>k n. replicate n (word_of_nat k)), gcry_md_map_name = (\<lambda>s. 8), gcry_md_get_algo_dlen = (\<lambda>a. 32),
     gcry_md_hmac = demo_hmac, gcry_malloc = (\<lambda>n. True), gcry_cipher_open = True,
     gcry_cipher_start = (\<lambda>key iv. if length key = 16 \<and> length iv = 16 then Some (hd key XOR hd iv) else None),
     gcry_cipher_encrypt = demo_cipher, gcry_cipher_decrypt = demo_cipher\<rparr>"

lemma demo_cipher_blocks: "cipher_blocks demo_cipher h bs = map (map (\<lambda>x. x XOR h)) bs"
  by (induction bs) (simp_all add: demo_cipher_def)

lemma demo_gcrypt_law: "gcrypt_law demo_gcrypt"
proof -
  have "mpi_law demo_gcrypt"
    using demo_print_value demo_print_length demo_nbits_bounds
    unfolding mpi_law_def by (auto simp: demo_gcrypt_def demo_nbits.simps [of 0])
  moreover have "md_law demo_gcrypt" by (simp add: md_law_def demo_gcrypt_def demo_hmac_def)
  moreover have "cipher_law demo_gcrypt"
    by (simp add: cipher_law_def demo_gcrypt_def demo_cipher_blocks demo_cipher_def o_def xor.assoc map_idI)
  ultimately show ?thesis unfolding gcrypt_law_def by blast
qed

definition demo_parts :: "byte parts" where
  "demo_parts = (demo_gcrypt, padding_realloc, 42)"

lemma demo_parts_ok: "parts_ok demo_parts"
  using demo_gcrypt_law padding_realloc_law by (auto simp: parts_ok_def demo_parts_def parts_memory_def padding_realloc_def)

section \<open>Key files\<close>

text \<open>The name of a field as a byte, every byte of its value behind a one, and a zero.\<close>

definition demo_tag :: "string \<Rightarrow> byte" where
  "demo_tag f = (if f = ''public'' then 0 else if f = ''secret'' then 1 else 2)"

definition demo_field :: "byte \<Rightarrow> string" where
  "demo_field t = (if t = 0 then ''public'' else if t = 1 then ''secret'' else ''iv'')"

definition demo_to_data :: "key_file \<Rightarrow> bytes" where
  "demo_to_data kf = concat (map (\<lambda>((s, f), v). demo_tag f # concat (map (\<lambda>b. [1, b]) v) @ [0]) kf)"

fun demo_load :: "(byte \<times> bytes) option \<Rightarrow> bytes \<Rightarrow> key_file" where
  "demo_load None [] = []"
| "demo_load None (t # bs) = demo_load (Some (t, [])) bs"
| "demo_load (Some (t, v)) [] = []"
| "demo_load (Some (t, v)) [x] = [((PROTOCOL_1, demo_field t), v)]"
| "demo_load (Some (t, v)) (x # y # bs) =
     (if x = 1 then demo_load (Some (t, v @ [y])) bs else ((PROTOCOL_1, demo_field t), v) # demo_load None (y # bs))"

definition demo_glib :: glib where
  "demo_glib = \<lparr>g_base64_encode = id, g_base64_decode = id, g_key_file_to_data = demo_to_data,
     g_key_file_load_from_data = (\<lambda>bs. Some (demo_load None bs)), g_strchug = id\<rparr>"

lemma demo_load_value:
  "demo_load (Some (t, v)) (concat (map (\<lambda>b. [1, b]) w) @ 0 # rest) = ((PROTOCOL_1, demo_field t), v @ w) # demo_load None rest"
proof (induction w arbitrary: v)
  case Nil
  then show ?case by (cases rest) simp_all
qed simp

lemma demo_load_data:
  "\<forall>k v. (k, v) \<in> set kf \<longrightarrow> fst k = PROTOCOL_1 \<and> snd k \<in> {''public'', ''secret'', ''iv''} \<Longrightarrow> demo_load None (demo_to_data kf) = kf"
proof (induction kf)
  case (Cons e kf)
  obtain s f v where e: "e = ((s, f), v)" by (cases e) auto
  have "demo_field (demo_tag f) = f" using Cons.prems e by (auto simp: demo_field_def demo_tag_def)
  moreover have "s = PROTOCOL_1" using Cons.prems e by auto
  moreover have "demo_load None (demo_to_data kf) = kf" by (rule Cons.IH) (use Cons.prems in auto)
  ultimately show ?case using e demo_load_value [of "demo_tag f" "[]" v "demo_to_data kf"] by (simp add: demo_to_data_def)
qed (simp add: demo_to_data_def)

lemma demo_glib_law: "glib_law demo_glib"
  unfolding glib_law_def using demo_load_data by (auto simp: demo_glib_def our_values_def)

end
