(* ===== verification/ExchangeProperties.thy ===== *)
theory ExchangeProperties
  imports ExchangeSafety ExchangeDemo
begin

text \<open>
  The properties of the exchange of secrets (\<open>gcr/gcr-secret-exchange.c\<close>), of its key derivation
  (\<open>egg/egg-hkdf.c\<close>) and of its key pairs (\<open>egg/egg-dh.c\<close>).
\<close>

section \<open>The exchange\<close>

text \<open>
  C8. Secrets arrive. When one new object begins and another new object receives its greeting, both calls succeed, and
  in the conversation that follows, which the second side has to open, every secret that a side sends is what the other side
  receives and holds afterwards, with a zero byte behind it, whatever the random numbers are and in whichever order
  the sides speak.
\<close>

lemma exchange_delivers:
  assumes "parts_ok g" "glib_law L" "\<forall>t \<in> set ((True, s) # ts). length (snd t) + 16 < object_limit"
  shows "\<exists>a b. greet (parts_class g) L (parts_memory g)
      (gcr_secret_exchange_new \<lparr>x_data = None, x_requests = i\<rparr> p) (gcr_secret_exchange_new \<lparr>x_data = None, x_requests = j\<rparr> q) = Some (a, b) \<and>
    talk (parts_class g) L (parts_memory g) a b ((True, s) # ts) = Some (s # map snd ts)"
  by (rule dx.greeting_and_secrets [OF assms(1,2) _ _ _ _ assms(3)])
    (simp_all add: gcr_secret_exchange_new_def default_proper_def)

lemma exchange_delivers_witness:
  "\<exists>a b. greet (parts_class demo_parts) demo_glib (parts_memory demo_parts)
      (gcr_secret_exchange_new \<lparr>x_data = None, x_requests = 0\<rparr> None) (gcr_secret_exchange_new \<lparr>x_data = None, x_requests = 9\<rparr> None) = Some (a, b) \<and>
    talk (parts_class demo_parts) demo_glib (parts_memory demo_parts) a b [(True, [1, 0, 2]), (False, []), (True, [7])] = Some [[1, 0, 2], [], [7]]"
  using exchange_delivers [OF demo_parts_ok demo_glib_law, of "[1, 0, 2]" "[(False, []), (True, [7])]" 0 None 9 None]
  by (simp add: object_limit_def)

text \<open>
  C9. No text does harm. Whatever calls are made on a new object, and whatever texts it receives, no memory outside of an
  object is accessed and no assertion fails; the object never claims to have derived a key that it has not, and the
  secret that it holds is always followed by a zero byte.
\<close>

lemma exchange_calls_safe:
  assumes "parts_ok g" "\<forall>c \<in> set cs. call_ok L c"
  shows "\<exists>e. perform_calls (parts_class g) L (parts_memory g) (gcr_secret_exchange_new \<lparr>x_data = None, x_requests = j\<rparr> p) cs = Some e \<and>
    (derived e \<longrightarrow> has_key (default_exchange e)) \<and> secret_ok e"
  using calls_safe [OF assms(1) new_inv assms(2)] unfolding exchange_inv_def by blast

lemma exchange_calls_safe_witness:
  "\<exists>e. perform_calls (parts_class demo_parts) demo_glib (parts_memory demo_parts) (gcr_secret_exchange_new \<lparr>x_data = None, x_requests = 3\<rparr> None)
      [Receive [0, 1, 9, 0], Send (Some [65, 0]) (-1), Receive [1], Begin, Receive [1, 1, 5, 0]] = Some e \<and>
    (derived e \<longrightarrow> has_key (default_exchange e)) \<and> secret_ok e"
  by (rule exchange_calls_safe [OF demo_parts_ok]) (simp add: demo_glib_def secret_bytes_def object_limit_def)

text \<open>
  C39. Bad padding counts as success. When the last byte of the decrypted text is zero, which is no padding, the text is
  received as if it were good: the secret is gone, and its length is what an unset variable held.
\<close>

lemma exchange_bad_padding:
  assumes "parts_ok (G, R, uninit)" "generated e" "derived e" "Option.bind (x_data (default_exchange e)) x_key = Some key" "length key = 16"
    "g_key_file_load_from_data L t = Some kf" "key_file_get_base64 L kf PROTOCOL_1 ''iv'' = Some iv" "length iv = 16"
    "key_file_get_base64 L kf PROTOCOL_1 ''secret'' = Some c" "length c = 16 * m" "0 < m" "length c < object_limit"
    "gcry_cipher_start G key iv = Some h" "last (concat (cipher_blocks (gcry_cipher_decrypt G) h (chunks m c))) = 0"
  shows "gcr_secret_exchange_receive (default_class G R uninit) L R e t = Some (True, e\<lparr>secret := None, n_secret := uninit\<rparr>)"
proof -
  note law = parts_okD [OF assms(1)]
  let ?p = "concat (cipher_blocks (gcry_cipher_decrypt G) h (chunks m c))"
  obtain r where s: "R secure None (length c) = Some r" using law(6) [OF assms(12), of secure None] by blast
  have r: "fresh R secure (length c) = Some r" "length r = length c"
    using s assms(10,11) realloc_lawD(1) [OF law(4) s] by (simp_all add: fresh_def)
  have b: "\<forall>h b. length b = 16 \<longrightarrow> length (fst (gcry_cipher_decrypt G h b)) = 16" using cipher_lawD(3) [OF law(3)] by blast
  have ch: "\<forall>x \<in> set (chunks m c). length x = 16" using chunks_length [of m c] assms(10) by auto
  have lp: "length ?p = 16 * m"
    using cipher_blocks_length [OF b ch, of h] length_concat_blocks [of "cipher_blocks (gcry_cipher_decrypt G) h (chunks m c)"] by simp
  have "?p \<noteq> []"
  proof
    assume "?p = []"
    then show False using lp assms(11) by (simp only: list.size)
  qed
  then have "byte_at ?p (length ?p - 1) = Some 0" using assms(14) by (simp add: byte_at_def last_conv_nth)
  then have u: "egg_padding_pkcs7_unpad R (Some secure) 16 ?p True = Some None"
    using \<open>?p \<noteq> []\<close> by (simp add: egg_padding_pkcs7_unpad_def Let_def)
  have "crypt_loop (gcry_cipher_decrypt G) h (Some c) (Some r) 0 (length c) = Some (Some ?p)"
    using crypt_loop_blocks [OF b, of 0 m "length c" c r h] r(2) assms(10) by simp
  then have "default_decrypt_transport_data G R uninit (default_exchange e) secure c (Some iv) = Some (Some (None, uninit), default_exchange e)"
    using assms(4,8,10,13) r(1) u cipher_lawD(6) [OF law(3)] by (simp add: default_decrypt_transport_data_def)
  moreover have "map_of kf (PROTOCOL_1, ''secret'') \<noteq> None" using assms(9) by (auto simp: key_file_get_base64_def)
  ultimately show ?thesis using assms(2,3,6,7,9)
    by (auto simp: gcr_secret_exchange_receive_def perform_decrypt_def default_class_def)
qed

definition demo_text :: key_file where
  "demo_text = [((PROTOCOL_1, ''secret''), replicate 16 0), ((PROTOCOL_1, ''iv''), replicate 16 5)]"

definition demo_derived :: "exchange_default exchange" where
  "demo_derived = \<lparr>default_exchange = \<lparr>x_data = Some \<lparr>x_prime = group_prime, x_base = 2, x_pub = Some 4, x_priv = Some 2, x_key = Some (replicate 16 5)\<rparr>, x_requests = 1\<rparr>,
     explicit_protocol = False, generated = True, publi = Some [4], derived = True, secret = Some [1, 0], n_secret = 1\<rparr>"

lemma exchange_bad_padding_witness:
  "gcr_secret_exchange_receive (default_class demo_gcrypt padding_realloc 42) demo_glib padding_realloc demo_derived (demo_to_data demo_text) =
    Some (True, demo_derived\<lparr>secret := None, n_secret := 42\<rparr>)"
proof (rule exchange_bad_padding [OF demo_parts_ok [unfolded demo_parts_def], where key = "replicate 16 5" and iv = "replicate 16 5"
      and c = "replicate 16 0" and m = 1 and h = 0])
  show "g_key_file_load_from_data demo_glib (demo_to_data demo_text) = Some demo_text"
    using demo_load_data [of demo_text] by (auto simp: demo_glib_def demo_text_def)
  show "last (concat (cipher_blocks (gcry_cipher_decrypt demo_gcrypt) 0 (chunks 1 (replicate 16 0)))) = 0"
    by (simp add: demo_gcrypt_def demo_cipher_def)
qed (simp_all add: demo_derived_def demo_text_def key_file_get_base64_def demo_glib_def demo_gcrypt_def object_limit_def)

section \<open>Keys\<close>

text \<open>
  C10. The key derivation is the one of RFC 5869. For every hash and every length of output that the RFC allows, the loop
  over the blocks fills the output, and nothing else, with the first bytes of the blocks of the RFC.
\<close>

lemma hkdf_is_rfc5869:
  assumes "md_law G" "gcry_md_map_name G hash \<noteq> 0" "0 < gcry_md_get_algo_dlen G (gcry_md_map_name G hash)"
    "0 < length out" "length out \<le> 255 * gcry_md_get_algo_dlen G (gcry_md_map_name G hash)"
  shows "egg_hkdf_perform G hash input salt info (Some out) (length out) =
    Some (Some (Some (rfc_hkdf (gcry_md_hmac G (gcry_md_map_name G hash)) (gcry_md_get_algo_dlen G (gcry_md_map_name G hash)) input salt info (length out))))"
  by (rule hkdf_perform_rfc [OF assms(1) refl assms(2) refl assms(3,5,4) refl])

lemma hkdf_is_rfc5869_witness:
  "egg_hkdf_perform demo_gcrypt ''sha256'' [1, 2, 3] None [4] (Some (replicate 40 0)) (length (replicate 40 (0 :: byte))) =
    Some (Some (Some (rfc_hkdf (demo_hmac 8) 32 [1, 2, 3] None [4] (length (replicate 40 (0 :: byte))))))"
proof -
  have "md_law demo_gcrypt" using demo_gcrypt_law unfolding gcrypt_law_def by blast
  then show ?thesis using hkdf_is_rfc5869 [of demo_gcrypt "''sha256''" "replicate 40 0" "[1, 2, 3]" None "[4]"]
    by (simp add: demo_gcrypt_def del: length_replicate) (simp add: demo_gcrypt_def)
qed

text \<open>
  C11. Key pairs are in range. Every group of the table can be used: its prime has as many bits as the table says, the loop
  for the random number ends, the assertion on it holds, the private number has fewer bits than the prime, the public one is
  its power and not zero, and two private numbers give the same shared number, which is not zero.
\<close>

lemma dh_pairs_in_range:
  assumes "mpi_law G" "find_group name dh_groups = Some grp"
  shows "\<exists>prime priv k'. egg_dh_default_params G name = Some (prime, 2) \<and> gcry_mpi_get_nbits G prime = g_bits grp \<and>
    egg_dh_gen_pair G prime 2 0 k = Some (Some (2 ^ priv mod prime, priv), k') \<and> priv < prime \<and> priv < 2 ^ (g_bits grp - 1) \<and>
    0 < 2 ^ priv mod prime \<and> (\<forall>x. (2 ^ x mod prime) ^ priv mod prime = (2 ^ priv mod prime) ^ x mod prime \<and> 0 < (2 ^ x mod prime) ^ priv mod prime)"
proof -
  obtain prime where p: "egg_dh_default_params G name = Some (prime, 2)" "gcry_mpi_get_nbits G prime = g_bits grp" "good_params G prime 2"
    using default_params_ok [OF assms(1), of name] assms(2) by auto
  note g = good_params_prime [OF assms(1) p(3)]
  obtain priv k' where k: "egg_dh_gen_pair G prime 2 0 k = Some (Some (2 ^ priv mod prime, priv), k')" "priv < prime" "priv < 2 ^ (g_bits grp - 1)"
    using gen_pair_ok [OF assms(1) g(4), of 0 2 k] p(2) by auto
  have z: "0 < 2 ^ n mod prime" for n by (rule odd_power_mod [OF g(2,1)])
  have "0 < (2 ^ x mod prime) ^ priv mod prime" for x using z [of "x * priv"] by (simp add: power_mod power_mult)
  then show ?thesis using p(1,2) k z shared_number [of 2 _ prime priv] by blast
qed

lemma dh_pairs_in_range_witness:
  "\<exists>prime priv k'. egg_dh_default_params demo_gcrypt ''ietf-ike-grp-modp-768'' = Some (prime, 2) \<and> gcry_mpi_get_nbits demo_gcrypt prime = 768 \<and>
    egg_dh_gen_pair demo_gcrypt prime 2 0 4 = Some (Some (2 ^ priv mod prime, priv), k') \<and> priv < prime \<and> priv < 2 ^ (768 - 1) \<and>
    0 < 2 ^ priv mod prime \<and> (\<forall>x. (2 ^ x mod prime) ^ priv mod prime = (2 ^ priv mod prime) ^ x mod prime \<and> 0 < (2 ^ x mod prime) ^ priv mod prime)"
proof -
  have law: "mpi_law demo_gcrypt" using demo_gcrypt_law unfolding gcrypt_law_def by blast
  have f: "find_group ''ietf-ike-grp-modp-768'' dh_groups =
      Some \<lparr>g_name = ''ietf-ike-grp-modp-768'', g_bits = 768, g_prime = dh_group_768_prime, g_base = [2]\<rparr>"
    by (simp add: dh_groups_def)
  show ?thesis using dh_pairs_in_range [OF law f, of 4] unfolding dh_group.simps .
qed

end
