(* ===== verification/Records.thy ===== *)
theory Records
  imports Asn1Decimal Padding
begin

text \<open>
  \<open>gcr/gcr-record.c\<close>: records of columns, which GnuPG and the trust of certificates exchange as lines of text.
  The columns point into blocks that belong to the record and do not change after parsing, so that a column is a C string
  here: a list of bytes without the zero byte behind it.
\<close>

section \<open>C strings\<close>

abbreviation c_string :: "bytes \<Rightarrow> bool" where
  "c_string s \<equiv> 0 \<notin> set s"

text \<open>The string that lies in a piece of memory, up to its first zero byte.\<close>

definition string_at :: "bytes \<Rightarrow> bytes" where
  "string_at m = takeWhile (\<lambda>c. c \<noteq> 0) m"

fun strchr :: "bytes \<Rightarrow> byte \<Rightarrow> nat option" where
  "strchr [] c = None"
| "strchr (x # xs) c = (if x = c then Some 0 else map_option Suc (strchr xs c))"

section \<open>Records\<close>

record gcr_record =
  columns :: "bytes list"
  delimiter :: byte

definition MAX_COLUMNS :: nat where
  "MAX_COLUMNS = 32"

definition print_record_to_string :: "gcr_record \<Rightarrow> bytes \<Rightarrow> bytes" where
  "print_record_to_string r string = foldl (\<lambda>string c. string @ c @ [delimiter r]) string (columns r)"

definition gcr_record_format :: "gcr_record \<Rightarrow> bytes" where
  "gcr_record_format r = print_record_to_string r []"

text \<open>The array of columns is written without a check of the number.\<close>

definition gcr_record_new :: "bytes \<Rightarrow> nat \<Rightarrow> byte \<Rightarrow> gcr_record option" where
  "gcr_record_new schema n_columns delim = do {
     c_assert (n_columns \<le> MAX_COLUMNS);
     Some \<lparr>columns = take n_columns (schema # replicate (n_columns - 1) []), delimiter = delim\<rparr> }"

text \<open>A copy has one block for all of its columns, each with the zero byte behind it.\<close>

definition record_flatten :: "gcr_record \<Rightarrow> gcr_record option" where
  "record_flatten r = do {
     let total = sum_list (map (\<lambda>c. length c + 1) (columns r));
     block \<leftarrow> foldl (\<lambda>b c. do { (block, at) \<leftarrow> b; block \<leftarrow> mem_write block at (c @ [0]); Some (block, at + length c + 1) })
        (Some (Some (replicate (total + 1) 0), 0)) (columns r);
     c_assert (snd block = total);
     Some \<lparr>columns = map (\<lambda>i. string_at (drop (sum_list (map (\<lambda>c. length c + 1) (take i (columns r)))) (the (fst block)))) [0..<length (columns r)],
           delimiter = delimiter r\<rparr> }"

definition gcr_record_copy :: "gcr_record \<Rightarrow> gcr_record option" where
  "gcr_record_copy r = record_flatten r"

text \<open>
  The loop of \<open>take_and_parse_internal\<close>: \<open>at\<close> is the offset of the rest of the string, and \<open>n_value\<close> the length of
  the block. The end of the last column is the last byte of the block, and not behind it.
\<close>

function parse_columns :: "byte \<Rightarrow> bool \<Rightarrow> nat \<Rightarrow> bytes \<Rightarrow> nat \<Rightarrow> bytes list \<Rightarrow> bytes list option" where
  "parse_columns delim allow_empty n_value rest at cols =
     (if length cols \<ge> MAX_COLUMNS then None
      else case strchr rest delim of
        None \<Rightarrow> Some (if allow_empty \<or> int n_value - 1 > int at then cols @ [rest] else cols)
      | Some i \<Rightarrow> parse_columns delim allow_empty n_value (drop (i + 1) rest) (at + i + 1)
                   (if allow_empty \<or> i > 0 then cols @ [take i rest] else cols))"
  by pat_completeness auto
termination
proof (relation "measure (\<lambda>(delim, allow_empty, n_value, rest, at, cols). length rest)")
  show "wf (measure (\<lambda>(delim :: byte, allow_empty :: bool, n_value :: nat, rest :: bytes, at :: nat, cols :: bytes list). length rest))" by simp
next
  fix delim :: byte and allow_empty :: bool and n_value :: nat and rest :: bytes and at i :: nat and cols :: "bytes list"
  have "strchr xs delim = Some i \<Longrightarrow> xs \<noteq> []" for xs by (cases xs) simp_all
  then show "strchr rest delim = Some i \<Longrightarrow> ((delim, allow_empty, n_value, drop (i + 1) rest, at + i + 1,
      if allow_empty \<or> i > 0 then cols @ [take i rest] else cols), (delim, allow_empty, n_value, rest, at, cols)) \<in>
      measure (\<lambda>(delim, allow_empty, n_value, rest, at, cols). length rest)"
    by (simp add: diff_less)
qed

declare parse_columns.simps [simp del]

definition take_and_parse_internal :: "bytes \<Rightarrow> byte \<Rightarrow> bool \<Rightarrow> gcr_record option" where
  "take_and_parse_internal block delim allow_empty =
     map_option (\<lambda>cols. \<lparr>columns = cols, delimiter = delim\<rparr>) (parse_columns delim allow_empty (length block) (string_at block) 0 [])"

text \<open>The line in memory is read up to its length, or up to its zero byte when the length is negative.\<close>

definition line_bytes :: "bytes \<Rightarrow> int \<Rightarrow> bytes option" where
  "line_bytes line n_line =
     (if n_line < 0 then map_option (\<lambda>n. take n line) (memchr0 line)
      else if length line < nat n_line then None else Some (take (nat n_line) line))"

definition gcr_record_parse_colons :: "bytes \<Rightarrow> int \<Rightarrow> gcr_record option option" where
  "gcr_record_parse_colons line n_line = map_option (\<lambda>b. take_and_parse_internal b 58 True) (line_bytes line n_line)"

definition gcr_record_parse_spaces :: "bytes \<Rightarrow> int \<Rightarrow> gcr_record option option" where
  "gcr_record_parse_spaces line n_line = map_option (\<lambda>b. take_and_parse_internal b 32 False) (line_bytes line n_line)"

definition gcr_record_get_count :: "gcr_record \<Rightarrow> nat" where
  "gcr_record_get_count r = length (columns r)"

definition record_take_column :: "gcr_record \<Rightarrow> nat \<Rightarrow> bytes \<Rightarrow> gcr_record" where
  "record_take_column r column value = (if column < length (columns r) then r\<lparr>columns := (columns r)[column := string_at value]\<rparr> else r)"

definition gcr_record_get_raw :: "gcr_record \<Rightarrow> nat \<Rightarrow> bytes option" where
  "gcr_record_get_raw r column = (if column \<ge> length (columns r) then None else Some (columns r ! column))"

definition gcr_record_set_raw :: "gcr_record \<Rightarrow> nat \<Rightarrow> bytes \<Rightarrow> gcr_record" where
  "gcr_record_set_raw r column value = (if column < length (columns r) then record_take_column r column value else r)"

definition gcr_record_take_raw :: "gcr_record \<Rightarrow> nat \<Rightarrow> bytes \<Rightarrow> gcr_record" where
  "gcr_record_take_raw r column value = (if column < length (columns r) then record_take_column r column value else r)"

section \<open>Escapes\<close>

definition HEXC_LOWER :: bytes where
  "HEXC_LOWER = [48, 49, 50, 51, 52, 53, 54, 55, 56, 57, 97, 98, 99, 100, 101, 102]"

definition ascii_tolower :: "byte \<Rightarrow> byte" where
  "ascii_tolower c = (if 65 \<le> c \<and> c \<le> 90 then c + 32 else c)"

text \<open>The position of a digit, for which \<open>strchr\<close> takes the zero byte behind the table, too.\<close>

definition hexc_pos :: "byte \<Rightarrow> nat option" where
  "hexc_pos c = strchr (HEXC_LOWER @ [0]) c"

fun octal_digits :: "nat \<Rightarrow> byte \<Rightarrow> bytes \<Rightarrow> byte \<times> bytes" where
  "octal_digits (Suc n) q (c # cs) = (if 48 \<le> c \<and> c \<le> 55 then octal_digits n (q * 8 + (c - 48)) cs else (q, c # cs))"
| "octal_digits n q cs = (q, cs)"

text \<open>The outer \<open>None\<close> is a read behind the end of the string, the inner one a bad character.\<close>

fun hex_digits :: "nat \<Rightarrow> byte \<Rightarrow> bytes \<Rightarrow> (byte \<times> bytes) option option" where
  "hex_digits 0 q cs = Some (Some (q, cs))"
| "hex_digits (Suc n) q [] = None"
| "hex_digits (Suc n) q (c # cs) =
     (case hexc_pos (ascii_tolower c) of None \<Rightarrow> Some None | Some i \<Rightarrow> hex_digits n (q * 16 + word_of_nat i) cs)"

definition escaped_char :: "byte \<Rightarrow> byte" where
  "escaped_char e = (if e = 98 then 8 else if e = 102 then 12 else if e = 110 then 10 else if e = 114 then 13 else if e = 116 then 9 else e)"

lemma octal_digits_length: "length (snd (octal_digits n q cs)) \<le> length cs"
  by (induction n q cs rule: octal_digits.induct) (auto intro: le_SucI)

lemma hex_digits_length: "hex_digits n q cs = Some (Some (v, rest)) \<Longrightarrow> length rest \<le> length cs"
  by (induction n q cs rule: hex_digits.induct) (fastforce split: option.splits)+

lemma octal_digits_less: "length (snd (octal_digits n q (c # cs))) < Suc (Suc (length cs))"
  using octal_digits_length [of n q "c # cs"] by simp

lemma hex_digits_less: "hex_digits n q (c # cs) = Some (Some (v, rest)) \<Longrightarrow> length rest < Suc (Suc (length cs))"
  using hex_digits_length [of n q "c # cs" v rest] by simp

text \<open>
  The source with its zero byte; \<open>dest\<close> is \<open>None\<close> until the first backslash, and \<open>pre\<close> what came before it. In the
  case of \<open>x\<close> the digits are read from the \<open>x\<close> on, as in the code.
\<close>

function unescape_loop :: "bytes \<Rightarrow> bytes \<Rightarrow> bytes option \<Rightarrow> bytes option option" where
  "unescape_loop pre [] dest = None"
| "unescape_loop pre (c # cs) dest =
     (if c = 0 then Some dest
      else if c = 92 then
        (let dest = (case dest of None \<Rightarrow> pre | Some d \<Rightarrow> d) in
         case cs of
           [] \<Rightarrow> None
         | e # es \<Rightarrow>
             if e = 0 then Some None
             else if 48 \<le> e \<and> e \<le> 55 then
               unescape_loop [] (snd (octal_digits 3 0 (e # es))) (Some (dest @ [fst (octal_digits 3 0 (e # es))]))
             else if e = 120 then
               (case hex_digits 2 0 (e # es) of
                  None \<Rightarrow> None
                | Some None \<Rightarrow> Some None
                | Some (Some (v, rest)) \<Rightarrow> unescape_loop [] rest (Some (dest @ [v])))
             else unescape_loop [] es (Some (dest @ [escaped_char e])))
      else unescape_loop (pre @ [c]) cs (map_option (\<lambda>d. d @ [c]) dest))"
  by pat_completeness auto
termination
  by (relation "measure (\<lambda>(pre, rest, dest). length rest)") (auto simp: octal_digits_less dest: hex_digits_less)

declare unescape_loop.simps [simp del]

definition c_colons_unescape :: "bytes \<Rightarrow> bytes option option" where
  "c_colons_unescape source = unescape_loop [] (source @ [0]) None"

definition escape_char :: "byte \<Rightarrow> byte" where
  "escape_char c = (if c = 8 then 98 else if c = 12 then 102 else if c = 10 then 110 else if c = 13 then 114 else if c = 9 then 116
     else if c = 92 then 92 else if c = 34 then 34 else 0)"

text \<open>No byte reaches \<open>0x127\<close>; the extra character is compared as a signed one.\<close>

definition needs_escape :: "byte \<Rightarrow> byte \<Rightarrow> bool" where
  "needs_escape extra c \<longleftrightarrow> escape_char c \<noteq> 0 \<or> c < 32 \<or> uint c \<ge> 0x127 \<or> uint c = sint extra"

fun escape_loop :: "byte \<Rightarrow> bytes \<Rightarrow> bytes \<Rightarrow> bytes option \<Rightarrow> bytes option" where
  "escape_loop extra pre [] dest = dest"
| "escape_loop extra pre (c # cs) dest =
     (if needs_escape extra c then
        (let dest = (case dest of None \<Rightarrow> pre | Some d \<Rightarrow> d) in
         escape_loop extra [] cs (Some (dest @
           (if escape_char c \<noteq> 0 then [92, escape_char c]
            else [92, 120, HEXC_LOWER ! unat (drop_bit 4 c AND 0xf), HEXC_LOWER ! unat (c AND 0xf)]))))
      else escape_loop extra (pre @ [c]) cs (map_option (\<lambda>d. d @ [c]) dest))"

definition c_colons_escape :: "bytes \<Rightarrow> byte \<Rightarrow> bytes option" where
  "c_colons_escape source extra = escape_loop extra [] source None"

text \<open>UTF-8 belongs to GLib: whether a text is valid, and the conversion from Latin 1.\<close>

record utf8 =
  g_utf8_validate :: "bytes \<Rightarrow> bool"
  g_convert :: "bytes \<Rightarrow> bytes"

definition gcr_record_get_string :: "utf8 \<Rightarrow> gcr_record \<Rightarrow> nat \<Rightarrow> bytes option option" where
  "gcr_record_get_string U r column =
     (case gcr_record_get_raw r column of
        None \<Rightarrow> Some None
      | Some raw \<Rightarrow> do {
          escaped \<leftarrow> c_colons_unescape raw;
          let value = (case escaped of None \<Rightarrow> raw | Some t \<Rightarrow> string_at t);
          Some (Some (if g_utf8_validate U value then value else g_convert U value)) })"

definition gcr_record_set_string :: "gcr_record \<Rightarrow> nat \<Rightarrow> bytes \<Rightarrow> gcr_record" where
  "gcr_record_set_string r column string =
     (if column < length (columns r)
      then record_take_column r column (case c_colons_escape string (delimiter r) of None \<Rightarrow> string | Some e \<Rightarrow> e) else r)"

definition gcr_record_get_char :: "gcr_record \<Rightarrow> nat \<Rightarrow> byte" where
  "gcr_record_get_char r column =
     (case gcr_record_get_raw r column of Some [c] \<Rightarrow> c | _ \<Rightarrow> 0)"

definition gcr_record_set_char :: "gcr_record \<Rightarrow> nat \<Rightarrow> byte \<Rightarrow> gcr_record" where
  "gcr_record_set_char r column value = (if column < length (columns r) \<and> value \<noteq> 0 then record_take_column r column [value] else r)"

section \<open>Numbers, dates and data\<close>

text \<open>What \<open>strtol\<close> and its relatives read: white space, a sign and digits. The second result is the rest of the text.\<close>

definition c_isspace :: "byte \<Rightarrow> bool" where
  "c_isspace c \<longleftrightarrow> c = 32 \<or> (9 \<le> c \<and> c \<le> 13)"

definition c_isdigit :: "byte \<Rightarrow> bool" where
  "c_isdigit c \<longleftrightarrow> 48 \<le> c \<and> c \<le> 57"

definition digits_value :: "bytes \<Rightarrow> int" where
  "digits_value ds = foldl (\<lambda>v d. v * 10 + (uint d - 48)) 0 ds"

definition read_number :: "bytes \<Rightarrow> (bool \<times> int \<times> bytes) option" where
  "read_number raw =
     (let s = dropWhile c_isspace raw;
          negative = (s \<noteq> [] \<and> hd s = 45);
          s = (if s \<noteq> [] \<and> (hd s = 45 \<or> hd s = 43) then tl s else s)
      in if takeWhile c_isdigit s = [] then None
         else Some (negative, digits_value (takeWhile c_isdigit s), dropWhile c_isdigit s))"

definition g_ascii_strtoll :: "bytes \<Rightarrow> int \<times> bytes" where
  "g_ascii_strtoll raw =
     (case read_number raw of
        None \<Rightarrow> (0, raw)
      | Some (negative, v, rest) \<Rightarrow> (max (- (2 ^ 63)) (min (2 ^ 63 - 1) (if negative then - v else v)), rest))"

definition g_ascii_strtoull :: "bytes \<Rightarrow> int \<times> bytes" where
  "g_ascii_strtoull raw =
     (case read_number raw of
        None \<Rightarrow> (0, raw)
      | Some (negative, v, rest) \<Rightarrow> (if v \<ge> 2 ^ 64 then 2 ^ 64 - 1 else if negative then (- v) mod 2 ^ 64 else v, rest))"

text \<open>A number that does not fit into a \<open>gint64\<close> becomes a negative one.\<close>

definition gint64 :: "int \<Rightarrow> int" where
  "gint64 x = (if x \<ge> 2 ^ 63 then x - 2 ^ 64 else x)"

definition gcr_record_get_uint :: "gcr_record \<Rightarrow> nat \<Rightarrow> int option" where
  "gcr_record_get_uint r column =
     (case gcr_record_get_raw r column of
        None \<Rightarrow> None
      | Some raw \<Rightarrow> (let (result, rest) = g_ascii_strtoll raw
                     in if rest \<noteq> [] then None else if result < 0 \<or> result > 2 ^ 32 - 1 then None else Some (result mod 2 ^ 32)))"

definition gcr_record_set_uint :: "gcr_record \<Rightarrow> nat \<Rightarrow> nat \<Rightarrow> gcr_record" where
  "gcr_record_set_uint r column value = (if column < length (columns r) then record_take_column r column (decimal value) else r)"

definition gcr_record_get_ulong :: "gcr_record \<Rightarrow> nat \<Rightarrow> int option" where
  "gcr_record_get_ulong r column =
     (case gcr_record_get_raw r column of
        None \<Rightarrow> None
      | Some raw \<Rightarrow> (let (v, rest) = g_ascii_strtoull raw; result = gint64 v
                     in if rest \<noteq> [] then None else if result < 0 then None else Some (result mod 2 ^ 32)))"

definition gcr_record_set_ulong :: "gcr_record \<Rightarrow> nat \<Rightarrow> nat \<Rightarrow> gcr_record" where
  "gcr_record_set_ulong r column value = (if column < length (columns r) then record_take_column r column (decimal value) else r)"

text \<open>
  A date is a number of seconds or a day; \<open>strptime\<close> belongs to the system: year, month and day as people count them, and
  what is left of the text.
\<close>

datatype date_time = Unix int | Day int int int

definition gcr_record_get_date :: "(bytes \<Rightarrow> ((int \<times> int \<times> int) \<times> bytes) option) \<Rightarrow> gcr_record \<Rightarrow> nat \<Rightarrow> date_time option" where
  "gcr_record_get_date strptime r column =
     (case gcr_record_get_raw r column of
        None \<Rightarrow> None
      | Some raw \<Rightarrow>
          (let (result, rest) = g_ascii_strtoull raw
           in if rest = [] then (if result = 0 then None else Some (Unix (gint64 result)))
              else case strptime raw of
                None \<Rightarrow> None
              | Some ((y, m, d), rest) \<Rightarrow> if rest \<noteq> [] then None else Some (Day y m d)))"

definition gcr_record_get_base64 :: "(bytes \<Rightarrow> bytes) \<Rightarrow> gcr_record \<Rightarrow> nat \<Rightarrow> bytes option" where
  "gcr_record_get_base64 decode r column = map_option decode (gcr_record_get_raw r column)"

text \<open>\<open>encode\<close> is what the step and the close of the encoder of GLib write, without a check of the room.\<close>

definition gcr_record_set_base64 :: "(bytes \<Rightarrow> bytes) \<Rightarrow> gcr_record \<Rightarrow> nat \<Rightarrow> bytes \<Rightarrow> gcr_record option" where
  "gcr_record_set_base64 encode r column data =
     (if column < length (columns r) then do {
        let n = length data;
        let estimate = n * 4 div 3 + n * 4 div (3 * 65) + 7;
        let block = encode data;
        c_assert (length block < estimate);
        Some (record_take_column r column (rev (dropWhile c_isspace (rev block)))) }
      else Some r)"

section \<open>Lists of records\<close>

definition GCR_RECORD_SCHEMA :: nat where
  "GCR_RECORD_SCHEMA = 0"

definition gcr_record_get_schema :: "gcr_record \<Rightarrow> bytes option" where
  "gcr_record_get_schema r = gcr_record_get_raw r GCR_RECORD_SCHEMA"

fun gcr_records_find :: "gcr_record list \<Rightarrow> bytes \<Rightarrow> gcr_record option" where
  "gcr_records_find [] schema = None"
| "gcr_records_find (r # rs) schema = (if gcr_record_get_schema r = Some schema then Some r else gcr_records_find rs schema)"

definition gcr_records_format :: "gcr_record list \<Rightarrow> bytes" where
  "gcr_records_format records = foldl (\<lambda>string r. print_record_to_string r string @ [10]) [] records"

text \<open>
  The pieces between the delimiters of the first \<open>length\<close> bytes at a place in memory. Whether there is a last piece
  is asked of the first byte, which need not be there.
\<close>

fun split_pieces :: "bytes \<Rightarrow> byte \<Rightarrow> bytes \<Rightarrow> bytes list \<times> bytes" where
  "split_pieces [] delim piece = ([], piece)"
| "split_pieces (c # cs) delim piece =
     (if c = delim then (let (ps, l) = split_pieces cs delim [] in (piece # ps, l)) else split_pieces cs delim (piece @ [c]))"

definition strnsplit :: "bytes \<Rightarrow> nat \<Rightarrow> byte \<Rightarrow> bytes list option" where
  "strnsplit string n delim = do {
     c_assert (n \<le> length string);
     let (pieces, remainder) = split_pieces (take n string) delim [];
     first \<leftarrow> byte_at string 0;
     Some (map string_at (pieces @ (if first \<noteq> 0 then [remainder] else []))) }"

fun parse_lines :: "bytes list \<Rightarrow> gcr_record list option" where
  "parse_lines [] = Some []"
| "parse_lines (l # ls) =
     (case take_and_parse_internal l 58 True of
        None \<Rightarrow> None
      | Some r \<Rightarrow> map_option ((#) r) (parse_lines ls))"

definition gcr_records_parse_colons :: "bytes \<Rightarrow> nat \<Rightarrow> gcr_record list option option" where
  "gcr_records_parse_colons data n_data = map_option parse_lines (strnsplit data n_data 10)"

end
