(* ===== verification/RecordText.thy ===== *)
theory RecordText
  imports Records
begin

text \<open>
  The texts of records: escapes and what is left of them, the columns of a line, the lines of a text, and numbers.
\<close>

section \<open>Strings\<close>

lemma string_at_string [simp]: "c_string s \<Longrightarrow> string_at s = s"
  unfolding string_at_def takeWhile_eq_all_conv by auto

lemma string_at_zero [simp]: "c_string s \<Longrightarrow> string_at (s @ 0 # rest) = s"
  unfolding string_at_def by (subst takeWhile_append2) auto

lemma memchr0_end [simp]: "c_string s \<Longrightarrow> memchr0 (s @ [0]) = Some (length s)"
  by (induction s) auto

lemma line_bytes_string: "c_string s \<Longrightarrow> line_bytes (s @ [0]) (-1) = Some s"
  by (simp add: line_bytes_def)

lemma strchr_None [simp]: "c \<notin> set s \<Longrightarrow> strchr s c = None"
  by (induction s) auto

lemma strchr_first [simp]: "c \<notin> set s \<Longrightarrow> strchr (s @ c # rest) c = Some (length s)"
  by (induction s) auto

section \<open>Escapes\<close>

definition escape_one :: "byte \<Rightarrow> byte \<Rightarrow> bytes" where
  "escape_one extra c =
     (if \<not> needs_escape extra c then [c] else if escape_char c \<noteq> 0 then [92, escape_char c]
      else [92, 120, HEXC_LOWER ! unat (drop_bit 4 c AND 0xf), HEXC_LOWER ! unat (c AND 0xf)])"

definition escaped_text :: "byte \<Rightarrow> bytes \<Rightarrow> bytes" where
  "escaped_text extra s = concat (map (escape_one extra) s)"

text \<open>The characters that are written with hexadecimal digits.\<close>

definition hexed :: "byte \<Rightarrow> byte \<Rightarrow> bool" where
  "hexed extra c \<longleftrightarrow> c \<notin> {8, 9, 10, 12, 13, 34, 92} \<and> (c < 32 \<or> c = extra \<and> extra < 128)"

lemma sign_byte: "0 \<le> x \<Longrightarrow> x < 256 \<Longrightarrow> (x + 128) mod 256 - 128 = (if x < 128 then x else x - 256)" for x :: int
proof (cases "x < 128")
  case False
  assume "x < 256"
  have "(x + 128) mod 256 = ((x - 128) + 256) mod 256" by (simp add: add.commute)
  also have "\<dots> = x - 128" using False \<open>x < 256\<close> by (simp only: mod_add_self2) simp
  finally show ?thesis using False by simp
qed simp

lemma byte_below_sign: "uint c = sint (d :: byte) \<longleftrightarrow> c = d \<and> d < 128" for c :: byte
proof -
  have "sint d = (uint d + 128) mod 256 - 128"
    by (simp add: sint_uint signed_take_bit_eq_take_bit_shift take_bit_eq_mod)
  then have s: "sint d = (if uint d < 128 then uint d else uint d - 256)"
    using sign_byte [of "uint d"] uint_bounded [of d] uint_ge_0 [of d] by simp
  have n: "uint c \<noteq> uint d - 256" using uint_bounded [of d] uint_ge_0 [of c] by (simp del: uint_ge_0 unsigned_greater_eq)
  show ?thesis unfolding s using n by (auto simp: word_less_def word_uint_eq_iff)
qed

lemma hexed_iff: "hexed extra c \<longleftrightarrow> needs_escape extra c \<and> escape_char c = 0"
proof -
  have "uint c < 0x127" using uint_bounded [of c] by simp
  moreover have "escape_char c = 0 \<longleftrightarrow> c \<notin> {8, 9, 10, 12, 13, 34, 92}" by (simp add: escape_char_def)
  ultimately show ?thesis unfolding hexed_def needs_escape_def byte_below_sign by auto
qed

lemma escaped_text_simps [simp]:
  "escaped_text extra [] = []" "escaped_text extra (c # cs) = escape_one extra c @ escaped_text extra cs"
  by (simp_all add: escaped_text_def)

lemma escaped_text_plain: "\<forall>c \<in> set s. \<not> needs_escape extra c \<Longrightarrow> escaped_text extra s = s"
  by (induction s) (simp_all add: escape_one_def)

lemma escape_loop_spec:
  "escape_loop extra pre s dest =
     (if dest \<noteq> None \<or> (\<exists>c \<in> set s. needs_escape extra c)
      then Some ((case dest of None \<Rightarrow> pre | Some d \<Rightarrow> d) @ escaped_text extra s) else None)"
proof (induction s arbitrary: pre dest)
  case (Cons c cs)
  then show ?case by (cases dest) (simp_all add: escape_one_def Let_def)
qed (auto split: option.splits)

lemma escape_spec:
  "c_colons_escape s extra = (if \<exists>c \<in> set s. needs_escape extra c then Some (escaped_text extra s) else None)"
  by (simp add: c_colons_escape_def escape_loop_spec)

lemma escape_char_back:
  assumes "escape_char c \<noteq> 0"
  shows "escaped_char (escape_char c) = c" "\<not> (48 \<le> escape_char c \<and> escape_char c \<le> 55)" "escape_char c \<noteq> 120"
  using assms unfolding escape_char_def escaped_char_def by (auto split: if_splits)

lemma no_escape_char: "\<not> needs_escape extra c \<Longrightarrow> c \<noteq> 92 \<and> escape_char c = 0"
  by (auto simp: needs_escape_def escape_char_def)

lemma hex_starts_wrong: "hex_digits 2 0 (120 # cs) = Some None"
  unfolding numeral_2_eq_2 by (simp add: hexc_pos_def HEXC_LOWER_def ascii_tolower_def)

lemma unescape_escaped:
  "c_string s \<Longrightarrow> unescape_loop pre (escaped_text extra s @ [0]) dest =
     Some (if \<exists>c \<in> set s. hexed extra c then None
           else if dest = None \<and> (\<forall>c \<in> set s. escape_char c = 0) then None
           else Some ((case dest of None \<Rightarrow> pre | Some d \<Rightarrow> d) @ s))"
proof (induction s arbitrary: pre dest)
  case Nil
  then show ?case by (cases dest) (simp_all add: unescape_loop.simps)
next
  case (Cons c cs)
  have z: "c \<noteq> 0" "c_string cs" using Cons.prems by auto
  consider "\<not> needs_escape extra c" | "escape_char c \<noteq> 0" | "hexed extra c" by (auto simp: hexed_iff)
  then show ?case
  proof cases
    case 1
    have e: "escape_one extra c = [c]" "\<not> hexed extra c" using 1 by (simp_all add: escape_one_def hexed_iff)
    have n: "c \<noteq> 92" "escape_char c = 0" using no_escape_char [OF 1] by simp_all
    have "unescape_loop pre (c # (escaped_text extra cs @ [0])) dest =
        unescape_loop (pre @ [c]) (escaped_text extra cs @ [0]) (map_option (\<lambda>d. d @ [c]) dest)"
      using z(1) n(1) by (simp add: unescape_loop.simps)
    then show ?thesis using Cons.IH [OF z(2), of "pre @ [c]" "map_option (\<lambda>d. d @ [c]) dest"] e n(2) by (cases dest) simp_all
  next
    case 2
    let ?d = "case dest of None \<Rightarrow> pre | Some d \<Rightarrow> d"
    have e: "escape_one extra c = [92, escape_char c]" "\<not> hexed extra c" using 2 by (simp_all add: escape_one_def hexed_iff needs_escape_def)
    have "unescape_loop pre (92 # escape_char c # (escaped_text extra cs @ [0])) dest =
        unescape_loop [] (escaped_text extra cs @ [0]) (Some (?d @ [c]))"
      using 2 escape_char_back [OF 2] by (auto simp: unescape_loop.simps(2) Let_def)
    then show ?thesis using Cons.IH [OF z(2), of "[]" "Some (?d @ [c])"] e 2 by simp
  next
    case 3
    obtain t where e: "escape_one extra c = 92 # 120 # t" using 3 by (simp add: escape_one_def hexed_iff)
    have "unescape_loop pre (92 # 120 # (t @ escaped_text extra cs @ [0])) dest = Some None"
      by (simp add: unescape_loop.simps(2) Let_def hex_starts_wrong)
    then show ?thesis using 3 e by simp
  qed
qed

lemma hexc_nonzero: "HEXC_LOWER ! unat (c AND 0xf) \<noteq> 0"
proof -
  have "c AND 0xf = take_bit 4 c" by (simp add: take_bit_eq_mask mask_eq_exp_minus_1)
  then have "unat (c AND 0xf) = unat c mod 16" by (simp only: unsigned_take_bit_eq) (simp add: take_bit_eq_mod)
  then have "unat (c AND 0xf) < length HEXC_LOWER" by (simp add: HEXC_LOWER_def)
  then have "HEXC_LOWER ! unat (c AND 0xf) \<in> set HEXC_LOWER" by (rule nth_mem)
  moreover have "0 \<notin> set HEXC_LOWER" by (simp add: HEXC_LOWER_def)
  ultimately show ?thesis by metis
qed

lemma c_string_escaped: "c_string s \<Longrightarrow> c_string (escaped_text extra s)"
proof (induction s)
  case (Cons c cs)
  have "0 \<notin> set (escape_one extra c)" using Cons.prems hexc_nonzero [of c] hexc_nonzero [of "drop_bit 4 c"] by (auto simp: escape_one_def)
  then show ?case using Cons by simp
qed simp

definition to_utf8 :: "utf8 \<Rightarrow> bytes \<Rightarrow> bytes" where
  "to_utf8 U s = (if g_utf8_validate U s then s else g_convert U s)"

lemma get_set_string:
  assumes "column < length (columns r)" "c_string s"
  shows "gcr_record_get_string U (gcr_record_set_string r column s) column =
    Some (Some (to_utf8 U (if \<exists>c \<in> set s. hexed (delimiter r) c then escaped_text (delimiter r) s else s)))"
proof -
  let ?e = "escaped_text (delimiter r) s"
  have got: "gcr_record_get_raw (gcr_record_set_string r column s) column = Some ?e"
    using assms c_string_escaped [OF assms(2)] escaped_text_plain [of s "delimiter r"]
    by (auto simp: gcr_record_set_string_def gcr_record_get_raw_def record_take_column_def escape_spec)
  have un: "c_colons_unescape ?e = Some (if \<exists>c \<in> set s. hexed (delimiter r) c then None else if \<forall>c \<in> set s. escape_char c = 0 then None else Some s)"
    using unescape_escaped [OF assms(2), of "[]" "delimiter r" None] by (simp add: c_colons_unescape_def)
  have plain: "?e = s" if "\<not> (\<exists>c \<in> set s. hexed (delimiter r) c)" "\<forall>c \<in> set s. escape_char c = 0"
    by (rule escaped_text_plain) (use that in \<open>auto simp: hexed_iff\<close>)
  show ?thesis using got un plain assms(2) by (auto simp: gcr_record_get_string_def to_utf8_def)
qed

section \<open>Columns\<close>

abbreviation separated :: "byte \<Rightarrow> bytes list \<Rightarrow> bytes" where
  "separated delim cs \<equiv> concat (map (\<lambda>c. c @ [delim]) cs)"

lemma parse_pieces:
  "\<forall>c \<in> set cs. delim \<notin> set c \<Longrightarrow> delim \<notin> set l \<Longrightarrow> length cols \<le> MAX_COLUMNS \<Longrightarrow>
    n = at + length (separated delim cs @ l) \<Longrightarrow>
    parse_columns delim allow_empty n (separated delim cs @ l) at cols =
      (let kept = filter (\<lambda>c. allow_empty \<or> c \<noteq> []) cs
       in if length cols + length kept < MAX_COLUMNS then Some (cols @ kept @ (if allow_empty \<or> 2 \<le> length l then [l] else [])) else None)"
proof (induction cs arbitrary: at cols)
  case Nil
  then show ?case by (subst parse_columns.simps) auto
next
  case (Cons c cs)
  show ?case
  proof (cases "length cols \<ge> MAX_COLUMNS")
    case True
    then show ?thesis by (subst parse_columns.simps) (simp add: Let_def)
  next
    case False
    let ?cols = "if allow_empty \<or> c \<noteq> [] then cols @ [c] else cols"
    have "parse_columns delim allow_empty n (separated delim (c # cs) @ l) at cols =
        parse_columns delim allow_empty n (separated delim cs @ l) (at + length c + 1) ?cols"
      using False Cons.prems(1) by (subst parse_columns.simps) auto
    then show ?thesis using Cons.IH [of ?cols "at + length c + 1"] Cons.prems False by (auto simp: Let_def)
  qed
qed

lemma printed_record: "print_record_to_string r string = string @ separated (delimiter r) (columns r)"
proof -
  have "foldl (\<lambda>string c. string @ c @ [d]) string cs = string @ separated d cs" for d cs
    by (induction cs arbitrary: string) simp_all
  then show ?thesis by (simp add: print_record_to_string_def)
qed

lemma records_format: "gcr_records_format rs = separated 10 (map (\<lambda>r. separated (delimiter r) (columns r)) rs)"
proof -
  have "foldl (\<lambda>string r. print_record_to_string r string @ [10]) string rs =
      string @ separated 10 (map (\<lambda>r. separated (delimiter r) (columns r)) rs)" for string
    by (induction rs arbitrary: string) (simp_all add: printed_record)
  then show ?thesis by (simp add: gcr_records_format_def)
qed

lemma split_pieces_separated:
  "\<forall>p \<in> set ps. delim \<notin> set p \<Longrightarrow> delim \<notin> set l \<Longrightarrow> split_pieces (separated delim ps @ l) delim [] = (ps, l)"
proof -
  have s: "delim \<notin> set p \<Longrightarrow> split_pieces (p @ delim # rest) delim q = (let (ps, l) = split_pieces rest delim [] in ((q @ p) # ps, l))" for p q rest
    by (induction p arbitrary: q) auto
  have e: "delim \<notin> set l \<Longrightarrow> split_pieces l delim q = ([], q @ l)" for q
    by (induction l arbitrary: q) auto
  show "\<forall>p \<in> set ps. delim \<notin> set p \<Longrightarrow> delim \<notin> set l \<Longrightarrow> split_pieces (separated delim ps @ l) delim [] = (ps, l)"
    by (induction ps) (simp_all add: s e)
qed

section \<open>Lines\<close>

lemma parse_line:
  assumes "\<forall>c \<in> set cs. c_string c \<and> delim \<notin> set c" "delim \<noteq> 0"
  shows "take_and_parse_internal (separated delim cs) delim True =
    (if length cs < MAX_COLUMNS then Some \<lparr>columns = cs @ [[]], delimiter = delim\<rparr> else None)"
proof -
  have "c_string (separated delim cs)" using assms by auto
  then show ?thesis
    using parse_pieces [of cs delim "[]" "[]" "length (separated delim cs)" 0 True] assms(1)
    by (simp add: take_and_parse_internal_def)
qed

definition plain_record :: "gcr_record \<Rightarrow> bool" where
  "plain_record r \<longleftrightarrow> delimiter r = 58 \<and> length (columns r) < MAX_COLUMNS \<and> (\<forall>c \<in> set (columns r). c_string c \<and> 58 \<notin> set c \<and> 10 \<notin> set c)"

lemma parse_lines_plain:
  "\<forall>r \<in> set rs. plain_record r \<Longrightarrow> parse_lines (map (\<lambda>r. separated (delimiter r) (columns r)) rs @ [[]]) =
    Some (map (\<lambda>r. r\<lparr>columns := columns r @ [[]]\<rparr>) rs @ [\<lparr>columns = [[]], delimiter = 58\<rparr>])"
proof (induction rs)
  case Nil
  show ?case using parse_line [of "[]" 58] by (simp add: MAX_COLUMNS_def)
next
  case (Cons r rs)
  have "take_and_parse_internal (separated (delimiter r) (columns r)) 58 True = Some (r\<lparr>columns := columns r @ [[]]\<rparr>)"
    using parse_line [of "columns r" 58] Cons.prems by (simp add: plain_record_def)
  then show ?case using Cons by simp
qed

lemma first_byte: "c_string t \<Longrightarrow> t \<noteq> [] \<Longrightarrow> byte_at t 0 = Some (hd t) \<and> hd t \<noteq> 0"
  by (cases t) (auto simp: byte_at_def)

lemma reparse_records:
  assumes "rs \<noteq> []" "\<forall>r \<in> set rs. plain_record r"
  shows "gcr_records_parse_colons (gcr_records_format rs) (length (gcr_records_format rs)) =
    Some (Some (map (\<lambda>r. r\<lparr>columns := columns r @ [[]]\<rparr>) rs @ [\<lparr>columns = [[]], delimiter = 58\<rparr>]))"
proof -
  let ?ps = "map (\<lambda>r. separated (delimiter r) (columns r)) rs" let ?t = "separated 10 ?ps"
  have lines: "\<forall>p \<in> set ?ps. 10 \<notin> set p \<and> c_string p" using assms(2) by (auto simp: plain_record_def)
  have "c_string ?t" using lines by auto
  moreover have ne: "?t \<noteq> []" using assms(1) by (cases rs) auto
  ultimately have "byte_at ?t 0 = Some (hd ?t) \<and> hd ?t \<noteq> 0" by (intro first_byte)
  moreover have "split_pieces ?t 10 [] = (?ps, [])" using split_pieces_separated [of ?ps 10 "[]"] lines by simp
  moreover have "map string_at ?ps = ?ps" by (rule map_idI, rule string_at_string) (use lines in blast)
  ultimately have "strnsplit ?t (length ?t) 10 = Some (?ps @ [[]])" by (simp add: strnsplit_def string_at_def)
  then show ?thesis using parse_lines_plain [OF assms(2)] by (simp add: gcr_records_parse_colons_def records_format)
qed

lemma spaces_parsed:
  assumes "\<forall>w \<in> set ws. c_string w \<and> 32 \<notin> set w" "c_string l" "32 \<notin> set l"
  shows "gcr_record_parse_spaces (separated 32 ws @ l @ [0]) (-1) =
    Some (if length (filter (\<lambda>w. w \<noteq> []) ws) < MAX_COLUMNS
          then Some \<lparr>columns = filter (\<lambda>w. w \<noteq> []) ws @ (if 2 \<le> length l then [l] else []), delimiter = 32\<rparr> else None)"
proof -
  let ?t = "separated 32 ws @ l"
  have t: "c_string ?t" using assms by auto
  have "line_bytes (?t @ [0]) (-1) = Some ?t" by (rule line_bytes_string [OF t])
  then show ?thesis
    using parse_pieces [of ws 32 l "[]" "length ?t" 0 False] assms t
    by (simp add: gcr_record_parse_spaces_def take_and_parse_internal_def Let_def MAX_COLUMNS_def)
qed

section \<open>Numbers\<close>

lemma digits_value_decimal: "digits_value (decimal n) = int n"
proof (induction n rule: decimal.induct)
  case (1 n)
  show ?case
  proof (cases "n < 10")
    case True
    then show ?thesis using digit_value(1) [of n] by (subst decimal.simps) (simp add: digits_value_def)
  next
    case False
    have "digits_value (decimal n) = digits_value (decimal (n div 10)) * 10 + (uint (word_of_nat (48 + n mod 10) :: byte) - 48)"
      using False by (subst decimal.simps) (simp add: digits_value_def)
    also have "\<dots> = int (n div 10) * 10 + int (n mod 10)"
      using 1 False digit_value(1) [of "n mod 10"] by (simp only: not_False_eq_True mod_less_divisor zero_less_numeral)
    finally show ?thesis by (simp only: of_nat_mod of_nat_div of_nat_numeral) simp
  qed
qed

lemma digit_no_space: "c_isdigit c \<Longrightarrow> \<not> c_isspace c"
  using order_trans [of 48 c 13] by (auto simp: c_isdigit_def c_isspace_def)

lemma read_decimal: "read_number (decimal n) = Some (False, int n, [])"
proof -
  have d: "\<forall>c \<in> set (decimal n). c_isdigit c" using decimal_digits by (simp add: c_isdigit_def)
  have h: "c_isdigit (hd (decimal n))" using d by simp
  then have "\<not> c_isspace (hd (decimal n))" "hd (decimal n) \<noteq> 45" "hd (decimal n) \<noteq> 43"
    using digit_no_space [OF h] by (auto simp: c_isdigit_def)
  moreover have "dropWhile c_isspace (decimal n) = decimal n" using calculation(1) by (cases "decimal n") simp_all
  moreover have t: "takeWhile c_isdigit (decimal n) = decimal n" "dropWhile c_isdigit (decimal n) = []" using d by simp_all
  ultimately show ?thesis by (simp add: read_number_def digits_value_decimal Let_def t)
qed

lemma c_string_decimal: "c_string (decimal n)"
  using decimal_digits [of 0 n] by auto

lemma get_decimal:
  "column < length (columns r) \<Longrightarrow> gcr_record_get_raw (record_take_column r column (decimal n)) column = Some (decimal n)"
  by (simp add: gcr_record_get_raw_def record_take_column_def c_string_decimal)

lemma get_set_uint:
  assumes "column < length (columns r)" "v < 2 ^ 32"
  shows "gcr_record_get_uint (gcr_record_set_uint r column v) column = Some (int v)"
  using assms get_decimal [OF assms(1), of v] by (simp add: gcr_record_get_uint_def gcr_record_set_uint_def g_ascii_strtoll_def read_decimal)

lemma get_set_ulong:
  assumes "column < length (columns r)" "v < 2 ^ 64"
  shows "gcr_record_get_ulong (gcr_record_set_ulong r column v) column = (if v < 2 ^ 63 then Some (int v mod 2 ^ 32) else None)"
  using assms get_decimal [OF assms(1), of v]
  by (simp add: gcr_record_get_ulong_def gcr_record_set_ulong_def g_ascii_strtoull_def read_decimal gint64_def)

end
