(* ===== verification/RecordProperties.thy ===== *)
theory RecordProperties
  imports RecordText
begin

text \<open>
  The properties of \<open>gcr/gcr-record.c\<close>: what is left of strings, records and numbers that were stored in columns or
  printed as lines, and that a copy of a record is equal to it.
\<close>

section \<open>Copies\<close>

abbreviation joined :: "bytes list \<Rightarrow> bytes" where
  "joined cs \<equiv> concat (map (\<lambda>c. c @ [0]) cs)"

lemma flatten_writes:
  "length (joined cs) \<le> length z \<Longrightarrow>
    foldl (\<lambda>b c. do { (block, at) \<leftarrow> b; block \<leftarrow> mem_write block at (c @ [0]); Some (block, at + length c + 1) }) (Some (Some (w @ z), length w)) cs =
      Some (Some (w @ joined cs @ drop (length (joined cs)) z), length (w @ joined cs))"
proof (induction cs arbitrary: w z)
  case (Cons c cs)
  have "mem_write (Some (w @ z)) (length w) (c @ [0]) = Some (Some ((w @ c @ [0]) @ drop (length c + 1) z))"
    using Cons.prems by (simp add: mem_write_Some)
  moreover have "length (joined cs) \<le> length (drop (length c + 1) z)" using Cons.prems by simp
  note Cons.IH [OF this, of "w @ c @ [0]"]
  ultimately show ?case by (simp add: add.commute add.left_commute)
qed simp

lemma column_in_block:
  assumes "i < length cs" "\<forall>c \<in> set cs. c_string c"
  shows "string_at (drop (sum_list (map (\<lambda>c. length c + 1) (take i cs))) (joined cs @ rest)) = cs ! i"
proof -
  have l: "sum_list (map (\<lambda>c. length c + 1) ds) = length (joined ds)" for ds :: "bytes list" by (induction ds) simp_all
  have "joined cs = joined (take i cs @ cs ! i # drop (Suc i) cs)" using id_take_nth_drop [OF assms(1)] by simp
  then have "joined cs = joined (take i cs) @ (cs ! i) @ 0 # joined (drop (Suc i) cs)" by simp
  then have "drop (length (joined (take i cs))) (joined cs @ rest) = cs ! i @ 0 # (joined (drop (Suc i) cs) @ rest)" by simp
  moreover have "c_string (cs ! i)" using assms by simp
  ultimately show ?thesis unfolding l by (simp only: string_at_zero not_False_eq_True)
qed

lemma copy_equal:
  assumes "\<forall>c \<in> set (columns r). c_string c"
  shows "gcr_record_copy r = Some r"
proof -
  let ?n = "sum_list (map (\<lambda>c. length c + 1) (columns r))"
  have n: "?n = length (joined (columns r))" by (simp add: length_concat o_def)
  let ?b = "joined (columns r) @ [0 :: byte]"
  have d: "drop k (replicate (k + 1) (0 :: byte)) = [0]" for k by (simp only: drop_replicate add_diff_cancel_left') simp
  have w: "foldl (\<lambda>b c. do { (block, at) \<leftarrow> b; block \<leftarrow> mem_write block at (c @ [0]); Some (block, at + length c + 1) })
      (Some (Some (replicate (?n + 1) 0), 0)) (columns r) = Some (Some ?b, ?n)"
    using flatten_writes [of "columns r" "replicate (?n + 1) 0" "[]", unfolded length_replicate n d] n
    by (simp only: append_Nil list.size(3) n length_replicate le_add1 simp_thms)
  have "map (\<lambda>i. string_at (drop (sum_list (map (\<lambda>c. length c + 1) (take i (columns r)))) ?b)) [0..<length (columns r)] = columns r"
    by (rule nth_equalityI) (use column_in_block [OF _ assms] in simp_all)
  then show ?thesis unfolding gcr_record_copy_def record_flatten_def Let_def w by simp
qed

section \<open>Properties\<close>

text \<open>
  C25. Strings in columns. A string that was stored in a column is read from it as it was, unless one of its
  characters is a control character without an escape of its own, or the delimiter: such characters are written with
  hexadecimal digits, which the reader never understands, so that it returns the text with all of its escapes.
\<close>

lemma record_string:
  assumes "column < length (columns r)" "c_string s"
  shows "gcr_record_get_string U (gcr_record_set_string r column s) column =
    Some (Some (to_utf8 U (if \<exists>c \<in> set s. hexed (delimiter r) c then escaped_text (delimiter r) s else s)))"
  by (rule get_set_string [OF assms])

text \<open>The string \<open>a:b\<close> comes back as \<open>a\x3ab\<close>.\<close>

lemma record_string_witness:
  "gcr_record_get_string \<lparr>g_utf8_validate = \<lambda>_. True, g_convert = id\<rparr>
      (gcr_record_set_string \<lparr>columns = [[], []], delimiter = 58\<rparr> 1 [97, 58, 98]) 1 = Some (Some [97, 92, 120, 51, 97, 98])"
  using record_string [of 1 "\<lparr>columns = [[], []], delimiter = 58\<rparr>" "[97, 58, 98]" "\<lparr>g_utf8_validate = \<lambda>_. True, g_convert = id\<rparr>"]
  by (simp add: to_utf8_def hexed_def needs_escape_def escape_char_def escape_one_def HEXC_LOWER_def)

text \<open>
  C26. Records in lines. Printing records and parsing the text gives every record back with one more column, which is empty, and
  behind them a record that is nothing but an empty column.
\<close>

lemma records_reparsed:
  assumes "rs \<noteq> []" "\<forall>r \<in> set rs. plain_record r"
  shows "gcr_records_parse_colons (gcr_records_format rs) (length (gcr_records_format rs)) =
    Some (Some (map (\<lambda>r. r\<lparr>columns := columns r @ [[]]\<rparr>) rs @ [\<lparr>columns = [[]], delimiter = 58\<rparr>]))"
  by (rule reparse_records [OF assms])

lemma records_reparsed_witness:
  "gcr_records_parse_colons (gcr_records_format [\<lparr>columns = [[112], []], delimiter = 58\<rparr>]) (length (gcr_records_format [\<lparr>columns = [[112], []], delimiter = 58\<rparr>])) =
    Some (Some [\<lparr>columns = [[112], [], []], delimiter = 58\<rparr>, \<lparr>columns = [[]], delimiter = 58\<rparr>])"
  using records_reparsed [of "[\<lparr>columns = [[112], []], delimiter = 58\<rparr>]"] by (simp add: plain_record_def MAX_COLUMNS_def)

text \<open>
  C27. Words in a line. A line of words between spaces gives the words in their order, unless there are too many; but
  its last word is dropped when it has only one character.
\<close>

lemma record_words:
  assumes "\<forall>w \<in> set ws. c_string w \<and> 32 \<notin> set w" "c_string l" "32 \<notin> set l"
  shows "gcr_record_parse_spaces (separated 32 ws @ l @ [0]) (-1) =
    Some (if length (filter (\<lambda>w. w \<noteq> []) ws) < MAX_COLUMNS
          then Some \<lparr>columns = filter (\<lambda>w. w \<noteq> []) ws @ (if 2 \<le> length l then [l] else []), delimiter = 32\<rparr> else None)"
  by (rule spaces_parsed [OF assms])

lemma record_words_witness:
  "gcr_record_parse_spaces [75, 69, 89, 32, 32, 49, 0] (-1) = Some (Some \<lparr>columns = [[75, 69, 89]], delimiter = 32\<rparr>)"
  using record_words [of "[[75, 69, 89], []]" "[49]"] by (simp add: MAX_COLUMNS_def)

text \<open>
  C28. Numbers in columns. A number of 32 bits that was stored in a column is read from it. A long one is read with its
  lowest 32 bits only, and not at all from the half of its range on.
\<close>

lemma record_numbers:
  assumes "column < length (columns r)" "v < 2 ^ 32" "w < 2 ^ 64"
  shows "gcr_record_get_uint (gcr_record_set_uint r column v) column = Some (int v) \<and>
    gcr_record_get_ulong (gcr_record_set_ulong r column w) column = (if w < 2 ^ 63 then Some (int w mod 2 ^ 32) else None)"
  using get_set_uint [OF assms(1,2)] get_set_ulong [OF assms(1,3)] by blast

lemma record_numbers_witness:
  "gcr_record_get_uint (gcr_record_set_uint \<lparr>columns = [[]], delimiter = 58\<rparr> 0 4294967295) 0 = Some 4294967295 \<and>
    gcr_record_get_ulong (gcr_record_set_ulong \<lparr>columns = [[]], delimiter = 58\<rparr> 0 4294967301) 0 = Some 5"
  using record_numbers [of 0 "\<lparr>columns = [[]], delimiter = 58\<rparr>" 4294967295 4294967301] by simp

end
