(* ===== verification/Collections.thy ===== *)
theory Collections
  imports GcrPrelude "HOL-Library.AList"
begin

text \<open>
  \<open>gcr/gcr-collection.c\<close> and its implementations \<open>gcr/gcr-simple-collection.c\<close>, \<open>gcr/gcr-single-collection.c\<close>,
  \<open>gcr/gcr-filter-collection.c\<close> and \<open>gcr/gcr-union-collection.c\<close>: collections of objects that tell their listeners which
  objects come and go, and that listen to each other.
\<close>

type_synonym coll = nat
type_synonym obj = nat

section \<open>Collections\<close>

text \<open>
  The tables of the collections are lists of their keys, and of their keys with the counts. A filter has the
  collection below it and its callback, where \<open>None\<close> is the callback that is \<open>NULL\<close>; a union has its collections. Its counts, of the type \<open>gint\<close>, are
  at most as many as these.
\<close>

datatype collection =
    Simple "obj list"
  | Single "obj option"
  | Filter "obj list" coll "(obj \<Rightarrow> bool) option"
  | Union "(obj \<times> int) list" "coll list"

datatype signal = Added | Removed

text \<open>
  The collections of a process: their objects, for each the collections whose handlers are connected to its two signals, in
  the order of the connections, and all signals that were ever emitted. In which order a hash table gives its keys
  is not known.
\<close>

record network =
  colls :: "coll \<Rightarrow> collection option"
  handlers :: "coll \<Rightarrow> coll list"
  signals :: "(coll \<times> signal \<times> obj) list"
  hash_order :: "nat list \<Rightarrow> nat list"

type_synonym work = "(signal \<times> coll \<times> obj) list"

abbreviation set_coll :: "network \<Rightarrow> coll \<Rightarrow> collection \<Rightarrow> network" where
  "set_coll n c k \<equiv> n\<lparr>colls := (colls n)(c \<mapsto> k)\<rparr>"

fun keys :: "collection \<Rightarrow> obj list" where
  "keys (Simple items) = items"
| "keys (Single object) = (case object of None \<Rightarrow> [] | Some x \<Rightarrow> [x])"
| "keys (Filter items u f) = items"
| "keys (Union items cs) = map fst items"

definition gcr_collection_get_length :: "network \<Rightarrow> coll \<Rightarrow> nat" where
  "gcr_collection_get_length n c = (case colls n c of None \<Rightarrow> 0 | Some k \<Rightarrow> length (keys k))"

definition gcr_collection_get_objects :: "network \<Rightarrow> coll \<Rightarrow> obj list" where
  "gcr_collection_get_objects n c =
     (case colls n c of None \<Rightarrow> [] | Some (Single object) \<Rightarrow> keys (Single object) | Some k \<Rightarrow> hash_order n (keys k))"

definition gcr_collection_contains :: "network \<Rightarrow> coll \<Rightarrow> obj \<Rightarrow> bool" where
  "gcr_collection_contains n c x = (case colls n c of None \<Rightarrow> False | Some k \<Rightarrow> x \<in> set (keys k))"

section \<open>Signals\<close>

text \<open>An emission calls the handlers one after the other; what they emit in turn is done before the next handler runs.\<close>

definition emit :: "signal \<Rightarrow> network \<Rightarrow> coll \<Rightarrow> obj \<Rightarrow> network \<times> work" where
  "emit s n c x = (n\<lparr>signals := signals n @ [(c, s, x)]\<rparr>, map (\<lambda>h. (s, h, x)) (handlers n c))"

abbreviation gcr_collection_emit_added :: "network \<Rightarrow> coll \<Rightarrow> obj \<Rightarrow> network \<times> work" where
  "gcr_collection_emit_added \<equiv> emit Added"

abbreviation gcr_collection_emit_removed :: "network \<Rightarrow> coll \<Rightarrow> obj \<Rightarrow> network \<times> work" where
  "gcr_collection_emit_removed \<equiv> emit Removed"

definition filter_object :: "(obj \<Rightarrow> bool) option \<Rightarrow> obj \<Rightarrow> bool" where
  "filter_object filter_func x = (case filter_func of None \<Rightarrow> True | Some f \<Rightarrow> f x)"

definition add_object :: "network \<Rightarrow> coll \<Rightarrow> obj \<Rightarrow> (network \<times> work) option" where
  "add_object n self x =
     (case colls n self of
        Some (Filter items u f) \<Rightarrow> do {
          c_assert (x \<notin> set items);
          Some (gcr_collection_emit_added (set_coll n self (Filter (x # items) u f)) self x) }
      | _ \<Rightarrow> None)"

definition remove_object :: "network \<Rightarrow> coll \<Rightarrow> obj \<Rightarrow> (network \<times> work) option" where
  "remove_object n self x =
     (case colls n self of
        Some (Filter items u f) \<Rightarrow> do {
          c_assert (x \<in> set items);
          Some (gcr_collection_emit_removed (set_coll n self (Filter (removeAll x items) u f)) self x) }
      | _ \<Rightarrow> None)"

definition filter_on_collection_added :: "network \<Rightarrow> coll \<Rightarrow> obj \<Rightarrow> (network \<times> work) option" where
  "filter_on_collection_added n self x =
     (case colls n self of
        Some (Filter items u f) \<Rightarrow> if filter_object f x then add_object n self x else Some (n, [])
      | _ \<Rightarrow> None)"

definition filter_on_collection_removed :: "network \<Rightarrow> coll \<Rightarrow> obj \<Rightarrow> (network \<times> work) option" where
  "filter_on_collection_removed n self x =
     (case colls n self of
        Some (Filter items u f) \<Rightarrow> if x \<in> set items then remove_object n self x else Some (n, [])
      | _ \<Rightarrow> None)"

definition union_on_collection_added :: "network \<Rightarrow> coll \<Rightarrow> obj \<Rightarrow> (network \<times> work) option" where
  "union_on_collection_added n self x =
     (case colls n self of
        Some (Union items cs) \<Rightarrow>
          (case map_of items x of
             None \<Rightarrow> Some (gcr_collection_emit_added (set_coll n self (Union (AList.update x 1 items) cs)) self x)
           | Some number \<Rightarrow> do {
               c_assert (number > 0);
               Some (set_coll n self (Union (AList.update x (number + 1) items) cs), []) })
      | _ \<Rightarrow> None)"

text \<open>A union that does not know the object only prints a warning.\<close>

definition union_on_collection_removed :: "network \<Rightarrow> coll \<Rightarrow> obj \<Rightarrow> (network \<times> work) option" where
  "union_on_collection_removed n self x =
     (case colls n self of
        Some (Union items cs) \<Rightarrow>
          (case map_of items x of
             None \<Rightarrow> Some (n, [])
           | Some number \<Rightarrow> do {
               c_assert (number > 0);
               if number - 1 = 0
               then Some (gcr_collection_emit_removed (set_coll n self (Union (AList.delete x items) cs)) self x)
               else Some (set_coll n self (Union (AList.update x (number - 1) items) cs), []) })
      | _ \<Rightarrow> None)"

text \<open>Which handler a collection has connected.\<close>

definition on_collection_added :: "network \<Rightarrow> coll \<Rightarrow> obj \<Rightarrow> (network \<times> work) option" where
  "on_collection_added n self x =
     (case colls n self of
        Some (Filter items u f) \<Rightarrow> filter_on_collection_added n self x
      | Some (Union items cs) \<Rightarrow> union_on_collection_added n self x
      | _ \<Rightarrow> None)"

definition on_collection_removed :: "network \<Rightarrow> coll \<Rightarrow> obj \<Rightarrow> (network \<times> work) option" where
  "on_collection_removed n self x =
     (case colls n self of
        Some (Filter items u f) \<Rightarrow> filter_on_collection_removed n self x
      | Some (Union items cs) \<Rightarrow> union_on_collection_removed n self x
      | _ \<Rightarrow> None)"

lemmas added_defs = on_collection_added_def filter_on_collection_added_def union_on_collection_added_def

lemmas removed_defs = on_collection_removed_def filter_on_collection_removed_def union_on_collection_removed_def

definition on_signal :: "network \<Rightarrow> signal \<Rightarrow> coll \<Rightarrow> obj \<Rightarrow> (network \<times> work) option" where
  "on_signal n s self x = (case s of Added \<Rightarrow> on_collection_added n self x | Removed \<Rightarrow> on_collection_removed n self x)"

text \<open>
  The handlers that are still to be called, the innermost emission first. Every handler emits at most once, and that
  last of all. Collections may listen to each other in a circle, so that nothing obvious bounds the calls.
\<close>

partial_function (option) deliver_signals :: "network \<Rightarrow> work \<Rightarrow> network option" where
  "deliver_signals n W =
     (case W of
        [] \<Rightarrow> Some n
      | (s, h, x) # W \<Rightarrow> Option.bind (on_signal n s h x) (\<lambda>(n, new). deliver_signals n (new @ W)))"

declare deliver_signals.simps [code]

definition finish :: "network \<times> work \<Rightarrow> network option" where
  "finish p = deliver_signals (fst p) (snd p)"

definition connect_to_collection :: "network \<Rightarrow> coll \<Rightarrow> coll \<Rightarrow> network" where
  "connect_to_collection n self c = n\<lparr>handlers := (handlers n)(c := handlers n c @ [self])\<rparr>"

definition disconnect_from_collection :: "network \<Rightarrow> coll \<Rightarrow> coll \<Rightarrow> network" where
  "disconnect_from_collection n self c = n\<lparr>handlers := (handlers n)(c := removeAll self (handlers n c))\<rparr>"

section \<open>Operations\<close>

text \<open>A new object has an address that no other one has; nobody has heard of it.\<close>

definition create :: "network \<Rightarrow> coll \<Rightarrow> collection \<Rightarrow> network" where
  "create n c k = (set_coll n c k)\<lparr>signals := filter (\<lambda>e. fst e \<noteq> c) (signals n)\<rparr>"

definition gcr_simple_collection_new :: "network \<Rightarrow> coll \<Rightarrow> network" where
  "gcr_simple_collection_new n c = create n c (Simple [])"

definition gcr_simple_collection_add :: "network \<Rightarrow> coll \<Rightarrow> obj \<Rightarrow> network option" where
  "gcr_simple_collection_add n self x =
     (case colls n self of
        Some (Simple items) \<Rightarrow>
          if x \<in> set items then Some n
          else finish (gcr_collection_emit_added (set_coll n self (Simple (x # items))) self x)
      | _ \<Rightarrow> Some n)"

definition gcr_simple_collection_remove :: "network \<Rightarrow> coll \<Rightarrow> obj \<Rightarrow> network option" where
  "gcr_simple_collection_remove n self x =
     (case colls n self of
        Some (Simple items) \<Rightarrow>
          if x \<notin> set items then Some n
          else finish (gcr_collection_emit_removed (set_coll n self (Simple (removeAll x items))) self x)
      | _ \<Rightarrow> Some n)"

definition gcr_single_collection_set_object :: "network \<Rightarrow> coll \<Rightarrow> obj option \<Rightarrow> network option" where
  "gcr_single_collection_set_object n self object =
     (case colls n self of
        Some (Single old) \<Rightarrow>
          if object = old then Some n
          else do {
            n \<leftarrow> (case old of None \<Rightarrow> Some n | Some x \<Rightarrow> finish (gcr_collection_emit_removed (set_coll n self (Single None)) self x));
            (case object of None \<Rightarrow> Some n | Some x \<Rightarrow> finish (gcr_collection_emit_added (set_coll n self (Single (Some x))) self x)) }
      | _ \<Rightarrow> Some n)"

definition gcr_single_collection_new :: "network \<Rightarrow> coll \<Rightarrow> obj option \<Rightarrow> network option" where
  "gcr_single_collection_new n c object = gcr_single_collection_set_object (create n c (Single None)) c object"

definition gcr_single_collection_get_object :: "network \<Rightarrow> coll \<Rightarrow> obj option" where
  "gcr_single_collection_get_object n self = (case colls n self of Some (Single object) \<Rightarrow> object | _ \<Rightarrow> None)"

text \<open>The loop over the objects below a filter; the last argument is the snapshot of its items.\<close>

fun refilter_loop :: "network \<Rightarrow> coll \<Rightarrow> (obj \<Rightarrow> bool) option \<Rightarrow> obj list \<Rightarrow> obj list \<Rightarrow> (network \<times> obj list) option" where
  "refilter_loop n self f [] snapshot = Some (n, snapshot)"
| "refilter_loop n self f (x # xs) snapshot = do {
     let have = x \<in> set snapshot;
     let should = filter_object f x;
     n \<leftarrow> (if have \<and> \<not> should then Option.bind (remove_object n self x) finish
          else if \<not> have \<and> should then Option.bind (add_object n self x) finish
          else Some n);
     refilter_loop n self f xs (removeAll x snapshot) }"

fun remove_each :: "network \<Rightarrow> coll \<Rightarrow> obj list \<Rightarrow> network option" where
  "remove_each n self [] = Some n"
| "remove_each n self (x # xs) = do { p \<leftarrow> remove_object n self x; n \<leftarrow> finish p; remove_each n self xs }"

definition gcr_filter_collection_refilter :: "network \<Rightarrow> coll \<Rightarrow> network option" where
  "gcr_filter_collection_refilter n self =
     (case colls n self of
        Some (Filter items u f) \<Rightarrow> do {
          (n, snapshot) \<leftarrow> refilter_loop n self f (gcr_collection_get_objects n u) items;
          remove_each n self (hash_order n snapshot) }
      | _ \<Rightarrow> Some n)"

definition gcr_filter_collection_set_callback :: "network \<Rightarrow> coll \<Rightarrow> (obj \<Rightarrow> bool) option \<Rightarrow> network option" where
  "gcr_filter_collection_set_callback n self callback =
     (case colls n self of
        Some (Filter items u f) \<Rightarrow> gcr_filter_collection_refilter (set_coll n self (Filter items u callback)) self
      | _ \<Rightarrow> Some n)"

definition gcr_filter_collection_new_with_callback :: "network \<Rightarrow> coll \<Rightarrow> coll \<Rightarrow> (obj \<Rightarrow> bool) option \<Rightarrow> network option" where
  "gcr_filter_collection_new_with_callback n c underlying callback =
     gcr_filter_collection_set_callback (connect_to_collection (create n c (Filter [] underlying None)) c underlying) c callback"

definition gcr_filter_collection_get_underlying :: "network \<Rightarrow> coll \<Rightarrow> coll option" where
  "gcr_filter_collection_get_underlying n self = (case colls n self of Some (Filter items u f) \<Rightarrow> Some u | _ \<Rightarrow> None)"

definition gcr_union_collection_new :: "network \<Rightarrow> coll \<Rightarrow> network" where
  "gcr_union_collection_new n c = create n c (Union [] [])"

text \<open>The loop over the objects calls the handler for each as the signal does.\<close>

definition gcr_union_collection_take :: "network \<Rightarrow> coll \<Rightarrow> coll \<Rightarrow> network option" where
  "gcr_union_collection_take n self c =
     (case colls n self of
        Some (Union items cs) \<Rightarrow>
          if colls n c = None \<or> c \<in> set cs then Some n
          else deliver_signals (connect_to_collection (set_coll n self (Union items (cs @ [c]))) self c)
            (map (\<lambda>x. (Added, self, x)) (gcr_collection_get_objects n c))
      | _ \<Rightarrow> Some n)"

definition gcr_union_collection_add :: "network \<Rightarrow> coll \<Rightarrow> coll \<Rightarrow> network option" where
  "gcr_union_collection_add n self c = gcr_union_collection_take n self c"

definition gcr_union_collection_remove :: "network \<Rightarrow> coll \<Rightarrow> coll \<Rightarrow> network option" where
  "gcr_union_collection_remove n self c =
     (case colls n self of
        Some (Union items cs) \<Rightarrow>
          if c \<notin> set cs then Some n
          else deliver_signals (disconnect_from_collection (set_coll n self (Union items (removeAll c cs))) self c)
            (map (\<lambda>x. (Removed, self, x)) (gcr_collection_get_objects n c))
      | _ \<Rightarrow> Some n)"

definition gcr_union_collection_have :: "network \<Rightarrow> coll \<Rightarrow> coll \<Rightarrow> bool" where
  "gcr_union_collection_have n self c = (case colls n self of Some (Union items cs) \<Rightarrow> c \<in> set cs | _ \<Rightarrow> False)"

definition gcr_union_collection_elements :: "network \<Rightarrow> coll \<Rightarrow> coll list" where
  "gcr_union_collection_elements n self = (case colls n self of Some (Union items cs) \<Rightarrow> hash_order n cs | _ \<Rightarrow> [])"

definition gcr_union_collection_size :: "network \<Rightarrow> coll \<Rightarrow> nat" where
  "gcr_union_collection_size n self = (case colls n self of Some (Union items cs) \<Rightarrow> length cs | _ \<Rightarrow> 0)"

section \<open>The end of a collection\<close>

definition gcr_union_collection_dispose :: "network \<Rightarrow> coll \<Rightarrow> network" where
  "gcr_union_collection_dispose n self =
     (case colls n self of
        Some (Union items cs) \<Rightarrow> set_coll (foldl (\<lambda>n c. disconnect_from_collection n self c) n cs) self (Union [] [])
      | _ \<Rightarrow> n)"

definition gcr_filter_collection_finalize :: "network \<Rightarrow> coll \<Rightarrow> network" where
  "gcr_filter_collection_finalize n self =
     (case colls n self of
        Some (Filter items u f) \<Rightarrow> (disconnect_from_collection n self u)\<lparr>colls := (colls n)(self := None)\<rparr>
      | _ \<Rightarrow> n)"

definition gcr_simple_collection_dispose :: "network \<Rightarrow> coll \<Rightarrow> network" where
  "gcr_simple_collection_dispose n self = (case colls n self of Some (Simple items) \<Rightarrow> set_coll n self (Simple []) | _ \<Rightarrow> n)"

definition gcr_simple_collection_finalize :: "network \<Rightarrow> coll \<Rightarrow> network option" where
  "gcr_simple_collection_finalize n self = do {
     c_assert (gcr_collection_get_length n self = 0);
     Some (n\<lparr>colls := (colls n)(self := None)\<rparr>) }"

definition gcr_union_collection_finalize :: "network \<Rightarrow> coll \<Rightarrow> network option" where
  "gcr_union_collection_finalize n self = do {
     c_assert (gcr_collection_get_length n self = 0);
     c_assert (gcr_union_collection_size n self = 0);
     Some (n\<lparr>colls := (colls n)(self := None)\<rparr>) }"

definition gcr_single_collection_dispose :: "network \<Rightarrow> coll \<Rightarrow> network option" where
  "gcr_single_collection_dispose n self = gcr_single_collection_set_object n self None"

text \<open>
  A collection ends when nobody has a reference to it; filters and unions have references to the collections that they
  listen to.
\<close>

definition release :: "network \<Rightarrow> coll \<Rightarrow> network option" where
  "release n c =
     (if handlers n c \<noteq> [] then Some n
      else case colls n c of
        None \<Rightarrow> Some n
      | Some (Simple items) \<Rightarrow> gcr_simple_collection_finalize (gcr_simple_collection_dispose n c) c
      | Some (Single object) \<Rightarrow> map_option (\<lambda>n. n\<lparr>colls := (colls n)(c := None)\<rparr>) (gcr_single_collection_dispose n c)
      | Some (Filter items u f) \<Rightarrow> Some (gcr_filter_collection_finalize n c)
      | Some (Union items cs) \<Rightarrow> gcr_union_collection_finalize (gcr_union_collection_dispose n c) c)"

text \<open>Calls that programs make, in any order.\<close>

datatype collection_request =
    NewSimple coll | NewSingle coll "obj option" | NewFilter coll coll "(obj \<Rightarrow> bool) option" | NewUnion coll
  | AddObject coll obj | RemoveObject coll obj | SetObject coll "obj option"
  | Refilter coll | SetCallback coll "(obj \<Rightarrow> bool) option"
  | TakeCollection coll coll | RemoveCollection coll coll | Release coll

fun perform :: "network \<Rightarrow> collection_request \<Rightarrow> network option" where
  "perform n (NewSimple c) = (if colls n c = None then Some (gcr_simple_collection_new n c) else Some n)"
| "perform n (NewSingle c x) = (if colls n c = None then gcr_single_collection_new n c x else Some n)"
| "perform n (NewFilter c u f) = (if colls n c = None \<and> colls n u \<noteq> None then gcr_filter_collection_new_with_callback n c u f else Some n)"
| "perform n (NewUnion c) = (if colls n c = None then Some (gcr_union_collection_new n c) else Some n)"
| "perform n (AddObject c x) = gcr_simple_collection_add n c x"
| "perform n (RemoveObject c x) = gcr_simple_collection_remove n c x"
| "perform n (SetObject c x) = gcr_single_collection_set_object n c x"
| "perform n (Refilter c) = gcr_filter_collection_refilter n c"
| "perform n (SetCallback c f) = gcr_filter_collection_set_callback n c f"
| "perform n (TakeCollection u c) = gcr_union_collection_add n u c"
| "perform n (RemoveCollection u c) = gcr_union_collection_remove n u c"
| "perform n (Release c) = release n c"

fun perform_all :: "network \<Rightarrow> collection_request list \<Rightarrow> network option" where
  "perform_all n [] = Some n"
| "perform_all n (c # cs) = Option.bind (perform n c) (\<lambda>n. perform_all n cs)"

definition no_collections :: "(nat list \<Rightarrow> nat list) \<Rightarrow> network" where
  "no_collections order = \<lparr>colls = \<lambda>_. None, handlers = \<lambda>_. [], signals = [], hash_order = order\<rparr>"

end
