(* ===== verification/CollectionNet.thy ===== *)
theory CollectionNet
  imports Collections
begin

text \<open>
  The invariant of a network of collections, also between the calls of handlers: what a collection has and what it is still to be
  told add up to what the collections below it have. From this follow that every emission ends, and that no
  assertion fails.
\<close>

section \<open>What a collection has and what it listens to\<close>

fun listener :: "collection \<Rightarrow> bool" where
  "listener (Filter items u f) = True"
| "listener (Union items cs) = True"
| "listener _ = False"

fun sources :: "collection \<Rightarrow> coll list" where
  "sources (Filter items u f) = [u]"
| "sources (Union items cs) = cs"
| "sources _ = []"

fun passes :: "collection \<Rightarrow> obj \<Rightarrow> bool" where
  "passes (Filter items u f) x = filter_object f x"
| "passes _ x = True"

text \<open>How often the collection believes that an object is below it.\<close>

fun believed :: "collection \<Rightarrow> obj \<Rightarrow> int" where
  "believed (Union items cs) x = (case map_of items x of None \<Rightarrow> 0 | Some v \<Rightarrow> v)"
| "believed k x = of_bool (x \<in> set (keys k))"

fun same_kind :: "collection \<Rightarrow> collection \<Rightarrow> bool" where
  "same_kind (Simple _) (Simple _) = True"
| "same_kind (Single _) (Single _) = True"
| "same_kind (Filter _ u f) (Filter _ u' f') \<longleftrightarrow> u = u' \<and> f = f'"
| "same_kind (Union _ cs) (Union _ cs') \<longleftrightarrow> cs = cs'"
| "same_kind _ _ = False"

abbreviation inside :: "network \<Rightarrow> coll \<Rightarrow> obj \<Rightarrow> bool" where
  "inside \<equiv> gcr_collection_contains"

definition below :: "network \<Rightarrow> collection \<Rightarrow> obj \<Rightarrow> int" where
  "below n k x = int (length (filter (\<lambda>c. inside n c x) (sources k)))"

text \<open>What the calls that are still to come will tell a collection of an object.\<close>

definition pending :: "work \<Rightarrow> coll \<Rightarrow> obj \<Rightarrow> int" where
  "pending W h x = int (count_list W (Added, h, x)) - int (count_list W (Removed, h, x))"

definition agrees :: "network \<Rightarrow> (coll \<times> obj) set \<Rightarrow> work \<Rightarrow> bool" where
  "agrees n E W \<longleftrightarrow> (\<forall>h k x. colls n h = Some k \<longrightarrow> listener k \<longrightarrow> (h, x) \<notin> E \<longrightarrow>
     (if passes k x then believed k x + pending W h x = below n k x else x \<notin> set (keys k)))"

lemma agreesD:
  "agrees n E W \<Longrightarrow> colls n h = Some k \<Longrightarrow> listener k \<Longrightarrow> (h, x) \<notin> E \<Longrightarrow>
    if passes k x then believed k x + pending W h x = below n k x else x \<notin> set (keys k)"
  unfolding agrees_def by blast

fun hear :: "coll \<Rightarrow> obj set option \<Rightarrow> coll \<times> signal \<times> obj \<Rightarrow> obj set option" where
  "hear c S (c', s, x) =
     (if c' \<noteq> c then S
      else Option.bind S (\<lambda>S. if x \<in> S \<longleftrightarrow> s = Added then None else Some (case s of Added \<Rightarrow> insert x S | Removed \<Rightarrow> S - {x})))"

text \<open>What somebody knows of a collection who has heard all of its signals; \<open>None\<close> if they contradict each other.\<close>

definition heard :: "coll \<Rightarrow> (coll \<times> signal \<times> obj) list \<Rightarrow> obj set option" where
  "heard c log = foldl (hear c) (Some {}) log"

fun table_ok :: "collection \<Rightarrow> bool" where
  "table_ok (Union items cs) \<longleftrightarrow> distinct (map fst items) \<and> distinct cs \<and> (\<forall>(x, v) \<in> set items. v > 0)"
| "table_ok k \<longleftrightarrow> distinct (keys k)"

fun not_itself :: "coll \<Rightarrow> collection \<Rightarrow> bool" where
  "not_itself c (Filter items u f) \<longleftrightarrow> u \<noteq> c"
| "not_itself c _ = True"

definition hash_law :: "(nat list \<Rightarrow> nat list) \<Rightarrow> bool" where
  "hash_law order \<longleftrightarrow> (\<forall>xs. distinct xs \<longrightarrow> distinct (order xs) \<and> set (order xs) = set xs)"

definition wired :: "network \<Rightarrow> bool" where
  "wired n \<longleftrightarrow> finite (dom (colls n)) \<and> hash_law (hash_order n) \<and>
     (\<forall>c k. colls n c = Some k \<longrightarrow> table_ok k \<and> not_itself c k \<and> set (sources k) \<subseteq> dom (colls n) \<and> heard c (signals n) = Some (set (keys k))) \<and>
     (\<forall>c. distinct (handlers n c) \<and> (\<forall>h. h \<in> set (handlers n c) \<longleftrightarrow> (\<exists>k. colls n h = Some k \<and> c \<in> set (sources k))))"

section \<open>Simple facts\<close>

lemma same_kind_simps:
  assumes "same_kind k k'"
  shows "listener k' = listener k" "sources k' = sources k" "passes k' = passes k" "not_itself c k' = not_itself c k"
  using assms by (induction k k' rule: same_kind.induct) auto

lemma same_kind_refl [simp]: "same_kind k k" by (cases k) simp_all

lemma same_kind_trans: "same_kind k k' \<Longrightarrow> same_kind k' k'' \<Longrightarrow> same_kind k k''"
  by (cases k; cases k'; cases k'') simp_all

lemma table_distinct: "table_ok k \<Longrightarrow> distinct (keys k)" by (cases k) (auto split: option.splits)

lemma table_sources: "table_ok k \<Longrightarrow> distinct (sources k)" by (cases k) auto

lemma sources_listener: "c \<in> set (sources k) \<Longrightarrow> listener k" by (cases k) auto

lemma believed_keys:
  assumes "table_ok k"
  shows "believed k x \<ge> 0" "x \<in> set (keys k) \<longleftrightarrow> believed k x > 0"
proof -
  have "believed k x \<ge> 0 \<and> (x \<in> set (keys k) \<longleftrightarrow> believed k x > 0)"
  proof (cases k)
    case (Union items cs)
    show ?thesis
    proof (cases "map_of items x")
      case None
      then have "x \<notin> set (keys k)" using Union by (simp add: map_of_eq_None_iff)
      then show ?thesis using Union None by simp
    next
      case (Some v)
      then show ?thesis using Union assms map_of_SomeD [OF Some] by (force simp: image_iff)
    qed
  qed (auto split: option.splits)
  then show "believed k x \<ge> 0" "x \<in> set (keys k) \<longleftrightarrow> believed k x > 0" by blast+
qed

lemma wired_coll:
  assumes "wired n" "colls n c = Some k"
  shows "table_ok k" "not_itself c k" "set (sources k) \<subseteq> dom (colls n)" "heard c (signals n) = Some (set (keys k))"
  using assms unfolding wired_def by blast+

lemma wired_source: "wired n \<Longrightarrow> colls n h = Some k \<Longrightarrow> c \<in> set (sources k) \<Longrightarrow> colls n c \<noteq> None"
  using wired_coll(3) [of n h k] by auto

lemma wired_handlers:
  assumes "wired n"
  shows "distinct (handlers n c)" "h \<in> set (handlers n c) \<longleftrightarrow> (\<exists>k. colls n h = Some k \<and> c \<in> set (sources k))"
  using assms unfolding wired_def by blast+

lemma inside_keys: "colls n c = Some k \<Longrightarrow> inside n c x \<longleftrightarrow> x \<in> set (keys k)"
  by (simp add: gcr_collection_contains_def)

lemma heard_snoc:
  "heard c (log @ [(c', s, x)]) = hear c (heard c log) (c', s, x)"
  by (simp add: heard_def)

lemma length_filter_change:
  "distinct cs \<Longrightarrow> \<forall>c'. c' \<noteq> c \<longrightarrow> P' c' = P c' \<Longrightarrow>
    int (length (filter P' cs)) = int (length (filter P cs)) + (if c \<in> set cs then of_bool (P' c) - of_bool (P c) else 0)"
  by (induction cs) auto

lemma pending_Nil [simp]: "pending [] h x = 0" by (simp add: pending_def)

definition sign :: "signal \<Rightarrow> int" where
  "sign s = (case s of Added \<Rightarrow> 1 | Removed \<Rightarrow> -1)"

lemma pending_Cons: "pending ((s, h, x) # W) h' y = pending W h' y + (if h' = h \<and> y = x then sign s else 0)"
  by (cases s) (auto simp: pending_def sign_def)

lemma pending_handlers:
  "distinct hs \<Longrightarrow> pending (map (\<lambda>h. (s, h, x)) hs @ W) h' y = pending W h' y + (if h' \<in> set hs \<and> y = x then sign s else 0)"
  by (induction hs) (auto simp: pending_Cons)

lemma pending_objects:
  "distinct xs \<Longrightarrow> pending (map (\<lambda>x. (s, h, x)) xs) h' y = (if h' = h \<and> y \<in> set xs then sign s else 0)"
  by (induction xs) (auto simp: pending_Cons)

lemma pending_sign: "\<forall>e \<in> set W. fst e = s \<Longrightarrow> sign s * pending W h x \<ge> 0"
proof -
  assume s: "\<forall>e \<in> set W. fst e = s"
  have z: "count_list W (t, h, x) = 0" if "t \<noteq> s" for t using s that by (auto simp: count_list_0_iff)
  show ?thesis using z [of Added] z [of Removed] by (cases s) (simp_all add: pending_def sign_def)
qed

section \<open>One collection changes\<close>

lemma below_change:
  assumes "distinct (sources k'')" "\<forall>y. y \<noteq> x \<longrightarrow> (y \<in> set (keys k') \<longleftrightarrow> y \<in> set (keys k))" "colls n c = Some k"
  shows "below (set_coll n c k') k'' y =
    below n k'' y + (if y = x \<and> c \<in> set (sources k'') then of_bool (x \<in> set (keys k')) - of_bool (x \<in> set (keys k)) else 0)"
proof -
  have i: "\<forall>c'. c' \<noteq> c \<longrightarrow> inside (set_coll n c k') c' y = inside n c' y" by (simp add: gcr_collection_contains_def)
  show ?thesis using length_filter_change [OF assms(1) i] assms(2,3)
    by (auto simp: below_def gcr_collection_contains_def)
qed

lemma agrees_replace:
  assumes "wired n" "colls n c = Some k" "same_kind k k'" "agrees n E W"
    and other: "\<forall>y. y \<noteq> x \<longrightarrow> believed k' y = believed k y \<and> (y \<in> set (keys k') \<longleftrightarrow> y \<in> set (keys k))"
    and work: "\<forall>h y. (h, y) \<in> E \<or> h = c \<and> y = x \<and> \<not> (listener k \<and> passes k x) \<or>
      pending W' h y = pending W h y + (if y = x \<and> h \<in> set (handlers n c) then of_bool (x \<in> set (keys k')) - of_bool (x \<in> set (keys k)) else 0)
        - (if y = x \<and> h = c then believed k' x - believed k x else 0)"
    and fails: "(c, x) \<notin> E \<Longrightarrow> listener k \<Longrightarrow> \<not> passes k x \<Longrightarrow> x \<notin> set (keys k')"
  shows "agrees (set_coll n c k') E W'"
  unfolding agrees_def
proof (intro allI impI)
  fix h k1 y
  assume h: "colls (set_coll n c k') h = Some k1" "listener k1" "(h, y) \<notin> E"
  obtain k0 where k0: "colls n h = Some k0" "same_kind k0 k1" "h \<noteq> c \<Longrightarrow> k1 = k0" "h = c \<Longrightarrow> k1 = k' \<and> k0 = k"
    using h(1) assms(2,3) by (cases "h = c") auto
  note kind = same_kind_simps [OF k0(2)]
  have old: "if passes k0 y then believed k0 y + pending W h y = below n k0 y else y \<notin> set (keys k0)"
    using assms(4) k0(1) h(2,3) kind(1) unfolding agrees_def by blast
  have d: "distinct (sources k1)" using table_sources wired_coll(1) [OF assms(1) k0(1)] kind(2) by simp
  have handler: "h \<in> set (handlers n c) \<longleftrightarrow> c \<in> set (sources k1)" using wired_handlers(2) [OF assms(1)] k0(1) kind(2) by simp
  have new: "below (set_coll n c k') k1 y =
      below n k1 y + (if y = x \<and> c \<in> set (sources k1) then of_bool (x \<in> set (keys k')) - of_bool (x \<in> set (keys k)) else 0)"
    by (rule below_change [OF d _ assms(2)]) (use other in blast)
  have b: "below n k1 y = below n k0 y" using kind(2) by (simp add: below_def)
  show "if passes k1 y then believed k1 y + pending W' h y = below (set_coll n c k') k1 y else y \<notin> set (keys k1)"
  proof (cases "passes k1 y")
    case True
    then have p: "passes k0 y" using kind(3) by simp
    have "\<not> (h = c \<and> y = x \<and> \<not> (listener k \<and> passes k x))" using k0(4) p h(2) kind(1) by auto
    then have w: "pending W' h y = pending W h y + (if y = x \<and> h \<in> set (handlers n c) then of_bool (x \<in> set (keys k')) - of_bool (x \<in> set (keys k)) else 0)
        - (if y = x \<and> h = c then believed k' x - believed k x else 0)" using work h(3) by blast
    have v: "believed k1 y = believed k0 y + (if y = x \<and> h = c then believed k' x - believed k x else 0)" using k0(3,4) other by (cases "h = c"; cases "y = x") auto
    show ?thesis using True p old w v new b handler by (simp split: if_splits)
  next
    case False
    then show ?thesis using old kind(3) k0(3,4) other fails h(2,3) kind(1) by (cases "h = c"; cases "y = x") auto
  qed
qed

lemma agrees_signals [simp]: "agrees (n\<lparr>signals := l\<rparr>) E W = agrees n E W"
  by (simp add: agrees_def below_def gcr_collection_contains_def)

lemma wired_exchange:
  assumes "wired n" "colls n c = Some k" "sources k' = sources k" "not_itself c k' = not_itself c k" "table_ok k'" "set (keys k') = set (keys k)"
  shows "wired (set_coll n c k')"
proof -
  have "dom (colls (set_coll n c k')) = dom (colls n)" using assms(2) by auto
  then show ?thesis using assms unfolding wired_def by auto
qed

lemma wired_replace:
  assumes "wired n" "colls n c = Some k" "same_kind k k'" "table_ok k'" "set (keys k') = set (keys k)"
  shows "wired (set_coll n c k')"
  by (rule wired_exchange [OF assms(1,2) _ _ assms(4,5)]) (simp_all add: same_kind_simps [OF assms(3)])

lemma wired_emit:
  assumes "wired n" "colls n c = Some k" "same_kind k k'" "table_ok k'"
    "hear c (Some (set (keys k))) (c, s, x) = Some (set (keys k'))"
  shows "wired ((set_coll n c k')\<lparr>signals := signals n @ [(c, s, x)]\<rparr>)"
proof -
  note kind = same_kind_simps [OF assms(3)]
  have "dom (colls (set_coll n c k')) = dom (colls n)" using assms(2) by auto
  moreover have "heard c' (signals n @ [(c, s, x)]) = (if c' = c then Some (set (keys k')) else heard c' (signals n))" for c'
    using wired_coll(4) [OF assms(1,2)] assms(5) by (simp add: heard_snoc)
  ultimately show ?thesis using assms(1,2,4) kind unfolding wired_def by (auto simp del: hear.simps)
qed

section \<open>Circles\<close>

text \<open>
  Unions that have each other: every collection of \<open>C\<close> is a union that has the object, it has a collection of \<open>C\<close>, and a
  collection of \<open>C\<close> has it.
\<close>

definition circle :: "network \<Rightarrow> coll set \<Rightarrow> obj \<Rightarrow> bool" where
  "circle n C x \<longleftrightarrow> (\<forall>u \<in> C. (\<exists>items cs. colls n u = Some (Union items cs) \<and> x \<in> fst ` set items \<and> (\<exists>c \<in> C. c \<in> set cs)) \<and>
     (\<exists>v \<in> C. \<exists>items cs. colls n v = Some (Union items cs) \<and> u \<in> set cs))"

definition keeps_circles :: "network \<Rightarrow> network \<Rightarrow> bool" where
  "keeps_circles n n' \<longleftrightarrow> (\<forall>C x. circle n C x \<longrightarrow> circle n' C x)"

lemma keeps_refl [simp]: "keeps_circles n n"
  by (simp add: keeps_circles_def)

lemma keeps_trans: "keeps_circles n n' \<Longrightarrow> keeps_circles n' n'' \<Longrightarrow> keeps_circles n n''"
  by (simp add: keeps_circles_def)

lemma keepsD: "keeps_circles n n' \<Longrightarrow> circle n C x \<Longrightarrow> circle n' C x"
  by (simp add: keeps_circles_def)

lemma circle_union:
  assumes "circle n C x" "u \<in> C" "colls n u = Some k"
  obtains items cs c where "k = Union items cs" "x \<in> fst ` set items" "c \<in> C" "c \<in> set cs"
proof -
  obtain items cs c where "colls n u = Some (Union items cs)" "x \<in> fst ` set items" "c \<in> C" "c \<in> set cs"
    using assms(1,2) unfolding circle_def by fast
  then show thesis using that assms(3) by simp
qed

lemma circle_inside:
  assumes "circle n C x" "u \<in> C"
  shows "inside n u x"
proof -
  obtain items cs where "colls n u = Some (Union items cs)" "x \<in> fst ` set items"
    using assms unfolding circle_def by fast
  then show ?thesis by (simp add: gcr_collection_contains_def)
qed

lemma circle_cong: "\<forall>u \<in> C. colls n' u = colls n u \<Longrightarrow> circle n' C x \<longleftrightarrow> circle n C x"
  by (simp add: circle_def cong: bex_cong)

lemma circle_frame [simp]: "circle (n\<lparr>signals := l\<rparr>) C x \<longleftrightarrow> circle n C x" "circle (n\<lparr>handlers := hs\<rparr>) C x \<longleftrightarrow> circle n C x"
  by (simp_all add: circle_def)

lemma keeps_frame [simp]:
  "keeps_circles (n\<lparr>signals := l\<rparr>) n' \<longleftrightarrow> keeps_circles n n'" "keeps_circles n (n'\<lparr>signals := l\<rparr>) \<longleftrightarrow> keeps_circles n n'"
  "keeps_circles n (n'\<lparr>handlers := hs\<rparr>) \<longleftrightarrow> keeps_circles n n'"
  by (simp_all add: keeps_circles_def)

lemma circle_other:
  assumes "\<forall>items cs. colls n c \<noteq> Some (Union items cs)" "\<forall>d. d \<noteq> c \<longrightarrow> colls n' d = colls n d"
  shows "keeps_circles n n'"
  unfolding keeps_circles_def
proof (intro allI impI)
  fix C x assume C: "circle n C x"
  have "c \<notin> C"
  proof
    assume "c \<in> C"
    then have "\<exists>items cs. colls n c = Some (Union items cs)" using C unfolding circle_def by fast
    then show False using assms(1) by simp
  qed
  then have "\<forall>u \<in> C. colls n' u = colls n u" using assms(2) by auto
  then show "circle n' C x" using C circle_cong [of C n' n x] by simp
qed

lemma circle_replace:
  assumes "colls n h = Some k" "same_kind k k'" "circle n C x" "h \<in> C \<Longrightarrow> x \<in> set (keys k')"
  shows "circle (set_coll n h k') C x"
proof (cases "h \<in> C")
  case False
  then show ?thesis using circle_cong [of C "set_coll n h k'" n x] assms(3) by auto
next
  case True
  obtain items cs where k: "k = Union items cs" by (rule circle_union [OF assms(3) True assms(1)])
  then obtain items' where k': "k' = Union items' cs" using assms(2) by (cases k') auto
  let ?n = "set_coll n h k'"
  have old: "colls ?n v = Some (if v = h then Union items' cs else Union is ds)"
    if "colls n v = Some (Union is ds)" for v "is" ds using that k' by simp
  have same: "ds = cs" if "colls n h = Some (Union is ds)" for "is" ds using that assms(1) k by simp
  have "\<exists>is ds. colls ?n u = Some (Union is ds) \<and> x \<in> fst ` set is \<and> (\<exists>c \<in> C. c \<in> set ds)" if u: "u \<in> C" for u
  proof -
    obtain "is" ds c where o: "colls n u = Some (Union is ds)" "x \<in> fst ` set is" "c \<in> C" "c \<in> set ds"
      using assms(3) u unfolding circle_def by fast
    show ?thesis
    proof (cases "u = h")
      case True
      then show ?thesis using old [OF o(1)] same o assms(4) u k' by (intro exI [of _ items'] exI [of _ ds]) auto
    next
      case False
      then show ?thesis using o by auto
    qed
  qed
  moreover have "\<exists>v \<in> C. \<exists>is ds. colls ?n v = Some (Union is ds) \<and> u \<in> set ds" if u: "u \<in> C" for u
  proof -
    obtain v "is" ds where o: "v \<in> C" "colls n v = Some (Union is ds)" "u \<in> set ds"
      using assms(3) u unfolding circle_def by fast
    show ?thesis using old [OF o(2)] same o by (intro bexI [OF _ o(1)]) (cases "v = h"; auto)
  qed
  ultimately show ?thesis unfolding circle_def by simp
qed

text \<open>A union that is told of a removal has the object at least twice when it is on a circle.\<close>

lemma circle_counted:
  assumes "circle n C x" "h \<in> C" "colls n h = Some k" "agrees n E ((Removed, h, x) # W)" "\<forall>e \<in> set W. fst e = Removed" "(h, x) \<notin> E"
  shows "believed k x > 1"
proof -
  obtain items cs c where k: "k = Union items cs" "c \<in> C" "c \<in> set cs" by (rule circle_union [OF assms(1-3)])
  have "c \<in> set (filter (\<lambda>c. inside n c x) cs)" using k circle_inside [OF assms(1) k(2)] by simp
  then have "filter (\<lambda>c. inside n c x) cs \<noteq> []" by force
  then have "below n k x \<ge> 1" using k(1) by (simp add: below_def Suc_le_eq)
  moreover have "believed k x + pending ((Removed, h, x) # W) h x = below n k x"
    using agreesD [OF assms(4,3) _ assms(6)] k(1) by simp
  moreover have "pending W h x \<le> 0" using pending_sign [OF assms(5), of h x] by (simp add: sign_def)
  ultimately show ?thesis by (simp add: pending_Cons sign_def)
qed

section \<open>What changes while signals are delivered\<close>

text \<open>Signals of one kind about the objects in \<open>X\<close> only add these objects, or only remove them, and never from a circle.\<close>

definition later :: "signal \<Rightarrow> obj set \<Rightarrow> network \<Rightarrow> network \<Rightarrow> bool" where
  "later s X n n' \<longleftrightarrow> hash_order n' = hash_order n \<and> handlers n' = handlers n \<and> (\<forall>c. rel_option same_kind (colls n c) (colls n' c)) \<and>
     (\<forall>c k. colls n c = Some k \<longrightarrow> \<not> listener k \<longrightarrow> colls n' c = Some k) \<and>
     (\<forall>c y. y \<notin> X \<longrightarrow> inside n' c y = inside n c y) \<and>
     (\<forall>c y. (s = Added \<longrightarrow> inside n c y \<longrightarrow> inside n' c y) \<and> (s = Removed \<longrightarrow> inside n' c y \<longrightarrow> inside n c y)) \<and>
     keeps_circles n n'"

lemma later_refl [simp]: "later s X n n"
proof -
  have "rel_option same_kind k k" for k by (cases k) simp_all
  then show ?thesis by (simp add: later_def)
qed

lemma later_trans:
  assumes "later s X n n'" "later s X n' n''"
  shows "later s X n n''"
proof -
  have "rel_option same_kind (colls n c) (colls n'' c)" for c
  proof -
    have a: "rel_option same_kind (colls n c) (colls n' c)" "rel_option same_kind (colls n' c) (colls n'' c)"
      using assms unfolding later_def by blast+
    then show ?thesis by (cases "colls n c"; cases "colls n' c"; cases "colls n'' c") (auto intro: same_kind_trans)
  qed
  moreover have "keeps_circles n n''" using assms keeps_trans unfolding later_def by blast
  ultimately show ?thesis using assms unfolding later_def by simp
qed

lemma later_kind:
  assumes "later s X n n'" "colls n c = Some k"
  obtains k' where "colls n' c = Some k'" "same_kind k k'"
proof -
  have "rel_option same_kind (colls n c) (colls n' c)" using assms(1) unfolding later_def by blast
  then show thesis using that assms(2) by (cases "colls n' c") auto
qed

lemma later_dom: "later s X n n' \<Longrightarrow> dom (colls n') = dom (colls n)"
proof -
  assume "later s X n n'"
  then have "rel_option same_kind (colls n c) (colls n' c)" for c unfolding later_def by blast
  then have "colls n c = None \<longleftrightarrow> colls n' c = None" for c by (metis option.rel_cases option.distinct(1))
  then show ?thesis by (intro set_eqI) (simp only: domIff)
qed

lemma later_replace:
  assumes "colls n c = Some k" "same_kind k k'" "listener k"
    "\<forall>y. y \<noteq> x \<longrightarrow> (y \<in> set (keys k') \<longleftrightarrow> y \<in> set (keys k))" "x \<in> X"
    "s = Added \<Longrightarrow> x \<in> set (keys k) \<Longrightarrow> x \<in> set (keys k')" "s = Removed \<Longrightarrow> x \<in> set (keys k') \<Longrightarrow> x \<in> set (keys k)"
    "\<And>C. circle n C x \<Longrightarrow> c \<in> C \<Longrightarrow> x \<in> set (keys k')"
  shows "later s X n (set_coll n c k')" "later s X n ((set_coll n c k')\<lparr>signals := l\<rparr>)"
proof -
  have r: "rel_option same_kind k k" for k by (cases k) simp_all
  have o: "y \<in> set (keys k') \<longleftrightarrow> y \<in> set (keys k)" if "y \<notin> X" for y using that assms(4,5) by metis
  have m: "y \<in> set (keys k) \<longrightarrow> y \<in> set (keys k')" if "s = Added" for y using that assms(4,6) by (cases "y = x") auto
  have m': "y \<in> set (keys k') \<longrightarrow> y \<in> set (keys k)" if "s = Removed" for y using that assms(4,7) by (cases "y = x") auto
  have "circle (set_coll n c k') C y" if C: "circle n C y" for C y
  proof (rule circle_replace [OF assms(1,2) C])
    assume c: "c \<in> C"
    show "y \<in> set (keys k')"
      using assms(4,8) C c circle_inside [OF C c] assms(1) by (cases "y = x") (auto simp: inside_keys)
  qed
  then have "keeps_circles n (set_coll n c k')" by (simp add: keeps_circles_def)
  then show "later s X n (set_coll n c k')" "later s X n ((set_coll n c k')\<lparr>signals := l\<rparr>)"
    using assms(1-3) o r m m' unfolding later_def by (auto simp: gcr_collection_contains_def)
qed

end
