(* ===== verification/CollectionDeliver.thy ===== *)
theory CollectionDeliver
  imports CollectionNet
begin

text \<open>The handlers of filters and unions keep the network in agreement, and the delivery of signals ends.\<close>

section \<open>Tables with counts\<close>

lemma union_values: "distinct (map fst items) \<Longrightarrow> (\<forall>(x, v) \<in> set items. v > 0) \<longleftrightarrow> (\<forall>x v. map_of items x = Some v \<longrightarrow> v > 0)"
  by (auto simp: map_of_eq_Some_iff)

lemma union_keys: "x \<in> fst ` set items \<longleftrightarrow> map_of items x \<noteq> None"
  by (auto simp: map_of_eq_None_iff)

lemma union_update:
  assumes "table_ok (Union items cs)" "v > 0"
  shows "table_ok (Union (AList.update x v items) cs)"
    "y \<in> set (keys (Union (AList.update x v items) cs)) \<longleftrightarrow> y = x \<or> y \<in> set (keys (Union items cs))"
    "believed (Union (AList.update x v items) cs) y = (if y = x then v else believed (Union items cs) y)"
proof -
  have d: "distinct (map fst (AList.update x v items))" using assms(1) by (simp add: distinct_update)
  have "\<forall>y w. map_of (AList.update x v items) y = Some w \<longrightarrow> w > 0"
    using assms union_values [of items] by (simp add: update_conv')
  then show "table_ok (Union (AList.update x v items) cs)" using d assms(1) by (simp add: union_values)
  show "y \<in> set (keys (Union (AList.update x v items) cs)) \<longleftrightarrow> y = x \<or> y \<in> set (keys (Union items cs))"
    by (simp add: dom_update)
  show "believed (Union (AList.update x v items) cs) y = (if y = x then v else believed (Union items cs) y)"
    by (simp add: update_conv')
qed

lemma deleted_keys: "fst ` set (AList.delete x items) = fst ` set items - {x}"
proof -
  have "set (map fst (AList.delete x items)) = set (map fst items) - {x}" unfolding delete_keys by simp
  then show ?thesis by simp
qed

lemma union_delete:
  assumes "table_ok (Union items cs)"
  shows "table_ok (Union (AList.delete x items) cs)"
    "y \<in> set (keys (Union (AList.delete x items) cs)) \<longleftrightarrow> y \<noteq> x \<and> y \<in> set (keys (Union items cs))"
    "believed (Union (AList.delete x items) cs) y = (if y = x then 0 else believed (Union items cs) y)"
proof -
  have d: "distinct (map fst (AList.delete x items))" using assms by (simp add: delete_keys distinct_removeAll)
  have "\<forall>y w. map_of (AList.delete x items) y = Some w \<longrightarrow> w > 0"
    using assms union_values [of items] by (simp add: delete_conv')
  then show "table_ok (Union (AList.delete x items) cs)" using d assms by (simp add: union_values)
  show "y \<in> set (keys (Union (AList.delete x items) cs)) \<longleftrightarrow> y \<noteq> x \<and> y \<in> set (keys (Union items cs))"
    unfolding keys.simps delete_keys by auto
  show "believed (Union (AList.delete x items) cs) y = (if y = x then 0 else believed (Union items cs) y)"
    by (simp add: delete_conv')
qed

section \<open>One perform of a handler\<close>

lemma told_emits:
  assumes "wired n" "colls n h = Some k" "listener k" "agrees n E ((s, h, x) # W)" "x \<in> X" "\<forall>e \<in> set W. fst e = s" "(h, x) \<notin> E" "passes k x"
    and k': "same_kind k k'" "table_ok k'" "believed k' x = believed k x + sign s"
    and keys: "set (keys k') = (case s of Added \<Rightarrow> insert x (set (keys k)) | Removed \<Rightarrow> set (keys k) - {x})"
    and new: "x \<in> set (keys k) \<longleftrightarrow> s = Removed"
    and other: "\<forall>y. y \<noteq> x \<longrightarrow> believed k' y = believed k y"
  defines "p \<equiv> emit s (set_coll n h k') h x"
  shows "wired (fst p)" "agrees (fst p) E (snd p @ W)" "later s X n (fst p)"
    "snd p = map (\<lambda>h. (s, h, x)) (handlers n h)" "inside n h x \<longleftrightarrow> s = Removed" "inside (fst p) h x \<longleftrightarrow> s = Added"
proof -
  have o: "\<forall>y. y \<noteq> x \<longrightarrow> believed k' y = believed k y \<and> (y \<in> set (keys k') \<longleftrightarrow> y \<in> set (keys k))"
    using keys other by (auto split: signal.splits)
  have x: "x \<in> set (keys k') \<longleftrightarrow> s = Added" using keys by (auto split: signal.splits)
  have d: "of_bool (x \<in> set (keys k')) - of_bool (x \<in> set (keys k)) = sign s" using x new by (cases s) (simp_all add: sign_def)
  have h: "hear h (Some (set (keys k))) (h, s, x) = Some (set (keys k'))" using keys new by (cases s) auto
  show "wired (fst p)" using wired_emit [OF assms(1,2) k'(1,2) h] by (simp add: p_def emit_def)
  have "(h', y) \<in> E \<or> h' = h \<and> y = x \<and> \<not> (listener k \<and> passes k x) \<or> pending (map (\<lambda>h. (s, h, x)) (handlers n h) @ W) h' y = pending ((s, h, x) # W) h' y +
      (if y = x \<and> h' \<in> set (handlers n h) then of_bool (x \<in> set (keys k')) - of_bool (x \<in> set (keys k)) else 0) -
      (if y = x \<and> h' = h then believed k' x - believed k x else 0)" for h' y
    using k'(3) d pending_handlers [OF wired_handlers(1) [OF assms(1)], of s x h W h' y] by (simp add: pending_Cons)
  then have "agrees (set_coll n h k') E (map (\<lambda>h. (s, h, x)) (handlers n h) @ W)"
    by (intro agrees_replace [OF assms(1,2) k'(1) assms(4) o]) (use assms(8) in blast)+
  then show "agrees (fst p) E (snd p @ W)" by (simp add: p_def emit_def)
  have "x \<in> set (keys k')" if "circle n C x" "h \<in> C" for C
  proof (cases s)
    case Removed
    have "believed k' x = 0" using believed_keys [OF k'(2), of x] x Removed by simp
    then show ?thesis using circle_counted [OF that assms(2) assms(4) [unfolded Removed] _ assms(7)] assms(6) k'(3) Removed by (simp add: sign_def)
  qed (use x in simp)
  then show "later s X n (fst p)" unfolding p_def emit_def fst_conv
    by (intro later_replace(2) [OF assms(2) k'(1) assms(3) _ assms(5)]) (use o x new in auto)
  show "snd p = map (\<lambda>h. (s, h, x)) (handlers n h)" by (simp add: p_def emit_def)
  show "inside n h x \<longleftrightarrow> s = Removed" "inside (fst p) h x \<longleftrightarrow> s = Added"
    using new x assms(2) by (simp_all add: gcr_collection_contains_def p_def emit_def)
qed

lemma told_quietly:
  assumes "wired n" "colls n h = Some k" "listener k" "agrees n E ((s, h, x) # W)" "x \<in> X"
    and k': "same_kind k k'" "table_ok k'" "passes k x \<Longrightarrow> believed k' x = believed k x + sign s"
    and keys: "set (keys k') = set (keys k)" "\<not> passes k x \<Longrightarrow> x \<notin> set (keys k)"
    and other: "\<forall>y. y \<noteq> x \<longrightarrow> believed k' y = believed k y"
  shows "wired (set_coll n h k')" "agrees (set_coll n h k') E W" "later s X n (set_coll n h k')"
proof -
  have o: "\<forall>y. y \<noteq> x \<longrightarrow> believed k' y = believed k y \<and> (y \<in> set (keys k') \<longleftrightarrow> y \<in> set (keys k))" using keys other by simp
  show "wired (set_coll n h k')" by (rule wired_replace [OF assms(1,2) k'(1,2) keys(1)])
  have "(h', y) \<in> E \<or> h' = h \<and> y = x \<and> \<not> (listener k \<and> passes k x) \<or> pending W h' y = pending ((s, h, x) # W) h' y +
      (if y = x \<and> h' \<in> set (handlers n h) then of_bool (x \<in> set (keys k')) - of_bool (x \<in> set (keys k)) else 0) -
      (if y = x \<and> h' = h then believed k' x - believed k x else 0)" for h' y
    using k'(3) assms(3) keys(1) by (auto simp: pending_Cons)
  then show "agrees (set_coll n h k') E W"
    by (intro agrees_replace [OF assms(1,2) k'(1) assms(4) o]) (use keys in blast)+
  show "later s X n (set_coll n h k')"
    by (rule later_replace(1) [OF assms(2) k'(1) assms(3) _ assms(5)])
      (use keys circle_inside [of n _ x h] inside_keys [OF assms(2)] in auto)
qed

lemma agrees_next:
  assumes "wired n" "agrees n E ((s, h, x) # W)" "\<forall>e \<in> set W. fst e = s" "(h, x) \<notin> E" "colls n h = Some k" "listener k"
  shows "\<not> passes k x \<Longrightarrow> x \<notin> set (keys k)"
    "passes k x \<Longrightarrow> s = Added \<Longrightarrow> believed k x < below n k x"
    "passes k x \<Longrightarrow> s = Removed \<Longrightarrow> x \<in> set (keys k)"
proof -
  have a: "if passes k x then believed k x + pending ((s, h, x) # W) h x = below n k x else x \<notin> set (keys k)"
    using assms(2,4,5,6) unfolding agrees_def by blast
  then show "\<not> passes k x \<Longrightarrow> x \<notin> set (keys k)" by simp
  have p: "sign s * pending W h x \<ge> 0" by (rule pending_sign [OF assms(3)])
  show "believed k x < below n k x" if "passes k x" "s = Added" using a p that by (simp add: pending_Cons sign_def)
  have b: "below n k x \<ge> 0" by (simp add: below_def)
  show "x \<in> set (keys k)" if "passes k x" "s = Removed"
  proof -
    have "believed k x > 0" using a p b that by (simp add: pending_Cons sign_def)
    then show ?thesis using believed_keys(2) wired_coll(1) [OF assms(1,5)] by blast
  qed
qed

lemma below_filter: "below n (Filter items u f) x \<le> 1"
  by (simp add: below_def)

definition stepped :: "network \<Rightarrow> (coll \<times> obj) set \<Rightarrow> obj set \<Rightarrow> signal \<Rightarrow> coll \<Rightarrow> obj \<Rightarrow> work \<Rightarrow> network \<times> work \<Rightarrow> bool" where
  "stepped n E X s h x W p \<longleftrightarrow> wired (fst p) \<and> agrees (fst p) E (snd p @ W) \<and> later s X n (fst p) \<and>
     (snd p = [] \<or> snd p = map (\<lambda>h. (s, h, x)) (handlers n h) \<and> (inside n h x \<longleftrightarrow> s = Removed) \<and> (inside (fst p) h x \<longleftrightarrow> s = Added))"

lemma added_step:
  assumes "wired n" "agrees n E ((Added, h, x) # W)" "\<forall>e \<in> set W. fst e = Added" "(h, x) \<notin> E" "colls n h = Some k" "listener k" "x \<in> X"
  shows "\<exists>p. on_collection_added n h x = Some p \<and> stepped n E X Added h x W p"
proof -
  note next1 = agrees_next [OF assms(1-6)] and table = wired_coll(1) [OF assms(1,5)]
  note told = told_emits [OF assms(1,5,6,2,7,3,4)] and quiet = told_quietly [OF assms(1,5,6,2,7)]
  show ?thesis
  proof (cases k)
    case (Filter items u f)
    show ?thesis
    proof (cases "filter_object f x")
      case True
      have new: "x \<notin> set items"
        using next1(2) believed_keys(2) [OF table, of x] below_filter [of n items u f x] True Filter by (auto split: if_splits)
      have "stepped n E X Added h x W (emit Added (set_coll n h (Filter (x # items) u f)) h x)"
        using told [of "Filter (x # items) u f"] True new table Filter by (simp add: stepped_def sign_def)
      then show ?thesis using assms(5) True new Filter by (simp add: added_defs add_object_def)
    next
      case False
      have "set_coll n h k = n" using assms(5) by (simp add: map_upd_triv)
      then have "stepped n E X Added h x W (n, [])"
        using quiet [of k] False next1(1) table Filter by (simp add: stepped_def)
      then show ?thesis using assms(5) False Filter by (simp add: added_defs)
    qed
  next
    case (Union items cs)
    show ?thesis
    proof (cases "map_of items x")
      case None
      have "stepped n E X Added h x W (emit Added (set_coll n h (Union (AList.update x 1 items) cs)) h x)"
        using told [of "Union (AList.update x 1 items) cs"] union_update [of items cs 1 x] None table Union
        by (simp add: stepped_def sign_def union_keys dom_update)
      then show ?thesis using assms(5) None Union by (simp add: added_defs)
    next
      case (Some v)
      have v: "v > 0" using union_values [of items] table Union Some by simp
      have "x \<in> fst ` set items" using Some by (simp add: union_keys)
      then have "stepped n E X Added h x W (set_coll n h (Union (AList.update x (v + 1) items) cs), [])"
        using quiet [of "Union (AList.update x (v + 1) items) cs"] union_update [of items cs "v + 1" x] v Some table Union
        by (simp add: stepped_def sign_def union_keys dom_update insert_absorb)
      then show ?thesis using assms(5) v Some Union by (simp add: added_defs)
    qed
  qed (use assms(6) in simp_all)
qed

lemma removed_step:
  assumes "wired n" "agrees n E ((Removed, h, x) # W)" "\<forall>e \<in> set W. fst e = Removed" "(h, x) \<notin> E" "colls n h = Some k" "listener k" "x \<in> X"
  shows "\<exists>p. on_collection_removed n h x = Some p \<and> stepped n E X Removed h x W p"
proof -
  note next1 = agrees_next [OF assms(1-6)] and table = wired_coll(1) [OF assms(1,5)]
  note told = told_emits [OF assms(1,5,6,2,7,3,4)] and quiet = told_quietly [OF assms(1,5,6,2,7)]
  show ?thesis
  proof (cases k)
    case (Filter items u f)
    show ?thesis
    proof (cases "x \<in> set items")
      case True
      have p: "filter_object f x" using next1(1) True Filter by auto
      have "stepped n E X Removed h x W (emit Removed (set_coll n h (Filter (removeAll x items) u f)) h x)"
        using told [of "Filter (removeAll x items) u f"] True p table Filter by (simp add: stepped_def sign_def distinct_removeAll)
      then show ?thesis using assms(5) True Filter by (simp add: removed_defs remove_object_def)
    next
      case False
      have "set_coll n h k = n" using assms(5) by (simp add: map_upd_triv)
      then have "stepped n E X Removed h x W (n, [])"
        using quiet [of k] False next1(3) table Filter by (auto simp: stepped_def)
      then show ?thesis using assms(5) False Filter by (simp add: removed_defs)
    qed
  next
    case (Union items cs)
    have "x \<in> fst ` set items" using next1(3) Union by simp
    then obtain v where v: "map_of items x = Some v" by (auto simp: union_keys)
    have pos: "v > 0" using union_values [of items] table Union v by simp
    show ?thesis
    proof (cases "v - 1 = 0")
      case True
      have "stepped n E X Removed h x W (emit Removed (set_coll n h (Union (AList.delete x items) cs)) h x)"
        using told [of "Union (AList.delete x items) cs"] union_delete [of items cs x] v True table Union \<open>x \<in> fst ` set items\<close>
        by (simp add: stepped_def sign_def deleted_keys)
      then show ?thesis using assms(5) v pos True Union by (simp add: removed_defs)
    next
      case False
      then have "stepped n E X Removed h x W (set_coll n h (Union (AList.update x (v - 1) items) cs), [])"
        using quiet [of "Union (AList.update x (v - 1) items) cs"] union_update [of items cs "v - 1" x] v pos table Union \<open>x \<in> fst ` set items\<close>
        by (simp add: stepped_def sign_def dom_update insert_absorb)
      then show ?thesis using assms(5) v pos False Union by (simp add: removed_defs)
    qed
  qed (use assms(6) in simp_all)
qed

lemma signal_step:
  assumes "wired n" "agrees n E ((s, h, x) # W)" "\<forall>e \<in> set W. fst e = s" "(h, x) \<notin> E" "colls n h = Some k" "listener k" "x \<in> X"
  shows "\<exists>p. on_signal n s h x = Some p \<and> stepped n E X s h x W p"
  using added_step [of n E h x W k X] removed_step [of n E h x W k X] assms by (cases s) (simp_all add: on_signal_def)

section \<open>Delivery\<close>

text \<open>The objects that can still come to a collection, or go from it.\<close>

definition unsettled :: "signal \<Rightarrow> obj set \<Rightarrow> network \<Rightarrow> (coll \<times> obj) set" where
  "unsettled s X n = {(c, y). c \<in> dom (colls n) \<and> y \<in> X \<and> (inside n c y \<longleftrightarrow> s = Removed)}"

lemma finite_unsettled: "finite (dom (colls n)) \<Longrightarrow> finite X \<Longrightarrow> finite (unsettled s X n)"
  by (rule finite_subset [of _ "dom (colls n) \<times> X"]) (auto simp: unsettled_def)

lemma unsettled_later: "later s X n n' \<Longrightarrow> unsettled s X n' \<subseteq> unsettled s X n"
  using later_dom [of s X n n'] by (cases s) (auto simp: unsettled_def later_def)

lemma unsettled_less:
  assumes "finite (dom (colls n))" "finite X" "later s X n n'" "c \<in> dom (colls n)" "y \<in> X"
    "inside n c y \<longleftrightarrow> s = Removed" "inside n' c y \<longleftrightarrow> s = Added"
  shows "card (unsettled s X n') < card (unsettled s X n)"
proof (rule psubset_card_mono)
  have "(c, y) \<in> unsettled s X n" "(c, y) \<notin> unsettled s X n'" using assms(4-7) by (cases s; simp add: unsettled_def)+
  then show "unsettled s X n' \<subset> unsettled s X n" using unsettled_later [OF assms(3)] by blast
qed (rule finite_unsettled [OF assms(1,2)])

text \<open>The work that can be done: all of one kind, about known objects, and for collections that listen.\<close>

definition workable :: "network \<Rightarrow> signal \<Rightarrow> obj set \<Rightarrow> work \<Rightarrow> bool" where
  "workable n s X W \<longleftrightarrow> (\<forall>t h x. (t, h, x) \<in> set W \<longrightarrow> t = s \<and> x \<in> X \<and> (\<exists>k. colls n h = Some k \<and> listener k))"

lemma workable_Cons:
  "workable n s X ((t, h, x) # W) \<longleftrightarrow> t = s \<and> x \<in> X \<and> (\<exists>k. colls n h = Some k \<and> listener k) \<and> workable n s X W"
  unfolding workable_def by (simp add: all_conj_distrib)

lemma workable_later:
  assumes "workable n s X W" "later s X n n'"
  shows "workable n' s X W"
proof -
  have "\<exists>k. colls n' h = Some k \<and> listener k" if "colls n h = Some k" "listener k" for h k
  proof -
    have "rel_option same_kind (colls n h) (colls n' h)" using assms(2) unfolding later_def by blast
    then show ?thesis using that same_kind_simps(1) by (cases "colls n' h") auto
  qed
  then show ?thesis using assms(1) unfolding workable_def by blast
qed

lemma workable_handlers:
  assumes "wired n" "x \<in> X"
  shows "workable n s X (map (\<lambda>h. (s, h, x)) (handlers n c))"
  using wired_handlers(2) [OF assms(1)] sources_listener assms(2) by (fastforce simp: workable_def)

lemma workable_append [simp]: "workable n s X (V @ W) \<longleftrightarrow> workable n s X V \<and> workable n s X W"
  by (auto simp: workable_def)

lemma deliver_signals_ok:
  assumes "wired n" "agrees n E W" "workable n s X W" "E \<inter> UNIV \<times> X = {}" "finite X"
  shows "\<exists>n'. deliver_signals n W = Some n' \<and> wired n' \<and> agrees n' E [] \<and> later s X n n'"
  using assms(1-3)
proof (induction "(card (unsettled s X n), length W)" arbitrary: n W
    rule: wf_induct_rule [OF wf_lex_prod [OF wf_less_than wf_less_than]])
  case 1
  show ?case
  proof (cases W)
    case Nil
    then show ?thesis using 1 by (simp add: deliver_signals.simps)
  next
    case (Cons e V)
    obtain t h x where e: "e = (t, h, x)" by (cases e)
    note work = 1(4) [unfolded Cons e workable_Cons]
    then have w: "t = s" "x \<in> X" by blast+
    obtain k where k: "colls n h = Some k" "listener k" using work by blast
    have V: "\<forall>e \<in> set V. fst e = s" "workable n s X V" using work by (auto simp: workable_def)
    have "(h, x) \<notin> E" using assms(4) w(2) by blast
    from signal_step [OF 1(2) 1(3) [unfolded Cons e w(1)] V(1) this k w(2)]
    obtain n1 new where step: "on_signal n s h x = Some (n1, new)" "stepped n E X s h x V (n1, new)" by auto
    then have n1: "wired n1" "agrees n1 E (new @ V)" "later s X n n1" by (simp_all add: stepped_def)
    have "workable n s X new" using step(2) workable_handlers [OF 1(2) w(2)] by (auto simp: stepped_def workable_def)
    then have work: "workable n1 s X (new @ V)" using workable_later [OF _ n1(3)] V(2) by simp
    have fin: "finite (dom (colls n))" using 1(2) by (simp add: wired_def)
    have "((card (unsettled s X n1), length (new @ V)), card (unsettled s X n), length W) \<in> less_than <*lex*> less_than"
    proof (cases "new = []")
      case True
      then show ?thesis using card_mono [OF finite_unsettled [OF fin assms(5)] unsettled_later [OF n1(3)]] Cons by auto
    next
      case False
      then have "inside n h x \<longleftrightarrow> s = Removed" "inside n1 h x \<longleftrightarrow> s = Added" using step(2) by (auto simp: stepped_def)
      then show ?thesis using unsettled_less [OF fin assms(5) n1(3) _ w(2)] k(1) by (auto simp: domI)
    qed
    from 1(1) [OF this n1(1,2) work]
    obtain n' where "deliver_signals n1 (new @ V) = Some n'" "wired n'" "agrees n' E []" "later s X n1 n'" by blast
    then show ?thesis using step(1) later_trans [OF n1(3)] Cons e w(1) by (auto simp: deliver_signals.simps)
  qed
qed

end
