(* ===== verification/CollectionCalls.thy ===== *)
theory CollectionCalls
  imports CollectionDeliver
begin

text \<open>Every call of a program keeps the network consistent, and keeps circles unless it takes them apart.\<close>

definition consistent :: "network \<Rightarrow> bool" where
  "consistent n \<longleftrightarrow> wired n \<and> agrees n {} []"

section \<open>Emissions\<close>

lemma emit_ok:
  assumes "wired n" "colls n c = Some k" "same_kind k k'" "table_ok k'"
    and keys: "set (keys k') = (case s of Added \<Rightarrow> insert x (set (keys k)) | Removed \<Rightarrow> set (keys k) - {x})"
    and new: "x \<in> set (keys k) \<longleftrightarrow> s = Removed"
    and a: "agrees (set_coll n c k') E (map (\<lambda>h. (s, h, x)) (handlers n c))" and E: "E \<inter> UNIV \<times> {x} = {}"
  shows "\<exists>n'. finish (emit s (set_coll n c k') c x) = Some n' \<and> wired n' \<and> agrees n' E [] \<and> later s {x} (set_coll n c k') n'"
proof -
  let ?n = "(set_coll n c k')\<lparr>signals := signals n @ [(c, s, x)]\<rparr>" and ?W = "map (\<lambda>h. (s, h, x)) (handlers n c)"
  have h: "hear c (Some (set (keys k))) (c, s, x) = Some (set (keys k'))" using keys new by (cases s) auto
  have w: "wired ?n" by (rule wired_emit [OF assms(1-4) h])
  have "workable ?n s {x} ?W" using workable_handlers [OF w, of x "{x}" s c] by simp
  with w obtain n' where n': "deliver_signals ?n ?W = Some n'" "wired n'" "agrees n' E []" "later s {x} ?n n'"
    using deliver_signals_ok [of ?n E ?W s "{x}"] a E by auto
  have "later s {x} (set_coll n c k') n'" using n'(4) by (simp add: later_def gcr_collection_contains_def)
  then show ?thesis using n' by (simp add: finish_def emit_def)
qed

lemma leaf_emits:
  assumes "consistent n" "colls n c = Some k" "\<not> listener k" "same_kind k k'" "table_ok k'"
    and keys: "set (keys k') = (case s of Added \<Rightarrow> insert x (set (keys k)) | Removed \<Rightarrow> set (keys k) - {x})"
    and new: "x \<in> set (keys k) \<longleftrightarrow> s = Removed"
  shows "\<exists>n'. finish (emit s (set_coll n c k') c x) = Some n' \<and> consistent n' \<and> colls n' c = Some k' \<and> handlers n' = handlers n \<and>
    keeps_circles n n'"
proof -
  have w: "wired n" and a: "agrees n {} []" using assms(1) by (simp_all add: consistent_def)
  have v: "believed k y = of_bool (y \<in> set (keys k))" "believed k' y = of_bool (y \<in> set (keys k'))" for y
    using assms(3,4) by (cases k; cases k'; simp)+
  have o: "\<forall>y. y \<noteq> x \<longrightarrow> believed k' y = believed k y \<and> (y \<in> set (keys k') \<longleftrightarrow> y \<in> set (keys k))"
    using v keys by (auto split: signal.splits)
  have d: "of_bool (x \<in> set (keys k')) - of_bool (x \<in> set (keys k)) = sign s" using keys new by (cases s) (simp_all add: sign_def)
  have "agrees (set_coll n c k') {} (map (\<lambda>h. (s, h, x)) (handlers n c))"
  proof (rule agrees_replace [OF w assms(2,4) a o])
    show "\<forall>h y. (h, y) \<in> {} \<or> h = c \<and> y = x \<and> \<not> (listener k \<and> passes k x) \<or> pending (map (\<lambda>h. (s, h, x)) (handlers n c)) h y = pending [] h y +
      (if y = x \<and> h \<in> set (handlers n c) then of_bool (x \<in> set (keys k')) - of_bool (x \<in> set (keys k)) else 0) -
      (if y = x \<and> h = c then believed k' x - believed k x else 0)"
      using assms(3) d pending_handlers [OF wired_handlers(1) [OF w], of s x c "[]"] by auto
  qed (use assms(3) in simp)
  from emit_ok [OF w assms(2,4,5) keys new this]
  obtain n' where n': "finish (emit s (set_coll n c k') c x) = Some n'" "wired n'" "agrees n' {} []" "later s {x} (set_coll n c k') n'" by auto
  have "\<not> listener k'" using same_kind_simps(1) [OF assms(4)] assms(3) by simp
  then have "colls n' c = Some k'" using n'(4) by (simp add: later_def)
  moreover have "handlers n' = handlers n" using n'(4) by (simp add: later_def)
  moreover have "keeps_circles n n'"
  proof (rule keeps_trans)
    show "keeps_circles n (set_coll n c k')" by (rule circle_other [of _ c]) (use assms(2,3) in auto)
    show "keeps_circles (set_coll n c k') n'" using n'(4) by (simp add: later_def)
  qed
  ultimately show ?thesis using n' by (simp add: consistent_def)
qed

lemma simple_add_ok: "consistent n \<Longrightarrow> \<exists>n'. gcr_simple_collection_add n c x = Some n' \<and> consistent n' \<and> keeps_circles n n'"
proof (cases "colls n c")
  case (Some k)
  assume n: "consistent n"
  show ?thesis
  proof (cases k)
    case (Simple items)
    have "distinct items" using n Some Simple wired_coll(1) [of n c k] by (simp add: consistent_def)
    then show ?thesis using leaf_emits [OF n Some, of "Simple (x # items)" x Added] n Some Simple
      by (auto simp: gcr_simple_collection_add_def)
  qed (use n Some in \<open>simp_all add: gcr_simple_collection_add_def\<close>)
qed (simp add: gcr_simple_collection_add_def)

lemma simple_remove_ok: "consistent n \<Longrightarrow> \<exists>n'. gcr_simple_collection_remove n c x = Some n' \<and> consistent n' \<and> keeps_circles n n'"
proof (cases "colls n c")
  case (Some k)
  assume n: "consistent n"
  show ?thesis
  proof (cases k)
    case (Simple items)
    have "distinct items" using n Some Simple wired_coll(1) [of n c k] by (simp add: consistent_def)
    then show ?thesis using leaf_emits [OF n Some, of "Simple (removeAll x items)" x Removed] n Some Simple
      by (auto simp: gcr_simple_collection_remove_def distinct_removeAll)
  qed (use n Some in \<open>simp_all add: gcr_simple_collection_remove_def\<close>)
qed (simp add: gcr_simple_collection_remove_def)

lemma single_set_ok:
  assumes "consistent n" "colls n c = Some (Single old)"
  shows "\<exists>n'. gcr_single_collection_set_object n c object = Some n' \<and> consistent n' \<and> colls n' c = Some (Single object) \<and> handlers n' = handlers n \<and>
    keeps_circles n n'"
proof (cases "object = old")
  case True
  then show ?thesis using assms by (simp add: gcr_single_collection_set_object_def)
next
  case False
  obtain n1 where n1: "(case old of None \<Rightarrow> Some n | Some x \<Rightarrow> finish (emit Removed (set_coll n c (Single None)) c x)) = Some n1"
      "consistent n1" "colls n1 c = Some (Single None)" "handlers n1 = handlers n" "keeps_circles n n1"
  proof (cases old)
    case None
    then show ?thesis using that assms by simp
  next
    case (Some x)
    then show ?thesis using that leaf_emits [OF assms, of "Single None" x Removed] by auto
  qed
  obtain n2 where n2: "(case object of None \<Rightarrow> Some n1 | Some x \<Rightarrow> finish (emit Added (set_coll n1 c (Single (Some x))) c x)) = Some n2"
      "consistent n2" "colls n2 c = Some (Single object)" "handlers n2 = handlers n1" "keeps_circles n1 n2"
  proof (cases object)
    case None
    then show ?thesis using that n1 by simp
  next
    case (Some x)
    then show ?thesis using that leaf_emits [OF n1(2,3), of "Single (Some x)" x Added] by auto
  qed
  show ?thesis using assms(2) False n1 n2 keeps_trans [OF n1(5) n2(5)] by (simp add: gcr_single_collection_set_object_def)
qed

section \<open>New collections\<close>

lemma not_heard: "foldl (hear c) S (filter (\<lambda>e. fst e \<noteq> c') log) = (if c = c' then S else foldl (hear c) S log)"
  by (induction log arbitrary: S) auto

lemma no_handlers_before:
  assumes "wired n" "colls n c = None"
  shows "handlers n c = []"
proof -
  have "h \<notin> set (handlers n c)" for h
    using wired_handlers(2) [OF assms(1), of h c] wired_source [OF assms(1)] assms(2) by blast
  then show ?thesis by (cases "handlers n c") auto
qed

lemma below_outside: "c \<notin> set (sources k) \<Longrightarrow> below (set_coll n c k') k x = below n k x"
proof -
  assume "c \<notin> set (sources k)"
  then have "filter (\<lambda>d. inside (set_coll n c k') d x) (sources k) = filter (\<lambda>d. inside n d x) (sources k)"
    by (intro filter_cong) (auto simp: gcr_collection_contains_def)
  then show ?thesis by (simp add: below_def)
qed

lemma create_ok:
  assumes "consistent n" "colls n c = None" "keys k = []" "sources k = []" "table_ok k" "not_itself c k"
  shows "consistent (create n c k)"
proof -
  have w: "wired n" and a: "agrees n {} []" using assms(1) by (simp_all add: consistent_def)
  have "heard d (filter (\<lambda>e. fst e \<noteq> c) (signals n)) = (if d = c then Some {} else heard d (signals n))" for d
    by (simp add: heard_def not_heard)
  then have "wired (create n c k)"
    using w assms(2-6) no_handlers_before [OF w assms(2)] unfolding wired_def create_def
    by (auto simp: subset_iff domIff)
  moreover have "agrees (create n c k) {} []"
    unfolding agrees_def
  proof (intro allI impI)
    fix h k1 x assume h: "colls (create n c k) h = Some k1" "listener k1"
    show "if passes k1 x then believed k1 x + pending [] h x = below (create n c k) k1 x else x \<notin> set (keys k1)"
    proof (cases "h = c")
      case True
      then have "k1 = k" using h(1) by (simp add: create_def)
      moreover have "believed k x = 0" using believed_keys [OF assms(5), of x] assms(3) by simp
      ultimately show ?thesis using assms(3,4) by (simp add: below_def)
    next
      case False
      then have h1: "colls n h = Some k1" using h(1) by (simp add: create_def)
      then have "c \<notin> set (sources k1)" using wired_source [OF w] assms(2) by blast
      then have "below (create n c k) k1 x = below n k1 x" using below_outside [of c k1 n k x] by (simp add: create_def below_def gcr_collection_contains_def)
      then show ?thesis using agreesD [OF a h1 h(2), of x] by (simp split: if_splits)
    qed
  qed
  ultimately show ?thesis by (simp add: consistent_def)
qed

lemma create_keeps: "colls n c = None \<Longrightarrow> keeps_circles n (create n c k)"
  by (rule circle_other [of _ c]) (simp_all add: create_def)

section \<open>Unions\<close>

lemma objects_keys:
  assumes "wired n" "colls n c = Some k"
  shows "distinct (gcr_collection_get_objects n c)" "set (gcr_collection_get_objects n c) = set (keys k)"
  using wired_coll(1) [OF assms] table_distinct [of k] assms unfolding wired_def hash_law_def
  by (cases k; auto simp: gcr_collection_get_objects_def split: option.splits)+

lemma below_sources:
  assumes "\<forall>d. inside n' d x = inside n d x"
  shows "below n' k x = below n k x"
  using assms by (simp add: below_def)

lemma circle_rewired:
  assumes "circle n C x" "colls n self = Some (Union items cs)" "\<And>c. self \<in> C \<Longrightarrow> c \<in> C \<Longrightarrow> c \<in> set cs \<Longrightarrow> c \<in> set cs'"
    "colls m = (colls n)(self \<mapsto> Union items cs')"
  shows "circle m C x"
proof -
  have new: "colls m v = Some (if v = self then Union items cs' else Union is ds)"
    if "colls n v = Some (Union is ds)" for v "is" ds using that assms(4) by simp
  have same: "is = items \<and> ds = cs" if "colls n self = Some (Union is ds)" for "is" ds using that assms(2) by simp
  have "\<exists>is ds. colls m u = Some (Union is ds) \<and> x \<in> fst ` set is \<and> (\<exists>c \<in> C. c \<in> set ds)" if u: "u \<in> C" for u
  proof -
    obtain "is" ds c where o: "colls n u = Some (Union is ds)" "x \<in> fst ` set is" "c \<in> C" "c \<in> set ds"
      using assms(1) u unfolding circle_def by fast
    then show ?thesis using new [OF o(1)] same assms(3) [OF _ o(3)] u by (cases "u = self") auto
  qed
  moreover have "\<exists>v \<in> C. \<exists>is ds. colls m v = Some (Union is ds) \<and> u \<in> set ds" if u: "u \<in> C" for u
  proof -
    obtain v "is" ds where o: "v \<in> C" "colls n v = Some (Union is ds)" "u \<in> set ds"
      using assms(1) u unfolding circle_def by fast
    show ?thesis using new [OF o(2)] same o assms(3) [OF _ u] by (intro bexI [OF _ o(1)]) (cases "v = self"; auto)
  qed
  ultimately show ?thesis unfolding circle_def by simp
qed

lemma union_change:
  assumes n: "consistent n" "colls n self = Some (Union items cs)" "colls n c = Some kc"
    and cs: "distinct cs'" "set cs' \<subseteq> dom (colls n)" "s = Added \<and> c \<notin> set cs \<and> cs' = cs @ [c] \<or> s = Removed \<and> c \<in> set cs \<and> cs' = removeAll c cs"
    and hs: "handlers m = (handlers n)(c := hs)" "distinct hs" "\<forall>h. h \<in> set hs \<longleftrightarrow> (if h = self then s = Added else h \<in> set (handlers n c))"
    and m: "colls m = (colls n)(self \<mapsto> Union items cs')" "signals m = signals n" "hash_order m = hash_order n"
  shows "\<exists>n'. deliver_signals m (map (\<lambda>x. (s, self, x)) (gcr_collection_get_objects n c)) = Some n' \<and> consistent n' \<and>
    (\<forall>C x. circle n C x \<longrightarrow> s = Removed \<longrightarrow> \<not> (self \<in> C \<and> c \<in> C) \<longrightarrow> circle n' C x) \<and> (s = Added \<longrightarrow> keeps_circles n n')"
proof -
  have w: "wired n" and a: "agrees n {} []" using n(1) by (simp_all add: consistent_def)
  note table = wired_coll [OF w n(2)]
  note objects = objects_keys [OF w n(3)]
  have in_eq: "inside m d x = inside n d x" for d x using m(1) n(2) by (simp add: gcr_collection_contains_def)
  have dom: "dom (colls m) = dom (colls n)" using m(1) n(2) by auto
  have "wired m"
    unfolding wired_def
  proof (intro conjI allI impI)
    show "finite (dom (colls m))" "hash_law (hash_order m)" using w dom m(3) by (simp_all add: wired_def)
    fix d k assume "colls m d = Some k"
    then have "d = self \<and> k = Union items cs' \<or> colls n d = Some k" unfolding m(1) by (cases "d = self") simp_all
    then consider "d = self" "k = Union items cs'" | "colls n d = Some k" by blast
    then have "table_ok k \<and> not_itself d k \<and> set (sources k) \<subseteq> dom (colls n) \<and> heard d (signals n) = Some (set (keys k))"
    proof cases
      case 1
      then show ?thesis using table(1,4) cs(1,2) by simp
    qed (use wired_coll [OF w] in blast)
    then show "table_ok k" "not_itself d k" "set (sources k) \<subseteq> dom (colls m)" "heard d (signals m) = Some (set (keys k))"
      using m(2) dom by simp_all
  next
    fix d
    show "distinct (handlers m d)" using hs wired_handlers(1) [OF w] by simp
    fix h
    have "h \<in> set (handlers n d) \<longleftrightarrow> (\<exists>k. colls n h = Some k \<and> d \<in> set (sources k))" for h by (rule wired_handlers(2) [OF w])
    moreover have "d \<noteq> c \<Longrightarrow> d \<in> set cs' \<longleftrightarrow> d \<in> set cs" "c \<in> set cs' \<longleftrightarrow> s = Added" using cs(3) by auto
    ultimately show "h \<in> set (handlers m d) \<longleftrightarrow> (\<exists>k. colls m h = Some k \<and> d \<in> set (sources k))"
      using hs m(1) n(2) by (cases "h = self"; cases "d = c") auto
  qed
  moreover have "agrees m {} (map (\<lambda>x. (s, self, x)) (gcr_collection_get_objects n c))"
    unfolding agrees_def
  proof (intro allI impI)
    fix h k x assume h: "colls m h = Some k" "listener k"
    have p: "pending (map (\<lambda>x. (s, self, x)) (gcr_collection_get_objects n c)) h x = (if h = self \<and> inside n c x then sign s else 0)"
      using pending_objects [OF objects(1), of s self h x] objects(2) n(3) by (simp add: gcr_collection_contains_def)
    show "if passes k x then believed k x + pending (map (\<lambda>x. (s, self, x)) (gcr_collection_get_objects n c)) h x = below m k x else x \<notin> set (keys k)"
    proof (cases "h = self")
      case True
      have k: "k = Union items cs'" using h(1) m(1) True by simp
      have v: "believed (Union items cs) x = below n (Union items cs) x" using agreesD [OF a n(2), of x] by simp
      have "below n (Union items cs') x = below n (Union items cs) x + (if inside n c x then sign s else 0)"
      proof -
        have r: "distinct cs \<Longrightarrow> c \<in> set cs \<Longrightarrow>
            int (length (filter P (removeAll c cs))) = int (length (filter P cs)) - of_bool (P c)" for P
          by (induction cs) auto
        show ?thesis using cs(3) table(1) r [of "\<lambda>c. inside n c x"] by (auto simp: below_def sign_def)
      qed
      then show ?thesis using v p True k below_sources [of m x n] in_eq by simp
    next
      case False
      then have "colls n h = Some k" using h(1) m(1) by simp
      then show ?thesis using agreesD [OF a _ h(2), of h x] p False below_sources [of m x n] in_eq by (simp split: if_splits)
    qed
  qed
  moreover have "workable m s (set (keys kc)) (map (\<lambda>x. (s, self, x)) (gcr_collection_get_objects n c))"
    using objects(2) m(1) by (auto simp: workable_def)
  ultimately obtain n' where n': "deliver_signals m (map (\<lambda>x. (s, self, x)) (gcr_collection_get_objects n c)) = Some n'" "consistent n'"
      "later s (set (keys kc)) m n'"
    using deliver_signals_ok [of m "{}" _ s "set (keys kc)"] by (auto simp: consistent_def)
  have on: "circle n' C x" if "circle m C x" for C x using n'(3) that keepsD [of m n'] by (simp add: later_def)
  have "circle m C x" if C: "circle n C x" "s = Removed \<Longrightarrow> \<not> (self \<in> C \<and> c \<in> C)" for C x
    by (rule circle_rewired [OF C(1) n(2), of cs']) (use cs(3) m(1) C(2) in auto)
  then have "\<forall>C x. circle n C x \<longrightarrow> s = Removed \<longrightarrow> \<not> (self \<in> C \<and> c \<in> C) \<longrightarrow> circle n' C x" "s = Added \<longrightarrow> keeps_circles n n'"
    using on unfolding keeps_circles_def by blast+
  then show ?thesis using n'(1,2) by blast
qed

lemma union_add_ok: "consistent n \<Longrightarrow> \<exists>n'. gcr_union_collection_add n self c = Some n' \<and> consistent n' \<and> keeps_circles n n'"
proof -
  assume n: "consistent n"
  have w: "wired n" using n by (simp add: consistent_def)
  show ?thesis
  proof (cases "\<exists>items cs kc. colls n self = Some (Union items cs) \<and> colls n c = Some kc \<and> c \<notin> set cs")
    case True
    then obtain items cs kc where k: "colls n self = Some (Union items cs)" "colls n c = Some kc" "c \<notin> set cs" by blast
    have "self \<notin> set (handlers n c)" using wired_handlers(2) [OF w] k by simp
    then show ?thesis
      using union_change [OF n k(1,2), of "cs @ [c]" Added "connect_to_collection (set_coll n self (Union items (cs @ [c]))) self c" "handlers n c @ [self]"]
        wired_coll [OF w k(1)] wired_handlers(1) [OF w] k
      by (simp add: gcr_union_collection_add_def gcr_union_collection_take_def connect_to_collection_def domI)
  qed (use n in \<open>auto simp: gcr_union_collection_add_def gcr_union_collection_take_def split: option.splits collection.splits\<close>)
qed

lemma union_remove_ok: "consistent n \<Longrightarrow> \<exists>n'. gcr_union_collection_remove n self c = Some n' \<and> consistent n' \<and>
    (\<forall>C x. circle n C x \<longrightarrow> \<not> (self \<in> C \<and> c \<in> C) \<longrightarrow> circle n' C x)"
proof -
  assume n: "consistent n"
  have w: "wired n" using n by (simp add: consistent_def)
  show ?thesis
  proof (cases "\<exists>items cs. colls n self = Some (Union items cs) \<and> c \<in> set cs")
    case True
    then obtain items cs where k: "colls n self = Some (Union items cs)" "c \<in> set cs" by blast
    then obtain kc where kc: "colls n c = Some kc" using wired_source [OF w k(1), of c] by auto
    show ?thesis
      using union_change [OF n k(1) kc, of "removeAll c cs" Removed
          "disconnect_from_collection (set_coll n self (Union items (removeAll c cs))) self c" "removeAll self (handlers n c)"]
        wired_coll [OF w k(1)] wired_handlers(1) [OF w] k
      by (auto simp: gcr_union_collection_remove_def disconnect_from_collection_def distinct_removeAll subset_iff)
  qed (use n in \<open>auto simp: gcr_union_collection_remove_def split: option.splits collection.splits\<close>)
qed

end
