(* ===== verification/CollectionFilters.thy ===== *)
theory CollectionFilters
  imports CollectionCalls
begin

text \<open>
  Filters, whose callback may change: while a filter goes through the objects below it, it agrees only about those that it has
  seen. Then the end of collections, and all calls together.
\<close>

section \<open>Going through the objects\<close>

lemma agrees_narrow:
  assumes "agrees n ({c} \<times> insert x Y) W" "colls n c = Some k"
    "if passes k x then believed k x + pending W c x = below n k x else x \<notin> set (keys k)"
  shows "agrees n ({c} \<times> Y) W"
  unfolding agrees_def
proof (intro allI impI)
  fix h k1 y assume h: "colls n h = Some k1" "listener k1" "(h, y) \<notin> {c} \<times> Y"
  show "if passes k1 y then believed k1 y + pending W h y = below n k1 y else y \<notin> set (keys k1)"
  proof (cases "h = c \<and> y = x")
    case True
    then have "k1 = k" "h = c" "y = x" using assms(2) h(1) by auto
    then show ?thesis using assms(3) by blast
  next
    case False
    then have "(h, y) \<notin> {c} \<times> insert x Y" using h(3) by auto
    then show ?thesis by (rule agreesD [OF assms(1) h(1,2)])
  qed
qed

lemma filter_emits:
  assumes "wired n" "agrees n ({c} \<times> insert x Y) []" "x \<notin> Y" "colls n c = Some (Filter items u f)"
    "filter_object f x \<longleftrightarrow> s = Added" "inside n u x" "x \<in> set items \<longleftrightarrow> s = Removed"
    and items': "distinct items'" "set items' = (case s of Added \<Rightarrow> insert x (set items) | Removed \<Rightarrow> set items - {x})"
  shows "\<exists>n'. finish (emit s (set_coll n c (Filter items' u f)) c x) = Some n' \<and> wired n' \<and> agrees n' ({c} \<times> Y) [] \<and>
    later s {x} (set_coll n c (Filter items' u f)) n'"
proof -
  let ?k = "Filter items u f" and ?k' = "Filter items' u f" and ?hs = "handlers n c"
  let ?W = "map (\<lambda>h. (s, h, x)) ?hs" and ?n = "set_coll n c (Filter items' u f)"
  have u: "u \<noteq> c" using wired_coll(2) [OF assms(1,4)] by simp
  have self: "c \<notin> set ?hs" using wired_handlers(2) [OF assms(1)] assms(4) u by simp
  have p: "pending ?W h y = (if h \<in> set ?hs \<and> y = x then sign s else 0)" for h y
    using pending_handlers [OF wired_handlers(1) [OF assms(1)], of s x c "[]" h y] by simp
  have o: "\<forall>y. y \<noteq> x \<longrightarrow> believed ?k' y = believed ?k y \<and> (y \<in> set (keys ?k') \<longleftrightarrow> y \<in> set (keys ?k))"
    using items'(2) by (auto split: signal.splits)
  have x: "x \<in> set items' \<longleftrightarrow> s = Added" using items'(2) by (auto split: signal.splits)
  have "agrees ?n ({c} \<times> insert x Y) ?W"
  proof (rule agrees_replace [OF assms(1,4) _ assms(2) o])
    have "of_bool (x \<in> set (keys ?k')) - of_bool (x \<in> set (keys ?k)) = sign s"
      using x assms(7) by (cases s) (simp_all add: sign_def)
    then show "\<forall>h y. (h, y) \<in> {c} \<times> insert x Y \<or> h = c \<and> y = x \<and> \<not> (listener ?k \<and> passes ?k x) \<or>
      pending ?W h y = pending [] h y + (if y = x \<and> h \<in> set ?hs then of_bool (x \<in> set (keys ?k')) - of_bool (x \<in> set (keys ?k)) else 0) -
        (if y = x \<and> h = c then believed ?k' x - believed ?k x else 0)"
      using p by auto
  qed simp_all
  moreover have "below ?n ?k' x = 1" using assms(6) u by (simp add: below_def gcr_collection_contains_def)
  ultimately have "agrees ?n ({c} \<times> Y) ?W"
    using agrees_narrow [of ?n c x Y ?W ?k'] p [of c x] self x assms(5) by auto
  moreover have "({c} \<times> Y) \<inter> UNIV \<times> {x} = {}" using assms(3) by auto
  ultimately show ?thesis using emit_ok [OF assms(1,4), of ?k' x s "{c} \<times> Y"] items' assms(7) by (cases s) simp_all
qed

lemma filter_agrees:
  assumes "agrees n E []" "colls n c = Some (Filter items u f)" "(c, x) \<notin> E"
  shows "x \<in> set items \<longleftrightarrow> filter_object f x \<and> inside n u x"
  using agreesD [OF assms(1,2) _ assms(3)] by (auto simp: below_def split: if_splits)

lemma later_filter:
  assumes "later s X n n'" "colls n c = Some (Filter items u f)"
  obtains items' where "colls n' c = Some (Filter items' u f)"
proof -
  have "rel_option same_kind (colls n c) (colls n' c)" using assms(1) unfolding later_def by blast
  then obtain k' where k: "colls n' c = Some k'" "same_kind (Filter items u f) k'" using assms(2) by (cases "colls n' c") auto
  then show thesis using that by (cases k') auto
qed

lemma later_inside: "later s X n n' \<Longrightarrow> y \<notin> X \<Longrightarrow> inside n' c y \<longleftrightarrow> inside n c y"
  by (simp add: later_def)

lemma refilter_step:
  assumes "wired n" "agrees n ({c} \<times> insert x Y) []" "x \<notin> Y" "colls n c = Some (Filter items u f)"
    "inside n u x" "have = (x \<in> set items)"
  shows "\<exists>n' items'. (if have \<and> \<not> filter_object f x then Option.bind (remove_object n c x) finish
       else if \<not> have \<and> filter_object f x then Option.bind (add_object n c x) finish else Some n) = Some n' \<and>
     wired n' \<and> agrees n' ({c} \<times> Y) [] \<and> colls n' c = Some (Filter items' u f) \<and> hash_order n' = hash_order n \<and>
     (\<forall>d y. y \<noteq> x \<longrightarrow> inside n' d y = inside n d y) \<and> keeps_circles n n'"
proof -
  have keep: "keeps_circles n n'" if "later s X (set_coll n c k) n'" for s X k n'
  proof (rule keeps_trans)
    show "keeps_circles n (set_coll n c k)" by (rule circle_other [of _ c]) (use assms(4) in auto)
    show "keeps_circles (set_coll n c k) n'" using that by (simp add: later_def)
  qed
  have table: "distinct items" and u: "u \<noteq> c" using wired_coll(1,2) [OF assms(1,4)] by simp_all
  have same: "inside (set_coll n c k) d y = inside n d y" if "y \<in> set (keys k) \<longleftrightarrow> y \<in> set items" for k d y
    using assms(4) that by (simp add: gcr_collection_contains_def)
  consider "have" "\<not> filter_object f x" | "\<not> have" "filter_object f x" | "have = filter_object f x" by blast
  then show ?thesis
  proof cases
    case 1
    let ?k = "Filter (removeAll x items) u f"
    obtain n' where n': "finish (emit Removed (set_coll n c ?k) c x) = Some n'" "wired n'" "agrees n' ({c} \<times> Y) []" "later Removed {x} (set_coll n c ?k) n'"
      using filter_emits [OF assms(1-4), of Removed "removeAll x items"] 1 assms(5,6) table by (auto simp: distinct_removeAll)
    moreover obtain items' where "colls n' c = Some (Filter items' u f)" by (rule later_filter [OF n'(4), of c "removeAll x items" u f]) simp_all
    moreover have "hash_order n' = hash_order n" using n'(4) by (simp add: later_def)
    moreover have "inside n' d y = inside n d y" if "y \<noteq> x" for d y
      using later_inside [OF n'(4)] same [of y ?k] that by simp
    ultimately show ?thesis using 1 assms(4,6) keep by (simp add: remove_object_def)
  next
    case 2
    let ?k = "Filter (x # items) u f"
    obtain n' where n': "finish (emit Added (set_coll n c ?k) c x) = Some n'" "wired n'" "agrees n' ({c} \<times> Y) []" "later Added {x} (set_coll n c ?k) n'"
      using filter_emits [OF assms(1-4), of Added "x # items"] 2 assms(5,6) table by auto
    moreover obtain items' where "colls n' c = Some (Filter items' u f)" by (rule later_filter [OF n'(4), of c "x # items" u f]) simp_all
    moreover have "hash_order n' = hash_order n" using n'(4) by (simp add: later_def)
    moreover have "inside n' d y = inside n d y" if "y \<noteq> x" for d y
      using later_inside [OF n'(4)] same [of y ?k] that by simp
    ultimately show ?thesis using 2 assms(4,6) keep by (simp add: add_object_def)
  next
    case 3
    have "agrees n ({c} \<times> Y) []"
      by (rule agrees_narrow [OF assms(2,4)]) (use 3 assms(5,6) in \<open>simp add: below_def\<close>)
    then show ?thesis using 3 assms(1,4) by auto
  qed
qed

lemma refilter_loop_ok:
  "wired n \<Longrightarrow> agrees n ({c} \<times> set xs) [] \<Longrightarrow> distinct xs \<Longrightarrow> colls n c = Some (Filter items u f) \<Longrightarrow>
    \<forall>x \<in> set xs. inside n u x \<and> (x \<in> set snapshot \<longleftrightarrow> inside n c x) \<Longrightarrow>
    \<exists>n'. refilter_loop n c f xs snapshot = Some (n', filter (\<lambda>y. y \<notin> set xs) snapshot) \<and> consistent n' \<and> keeps_circles n n'"
proof (induction xs arbitrary: n items snapshot)
  case Nil
  then show ?case by (simp add: consistent_def)
next
  case (Cons x xs)
  have a: "agrees n ({c} \<times> insert x (set xs)) []" using Cons.prems(2) by simp
  have x: "x \<notin> set xs" "inside n u x" "(x \<in> set snapshot) = (x \<in> set items)"
    using Cons.prems(3-5) by (simp_all add: inside_keys)
  obtain n1 items' where n1: "(if x \<in> set snapshot \<and> \<not> filter_object f x then Option.bind (remove_object n c x) finish
       else if x \<notin> set snapshot \<and> filter_object f x then Option.bind (add_object n c x) finish else Some n) = Some n1"
     "wired n1" "agrees n1 ({c} \<times> set xs) []" "colls n1 c = Some (Filter items' u f)" "\<forall>d y. y \<noteq> x \<longrightarrow> inside n1 d y = inside n d y"
     "keeps_circles n n1"
    using refilter_step [OF Cons.prems(1) a x(1) Cons.prems(4) x(2,3)] by blast
  have "\<forall>y \<in> set xs. inside n1 u y \<and> (y \<in> set (removeAll x snapshot) \<longleftrightarrow> inside n1 c y)"
  proof
    fix y assume y: "y \<in> set xs"
    then have "y \<noteq> x" using x(1) by blast
    then have "inside n1 u y = inside n u y" "inside n1 c y = inside n c y" using n1(5) by blast+
    then show "inside n1 u y \<and> (y \<in> set (removeAll x snapshot) \<longleftrightarrow> inside n1 c y)"
      using Cons.prems(5) y \<open>y \<noteq> x\<close> by simp
  qed
  from Cons.IH [OF n1(2,3) _ n1(4) this] Cons.prems(3)
  obtain n' where "refilter_loop n1 c f xs (removeAll x snapshot) = Some (n', filter (\<lambda>y. y \<notin> set xs) (removeAll x snapshot))" "consistent n'" "keeps_circles n1 n'"
    by auto
  moreover have "filter (\<lambda>y. y \<notin> set xs) (removeAll x snapshot) = filter (\<lambda>y. y \<notin> set (x # xs)) snapshot"
    by (induction snapshot) auto
  ultimately show ?case using n1(1) keeps_trans [OF n1(6)] by (simp add: Let_def)
qed

lemma refilter_ok:
  assumes "wired n" "agrees n ({c} \<times> UNIV) []" "colls n c = Some (Filter items u f)" "\<forall>x \<in> set items. inside n u x"
  shows "\<exists>n'. gcr_filter_collection_refilter n c = Some n' \<and> consistent n' \<and> keeps_circles n n'"
proof -
  let ?xs = "gcr_collection_get_objects n u"
  obtain ku where ku: "colls n u = Some ku" using wired_source [OF assms(1,3), of u] by auto
  note objects = objects_keys [OF assms(1) ku]
  have xs: "x \<in> set ?xs \<longleftrightarrow> inside n u x" for x using objects(2) ku by (simp add: inside_keys)
  have "agrees n ({c} \<times> set ?xs) []"
    unfolding agrees_def
  proof (intro allI impI)
    fix h k y assume h: "colls n h = Some k" "listener k" "(h, y) \<notin> {c} \<times> set ?xs"
    show "if passes k y then believed k y + pending [] h y = below n k y else y \<notin> set (keys k)"
    proof (cases "h = c")
      case True
      then have "\<not> inside n u y" "y \<notin> set items" using h(3) xs assms(4) by auto
      moreover have "k = Filter items u f" using True h(1) assms(3) by simp
      ultimately show ?thesis by (simp add: below_def)
    next
      case False
      then have "(h, y) \<notin> {c} \<times> UNIV" by simp
      then show ?thesis by (rule agreesD [OF assms(2) h(1,2)])
    qed
  qed
  moreover have "\<forall>x \<in> set ?xs. inside n u x \<and> (x \<in> set items \<longleftrightarrow> inside n c x)" using xs assms(3) by (simp add: inside_keys)
  ultimately obtain n' where n': "refilter_loop n c f ?xs items = Some (n', filter (\<lambda>y. y \<notin> set ?xs) items)" "consistent n'" "keeps_circles n n'"
    using refilter_loop_ok [OF assms(1) _ objects(1) assms(3)] by blast
  have "filter (\<lambda>y. y \<notin> set ?xs) items = []" using xs assms(4) by (simp add: filter_empty_conv)
  moreover have "hash_order n' [] = []"
  proof -
    have "hash_law (hash_order n')" using n'(2) by (simp add: consistent_def wired_def)
    then have "set (hash_order n' []) = set []" unfolding hash_law_def by (metis distinct.simps(1))
    then show ?thesis by simp
  qed
  ultimately show ?thesis using n' assms(3) by (simp add: gcr_filter_collection_refilter_def)
qed

lemma set_callback_ok:
  assumes "wired n" "agrees n ({c} \<times> UNIV) []" "colls n c = Some (Filter items u f)" "\<forall>x \<in> set items. inside n u x"
  shows "\<exists>n'. gcr_filter_collection_set_callback n c f' = Some n' \<and> consistent n' \<and> keeps_circles n n'"
proof -
  let ?n = "set_coll n c (Filter items u f')"
  have "wired ?n" by (rule wired_exchange [OF assms(1,3)]) (use wired_coll(1) [OF assms(1,3)] in auto)
  moreover have i: "inside ?n d x = inside n d x" for d x using assms(3) by (simp add: gcr_collection_contains_def)
  moreover have "agrees ?n ({c} \<times> UNIV) []"
    unfolding agrees_def
  proof (intro allI impI)
    fix h k and y :: obj assume h: "colls ?n h = Some k" "listener k" "(h, y) \<notin> {c} \<times> UNIV"
    then have "colls n h = Some k" by (auto split: if_splits)
    then show "if passes k y then believed k y + pending [] h y = below ?n k y else y \<notin> set (keys k)"
      using agreesD [OF assms(2) _ h(2,3)] below_sources [of ?n y n k] i by metis
  qed
  moreover have "keeps_circles n ?n" by (rule circle_other [of _ c]) (use assms(3) in auto)
  ultimately show ?thesis using refilter_ok [of ?n c items u f'] assms(3,4) keeps_trans [of n ?n]
    by (auto simp: gcr_filter_collection_set_callback_def)
qed

section \<open>Filters in a consistent network\<close>

lemma filter_consistent:
  assumes "consistent n" "colls n c = Some (Filter items u f)"
  shows "wired n" "agrees n ({c} \<times> UNIV) []" "\<forall>x \<in> set items. inside n u x"
proof -
  have a: "agrees n {} []" and w: "wired n" using assms(1) by (simp_all add: consistent_def)
  show "wired n" by (rule w)
  show "agrees n ({c} \<times> UNIV) []" using a unfolding agrees_def by blast
  show "\<forall>x \<in> set items. inside n u x" using filter_agrees [OF a assms(2)] by blast
qed

lemma filter_refilter_ok: "consistent n \<Longrightarrow> \<exists>n'. gcr_filter_collection_refilter n c = Some n' \<and> consistent n' \<and> keeps_circles n n'"
proof (cases "\<exists>items u f. colls n c = Some (Filter items u f)")
  case True
  assume n: "consistent n"
  obtain items u f where k: "colls n c = Some (Filter items u f)" using True by blast
  show ?thesis by (rule refilter_ok [OF filter_consistent(1,2) [OF n k] k filter_consistent(3) [OF n k]])
qed (auto simp: gcr_filter_collection_refilter_def split: option.splits collection.splits)

lemma filter_callback_ok: "consistent n \<Longrightarrow> \<exists>n'. gcr_filter_collection_set_callback n c f' = Some n' \<and> consistent n' \<and> keeps_circles n n'"
proof (cases "\<exists>items u f. colls n c = Some (Filter items u f)")
  case True
  assume n: "consistent n"
  obtain items u f where k: "colls n c = Some (Filter items u f)" using True by blast
  show ?thesis by (rule set_callback_ok [OF filter_consistent(1,2) [OF n k] k filter_consistent(3) [OF n k]])
qed (auto simp: gcr_filter_collection_set_callback_def split: option.splits collection.splits)

lemma filter_new_ok:
  assumes "consistent n" "colls n c = None" "colls n u \<noteq> None"
  shows "\<exists>n'. gcr_filter_collection_new_with_callback n c u f = Some n' \<and> consistent n' \<and> keeps_circles n n'"
proof -
  have w: "wired n" and a: "agrees n {} []" using assms(1) by (simp_all add: consistent_def)
  let ?k = "Filter [] u None" let ?n = "connect_to_collection (create n c ?k) c u"
  have uc: "u \<noteq> c" using assms(2,3) by blast
  have colls: "colls ?n = (colls n)(c \<mapsto> ?k)" by (simp add: connect_to_collection_def create_def)
  have heard: "heard d (signals ?n) = (if d = c then Some {} else heard d (signals n))" for d
    by (simp add: heard_def not_heard connect_to_collection_def create_def)
  have new: "c \<notin> set (handlers n d)" for d using wired_handlers(2) [OF w] assms(2) by simp
  have none: "handlers n c = []" by (rule no_handlers_before [OF w assms(2)])
  have "wired ?n"
    unfolding wired_def
  proof (intro conjI allI impI)
    show "finite (dom (colls ?n))" "hash_law (hash_order ?n)" using w colls by (simp_all add: wired_def connect_to_collection_def create_def)
    fix d k assume d: "colls ?n d = Some k"
    have "table_ok k \<and> not_itself d k \<and> set (sources k) \<subseteq> dom (colls ?n) \<and> heard d (signals ?n) = Some (set (keys k))"
    proof (cases "d = c")
      case True
      then have "k = ?k" using d colls by simp
      then show ?thesis using True uc assms(3) heard colls by (auto simp: domIff)
    next
      case False
      then have "colls n d = Some k" using d colls by simp
      then show ?thesis using wired_coll [OF w] False heard colls by (auto simp: subset_iff)
    qed
    then show "table_ok k" "not_itself d k" "set (sources k) \<subseteq> dom (colls ?n)" "heard d (signals ?n) = Some (set (keys k))" by blast+
  next
    fix d
    have hd: "handlers ?n d = (if d = u then handlers n u @ [c] else handlers n d)" by (simp add: connect_to_collection_def create_def)
    show "distinct (handlers ?n d)" using hd wired_handlers(1) [OF w] new by simp
    fix h
    show "h \<in> set (handlers ?n d) \<longleftrightarrow> (\<exists>k. colls ?n h = Some k \<and> d \<in> set (sources k))"
      using hd colls new wired_handlers(2) [OF w, of h d] by (cases "h = c") auto
  qed
  moreover have "agrees ?n ({c} \<times> UNIV) []"
    unfolding agrees_def
  proof (intro allI impI)
    fix h k and y :: obj assume h: "colls ?n h = Some k" "listener k" "(h, y) \<notin> {c} \<times> UNIV"
    then have k: "colls n h = Some k" using colls by (auto split: if_splits)
    then have "c \<notin> set (sources k)" using wired_source [OF w] assms(2) by blast
    then have "below ?n k y = below n k y"
      using below_outside [of c k n ?k y] colls by (simp add: below_def gcr_collection_contains_def)
    then show "if passes k y then believed k y + pending [] h y = below ?n k y else y \<notin> set (keys k)"
      using agreesD [OF a k h(2), of y] by (simp split: if_splits)
  qed
  ultimately obtain n' where "gcr_filter_collection_set_callback ?n c f = Some n'" "consistent n'" "keeps_circles ?n n'"
    using set_callback_ok [of ?n c "[]" u None f] by (auto simp: colls)
  moreover have "keeps_circles n ?n" by (rule circle_other [of _ c]) (use assms(2) colls in auto)
  ultimately show ?thesis unfolding gcr_filter_collection_new_with_callback_def using keeps_trans by blast
qed

section \<open>The end of a collection\<close>

lemma remove_ok:
  assumes "consistent n" "handlers n c = []"
  shows "consistent (n\<lparr>colls := (colls n)(c := None), handlers := \<lambda>d. removeAll c (handlers n d)\<rparr>)" (is "consistent ?n")
proof -
  have w: "wired n" and a: "agrees n {} []" using assms(1) by (simp_all add: consistent_def)
  have free: "c \<notin> set (sources k)" if "colls n h = Some k" for h k
    using wired_handlers(2) [OF w, of h c] assms(2) that by auto
  have "wired ?n"
    unfolding wired_def
  proof (intro conjI allI impI)
    show "finite (dom (colls ?n))" "hash_law (hash_order ?n)" using w by (simp_all add: wired_def)
    fix d k assume "colls ?n d = Some k"
    then have d: "colls n d = Some k" by (auto split: if_splits)
    have "set (sources k) \<subseteq> dom (colls ?n)" using wired_coll(3) [OF w d] free [OF d] by auto
    then show "table_ok k" "not_itself d k" "set (sources k) \<subseteq> dom (colls ?n)" "heard d (signals ?n) = Some (set (keys k))"
      using wired_coll(1,2,4) [OF w d] by simp_all
  next
    fix d show "distinct (handlers ?n d)" using wired_handlers(1) [OF w] by (simp add: distinct_removeAll)
    fix h show "h \<in> set (handlers ?n d) \<longleftrightarrow> (\<exists>k. colls ?n h = Some k \<and> d \<in> set (sources k))"
      using wired_handlers(2) [OF w, of h d] by auto
  qed
  moreover have "agrees ?n {} []"
    unfolding agrees_def
  proof (intro allI impI)
    fix h k and y :: obj assume h: "colls ?n h = Some k" "listener k"
    then have k: "colls n h = Some k" by (auto split: if_splits)
    have "filter (\<lambda>d. inside ?n d y) (sources k) = filter (\<lambda>d. inside n d y) (sources k)"
      by (rule filter_cong) (use free [OF k] in \<open>auto simp: gcr_collection_contains_def\<close>)
    then have "below ?n k y = below n k y" by (simp add: below_def)
    then show "if passes k y then believed k y + pending [] h y = below ?n k y else y \<notin> set (keys k)"
      using agreesD [OF a k h(2), of y] by (simp split: if_splits)
  qed
  ultimately show ?thesis by (simp add: consistent_def)
qed

lemma disconnect_all:
  "foldl (\<lambda>n c. disconnect_from_collection n self c) n cs = n\<lparr>handlers := \<lambda>d. if d \<in> set cs then removeAll self (handlers n d) else handlers n d\<rparr>"
proof (induction cs arbitrary: n)
  case (Cons c cs)
  show ?case using Cons by (auto simp: disconnect_from_collection_def fun_eq_iff)
qed simp

lemma consistent_swap:
  assumes "consistent (n\<lparr>colls := m, handlers := hs\<rparr>)"
  shows "consistent (n\<lparr>handlers := hs, colls := m\<rparr>)"
proof -
  have e: "n\<lparr>handlers := hs, colls := m\<rparr> = n\<lparr>colls := m, handlers := hs\<rparr>" by simp
  show ?thesis unfolding e by (rule assms)
qed

lemma circle_handled:
  assumes "wired n" "circle n C x" "c \<in> C"
  shows "handlers n c \<noteq> []"
proof -
  obtain v items cs where "colls n v = Some (Union items cs)" "c \<in> set cs"
    using assms(2,3) unfolding circle_def by fast
  then have "v \<in> set (handlers n c)" using wired_handlers(2) [OF assms(1), of v c] by simp
  then show ?thesis by auto
qed

lemma keeps_removed:
  assumes "wired n" "handlers n c = []" "\<forall>d. d \<noteq> c \<longrightarrow> colls n' d = colls n d"
  shows "keeps_circles n n'"
  unfolding keeps_circles_def
proof (intro allI impI)
  fix C x assume C: "circle n C x"
  then have "c \<notin> C" using circle_handled [OF assms(1) C] assms(2) by blast
  then have "\<forall>u \<in> C. colls n' u = colls n u" using assms(3) by auto
  then show "circle n' C x" using C circle_cong [of C n' n x] by simp
qed

lemma release_ok: "consistent n \<Longrightarrow> \<exists>n'. release n c = Some n' \<and> consistent n' \<and> keeps_circles n n'"
proof -
  assume n: "consistent n"
  have w: "wired n" using n by (simp add: consistent_def)
  show ?thesis
  proof (cases "colls n c = None \<or> handlers n c \<noteq> []")
    case True
    then show ?thesis using n by (auto simp: release_def)
  next
    case False
    then obtain k where k: "colls n c = Some k" and h: "handlers n c = []" by auto
    have c: "c \<in> set (handlers n d) \<longleftrightarrow> d \<in> set (sources k)" for d using wired_handlers(2) [OF w] k by simp
    have hs: "(\<lambda>d. removeAll c (handlers n d)) = (\<lambda>d. if d \<in> set (sources k) then removeAll c (handlers n d) else handlers n d)"
      using c by auto
    note gone = remove_ok [OF n h, unfolded hs] and keep = keeps_removed [OF w h]
    show ?thesis
    proof (cases k)
      case (Simple items)
      then show ?thesis using gone k h keep by (simp add: release_def gcr_simple_collection_finalize_def gcr_simple_collection_dispose_def gcr_collection_get_length_def)
    next
      case (Single object)
      obtain n' where n': "gcr_single_collection_set_object n c None = Some n'" "consistent n'" "colls n' c = Some (Single None)" "handlers n' = handlers n" "keeps_circles n n'"
        using single_set_ok [OF n, of c object None] k Single by blast
      have w': "wired n'" using n'(2) by (simp add: consistent_def)
      have "(\<lambda>d. removeAll c (handlers n' d)) = handlers n'" using wired_handlers(2) [OF w', of c] n'(3) by (intro ext) (simp add: removeAll_id)
      moreover have "n'\<lparr>colls := m, handlers := handlers n'\<rparr> = n'\<lparr>colls := m\<rparr>" for m by simp
      ultimately have "consistent (n'\<lparr>colls := (colls n')(c := None)\<rparr>)" using remove_ok [OF n'(2), of c] n'(4) h by metis
      moreover have "keeps_circles n' (n'\<lparr>colls := (colls n')(c := None)\<rparr>)"
        using keeps_removed [OF w', of c] n'(4) h by simp
      ultimately show ?thesis using n'(1) k h Single keeps_trans [OF n'(5)] by (simp add: release_def gcr_single_collection_dispose_def)
    next
      case (Filter items u f)
      have "(\<lambda>d. if d \<in> set (sources k) then removeAll c (handlers n d) else handlers n d) = (handlers n)(u := removeAll c (handlers n u))"
        using Filter by auto
      from consistent_swap [OF gone [unfolded this]]
      show ?thesis using k h Filter keep
        by (simp add: release_def gcr_filter_collection_finalize_def disconnect_from_collection_def Let_def)
    next
      case (Union items cs)
      then show ?thesis using consistent_swap [OF gone] k h keep
        by (simp add: release_def gcr_union_collection_finalize_def gcr_union_collection_dispose_def disconnect_all gcr_collection_get_length_def gcr_union_collection_size_def Let_def)
    qed
  qed
qed

section \<open>All calls\<close>

text \<open>The calls that take a circle apart.\<close>

fun parts :: "coll set \<Rightarrow> collection_request \<Rightarrow> bool" where
  "parts C (RemoveCollection u c) \<longleftrightarrow> u \<in> C \<and> c \<in> C"
| "parts C _ \<longleftrightarrow> False"

definition performed :: "network \<Rightarrow> collection_request \<Rightarrow> network \<Rightarrow> bool" where
  "performed n r n' \<longleftrightarrow> perform n r = Some n' \<and> consistent n' \<and> (\<forall>C x. circle n C x \<longrightarrow> \<not> parts C r \<longrightarrow> circle n' C x)"

lemma performed_keeps: "perform n r = Some n' \<Longrightarrow> consistent n' \<Longrightarrow> keeps_circles n n' \<Longrightarrow> \<exists>n'. performed n r n'"
  unfolding performed_def keeps_circles_def by blast

lemma perform_ok:
  assumes n: "consistent n"
  shows "\<exists>n'. performed n r n'"
proof (cases r)
  case (NewSimple c)
  then show ?thesis using create_ok [OF n, of c "Simple []"] create_keeps [of n c] n
    by (cases "colls n c") (auto simp: gcr_simple_collection_new_def intro!: performed_keeps)
next
  case (NewUnion c)
  then show ?thesis using create_ok [OF n, of c "Union [] []"] create_keeps [of n c] n
    by (cases "colls n c") (auto simp: gcr_union_collection_new_def intro!: performed_keeps)
next
  case (NewSingle c x)
  show ?thesis
  proof (cases "colls n c")
    case None
    let ?n = "create n c (Single None)"
    have "consistent ?n" by (rule create_ok [OF n None]) simp_all
    from single_set_ok [OF this, of c None x] obtain n' where n': "gcr_single_collection_set_object ?n c x = Some n'" "consistent n'"
      "keeps_circles ?n n'" by (auto simp: create_def)
    show ?thesis by (rule performed_keeps [OF _ n'(2) keeps_trans [OF create_keeps [OF None] n'(3)]])
      (use n'(1) None NewSingle in \<open>simp add: gcr_single_collection_new_def\<close>)
  next
    case Some
    show ?thesis by (rule performed_keeps [OF _ n keeps_refl]) (use Some NewSingle in simp)
  qed
next
  case (NewFilter c u f)
  show ?thesis
  proof (cases "colls n c = None \<and> colls n u \<noteq> None")
    case True
    then show ?thesis using filter_new_ok [OF n, of c u f] NewFilter by (auto intro!: performed_keeps)
  next
    case False
    show ?thesis by (rule performed_keeps [OF _ n keeps_refl]) (use False NewFilter in auto)
  qed
next
  case (SetObject c x)
  show ?thesis
  proof (cases "\<exists>old. colls n c = Some (Single old)")
    case True
    then obtain old where "colls n c = Some (Single old)" by blast
    from single_set_ok [OF n this, of x] show ?thesis using SetObject by (auto intro!: performed_keeps)
  next
    case False
    show ?thesis by (rule performed_keeps [OF _ n keeps_refl])
      (use False SetObject in \<open>auto simp: gcr_single_collection_set_object_def split: option.splits collection.splits\<close>)
  qed
next
  case (RemoveCollection u c)
  then show ?thesis using union_remove_ok [OF n, of u c] by (auto simp: performed_def)
next
  case (AddObject c x)
  then show ?thesis using simple_add_ok [OF n, of c x] by (auto intro!: performed_keeps)
next
  case (RemoveObject c x)
  then show ?thesis using simple_remove_ok [OF n, of c x] by (auto intro!: performed_keeps)
next
  case (Refilter c)
  then show ?thesis using filter_refilter_ok [OF n, of c] by (auto intro!: performed_keeps)
next
  case (SetCallback c f)
  then show ?thesis using filter_callback_ok [OF n, of c f] by (auto intro!: performed_keeps)
next
  case (TakeCollection u c)
  then show ?thesis using union_add_ok [OF n, of u c] by (auto intro!: performed_keeps)
next
  case (Release c)
  then show ?thesis using release_ok [OF n, of c] by (auto intro!: performed_keeps)
qed

lemma perform_all_ok:
  "consistent n \<Longrightarrow> \<exists>n'. perform_all n rs = Some n' \<and> consistent n' \<and>
    (\<forall>C x. circle n C x \<longrightarrow> (\<forall>r \<in> set rs. \<not> parts C r) \<longrightarrow> circle n' C x)"
proof (induction rs arbitrary: n)
  case (Cons r rs)
  obtain n1 where n1: "performed n r n1" using perform_ok [OF Cons.prems] by blast
  then obtain n2 where n2: "perform_all n1 rs = Some n2" "consistent n2"
      "\<forall>C x. circle n1 C x \<longrightarrow> (\<forall>r \<in> set rs. \<not> parts C r) \<longrightarrow> circle n2 C x"
    using Cons.IH [of n1] by (auto simp: performed_def)
  have "circle n2 C x" if "circle n C x" "\<forall>r \<in> set (r # rs). \<not> parts C r" for C x
    using n1 n2(3) that by (simp add: performed_def)
  then show ?case using n1 n2(1,2) by (auto simp: performed_def)
qed simp

lemma consistent_empty: "hash_law order \<Longrightarrow> consistent (no_collections order)"
  by (simp add: consistent_def wired_def agrees_def no_collections_def)

lemma perform_all_consistent:
  assumes "hash_law order"
  shows "\<exists>n. perform_all (no_collections order) rs = Some n \<and> consistent n"
  using perform_all_ok [OF consistent_empty [OF assms], of rs] by blast

end
