(* ===== verification/CollectionProperties.thy ===== *)
theory CollectionProperties
  imports CollectionFilters
begin

text \<open>The properties of collections that listen to each other.\<close>

section \<open>What collections have\<close>

text \<open>What the collection with this state has to have in its table.\<close>

fun holds_right :: "network \<Rightarrow> collection \<Rightarrow> obj \<Rightarrow> bool" where
  "holds_right n (Filter items u f) x \<longleftrightarrow> (x \<in> set items \<longleftrightarrow> inside n u x \<and> filter_object f x)"
| "holds_right n (Union items cs) x \<longleftrightarrow>
     map_of items x = (let m = length (filter (\<lambda>c. inside n c x) cs) in if m = 0 then None else Some (int m))"
| "holds_right n k x = True"

lemma consistent_holds:
  assumes "consistent n" "colls n c = Some k"
  shows "holds_right n k x"
proof -
  have w: "wired n" and a: "agrees n {} []" using assms(1) by (simp_all add: consistent_def)
  show ?thesis
  proof (cases k)
    case (Filter items u f)
    then show ?thesis using filter_agrees [OF a, of c items u f x] assms(2) by auto
  next
    case (Union items cs)
    then have v: "believed (Union items cs) x = below n (Union items cs) x" using agreesD [OF a assms(2), of x] by simp
    have "\<forall>v. map_of items x = Some v \<longrightarrow> v > 0"
      using wired_coll(1) [OF w assms(2)] Union by (auto dest: map_of_SomeD)
    then show ?thesis using v Union by (auto simp: below_def Let_def split: option.splits)
  qed simp_all
qed

text \<open>The objects that come to a collection from below.\<close>

inductive shown :: "network \<Rightarrow> coll \<Rightarrow> obj \<Rightarrow> bool" for n where
  leaf: "colls n c = Some k \<Longrightarrow> \<not> listener k \<Longrightarrow> x \<in> set (keys k) \<Longrightarrow> shown n c x"
| through_filter: "colls n c = Some (Filter items u f) \<Longrightarrow> shown n u x \<Longrightarrow> filter_object f x \<Longrightarrow> shown n c x"
| through_union: "colls n c = Some (Union items cs) \<Longrightarrow> d \<in> set cs \<Longrightarrow> shown n d x \<Longrightarrow> shown n c x"

inductive_cases shownE: "shown n c x"

lemma shown_inside: "consistent n \<Longrightarrow> shown n c x \<Longrightarrow> inside n c x"
proof (rotate_tac 1, induction rule: shown.induct)
  case (leaf c k x)
  then show ?case by (simp add: inside_keys)
next
  case (through_filter c items u f x)
  then show ?case using consistent_holds [OF through_filter.prems through_filter(1), of x] by (simp add: inside_keys)
next
  case (through_union c items cs d x)
  have "d \<in> set (filter (\<lambda>c. inside n c x) cs)" using through_union by simp
  then have "filter (\<lambda>c. inside n c x) cs \<noteq> []" by force
  then have "map_of items x \<noteq> None" using consistent_holds [OF through_union.prems through_union(1), of x] by (simp add: Let_def)
  then show ?case using through_union(1) by (simp add: inside_keys map_of_eq_None_iff)
qed

lemma inside_shown:
  assumes "consistent n" "\<forall>c k d. colls n c = Some k \<longrightarrow> d \<in> set (sources k) \<longrightarrow> (rank d :: nat) < rank c"
  shows "inside n c x \<Longrightarrow> shown n c x"
proof (induction "rank c" arbitrary: c rule: less_induct)
  case less
  obtain k where k: "colls n c = Some k" using less.prems by (auto simp: gcr_collection_contains_def split: option.splits)
  note right = consistent_holds [OF assms(1) k, of x] and r = assms(2) [rule_format, OF k]
  have x: "x \<in> set (keys k)" using less.prems k by (simp add: inside_keys)
  show ?case
  proof (cases k)
    case (Filter items u f)
    then have "inside n u x" "filter_object f x" using right x by simp_all
    then show ?thesis using less.hyps [of u] r [of u] k Filter by (auto intro: shown.through_filter)
  next
    case (Union items cs)
    then have "map_of items x \<noteq> None" using x by (simp add: map_of_eq_None_iff)
    then have "filter (\<lambda>c. inside n c x) cs \<noteq> []" using right Union by (auto simp: Let_def split: if_splits)
    then obtain d where "d \<in> set cs" "inside n d x" by (auto simp: filter_empty_conv)
    then show ?thesis using less.hyps [of d] r [of d] k Union by (auto intro: shown.through_union)
  qed (use k x in \<open>auto intro!: shown.leaf\<close>)
qed

section \<open>Properties\<close>

text \<open>
  C14. Collections keep their promises. Whatever collections a program makes, connects, changes, disconnects and releases, and in which
  order, also in circles: every call returns and no assertion fails. After it each filter has exactly the objects below it that its
  callback accepts, and each union counts for every object in how many of its collections it is.
\<close>

theorem collections_hold:
  assumes "hash_law order"
  shows "\<exists>n. perform_all (no_collections order) rs = Some n \<and> (\<forall>c k x. colls n c = Some k \<longrightarrow> holds_right n k x)"
  using perform_all_consistent [OF assms, of rs] consistent_holds by blast

lemma hash_law_rev: "hash_law rev" by (simp add: hash_law_def)

lemma collections_hold_witness:
  "\<exists>n. perform_all (no_collections rev) [NewSimple 1, NewFilter 2 1 (Some even), AddObject 1 4, AddObject 1 5] = Some n \<and>
     (\<forall>c k x. colls n c = Some k \<longrightarrow> holds_right n k x)"
  by (rule collections_hold [OF hash_law_rev])

text \<open>
  C15. Signals tell everything. Who hears all signals of a collection from its beginning knows exactly what it has; no object is
  announced that is there already, and none leaves that is not there.
\<close>

theorem collections_heard:
  assumes "hash_law order" "perform_all (no_collections order) rs = Some n" "colls n c = Some k"
  shows "heard c (signals n) = Some {x. gcr_collection_contains n c x}"
proof -
  have "wired n" using perform_all_consistent [OF assms(1), of rs] assms(2) by (simp add: consistent_def)
  then show ?thesis using wired_coll(4) [of n c k] assms(3) by (simp add: inside_keys)
qed

lemma collections_heard_witness:
  "\<exists>n. perform_all (no_collections id) [NewSingle 3 (Some 8), NewUnion 2, TakeCollection 2 3, SetObject 3 None] = Some n \<and>
     heard 2 (signals n) = Some {x. gcr_collection_contains n 2 x}"
proof -
  have l: "hash_law id" by (simp add: hash_law_def)
  obtain n where n: "perform_all (no_collections id) [NewSingle 3 (Some 8), NewUnion 2, TakeCollection 2 3, SetObject 3 None] = Some n"
      "colls n 2 \<noteq> None"
    by (simp add: no_collections_def gcr_single_collection_new_def gcr_single_collection_set_object_def create_def emit_def finish_def
        deliver_signals.simps gcr_union_collection_new_def gcr_union_collection_add_def gcr_union_collection_take_def connect_to_collection_def
        gcr_collection_get_objects_def on_signal_def added_defs removed_defs)
  then show ?thesis using collections_heard [OF l n(1), of 2] by auto
qed

text \<open>
  C16. Collections without circles. Where no collection is below itself, a collection has exactly the objects that come up to it from the
  simple ones through filters that accept them.
\<close>

theorem collections_show:
  assumes "hash_law order" "perform_all (no_collections order) rs = Some n"
    "\<forall>c k d. colls n c = Some k \<longrightarrow> d \<in> set (sources k) \<longrightarrow> (rank d :: nat) < rank c"
  shows "gcr_collection_contains n c x \<longleftrightarrow> shown n c x"
proof -
  have n: "consistent n" using perform_all_consistent [OF assms(1), of rs] assms(2) by simp
  show ?thesis using shown_inside [OF n] inside_shown [OF n assms(3)] by blast
qed

lemma collections_show_witness:
  "\<exists>n. perform_all (no_collections rev) [NewSimple 1, NewUnion 2, TakeCollection 2 1, AddObject 1 5] = Some n \<and>
     (gcr_collection_contains n 2 5 \<longleftrightarrow> shown n 2 5)"
proof -
  obtain n where n: "perform_all (no_collections rev) [NewSimple 1, NewUnion 2, TakeCollection 2 1, AddObject 1 5] = Some n"
      "colls n = [1 \<mapsto> Simple [5], 2 \<mapsto> Union [(5, 1)] [1]]"
    by (auto simp: no_collections_def create_def emit_def finish_def deliver_signals.simps gcr_simple_collection_new_def gcr_simple_collection_add_def
        gcr_union_collection_new_def gcr_union_collection_add_def gcr_union_collection_take_def connect_to_collection_def
        gcr_collection_get_objects_def on_signal_def added_defs fun_eq_iff)
  have "\<forall>c k d. colls n c = Some k \<longrightarrow> d \<in> set (sources k) \<longrightarrow> d < c" using n(2) by (auto split: if_splits)
  then show ?thesis using collections_show [OF hash_law_rev n(1), of id 2 5] n(1) by auto
qed

text \<open>
  C38. Circles keep objects. When unions have each other, all of them having an object, they keep it whatever calls follow, as long as
  none of them removes one of these unions from another: also when the object leaves the collection from
  which it came, when that collection is removed and when everybody else gives up their references. The unions themselves are
  kept as well.
\<close>

theorem circles_keep:
  assumes "hash_law order" "perform_all (no_collections order) rs = Some n" "circle n C x" "\<forall>r \<in> set later_calls. \<not> parts C r"
  shows "\<exists>n'. perform_all n later_calls = Some n' \<and> circle n' C x \<and> (\<forall>u \<in> C. gcr_collection_contains n' u x)"
proof -
  have "consistent n" using perform_all_consistent [OF assms(1), of rs] assms(2) by simp
  from perform_all_ok [OF this, of later_calls] obtain n' where "perform_all n later_calls = Some n'" "circle n' C x"
    using assms(3,4) by blast
  then show ?thesis using circle_inside [of n' C x] by blast
qed

text \<open>Nothing that has the object is left below the two unions, and nobody refers to them but they themselves.\<close>

lemma circles_keep_witness:
  "\<exists>n. perform_all (no_collections id) [NewSimple 1, NewUnion 2, NewUnion 3, TakeCollection 2 1, TakeCollection 2 3, TakeCollection 3 2,
       AddObject 1 7] = Some n \<and>
     (\<exists>n'. perform_all n [RemoveObject 1 7, RemoveCollection 2 1, Release 1, Release 2, Release 3] = Some n' \<and>
       (\<forall>u \<in> {2, 3}. gcr_collection_contains n' u 7))"
proof -
  obtain n where n: "perform_all (no_collections id) [NewSimple 1, NewUnion 2, NewUnion 3, TakeCollection 2 1, TakeCollection 2 3, TakeCollection 3 2,
       AddObject 1 7] = Some n" "colls n = [1 \<mapsto> Simple [7], 2 \<mapsto> Union [(7, 2)] [1, 3], 3 \<mapsto> Union [(7, 1)] [2]]"
    by (auto simp: no_collections_def create_def emit_def finish_def deliver_signals.simps gcr_simple_collection_new_def gcr_simple_collection_add_def
        gcr_union_collection_new_def gcr_union_collection_add_def gcr_union_collection_take_def connect_to_collection_def
        gcr_collection_get_objects_def on_signal_def added_defs fun_eq_iff)
  have "hash_law id" by (simp add: hash_law_def)
  moreover have "circle n {2, 3} 7" by (simp add: circle_def n(2))
  ultimately have "\<exists>n'. perform_all n [RemoveObject 1 7, RemoveCollection 2 1, Release 1, Release 2, Release 3] = Some n' \<and>
      circle n' {2, 3} 7 \<and> (\<forall>u \<in> {2, 3}. gcr_collection_contains n' u 7)"
    by (intro circles_keep [OF _ n(1)]) simp_all
  then show ?thesis using n(1) by blast
qed

end
