(* ===== verification/Spec2Isabelle.thy ===== *)
theory Spec2Isabelle
  imports GcrPrelude Buffer Hex Padding AttributeWorld Enumerator Chain SecureProperties Asn1Elements Asn1ValueProperties ExchangeProperties RecordProperties CollectionProperties
begin

text \<open>
  Gcr: certificates, keys and PKCS#11 objects for desktop programs.

  \<^bold>\<open>The program.\<close> The repository holds three libraries in C. \<open>src/egg/\<close> has the foundations without GObject:
  byte buffers, text forms of bytes, padding, memory for secrets, ASN.1, and arithmetic for key agreement. \<open>src/gck/\<close>
  is a binding of PKCS#11: attributes, and enumerators that search tokens for objects. \<open>src/gcr/\<close> builds on both:
  certificates and their chains, collections of objects, parsers, and the exchange of secrets between a program and its prompter. \<open>src/ui/\<close>
  shows them. The parts meet as follows. Padding, buffers and the secure allocator serve the exchange of secrets and the
  parsers; ASN.1 gives certificates their fields; enumerators give certificate chains their issuers; and attributes carry
  what enumerators search for and find.

  \<^bold>\<open>How C is read.\<close> A function of the source is a function of the same name, from the state that it reads
  to the state that it leaves. Undefined behaviour, an access outside of an object or through \<open>NULL\<close>, and a failed
  \<open>g_assert\<close> are the value \<open>None\<close> of the outermost \<open>option\<close>; a theorem that says \<open>\<exists>r. f x = Some r\<close> is one about
  safety. An inner \<open>None\<close>, a \<open>False\<close> or a constructor for an error is what the function reports to its caller, such
  as \<open>FALSE\<close>, \<open>NULL\<close> or a message. Loops that nothing bounds are partial functions, so that not to return is \<open>None\<close> as well,
  and returning is proved. Integers have their width: \<open>byte\<close>, \<open>u32\<close> and \<open>u64\<close> are words, \<open>size_t\<close> wraps through
  \<open>sz_add\<close> and \<open>sz_mul\<close>, and \<open>gint\<close> wraps an integer into 32 bits with a sign. Where a signed number overflows,
  which C leaves undefined, the model wraps as well, since the code looks for the overflow afterwards. Code that is not in the repository
  is a parameter: allocators (\<open>realloc_fn\<close>, with \<open>realloc_law\<close> and \<open>alloc_total\<close>), the kernel, the random generators, the
  modules of PKCS#11, libgcrypt (\<open>Gcrypt\<close>), and base64 and key files of GLib. What the theorems assume of them is a definition
  with a name, and every theorem with hypotheses is followed by a case in which they all hold.

  \<^bold>\<open>The theories.\<close> \<open>GcrPrelude\<close> has the machine types, checked access to memory, allocators and the collections
  \<open>mem_simps\<close> and \<open>wire_simps\<close> of rewrite rules.

  \<^item> \<open>Buffer\<close> is \<open>egg/egg-buffer.c\<close>: the growable buffer with its sticky failure, and the wire encodings. The locale
    \<open>buffer_field\<close> is the contract of a pair of functions that append and take a field; it is interpreted for every kind
    of field, and fields that were appended are taken back in order. Every write stays inside of the block; the reader of
    lists of strings is safe, and one length overflows it.
  \<^item> \<open>Hex\<close> and \<open>Padding\<close> are \<open>egg/egg-hex.c\<close> and \<open>egg/egg-padding.c\<close>: what is encoded or padded comes back, which texts
    the decoder accepts, and for which lengths PKCS#1 padding aborts.
  \<^item> \<open>SecurePool\<close>, \<open>CellRing\<close>, \<open>SecureBlock\<close> and \<open>SecureMemory\<close> are \<open>egg/egg-secure-memory.c\<close>, from the pool of
    descriptions (\<open>sec_pool_data_on\<close> and below) over the rings and the operations on one block to the public functions.
    The memory of the process is a map from addresses to bytes. \<open>SecureAlloc\<close>, \<open>SecureFree\<close> and \<open>SecureRealloc\<close> show what
    an operation does to a block, \<open>SecureHeap\<close>, \<open>SecureBlocks\<close>, \<open>SecurePublic\<close> and \<open>SecureAllocator\<close> what the public
    functions do to all of memory, and \<open>SecureClient\<close> and \<open>SecureSessions\<close> what callers can rely on in every sequence of calls:
    the allocator refines a table of allocations with their contents, allocations do not meet, and freed ones are erased. The
    locales \<open>item_source\<close> and \<open>zeroing_allocator\<close> are the interfaces of the pool and of the allocator; \<open>SecureStrings\<close>
    proves the copies of strings inside of the second. \<open>SecureLimits\<close> is about requests that are too large.
  \<^item> \<open>Asn1Tlv\<close> is the lower layer of \<open>egg/egg-asn1x.c\<close>: elements as trees (\<open>Atlv\<close>), their parser and writer, and the sorting
    of a \<open>SET OF\<close>. \<open>Asn1Header\<close> and \<open>Asn1Parse\<close> bound what parsing reads, \<open>Asn1Write\<close> shows that the writer
    implements the reference encoding \<open>der\<close>, \<open>Asn1Round\<close> that the parser inverts it, and \<open>Asn1Sort\<close> what sorting does;
    \<open>Asn1Elements\<close> has the properties. \<open>Asn1Values\<close> has the values in elements: integers, booleans, bit
    strings, object identifiers and times; \<open>Asn1Integers\<close>, \<open>Asn1Decimal\<close>, \<open>Asn1Oids\<close> and \<open>Asn1Times\<close> show which of them
    survive, and \<open>Asn1ValueProperties\<close> has the properties.
  \<^item> \<open>Gcrypt\<close> is the interface of libgcrypt. \<open>Hkdf\<close> is \<open>egg/egg-hkdf.c\<close>, with the definition of RFC 5869 as the reference;
    \<open>DhGroups\<close> and \<open>Dh\<close> are the tables and functions of \<open>egg/egg-dh.c\<close>. \<open>Exchange\<close> is \<open>gcr/gcr-secret-exchange.c\<close>: the
    exchange over any class with the four virtual methods, and the default class. The locale \<open>exchange_laws\<close> in
    \<open>ExchangeClass\<close> is the contract of such a class, interpreted for the default one; \<open>ExchangeProtocol\<close> proves
    inside of it that conversations deliver their secrets. \<open>ExchangeSafety\<close> has the invariant of an object under arbitrary
    calls, \<open>ExchangeDemo\<close> concrete parameters, and \<open>ExchangeProperties\<close> the properties.
  \<^item> \<open>Attributes\<close> is \<open>gck/gck-attributes.c\<close> with the values of \<open>gck/gck-misc.c\<close>, over a heap of blocks with reference
    counts and of the memory that callers hand over. The counts are of the type \<open>gint\<close>, and the theorems say how many
    owners there may be. The structure and the array of a builder or of a set have one owner at a time, and are
    values: when they are freed they become \<open>None\<close>. \<open>AttributeHeap\<close> has the ownership of the blocks, and the locale \<open>builder_op\<close> for operations of a builder that implement
    an operation on lists of typed values; \<open>AttributeWorld\<close> has programs with any number of builders and sets.
  \<^item> \<open>Enumerator\<close> is \<open>gck/gck-enumerator.c\<close>: the handlers of the state machine one by one, each with its way forward and
    its way back, and the calls of \<open>gck/gck-call.c\<close> that run it, with their cancellation. What is still unread is a list of entries, the
    objects and in their places \<open>None\<close> for those whose attributes cannot be read. The locale \<open>object_stream\<close> is what the caller of \<open>gck_enumerator_next\<close> sees.
  \<^item> \<open>Chain\<close> is \<open>gcr/gcr-certificate-chain.c\<close>: building a chain, in the same thread and in another one. The inductive
    relation \<open>builds\<close> is the specification of the result.
  \<^item> \<open>Records\<close> is \<open>gcr/gcr-record.c\<close>: records of columns, their escapes and numbers, and lists of them in lines.
    \<open>RecordText\<close> has what the loops over text compute, \<open>RecordProperties\<close> the properties.
  \<^item> \<open>Collections\<close> is \<open>gcr/gcr-simple-collection.c\<close>, \<open>gcr/gcr-single-collection.c\<close>, \<open>gcr/gcr-filter-collection.c\<close> and
    \<open>gcr/gcr-union-collection.c\<close> as one network: a filter and a union hold other collections and follow their signals
    \<open>added\<close> and \<open>removed\<close>, which \<open>deliver_signals\<close> carries on from handler to handler. \<open>CollectionNet\<close> has the
    invariant, that every collection agrees with those below it but for the signals on their way, and the circles of unions, \<open>CollectionDeliver\<close>
    and \<open>CollectionFilters\<close> the delivery, \<open>CollectionCalls\<close> the public calls, and \<open>CollectionProperties\<close> the properties, with the
    inductive predicate \<open>shown\<close> as the specification of what a collection has.

  \<^bold>\<open>Interfaces.\<close> Each locale is interpreted on the definitions of the program, and the properties rest on the
  interpretations: \<open>buffer_field\<close> for the fields of a buffer, \<open>item_source\<close> for the pool of descriptions, \<open>zeroing_allocator\<close>
  for the secure allocator, \<open>builder_op\<close> for the operations of a builder, \<open>object_stream\<close> for the enumerator, and
  \<open>exchange_laws\<close> for the default class of exchanges.

  \<^bold>\<open>Bounds and fuel.\<close> Loops whose end depends on a module, on pointers that the code itself links, or on data are
  partial functions or have a fuel that the callers choose from the data: the parser of elements recurses at most
  as often as there are bytes, the enumerator moves at most \<open>int_max\<close> objects at once, and the building of a chain ends unless authorities
  that are neither self-signed nor trusted issued each other in a circle. Where fuel appears, a lemma shows that the amount that is passed is
  enough. Lengths that the code keeps in a \<open>gint\<close> are assumed to be below \<open>2 ^ 31\<close> where a theorem says so; the dates of
  two digits are right for present years from 40 on; the key derivation gives at most 255 blocks, as RFC 5869 has it; records have at
  most \<open>MAX_COLUMNS\<close> columns. The delivery of signals is a partial function too; it ends, in circles as well, because the pairs of a collection and an object that a kind of signal can still change become fewer each time that a signal goes on.

  \<^bold>\<open>Not modelled.\<close> The objects of PKCS#11 (sessions, slots, modules): each operation packs arguments, calls a function
  of a loaded module in a thread, and unpacks its results. URIs, which p11-kit parses. The tree of ASN.1 definitions that chooses
  which element is which field, and what rests on it: the parser of key formats, the fields of
  certificates, requests for certificates, and the encrypted containers of keys. Key files of OpenSSH and packets of OpenPGP,
  the processes of GnuPG and their collections. Prompts, which are objects of D-Bus, importers and other asynchronous
  steps of GObject. Names, identifiers, armor, icons and other small objects. Everything in \<open>ui/\<close>, which is presentation; tests,
  generated tables and vendored headers. Inside of the modelled files these are left out: GObject properties, signals and debug
  output; the release of objects in finalizers; the dates and the textual form of attributes; the enumeration of blocks
  for tests in the secure memory; the handlers that programs connect to the signals of collections, which could call back; contexts and single blocks of
  libgcrypt that fail in the key derivation and in the ciphers of an exchange; the threads and queues of asynchronous calls.
\<close>

end
